(* ===== verification/Prelude.thy ===== *)
theory Prelude
  imports Main "HOL-Library.Word"
begin

unbundle bit_operations_syntax

text \<open>
  What the components share: the machine types and the error codes of
  \<^verbatim>\<open>src/src/util/types.h\<close>, the byte-order conversions and unaligned accesses of
  \<^verbatim>\<open>src/src/util/macro.h\<close>, C strings, memory as a function from offsets to bytes, and
  the collections of rewrite rules the component proofs use.

  The target is the one the build files name: an LP64 little-endian machine (\<open>int\<close> 32 bits,
  \<open>size_t\<close> 64 bits, \<open>char\<close> signed), a build without \<^verbatim>\<open>_DEBUG\<close>, where
  \<^verbatim>\<open>ASSERT\<close> and \<^verbatim>\<open>TRACE\<close> expand to nothing.
\<close>

named_theorems mem_simps \<open>reading back what was written to a buffer\<close>
named_theorems code_defs \<open>the definitions of the operations of a component\<close>
named_theorems inv_intros \<open>operations that keep the invariant of their component\<close>

section \<open>Machine types\<close>

type_synonym U8 = "8 word"
type_synonym U16 = "16 word"
type_synonym U32 = "32 word"
type_synonym U64 = "64 word"

text \<open>The error codes: negative \<open>int\<close>s in the code, constructors of a sum's left side here.\<close>

datatype nbr_error =
    EMALLOC | EEXPIRE | EINVPTR | ERANGE | EALREADY | EINVAL | EINTERNAL | EIOCTL
  | ENOTFOUND | EPROTO | EHOSTBYNAME | EBIND | ECONNECT | EACCEPT | EFORMAT | ELENGTH
  | ELISTEN | EEPOLL | EPTHREAD | ESOCKET | ESHORT | ENOTSUPPORT | EFORK | ESYSCALL
  | ETIMEOUT | ESOCKOPT | EDUP | ERLIMIT | ESIGNAL | ESEND | ECBFAIL | ECONFIGURE
  | EFULL | ERIGHT | EAGAIN | ECANCEL | EPENDING | EKQUEUE

fun nbr_code :: "nbr_error \<Rightarrow> int" where
  "nbr_code EMALLOC = -1" | "nbr_code EEXPIRE = -2" | "nbr_code EINVPTR = -3"
| "nbr_code ERANGE = -4" | "nbr_code EALREADY = -5" | "nbr_code EINVAL = -6"
| "nbr_code EINTERNAL = -7" | "nbr_code EIOCTL = -8" | "nbr_code ENOTFOUND = -9"
| "nbr_code EPROTO = -10" | "nbr_code EHOSTBYNAME = -11" | "nbr_code EBIND = -12"
| "nbr_code ECONNECT = -13" | "nbr_code EACCEPT = -14" | "nbr_code EFORMAT = -15"
| "nbr_code ELENGTH = -16" | "nbr_code ELISTEN = -17" | "nbr_code EEPOLL = -18"
| "nbr_code EPTHREAD = -19" | "nbr_code ESOCKET = -20" | "nbr_code ESHORT = -21"
| "nbr_code ENOTSUPPORT = -22" | "nbr_code EFORK = -23" | "nbr_code ESYSCALL = -24"
| "nbr_code ETIMEOUT = -25" | "nbr_code ESOCKOPT = -26" | "nbr_code EDUP = -27"
| "nbr_code ERLIMIT = -28" | "nbr_code ESIGNAL = -29" | "nbr_code ESEND = -30"
| "nbr_code ECBFAIL = -31" | "nbr_code ECONFIGURE = -32" | "nbr_code EFULL = -33"
| "nbr_code ERIGHT = -34" | "nbr_code EAGAIN = -35" | "nbr_code ECANCEL = -36"
| "nbr_code EPENDING = -37" | "nbr_code EKQUEUE = -38"

lemma nbr_code_negative: "nbr_code e < 0"
  by (cases e) simp_all

text \<open>The codes are different, so the errors are ordered as the code orders its results.\<close>

lemma nbr_code_inject: "nbr_code a = nbr_code b \<Longrightarrow> a = b"
  by (cases a; cases b) simp_all

instantiation nbr_error :: linorder
begin

definition less_eq_nbr_error :: "nbr_error \<Rightarrow> nbr_error \<Rightarrow> bool" where
  "less_eq_nbr_error a b \<longleftrightarrow> nbr_code a \<le> nbr_code b"

definition less_nbr_error :: "nbr_error \<Rightarrow> nbr_error \<Rightarrow> bool" where
  "less_nbr_error a b \<longleftrightarrow> nbr_code a < nbr_code b"

instance
  by standard (auto simp: less_eq_nbr_error_def less_nbr_error_def intro: nbr_code_inject)

end

text \<open>An \<open>int\<close> result of the code: an error, or a count that is not negative.\<close>

fun int_result :: "nbr_error + nat \<Rightarrow> int" where
  "int_result (Inl e) = nbr_code e"
| "int_result (Inr n) = int n"

lemma int_result_mono: "int_result (Inl a) \<le> int_result (Inl b) \<longleftrightarrow> a \<le> b" "int_result (Inl a) < int_result (Inr n)"
  using nbr_code_negative [of a] by (simp_all add: less_eq_nbr_error_def)

lemma int_result_error_iff: "int_result r < 0 \<longleftrightarrow> (\<exists>e. r = Inl e)"
  by (cases r) (auto simp: nbr_code_negative)

section \<open>Byte order and unaligned access\<close>

text \<open>\<open>htons\<close>, \<open>htonl\<close> of the C library on a little-endian machine; \<open>htonll\<close> as macro.h has it.\<close>

definition htons :: "U16 \<Rightarrow> U16" where
  "htons n = push_bit 8 n OR drop_bit 8 n"

definition htonl :: "U32 \<Rightarrow> U32" where
  "htonl n = push_bit 24 n OR push_bit 8 (n AND 0xff00) OR (drop_bit 8 n AND 0xff00) OR drop_bit 24 n"

definition htonll :: "U64 \<Rightarrow> U64" where
  "htonll n = push_bit 32 (ucast (htonl (ucast n))) + ucast (htonl (ucast (drop_bit 32 n)))"

definition ntohll :: "U64 \<Rightarrow> U64" where
  "ntohll n = push_bit 32 (ucast (htonl (ucast n))) + ucast (htonl (ucast (drop_bit 32 n)))"

text \<open>Memory: the bytes of one allocation, by offset.\<close>

type_synonym mem = "nat \<Rightarrow> U8"

definition SET_16 :: "mem \<Rightarrow> nat \<Rightarrow> U16 \<Rightarrow> mem" where
  "SET_16 m p v = m(p := ucast v, p + 1 := ucast (drop_bit 8 v))"

definition SET_32 :: "mem \<Rightarrow> nat \<Rightarrow> U32 \<Rightarrow> mem" where
  "SET_32 m p v = m(p := ucast v, p + 1 := ucast (drop_bit 8 v),
     p + 2 := ucast (drop_bit 16 v), p + 3 := ucast (drop_bit 24 v))"

definition SET_64 :: "mem \<Rightarrow> nat \<Rightarrow> U64 \<Rightarrow> mem" where
  "SET_64 m p v = SET_32 (SET_32 m p (ucast v)) (p + 4) (ucast (drop_bit 32 v))"

definition GET_16 :: "mem \<Rightarrow> nat \<Rightarrow> U16" where
  "GET_16 m p = ucast (m p) OR push_bit 8 (ucast (m (p + 1)))"

definition GET_32 :: "mem \<Rightarrow> nat \<Rightarrow> U32" where
  "GET_32 m p = ucast (m p) OR push_bit 8 (ucast (m (p + 1)))
     OR push_bit 16 (ucast (m (p + 2))) OR push_bit 24 (ucast (m (p + 3)))"

definition GET_64 :: "mem \<Rightarrow> nat \<Rightarrow> U64" where
  "GET_64 m p = ucast (GET_32 m p) OR push_bit 32 (ucast (GET_32 m (p + 4)))"

text \<open>The bytes of \<open>m\<close> at \<open>[p, p + n)\<close>, and \<open>memcpy\<close> of a byte list to offset \<open>p\<close>.\<close>

definition bytes_at :: "mem \<Rightarrow> nat \<Rightarrow> nat \<Rightarrow> U8 list" where
  "bytes_at m p n = map m [p ..< p + n]"

definition mem_copy :: "mem \<Rightarrow> nat \<Rightarrow> U8 list \<Rightarrow> mem" where
  "mem_copy m p bs = (\<lambda>i. if p \<le> i \<and> i < p + length bs then bs ! (i - p) else m i)"

text \<open>The big-endian bytes of a word: what \<open>SET_n(p, hton(v))\<close> leaves in memory.\<close>

definition be16 :: "U16 \<Rightarrow> U8 list" where
  "be16 v = [ucast (drop_bit 8 v), ucast v]"

definition be32 :: "U32 \<Rightarrow> U8 list" where
  "be32 v = [ucast (drop_bit 24 v), ucast (drop_bit 16 v), ucast (drop_bit 8 v), ucast v]"

definition be64 :: "U64 \<Rightarrow> U8 list" where
  "be64 v = be32 (ucast (drop_bit 32 v)) @ be32 (ucast v)"

lemma length_be [simp]: "length (be16 a) = 2" "length (be32 b) = 4" "length (be64 c) = 8"
  by (simp_all add: be16_def be32_def be64_def)

lemma length_bytes_at [simp]: "length (bytes_at m p n) = n"
  by (simp add: bytes_at_def)

lemma bytes_at_0 [simp]: "bytes_at m p 0 = []"
  by (simp add: bytes_at_def)

lemma nth_bytes_at [simp]: "i < n \<Longrightarrow> bytes_at m p n ! i = m (p + i)"
  by (simp add: bytes_at_def)

lemma bytes_at_eqI: "(\<And>i. i < n \<Longrightarrow> m (p + i) = m' (p' + i)) \<Longrightarrow> bytes_at m p n = bytes_at m' p' n"
  by (simp add: list_eq_iff_nth_eq)

lemma bytes_at_append: "bytes_at m p (a + b) = bytes_at m p a @ bytes_at m (p + a) b"
  by (auto simp: list_eq_iff_nth_eq nth_append)

lemma bytes_at_Suc: "bytes_at m p (Suc n) = m p # bytes_at m (Suc p) n"
  using bytes_at_append [of m p 1 n] by (simp add: bytes_at_def)

lemma take_bytes_at: "k \<le> n \<Longrightarrow> take k (bytes_at m p n) = bytes_at m p k"
  by (auto simp: list_eq_iff_nth_eq)

lemma drop_bytes_at: "drop k (bytes_at m p n) = bytes_at m (p + k) (n - k)"
  by (auto simp: list_eq_iff_nth_eq add.assoc)

lemma bytes_at_mem_copy [mem_simps]:
  "bytes_at (mem_copy m p bs) p (length bs) = bs"
  by (auto simp: list_eq_iff_nth_eq mem_copy_def)

lemma bytes_at_mem_copy_below [mem_simps]:
  "q + n \<le> p \<Longrightarrow> bytes_at (mem_copy m p bs) q n = bytes_at m q n"
  by (auto simp: list_eq_iff_nth_eq mem_copy_def)

lemma mem_copy_append: "mem_copy (mem_copy m p as) (p + length as) bs = mem_copy m p (as @ bs)"
  by (auto simp: mem_copy_def fun_eq_iff nth_append)

lemma mem_copy_Nil [simp]: "mem_copy m p [] = m"
  by (auto simp: mem_copy_def fun_eq_iff)

lemma mem_copy_single: "mem_copy m p [b] = m(p := b)"
  by (auto simp: mem_copy_def fun_eq_iff)

subsection \<open>What the conversions leave in memory\<close>

lemma mem_copy_Cons: "mem_copy m p (b # bs) = mem_copy (m(p := b)) (p + 1) bs"
  using mem_copy_append [of m p "[b]" bs] by (simp add: mem_copy_single)

lemma SET_16_htons [mem_simps]: "SET_16 m p (htons v) = mem_copy m p (be16 v)"
proof -
  have "(ucast (htons v) :: U8) = ucast (drop_bit 8 v)"
    by (rule bit_word_eqI) (auto simp: htons_def bit_simps)
  moreover have "(ucast (drop_bit 8 (htons v)) :: U8) = ucast v"
    by (rule bit_word_eqI) (auto simp: htons_def bit_simps)
  ultimately show ?thesis
    by (simp add: SET_16_def be16_def mem_copy_Cons)
qed

lemma bit_beyond:
  "8 \<le> n \<Longrightarrow> \<not> bit (b :: U8) n" "16 \<le> n \<Longrightarrow> \<not> bit (h :: U16) n" "32 \<le> n \<Longrightarrow> \<not> bit (w :: U32) n"
  by (auto dest: bit_imp_le_length)

lemma bit_byte_cases:
  obtains "(n::nat) < 8" | "8 \<le> n" "n < 16" | "16 \<le> n" "n < 24" | "24 \<le> n"
  by linarith

lemma htonl_bytes:
  shows "(ucast (htonl v) :: U8) = ucast (drop_bit 24 v)"
    and "(ucast (drop_bit 8 (htonl v)) :: U8) = ucast (drop_bit 16 v)"
    and "(ucast (drop_bit 16 (htonl v)) :: U8) = ucast (drop_bit 8 v)"
    and "(ucast (drop_bit 24 (htonl v)) :: U8) = ucast v"
proof -
  have ff: "bit (0xff00 :: U32) n \<longleftrightarrow> 8 \<le> n \<and> n < 16" for n
  proof -
    have *: "(0xff00 :: U32) = push_bit 8 (mask 8)" by (simp add: mask_eq_exp_minus_1)
    show ?thesis unfolding * by (auto simp: bit_simps simp del: push_bit_mask_eq)
  qed
  have ffi: "bit (0xff00 :: int) n \<longleftrightarrow> 8 \<le> n \<and> n < 16" for n
  proof -
    have *: "(0xff00 :: int) = push_bit 8 (mask 8)" by (simp add: mask_eq_exp_minus_1)
    show ?thesis unfolding * by (auto simp: bit_simps simp del: push_bit_mask_eq)
  qed
  have m8: "bit (0xff :: int) n \<longleftrightarrow> n < 8" for n
  proof -
    have *: "(0xff :: int) = mask 8" by (simp add: mask_eq_exp_minus_1)
    show ?thesis unfolding * by (simp add: bit_simps)
  qed
  show "(ucast (htonl v) :: U8) = ucast (drop_bit 24 v)"
    by (rule bit_word_eqI) (auto simp: htonl_def bit_simps ff ffi m8 bit_beyond)
  show "(ucast (drop_bit 8 (htonl v)) :: U8) = ucast (drop_bit 16 v)"
    by (rule bit_word_eqI) (auto simp: htonl_def bit_simps ff ffi m8 bit_beyond)
  show "(ucast (drop_bit 16 (htonl v)) :: U8) = ucast (drop_bit 8 v)"
    by (rule bit_word_eqI) (auto simp: htonl_def bit_simps ff ffi m8 bit_beyond)
  show "(ucast (drop_bit 24 (htonl v)) :: U8) = ucast v"
    by (rule bit_word_eqI) (auto simp: htonl_def bit_simps ff ffi m8 bit_beyond)
qed

lemma SET_32_bytes:
  "SET_32 m p v = mem_copy m p
     [ucast v, ucast (drop_bit 8 v), ucast (drop_bit 16 v), ucast (drop_bit 24 v)]"
  by (simp add: SET_32_def mem_copy_Cons eval_nat_numeral)

lemma SET_32_htonl [mem_simps]: "SET_32 m p (htonl v) = mem_copy m p (be32 v)"
  by (simp add: SET_32_bytes htonl_bytes be32_def)

lemma htonll_halves:
  "(ucast (htonll v) :: U32) = htonl (ucast (drop_bit 32 v))"
  "(ucast (drop_bit 32 (htonll v)) :: U32) = htonl (ucast v)"
proof -
  have "htonll v = push_bit 32 (ucast (htonl (ucast v))) OR ucast (htonl (ucast (drop_bit 32 v)))"
    unfolding htonll_def by (rule disjunctive_add) (auto simp: bit_simps bit_beyond)
  then show "(ucast (htonll v) :: U32) = htonl (ucast (drop_bit 32 v))"
    and "(ucast (drop_bit 32 (htonll v)) :: U32) = htonl (ucast v)"
    by (auto intro!: bit_word_eqI simp: bit_simps bit_beyond)
qed

lemma SET_64_htonll [mem_simps]: "SET_64 m p (htonll v) = mem_copy m p (be64 v)"
  by (simp add: SET_64_def htonll_halves SET_32_htonl be64_def flip: mem_copy_append)

subsection \<open>What the reads make of those bytes\<close>

lemma ntohs_GET_16:
  assumes "bytes_at m p 2 = be16 v"
  shows "htons (GET_16 m p) = v"
proof -
  have "m p = ucast (drop_bit 8 v)" "m (p + 1) = ucast v"
    using assms by (simp_all add: bytes_at_def be16_def eval_nat_numeral)
  then show ?thesis
    by (intro bit_word_eqI) (auto simp: GET_16_def htons_def bit_simps)
qed

lemma word32_from_bytes:
  fixes v :: U32
  shows "v = ucast (ucast v :: U8) OR push_bit 8 (ucast (ucast (drop_bit 8 v) :: U8))
    OR push_bit 16 (ucast (ucast (drop_bit 16 v) :: U8)) OR push_bit 24 (ucast (ucast (drop_bit 24 v) :: U8))"
proof (rule bit_word_eqI)
  fix n assume "n < LENGTH(32)"
  then show "bit v n = bit ((ucast (ucast v :: U8) :: U32) OR push_bit 8 (ucast (ucast (drop_bit 8 v) :: U8))
    OR push_bit 16 (ucast (ucast (drop_bit 16 v) :: U8)) OR push_bit 24 (ucast (ucast (drop_bit 24 v) :: U8))) n"
    by (cases n rule: bit_byte_cases) (auto simp: bit_simps)
qed

lemma htonl_eqI:
  assumes "(ucast w :: U8) = ucast (drop_bit 24 v)" "(ucast (drop_bit 8 w) :: U8) = ucast (drop_bit 16 v)"
    "(ucast (drop_bit 16 w) :: U8) = ucast (drop_bit 8 v)" "(ucast (drop_bit 24 w) :: U8) = ucast v"
  shows "htonl w = v"
  by (subst (1 2) word32_from_bytes) (simp add: htonl_bytes assms)

lemma GET_32_bytes:
  "(ucast (GET_32 m p) :: U8) = m p"
  "(ucast (drop_bit 8 (GET_32 m p)) :: U8) = m (p + 1)"
  "(ucast (drop_bit 16 (GET_32 m p)) :: U8) = m (p + 2)"
  "(ucast (drop_bit 24 (GET_32 m p)) :: U8) = m (p + 3)"
  by (auto intro!: bit_word_eqI simp: GET_32_def bit_simps bit_beyond)

lemma bytes_at_4: "bytes_at m p 4 = [m p, m (p + 1), m (p + 2), m (p + 3)]"
proof -
  have "[p ..< p + 4] = [p, p + 1, p + 2, p + 3]"
    by (rule nth_equalityI) (auto simp: less_Suc_eq eval_nat_numeral)
  then show ?thesis by (simp add: bytes_at_def)
qed

lemma ntohl_GET_32:
  assumes "bytes_at m p 4 = be32 v"
  shows "htonl (GET_32 m p) = v"
proof -
  have *: "m p = ucast (drop_bit 24 v)" "m (p + 1) = ucast (drop_bit 16 v)"
    "m (p + 2) = ucast (drop_bit 8 v)" "m (p + 3) = ucast v"
    using assms unfolding bytes_at_4 be32_def by blast+
  show ?thesis
    by (rule htonl_eqI) (simp_all add: GET_32_bytes * [simplified])
qed

lemma ntohll_GET_64:
  assumes "bytes_at m p 8 = be64 v"
  shows "ntohll (GET_64 m p) = v"
proof -
  have "bytes_at m p 4 @ bytes_at m (p + 4) 4 = be64 v"
    using assms bytes_at_append [of m p 4 4] by simp
  then have "bytes_at m p 4 = be32 (ucast (drop_bit 32 v))" "bytes_at m (p + 4) 4 = be32 (ucast v)"
    by (simp_all add: be64_def)
  note hl = this [THEN ntohl_GET_32]
  have "(ucast (GET_64 m p) :: U32) = GET_32 m p" "(ucast (drop_bit 32 (GET_64 m p)) :: U32) = GET_32 m (p + 4)"
    by (auto intro!: bit_word_eqI simp: GET_64_def bit_simps bit_beyond)
  then have "ntohll (GET_64 m p) = push_bit 32 (ucast (ucast (drop_bit 32 v) :: U32)) + ucast (ucast v :: U32)"
    by (simp add: ntohll_def hl)
  also have "\<dots> = push_bit 32 (ucast (ucast (drop_bit 32 v) :: U32)) OR ucast (ucast v :: U32)"
    by (rule disjunctive_add) (auto simp: bit_simps)
  also have "\<dots> = v"
    by (rule bit_word_eqI) (auto simp: bit_simps)
  finally show ?thesis .
qed

section \<open>Sums over lists\<close>

lemma sum_list_map_update:
  fixes f :: "'a \<Rightarrow> nat"
  shows "k < length xs \<Longrightarrow> sum_list (map f (xs[k := x])) = sum_list (map f xs) + f x - f (xs ! k)"
  by (simp add: map_update sum_list_update)

lemma nth_le_sum_list_map:
  fixes f :: "'a \<Rightarrow> nat"
  shows "k < length xs \<Longrightarrow> f (xs ! k) \<le> sum_list (map f xs)"
  by (rule member_le_sum_list) simp_all

text \<open>A \<open>size_t\<close> that is returned as an \<open>int\<close>.\<close>

definition int_of_size :: "nat \<Rightarrow> int" where
  "int_of_size n = sint (word_of_nat n :: U32)"

lemma int_of_size_small: "n < 2 ^ 31 \<Longrightarrow> int_of_size n = int n"
  by (simp add: int_of_size_def sint_uint unsigned_of_nat signed_take_bit_int_eq_self take_bit_nat_eq_self)

end
