(* ===== verification/MsgId.thy ===== *)
theory MsgId
  imports Prelude
begin

text \<open>
  \<^verbatim>\<open>src/src/util/msgid.h\<close>: the identifier generator, at \<open>NUMERIC = U32\<close>, the only
  instance of the program (message ids of the serializer, serials of the write buffer, logical
  clocks).  The state is \<open>m_msgid_seed\<close>.  \<open>new_id\<close> is two atomic instructions; \<open>new_id\<close> below
  is the pair run without interruption, and \<open>gen_step\<close> is the interleaving of any number of
  threads.  The lemmas: one thread only gets ids in \<open>(START, LIMIT]\<close>, successive and, over a
  full period, distinct; \<open>compare_msgid\<close> orders ids less than half a period apart, also over
  the turn-around; two threads that interleave at the limit push the seed past it.
\<close>

section \<open>The generator\<close>

definition MSGID_START :: U32 where
  "MSGID_START = 1000"

definition MSGID_LIMIT :: U32 where
  "MSGID_LIMIT = push_bit ((4 - 1) * 8) 0x80 - 1"

definition INVALID_MSGID :: U32 where
  "INVALID_MSGID = 0"

text \<open>\<open>__sync_val_compare_and_swap(&m_msgid_seed, MSGID_LIMIT, MSGID_START)\<close>\<close>

definition cas_seed :: "U32 \<Rightarrow> U32" where
  "cas_seed seed = (if seed = MSGID_LIMIT then MSGID_START else seed)"

text \<open>The seed after \<open>new_id\<close> and the id it returns.\<close>

definition new_id :: "U32 \<Rightarrow> U32 \<times> U32" where
  "new_id seed = (let s = cas_seed seed + 1 in (s, s))"

definition valid_msgid :: "U32 \<Rightarrow> bool" where
  "valid_msgid i = (i \<noteq> INVALID_MSGID)"

definition is_continuous_id :: "U32 \<Rightarrow> U32 \<Rightarrow> bool" where
  "is_continuous_id prev next =
     (if next - prev = 1 then True else next = MSGID_START + 1 \<and> prev = MSGID_LIMIT)"

definition compare_msgid :: "U32 \<Rightarrow> U32 \<Rightarrow> int" where
  "compare_msgid a b =
     (if a < b then (if b - a < MSGID_LIMIT div 2 then -1 else 1)
      else if a > b then (if a - b \<le> MSGID_LIMIT div 2 then 1 else -1)
      else 0)"

lemma MSGID_LIMIT_val: "MSGID_LIMIT = 0x7fffffff"
  by (simp add: MSGID_LIMIT_def)

lemmas msgid_consts = MSGID_START_def MSGID_LIMIT_val INVALID_MSGID_def

declare new_id_def [code_defs] cas_seed_def [code_defs] is_continuous_id_def [code_defs]
  compare_msgid_def [code_defs] valid_msgid_def [code_defs]

section \<open>One thread\<close>

text \<open>The seeds a generator can hold: what the constructor writes, kept by \<open>new_id\<close>.\<close>

definition seed_ok :: "U32 \<Rightarrow> bool" where
  "seed_ok s \<longleftrightarrow> MSGID_START \<le> s \<and> s \<le> MSGID_LIMIT"

lemma seed_ok_start: "seed_ok MSGID_START"
  by (simp add: seed_ok_def msgid_consts)

lemma new_id_fst_snd: "fst (new_id s) = snd (new_id s)"
  by (simp add: new_id_def Let_def)

text \<open>
  An id as its distance from \<open>START + 1\<close>: the \<open>k\<close>-th call from a seed returns the \<open>k\<close>-th
  number of the cycle that starts there.
\<close>

definition period :: nat where
  "period = 0x7fffffff - 1000"

lemma unat_neq_limit: "s \<noteq> MSGID_LIMIT \<Longrightarrow> unat s \<noteq> 0x7fffffff"
proof
  assume "s \<noteq> MSGID_LIMIT" "unat s = 0x7fffffff"
  then have "unat s = unat MSGID_LIMIT" by (simp add: msgid_consts)
  with \<open>s \<noteq> MSGID_LIMIT\<close> show False by (simp only: word_unat_eq_iff)
qed

lemma seed_ok_nat: "seed_ok s \<longleftrightarrow> 1000 \<le> unat s \<and> unat s \<le> 0x7fffffff"
  by (simp add: seed_ok_def msgid_consts word_le_nat_alt)

lemma new_id_nat:
  assumes "seed_ok s"
  shows "unat (snd (new_id s)) = 1001 + (unat s - 1000) mod period"
proof (cases "s = MSGID_LIMIT")
  case True
  then show ?thesis by (simp add: code_defs msgid_consts period_def)
next
  case False
  then have "unat s \<noteq> 0x7fffffff" by (rule unat_neq_limit)
  with assms have "1000 \<le> unat s" "unat s - 1000 < period"
    unfolding seed_ok_nat period_def by linarith+
  then have "(unat s - 1000) mod period = unat s - 1000" "unat s + 1 < 2 ^ 32"
    by (simp_all add: period_def)
  with \<open>1000 \<le> unat s\<close> False show ?thesis
    by (simp add: code_defs unat_word_ariths Let_def)
qed

lemma new_id_range:
  assumes "seed_ok s"
  shows "MSGID_START < snd (new_id s) \<and> snd (new_id s) \<le> MSGID_LIMIT"
proof -
  have "(unat s - 1000) mod period < period" by (simp add: period_def)
  then have "1000 < unat (snd (new_id s))" "unat (snd (new_id s)) \<le> 0x7fffffff"
    unfolding new_id_nat [OF assms] by (simp_all add: period_def)
  then show ?thesis
    by (simp add: msgid_consts word_less_nat_alt word_le_nat_alt)
qed

lemma seed_ok_new_id [inv_intros]: "seed_ok s \<Longrightarrow> seed_ok (snd (new_id s))"
  using new_id_range [of s] by (auto simp: seed_ok_def intro: less_imp_le)

text \<open>The ids of \<open>n\<close> successive calls.\<close>

fun new_ids :: "nat \<Rightarrow> U32 \<Rightarrow> U32 list" where
  "new_ids 0 s = []"
| "new_ids (Suc n) s = snd (new_id s) # new_ids n (fst (new_id s))"

lemma nth_new_ids:
  assumes "seed_ok s" and "k < n"
  shows "unat (new_ids n s ! k) = 1001 + (unat s - 1000 + k) mod period"
  using assms
proof (induction n arbitrary: s k)
  case 0
  then show ?case by simp
next
  case (Suc n)
  note nat = new_id_nat [OF Suc.prems(1)]
  show ?case
  proof (cases k)
    case 0
    with nat show ?thesis by simp
  next
    case (Suc j)
    have ok: "seed_ok (snd (new_id s))" by (rule seed_ok_new_id) fact
    have "unat (new_ids n (snd (new_id s)) ! j)
        = 1001 + (Suc ((unat s - 1000) mod period + j)) mod period"
      using Suc.IH [OF ok, of j] Suc.prems Suc nat by simp
    also have "\<dots> = 1001 + (unat s - 1000 + k) mod period"
      unfolding Suc by (metis add_Suc_right mod_Suc_eq mod_add_left_eq)
    finally show ?thesis using Suc by (simp add: new_id_fst_snd)
  qed
qed

lemma length_new_ids [simp]: "length (new_ids n s) = n"
  by (induction n arbitrary: s) simp_all

lemma mod_window_inj:
  fixes a p :: nat
  assumes "i < p" "j < p" "(a + i) mod p = (a + j) mod p"
  shows "i = j"
proof (rule ccontr)
  assume "i \<noteq> j"
  then consider "i < j" | "j < i" by linarith
  then show False
  proof cases
    case 1
    with assms(3) have "p dvd (a + j) - (a + i)" by (metis mod_eq_dvd_iff_nat add_le_cancel_left less_imp_le)
    with 1 assms show False by (auto dest: dvd_imp_le)
  next
    case 2
    with assms(3) have "p dvd (a + i) - (a + j)" by (metis mod_eq_dvd_iff_nat add_le_cancel_left less_imp_le)
    with 2 assms show False by (auto dest: dvd_imp_le)
  qed
qed

lemma distinct_new_ids_aux:
  assumes "seed_ok s" and "n \<le> period"
  shows "distinct (new_ids n s)"
  unfolding distinct_conv_nth
proof (intro allI impI)
  fix i j assume ij: "i < length (new_ids n s)" "j < length (new_ids n s)" "i \<noteq> j"
  with assms(2) mod_window_inj [of i period j "unat s - 1000"]
  have "(unat s - 1000 + i) mod period \<noteq> (unat s - 1000 + j) mod period" by auto
  with ij show "new_ids n s ! i \<noteq> new_ids n s ! j"
    using nth_new_ids [OF assms(1), of i n] nth_new_ids [OF assms(1), of j n] by auto
qed

lemma set_new_ids: "seed_ok s \<Longrightarrow> i \<in> set (new_ids n s) \<Longrightarrow> MSGID_START < i \<and> i \<le> MSGID_LIMIT"
proof (induction n arbitrary: s)
  case (Suc n)
  then show ?case
    using new_id_range [of s] seed_ok_new_id [of s] by (auto simp: new_id_fst_snd)
qed simp

lemma continuous_new_id: "seed_ok s \<Longrightarrow> s \<noteq> MSGID_START \<Longrightarrow> is_continuous_id s (snd (new_id s))"
  by (auto simp: code_defs Let_def)

text \<open>
  Comparison on the cycle.  Ids less than half the limit apart are put in the order they
  were issued, also when the later one has turned around.
\<close>

lemma compare_msgid_nat:
  "compare_msgid a b =
     (if unat a < unat b then (if unat b - unat a < 0x3fffffff then -1 else 1)
      else if unat b < unat a then (if unat a - unat b \<le> 0x3fffffff then 1 else -1)
      else 0)"
proof -
  have *: "MSGID_LIMIT div 2 = 0x3fffffff"
    by (simp add: msgid_consts)
  have "unat (b - a) = unat b - unat a" if "unat a \<le> unat b"
    using that by (simp add: unat_sub word_le_nat_alt)
  moreover have "unat (a - b) = unat a - unat b" if "unat b \<le> unat a"
    using that by (simp add: unat_sub word_le_nat_alt)
  ultimately show ?thesis
    by (auto simp: compare_msgid_def * word_less_nat_alt word_le_nat_alt)
qed

section \<open>Several threads\<close>

text \<open>
  A thread inside \<open>new_id\<close> has done the compare-and-swap and not yet the addition.
\<close>

record gen_state =
  seed :: U32
  in_new_id :: "nat \<Rightarrow> bool"
  issued :: "U32 list"

definition gen_init :: gen_state where
  "gen_init = \<lparr>seed = MSGID_START, in_new_id = (\<lambda>_. False), issued = []\<rparr>"

definition gen_cas :: "nat \<Rightarrow> gen_state \<Rightarrow> gen_state" where
  "gen_cas t g = g\<lparr>seed := cas_seed (seed g), in_new_id := (in_new_id g)(t := True)\<rparr>"

definition gen_add :: "nat \<Rightarrow> gen_state \<Rightarrow> gen_state" where
  "gen_add t g = g\<lparr>seed := seed g + 1, in_new_id := (in_new_id g)(t := False),
     issued := issued g @ [seed g + 1]\<rparr>"

inductive gen_step :: "gen_state \<Rightarrow> gen_state \<Rightarrow> bool" where
  cas: "\<not> in_new_id g t \<Longrightarrow> gen_step g (gen_cas t g)"
| add: "in_new_id g t \<Longrightarrow> gen_step g (gen_add t g)"

inductive_cases gen_stepE: "gen_step g g'"

inductive gen_reach :: "gen_state \<Rightarrow> bool" where
  init: "gen_reach gen_init"
| step: "gen_reach g \<Longrightarrow> gen_step g g' \<Longrightarrow> gen_reach g'"

text \<open>One thread alone: the two steps are \<open>new_id\<close>.\<close>

lemma gen_alone:
  assumes "gen_reach g" and "\<not> in_new_id g t"
  shows "gen_reach (gen_add t (gen_cas t g))"
    and "seed (gen_add t (gen_cas t g)) = fst (new_id (seed g))"
    and "in_new_id (gen_add t (gen_cas t g)) = in_new_id g"
    and "issued (gen_add t (gen_cas t g)) = issued g @ [fst (new_id (seed g))]"
proof -
  have "gen_reach (gen_cas t g)" using assms by (blast intro: gen_reach.step gen_step.cas)
  moreover have "in_new_id (gen_cas t g) t" by (simp add: gen_cas_def)
  ultimately show "gen_reach (gen_add t (gen_cas t g))"
    by (blast intro: gen_reach.step gen_step.add)
  show "seed (gen_add t (gen_cas t g)) = fst (new_id (seed g))"
    "issued (gen_add t (gen_cas t g)) = issued g @ [fst (new_id (seed g))]"
    by (simp_all add: gen_add_def gen_cas_def new_id_def Let_def)
  show "in_new_id (gen_add t (gen_cas t g)) = in_new_id g"
    using assms(2) by (auto simp: gen_add_def gen_cas_def fun_eq_iff)
qed

lemma gen_reach_seed:
  assumes "k < period"
  shows "\<exists>g. gen_reach g \<and> in_new_id g = (\<lambda>_. False) \<and> unat (seed g) = 1000 + k"
  using assms
proof (induction k)
  case 0
  then show ?case
    by (intro exI [of _ gen_init]) (auto simp: gen_init_def msgid_consts intro: gen_reach.init [unfolded gen_init_def msgid_consts])
next
  case (Suc k)
  then obtain g where g: "gen_reach g" "in_new_id g = (\<lambda>_. False)" "unat (seed g) = 1000 + k"
    by auto
  then have "seed_ok (seed g)" using Suc.prems by (simp add: seed_ok_nat period_def)
  from new_id_nat [OF this] g Suc.prems
  have "unat (fst (new_id (seed g))) = 1000 + Suc k"
    by (simp add: new_id_fst_snd)
  with gen_alone [OF g(1), of 0] g(2) show ?case by auto
qed

text \<open>Past the limit nothing resets the seed any more: it counts up through the whole word.\<close>

lemma gen_reach_past_limit:
  assumes "gen_reach g" and "in_new_id g = (\<lambda>_. False)" and "0x80000000 \<le> unat (seed g)"
    and "unat (seed g) + k < 2 ^ 32"
  shows "\<exists>g'. gen_reach g' \<and> in_new_id g' = (\<lambda>_. False) \<and> unat (seed g') = unat (seed g) + k
    \<and> set (issued g) \<subseteq> set (issued g')"
  using assms(4)
proof (induction k)
  case 0
  with assms show ?case by auto
next
  case (Suc k)
  then obtain g' where g': "gen_reach g'" "in_new_id g' = (\<lambda>_. False)"
      "unat (seed g') = unat (seed g) + k" "set (issued g) \<subseteq> set (issued g')"
    by auto
  have "seed g' \<noteq> MSGID_LIMIT"
    using g'(3) assms(3) by (auto simp: msgid_consts)
  then have "unat (fst (new_id (seed g'))) = unat (seed g) + Suc k"
    using g'(3) Suc.prems by (simp add: code_defs Let_def unat_word_ariths)
  with gen_alone [OF g'(1), of 0] g' show ?case
    by (intro exI [of _ "gen_add 0 (gen_cas 0 g')"]) auto
qed

text \<open>Two threads that both compare before either adds, one below the limit.\<close>

lemma gen_race:
  assumes "gen_reach g" and "in_new_id g = (\<lambda>_. False)" and "unat (seed g) = 0x7ffffffe"
  defines "g' \<equiv> gen_add 1 (gen_add 0 (gen_cas 1 (gen_cas 0 g)))"
  shows "gen_reach g'" and "in_new_id g' = (\<lambda>_. False)" and "seed g' = 0x80000000"
    and "issued g' = issued g @ [0x7fffffff, 0x80000000]"
proof -
  have seed: "seed g = 0x7ffffffe"
    using assms(3) by (simp add: word_unat_eq_iff)
  have "gen_reach (gen_cas 1 (gen_cas 0 g))"
    using assms(1,2) by (intro gen_reach.step [OF gen_reach.step [OF assms(1) gen_step.cas] gen_step.cas])
      (auto simp: gen_cas_def)
  then have "gen_reach (gen_add 0 (gen_cas 1 (gen_cas 0 g)))"
    by (rule gen_reach.step [OF _ gen_step.add]) (simp add: gen_cas_def)
  then show "gen_reach g'"
    unfolding g'_def by (rule gen_reach.step [OF _ gen_step.add]) (simp add: gen_cas_def gen_add_def)
  show "in_new_id g' = (\<lambda>_. False)" "seed g' = 0x80000000"
    "issued g' = issued g @ [0x7fffffff, 0x80000000]"
    using assms(2) by (simp_all add: g'_def gen_cas_def gen_add_def seed cas_seed_def msgid_consts fun_eq_iff)
qed

section \<open>Properties\<close>

text \<open>
  C9: for every seed the generator can hold, the ids returned by up to \<open>LIMIT - START\<close>
  successive calls of \<open>new_id\<close> are pairwise distinct, and each of them lies in
  \<open>(MSGID_START, MSGID_LIMIT]\<close> and is valid.
\<close>

theorem new_ids_fresh:
  assumes "seed_ok s" and "n \<le> unat (MSGID_LIMIT - MSGID_START)"
  shows "distinct (new_ids n s)
    \<and> (\<forall>i \<in> set (new_ids n s). MSGID_START < i \<and> i \<le> MSGID_LIMIT \<and> valid_msgid i)"
proof -
  have "n \<le> period" using assms(2) by (simp add: period_def msgid_consts)
  then show ?thesis
    using assms(1) distinct_new_ids_aux set_new_ids [of s _ n]
    by (fastforce simp: valid_msgid_def msgid_consts)
qed

lemma new_ids_3: "new_ids 3 s = [snd (new_id s), snd (new_id (snd (new_id s))),
    snd (new_id (snd (new_id (snd (new_id s)))))]"
  by (simp only: numeral_3_eq_3 new_ids.simps new_id_fst_snd)

lemma new_ids_turn: "new_ids 3 (MSGID_LIMIT - 1) = [MSGID_LIMIT, MSGID_START + 1, MSGID_START + 2]"
  by (simp add: new_ids_3 code_defs msgid_consts Let_def)

theorem new_ids_fresh_witness:
  "new_ids 3 (MSGID_LIMIT - 1) = [MSGID_LIMIT, MSGID_START + 1, MSGID_START + 2]
    \<and> distinct (new_ids 3 (MSGID_LIMIT - 1))"
proof -
  have "seed_ok (MSGID_LIMIT - 1)" "3 \<le> unat (MSGID_LIMIT - MSGID_START)"
    by (simp_all add: seed_ok_def msgid_consts)
  from new_ids_fresh [OF this] show ?thesis
    using new_ids_turn by blast
qed

text \<open>
  C10: two ids fewer than \<open>2^30 - 1000\<close> calls apart are ordered by \<open>compare_msgid\<close> as they were
  issued, in both argument orders, also when the generator turned around between them.
\<close>

theorem compare_msgid_issue_order:
  assumes "seed_ok s" and "i < j" and "j < n" and "j - i < 0x40000000 - 1000"
  shows "compare_msgid (new_ids n s ! i) (new_ids n s ! j) = -1
    \<and> compare_msgid (new_ids n s ! j) (new_ids n s ! i) = 1"
proof -
  define d where "d = j - i"
  define u where "u = (unat s - 1000 + i) mod period"
  have u: "u < period" by (simp add: u_def period_def)
  have i: "unat (new_ids n s ! i) = 1001 + u"
    using nth_new_ids [OF assms(1), of i n] assms(2,3) by (simp add: u_def)
  have "(unat s - 1000 + j) mod period = (u + d) mod period"
    using assms(2) unfolding u_def d_def mod_add_left_eq by simp
  then have j: "unat (new_ids n s ! j) = 1001 + (u + d) mod period"
    using nth_new_ids [OF assms(1), of j n] assms(3) by simp
  have d: "0 < d" "d < 0x40000000 - 1000" using assms(2,4) by (simp_all add: d_def)
  have "(u + d) mod period = (if u + d < period then u + d else u + d - period)"
    using u d by (auto simp: period_def mod_if)
  with i j u d show ?thesis
    by (auto simp: compare_msgid_nat period_def split: if_splits)
qed

theorem compare_msgid_issue_order_witness:
  "compare_msgid MSGID_LIMIT (MSGID_START + 2) = -1"
proof -
  have "seed_ok (MSGID_LIMIT - 1)" by (simp add: seed_ok_def msgid_consts)
  from compare_msgid_issue_order [OF this, of 0 2 3] show ?thesis
    by (simp add: new_ids_turn)
qed

text \<open>
  Threads that share a generator are not protected by its two separate atomic
  instructions: from the start state an interleaving of two threads is reachable in which
  an id above \<open>MSGID_LIMIT\<close> is issued, and later the invalid id \<open>0\<close> itself.
\<close>

theorem new_id_race_issues_invalid:
  "\<exists>g. gen_reach g \<and> MSGID_LIMIT + 1 \<in> set (issued g) \<and> INVALID_MSGID = seed g
     \<and> last (issued g) = INVALID_MSGID"
proof -
  obtain g where g: "gen_reach g" "in_new_id g = (\<lambda>_. False)" "unat (seed g) = 0x7ffffffe"
    using gen_reach_seed [of "0x7ffffffe - 1000"] by (auto simp: period_def)
  define h where "h = gen_add 1 (gen_add 0 (gen_cas 1 (gen_cas 0 g)))"
  note race = gen_race [OF g, folded h_def]
  obtain g' where g': "gen_reach g'" "in_new_id g' = (\<lambda>_. False)" "unat (seed g') = 0xffffffff"
      "set (issued h) \<subseteq> set (issued g')"
    using gen_reach_past_limit [OF race(1,2), of "0x7fffffff"] race(3) by auto
  have "seed g' = 0xffffffff"
    using g'(3) by (simp add: word_unat_eq_iff)
  then have "fst (new_id (seed g')) = INVALID_MSGID"
    by (simp add: code_defs msgid_consts Let_def)
  with gen_alone [OF g'(1), of 0] g' race(4) show ?thesis
    by (intro exI [of _ "gen_add 0 (gen_cas 0 g')"]) (auto simp: msgid_consts)
qed

end
