(* ===== verification/Pbuf.thy ===== *)
theory Pbuf
  imports Prelude
begin

text \<open>
  \<^verbatim>\<open>src/src/util/sbuf.h\<close>: \<open>pbuf\<close>, the growing byte buffer packets are received into and packed
  into; \<open>pbuf::ptr\<close>, its reference-counted memory; and \<open>sbuf\<close>, the arena that keeps the objects of
  one parsed message together with references to the buffers their strings point into.

  A \<open>pbuf\<close> is a record of its fields and of the bytes its \<open>m_ptr\<close> points to (\<open>m_mem\<close>, only the first
  \<open>m_limit\<close> of them are allocated); \<open>m_ptr\<close> itself is the address of a cell whose count lives in
  \<open>cells\<close>.  \<open>size_t\<close> is \<open>nat\<close>, except in \<open>reserve\<close> and the doubling loops, where sums and shifts drop the top bit.  An
  operation that would touch freed memory or loop forever returns \<open>None\<close>.

  The lemmas: \<open>reserve\<close> keeps the unread bytes and makes room, or loops forever when asked for more
  than \<open>2^63\<close> bytes; the counts agree with the holders, so nothing is freed while somebody refers to
  it; the arena hands out disjoint ranges inside its units.
\<close>

section \<open>The doubling loop\<close>

text \<open>\<open>while (sz > m_limit) { m_limit <<= 1; }\<close> on 64-bit words.\<close>

partial_function (option) grow :: "nat \<Rightarrow> nat \<Rightarrow> nat option" where
  "grow sz limit = (if sz > limit then grow sz ((limit * 2) mod 2 ^ 64) else Some limit)"

lemma grow_done [simp]: "sz \<le> limit \<Longrightarrow> grow sz limit = Some limit"
  by (simp add: grow.simps)

lemma grow_step: "limit < sz \<Longrightarrow> grow sz limit = grow sz ((limit * 2) mod 2 ^ 64)"
  by (simp add: grow.simps)

lemma grow_total:
  assumes "0 < limit" and "sz \<le> 2 ^ 63"
  shows "\<exists>r k. grow sz limit = Some r \<and> sz \<le> r \<and> r = limit * 2 ^ k"
  using assms(1)
proof (induction "sz - limit" arbitrary: limit rule: less_induct)
  case less
  show ?case
  proof (cases "limit < sz")
    case True
    with assms(2) have "(limit * 2) mod 2 ^ 64 = limit * 2" by simp
    moreover have "sz - limit * 2 < sz - limit" using True less.prems by linarith
    then obtain r k where "grow sz (limit * 2) = Some r" "sz \<le> r" "r = limit * 2 * 2 ^ k"
      using less.hyps [of "limit * 2"] less.prems by auto
    ultimately show ?thesis
      using grow_step [OF True] by (auto intro!: exI [of _ "Suc k"])
  next
    case False
    then show ?thesis by (auto intro!: exI [of _ 0])
  qed
qed

lemma grow_result:
  assumes "grow sz limit = Some r" and "limit = 0 \<or> (\<exists>j \<le> 63. limit = 2 ^ j)"
  shows "sz \<le> 2 ^ 63"
proof -
  have "(limit = 0 \<or> (\<exists>j \<le> 63. limit = 2 ^ j)) \<longrightarrow> sz \<le> 2 ^ 63"
  proof (rule grow.raw_induct
      [where P = "\<lambda>sz limit r. (limit = 0 \<or> (\<exists>j \<le> 63. limit = (2::nat) ^ j)) \<longrightarrow> sz \<le> 2 ^ 63", OF _ assms(1)])
    fix f :: "nat \<Rightarrow> nat \<Rightarrow> nat option" and sz limit r
    assume IH: "\<And>sz limit r. f sz limit = Some r \<Longrightarrow>
        (limit = 0 \<or> (\<exists>j \<le> 63. limit = 2 ^ j)) \<longrightarrow> sz \<le> 2 ^ 63"
      and eq: "(if limit < sz then f sz (limit * 2 mod 2 ^ 64) else Some limit) = Some r"
    show "(limit = 0 \<or> (\<exists>j \<le> 63. limit = 2 ^ j)) \<longrightarrow> sz \<le> 2 ^ 63"
    proof (intro impI)
      assume lim: "limit = 0 \<or> (\<exists>j \<le> 63. limit = 2 ^ j)"
      show "sz \<le> 2 ^ 63"
      proof (cases "limit < sz")
        case True
        have "limit * 2 mod 2 ^ 64 = 0 \<or> (\<exists>j \<le> 63. limit * 2 mod 2 ^ 64 = 2 ^ j)"
          using lim
        proof (elim disjE exE conjE)
          fix j :: nat assume "j \<le> 63" "limit = 2 ^ j"
          show ?thesis
          proof (cases "j = 63")
            case True
            with \<open>limit = 2 ^ j\<close> show ?thesis by simp
          next
            case False
            with \<open>j \<le> 63\<close> have "Suc j \<le> 63" by simp
            then have "(2::nat) ^ Suc j \<le> 2 ^ 63" by (rule power_increasing) simp
            then have "limit * 2 mod 2 ^ 64 = 2 ^ Suc j"
              using \<open>limit = 2 ^ j\<close> by simp
            with \<open>Suc j \<le> 63\<close> show ?thesis by blast
          qed
        qed simp
        with IH eq True show ?thesis by auto
      next
        case False
        have "(2::nat) ^ j \<le> 2 ^ 63" if "j \<le> 63" for j :: nat
          using that by (rule power_increasing) simp
        with False lim show ?thesis
          by (auto simp: not_less dest: order_trans)
      qed
    qed
  qed
  with assms(2) show ?thesis by blast
qed

section \<open>Reference-counted memory\<close>

text \<open>The allocated \<open>pbuf::ptr\<close> objects with their \<open>m_cnt\<close>, and the next unused address.\<close>

record cells =
  cnt :: "nat \<rightharpoonup> int"
  fresh :: nat

definition cell_new :: "cells \<Rightarrow> nat \<times> cells" where
  "cell_new c = (fresh c, c\<lparr>cnt := (cnt c)(fresh c \<mapsto> 1), fresh := Suc (fresh c)\<rparr>)"

definition ptr_refer :: "nat \<Rightarrow> cells \<Rightarrow> cells option" where
  "ptr_refer a c = (case cnt c a of None \<Rightarrow> None | Some n \<Rightarrow> Some (c\<lparr>cnt := (cnt c)(a \<mapsto> n + 1)\<rparr>))"

definition ptr_unref :: "nat \<Rightarrow> cells \<Rightarrow> cells option" where
  "ptr_unref a c = (case cnt c a of None \<Rightarrow> None
     | Some n \<Rightarrow> Some (c\<lparr>cnt := (cnt c)(a := (if n + -1 = 0 then None else Some (n + -1)))\<rparr>))"

section \<open>pbuf\<close>

record pbuf =
  m_ptr :: "nat option"
  m_mem :: mem
  m_len :: nat
  m_limit :: nat
  m_ofs :: nat

definition INITIAL_BUFFER_SIZE :: nat where
  "INITIAL_BUFFER_SIZE = 256"

definition pbuf_empty :: pbuf where
  "pbuf_empty = \<lparr>m_ptr = None, m_mem = (\<lambda>_. 0), m_len = 0, m_limit = 0, m_ofs = 0\<rparr>"

definition pbuf_unref :: "pbuf \<Rightarrow> cells \<Rightarrow> cells option" where
  "pbuf_unref pb c = (case m_ptr pb of None \<Rightarrow> Some c | Some a \<Rightarrow> ptr_unref a c)"

definition pbuf_refer :: "pbuf \<Rightarrow> cells \<Rightarrow> cells option" where
  "pbuf_refer pb c = (case m_ptr pb of None \<Rightarrow> None | Some a \<Rightarrow> ptr_refer a c)"

text \<open>\<open>this->copy(pbf)\<close>: the fields first, then \<open>unref\<close> of the own memory, then \<open>refer\<close> of the other's.\<close>

definition pbuf_copy :: "pbuf \<Rightarrow> pbuf \<Rightarrow> cells \<Rightarrow> (pbuf \<times> cells) option" where
  "pbuf_copy self pbf c =
     (case pbuf_unref self c of None \<Rightarrow> None
      | Some c1 \<Rightarrow> (case pbuf_refer pbf c1 of None \<Rightarrow> None
         | Some c2 \<Rightarrow> Some (self\<lparr>m_len := m_len pbf, m_limit := m_limit pbf, m_ofs := m_ofs pbf,
              m_ptr := m_ptr pbf, m_mem := m_mem pbf\<rparr>, c2)))"

definition pbuf_available :: "pbuf \<Rightarrow> nat" where
  "pbuf_available pb = m_limit pb - m_len pb"

definition pbuf_last :: "pbuf \<Rightarrow> nat" where
  "pbuf_last pb = m_len pb"

definition pbuf_ofs :: "pbuf \<Rightarrow> nat" where
  "pbuf_ofs pb = m_ofs pb"

definition pbuf_commit :: "nat \<Rightarrow> pbuf \<Rightarrow> pbuf" where
  "pbuf_commit sz pb = pb\<lparr>m_len := m_len pb + sz\<rparr>"

definition pbuf_rollback :: "nat \<Rightarrow> pbuf \<Rightarrow> pbuf" where
  "pbuf_rollback sz pb = (if sz \<ge> m_len pb then pb\<lparr>m_len := 0\<rparr> else pb\<lparr>m_len := m_len pb - sz\<rparr>)"

definition shrink_used_buffer_size :: "nat \<Rightarrow> pbuf \<Rightarrow> pbuf" where
  "shrink_used_buffer_size sz pb =
     (if sz \<ge> m_len pb then pb\<lparr>m_len := 0\<rparr>
      else pb\<lparr>m_mem := mem_copy (m_mem pb) 0 (bytes_at (m_mem pb) sz (m_len pb - sz)),
              m_len := m_len pb - sz\<rparr>)"

text \<open>
  \<open>reserve\<close>: \<open>alloc_ok\<close> is whether \<open>malloc\<close> succeeds and \<open>junk\<close> what it returns.  The sum is the
  \<open>int\<close> result, the outer \<open>None\<close> a loop without end or an \<open>unref\<close> of freed memory.
\<close>

definition pbuf_reserve ::
  "bool \<Rightarrow> mem \<Rightarrow> nat \<Rightarrow> pbuf \<Rightarrow> cells \<Rightarrow> ((nbr_error + nat) \<times> pbuf \<times> cells) option" where
  "pbuf_reserve alloc_ok junk sz pb c =
     (if pbuf_available pb \<ge> sz then Some (Inr 0, pb, c)
      else case m_ptr pb of
        Some old \<Rightarrow>
          (let copyb = pbuf_last pb - pbuf_ofs pb; sz = (sz + copyb) mod 2 ^ 64 in
           case grow sz (m_limit pb) of None \<Rightarrow> None
           | Some limit \<Rightarrow>
             if \<not> alloc_ok then Some (Inl EMALLOC, pb, c)
             else (let (p, c1) = cell_new c;
                       bytes = mem_copy junk 0 (bytes_at (m_mem pb) (m_ofs pb) copyb) in
                   case ptr_unref old c1 of None \<Rightarrow> None
                   | Some c2 \<Rightarrow> Some (Inr 0, pb\<lparr>m_ptr := Some p, m_mem := bytes, m_limit := limit,
                        m_ofs := 0, m_len := copyb\<rparr>, c2)))
      | None \<Rightarrow>
          (case grow sz INITIAL_BUFFER_SIZE of None \<Rightarrow> None
           | Some limit \<Rightarrow>
             if \<not> alloc_ok then Some (Inl EMALLOC, pb\<lparr>m_limit := 0\<rparr>, c)
             else (let (p, c1) = cell_new c in
                   Some (Inr 0, pb\<lparr>m_ptr := Some p, m_mem := junk, m_limit := limit\<rparr>, c1))))"

text \<open>\<open>add_parsed_ofs(int)\<close>: a \<open>size_t\<close> argument is first cut to \<open>int\<close>.\<close>

definition add_parsed_ofs :: "int \<Rightarrow> pbuf \<Rightarrow> pbuf" where
  "add_parsed_ofs sz pb = pb\<lparr>m_ofs := nat ((int (m_ofs pb) + sz) mod 2 ^ 64)\<rparr>"

definition pbuf_reset :: "pbuf \<Rightarrow> pbuf" where
  "pbuf_reset pb = pb\<lparr>m_len := 0\<rparr>"

definition pbuf_pop :: "pbuf \<Rightarrow> U8 \<times> pbuf" where
  "pbuf_pop pb = (m_mem pb (m_ofs pb), pb\<lparr>m_ofs := m_ofs pb + 1\<rparr>)"

definition pbuf_push :: "U8 \<Rightarrow> pbuf \<Rightarrow> pbuf" where
  "pbuf_push b pb = pb\<lparr>m_mem := (m_mem pb)(m_len pb := b), m_len := m_len pb + 1\<rparr>"

definition pbuf_readable :: "pbuf \<Rightarrow> bool" where
  "pbuf_readable pb = (m_ofs pb < m_len pb)"

text \<open>What a buffer holds: everything written, and the part not parsed yet.\<close>

definition contents :: "pbuf \<Rightarrow> U8 list" where
  "contents pb = bytes_at (m_mem pb) 0 (m_len pb)"

definition unread :: "pbuf \<Rightarrow> U8 list" where
  "unread pb = bytes_at (m_mem pb) (m_ofs pb) (m_len pb - m_ofs pb)"

definition pbuf_inv :: "pbuf \<Rightarrow> bool" where
  "pbuf_inv pb \<longleftrightarrow> m_ofs pb \<le> m_len pb \<and> m_len pb \<le> m_limit pb
     \<and> (m_ptr pb = None \<longrightarrow> m_limit pb = 0) \<and> (m_ptr pb \<noteq> None \<longrightarrow> 0 < m_limit pb)"

declare pbuf_available_def [code_defs] pbuf_last_def [code_defs] pbuf_ofs_def [code_defs] pbuf_commit_def [code_defs]
  pbuf_readable_def [code_defs] pbuf_push_def [code_defs] pbuf_pop_def [code_defs]

lemma length_unread [simp]: "length (unread pb) = m_len pb - m_ofs pb"
  by (simp add: unread_def)

lemma length_contents [simp]: "length (contents pb) = m_len pb"
  by (simp add: contents_def)

subsection \<open>What the operations do to the contents\<close>

lemma reserve_enough:
  "sz \<le> pbuf_available pb \<Longrightarrow> pbuf_reserve ok junk sz pb c = Some (Inr 0, pb, c)"
  by (simp add: pbuf_reserve_def)

lemma reserve_grow:
  assumes "pbuf_available pb < sz" and "m_ptr pb = Some old" and "cnt c old = Some n"
    and "old < fresh c" and "pbuf_inv pb" and "sz + m_len pb \<le> 2 ^ 63"
  shows "\<exists>pb' c'. pbuf_reserve True junk sz pb c = Some (Inr 0, pb', c')
    \<and> ptr_unref old (snd (cell_new c)) = Some c' \<and> m_ptr pb' = Some (fresh c)
    \<and> unread pb' = unread pb \<and> m_ofs pb' = 0 \<and> pbuf_inv pb' \<and> sz \<le> pbuf_available pb'"
proof -
  let ?copyb = "m_len pb - m_ofs pb"
  have "0 < m_limit pb" "sz + ?copyb \<le> 2 ^ 63"
    using assms by (auto simp: pbuf_inv_def)
  moreover from this have "(sz + ?copyb) mod 2 ^ 64 = sz + ?copyb" by simp
  ultimately obtain r where r: "grow ((sz + ?copyb) mod 2 ^ 64) (m_limit pb) = Some r" "sz + ?copyb \<le> r"
    using grow_total by metis
  obtain c' where c': "ptr_unref old (snd (cell_new c)) = Some c'"
    using assms(3,4) by (simp add: ptr_unref_def cell_new_def)
  have "bytes_at (mem_copy junk 0 (bytes_at (m_mem pb) (m_ofs pb) ?copyb)) 0 ?copyb
      = bytes_at (m_mem pb) (m_ofs pb) ?copyb"
    using bytes_at_mem_copy [of junk 0 "bytes_at (m_mem pb) (m_ofs pb) ?copyb"] by simp
  with assms(1,2,5) r c' show ?thesis
    by (auto simp: pbuf_reserve_def code_defs cell_new_def Let_def unread_def pbuf_inv_def)
qed

lemma reserve_first:
  assumes "0 < sz" and "m_ptr pb = None" and "pbuf_inv pb" and "sz \<le> 2 ^ 63"
  shows "\<exists>pb'. pbuf_reserve True junk sz pb c = Some (Inr 0, pb', snd (cell_new c))
    \<and> m_ptr pb' = Some (fresh c) \<and> unread pb' = [] \<and> m_ofs pb' = 0 \<and> pbuf_inv pb'
    \<and> sz \<le> pbuf_available pb'"
proof -
  obtain r where r: "grow sz INITIAL_BUFFER_SIZE = Some r" "sz \<le> r"
    using grow_total [of INITIAL_BUFFER_SIZE sz] assms(4) by (auto simp: INITIAL_BUFFER_SIZE_def)
  with assms show ?thesis
    by (auto simp: pbuf_reserve_def code_defs cell_new_def Let_def unread_def pbuf_inv_def)
qed

lemma contents_push [mem_simps]: "contents (pbuf_push b pb) = contents pb @ [b]"
  by (rule nth_equalityI) (auto simp: contents_def pbuf_push_def nth_append less_Suc_eq)

lemma contents_shrink [mem_simps]:
  "contents (shrink_used_buffer_size sz pb) = drop sz (contents pb)"
  using bytes_at_mem_copy [of "m_mem pb" 0 "bytes_at (m_mem pb) sz (m_len pb - sz)"]
  by (simp add: contents_def shrink_used_buffer_size_def drop_bytes_at)

lemma contents_rollback [mem_simps]:
  "contents (pbuf_rollback sz pb) = take (m_len pb - sz) (contents pb)"
  by (simp add: contents_def pbuf_rollback_def take_bytes_at)

lemma pop_unread:
  "pbuf_readable pb \<Longrightarrow> unread pb = fst (pbuf_pop pb) # unread (snd (pbuf_pop pb))"
  by (simp add: unread_def code_defs Suc_diff_Suc flip: bytes_at_Suc)

lemma readable_iff: "pbuf_readable pb \<longleftrightarrow> unread pb \<noteq> []"
  by (simp add: pbuf_readable_def not_le flip: length_0_conv)

section \<open>sbuf: the arena\<close>

text \<open>
  The allocation units (their usable sizes, newest first); in the newest, the bytes used by
  \<open>m_block\<close> and those left; and the memory addresses referred to, newest first.  A chunk is the unit's number, its offset and its size.
\<close>

record arena =
  units :: "nat list"
  m_block :: nat
  m_free :: nat
  m_refs :: "nat list"

definition ALLOC_UNIT_SIZE :: nat where
  "ALLOC_UNIT_SIZE = 256"

definition arena_init :: arena where
  "arena_init = \<lparr>units = [], m_block = 0, m_free = 0, m_refs = []\<rparr>"

type_synonym chunk = "nat \<times> nat \<times> nat"

definition arena_take :: "nat \<Rightarrow> arena \<Rightarrow> chunk \<times> arena" where
  "arena_take s a = ((length (units a) - 1, m_block a, s), a\<lparr>m_block := m_block a + s\<rparr>)"

text \<open>\<open>sbuf::malloc\<close>: \<open>Inl EMALLOC\<close> is its \<open>NULL\<close>, \<open>None\<close> the endless doubling.\<close>

definition sbuf_malloc :: "bool \<Rightarrow> nat \<Rightarrow> arena \<Rightarrow> ((nbr_error + chunk) \<times> arena) option" where
  "sbuf_malloc alloc_ok s a =
     (if m_free a > s then
        (let (ch, a') = arena_take s (a\<lparr>m_free := m_free a - s\<rparr>) in Some (Inr ch, a'))
      else (case grow s ALLOC_UNIT_SIZE of None \<Rightarrow> None
        | Some sz \<Rightarrow>
          if \<not> alloc_ok then Some (Inl EMALLOC, a)
          else (let (ch, a') = arena_take s (a\<lparr>units := sz # units a, m_free := sz - s, m_block := 0\<rparr>)
                in Some (Inr ch, a'))))"

fun sbuf_mallocs :: "nat list \<Rightarrow> arena \<Rightarrow> (chunk list \<times> arena) option" where
  "sbuf_mallocs [] a = Some ([], a)"
| "sbuf_mallocs (s # ss) a =
     (case sbuf_malloc True s a of Some (Inr ch, a') \<Rightarrow>
        (case sbuf_mallocs ss a' of None \<Rightarrow> None | Some (chs, a'') \<Rightarrow> Some (ch # chs, a''))
      | _ \<Rightarrow> None)"

definition arena_inv :: "arena \<Rightarrow> bool" where
  "arena_inv a \<longleftrightarrow> (case units a of [] \<Rightarrow> m_free a = 0 | u # _ \<Rightarrow> m_block a + m_free a = u)"

text \<open>Inside its unit, and behind everything handed out before.\<close>

fun chunk_inside :: "arena \<Rightarrow> chunk \<Rightarrow> bool" where
  "chunk_inside a (u, off, s) = (u < length (units a) \<and> off + s \<le> rev (units a) ! u)"

fun chunk_used :: "arena \<Rightarrow> chunk \<Rightarrow> bool" where
  "chunk_used a (u, off, s) = (u + 1 < length (units a) \<or> u + 1 = length (units a) \<and> off + s \<le> m_block a)"

fun chunks_disjoint :: "chunk \<Rightarrow> chunk \<Rightarrow> bool" where
  "chunks_disjoint (u, off, s) (u', off', s') = (u \<noteq> u' \<or> off + s \<le> off' \<or> off' + s' \<le> off)"

lemma malloc_ok:
  assumes "arena_inv a" and "s \<le> 2 ^ 63"
  shows "\<exists>ch a'. sbuf_malloc True s a = Some (Inr ch, a') \<and> arena_inv a'
    \<and> chunk_inside a' ch \<and> chunk_used a' ch \<and> snd (snd ch) = s
    \<and> (\<forall>c. chunk_used a c \<longrightarrow> chunk_used a' c \<and> chunks_disjoint c ch)
    \<and> (\<forall>c. chunk_inside a c \<longrightarrow> chunk_inside a' c)"
proof (cases "m_free a > s")
  case True
  then obtain u us where "units a = u # us" using assms(1) by (auto simp: arena_inv_def split: list.splits)
  with True assms(1) show ?thesis
    by (auto simp: sbuf_malloc_def arena_take_def arena_inv_def nth_append)
next
  case False
  obtain sz where sz: "grow s ALLOC_UNIT_SIZE = Some sz" "s \<le> sz"
    using grow_total [of ALLOC_UNIT_SIZE s] assms(2) by (auto simp: ALLOC_UNIT_SIZE_def)
  with False assms(1) show ?thesis
    by (auto simp: sbuf_malloc_def arena_take_def arena_inv_def nth_append)
qed

lemma mallocs_ok:
  assumes "arena_inv a" and "\<forall>s \<in> set ss. s \<le> 2 ^ 63"
  shows "\<exists>chs a'. sbuf_mallocs ss a = Some (chs, a') \<and> map (snd \<circ> snd) chs = ss
    \<and> (\<forall>c \<in> set chs. chunk_inside a' c) \<and> (\<forall>c. chunk_inside a c \<longrightarrow> chunk_inside a' c)
    \<and> (\<forall>c d. chunk_used a c \<and> d \<in> set chs \<longrightarrow> chunks_disjoint c d)
    \<and> (\<forall>i j. i < j \<and> j < length chs \<longrightarrow> chunks_disjoint (chs ! i) (chs ! j))"
  using assms
proof (induction ss arbitrary: a)
  case Nil
  then show ?case by simp
next
  case (Cons s ss)
  have "s \<le> 2 ^ 63" "\<forall>s \<in> set ss. s \<le> 2 ^ 63" using Cons.prems(2) by simp_all
  from malloc_ok [OF Cons.prems(1) this(1)] obtain ch a1 where
    1: "sbuf_malloc True s a = Some (Inr ch, a1)" "arena_inv a1" "chunk_inside a1 ch"
      "chunk_used a1 ch" "snd (snd ch) = s"
      "\<forall>c. chunk_used a c \<longrightarrow> chunk_used a1 c \<and> chunks_disjoint c ch"
      "\<forall>c. chunk_inside a c \<longrightarrow> chunk_inside a1 c" by blast
  from Cons.IH [OF 1(2) \<open>\<forall>s \<in> set ss. s \<le> 2 ^ 63\<close>] obtain chs a2 where
    2: "sbuf_mallocs ss a1 = Some (chs, a2)" "map (snd \<circ> snd) chs = ss"
      "\<forall>c \<in> set chs. chunk_inside a2 c" "\<forall>c. chunk_inside a1 c \<longrightarrow> chunk_inside a2 c"
      "\<forall>c d. chunk_used a1 c \<and> d \<in> set chs \<longrightarrow> chunks_disjoint c d"
      "\<forall>i j. i < j \<and> j < length chs \<longrightarrow> chunks_disjoint (chs ! i) (chs ! j)" by blast
  have "chunks_disjoint ((ch # chs) ! i) ((ch # chs) ! j)" if "i < j" "j < length (ch # chs)" for i j
  proof (cases i)
    case 0
    with that obtain k where "j = Suc k" "k < length chs" by (cases j) auto
    with 0 1(4) 2(5) nth_mem show ?thesis by (metis nth_Cons_0 nth_Cons_Suc)
  next
    case (Suc i')
    with that obtain k where "j = Suc k" "i' < k" "k < length chs" by (cases j) auto
    with Suc 2(6) show ?thesis by simp
  qed
  moreover have "sbuf_mallocs (s # ss) a = Some (ch # chs, a2)" using 1(1) 2(1) by simp
  moreover have "map (snd \<circ> snd) (ch # chs) = s # ss" using 1(5) 2(2) by simp
  moreover have "\<forall>c \<in> set (ch # chs). chunk_inside a2 c" using 1(3) 2(3,4) by (simp del: chunk_inside.simps split_paired_All)
  moreover have "\<forall>c d. chunk_used a c \<and> d \<in> set (ch # chs) \<longrightarrow> chunks_disjoint c d"
    using 1(6) 2(5) unfolding list.set by blast
  moreover have "\<forall>c. chunk_inside a c \<longrightarrow> chunk_inside a2 c" using 1(7) 2(4) by blast
  ultimately show ?case by (intro exI [of _ "ch # chs"] exI [of _ a2] conjI) (assumption | blast)+
qed

section \<open>sbuf: the references\<close>

text \<open>
  The buffers and arenas of one process by index, and the cells they share.
\<close>

record world =
  cells :: cells
  pbufs :: "pbuf list"
  arenas :: "arena list"

text \<open>
  \<open>sbuf::refer\<close>: the list node is allocated in the arena itself (two pointers); \<open>fin\<close> drops the
  references and then the units.
\<close>

definition sbuf_refer ::
  "bool \<Rightarrow> pbuf \<Rightarrow> arena \<Rightarrow> cells \<Rightarrow> ((nbr_error + unit) \<times> arena \<times> cells) option" where
  "sbuf_refer alloc_ok pbf a c =
     (case sbuf_malloc alloc_ok 16 a of
        None \<Rightarrow> None
      | Some (Inl e, a') \<Rightarrow> Some (Inl e, a', c)
      | Some (Inr node, a') \<Rightarrow>
          (case m_ptr pbf of None \<Rightarrow> None
           | Some p \<Rightarrow> (case ptr_refer p c of None \<Rightarrow> None
              | Some c' \<Rightarrow> Some (Inr (), a'\<lparr>m_refs := p # m_refs a'\<rparr>, c'))))"

fun unref_all :: "nat list \<Rightarrow> cells \<Rightarrow> cells option" where
  "unref_all [] c = Some c"
| "unref_all (p # ps) c = (case ptr_unref p c of None \<Rightarrow> None | Some c' \<Rightarrow> unref_all ps c')"

definition sbuf_fin :: "arena \<Rightarrow> cells \<Rightarrow> (arena \<times> cells) option" where
  "sbuf_fin a c = (case unref_all (m_refs a) c of None \<Rightarrow> None | Some c' \<Rightarrow> Some (arena_init, c'))"

datatype buf_op =
    Reserve nat bool mem nat    \<comment> \<open>pbuf, malloc succeeds, its bytes, size\<close>
  | Copy nat nat                \<comment> \<open>to, from\<close>
  | Destroy nat
  | Refer nat bool nat          \<comment> \<open>sbuf, malloc succeeds, pbuf\<close>
  | Sbuf_fin nat

text \<open>A destroyed buffer or arena is constructed anew in its place.\<close>

fun world_step :: "buf_op \<Rightarrow> world \<Rightarrow> world option" where
  "world_step (Reserve p ok junk sz) w =
     (case pbuf_reserve ok junk sz (pbufs w ! p) (cells w) of None \<Rightarrow> None
      | Some (r, pb, c) \<Rightarrow> Some (w\<lparr>cells := c, pbufs := (pbufs w)[p := pb]\<rparr>))"
| "world_step (Copy p q) w =
     (case pbuf_copy (pbufs w ! p) (pbufs w ! q) (cells w) of None \<Rightarrow> None
      | Some (pb, c) \<Rightarrow> Some (w\<lparr>cells := c, pbufs := (pbufs w)[p := pb]\<rparr>))"
| "world_step (Destroy p) w =
     (case pbuf_unref (pbufs w ! p) (cells w) of None \<Rightarrow> None
      | Some c \<Rightarrow> Some (w\<lparr>cells := c, pbufs := (pbufs w)[p := pbuf_empty]\<rparr>))"
| "world_step (Refer s ok p) w =
     (case sbuf_refer ok (pbufs w ! p) (arenas w ! s) (cells w) of None \<Rightarrow> None
      | Some (r, a, c) \<Rightarrow> Some (w\<lparr>cells := c, arenas := (arenas w)[s := a]\<rparr>))"
| "world_step (Sbuf_fin s) w =
     (case sbuf_fin (arenas w ! s) (cells w) of None \<Rightarrow> None
      | Some (a, c) \<Rightarrow> Some (w\<lparr>cells := c, arenas := (arenas w)[s := a]\<rparr>))"

fun world_run :: "buf_op list \<Rightarrow> world \<Rightarrow> world option" where
  "world_run [] w = Some w"
| "world_run (x # xs) w = (case world_step x w of None \<Rightarrow> None | Some w' \<Rightarrow> world_run xs w')"

text \<open>What a caller must respect: existing objects, sizes that fit, no copy of an empty or of the same buffer.\<close>

fun op_legal :: "buf_op \<Rightarrow> world \<Rightarrow> bool" where
  "op_legal (Reserve p ok junk sz) w =
     (p < length (pbufs w) \<and> sz + m_limit (pbufs w ! p) \<le> 2 ^ 63 \<and> pbuf_inv (pbufs w ! p))"
| "op_legal (Copy p q) w =
     (p < length (pbufs w) \<and> q < length (pbufs w) \<and> p \<noteq> q \<and> m_ptr (pbufs w ! q) \<noteq> None)"
| "op_legal (Destroy p) w = (p < length (pbufs w))"
| "op_legal (Refer s ok p) w =
     (s < length (arenas w) \<and> p < length (pbufs w) \<and> m_ptr (pbufs w ! p) \<noteq> None)"
| "op_legal (Sbuf_fin s) w = (s < length (arenas w))"

text \<open>Every operation of the sequence is legal when its turn comes.\<close>

fun all_legal :: "buf_op list \<Rightarrow> world \<Rightarrow> bool" where
  "all_legal [] w = True"
| "all_legal (x # xs) w =
     (op_legal x w \<and> (case world_step x w of None \<Rightarrow> True | Some w' \<Rightarrow> all_legal xs w'))"

text \<open>How many buffers and arenas hold the memory at \<open>a\<close>.\<close>

definition pbuf_holds :: "nat \<Rightarrow> pbuf \<Rightarrow> nat" where
  "pbuf_holds a pb = (if m_ptr pb = Some a then 1 else 0)"

definition holders :: "nat \<Rightarrow> world \<Rightarrow> nat" where
  "holders a w = sum_list (map (pbuf_holds a) (pbufs w)) + sum_list (map (\<lambda>r. count_list (m_refs r) a) (arenas w))"

definition counts_are :: "cells \<Rightarrow> (nat \<Rightarrow> nat) \<Rightarrow> bool" where
  "counts_are c h \<longleftrightarrow> (\<forall>a. cnt c a = (if h a = 0 then None else Some (int (h a))))
     \<and> (\<forall>a \<ge> fresh c. h a = 0)"

definition world_inv :: "world \<Rightarrow> bool" where
  "world_inv w \<longleftrightarrow> counts_are (cells w) (\<lambda>a. holders a w)"

subsection \<open>Counts against holders\<close>

lemma counts_new:
  "counts_are c h \<Longrightarrow> counts_are (snd (cell_new c)) (h(fresh c := 1))"
  by (auto simp: counts_are_def cell_new_def)

lemma counts_refer:
  "counts_are c h \<Longrightarrow> 0 < h a \<Longrightarrow>
     \<exists>c'. ptr_refer a c = Some c' \<and> counts_are c' (h(a := h a + 1))"
  by (fastforce simp: counts_are_def ptr_refer_def)

lemma counts_unref:
  assumes "counts_are c h" and "0 < h a"
  shows "\<exists>c'. ptr_unref a c = Some c' \<and> counts_are c' (h(a := h a - 1))"
proof -
  have "cnt c a = Some (int (h a))"
    using assms by (simp add: counts_are_def)
  then have "ptr_unref a c = Some (c\<lparr>cnt := (cnt c)(a := if h a - 1 = 0 then None else Some (int (h a - 1)))\<rparr>)"
    using assms(2) by (simp add: ptr_unref_def)
  moreover have "counts_are (c\<lparr>cnt := (cnt c)(a := if h a - 1 = 0 then None else Some (int (h a - 1)))\<rparr>)
      (h(a := h a - 1))"
    using assms by (simp add: counts_are_def)
  ultimately show ?thesis by blast
qed

lemma counts_unref_all:
  "counts_are c h \<Longrightarrow> (\<And>a. count_list rs a \<le> h a) \<Longrightarrow>
     \<exists>c'. unref_all rs c = Some c' \<and> counts_are c' (\<lambda>a. h a - count_list rs a)"
proof (induction rs arbitrary: c h)
  case Nil
  then show ?case by simp
next
  case (Cons x rs)
  from Cons.prems(2) [of x] have "0 < h x" by simp
  with Cons.prems(1) obtain c1 where c1: "ptr_unref x c = Some c1" "counts_are c1 (h(x := h x - 1))"
    using counts_unref by blast
  have "count_list rs a \<le> (h(x := h x - 1)) a" for a
    using Cons.prems(2) [of a] by (auto split: if_splits)
  from Cons.IH [OF c1(2) this] obtain c2 where
    "unref_all rs c1 = Some c2" "counts_are c2 (\<lambda>a. (h(x := h x - 1)) a - count_list rs a)" by blast
  moreover have "(\<lambda>a. (h(x := h x - 1)) a - count_list rs a) = (\<lambda>a. h a - count_list (x # rs) a)"
    by (auto simp: fun_eq_iff)
  ultimately show ?case using c1(1) by simp
qed

lemma pbuf_holds_empty [simp]: "pbuf_holds a pbuf_empty = 0"
  by (simp add: pbuf_holds_def pbuf_empty_def)

lemma holders_cells [simp]: "holders a (w\<lparr>cells := c\<rparr>) = holders a w"
  by (simp add: holders_def)

lemma holders_pbufs:
  "p < length (pbufs w) \<Longrightarrow> holders a (w\<lparr>pbufs := (pbufs w)[p := pb]\<rparr>)
     = holders a w + pbuf_holds a pb - pbuf_holds a (pbufs w ! p)"
  using nth_le_sum_list_map [of p "pbufs w" "pbuf_holds a"]
  by (simp add: holders_def sum_list_map_update)

lemma holders_arenas:
  "s < length (arenas w) \<Longrightarrow> holders a (w\<lparr>arenas := (arenas w)[s := r]\<rparr>)
     = holders a w + count_list (m_refs r) a - count_list (m_refs (arenas w ! s)) a"
  using nth_le_sum_list_map [of s "arenas w" "\<lambda>r. count_list (m_refs r) a"]
  by (simp add: holders_def sum_list_map_update)

lemma world_update_commute:
  "w\<lparr>cells := c, pbufs := ps\<rparr> = (w\<lparr>pbufs := ps\<rparr>)\<lparr>cells := c\<rparr>"
  "w\<lparr>cells := c, arenas := rs\<rparr> = (w\<lparr>arenas := rs\<rparr>)\<lparr>cells := c\<rparr>"
  by simp_all

lemma holds_pos: "p < length (pbufs w) \<Longrightarrow> m_ptr (pbufs w ! p) = Some a \<Longrightarrow> 0 < holders a w"
  using nth_le_sum_list_map [of p "pbufs w" "pbuf_holds a"]
  by (simp add: holders_def pbuf_holds_def)

subsection \<open>No step touches freed memory\<close>

lemma step_reserve:
  assumes "world_inv w" and "op_legal (Reserve p ok junk sz) w"
  shows "\<exists>w'. world_step (Reserve p ok junk sz) w = Some w' \<and> world_inv w'"
proof -
  let ?pb = "pbufs w ! p" and ?c = "cells w" and ?h = "\<lambda>a. holders a w"
  have p: "p < length (pbufs w)" and inv: "pbuf_inv ?pb" and sz: "sz + m_limit ?pb \<le> 2 ^ 63"
    and cnt: "counts_are ?c ?h"
    using assms by (auto simp: world_inv_def)
  have same: "world_inv (w\<lparr>cells := ?c, pbufs := (pbufs w)[p := pb]\<rparr>)" if "m_ptr pb = m_ptr ?pb" for pb
    using cnt that p by (simp add: world_inv_def world_update_commute holders_pbufs pbuf_holds_def)
  consider (room) "sz \<le> pbuf_available ?pb" | (first) "pbuf_available ?pb < sz" "m_ptr ?pb = None"
    | (grow) old where "pbuf_available ?pb < sz" "m_ptr ?pb = Some old" by fastforce
  then show ?thesis
  proof cases
    case room
    then show ?thesis using same [of ?pb] by (simp add: reserve_enough)
  next
    case first
    from grow_total [of INITIAL_BUFFER_SIZE sz] sz obtain l where
      "grow sz INITIAL_BUFFER_SIZE = Some l" by (auto simp: INITIAL_BUFFER_SIZE_def)
    moreover have "(\<lambda>a. holders a w + pbuf_holds a pb - pbuf_holds a ?pb) = ?h(fresh ?c := 1)"
      if "m_ptr pb = Some (fresh ?c)" for pb
      using first that cnt by (auto simp: pbuf_holds_def fun_eq_iff counts_are_def)
    ultimately show ?thesis
      using first p same counts_new [OF cnt]
      by (cases ok) (auto simp: pbuf_reserve_def world_inv_def world_update_commute holders_pbufs cell_new_def)
  next
    case (grow old)
    have old: "0 < holders old w" using holds_pos p grow by blast
    then have ne: "old \<noteq> fresh ?c" using cnt by (auto simp: counts_are_def)
    have "0 < m_limit ?pb" "sz + (m_len ?pb - m_ofs ?pb) \<le> 2 ^ 63"
      using inv sz grow by (auto simp: pbuf_inv_def)
    moreover from this have "(sz + (m_len ?pb - m_ofs ?pb)) mod 2 ^ 64 = sz + (m_len ?pb - m_ofs ?pb)" by simp
    ultimately obtain l where
      l: "grow ((sz + (m_len ?pb - m_ofs ?pb)) mod 2 ^ 64) (m_limit ?pb) = Some l"
      using grow_total by metis
    have "0 < (?h(fresh ?c := 1)) old" using old ne by simp
    from counts_unref [OF counts_new [OF cnt] this] obtain c' where c':
      "ptr_unref old (snd (cell_new ?c)) = Some c'"
      "counts_are c' (?h(fresh ?c := 1, old := (?h(fresh ?c := 1)) old - 1))" by blast
    moreover have "(\<lambda>a. holders a w + pbuf_holds a pb - pbuf_holds a ?pb)
        = ?h(fresh ?c := 1, old := (?h(fresh ?c := 1)) old - 1)" if "m_ptr pb = Some (fresh ?c)" for pb
      using grow that cnt ne by (auto simp: pbuf_holds_def fun_eq_iff counts_are_def)
    ultimately show ?thesis
      using grow p same l cnt
      by (cases ok) (auto simp: pbuf_reserve_def world_inv_def world_update_commute holders_pbufs cell_new_def code_defs Let_def)
  qed
qed

lemma step_copy:
  assumes "world_inv w" and "op_legal (Copy p q) w"
  shows "\<exists>w'. world_step (Copy p q) w = Some w' \<and> world_inv w'"
proof -
  let ?h = "\<lambda>a. holders a w"
  have p: "p < length (pbufs w)" and q: "q < length (pbufs w)" and pq: "p \<noteq> q"
    and cnt: "counts_are (cells w) ?h" using assms by (auto simp: world_inv_def)
  obtain b where b: "m_ptr (pbufs w ! q) = Some b" using assms(2) by auto
  define h1 where "h1 = (\<lambda>a. ?h a - pbuf_holds a (pbufs w ! p))"
  have "\<exists>c1. pbuf_unref (pbufs w ! p) (cells w) = Some c1 \<and> counts_are c1 h1"
  proof (cases "m_ptr (pbufs w ! p)")
    case None
    with cnt show ?thesis by (simp add: pbuf_unref_def h1_def pbuf_holds_def)
  next
    case (Some a)
    have "h1 = ?h(a := ?h a - 1)" using Some by (auto simp: h1_def pbuf_holds_def fun_eq_iff)
    with Some counts_unref [OF cnt, of a] holds_pos [OF p Some] show ?thesis
      by (simp add: pbuf_unref_def)
  qed
  then obtain c1 where c1: "pbuf_unref (pbufs w ! p) (cells w) = Some c1" "counts_are c1 h1" by blast
  have "pbuf_holds b (pbufs w ! p) + pbuf_holds b (pbufs w ! q) \<le> sum_list (map (pbuf_holds b) (pbufs w))"
    using nth_le_sum_list_map [of q "(pbufs w)[p := pbuf_empty]" "pbuf_holds b"] p q pq
      nth_le_sum_list_map [of p "pbufs w" "pbuf_holds b"]
    by (simp add: sum_list_map_update)
  then have "0 < h1 b" using b by (simp add: h1_def holders_def pbuf_holds_def)
  from counts_refer [OF c1(2) this] obtain c2 where c2: "ptr_refer b c1 = Some c2" "counts_are c2 (h1(b := h1 b + 1))"
    by blast
  have "(\<lambda>a. ?h a + pbuf_holds a pb - pbuf_holds a (pbufs w ! p)) = h1(b := h1 b + 1)"
    if "m_ptr pb = Some b" for pb
  proof -
    have "pbuf_holds a (pbufs w ! p) \<le> ?h a" for a
      using nth_le_sum_list_map [of p "pbufs w" "pbuf_holds a"] p by (simp add: holders_def)
    with that show ?thesis
      by (auto simp: h1_def pbuf_holds_def [of _ pb] fun_eq_iff Suc_diff_le)
  qed
  with c1 c2 b p show ?thesis
    by (auto simp: pbuf_copy_def pbuf_refer_def world_inv_def world_update_commute holders_pbufs)
qed

lemma step_destroy:
  assumes "world_inv w" and "op_legal (Destroy p) w"
  shows "\<exists>w'. world_step (Destroy p) w = Some w' \<and> world_inv w'"
proof -
  let ?h = "\<lambda>a. holders a w"
  have p: "p < length (pbufs w)" and cnt: "counts_are (cells w) ?h"
    using assms by (auto simp: world_inv_def)
  show ?thesis
  proof (cases "m_ptr (pbufs w ! p)")
    case None
    then have "(\<lambda>a. ?h a + pbuf_holds a pbuf_empty - pbuf_holds a (pbufs w ! p)) = ?h"
      by (simp add: pbuf_holds_def [of _ "pbufs w ! p"])
    with None p cnt show ?thesis
      by (simp add: pbuf_unref_def world_inv_def world_update_commute holders_pbufs)
  next
    case (Some a)
    then have "(\<lambda>a. ?h a + pbuf_holds a pbuf_empty - pbuf_holds a (pbufs w ! p)) = ?h(a := ?h a - 1)"
      by (auto simp: pbuf_holds_def [of _ "pbufs w ! p"] fun_eq_iff)
    with Some p counts_unref [OF cnt, of a] holds_pos [OF p Some] show ?thesis
      by (auto simp: pbuf_unref_def world_inv_def world_update_commute holders_pbufs)
  qed
qed

lemma malloc_m_refs: "sbuf_malloc ok s a = Some (r, a') \<Longrightarrow> m_refs a' = m_refs a"
  by (auto simp: sbuf_malloc_def arena_take_def split: if_splits option.splits)

lemma malloc_small: "s \<le> 256 \<Longrightarrow> \<exists>r a'. sbuf_malloc ok s a = Some (r, a')"
  by (auto simp: sbuf_malloc_def arena_take_def ALLOC_UNIT_SIZE_def)

lemma step_refer:
  assumes "world_inv w" and "op_legal (Refer s ok p) w"
  shows "\<exists>w'. world_step (Refer s ok p) w = Some w' \<and> world_inv w'"
proof -
  let ?h = "\<lambda>a. holders a w"
  have s: "s < length (arenas w)" and p: "p < length (pbufs w)" and cnt: "counts_are (cells w) ?h"
    using assms by (auto simp: world_inv_def)
  obtain b where b: "m_ptr (pbufs w ! p) = Some b" using assms(2) by auto
  obtain r a' where m: "sbuf_malloc ok 16 (arenas w ! s) = Some (r, a')"
    using malloc_small [of 16 ok "arenas w ! s"] by auto
  have le: "count_list (m_refs (arenas w ! s)) a \<le> ?h a" for a
    using nth_le_sum_list_map [OF s, of "\<lambda>r. count_list (m_refs r) a"] by (simp add: holders_def)
  have same: "world_inv (w\<lparr>cells := cells w, arenas := (arenas w)[s := a']\<rparr>)"
    using cnt s malloc_m_refs [OF m] by (simp add: world_inv_def world_update_commute holders_arenas)
  have new: "(\<lambda>a. ?h a + count_list (m_refs x) a - count_list (m_refs (arenas w ! s)) a) = ?h(b := ?h b + 1)"
    if "m_refs x = b # m_refs (arenas w ! s)" for x :: arena
    using le that by (auto simp: fun_eq_iff)
  from counts_refer [OF cnt holds_pos [OF p b]] obtain c' where
    c': "ptr_refer b (cells w) = Some c'" "counts_are c' (?h(b := ?h b + 1))" by blast
  show ?thesis
  proof (cases r)
    case (Inl e)
    with m same show ?thesis by (simp add: sbuf_refer_def)
  next
    case (Inr ch)
    let ?x = "a'\<lparr>m_refs := b # m_refs a'\<rparr>"
    have "world_step (Refer s ok p) w = Some (w\<lparr>cells := c', arenas := (arenas w)[s := ?x]\<rparr>)"
      using m b c'(1) Inr by (simp add: sbuf_refer_def)
    moreover have "world_inv (w\<lparr>cells := c', arenas := (arenas w)[s := ?x]\<rparr>)"
      using new [of ?x] c'(2) s malloc_m_refs [OF m]
      by (simp only: world_inv_def world_update_commute holders_cells holders_arenas) simp
    ultimately show ?thesis by blast
  qed
qed

lemma step_sbuf_fin:
  assumes "world_inv w" and "op_legal (Sbuf_fin s) w"
  shows "\<exists>w'. world_step (Sbuf_fin s) w = Some w' \<and> world_inv w'"
proof -
  have s: "s < length (arenas w)" and cnt: "counts_are (cells w) (\<lambda>a. holders a w)"
    using assms by (auto simp: world_inv_def)
  have "count_list (m_refs (arenas w ! s)) a \<le> holders a w" for a
    using nth_le_sum_list_map [OF s, of "\<lambda>r. count_list (m_refs r) a"] by (simp add: holders_def)
  with s counts_unref_all [OF cnt, of "m_refs (arenas w ! s)"] show ?thesis
    by (auto simp: world_inv_def sbuf_fin_def world_update_commute holders_arenas arena_init_def)
qed

lemma world_step_inv:
  "world_inv w \<Longrightarrow> op_legal x w \<Longrightarrow> \<exists>w'. world_step x w = Some w' \<and> world_inv w'"
  by (cases x) (simp_all only: step_reserve step_copy step_destroy step_refer step_sbuf_fin)

lemma world_run_inv: "world_inv w \<Longrightarrow> all_legal xs w \<Longrightarrow> \<exists>w'. world_run xs w = Some w' \<and> world_inv w'"
proof (induction xs arbitrary: w)
  case (Cons x xs)
  then obtain w' where "world_step x w = Some w'" "world_inv w'" using world_step_inv by fastforce
  with Cons show ?case by simp
qed simp

section \<open>Properties\<close>

text \<open>
  C6: on a well-formed buffer, \<open>reserve\<close> with memory available succeeds for every size that
  fits in half the address space: it never loops or touches freed memory, leaves at least the
  requested room, and keeps the unread bytes, in order.
\<close>

theorem reserve_keeps_unread:
  assumes "pbuf_inv pb" and "m_limit pb + sz \<le> 2 ^ 63"
    and "\<And>a. m_ptr pb = Some a \<Longrightarrow> cnt c a \<noteq> None \<and> a < fresh c"
  shows "\<exists>pb' c'. pbuf_reserve True junk sz pb c = Some (Inr 0, pb', c')
    \<and> sz \<le> pbuf_available pb' \<and> unread pb' = unread pb \<and> pbuf_inv pb'"
proof (cases "sz \<le> pbuf_available pb")
  case True
  with assms(1) show ?thesis by (simp add: reserve_enough)
next
  case False
  show ?thesis
  proof (cases "m_ptr pb")
    case None
    with assms(1) have "unread pb = []" by (simp add: pbuf_inv_def unread_def)
    with reserve_first [of sz pb junk c] None False assms show ?thesis by auto
  next
    case (Some a)
    with assms(3) obtain n where "cnt c a = Some n" "a < fresh c" by auto
    moreover have "sz + m_len pb \<le> 2 ^ 63" using assms(1,2) by (simp add: pbuf_inv_def)
    ultimately show ?thesis
      using reserve_grow [of pb sz a c n junk] Some False assms(1) by auto
  qed
qed

theorem reserve_keeps_unread_witness:
  "\<exists>pb' c'. pbuf_reserve True (\<lambda>_. 9) 300
      \<lparr>m_ptr = Some 0, m_mem = (\<lambda>i. if i = 2 then 7 else 0), m_len = 3, m_limit = 256, m_ofs = 2\<rparr>
      \<lparr>cnt = [0 \<mapsto> 1], fresh = 1\<rparr> = Some (Inr 0, pb', c') \<and> unread pb' = [7]"
proof -
  let ?pb = "\<lparr>m_ptr = Some 0, m_mem = (\<lambda>i. if i = 2 then 7 else 0), m_len = 3, m_limit = 256, m_ofs = 2\<rparr> :: pbuf"
  have "pbuf_inv ?pb" "m_limit ?pb + 300 \<le> 2 ^ 63" by (simp_all add: pbuf_inv_def)
  moreover have "unread ?pb = [7]" by (simp add: unread_def bytes_at_def)
  ultimately show ?thesis
    using reserve_keeps_unread [of ?pb 300 "\<lparr>cnt = [0 \<mapsto> 1], fresh = 1\<rparr>" "\<lambda>_. 9"] by fastforce
qed

text \<open>
  Asked for more room than \<open>2^63\<close> bytes (what a negative \<open>int\<close> size becomes), \<open>reserve\<close>
  never returns: the doubled limit overflows to zero and stays there.
\<close>

theorem reserve_huge_diverges:
  assumes "2 ^ 63 < sz" and "sz + m_len pb < 2 ^ 64" and "pbuf_available pb < sz"
    and "m_limit pb = 2 ^ k" and "k \<le> 63"
  shows "pbuf_reserve ok junk sz pb c = None"
proof -
  let ?x = "m_len pb - m_ofs pb"
  have "(sz + ?x) mod 2 ^ 64 = sz + ?x" using assms(2) by simp
  moreover have "grow (sz + ?x) (m_limit pb) = None"
    using grow_result [of "sz + ?x" "m_limit pb"] assms by (cases "grow (sz + ?x) (m_limit pb)") auto
  moreover have "\<exists>j \<le> 63. INITIAL_BUFFER_SIZE = 2 ^ j"
    by (rule exI [of _ 8]) (simp add: INITIAL_BUFFER_SIZE_def)
  then have "grow sz INITIAL_BUFFER_SIZE = None"
    using grow_result [of sz INITIAL_BUFFER_SIZE] assms(1)
    by (cases "grow sz INITIAL_BUFFER_SIZE") auto
  ultimately show ?thesis
    using assms(3) by (simp add: pbuf_reserve_def Let_def code_defs split: option.splits)
qed

theorem reserve_huge_diverges_witness:
  "pbuf_reserve True (\<lambda>_. 0) (2 ^ 64 - 1)
     \<lparr>m_ptr = Some 0, m_mem = (\<lambda>_. 0), m_len = 0, m_limit = 256, m_ofs = 0\<rparr> \<lparr>cnt = [0 \<mapsto> 1], fresh = 1\<rparr> = None"
  by (rule reserve_huge_diverges [of _ _ 8]) (simp_all add: pbuf_available_def)

text \<open>
  C7: from a state whose counts agree with the holders (an idle process, say), every sequence of
  reservations, copies, destructions, references from arenas and arena releases that respects
  the callers' contract runs without ever touching freed memory, and afterwards an allocation
  exists exactly when some buffer or arena holds it, with that many holders as its count.
\<close>

theorem buffers_never_dangle:
  assumes "world_inv w" and "all_legal xs w"
  shows "\<exists>w'. world_run xs w = Some w'
    \<and> (\<forall>a. cnt (cells w') a = (if holders a w' = 0 then None else Some (int (holders a w'))))"
  using world_run_inv [OF assms] unfolding world_inv_def counts_are_def by blast

theorem buffers_never_dangle_witness:
  "\<exists>w'. world_run [Reserve 0 True (\<lambda>_. 0) 10, Refer 0 True 0, Destroy 0]
     \<lparr>cells = \<lparr>cnt = Map.empty, fresh = 0\<rparr>, pbufs = [pbuf_empty, pbuf_empty], arenas = [arena_init]\<rparr> = Some w'
     \<and> (\<forall>a. cnt (cells w') a = (if holders a w' = 0 then None else Some (int (holders a w'))))"
  by (rule buffers_never_dangle)
    (simp_all add: world_inv_def counts_are_def holders_def pbuf_holds_def pbuf_empty_def arena_init_def
      pbuf_reserve_def pbuf_available_def INITIAL_BUFFER_SIZE_def cell_new_def pbuf_inv_def sbuf_refer_def
      sbuf_malloc_def arena_take_def ALLOC_UNIT_SIZE_def ptr_refer_def pbuf_unref_def ptr_unref_def)

text \<open>
  C8: the chunks one arena hands out, whatever their sizes up to half the address space, have the
  sizes asked for, lie inside their allocation units and never overlap.
\<close>

theorem arena_chunks_disjoint:
  assumes "\<forall>s \<in> set ss. s \<le> 2 ^ 63"
  shows "\<exists>chs a. sbuf_mallocs ss arena_init = Some (chs, a) \<and> map (snd \<circ> snd) chs = ss
    \<and> (\<forall>c \<in> set chs. chunk_inside a c)
    \<and> (\<forall>i j. i < j \<and> j < length chs \<longrightarrow> chunks_disjoint (chs ! i) (chs ! j))"
  using mallocs_ok [OF _ assms, of arena_init] by (auto simp: arena_inv_def arena_init_def)

theorem arena_chunks_disjoint_witness:
  "\<exists>chs a. sbuf_mallocs [40, 300, 8] arena_init = Some (chs, a) \<and> map (snd \<circ> snd) chs = [40, 300, 8]
    \<and> (\<forall>c \<in> set chs. chunk_inside a c)
    \<and> (\<forall>i j. i < j \<and> j < length chs \<longrightarrow> chunks_disjoint (chs ! i) (chs ! j))"
  by (rule arena_chunks_disjoint) simp

end
