(* ===== verification/Strings.thy ===== *)
theory Strings
  imports Prelude
begin

text \<open>
  \<^verbatim>\<open>src/src/util/util.h\<close> and \<^verbatim>\<open>src/src/util/util.cpp\<close>: the bounded string routines of
  \<open>util::str\<close> and the prime search that sizes hash tables.

  A NUL-terminated string is the list of the bytes before its terminator; where a routine can run
  past the terminator the argument is the memory behind the pointer instead.  \<open>char\<close> is signed, so
  bytes compare with \<open><s\<close>.  A loop that may not end, or a routine that dereferences a null pointer,
  returns an option.

  The lemmas: bounded comparison decides equality of the first \<open>sz + 1\<close> bytes and is antisymmetric;
  bounded copy stays inside its buffer and terminates it; the decimal and hexadecimal parsers
  return the number written, at the width of their result; the sieve returns the greatest prime
  up to its argument; two routines loop forever or crash on malformed input.
\<close>

section \<open>Comparison\<close>

text \<open>The loop of \<open>_cmp\<close> after \<open>n\<close> equal characters; \<open>[]\<close> is the terminator.\<close>

fun str_cmp_loop :: "nat \<Rightarrow> U8 list \<Rightarrow> nat \<Rightarrow> U8 list \<Rightarrow> nat \<Rightarrow> int" where
  "str_cmp_loop n (x # xs) al (y # ys) bl =
     (if y <s x then 1
      else if x <s y then -1
      else if n + 1 > al then (if n + 1 > bl then 0 else -1)
      else if n + 1 > bl then 1
      else str_cmp_loop (n + 1) xs al ys bl)"
| "str_cmp_loop n [] al [] bl = 0"
| "str_cmp_loop n (x # xs) al [] bl = 1"
| "str_cmp_loop n [] al (y # ys) bl = -1"

definition str_cmp2 :: "U8 list \<Rightarrow> nat \<Rightarrow> U8 list \<Rightarrow> nat \<Rightarrow> int" where
  "str_cmp2 a al b bl = str_cmp_loop 0 a al b bl"

definition str_cmp :: "U8 list \<Rightarrow> U8 list \<Rightarrow> nat \<Rightarrow> int" where
  "str_cmp a b sz = str_cmp2 a sz b sz"

lemma str_cmp_loop_eq:
  "n \<le> sz \<Longrightarrow> str_cmp_loop n a sz b sz = 0 \<longleftrightarrow> take (Suc sz - n) a = take (Suc sz - n) b"
proof (induction a arbitrary: n b)
  case Nil
  then show ?case by (cases b) (auto simp: Suc_diff_le)
next
  case (Cons x xs)
  have tri: "x = y" if "\<not> y <s x" "\<not> x <s y" for y
    using that by (auto simp: word_sless_alt intro: signed_word_eqI)
  show ?case
  proof (cases b)
    case Nil
    with Cons.prems show ?thesis by (simp add: Suc_diff_le)
  next
    case (Cons y ys)
    show ?thesis
    proof (cases "n = sz")
      case True
      with Cons tri [of y] show ?thesis by (auto simp: word_sless_alt)
    next
      case False
      with Cons.prems have "Suc n \<le> sz" by simp
      from Cons.IH [OF this, of ys] this have
        "str_cmp_loop (Suc n) xs sz ys sz = 0 \<longleftrightarrow> take (sz - n) xs = take (sz - n) ys"
        by simp
      with \<open>Suc n \<le> sz\<close> Cons tri [of y] show ?thesis
        by (auto simp: word_sless_alt Suc_diff_le)
    qed
  qed
qed

lemma str_cmp_loop_swap: "str_cmp_loop n b sz a sz = - str_cmp_loop n a sz b sz"
proof (induction a arbitrary: n b)
  case Nil
  show ?case by (cases b) simp_all
next
  case (Cons x xs)
  then show ?case by (cases b) (auto simp: word_sless_alt)
qed

section \<open>Length and copy\<close>

text \<open>\<open>_length\<close>: counts up to the terminator, cut at \<open>m\<close>.\<close>

fun str_length_loop :: "nat \<Rightarrow> U8 list \<Rightarrow> nat \<Rightarrow> nat" where
  "str_length_loop n [] m = n"
| "str_length_loop n (x # xs) m = (if n + 1 > m then m else str_length_loop (n + 1) xs m)"

definition str_length :: "U8 list \<Rightarrow> nat \<Rightarrow> nat" where
  "str_length s m = str_length_loop 0 s m"

lemma str_length_loop_min: "n \<le> m \<Longrightarrow> str_length_loop n s m = min (n + length s) m"
  by (induction s arbitrary: n) auto

lemma str_length_min: "str_length s m = min (length s) m"
  by (simp add: str_length_def str_length_loop_min)

text \<open>
  \<open>_copy\<close>: \<open>w\<close> is what has been written to \<open>a\<close> so far.  The result is the bytes written, the
  terminator included, and the return value; \<open>a[al - 1]\<close> of an empty buffer is out of bounds.
\<close>

fun str_copy_loop :: "U8 list \<Rightarrow> nat \<Rightarrow> U8 list \<Rightarrow> nat \<Rightarrow> (U8 list \<times> nat) option" where
  "str_copy_loop w al [] bl = Some (w @ [0], length w)"
| "str_copy_loop w al (c # b) bl =
     (let w = w @ [c] in
      if length w \<ge> al then (if al = 0 then None else Some (w[al - 1 := 0], al))
      else if length w \<ge> bl then Some (w @ [0], length w)
      else str_copy_loop w al b bl)"

definition str_copy :: "nat \<Rightarrow> U8 list \<Rightarrow> nat \<Rightarrow> (U8 list \<times> nat) option" where
  "str_copy al b bl = str_copy_loop [] al b bl"

lemma str_copy_loop_result:
  "length w < al \<Longrightarrow> length w < bl \<Longrightarrow> str_copy_loop w al b bl =
    (if al \<le> bl \<and> al \<le> length w + length b
     then Some (w @ take (al - 1 - length w) b @ [0], al)
     else Some (w @ take (bl - length w) b @ [0], min (length w + length b) bl))"
proof (induction w al b bl rule: str_copy_loop.induct)
  case (1 w al bl)
  then show ?case by simp
next
  case (2 w al c b bl)
  consider "al = Suc (length w)" | "al > Suc (length w)" "bl = Suc (length w)"
    | "al > Suc (length w)" "bl > Suc (length w)" using 2(2,3) by linarith
  then show ?case
  proof cases
    case 1
    with 2(3) show ?thesis by (simp add: list_update_append Let_def)
  next
    case 2
    then show ?thesis by (simp add: Let_def)
  next
    case 3
    then have "al - Suc (length w) = Suc (al - Suc (Suc (length w)))" "bl - length w = Suc (bl - Suc (length w))"
      by simp_all
    with 3 2(1) show ?thesis by (simp add: Let_def)
  qed
qed

section \<open>Numbers\<close>

text \<open>
  The four parsers share one loop, over the digits they accept, the base and the width of the
  result: \<open>i\<close> is the value so far and \<open>pos\<close> the characters read.  C's signed overflow is taken as
  wrap-around.
\<close>

definition dec_digit :: "U8 \<Rightarrow> nat option" where
  "dec_digit c = (if 48 \<le> unat c \<and> unat c \<le> 57 then Some (unat c - 48) else None)"

definition hex_digit :: "U8 \<Rightarrow> nat option" where
  "hex_digit c =
     (if 48 \<le> unat c \<and> unat c \<le> 57 then Some (unat c - 48)
      else if 97 \<le> unat c \<and> unat c \<le> 102 then Some (unat c - 97 + 10)
      else if 65 \<le> unat c \<and> unat c \<le> 70 then Some (unat c - 65 + 10)
      else None)"

fun num_loop ::
  "(U8 \<Rightarrow> nat option) \<Rightarrow> 'a word \<Rightarrow> 'a::len word \<Rightarrow> int \<Rightarrow> U8 list \<Rightarrow> int \<Rightarrow> nbr_error + 'a word" where
  "num_loop digit base i pos [] m = Inr i"
| "num_loop digit base i pos (c # s) m =
     (case digit c of None \<Rightarrow> Inl EFORMAT
      | Some d \<Rightarrow>
          (let i = i * base + of_nat d; pos = pos + 1 in
           if pos \<ge> m then Inl ELENGTH else num_loop digit base i pos s m))"

definition num_parse ::
  "(U8 \<Rightarrow> nat option) \<Rightarrow> 'a word \<Rightarrow> U8 list \<Rightarrow> int \<Rightarrow> nbr_error + 'a::len word" where
  "num_parse digit base str m =
     (case str of
        c # s \<Rightarrow>
          (if c = 45 then
             (case num_loop digit base 0 1 s m of Inl e \<Rightarrow> Inl e | Inr i \<Rightarrow> Inr (-1 * i))
           else num_loop digit base 0 0 str m)
      | [] \<Rightarrow> Inr 0)"

definition atobn :: "U8 list \<Rightarrow> int \<Rightarrow> nbr_error + U64" where
  "atobn = num_parse dec_digit 10"

definition atoi :: "U8 list \<Rightarrow> int \<Rightarrow> nbr_error + U32" where
  "atoi = num_parse dec_digit 10"

definition htoi :: "U8 list \<Rightarrow> int \<Rightarrow> nbr_error + U32" where
  "htoi = num_parse hex_digit 16"

definition htobn :: "U8 list \<Rightarrow> int \<Rightarrow> nbr_error + U64" where
  "htobn = num_parse hex_digit 16"

text \<open>The decimal numeral of a number, as \<open>printf\<close> writes it.\<close>

fun decimal :: "nat \<Rightarrow> U8 list" where
  "decimal n = (if n < 10 then [of_nat (48 + n)] else decimal (n div 10) @ [of_nat (48 + n mod 10)])"

declare decimal.simps [simp del]

lemma dec_digit_decimal: "n < 10 \<Longrightarrow> dec_digit (of_nat (48 + n)) = Some n"
  by (simp add: dec_digit_def unsigned_of_nat take_bit_nat_eq_self del: of_nat_add)

lemma num_loop_append:
  "num_loop digit base i pos (s @ t) m =
     (case num_loop digit base i pos s m of Inl e \<Rightarrow> Inl e
      | Inr i' \<Rightarrow> num_loop digit base i' (pos + int (length s)) t m)"
  by (induction s arbitrary: i pos) (auto simp: Let_def algebra_simps split: option.splits sum.splits)

lemma num_loop_decimal:
  fixes i :: "'a::len word"
  assumes "pos + int (length (decimal n)) < m"
  shows "num_loop dec_digit 10 0 pos (decimal n) m = Inr (of_nat n :: 'a word)"
  using assms
proof (induction n rule: decimal.induct)
  case (1 n)
  show ?case
  proof (cases "n < 10")
    case True
    with 1(2) show ?thesis by (simp add: decimal.simps [of n] dec_digit_decimal del: of_nat_add)
  next
    case False
    then have d: "decimal n = decimal (n div 10) @ [of_nat (48 + n mod 10)]"
      by (simp add: decimal.simps [of n])
    with 1(2) have m: "pos + int (length (decimal (n div 10))) + 1 < m" by simp
    with 1(1) [OF False] have "num_loop dec_digit 10 0 pos (decimal (n div 10)) m = Inr (of_nat (n div 10) :: 'a word)"
      by simp
    moreover have "(of_nat (n div 10) * 10 + of_nat (n mod 10) :: 'a word) = of_nat n"
      by (metis div_mult_mod_eq of_nat_add of_nat_mult of_nat_numeral)
    ultimately show ?thesis
      using m dec_digit_decimal [of "n mod 10"]
      by (simp add: d num_loop_append del: of_nat_add)
  qed
qed

lemma decimal_digits: "c \<in> set (decimal n) \<Longrightarrow> dec_digit c \<noteq> None"
proof (induction n rule: decimal.induct)
  case (1 n)
  then show ?case
    by (cases "n < 10") (auto simp: decimal.simps [of n] dec_digit_decimal simp del: of_nat_add)
qed

lemma decimal_not_Nil [simp]: "decimal n \<noteq> []"
  by (simp add: decimal.simps [of n])

lemma num_parse_decimal:
  fixes w :: "'a::len word"
  assumes "int (length (decimal n)) < m"
  shows "num_parse dec_digit 10 (decimal n) m = Inr (of_nat n :: 'a word)"
    and "num_parse dec_digit 10 (45 # decimal n) (m + 1) = Inr (- of_nat n :: 'a word)"
proof -
  obtain c s where cs: "decimal n = c # s" using decimal_not_Nil by (cases "decimal n") blast+
  then have "c \<noteq> 45" using decimal_digits [of c n] by (auto simp: dec_digit_def)
  with cs num_loop_decimal [where 'a = 'a, of 0 n m] assms show "num_parse dec_digit 10 (decimal n) m = Inr (of_nat n :: 'a word)"
    by (simp add: num_parse_def)
  show "num_parse dec_digit 10 (45 # decimal n) (m + 1) = Inr (- of_nat n :: 'a word)"
    using num_loop_decimal [where 'a = 'a, of 1 n "m + 1"] assms by (simp add: num_parse_def)
qed

lemma num_parse_too_long:
  assumes "\<forall>c \<in> set s. digit c \<noteq> None" and "s \<noteq> []" and "hd s \<noteq> 45" and "m \<le> int (length s)"
  shows "num_parse digit base s m = Inl ELENGTH"
proof -
  have "num_loop digit base i pos s m = Inl ELENGTH"
    if "\<forall>c \<in> set s. digit c \<noteq> None" "s \<noteq> []" "m \<le> pos + int (length s)" for i pos s
    using that
  proof (induction s arbitrary: i pos)
    case (Cons c s)
    then show ?case by (cases "s = []") (auto simp: Let_def)
  qed simp
  from this [of s 0 0] assms show ?thesis by (cases s) (auto simp: num_parse_def)
qed

section \<open>Cutting and searching\<close>

text \<open>\<open>chop\<close>; the second branch is the code's, though the first one hides it.\<close>

definition chop :: "U8 list \<Rightarrow> U8 list option" where
  "chop s =
     (if length s > 0x7FFFFFFF then None
      else if length s > 0 \<and> last s = 10 then Some (butlast s)
      else if length s > 1 \<and> last s = 10 \<and> last (butlast s) = 13 then Some (butlast (butlast s))
      else Some s)"

text \<open>\<open>rchr\<close>: the index of the last separator; \<open>w\<close> is the position of the list's head.\<close>

fun rchr_loop :: "nat \<Rightarrow> nat option \<Rightarrow> U8 list \<Rightarrow> U8 \<Rightarrow> int \<Rightarrow> nat option" where
  "rchr_loop w p [] sep m = p"
| "rchr_loop w p (c # s) sep m =
     (let p = (if c = sep then Some w else p) in
      if int w > m then None else rchr_loop (w + 1) p s sep m)"

definition rchr :: "U8 list \<Rightarrow> U8 \<Rightarrow> int \<Rightarrow> nat option" where
  "rchr s sep m = rchr_loop 0 None s sep m"

lemma rchr_loop_last:
  "int (w + length s1 + length s2) \<le> m \<Longrightarrow> sep \<notin> set s2 \<Longrightarrow>
     rchr_loop w p (s1 @ sep # s2) sep m = Some (w + length s1)"
proof (induction s1 arbitrary: w p)
  case Nil
  have "rchr_loop w q s2 sep m = q" if "int (w + length s2) \<le> m + 1" "sep \<notin> set s2" for w q
    using that by (induction s2 arbitrary: w) (auto simp: Let_def)
  with Nil show ?case by (simp add: Let_def)
next
  case (Cons c s1)
  then show ?case by (simp add: Let_def)
qed

lemma rchr_loop_none:
  "sep \<notin> set s \<Longrightarrow> rchr_loop w None s sep m = None"
  by (induction s arbitrary: w) (auto simp: Let_def)

text \<open>
  \<open>divide_tag_and_val\<close>: the tag written (its terminator left out) and what follows the separator.
  The tag buffer receives up to \<open>taglen\<close> bytes and the terminator.
\<close>

fun divide_loop :: "U8 \<Rightarrow> U8 list \<Rightarrow> U8 list \<Rightarrow> int \<Rightarrow> (U8 list \<times> U8 list) option" where
  "divide_loop sep tag [] taglen = None"
| "divide_loop sep tag (c # w) taglen =
     (if c = sep then Some (tag, w)
      else if int (length tag + 1) > taglen then None
      else divide_loop sep (tag @ [c]) w taglen)"

definition divide_tag_and_val :: "U8 \<Rightarrow> U8 list \<Rightarrow> int \<Rightarrow> (U8 list \<times> U8 list) option" where
  "divide_tag_and_val sep line taglen = divide_loop sep [] line taglen"

lemma divide_loop_split:
  "sep \<notin> set t \<Longrightarrow> int (length tag + length t) \<le> taglen \<Longrightarrow>
     divide_loop sep tag (t @ sep # v) taglen = Some (tag @ t, v)"
  by (induction t arbitrary: tag) auto

lemma divide_loop_length:
  "divide_loop sep tag w taglen = Some (t, v) \<Longrightarrow> int (length tag) \<le> taglen \<Longrightarrow>
     int (length t) \<le> taglen \<and> tag @ w = t @ sep # v"
  by (induction sep tag w taglen rule: divide_loop.induct) (auto split: if_splits)

section \<open>UTF-8\<close>

text \<open>
  \<open>get_oneword_utf8\<close>: the bytes copied, or \<open>None\<close> for its null result.  \<open>utf8_copy\<close> reads the memory
  behind \<open>src\<close>; after a null result it goes on only if the budgets let it, and then dereferences
  the null pointer (\<open>None\<close>).
\<close>

definition get_oneword_utf8 :: "mem \<Rightarrow> nat \<Rightarrow> int \<Rightarrow> int \<Rightarrow> nat option" where
  "get_oneword_utf8 ibuf pos ilen olen =
     (let ch = ibuf pos in
      if ilen \<le> 0 \<or> olen \<le> 0 then None
      else if ch \<le> 0x7F then Some 1
      else if ch AND 0xE0 = 0xE0 then (if ilen \<ge> 3 \<and> olen \<ge> 3 then Some 3 else None)
      else if ch AND 0xC0 = 0xC0 then (if ilen \<ge> 2 \<and> olen \<ge> 2 then Some 2 else None)
      else None)"

text \<open>
  \<open>s_now\<close> is the number of bytes read and \<open>d\<close> the bytes written.  Without budget on entry the
  code moves \<open>d_now\<close> over the whole buffer and writes its terminator behind it (\<open>None\<close> too).
\<close>

function utf8_copy_loop :: "mem \<Rightarrow> nat \<Rightarrow> U8 list \<Rightarrow> int \<Rightarrow> int \<Rightarrow> int \<Rightarrow> (U8 list \<times> nat option) option" where
  "utf8_copy_loop src s_now d dlen smax len =
     (if src s_now = 0 then Some (d @ [0], Some s_now)
      else case get_oneword_utf8 src s_now smax dlen of
        Some n \<Rightarrow>
          (let d = d @ bytes_at src s_now n; dlen = dlen - int n; smax = smax - int n; len = len - 1 in
           if len \<le> 0 \<or> dlen \<le> 1 \<or> smax \<le> 0 then Some (d @ [0], Some (s_now + n))
           else utf8_copy_loop src (s_now + n) d dlen smax len)
      | None \<Rightarrow>
          (if smax \<le> 0 \<or> dlen \<le> 0 then None
           else if len - 1 \<le> 0 \<or> dlen \<le> 1 then Some (d @ [0], None)
           else None))"
  by pat_completeness auto
termination
  by (relation "measure (\<lambda>(src, s, d, dlen, smax, len). nat len)") auto

definition utf8_copy :: "int \<Rightarrow> mem \<Rightarrow> int \<Rightarrow> int \<Rightarrow> (U8 list \<times> nat option) option" where
  "utf8_copy dlen src smax len = utf8_copy_loop src 0 [] dlen smax len"

section \<open>Request parameters\<close>

text \<open>
  \<open>parse_http_req_str\<close>: \<open>req\<close> is the query before its terminator, \<open>tag\<close> the memory behind the name
  looked for; \<open>w\<close>, \<open>prev\<close> and \<open>mark\<close> are offsets into \<open>req\<close>.  The \<open>continue\<close> at a separator
  without a preceding \<open>=\<close> leaves \<open>w\<close> where it is.
\<close>

definition req_value ::
  "U8 list \<Rightarrow> mem \<Rightarrow> int \<Rightarrow> nat \<Rightarrow> nat \<Rightarrow> nat \<Rightarrow> (nbr_error + U8 list) option" where
  "req_value req tag buflen w prev mark =
     (if take (mark - prev) (drop prev req) = bytes_at tag 0 (mark - prev) then
        (if 1 < w - mark \<and> int (w - mark) \<le> buflen
         then Some (Inr (take (w - mark - 1) (drop (mark + 1) req)))
         else Some (Inl ENOTFOUND))
      else None)"

partial_function (option) req_loop ::
  "U8 list \<Rightarrow> mem \<Rightarrow> int \<Rightarrow> nat \<Rightarrow> nat \<Rightarrow> nat option \<Rightarrow> (nbr_error + U8 list) option" where
  "req_loop req tag buflen w prev mark =
     (if w \<ge> length req then
        (case mark of None \<Rightarrow> Some (Inl ENOTFOUND)
         | Some m \<Rightarrow>
             (if m = 0 then Some (Inl ENOTFOUND)
              else case req_value req tag buflen w prev m of
                     None \<Rightarrow> Some (Inl ENOTFOUND) | Some r \<Rightarrow> Some r))
      else
        (let mark = (if req ! w = 61 \<and> mark = None then Some w else mark) in
         if req ! w = 38 then
           (case mark of None \<Rightarrow> req_loop req tag buflen w prev mark
            | Some m \<Rightarrow>
                (case req_value req tag buflen w prev m of
                   Some r \<Rightarrow> Some r
                 | None \<Rightarrow> (if w + 1 > 65536 then Some (Inl ENOTFOUND)
                            else req_loop req tag buflen (w + 1) (w + 1) None)))
         else if w + 1 > 65536 then Some (Inl ENOTFOUND)
         else req_loop req tag buflen (w + 1) prev mark))"

definition parse_http_req_str :: "U8 list \<Rightarrow> mem \<Rightarrow> int \<Rightarrow> (nbr_error + U8 list) option" where
  "parse_http_req_str req tag buflen = req_loop req tag buflen 0 0 None"

definition parse_http_req_int :: "U8 list \<Rightarrow> mem \<Rightarrow> (nbr_error + U32) option" where
  "parse_http_req_int req tag =
     (case parse_http_req_str req tag 65536 of None \<Rightarrow> None
      | Some (Inl e) \<Rightarrow> Some (Inl e)
      | Some (Inr buffer) \<Rightarrow> Some (atoi buffer 65536))"

definition parse_http_req_bigint :: "U8 list \<Rightarrow> mem \<Rightarrow> (nbr_error + U64) option" where
  "parse_http_req_bigint req tag =
     (case parse_http_req_str req tag 65536 of None \<Rightarrow> None
      | Some (Inl e) \<Rightarrow> Some (Inl e)
      | Some (Inr buffer) \<Rightarrow> Some (atobn buffer 65536))"

lemma req_loop_skip:
  "w < length req \<Longrightarrow> w < 65536 \<Longrightarrow> req ! w \<noteq> 38 \<Longrightarrow> req ! w \<noteq> 61 \<or> mark \<noteq> None \<Longrightarrow>
     req_loop req tag buflen w prev mark = req_loop req tag buflen (w + 1) prev mark"
  by (subst req_loop.simps) (auto simp: Let_def)

lemma req_loop_mark:
  "w < length req \<Longrightarrow> w < 65536 \<Longrightarrow> req ! w = 61 \<Longrightarrow>
     req_loop req tag buflen w prev None = req_loop req tag buflen (w + 1) prev (Some w)"
  by (subst req_loop.simps) (auto simp: Let_def)

lemma req_loop_skips:
  assumes "w + n \<le> length req" and "w + n \<le> 65536"
    and "\<And>k. k < n \<Longrightarrow> req ! (w + k) \<noteq> 38 \<and> (req ! (w + k) \<noteq> 61 \<or> mark \<noteq> None)"
  shows "req_loop req tag buflen w prev mark = req_loop req tag buflen (w + n) prev mark"
  using assms
proof (induction n)
  case (Suc n)
  have "req_loop req tag buflen w prev mark = req_loop req tag buflen (w + n) prev mark"
  proof (rule Suc.IH)
    fix k assume "k < n"
    then show "req ! (w + k) \<noteq> 38 \<and> (req ! (w + k) \<noteq> 61 \<or> mark \<noteq> None)" by (intro Suc.prems(3)) simp
  qed (use Suc.prems in simp_all)
  also have "\<dots> = req_loop req tag buflen (w + Suc n) prev mark"
    using Suc.prems req_loop_skip [of "w + n" req mark tag buflen prev] by auto
  finally show ?case .
qed simp

lemma req_loop_stuck:
  assumes "w < length req" and "req ! w = 38"
  shows "req_loop req tag buflen w prev None = None"
proof (cases "req_loop req tag buflen w prev None")
  case (Some r)
  have "\<not> (w < length req \<and> req ! w = 38 \<and> mark = None)"
    if *: "req_loop req tag buflen w prev mark = Some r" for mark
  proof (rule req_loop.raw_induct
      [where P = "\<lambda>req tag buflen w prev mark r. \<not> (w < length req \<and> req ! w = 38 \<and> mark = None)", OF _ *], intro notI)
    fix f :: "U8 list \<Rightarrow> mem \<Rightarrow> int \<Rightarrow> nat \<Rightarrow> nat \<Rightarrow> nat option \<Rightarrow> (nbr_error + U8 list) option"
      and req :: "U8 list" and tag :: mem and buflen :: int and w prev :: nat and mark :: "nat option" and r
    assume IH: "\<And>req tag buflen w prev mark r. f req tag buflen w prev mark = Some r \<Longrightarrow>
        \<not> (w < length req \<and> req ! w = 38 \<and> mark = None)"
      and stuck: "w < length req \<and> req ! w = 38 \<and> mark = None"
    assume eq: "(if length req \<le> w then
        (case mark of None \<Rightarrow> Some (Inl ENOTFOUND)
         | Some m \<Rightarrow>
             (if m = 0 then Some (Inl ENOTFOUND)
              else case req_value req tag buflen w prev m of
                     None \<Rightarrow> Some (Inl ENOTFOUND) | Some r \<Rightarrow> Some r))
      else
        (let mark = (if req ! w = 61 \<and> mark = None then Some w else mark) in
         if req ! w = 38 then
           (case mark of None \<Rightarrow> f req tag buflen w prev mark
            | Some m \<Rightarrow>
                (case req_value req tag buflen w prev m of
                   None \<Rightarrow> (if 65536 < w + 1 then Some (Inl ENOTFOUND)
                            else f req tag buflen (w + 1) (w + 1) None)
                 | Some r \<Rightarrow> Some r))
         else if 65536 < w + 1 then Some (Inl ENOTFOUND)
         else f req tag buflen (w + 1) prev mark)) = Some r"
    from stuck eq have "f req tag buflen w prev None = Some r" by (simp add: Let_def)
    from IH [OF this] stuck show False by simp
  qed
  with Some assms show ?thesis by blast
qed simp

section \<open>Primes\<close>

text \<open>
  \<open>prime\<close>: \<open>p[N - 1]\<close> says that \<open>N\<close> is composite.  The arguments are below \<open>2^30\<close>, so no \<open>int\<close> of
  the loops overflows.
\<close>

function prime_mark :: "nat \<Rightarrow> nat \<Rightarrow> nat \<Rightarrow> bool list \<Rightarrow> bool list" where
  "prime_mark given i j p =
     (if 0 < i \<and> j \<le> given then prime_mark given i (j + i) (p[j - 1 := True]) else p)"
  by pat_completeness auto
termination by (relation "measure (\<lambda>(given, i, j, p). given + 1 - j)") auto

function prime_sieve :: "nat \<Rightarrow> nat \<Rightarrow> bool list \<Rightarrow> bool list" where
  "prime_sieve given i p =
     (if i \<le> given \<and> \<not> i > given div i then
        prime_sieve given (i + 1) (if p ! (i - 1) then p else prime_mark given i (i * 2) p)
      else p)"
  by pat_completeness auto
termination by (relation "measure (\<lambda>(given, i, p). given + 1 - i)") auto

primrec prime_find :: "bool list \<Rightarrow> nat \<Rightarrow> int" where
  "prime_find p 0 = -1"
| "prime_find p (Suc k) = (if \<not> p ! Suc k then int (Suc k) + 1 else prime_find p k)"

definition prime :: "bool \<Rightarrow> int \<Rightarrow> int" where
  "prime alloc_ok given =
     (if given \<le> 3 then given
      else if \<not> alloc_ok then -1
      else prime_find (prime_sieve (nat given) 2 (replicate (nat given) False)) (nat given - 1))"

declare prime_mark.simps [simp del] prime_sieve.simps [simp del]

definition is_prime :: "nat \<Rightarrow> bool" where
  "is_prime n \<longleftrightarrow> 2 \<le> n \<and> (\<forall>d \<in> {2..<n}. \<not> d dvd n)"

lemma length_prime_mark [simp]: "length (prime_mark given i j p) = length p"
  by (induction given i j p rule: prime_mark.induct) (subst prime_mark.simps, simp)

lemma prime_mark_nth:
  assumes "0 < i" and "0 < j" and "length p = given" and "1 \<le> n" and "n \<le> given"
  shows "prime_mark given i j p ! (n - 1) \<longleftrightarrow> p ! (n - 1) \<or> (\<exists>k. n = j + k * i)"
  using assms
proof (induction given i j p rule: prime_mark.induct)
  case (1 given i j p)
  have split: "(\<exists>k. n = j + k * i) \<longleftrightarrow> n = j \<or> (\<exists>k. n = j + i + k * i)"
  proof
    assume "\<exists>k. n = j + k * i"
    then obtain k where "n = j + k * i" by blast
    then show "n = j \<or> (\<exists>k. n = j + i + k * i)" by (cases k) auto
  next
    assume "n = j \<or> (\<exists>k. n = j + i + k * i)"
    then show "\<exists>k. n = j + k * i"
    proof
      assume "n = j" then show ?thesis by (intro exI [of _ 0]) simp
    next
      assume "\<exists>k. n = j + i + k * i"
      then obtain k where "n = j + i + k * i" by blast
      then show ?thesis by (intro exI [of _ "Suc k"]) simp
    qed
  qed
  show ?case
  proof (cases "j \<le> given")
    case True
    from 1(1) [OF conjI [OF 1(2) this] 1(2)] 1(2-)
    have "prime_mark given i (j + i) (p[j - 1 := True]) ! (n - 1)
        \<longleftrightarrow> p[j - 1 := True] ! (n - 1) \<or> (\<exists>k. n = j + i + k * i)" by auto
    moreover have "p[j - 1 := True] ! (n - 1) \<longleftrightarrow> p ! (n - 1) \<or> n = j"
      using 1(3-6) by (cases "n = j") (auto simp: nth_list_update)
    moreover have "prime_mark given i j p = prime_mark given i (j + i) (p[j - 1 := True])"
      using True 1(2) by (subst prime_mark.simps) simp
    ultimately show ?thesis using split by (simp only:) blast
  next
    case False
    with 1(6) have "\<not> (\<exists>k. n = j + k * i)" by auto
    with False show ?thesis by (subst prime_mark.simps) simp
  qed
qed

text \<open>Marked up to \<open>i\<close>: the numbers with a proper divisor below \<open>i\<close>.\<close>

definition sieved :: "nat \<Rightarrow> nat \<Rightarrow> bool list \<Rightarrow> bool" where
  "sieved given i p \<longleftrightarrow> length p = given \<and>
     (\<forall>n \<in> {1..given}. p ! (n - 1) \<longleftrightarrow> (\<exists>d \<in> {2..<i}. d dvd n \<and> d < n))"

lemma sieved_step:
  assumes "sieved given i p" and "2 \<le> i" and "i \<le> given"
  shows "sieved given (i + 1) (if p ! (i - 1) then p else prime_mark given i (i * 2) p)"
proof -
  have mult: "(\<exists>k. n = i * 2 + k * i) \<longleftrightarrow> i dvd n \<and> i < n" if "1 \<le> n" for n
  proof
    assume "\<exists>k. n = i * 2 + k * i"
    then obtain k where "n = i * 2 + k * i" by blast
    then have "n = i * (k + 2)" by (simp add: algebra_simps)
    with assms(2) show "i dvd n \<and> i < n" by simp
  next
    assume "i dvd n \<and> i < n"
    then obtain m where m: "n = i * m" "i < n" unfolding dvd_def by blast
    then have "m \<noteq> 0" "m \<noteq> 1" by auto
    then obtain k where "m = k + 2" using less_iff_Suc_add [of 1 m] by auto
    with m show "\<exists>k. n = i * 2 + k * i" by (intro exI [of _ k]) (simp add: algebra_simps)
  qed
  show ?thesis
  proof (cases "p ! (i - 1)")
    case True
    with assms obtain e where e: "e \<in> {2..<i}" "e dvd i" by (auto simp: sieved_def)
    have "i dvd n \<Longrightarrow> i < n \<Longrightarrow> e dvd n \<and> e < n" for n
      using e by (auto intro: dvd_trans)
    with e(1) have "(\<exists>d \<in> {2..<i + 1}. d dvd n \<and> d < n) \<longleftrightarrow> (\<exists>d \<in> {2..<i}. d dvd n \<and> d < n)" for n
      by (metis atLeastLessThan_iff less_Suc_eq Suc_eq_plus1)
    with True assms(1) show ?thesis by (simp add: sieved_def)
  next
    case False
    have "(\<exists>d \<in> {2..<i + 1}. d dvd n \<and> d < n) \<longleftrightarrow> (\<exists>d \<in> {2..<i}. d dvd n \<and> d < n) \<or> i dvd n \<and> i < n" for n
      using assms(2) by (auto simp: less_Suc_eq)
    moreover have "prime_mark given i (i * 2) p ! (n - 1) \<longleftrightarrow> p ! (n - 1) \<or> i dvd n \<and> i < n"
      if "n \<in> {1..given}" for n
      using that prime_mark_nth [of i "i * 2" p given n] mult [of n] assms by (simp add: sieved_def)
    ultimately show ?thesis
      using False assms(1) by (simp add: sieved_def)
  qed
qed

lemma sieve_composites:
  assumes "sieved given i p" and "2 \<le> i" and "1 \<le> n" and "n \<le> given"
  shows "prime_sieve given i p ! (n - 1) \<longleftrightarrow> (\<exists>d \<in> {2..<n}. d dvd n)"
  using assms
proof (induction given i p rule: prime_sieve.induct)
  case (1 given i p)
  show ?case
  proof (cases "i \<le> given \<and> \<not> i > given div i")
    case True
    let ?p = "if p ! (i - 1) then p else prime_mark given i (i * 2) p"
    from True have "prime_sieve given i p = prime_sieve given (i + 1) ?p"
      by (subst prime_sieve.simps) (simp only: if_True simp_thms)
    moreover have "sieved given (i + 1) ?p" using sieved_step 1(2,3) True by blast
    ultimately show ?thesis using 1(1) [OF True] 1(3-) by simp
  next
    case False
    have to: "\<exists>d \<in> {2..<i}. d dvd n \<and> d < n" if d: "d \<in> {2..<n}" "d dvd n" for d
    proof -
      from d obtain e where e: "n = d * e" unfolding dvd_def by blast
      with d 1(4) have "e \<noteq> 0" "e \<noteq> 1" by auto
      then have "2 \<le> e" by simp
      moreover have "e < n" using e d(1) \<open>e \<noteq> 0\<close> by simp
      moreover note e
      moreover from e have "e dvd n" by simp
      moreover have "given < i * i"
      proof (cases "i \<le> given")
        case True
        with False have "given div i < i" by simp
        with 1(3) show ?thesis by (simp add: div_less_iff_less_mult)
      next
        case False
        with 1(3) show ?thesis by (metis le_square less_le_trans not_le)
      qed
      then have "d < i \<or> e < i"
        using e 1(5) mult_le_mono [of i d i e] by (metis le_trans not_le)
      ultimately show ?thesis using d by (metis atLeastLessThan_iff)
    qed
    have "prime_sieve given i p = p"
      using False by (subst prime_sieve.simps) (simp only: if_False simp_thms)
    moreover have "p ! (n - 1) \<longleftrightarrow> (\<exists>d \<in> {2..<i}. d dvd n \<and> d < n)"
      using 1(2,4,5) by (simp add: sieved_def)
    moreover have "(\<exists>d \<in> {2..<i}. d dvd n \<and> d < n) \<longleftrightarrow> (\<exists>d \<in> {2..<n}. d dvd n)"
    proof
      assume "\<exists>d \<in> {2..<n}. d dvd n"
      then show "\<exists>d \<in> {2..<i}. d dvd n \<and> d < n" using to by blast
    qed auto
    ultimately show ?thesis by simp
  qed
qed

lemma prime_find_greatest:
  assumes "\<not> p ! j" and "1 \<le> j" and "j \<le> k"
  shows "\<exists>m. prime_find p k = int m + 1 \<and> j \<le> m \<and> m \<le> k \<and> \<not> p ! m \<and> (\<forall>n. m < n \<and> n \<le> k \<longrightarrow> p ! n)"
  using assms(3)
proof (induction k)
  case 0
  with assms(2) show ?case by simp
next
  case (Suc k)
  show ?case
  proof (cases "p ! Suc k")
    case True
    with assms(1) Suc.prems have "j \<le> k" by (metis le_SucE)
    with Suc.IH obtain m where "prime_find p k = int m + 1" "j \<le> m" "m \<le> k" "\<not> p ! m"
      "\<forall>n. m < n \<and> n \<le> k \<longrightarrow> p ! n" by blast
    with True show ?thesis by (intro exI [of _ m]) (auto simp: le_Suc_eq)
  next
    case False
    with Suc.prems show ?thesis by (intro exI [of _ "Suc k"]) auto
  qed
qed

lemma prime_sieve_primes:
  assumes "n < given" and "1 \<le> n"
  shows "\<not> prime_sieve given 2 (replicate given False) ! n \<longleftrightarrow> is_prime (n + 1)"
proof -
  have "sieved given 2 (replicate given False)" by (auto simp: sieved_def)
  from sieve_composites [OF this, of "n + 1"] assms show ?thesis by (auto simp: is_prime_def)
qed

lemma is_prime_3: "is_prime 3"
proof -
  have "\<not> d dvd 3" if "2 \<le> d" "d < 3" for d :: nat
  proof -
    from that have "d = 2" by simp
    then show ?thesis by simp
  qed
  then show ?thesis by (auto simp: is_prime_def)
qed

lemma prime_pos: "0 < given \<Longrightarrow> 0 < prime True (int given)"
proof (cases "given \<le> 3")
  case False
  then have "\<not> prime_sieve given 2 (replicate given False) ! 2" "2 \<le> given - 1"
    using prime_sieve_primes [of 2 given] is_prime_3 by auto
  from prime_find_greatest [OF this(1) _ this(2)] show ?thesis using False by (auto simp: prime_def)
qed (simp add: prime_def)

section \<open>Properties\<close>

text \<open>
  C14: a bounded string copy into a buffer of \<open>al > 0\<close> bytes writes at most \<open>al\<close> bytes: the first
  characters of the source, as many as fit, and the terminator.
\<close>

theorem str_copy_bounded:
  assumes "0 < al" and "0 < bl"
  shows "\<exists>w r. str_copy al b bl = Some (w, r) \<and> length w \<le> al
    \<and> w = take (min (al - 1) bl) b @ [0]"
proof (cases "al \<le> bl \<and> al \<le> length b")
  case True
  then have "min (al - 1) bl = al - 1" "Suc (min (length b) (al - 1)) \<le> al" using assms by auto
  with True assms show ?thesis by (simp add: str_copy_def str_copy_loop_result)
next
  case False
  then have "bl \<le> al - 1 \<or> length b \<le> al - 1" using assms by auto
  then have "take bl b = take (min (al - 1) bl) b" by (auto simp: min_def)
  moreover from this have "length (take bl b) < al" using assms(1) by simp
  ultimately show ?thesis
    using False assms by (auto simp: str_copy_def str_copy_loop_result)
qed

theorem str_copy_bounded_witness:
  "\<exists>w r. str_copy 4 [104, 101, 108, 108, 111] 10 = Some (w, r) \<and> length w \<le> 4
    \<and> w = take (min (4 - 1) 10) [104, 101, 108, 108, 111] @ [0]"
  by (rule str_copy_bounded) simp_all

text \<open>
  A bounded string comparison returns zero exactly when the first \<open>sz + 1\<close> characters of the two
  strings agree, and exchanging the strings negates it.
\<close>

theorem str_cmp_decides:
  "(str_cmp a b sz = 0 \<longleftrightarrow> take (sz + 1) a = take (sz + 1) b) \<and> str_cmp b a sz = - str_cmp a b sz"
  unfolding str_cmp_def str_cmp2_def
  using str_cmp_loop_eq [of 0 sz a b] str_cmp_loop_swap [of 0 b sz a] by simp

text \<open>
  C15: the 64-bit number parser reads back every decimal numeral below the length limit, with or
  without a minus sign: the result is the number written, modulo \<open>2^64\<close>; a numeral of \<open>m\<close> or
  more digits is refused.
\<close>

theorem atobn_reads_decimal:
  assumes "0 < m"
  shows "atobn (decimal n) m = (if int (length (decimal n)) < m then Inr (of_nat n) else Inl ELENGTH)
    \<and> (int (length (decimal n)) < m \<longrightarrow> atobn (45 # decimal n) (m + 1) = Inr (- of_nat n))"
proof -
  have "hd (decimal n) \<noteq> 45"
    using decimal_digits [of "hd (decimal n)" n] by (auto simp: dec_digit_def)
  then show ?thesis
    using num_parse_decimal [of n m] num_parse_too_long [of "decimal n" dec_digit m 10] decimal_digits [of _ n]
    by (auto simp: atobn_def)
qed

theorem atobn_reads_decimal_witness: "atobn [52, 50] 3 = Inr 42 \<and> atobn [45, 52, 50] 4 = Inr (- 42)"
proof -
  have "decimal 42 = [52, 50]" by (simp add: decimal.simps [of 42] decimal.simps [of 4])
  then show ?thesis using atobn_reads_decimal [of 3 42] by simp
qed

text \<open>
  For every argument of at least 4, the sieve returns the greatest prime up to the argument
  itself (included, although its comment says less than).
\<close>

theorem prime_greatest:
  assumes "4 \<le> given"
  shows "\<exists>r. prime True (int given) = int r \<and> is_prime r \<and> r \<le> given
    \<and> (\<forall>n. r < n \<and> n \<le> given \<longrightarrow> \<not> is_prime n)"
proof -
  let ?p = "prime_sieve given 2 (replicate given False)"
  have "\<not> ?p ! 2" using prime_sieve_primes [of 2 given] assms is_prime_3 by simp
  moreover have "2 \<le> given - 1" using assms by simp
  ultimately obtain m where m: "prime_find ?p (given - 1) = int m + 1" "2 \<le> m" "m \<le> given - 1" "\<not> ?p ! m"
    "\<forall>n. m < n \<and> n \<le> given - 1 \<longrightarrow> ?p ! n"
    using prime_find_greatest [of ?p 2 "given - 1"] one_le_numeral by blast
  have "is_prime (m + 1)" using m(2-4) assms prime_sieve_primes [of m given] by simp
  moreover have "\<not> is_prime n" if "m + 1 < n" "n \<le> given" for n
  proof -
    from that have "m < n - 1" "n - 1 \<le> given - 1" "n - 1 < given" "1 \<le> n - 1" by auto
    with m(5) prime_sieve_primes [of "n - 1" given] that show ?thesis by simp
  qed
  moreover have "prime True (int given) = int (m + 1)" using assms m(1) by (simp add: prime_def)
  ultimately show ?thesis using m(3) assms by (intro exI [of _ "m + 1"]) auto
qed

theorem prime_greatest_witness:
  "\<exists>r. prime True 10 = int r \<and> is_prime r \<and> r \<le> 10 \<and> \<not> (\<exists>n. r < n \<and> n \<le> 10 \<and> is_prime n)"
  using prime_greatest [of 10] by auto

text \<open>
  The request parameter search finds the value of the first parameter: for a query that starts
  with \<open>name=value\<close>, followed by nothing or by further parameters, a tag that starts with the name
  and a buffer long enough give that value.
\<close>

theorem parse_http_req_first:
  assumes "61 \<notin> set name" and "38 \<notin> set name" and "name \<noteq> []" and "38 \<notin> set val" and "val \<noteq> []"
    and "bytes_at tag 0 (length name) = name" and "int (length val + 1) \<le> buflen"
    and "length name + length val < 65535" and "more = [] \<or> hd more = 38"
  shows "parse_http_req_str (name @ 61 # val @ more) tag buflen = Some (Inr val)"
proof -
  let ?req = "name @ 61 # val @ more" and ?m = "length name" and ?w = "length name + 1 + length val"
  have "parse_http_req_str ?req tag buflen = req_loop ?req tag buflen ?m 0 None"
    unfolding parse_http_req_str_def
    using assms(1,2,8) by (subst req_loop_skips [of 0 ?m]) (auto simp: nth_append in_set_conv_nth)
  also have "\<dots> = req_loop ?req tag buflen (?m + 1) 0 (Some ?m)"
    using assms(8) by (subst req_loop_mark) auto
  also have "\<dots> = req_loop ?req tag buflen ?w 0 (Some ?m)"
    using assms(4,8) req_loop_skips [of "?m + 1" "length val" ?req "Some ?m" tag buflen 0]
    by (auto simp: nth_append in_set_conv_nth)
  also have "req_value ?req tag buflen ?w 0 ?m = Some (Inr val)"
    using assms(5-7) by (cases val) (auto simp: req_value_def)
  then have "req_loop ?req tag buflen ?w 0 (Some ?m) = Some (Inr val)"
    using assms(3,9) by (subst req_loop.simps) (cases more; auto simp: Let_def nth_append)
  finally show ?thesis .
qed

theorem parse_http_req_first_witness:
  "parse_http_req_str ([97] @ 61 # [55] @ [38, 98, 61, 56]) (\<lambda>i. 97) 16 = Some (Inr [55])"
  by (rule parse_http_req_first) (simp_all add: bytes_at_def)

text \<open>
  A query with a separator before any \<open>=\<close> (an empty or valueless parameter) makes the request
  parameter search loop forever.
\<close>

theorem parse_http_req_diverges:
  assumes "61 \<notin> set pre" and "38 \<notin> set pre" and "length pre < 65536"
  shows "parse_http_req_str (pre @ 38 # more) tag buflen = None"
proof -
  have "parse_http_req_str (pre @ 38 # more) tag buflen = req_loop (pre @ 38 # more) tag buflen (length pre) 0 None"
    unfolding parse_http_req_str_def
    using assms by (subst req_loop_skips [of 0 "length pre"]) (auto simp: nth_append in_set_conv_nth)
  then show ?thesis by (simp add: req_loop_stuck)
qed

theorem parse_http_req_diverges_witness: "parse_http_req_str ([97] @ 38 # [98, 61, 49]) (\<lambda>_. 0) 16 = None"
  by (rule parse_http_req_diverges) simp_all

end
