(* ===== verification/Mpak.thy ===== *)
theory Mpak
  imports Pbuf Strings
begin

text \<open>
  \<^verbatim>\<open>src/src/serializer/mpak/mpak.h\<close>, the packing half: the tags of the message format, the
  dynamically typed \<open>data\<close>, and the operations that append values to a \<open>pbuf\<close>.

  \<open>mpak\<close> is the packer's state, its buffer and the position packing started at.  Every operation
  returns the code's \<open>int\<close> (a negative error or the current position) and the new state.  The
  buffer's macro \<open>CHECK_LENGTH\<close> asks for one byte more than it writes.  Signed arguments are their
  bit patterns, doubles their 64 bits.

  The lemmas: an operation appends exactly the big-endian encoding of its value, and fails exactly
  when the encoding does not fit; packing a message of typed values appends the concatenation.
\<close>

section \<open>Tags\<close>

definition P_FIXNUM_END :: U8 where "P_FIXNUM_END = 0x7f"
definition N_FIXNUM_START :: U8 where "N_FIXNUM_START = 0xe0"
definition NIL_VALUE :: U8 where "NIL_VALUE = 0xc0"
definition BOOLEAN_FALSE :: U8 where "BOOLEAN_FALSE = 0xc2"
definition BOOLEAN_TRUE :: U8 where "BOOLEAN_TRUE = 0xc3"
definition TABLE_START :: U8 where "TABLE_START = 0xc4"
definition FLOAT :: U8 where "FLOAT = 0xca"
definition DOUBLE_TYPE :: U8 where "DOUBLE_TYPE = 0xcb"
definition UINT_8BIT :: U8 where "UINT_8BIT = 0xcc"
definition UINT_16BIT :: U8 where "UINT_16BIT = 0xcd"
definition UINT_32BIT :: U8 where "UINT_32BIT = 0xce"
definition UINT_64BIT :: U8 where "UINT_64BIT = 0xcf"
definition SINT_8BIT :: U8 where "SINT_8BIT = 0xd0"
definition SINT_16BIT :: U8 where "SINT_16BIT = 0xd1"
definition SINT_32BIT :: U8 where "SINT_32BIT = 0xd2"
definition SINT_64BIT :: U8 where "SINT_64BIT = 0xd3"
definition RAW16 :: U8 where "RAW16 = 0xda"
definition RAW32 :: U8 where "RAW32 = 0xdb"
definition ARRAY16 :: U8 where "ARRAY16 = 0xdc"
definition ARRAY32 :: U8 where "ARRAY32 = 0xdd"
definition MAP16 :: U8 where "MAP16 = 0xde"
definition MAP32 :: U8 where "MAP32 = 0xdf"
definition TABLE_END :: U8 where "TABLE_END = 0xdf"
definition FIXRAW_MASK :: U8 where "FIXRAW_MASK = 0xa0"
definition FIXARRAY_MASK :: U8 where "FIXARRAY_MASK = 0x90"
definition FIXMAP_MASK :: U8 where "FIXMAP_MASK = 0x80"

named_theorems tag_defs \<open>the values of the tags\<close>

declare P_FIXNUM_END_def [tag_defs] N_FIXNUM_START_def [tag_defs] NIL_VALUE_def [tag_defs]
  BOOLEAN_FALSE_def [tag_defs] BOOLEAN_TRUE_def [tag_defs] TABLE_START_def [tag_defs] FLOAT_def [tag_defs]
  DOUBLE_TYPE_def [tag_defs] UINT_8BIT_def [tag_defs] UINT_16BIT_def [tag_defs] UINT_32BIT_def [tag_defs]
  UINT_64BIT_def [tag_defs] SINT_8BIT_def [tag_defs] SINT_16BIT_def [tag_defs] SINT_32BIT_def [tag_defs]
  SINT_64BIT_def [tag_defs] RAW16_def [tag_defs] RAW32_def [tag_defs] ARRAY16_def [tag_defs]
  ARRAY32_def [tag_defs] MAP16_def [tag_defs] MAP32_def [tag_defs] TABLE_END_def [tag_defs]
  FIXRAW_MASK_def [tag_defs] FIXARRAY_MASK_def [tag_defs] FIXMAP_MASK_def [tag_defs]

section \<open>Data\<close>

text \<open>\<open>Uninit\<close> is an element \<open>init_array\<close> or \<open>init_map\<close> allocated and nothing has set yet.\<close>

datatype data =
    NilD | BoolD bool | IntD U64 | DoubleD U64 | BlobD "U8 list"
  | ArrayD "data list" | MapD "(data \<times> data) list" | Uninit

datatype data_kind = NIL | BOOLEAN | INTEGER | DOUBLE | BLOB | ARRAY | MAP

fun kind :: "data \<Rightarrow> data_kind" where
  "kind NilD = NIL"
| "kind (BoolD b) = BOOLEAN"
| "kind (IntD i) = INTEGER"
| "kind (DoubleD d) = DOUBLE"
| "kind (BlobD b) = BLOB"
| "kind (ArrayD xs) = ARRAY"
| "kind (MapD kvs) = MAP"
| "kind Uninit = NIL"

section \<open>Pushing bytes\<close>

record mpak =
  m_pbuf :: pbuf
  m_c :: nat

definition start_pack :: "pbuf \<Rightarrow> mpak" where
  "start_pack pb = \<lparr>m_pbuf = pb, m_c = pbuf_last pb\<rparr>"

definition buffsize :: "mpak \<Rightarrow> nat" where
  "buffsize s = pbuf_available (m_pbuf s)"

definition curpos :: "mpak \<Rightarrow> int" where
  "curpos s = int_of_size (pbuf_last (m_pbuf s) - m_c s)"

definition mpak_commit :: "nat \<Rightarrow> mpak \<Rightarrow> mpak" where
  "mpak_commit n s = s\<lparr>m_pbuf := pbuf_commit n (m_pbuf s)\<rparr>"

definition curr_set :: "(mem \<Rightarrow> nat \<Rightarrow> mem) \<Rightarrow> mpak \<Rightarrow> mpak" where
  "curr_set f s = s\<lparr>m_pbuf := (m_pbuf s)\<lparr>m_mem := f (m_mem (m_pbuf s)) (pbuf_last (m_pbuf s))\<rparr>\<rparr>"

definition push_U8 :: "U8 \<Rightarrow> mpak \<Rightarrow> mpak" where
  "push_U8 u s = mpak_commit 1 (curr_set (\<lambda>m p. m(p := u)) s)"

definition push_U16 :: "U16 \<Rightarrow> mpak \<Rightarrow> mpak" where
  "push_U16 u s = mpak_commit 2 (curr_set (\<lambda>m p. SET_16 m p (htons u)) s)"

definition push_U32 :: "U32 \<Rightarrow> mpak \<Rightarrow> mpak" where
  "push_U32 u s = mpak_commit 4 (curr_set (\<lambda>m p. SET_32 m p (htonl u)) s)"

definition push_U64 :: "U64 \<Rightarrow> mpak \<Rightarrow> mpak" where
  "push_U64 u s = mpak_commit 8 (curr_set (\<lambda>m p. SET_64 m p (htonll u)) s)"

text \<open>\<open>CHECK_LENGTH(len)\<close> in front of the pushes \<open>f\<close>, and \<open>return curpos()\<close> behind them.\<close>

definition checked :: "nat \<Rightarrow> (mpak \<Rightarrow> mpak) \<Rightarrow> mpak \<Rightarrow> int \<times> mpak" where
  "checked len f s =
     (if len \<ge> buffsize s then (nbr_code ESHORT, s) else (let s' = f s in (curpos s', s')))"

text \<open>\<open>r = f; if (r < 0) return r; g\<close>, and the same with the \<open>verify\<close> macro's \<open>NBR_ESHORT\<close>.\<close>

definition seq_r :: "(mpak \<Rightarrow> int \<times> mpak) \<Rightarrow> (mpak \<Rightarrow> int \<times> mpak) \<Rightarrow> mpak \<Rightarrow> int \<times> mpak" where
  "seq_r f g s = (case f s of (r, s') \<Rightarrow> if r < 0 then (r, s') else g s')"

definition seq_v :: "(mpak \<Rightarrow> int \<times> mpak) \<Rightarrow> (mpak \<Rightarrow> int \<times> mpak) \<Rightarrow> mpak \<Rightarrow> int \<times> mpak" where
  "seq_v f g s = (case f s of (r, s') \<Rightarrow> if r < 0 then (nbr_code ESHORT, s') else g s')"

definition here :: "mpak \<Rightarrow> int \<times> mpak" where
  "here s = (curpos s, s)"

section \<open>The operations\<close>

definition mpak_skip :: "nat \<Rightarrow> mpak \<Rightarrow> int \<times> mpak" where
  "mpak_skip sz = checked sz (mpak_commit sz)"

definition mpak_rewind :: "nat \<Rightarrow> mpak \<Rightarrow> int \<times> mpak" where
  "mpak_rewind sz s =
     (let pb = shrink_used_buffer_size sz (m_pbuf s) in (int_of_size (pbuf_last pb), s\<lparr>m_pbuf := pb\<rparr>))"

definition pushnil :: "mpak \<Rightarrow> int \<times> mpak" where
  "pushnil = checked 1 (push_U8 NIL_VALUE)"

definition pack_bool :: "bool \<Rightarrow> mpak \<Rightarrow> int \<times> mpak" where
  "pack_bool f = checked 1 (if f then push_U8 BOOLEAN_TRUE else push_U8 BOOLEAN_FALSE)"

definition pack_U8 :: "U8 \<Rightarrow> mpak \<Rightarrow> int \<times> mpak" where
  "pack_U8 u =
     (if u \<le> P_FIXNUM_END then checked 1 (push_U8 u)
      else checked 2 (\<lambda>s. push_U8 u (push_U8 UINT_8BIT s)))"

definition pack_S8 :: "U8 \<Rightarrow> mpak \<Rightarrow> int \<times> mpak" where
  "pack_S8 s =
     (if s \<ge> N_FIXNUM_START then checked 1 (push_U8 s)
      else checked 2 (\<lambda>st. push_U8 s (push_U8 SINT_8BIT st)))"

definition pack_U16 :: "U16 \<Rightarrow> mpak \<Rightarrow> int \<times> mpak" where
  "pack_U16 u = checked 3 (\<lambda>s. push_U16 u (push_U8 UINT_16BIT s))"

definition pack_S16 :: "U16 \<Rightarrow> mpak \<Rightarrow> int \<times> mpak" where
  "pack_S16 u = checked 3 (\<lambda>s. push_U16 u (push_U8 SINT_16BIT s))"

definition pack_U32 :: "U32 \<Rightarrow> mpak \<Rightarrow> int \<times> mpak" where
  "pack_U32 u = checked 5 (\<lambda>s. push_U32 u (push_U8 UINT_32BIT s))"

definition pack_S32 :: "U32 \<Rightarrow> mpak \<Rightarrow> int \<times> mpak" where
  "pack_S32 u = checked 5 (\<lambda>s. push_U32 u (push_U8 SINT_32BIT s))"

definition pack_U64 :: "U64 \<Rightarrow> mpak \<Rightarrow> int \<times> mpak" where
  "pack_U64 u = checked 9 (\<lambda>s. push_U64 u (push_U8 UINT_64BIT s))"

definition pack_S64 :: "U64 \<Rightarrow> mpak \<Rightarrow> int \<times> mpak" where
  "pack_S64 u = checked 9 (\<lambda>s. push_U64 u (push_U8 SINT_64BIT s))"

definition pack_float :: "U32 \<Rightarrow> mpak \<Rightarrow> int \<times> mpak" where
  "pack_float f = checked (4 + 1) (\<lambda>s. push_U32 f (push_U8 FLOAT s))"

definition pack_double :: "U64 \<Rightarrow> mpak \<Rightarrow> int \<times> mpak" where
  "pack_double f = checked (8 + 1) (\<lambda>s. push_U64 f (push_U8 DOUBLE_TYPE s))"

definition push_raw_len :: "nat \<Rightarrow> mpak \<Rightarrow> int \<times> mpak" where
  "push_raw_len l =
     (if l \<le> 0x1F then checked 1 (push_U8 (FIXRAW_MASK OR of_nat l))
      else if l \<le> 0xFFFF then checked 3 (\<lambda>s. push_U16 (of_nat l) (push_U8 RAW16 s))
      else checked 5 (\<lambda>s. push_U32 (of_nat l) (push_U8 RAW32 s)))"

definition push_raw_onlydata :: "U8 list \<Rightarrow> mpak \<Rightarrow> int \<times> mpak" where
  "push_raw_onlydata p =
     checked (length p) (\<lambda>s. mpak_commit (length p) (curr_set (\<lambda>m q. mem_copy m q p) s))"

definition push_raw :: "U8 list \<Rightarrow> mpak \<Rightarrow> int \<times> mpak" where
  "push_raw p = seq_r (push_raw_len (length p)) (push_raw_onlydata p)"

text \<open>The bytes behind \<open>str\<close>, up to its terminator at least; the terminator is packed too.\<close>

definition push_string :: "U8 list \<Rightarrow> int \<Rightarrow> mpak \<Rightarrow> int \<times> mpak" where
  "push_string str l =
     (let l = (if l < 0 then int (str_length (takeWhile ((\<noteq>) 0) str) (64 * 1024)) else l) in
      push_raw (take (nat (l + 1)) str))"

definition push_array_len :: "nat \<Rightarrow> mpak \<Rightarrow> int \<times> mpak" where
  "push_array_len l =
     (if l \<le> 0xF then checked 1 (push_U8 (FIXARRAY_MASK OR of_nat l))
      else if l \<le> 0xFFFF then checked 3 (\<lambda>s. push_U16 (of_nat l) (push_U8 ARRAY16 s))
      else checked 5 (\<lambda>s. push_U32 (of_nat l) (push_U8 ARRAY32 s)))"

definition push_map_len :: "nat \<Rightarrow> mpak \<Rightarrow> int \<times> mpak" where
  "push_map_len l =
     (if l \<le> 0xF then checked 1 (push_U8 (FIXMAP_MASK OR of_nat l))
      else if l \<le> 0xFFFF then checked 3 (\<lambda>s. push_U16 (of_nat l) (push_U8 MAP16 s))
      else checked 5 (\<lambda>s. push_U32 (of_nat l) (push_U8 MAP32 s)))"

text \<open>\<open>operator << (const data &)\<close>; an \<open>Uninit\<close> element has kind \<open>NIL\<close>.\<close>

function pack_data :: "data \<Rightarrow> mpak \<Rightarrow> int \<times> mpak"
  and pack_elems :: "data list \<Rightarrow> mpak \<Rightarrow> int \<times> mpak"
  and pack_kvs :: "(data \<times> data) list \<Rightarrow> mpak \<Rightarrow> int \<times> mpak" where
  "pack_data NilD = seq_v pushnil here"
| "pack_data Uninit = seq_v pushnil here"
| "pack_data (BoolD b) = seq_v (pack_bool b) here"
| "pack_data (IntD i) = seq_v (pack_S32 (ucast i)) here"
| "pack_data (DoubleD d) = seq_v (pack_double d) here"
| "pack_data (BlobD b) = seq_v (push_raw b) here"
| "pack_data (ArrayD xs) = pack_elems xs"
| "pack_data (MapD kvs) = pack_kvs kvs"
| "pack_elems [] = here"
| "pack_elems (x # xs) = seq_v (pack_data x) (pack_elems xs)"
| "pack_kvs [] = here"
| "pack_kvs ((k, v) # kvs) = seq_v (pack_data k) (seq_v (pack_data v) (pack_kvs kvs))"
  by pat_completeness auto
termination
  by (relation "measure (case_sum size (case_sum (size_list size) (size_list (size_prod size size))))") auto

definition push_array :: "data list \<Rightarrow> mpak \<Rightarrow> int \<times> mpak" where
  "push_array a = seq_r (push_array_len (length a)) (pack_elems a)"

text \<open>\<open>push_map\<close>: its first test has no \<open>< 0\<close>, so every result but zero is taken for an error.\<close>

fun push_map_loop :: "(data \<times> data) list \<Rightarrow> mpak \<Rightarrow> int \<times> mpak" where
  "push_map_loop [] s = here s"
| "push_map_loop ((k, v) # a) s =
     (case pack_data k s of (r, s') \<Rightarrow>
        if r \<noteq> 0 then (nbr_code ESHORT, s') else seq_v (pack_data v) (push_map_loop a) s')"

definition push_map :: "(data \<times> data) list \<Rightarrow> mpak \<Rightarrow> int \<times> mpak" where
  "push_map a = seq_r (push_map_len (length a)) (push_map_loop a)"

section \<open>What the operations append\<close>

text \<open>
  \<open>emit bs\<close> appends the bytes \<open>bs\<close>.  A packer is in order when its buffer has room left and a limit
  that fits an \<open>int\<close>; \<open>packs f bs\<close> says that \<open>f\<close> appends \<open>bs\<close> when a byte more than them fits, and
  reports an error otherwise.
\<close>

definition emit :: "U8 list \<Rightarrow> mpak \<Rightarrow> mpak" where
  "emit bs s = s\<lparr>m_pbuf := (m_pbuf s)\<lparr>m_mem := mem_copy (m_mem (m_pbuf s)) (m_len (m_pbuf s)) bs,
     m_len := m_len (m_pbuf s) + length bs\<rparr>\<rparr>"

definition mpak_ok :: "mpak \<Rightarrow> bool" where
  "mpak_ok s \<longleftrightarrow> m_c s \<le> m_len (m_pbuf s) \<and> m_len (m_pbuf s) < m_limit (m_pbuf s)
     \<and> m_limit (m_pbuf s) < 2 ^ 31"

definition packs :: "(mpak \<Rightarrow> int \<times> mpak) \<Rightarrow> U8 list \<Rightarrow> bool" where
  "packs f bs \<longleftrightarrow> (\<forall>s. mpak_ok s \<longrightarrow>
     (if length bs < buffsize s then f s = here (emit bs s) else fst (f s) < 0))"

lemma packsD: "packs f bs \<Longrightarrow> mpak_ok s \<Longrightarrow> length bs < buffsize s \<Longrightarrow> f s = here (emit bs s)"
  by (simp add: packs_def)

lemma packs_short: "packs f bs \<Longrightarrow> mpak_ok s \<Longrightarrow> \<not> length bs < buffsize s \<Longrightarrow> fst (f s) < 0"
  by (simp add: packs_def)

lemma emit_append: "emit (as @ bs) s = emit bs (emit as s)"
  by (simp add: emit_def mem_copy_append add.assoc)

lemma emit_Nil [simp]: "emit [] s = s"
  by (simp add: emit_def)

lemma push_emit [mem_simps]:
  "push_U8 u s = emit [u] s" "push_U16 v s = emit (be16 v) s"
  "push_U32 w s = emit (be32 w) s" "push_U64 x s = emit (be64 x) s"
  by (simp_all add: push_U8_def push_U16_def push_U32_def push_U64_def emit_def mpak_commit_def curr_set_def
      pbuf_commit_def pbuf_last_def mem_copy_single SET_16_htons SET_32_htonl SET_64_htonll)

lemma buffsize_emit [simp]: "buffsize (emit bs s) = buffsize s - length bs"
  by (simp add: buffsize_def emit_def pbuf_available_def)

lemma mpak_ok_emit: "mpak_ok s \<Longrightarrow> length bs < buffsize s \<Longrightarrow> mpak_ok (emit bs s)"
  by (auto simp: mpak_ok_def emit_def buffsize_def pbuf_available_def)

lemma curpos_eq:
  assumes "mpak_ok s"
  shows "curpos s = int (m_len (m_pbuf s)) - int (m_c s)"
proof -
  have "m_len (m_pbuf s) - m_c s < 2 ^ 31" "m_c s \<le> m_len (m_pbuf s)"
    using assms by (auto simp: mpak_ok_def)
  then show ?thesis by (simp only: curpos_def pbuf_last_def int_of_size_small of_nat_diff)
qed

lemma curpos_nonneg: "mpak_ok s \<Longrightarrow> 0 \<le> curpos s"
  by (simp add: curpos_eq) (simp add: mpak_ok_def)

lemma packs_checked: "(\<And>s. f s = emit bs s) \<Longrightarrow> n = length bs \<Longrightarrow> packs (checked n f) bs"
  by (auto simp: packs_def checked_def here_def Let_def)

lemma packs_Nil: "packs f [] \<Longrightarrow> mpak_ok s \<Longrightarrow> 0 < buffsize s \<Longrightarrow> f s = here s"
  by (simp add: packs_def)

text \<open>Any error the second half of a sequence is left with is an error of the sequence.\<close>

lemma packs_seq:
  assumes f: "packs f as" and g: "packs g bs"
    and h: "\<And>s r s'. f s = (r, s') \<Longrightarrow> (r < 0 \<longrightarrow> fst (h s) < 0) \<and> (0 \<le> r \<longrightarrow> h s = g s')"
  shows "packs h (as @ bs)"
  unfolding packs_def
proof (intro allI impI)
  fix s assume ok: "mpak_ok s"
  show "if length (as @ bs) < buffsize s then h s = here (emit (as @ bs) s) else fst (h s) < 0"
  proof (cases "length as < buffsize s")
    case True
    let ?s = "emit as s"
    have ok': "mpak_ok ?s" using mpak_ok_emit ok True .
    have "f s = here ?s" using f ok True by (simp add: packs_def)
    with curpos_nonneg [OF ok'] h have "h s = g ?s" by (simp add: here_def)
    moreover have "length bs < buffsize ?s \<longleftrightarrow> length (as @ bs) < buffsize s" using True by auto
    ultimately show ?thesis using g ok' by (simp add: packs_def emit_append)
  next
    case False
    with f ok have "fst (f s) < 0" by (simp add: packs_def)
    with h [of s "fst (f s)" "snd (f s)"] False show ?thesis by simp
  qed
qed

lemma packs_seq_r: "packs f as \<Longrightarrow> packs g bs \<Longrightarrow> packs (seq_r f g) (as @ bs)"
  by (erule packs_seq, assumption) (simp add: seq_r_def)

lemma packs_seq_v: "packs f as \<Longrightarrow> packs g bs \<Longrightarrow> packs (seq_v f g) (as @ bs)"
  by (erule packs_seq, assumption) (simp add: seq_v_def)

lemma packs_seq_v_here: "packs f as \<Longrightarrow> packs (seq_v f here) as"
proof -
  assume f: "packs f as"
  show ?thesis
    unfolding packs_def
  proof (intro allI impI)
    fix s assume ok: "mpak_ok s"
    show "if length as < buffsize s then seq_v f here s = here (emit as s) else fst (seq_v f here s) < 0"
    proof (cases "length as < buffsize s")
      case True
      with f ok have "f s = here (emit as s)" by (simp add: packs_def)
      with True curpos_nonneg [OF mpak_ok_emit [OF ok True]] show ?thesis
        by (simp add: seq_v_def here_def)
    next
      case False
      with f ok have "fst (f s) < 0" by (simp add: packs_def)
      with False show ?thesis by (cases "f s") (simp add: seq_v_def nbr_code_negative)
    qed
  qed
qed

section \<open>Messages\<close>

text \<open>
  A message: the values a caller packs, each with the operation its type selects.  An array or a
  map is its length followed by its elements, the way \<^verbatim>\<open>ll/lua/lua.cpp\<close> packs tables and argument
  lists.
\<close>

datatype msg =
    PNil | PBool bool | PU8 U8 | PS8 U8 | PU16 U16 | PS16 U16 | PU32 U32 | PS32 U32 | PU64 U64 | PS64 U64
  | PFloat U32 | PDouble U64 | PRaw "U8 list" | PArray "msg list" | PMap "(msg \<times> msg) list"

function pack_msg :: "msg \<Rightarrow> mpak \<Rightarrow> int \<times> mpak"
  and pack_msgs :: "msg list \<Rightarrow> mpak \<Rightarrow> int \<times> mpak"
  and pack_pairs :: "(msg \<times> msg) list \<Rightarrow> mpak \<Rightarrow> int \<times> mpak" where
  "pack_msg PNil = pushnil"
| "pack_msg (PBool b) = pack_bool b"
| "pack_msg (PU8 u) = pack_U8 u"
| "pack_msg (PS8 u) = pack_S8 u"
| "pack_msg (PU16 u) = pack_U16 u"
| "pack_msg (PS16 u) = pack_S16 u"
| "pack_msg (PU32 u) = pack_U32 u"
| "pack_msg (PS32 u) = pack_S32 u"
| "pack_msg (PU64 u) = pack_U64 u"
| "pack_msg (PS64 u) = pack_S64 u"
| "pack_msg (PFloat f) = pack_float f"
| "pack_msg (PDouble d) = pack_double d"
| "pack_msg (PRaw b) = push_raw b"
| "pack_msg (PArray xs) = seq_r (push_array_len (length xs)) (pack_msgs xs)"
| "pack_msg (PMap kvs) = seq_r (push_map_len (length kvs)) (pack_pairs kvs)"
| "pack_msgs [] = here"
| "pack_msgs (x # xs) = seq_r (pack_msg x) (pack_msgs xs)"
| "pack_pairs [] = here"
| "pack_pairs ((k, v) # kvs) = seq_r (pack_msg k) (seq_r (pack_msg v) (pack_pairs kvs))"
  by pat_completeness auto
termination
  by (relation "measure (case_sum size (case_sum (size_list size) (size_list (size_prod size size))))") auto

text \<open>The bytes of a message.\<close>

definition enc_raw_len :: "nat \<Rightarrow> U8 list" where
  "enc_raw_len l = (if l \<le> 0x1F then [FIXRAW_MASK OR of_nat l]
     else if l \<le> 0xFFFF then RAW16 # be16 (of_nat l) else RAW32 # be32 (of_nat l))"

definition enc_array_len :: "nat \<Rightarrow> U8 list" where
  "enc_array_len l = (if l \<le> 0xF then [FIXARRAY_MASK OR of_nat l]
     else if l \<le> 0xFFFF then ARRAY16 # be16 (of_nat l) else ARRAY32 # be32 (of_nat l))"

definition enc_map_len :: "nat \<Rightarrow> U8 list" where
  "enc_map_len l = (if l \<le> 0xF then [FIXMAP_MASK OR of_nat l]
     else if l \<le> 0xFFFF then MAP16 # be16 (of_nat l) else MAP32 # be32 (of_nat l))"

function enc :: "msg \<Rightarrow> U8 list"
  and encs :: "msg list \<Rightarrow> U8 list"
  and enc_pairs :: "(msg \<times> msg) list \<Rightarrow> U8 list" where
  "enc PNil = [NIL_VALUE]"
| "enc (PBool b) = [if b then BOOLEAN_TRUE else BOOLEAN_FALSE]"
| "enc (PU8 u) = (if u \<le> P_FIXNUM_END then [u] else [UINT_8BIT, u])"
| "enc (PS8 u) = (if u \<ge> N_FIXNUM_START then [u] else [SINT_8BIT, u])"
| "enc (PU16 u) = UINT_16BIT # be16 u"
| "enc (PS16 u) = SINT_16BIT # be16 u"
| "enc (PU32 u) = UINT_32BIT # be32 u"
| "enc (PS32 u) = SINT_32BIT # be32 u"
| "enc (PU64 u) = UINT_64BIT # be64 u"
| "enc (PS64 u) = SINT_64BIT # be64 u"
| "enc (PFloat f) = FLOAT # be32 f"
| "enc (PDouble d) = DOUBLE_TYPE # be64 d"
| "enc (PRaw b) = enc_raw_len (length b) @ b"
| "enc (PArray xs) = enc_array_len (length xs) @ encs xs"
| "enc (PMap kvs) = enc_map_len (length kvs) @ enc_pairs kvs"
| "encs [] = []"
| "encs (x # xs) = enc x @ encs xs"
| "enc_pairs [] = []"
| "enc_pairs ((k, v) # kvs) = enc k @ enc v @ enc_pairs kvs"
  by pat_completeness auto
termination
  by (relation "measure (case_sum size (case_sum (size_list size) (size_list (size_prod size size))))") auto

lemma packs_len:
  "packs (push_raw_len l) (enc_raw_len l)" "packs (push_array_len l) (enc_array_len l)"
  "packs (push_map_len l) (enc_map_len l)"
  by (auto simp: push_raw_len_def enc_raw_len_def push_array_len_def enc_array_len_def push_map_len_def
      enc_map_len_def push_emit simp flip: emit_append intro!: packs_checked)

lemma packs_onlydata: "packs (push_raw_onlydata b) b"
  unfolding push_raw_onlydata_def
  by (rule packs_checked) (simp_all add: emit_def mpak_commit_def curr_set_def pbuf_commit_def pbuf_last_def)

lemma packs_here: "packs here []"
  by (auto simp: packs_def mpak_ok_def buffsize_def pbuf_available_def)

lemma packs_pack_msg:
  "packs (pack_msg m) (enc m)" "packs (pack_msgs ms) (encs ms)" "packs (pack_pairs kvs) (enc_pairs kvs)"
proof (induction m and ms and kvs rule: pack_msg_pack_msgs_pack_pairs.induct)
  case (14 xs)
  then show ?case by (simp add: packs_seq_r packs_len)
next
  case (15 kvs)
  then show ?case by (simp add: packs_seq_r packs_len)
next
  case (13 b)
  then show ?case by (simp add: push_raw_def packs_seq_r packs_len packs_onlydata)
qed (simp_all add: packs_here packs_seq_r,
    auto simp: pushnil_def pack_bool_def pack_U8_def pack_S8_def pack_U16_def pack_S16_def
      pack_U32_def pack_S32_def pack_U64_def pack_S64_def pack_float_def pack_double_def push_emit
      simp flip: emit_append intro!: packs_checked)

text \<open>What \<open>operator <<\<close> appends for \<open>data\<close>: containers without their header, integers cut to 32 bits.\<close>

function enc_data :: "data \<Rightarrow> U8 list"
  and enc_elems :: "data list \<Rightarrow> U8 list"
  and enc_kvs :: "(data \<times> data) list \<Rightarrow> U8 list" where
  "enc_data NilD = [NIL_VALUE]"
| "enc_data Uninit = [NIL_VALUE]"
| "enc_data (BoolD b) = [if b then BOOLEAN_TRUE else BOOLEAN_FALSE]"
| "enc_data (IntD i) = SINT_32BIT # be32 (ucast i)"
| "enc_data (DoubleD d) = DOUBLE_TYPE # be64 d"
| "enc_data (BlobD b) = enc_raw_len (length b) @ b"
| "enc_data (ArrayD xs) = enc_elems xs"
| "enc_data (MapD kvs) = enc_kvs kvs"
| "enc_elems [] = []"
| "enc_elems (x # xs) = enc_data x @ enc_elems xs"
| "enc_kvs [] = []"
| "enc_kvs ((k, v) # kvs) = enc_data k @ enc_data v @ enc_kvs kvs"
  by pat_completeness auto
termination
  by (relation "measure (case_sum size (case_sum (size_list size) (size_list (size_prod size size))))") auto

lemma packs_pack_data:
  "packs (pack_data d) (enc_data d)" "packs (pack_elems ds) (enc_elems ds)" "packs (pack_kvs kvs) (enc_kvs kvs)"
proof (induction d and ds and kvs rule: pack_data_pack_elems_pack_kvs.induct)
  case (6 b)
  then show ?case by (simp add: push_raw_def packs_seq_v_here packs_seq_r packs_len packs_onlydata)
qed (simp_all add: packs_here packs_seq_v,
    auto simp: pushnil_def pack_bool_def pack_S32_def pack_double_def push_emit
      simp flip: emit_append intro!: packs_checked packs_seq_v_here)

section \<open>Properties\<close>

text \<open>
  Packing a message into a buffer with room left either appends exactly its encoding, behind
  what the buffer holds, and returns the number of bytes packed since the start, or reports an
  error; it succeeds exactly when one byte more than the encoding fits.
\<close>

theorem pack_msg_appends:
  assumes "mpak_ok s" and "pack_msg m s = (r, s')"
  shows "if length (enc m) < buffsize s
    then s' = emit (enc m) s \<and> r = int (m_len (m_pbuf s) + length (enc m)) - int (m_c s) else r < 0"
proof -
  have "if length (enc m) < buffsize s then pack_msg m s = here (emit (enc m) s) else fst (pack_msg m s) < 0"
    using packs_pack_msg(1) [of m] assms(1) unfolding packs_def by blast
  moreover have "curpos (emit (enc m) s) = int (m_len (m_pbuf s) + length (enc m)) - int (m_c s)"
    if "length (enc m) < buffsize s"
    using curpos_eq [OF mpak_ok_emit [OF assms(1) that]] by (simp add: emit_def)
  ultimately show ?thesis using assms(2) by (auto simp: here_def split: if_splits)
qed

theorem pack_msg_appends_witness:
  "\<exists>s'. pack_msg (PU16 258)
      \<lparr>m_pbuf = \<lparr>m_ptr = Some 0, m_mem = (\<lambda>_. 0), m_len = 2, m_limit = 64, m_ofs = 0\<rparr>, m_c = 2\<rparr> = (3, s')
    \<and> s' = emit (UINT_16BIT # be16 258)
        \<lparr>m_pbuf = \<lparr>m_ptr = Some 0, m_mem = (\<lambda>_. 0), m_len = 2, m_limit = 64, m_ofs = 0\<rparr>, m_c = 2\<rparr>"
proof -
  let ?s = "\<lparr>m_pbuf = \<lparr>m_ptr = Some 0, m_mem = (\<lambda>_. 0), m_len = 2, m_limit = 64, m_ofs = 0\<rparr>, m_c = 2\<rparr>"
  have ok: "mpak_ok ?s" by (simp add: mpak_ok_def)
  obtain r s' where p: "pack_msg (PU16 258) ?s = (r, s')" by fastforce
  from pack_msg_appends [OF ok p] have "s' = emit (UINT_16BIT # be16 258) ?s" "r = 3"
    by (simp_all add: buffsize_def pbuf_available_def)
  with p show ?thesis by blast
qed

text \<open>
  \<open>operator <<\<close> for \<open>data\<close> loses the shape of containers: packing an array appends what
  packing its elements one after the other appends, without a length.
\<close>

theorem pack_data_array_has_no_header:
  assumes "mpak_ok s" and "length (enc_data x) + length (enc_data y) < buffsize s"
  shows "pack_data (ArrayD [x, y]) s = pack_data y (snd (pack_data x s))"
proof -
  have x: "pack_data x s = here (emit (enc_data x) s)"
    using packs_pack_data(1) [of x] assms unfolding packs_def by auto
  have ok: "mpak_ok (emit (enc_data x) s)" using mpak_ok_emit assms by auto
  have y: "pack_data y (emit (enc_data x) s) = here (emit (enc_data y) (emit (enc_data x) s))"
    using packs_pack_data(1) [of y] assms ok unfolding packs_def by auto
  have "pack_data (ArrayD [x, y]) s = here (emit (enc_data x @ enc_data y) s)"
    using packs_pack_data(1) [of "ArrayD [x, y]"] assms unfolding packs_def by auto
  with x y show ?thesis by (simp add: here_def emit_append)
qed

theorem pack_data_array_has_no_header_witness:
  "pack_data (ArrayD [NilD, BoolD True])
      \<lparr>m_pbuf = \<lparr>m_ptr = Some 0, m_mem = (\<lambda>_. 0), m_len = 0, m_limit = 64, m_ofs = 0\<rparr>, m_c = 0\<rparr>
    = pack_data (BoolD True) (snd (pack_data NilD
      \<lparr>m_pbuf = \<lparr>m_ptr = Some 0, m_mem = (\<lambda>_. 0), m_len = 0, m_limit = 64, m_ofs = 0\<rparr>, m_c = 0\<rparr>))"
  by (rule pack_data_array_has_no_header) (simp_all add: mpak_ok_def buffsize_def pbuf_available_def)

text \<open>
  \<open>push_map\<close> reports an error for every map with an entry: it takes the position its first key
  leaves for one.
\<close>

theorem push_map_fails:
  assumes "mpak_ok s"
  shows "fst (push_map ((k, v) # a) s) < 0"
proof (cases "length (enc_map_len (length ((k, v) # a))) < buffsize s")
  case True
  let ?bs = "enc_map_len (length ((k, v) # a))" let ?s = "emit ?bs s"
  have ok: "mpak_ok ?s" using mpak_ok_emit [OF assms True] .
  have "push_map_len (length ((k, v) # a)) s = here ?s"
    using packsD [OF packs_len(3) assms True] .
  then have step: "push_map ((k, v) # a) s = push_map_loop ((k, v) # a) ?s"
    using curpos_nonneg [OF ok] by (simp add: push_map_def seq_r_def here_def)
  have "fst (pack_data k ?s) \<noteq> 0"
  proof (cases "length (enc_data k) < buffsize ?s")
    case True
    then have "pack_data k ?s = here (emit (enc_data k) ?s)"
      using packsD [OF packs_pack_data(1) ok] by blast
    moreover have "?bs \<noteq> []" by (simp add: enc_map_len_def)
    then have "0 < curpos (emit (enc_data k) ?s)"
      using curpos_eq [OF mpak_ok_emit [OF ok True]] assms
      by (simp add: emit_def mpak_ok_def flip: length_greater_0_conv)
    ultimately show ?thesis by (simp add: here_def)
  next
    case False
    then show ?thesis using packs_short [OF packs_pack_data(1) ok] by fastforce
  qed
  with step show ?thesis by (simp add: nbr_code_negative split: prod.splits)
next
  case False
  then have "fst (push_map_len (length ((k, v) # a)) s) < 0"
    using packs_short [OF packs_len(3) assms] by blast
  then show ?thesis
    by (cases "push_map_len (length ((k, v) # a)) s") (simp add: push_map_def seq_r_def)
qed

theorem push_map_fails_witness:
  "fst (push_map [(NilD, NilD)]
      \<lparr>m_pbuf = \<lparr>m_ptr = Some 0, m_mem = (\<lambda>_. 0), m_len = 0, m_limit = 64, m_ofs = 0\<rparr>, m_c = 0\<rparr>) < 0"
  by (rule push_map_fails) (simp add: mpak_ok_def)

end
