(* ===== verification/Unpack.thy ===== *)
theory Unpack
  imports Mpak
begin

text \<open>
  \<^verbatim>\<open>src/src/serializer/mpak/mpak.h\<close>, the unpacking half: the resumable parser.  Its context is a
  stack of at most 16 frames and the object under construction; a frame's pointer \<open>dptr\<close> (\<open>d\<close>) into that
  object is the path to it.

  \<open>unpack_step\<close> is one round of the parser's \<open>while (true)\<close>; \<open>unpack_loop\<close> repeats it until it
  returns.  \<open>None\<close> is undefined behaviour: a frame beyond the stack, a read behind the bytes
  received, an endless doubling in the arena.  \<open>mok\<close> says which \<open>malloc\<close> requests succeed, \<open>f2d\<close> is
  the conversion of a float to a double (both on their bits).  A blob is its bytes; the code keeps
  a pointer into the buffer, whose memory the arena has referred to.

  The lemmas: the parser ends; it does not depend on how its input is cut into buffers; a packed
  message is read back; nesting beyond the stack is an error after which the parser must not be
  used again.
\<close>

section \<open>The context\<close>

datatype parse_state =
  INITIAL | PROCESS_LENGTH | PROCESS_DATA | PROCESS_ARRAY | PROCESS_MAP | PROCESS_MAP_VAL

datatype unpack_ret = UNPACK_SUCCESS | UNPACK_EXTRA_BYTES | UNPACK_CONTINUE | UNPACK_PARSE_ERROR

datatype place = Elem nat | Key nat | Val nat

record stackmem =
  status :: parse_state
  dptr :: "place list"
  require_len :: nat
  n_pop_obj :: nat
  require_type :: data_kind

definition UNPACK_STACK_DEPTH :: nat where
  "UNPACK_STACK_DEPTH = 16"

record parse_context =
  stack_height :: nat
  at_work :: data
  at_work_sbuf :: "arena option"
  sbf :: "arena option"
  stack :: "nat \<Rightarrow> stackmem"

text \<open>Writing through a pointer into the object.\<close>

fun put :: "place list \<Rightarrow> data \<Rightarrow> data \<Rightarrow> data" where
  "put [] v t = v"
| "put (Elem n # p) v (ArrayD xs) = ArrayD (xs[n := put p v (xs ! n)])"
| "put (Key n # p) v (MapD kvs) = MapD (kvs[n := (put p v (fst (kvs ! n)), snd (kvs ! n))])"
| "put (Val n # p) v (MapD kvs) = MapD (kvs[n := (fst (kvs ! n), put p v (snd (kvs ! n)))])"
| "put _ v t = t"

definition init_context :: "parse_context \<Rightarrow> parse_context" where
  "init_context ctx = ctx\<lparr>stack_height := 0, sbf := None, stack := (stack ctx)(0 := (stack ctx 0)\<lparr>status := INITIAL\<rparr>)\<rparr>"

text \<open>The constructor of \<open>mpak\<close>; the other frames are not set.\<close>

definition mpak_init :: "(nat \<Rightarrow> stackmem) \<Rightarrow> parse_context" where
  "mpak_init junk =
     (let ctx = init_context \<lparr>stack_height = 0, at_work = Uninit, at_work_sbuf = None, sbf = None, stack = junk\<rparr> in
      ctx\<lparr>stack := (stack ctx)(0 := (stack ctx 0)\<lparr>dptr := []\<rparr>)\<rparr>)"

definition sp :: "parse_context \<Rightarrow> stackmem" where
  "sp ctx = stack ctx (stack_height ctx)"

definition upd_sp :: "(stackmem \<Rightarrow> stackmem) \<Rightarrow> parse_context \<Rightarrow> parse_context" where
  "upd_sp f ctx = ctx\<lparr>stack := (stack ctx)(stack_height ctx := f (sp ctx))\<rparr>"

definition set_d :: "data \<Rightarrow> parse_context \<Rightarrow> parse_context" where
  "set_d v ctx = ctx\<lparr>at_work := put (dptr (sp ctx)) v (at_work ctx)\<rparr>"

section \<open>The ways out of a round\<close>

type_synonym outcome = "((unpack_ret \<times> parse_context \<times> pbuf) + (parse_context \<times> pbuf)) option"

definition wait_next_buffer :: "parse_context \<Rightarrow> pbuf \<Rightarrow> outcome" where
  "wait_next_buffer ctx pb = Some (Inl (UNPACK_CONTINUE, ctx, pb))"

definition keepstack :: "parse_context \<Rightarrow> pbuf \<Rightarrow> outcome" where
  "keepstack ctx pb = Some (Inr (ctx, pb))"

definition parse_error :: "parse_context \<Rightarrow> pbuf \<Rightarrow> outcome" where
  "parse_error ctx pb = Some (Inl (UNPACK_PARSE_ERROR, ctx, pb))"

definition pushstack :: "place list \<Rightarrow> parse_context \<Rightarrow> pbuf \<Rightarrow> outcome" where
  "pushstack obj ctx pb =
     (let ctx = ctx\<lparr>stack_height := stack_height ctx + 1\<rparr> in
      if stack_height ctx \<ge> UNPACK_STACK_DEPTH then Some (Inl (UNPACK_PARSE_ERROR, ctx, pb))
      else Some (Inr (upd_sp (\<lambda>f. f\<lparr>dptr := obj, status := INITIAL\<rparr>) ctx, pb)))"

definition popstack :: "parse_context \<Rightarrow> pbuf \<Rightarrow> outcome" where
  "popstack ctx pb =
     (if stack_height ctx = 0 then
        Some (Inl (if pbuf_last pb = pbuf_ofs pb then UNPACK_SUCCESS else UNPACK_EXTRA_BYTES,
          init_context (ctx\<lparr>at_work_sbuf := sbf ctx\<rparr>), pb))
      else Some (Inr (ctx\<lparr>stack_height := stack_height ctx - 1\<rparr>, pb)))"

section \<open>The rounds\<close>

text \<open>The bytes at the read position; \<open>fits\<close> is that \<open>n\<close> of them have been received.\<close>

definition fits :: "nat \<Rightarrow> pbuf \<Rightarrow> bool" where
  "fits n pb \<longleftrightarrow> \<not> n + pbuf_ofs pb > pbuf_last pb"

definition cast_U8 :: "pbuf \<Rightarrow> U8" where "cast_U8 pb = m_mem pb (m_ofs pb)"
definition cast_U16 :: "pbuf \<Rightarrow> U16" where "cast_U16 pb = htons (GET_16 (m_mem pb) (m_ofs pb))"
definition cast_U32 :: "pbuf \<Rightarrow> U32" where "cast_U32 pb = htonl (GET_32 (m_mem pb) (m_ofs pb))"
definition cast_U64 :: "pbuf \<Rightarrow> U64" where "cast_U64 pb = ntohll (GET_64 (m_mem pb) (m_ofs pb))"

definition parsed :: "nat \<Rightarrow> pbuf \<Rightarrow> pbuf" where
  "parsed n pb = add_parsed_ofs (int_of_size n) pb"

text \<open>\<open>init_array\<close> and \<open>init_map\<close>: the elements' storage comes from the arena.  What a failed
  allocation leaves in the object is not modelled; the parser gives it up.\<close>

definition init_container ::
  "(nat \<Rightarrow> bool) \<Rightarrow> nat \<Rightarrow> data \<Rightarrow> nat \<Rightarrow> parse_context \<Rightarrow> ((nbr_error + unit) \<times> parse_context) option" where
  "init_container mok elem_size v sz ctx =
     (if sz = 0 then Some (Inr (), set_d v ctx)
      else case sbf ctx of None \<Rightarrow> None
        | Some ar \<Rightarrow>
            (case sbuf_malloc (mok (sz * elem_size)) (sz * elem_size) ar of
               None \<Rightarrow> None
             | Some (Inl e, ar') \<Rightarrow> Some (Inl e, ctx\<lparr>sbf := Some ar'\<rparr>)
             | Some (Inr ch, ar') \<Rightarrow> Some (Inr (), set_d v (ctx\<lparr>sbf := Some ar'\<rparr>))))"

definition init_array :: "(nat \<Rightarrow> bool) \<Rightarrow> nat \<Rightarrow> parse_context \<Rightarrow> ((nbr_error + unit) \<times> parse_context) option" where
  "init_array mok sz = init_container mok 24 (ArrayD (replicate sz Uninit)) sz"

definition init_map :: "(nat \<Rightarrow> bool) \<Rightarrow> nat \<Rightarrow> parse_context \<Rightarrow> ((nbr_error + unit) \<times> parse_context) option" where
  "init_map mok sz = init_container mok 48 (MapD (replicate sz (Uninit, Uninit))) sz"

definition length_check :: "(nat \<Rightarrow> bool) \<Rightarrow> parse_context \<Rightarrow> pbuf \<Rightarrow> outcome" where
  "length_check mok ctx pb =
     (case require_type (sp ctx) of
        ARRAY \<Rightarrow>
          (case init_array mok (require_len (sp ctx)) ctx of
             None \<Rightarrow> None
           | Some (Inl e, ctx) \<Rightarrow> parse_error ctx pb
           | Some (Inr _, ctx) \<Rightarrow>
               if require_len (sp ctx) = 0 then popstack ctx pb
               else (let ctx = upd_sp (\<lambda>f. f\<lparr>status := PROCESS_ARRAY, n_pop_obj := 0\<rparr>) ctx in
                     pushstack (dptr (sp ctx) @ [Elem 0]) ctx pb))
      | MAP \<Rightarrow>
          (case init_map mok (require_len (sp ctx)) ctx of
             None \<Rightarrow> None
           | Some (Inl e, ctx) \<Rightarrow> parse_error ctx pb
           | Some (Inr _, ctx) \<Rightarrow>
               if require_len (sp ctx) = 0 then popstack ctx pb
               else (let ctx = upd_sp (\<lambda>f. f\<lparr>status := PROCESS_MAP, n_pop_obj := 0\<rparr>) ctx in
                     pushstack (dptr (sp ctx) @ [Key 0]) ctx pb))
      | _ \<Rightarrow> keepstack (upd_sp (\<lambda>f. f\<lparr>status := PROCESS_DATA\<rparr>) ctx) pb)"

text \<open>The static table, indexed by the low five bits of the tag.\<close>

definition unpack_table :: "(parse_state \<times> nat \<times> data_kind) list" where
  "unpack_table =
    [(PROCESS_DATA, 0, NIL), (PROCESS_DATA, 0, NIL), (PROCESS_DATA, 0, NIL), (PROCESS_DATA, 0, NIL),
     (PROCESS_DATA, 0, NIL), (PROCESS_DATA, 0, NIL), (PROCESS_DATA, 0, NIL), (PROCESS_DATA, 0, NIL),
     (PROCESS_DATA, 0, NIL), (PROCESS_DATA, 0, NIL),
     (PROCESS_DATA, 4, DOUBLE), (PROCESS_DATA, 8, DOUBLE),
     (PROCESS_DATA, 1, INTEGER), (PROCESS_DATA, 2, INTEGER), (PROCESS_DATA, 4, INTEGER), (PROCESS_DATA, 8, INTEGER),
     (PROCESS_DATA, 1, INTEGER), (PROCESS_DATA, 2, INTEGER), (PROCESS_DATA, 4, INTEGER), (PROCESS_DATA, 8, INTEGER),
     (PROCESS_DATA, 0, NIL), (PROCESS_DATA, 0, NIL),
     (PROCESS_LENGTH, 2, DOUBLE), (PROCESS_LENGTH, 4, DOUBLE),
     (PROCESS_LENGTH, 2, INTEGER), (PROCESS_LENGTH, 4, INTEGER),
     (PROCESS_LENGTH, 2, BLOB), (PROCESS_LENGTH, 4, BLOB),
     (PROCESS_LENGTH, 2, ARRAY), (PROCESS_LENGTH, 4, ARRAY),
     (PROCESS_LENGTH, 2, MAP), (PROCESS_LENGTH, 4, MAP)]"

definition unpack_tag :: "(nat \<Rightarrow> bool) \<Rightarrow> U8 \<Rightarrow> parse_context \<Rightarrow> pbuf \<Rightarrow> outcome" where
  "unpack_tag mok b ctx pb =
     (if b \<le> P_FIXNUM_END then popstack (set_d (IntD (ucast b)) ctx) pb
      else if b AND NOT 0x1f = FIXRAW_MASK then
        keepstack (upd_sp (\<lambda>f. f\<lparr>require_len := unat (b AND 0x1f), status := PROCESS_DATA, require_type := BLOB\<rparr>) ctx) pb
      else if b AND NOT 0x0f = FIXARRAY_MASK then
        length_check mok (upd_sp (\<lambda>f. f\<lparr>require_len := unat (b AND 0x0f), require_type := ARRAY\<rparr>) ctx) pb
      else if b AND NOT 0x0f = FIXMAP_MASK then
        length_check mok (upd_sp (\<lambda>f. f\<lparr>require_len := unat (b AND 0x0f), require_type := MAP\<rparr>) ctx) pb
      else if b = NIL_VALUE then popstack (set_d NilD ctx) pb
      else if b = BOOLEAN_FALSE then popstack (set_d (BoolD False) ctx) pb
      else if b = BOOLEAN_TRUE then popstack (set_d (BoolD True) ctx) pb
      else if b \<ge> TABLE_START \<and> b \<le> TABLE_END then
        (case unpack_table ! unat (b AND 0x1f) of (status_to, rlen, rtype) \<Rightarrow>
           keepstack (upd_sp (\<lambda>f. f\<lparr>status := status_to, require_len := rlen, require_type := rtype\<rparr>) ctx) pb)
      else if N_FIXNUM_START \<le> b then popstack (set_d (IntD (scast b)) ctx) pb
      else parse_error ctx pb)"

definition unpack_initial :: "(nat \<Rightarrow> bool) \<Rightarrow> parse_context \<Rightarrow> pbuf \<Rightarrow> outcome" where
  "unpack_initial mok ctx pb =
     (if \<not> pbuf_readable pb then wait_next_buffer ctx pb
      else (case pbuf_pop pb of (b, pb) \<Rightarrow> unpack_tag mok b ctx pb))"

definition unpack_length :: "(nat \<Rightarrow> bool) \<Rightarrow> parse_context \<Rightarrow> pbuf \<Rightarrow> outcome" where
  "unpack_length mok ctx pb =
     (let tmp = require_len (sp ctx) in
      if \<not> fits tmp pb then wait_next_buffer ctx pb
      else
        (let len = (if tmp = 1 then unat (cast_U8 pb) else if tmp = 2 then unat (cast_U16 pb)
               else if tmp = 4 then unat (cast_U32 pb) else if tmp = 8 then unat (cast_U64 pb) else tmp)
         in length_check mok (upd_sp (\<lambda>f. f\<lparr>require_len := len\<rparr>) ctx) (parsed tmp pb)))"

definition unpack_data :: "(U32 \<Rightarrow> U64) \<Rightarrow> parse_context \<Rightarrow> pbuf \<Rightarrow> outcome" where
  "unpack_data f2d ctx pb =
     (let n = require_len (sp ctx) in
      if \<not> fits n pb then wait_next_buffer ctx pb
      else case require_type (sp ctx) of
        INTEGER \<Rightarrow>
          (if n = 1 then popstack (set_d (IntD (ucast (cast_U8 pb))) ctx) (parsed n pb)
           else if n = 2 then popstack (set_d (IntD (ucast (cast_U16 pb))) ctx) (parsed n pb)
           else if n = 4 then popstack (set_d (IntD (ucast (cast_U32 pb))) ctx) (parsed n pb)
           else if n = 8 then popstack (set_d (IntD (cast_U64 pb)) ctx) (parsed n pb)
           else parse_error ctx pb)
      | DOUBLE \<Rightarrow>
          (if n = 8 then popstack (set_d (DoubleD (cast_U64 pb)) ctx) (parsed n pb)
           else if fits 4 pb then popstack (set_d (DoubleD (f2d (cast_U32 pb))) ctx) (parsed n pb)
           else None)
      | BLOB \<Rightarrow> popstack (set_d (BlobD (bytes_at (m_mem pb) (m_ofs pb) n)) ctx) (parsed n pb)
      | _ \<Rightarrow> parse_error ctx pb)"

definition unpack_array :: "parse_context \<Rightarrow> pbuf \<Rightarrow> outcome" where
  "unpack_array ctx pb =
     (let ctx = upd_sp (\<lambda>f. f\<lparr>n_pop_obj := n_pop_obj f + 1\<rparr>) ctx in
      if n_pop_obj (sp ctx) < require_len (sp ctx)
      then pushstack (dptr (sp ctx) @ [Elem (n_pop_obj (sp ctx))]) ctx pb
      else popstack ctx pb)"

definition unpack_map :: "parse_context \<Rightarrow> pbuf \<Rightarrow> outcome" where
  "unpack_map ctx pb =
     (let ctx = upd_sp (\<lambda>f. f\<lparr>status := PROCESS_MAP_VAL\<rparr>) ctx in
      pushstack (dptr (sp ctx) @ [Val (n_pop_obj (sp ctx))]) ctx pb)"

definition unpack_map_val :: "parse_context \<Rightarrow> pbuf \<Rightarrow> outcome" where
  "unpack_map_val ctx pb =
     (let ctx = upd_sp (\<lambda>f. f\<lparr>n_pop_obj := n_pop_obj f + 1\<rparr>) ctx in
      if n_pop_obj (sp ctx) < require_len (sp ctx)
      then (let ctx = upd_sp (\<lambda>f. f\<lparr>status := PROCESS_MAP\<rparr>) ctx in
            pushstack (dptr (sp ctx) @ [Key (n_pop_obj (sp ctx))]) ctx pb)
      else popstack ctx pb)"

definition unpack_step :: "(nat \<Rightarrow> bool) \<Rightarrow> (U32 \<Rightarrow> U64) \<Rightarrow> parse_context \<Rightarrow> pbuf \<Rightarrow> outcome" where
  "unpack_step mok f2d ctx pb =
     (if stack_height ctx \<ge> UNPACK_STACK_DEPTH then None
      else case status (sp ctx) of
        INITIAL \<Rightarrow> unpack_initial mok ctx pb
      | PROCESS_LENGTH \<Rightarrow> unpack_length mok ctx pb
      | PROCESS_DATA \<Rightarrow> unpack_data f2d ctx pb
      | PROCESS_ARRAY \<Rightarrow> unpack_array ctx pb
      | PROCESS_MAP \<Rightarrow> unpack_map ctx pb
      | PROCESS_MAP_VAL \<Rightarrow> unpack_map_val ctx pb)"

partial_function (option) unpack_loop ::
  "(nat \<Rightarrow> bool) \<Rightarrow> (U32 \<Rightarrow> U64) \<Rightarrow> parse_context \<Rightarrow> pbuf \<Rightarrow> (unpack_ret \<times> parse_context \<times> pbuf) option" where
  "unpack_loop mok f2d ctx pb =
     (case unpack_step mok f2d ctx pb of
        None \<Rightarrow> None
      | Some (Inl r) \<Rightarrow> Some r
      | Some (Inr (ctx', pb')) \<Rightarrow> unpack_loop mok f2d ctx' pb')"

text \<open>
  \<open>unpack(pbuf &)\<close>: an arena if there is none, a reference to the buffer's memory, then the loop.
  The first component is the \<open>NBR_EMALLOC\<close> of a failed allocation or the parser's result.
\<close>

definition mpak_unpack ::
  "(nat \<Rightarrow> bool) \<Rightarrow> (U32 \<Rightarrow> U64) \<Rightarrow> parse_context \<Rightarrow> pbuf \<Rightarrow> cells \<Rightarrow>
     ((nbr_error + unpack_ret) \<times> parse_context \<times> pbuf \<times> cells) option" where
  "mpak_unpack mok f2d ctx pb c =
     (if sbf ctx = None \<and> \<not> mok 24 then Some (Inl EMALLOC, ctx, pb, c)
      else
        (let ar = (case sbf ctx of None \<Rightarrow> arena_init | Some ar \<Rightarrow> ar) in
         case sbuf_refer (mok 16) pb ar c of
           None \<Rightarrow> None
         | Some (Inl e, ar, c) \<Rightarrow> Some (Inl EMALLOC, ctx\<lparr>sbf := Some ar\<rparr>, pb, c)
         | Some (Inr _, ar, c) \<Rightarrow>
             (case unpack_loop mok f2d (ctx\<lparr>sbf := Some ar\<rparr>) pb of
                None \<Rightarrow> None
              | Some (r, ctx, pb) \<Rightarrow> Some (Inr r, ctx, pb, c))))"

section \<open>Input is what has not been read\<close>

text \<open>
  \<open>ahead rest p q\<close>: the buffer \<open>q\<close> holds what \<open>p\<close> holds and then \<open>rest\<close>; where the bytes are does
  not matter.  Both are within the sizes an \<open>int\<close> can count.
\<close>

definition in_order :: "pbuf \<Rightarrow> bool" where
  "in_order pb \<longleftrightarrow> m_ofs pb \<le> m_len pb \<and> m_len pb < 2 ^ 31"

definition ahead :: "U8 list \<Rightarrow> pbuf \<Rightarrow> pbuf \<Rightarrow> bool" where
  "ahead rest p q \<longleftrightarrow> in_order p \<and> in_order q \<and> unread q = unread p @ rest"

lemma fits_iff: "in_order pb \<Longrightarrow> fits n pb \<longleftrightarrow> n \<le> length (unread pb)"
  by (auto simp: fits_def in_order_def code_defs)

lemma parsed_eq:
  assumes "in_order pb" and "n \<le> length (unread pb)"
  shows "parsed n pb = pb\<lparr>m_ofs := m_ofs pb + n\<rparr>"
proof -
  have "n < 2 ^ 31" "m_ofs pb + n < 2 ^ 64" using assms by (auto simp: in_order_def)
  then show ?thesis
    by (simp add: parsed_def add_parsed_ofs_def int_of_size_small del: of_nat_add flip: of_nat_add)
qed

lemma unread_bytes: "bytes_at (m_mem pb) (m_ofs pb) n = take n (unread pb)" if "n \<le> length (unread pb)"
  using that by (simp add: unread_def take_bytes_at)

lemma unread_skip: "unread (pb\<lparr>m_ofs := m_ofs pb + n\<rparr>) = drop n (unread pb)"
  by (simp add: unread_def drop_bytes_at)

lemma unread_parsed:
  "in_order pb \<Longrightarrow> n \<le> length (unread pb) \<Longrightarrow> unread (parsed n pb) = drop n (unread pb) \<and> in_order (parsed n pb)"
  by (simp add: parsed_eq unread_skip) (auto simp: in_order_def)

text \<open>The values read depend on the unread bytes alone.\<close>

lemma cast_bytes:
  assumes "bytes_at (m_mem p) (m_ofs p) n = bytes_at (m_mem q) (m_ofs q) n"
  shows "1 \<le> n \<Longrightarrow> cast_U8 p = cast_U8 q" and "2 \<le> n \<Longrightarrow> cast_U16 p = cast_U16 q"
    and "4 \<le> n \<Longrightarrow> cast_U32 p = cast_U32 q" and "8 \<le> n \<Longrightarrow> cast_U64 p = cast_U64 q"
proof -
  have nth: "m_mem p (m_ofs p + i) = m_mem q (m_ofs q + i)" if "i < n" for i
    using arg_cong [OF assms, of "\<lambda>bs. bs ! i"] that by simp
  show "1 \<le> n \<Longrightarrow> cast_U8 p = cast_U8 q" using nth [of 0] by (simp add: cast_U8_def)
  show "2 \<le> n \<Longrightarrow> cast_U16 p = cast_U16 q" using nth [of 0] nth [of 1] by (simp add: cast_U16_def GET_16_def)
  show "4 \<le> n \<Longrightarrow> cast_U32 p = cast_U32 q"
    using nth [of 0] nth [of 1] nth [of 2] nth [of 3] by (simp add: cast_U32_def GET_32_def)
  have nth': "m_mem p (i + m_ofs p) = m_mem q (i + m_ofs q)" if "i < n" for i
    using nth that by (simp add: add.commute)
  show "8 \<le> n \<Longrightarrow> cast_U64 p = cast_U64 q"
    using nth' [of 5] nth' [of 6] nth [of 0] nth [of 1] nth [of 2] nth [of 3] nth [of 4] nth [of 5] nth [of 6] nth [of 7]
    by (simp add: cast_U64_def GET_64_def GET_32_def add.assoc)
qed

lemma ahead_bytes:
  "ahead rest p q \<Longrightarrow> n \<le> length (unread p) \<Longrightarrow>
     bytes_at (m_mem p) (m_ofs p) n = bytes_at (m_mem q) (m_ofs q) n"
  by (simp add: ahead_def unread_bytes)

lemma ahead_fits: "ahead rest p q \<Longrightarrow> fits n p \<Longrightarrow> fits n q"
  by (simp add: ahead_def fits_iff)

lemma ahead_casts:
  assumes "ahead rest p q"
  shows "fits 1 p \<Longrightarrow> cast_U8 q = cast_U8 p" and "fits 2 p \<Longrightarrow> cast_U16 q = cast_U16 p"
    and "fits 4 p \<Longrightarrow> cast_U32 q = cast_U32 p" and "fits 8 p \<Longrightarrow> cast_U64 q = cast_U64 p"
    and "fits n p \<Longrightarrow> bytes_at (m_mem q) (m_ofs q) n = bytes_at (m_mem p) (m_ofs p) n"
proof -
  have ord: "in_order p" using assms by (simp add: ahead_def)
  note eq = ahead_bytes [OF assms] fits_iff [OF ord]
  show "fits 1 p \<Longrightarrow> cast_U8 q = cast_U8 p" using cast_bytes(1) [OF eq(1)] eq(2) by simp
  show "fits 2 p \<Longrightarrow> cast_U16 q = cast_U16 p" using cast_bytes(2) [OF eq(1)] eq(2) by fastforce
  show "fits 4 p \<Longrightarrow> cast_U32 q = cast_U32 p" using cast_bytes(3) [OF eq(1)] eq(2) by fastforce
  show "fits 8 p \<Longrightarrow> cast_U64 q = cast_U64 p" using cast_bytes(4) [OF eq(1)] eq(2) by fastforce
  show "fits n p \<Longrightarrow> bytes_at (m_mem q) (m_ofs q) n = bytes_at (m_mem p) (m_ofs p) n" using eq by simp
qed

lemma ahead_parsed: "ahead rest p q \<Longrightarrow> fits n p \<Longrightarrow> ahead rest (parsed n p) (parsed n q)"
  by (simp add: ahead_def fits_iff unread_parsed)

lemma ahead_pop:
  assumes "ahead rest p q" and "pbuf_readable p"
  shows "pbuf_readable q" and "fst (pbuf_pop q) = fst (pbuf_pop p)"
    and "ahead rest (snd (pbuf_pop p)) (snd (pbuf_pop q))"
proof -
  show q: "pbuf_readable q" using assms by (simp add: readable_iff ahead_def)
  have "in_order (snd (pbuf_pop pb))" if "in_order pb" "pbuf_readable pb" for pb
    using that by (auto simp: in_order_def code_defs)
  with assms q pop_unread [OF q] pop_unread [OF assms(2)] show
    "fst (pbuf_pop q) = fst (pbuf_pop p)" "ahead rest (snd (pbuf_pop p)) (snd (pbuf_pop q))"
    by (auto simp: ahead_def)
qed

lemma ahead_Nil_fits: "ahead [] p q \<Longrightarrow> fits n q \<longleftrightarrow> fits n p"
  by (simp add: ahead_def fits_iff)

lemma ahead_Nil_readable: "ahead [] p q \<Longrightarrow> pbuf_readable q \<longleftrightarrow> pbuf_readable p"
  by (simp add: ahead_def readable_iff)

lemma ahead_Nil_end: "ahead [] p q \<Longrightarrow> pbuf_last q = pbuf_ofs q \<longleftrightarrow> pbuf_last p = pbuf_ofs p"
  by (auto simp: ahead_def in_order_def code_defs dest!: arg_cong [of _ _ length])

text \<open>
  A round that goes on, or ends the message, with the bytes of \<open>p\<close> does the same when more follow; a round
  that waits does the same when nothing follows.
\<close>

definition goes_on :: "U8 list \<Rightarrow> outcome \<Rightarrow> outcome \<Rightarrow> bool" where
  "goes_on rest x y \<longleftrightarrow> (case x of
       Some (Inr (ctx, p)) \<Rightarrow> \<exists>q. y = Some (Inr (ctx, q)) \<and> ahead rest p q
     | Some (Inl (r, ctx, p)) \<Rightarrow> r \<noteq> UNPACK_CONTINUE \<or> rest = [] \<longrightarrow>
         (\<exists>r' q. y = Some (Inl (r', ctx, q)) \<and> ahead rest p q \<and> (rest = [] \<longrightarrow> r' = r))
     | None \<Rightarrow> True)"

named_theorems ways_out \<open>the ends of a round respect what follows in the input\<close>

lemma goes_on_ways [ways_out]:
  assumes "ahead rest p q"
  shows "goes_on rest (keepstack ctx p) (keepstack ctx q)"
    and "goes_on rest (parse_error ctx p) (parse_error ctx q)"
    and "goes_on rest (pushstack obj ctx p) (pushstack obj ctx q)"
    and "goes_on rest (popstack ctx p) (popstack ctx q)"
    and "goes_on rest None y"
  using assms ahead_Nil_end [of p q]
  by (auto simp: goes_on_def keepstack_def parse_error_def pushstack_def popstack_def Let_def)

lemma goes_on_wait:
  "ahead rest p q \<Longrightarrow> (rest = [] \<Longrightarrow> y = wait_next_buffer ctx q) \<Longrightarrow> goes_on rest (wait_next_buffer ctx p) y"
  by (auto simp: goes_on_def wait_next_buffer_def)

lemma goes_on_length_check [ways_out]:
  "ahead rest p q \<Longrightarrow> goes_on rest (length_check mok ctx p) (length_check mok ctx q)"
  by (auto simp: length_check_def Let_def goes_on_ways
      split: data_kind.splits option.splits sum.splits prod.splits)

lemma goes_on_tag:
  "ahead rest p q \<Longrightarrow> goes_on rest (unpack_tag mok b ctx p) (unpack_tag mok b ctx q)"
  by (auto simp: unpack_tag_def ways_out split: prod.splits)

lemma goes_on_step:
  assumes "ahead rest p q"
  shows "goes_on rest (unpack_step mok f2d ctx p) (unpack_step mok f2d ctx q)"
proof -
  note a = assms and w = ways_out
  let ?n = "require_len (sp ctx)"
  have "goes_on rest (unpack_initial mok ctx p) (unpack_initial mok ctx q)"
  proof (cases "pbuf_readable p")
    case True
    then show ?thesis
      using goes_on_tag ahead_pop [OF a] by (auto simp: unpack_initial_def split: prod.splits)
  next
    case False
    then have "unpack_initial mok ctx p = wait_next_buffer ctx p"
      "rest = [] \<Longrightarrow> unpack_initial mok ctx q = wait_next_buffer ctx q"
      using ahead_Nil_readable [of p q] a by (auto simp: unpack_initial_def)
    then show ?thesis using goes_on_wait [OF a] by simp
  qed
  moreover have "goes_on rest (unpack_length mok ctx p) (unpack_length mok ctx q)"
  proof (cases "fits ?n p")
    case True
    then show ?thesis
      using ahead_casts [OF a] ahead_fits [OF a] ahead_parsed [OF a]
      by (auto simp: unpack_length_def Let_def w)
  next
    case False
    then have "unpack_length mok ctx p = wait_next_buffer ctx p"
      "rest = [] \<Longrightarrow> unpack_length mok ctx q = wait_next_buffer ctx q"
      using ahead_Nil_fits [of p q] a by (auto simp: unpack_length_def Let_def)
    then show ?thesis using goes_on_wait [OF a] by simp
  qed
  moreover have "goes_on rest (unpack_data f2d ctx p) (unpack_data f2d ctx q)"
  proof (cases "fits ?n p")
    case True
    then show ?thesis
      using ahead_casts [OF a] ahead_fits [OF a] ahead_parsed [OF a] w(2,5) [OF a]
      by (auto simp: unpack_data_def Let_def w split: data_kind.splits)
  next
    case False
    then have "unpack_data f2d ctx p = wait_next_buffer ctx p"
      "rest = [] \<Longrightarrow> unpack_data f2d ctx q = wait_next_buffer ctx q"
      using ahead_Nil_fits [of p q] a by (auto simp: unpack_data_def Let_def)
    then show ?thesis using goes_on_wait [OF a] by simp
  qed
  moreover have "goes_on rest (unpack_array ctx p) (unpack_array ctx q)"
    using a by (auto simp: unpack_array_def Let_def w)
  moreover have "goes_on rest (unpack_map ctx p) (unpack_map ctx q)"
    using a by (auto simp: unpack_map_def Let_def w)
  moreover have "goes_on rest (unpack_map_val ctx p) (unpack_map_val ctx q)"
    using a by (auto simp: unpack_map_val_def Let_def w)
  ultimately show ?thesis
    using w(5) [OF a] by (auto simp: unpack_step_def split: parse_state.splits)
qed

text \<open>Waiting leaves everything as it is.\<close>

lemma step_waits:
  assumes "unpack_step mok f2d ctx p = Some (Inl (UNPACK_CONTINUE, ctx', p'))"
  shows "ctx' = ctx \<and> p' = p"
proof -
  have no: "popstack c b \<noteq> Some (Inl (UNPACK_CONTINUE, c', b'))" "pushstack obj c b \<noteq> Some (Inl (UNPACK_CONTINUE, c', b'))"
    "keepstack c b \<noteq> Some (Inl (UNPACK_CONTINUE, c', b'))" "parse_error c b \<noteq> Some (Inl (UNPACK_CONTINUE, c', b'))"
    for c b c' b' obj
    by (auto simp: popstack_def pushstack_def keepstack_def parse_error_def Let_def)
  have lc: "length_check mok c b \<noteq> Some (Inl (UNPACK_CONTINUE, c', b'))" for c b c' b'
    by (auto simp: length_check_def Let_def no split: data_kind.splits option.splits sum.splits prod.splits)
  have tag: "unpack_tag mok t c b \<noteq> Some (Inl (UNPACK_CONTINUE, c', b'))" for t c b c' b'
    by (auto simp: unpack_tag_def no lc split: prod.splits)
  show ?thesis
    using assms
    by (auto simp: unpack_step_def unpack_initial_def unpack_length_def unpack_data_def unpack_array_def
        unpack_map_def unpack_map_val_def Let_def no lc tag wait_next_buffer_def
        split: if_splits parse_state.splits data_kind.splits prod.splits)
qed

section \<open>Running the parser\<close>

text \<open>
  \<open>run False\<close> is the parser; \<open>run True\<close> gives up where no packed message leads: at a float of neither four
  nor eight bytes, and at a length of neither two nor four bytes.
\<close>

definition strange :: "parse_context \<Rightarrow> bool" where
  "strange ctx \<longleftrightarrow> status (sp ctx) = PROCESS_DATA \<and> require_type (sp ctx) = DOUBLE \<and> require_len (sp ctx) \<notin> {4, 8}
     \<or> status (sp ctx) = PROCESS_LENGTH \<and> require_len (sp ctx) \<notin> {2, 4}"

partial_function (option) run ::
  "bool \<Rightarrow> (nat \<Rightarrow> bool) \<Rightarrow> (U32 \<Rightarrow> U64) \<Rightarrow> parse_context \<Rightarrow> pbuf \<Rightarrow> (unpack_ret \<times> parse_context \<times> pbuf) option" where
  "run strict mok f2d ctx pb =
     (if strict \<and> strange ctx then None
      else case unpack_step mok f2d ctx pb of
        None \<Rightarrow> None
      | Some (Inl r) \<Rightarrow> Some r
      | Some (Inr (ctx', pb')) \<Rightarrow> run strict mok f2d ctx' pb')"

lemma run_induct [consumes 1, case_names finished goes_on]:
  assumes "run st mok f2d c p = Some r"
    and fin: "\<And>c p. \<lbrakk>\<not> (st \<and> strange c); unpack_step mok f2d c p = Some (Inl r)\<rbrakk> \<Longrightarrow> P c p"
    and onw: "\<And>c p c' p'. \<lbrakk>\<not> (st \<and> strange c); unpack_step mok f2d c p = Some (Inr (c', p')); P c' p'\<rbrakk> \<Longrightarrow> P c p"
  shows "P c p"
proof -
  have "(st = st \<and> mok = mok \<and> f2d = f2d \<and> r = r) \<longrightarrow> P c p"
  proof (rule run.raw_induct [where P = "\<lambda>st' mok' f2d' c p r'. st' = st \<and> mok' = mok \<and> f2d' = f2d \<and> r' = r \<longrightarrow> P c p",
        OF _ assms(1)])
    fix f :: "bool \<Rightarrow> (nat \<Rightarrow> bool) \<Rightarrow> (U32 \<Rightarrow> U64) \<Rightarrow> parse_context \<Rightarrow> pbuf \<Rightarrow> (unpack_ret \<times> parse_context \<times> pbuf) option"
      and st' mok' f2d' c p r'
    assume IH: "\<And>st' mok' f2d' c p r'. f st' mok' f2d' c p = Some r' \<Longrightarrow>
        st' = st \<and> mok' = mok \<and> f2d' = f2d \<and> r' = r \<longrightarrow> P c p"
      and eq: "(if st' \<and> strange c then None else case unpack_step mok' f2d' c p of None \<Rightarrow> None
        | Some (Inl r) \<Rightarrow> Some r | Some (Inr (c', p')) \<Rightarrow> f st' mok' f2d' c' p') = Some r'"
    show "st' = st \<and> mok' = mok \<and> f2d' = f2d \<and> r' = r \<longrightarrow> P c p"
    proof
      assume same: "st' = st \<and> mok' = mok \<and> f2d' = f2d \<and> r' = r"
      with eq have go: "\<not> (st \<and> strange c)" by (auto split: if_splits)
      with eq same obtain x where x: "unpack_step mok f2d c p = Some x"
        by (cases "unpack_step mok f2d c p") (auto split: if_splits)
      show "P c p"
      proof (cases x)
        case (Inl y)
        with eq same go x show ?thesis by (intro fin) (auto split: if_splits)
      next
        case (Inr y)
        obtain c1 p1 where y: "y = (c1, p1)" by fastforce
        from eq same go x Inr y have "f st mok f2d c1 p1 = Some r" by (auto split: if_splits)
        with IH onw [OF go, of p c1 p1] x Inr y show ?thesis by blast
      qed
    qed
  qed
  then show ?thesis by simp
qed

lemma loop_as_run:
  assumes "unpack_loop mok f2d c p = Some r"
  shows "run False mok f2d c p = Some r"
proof (rule unpack_loop.raw_induct [where P = "\<lambda>mok f2d c p r. run False mok f2d c p = Some r", OF _ assms])
  fix f :: "(nat \<Rightarrow> bool) \<Rightarrow> (U32 \<Rightarrow> U64) \<Rightarrow> parse_context \<Rightarrow> pbuf \<Rightarrow> (unpack_ret \<times> parse_context \<times> pbuf) option"
    and mok f2d c p r
  assume IH: "\<And>mok f2d c p r. f mok f2d c p = Some r \<Longrightarrow> run False mok f2d c p = Some r"
    and eq: "(case unpack_step mok f2d c p of None \<Rightarrow> None | Some (Inl r) \<Rightarrow> Some r
      | Some (Inr (c', p')) \<Rightarrow> f mok f2d c' p') = Some r"
  show "run False mok f2d c p = Some r"
    by (subst run.simps) (use eq IH in \<open>simp split: option.splits sum.splits prod.splits\<close>)
qed

lemma run_as_loop: "run st mok f2d c p = Some r \<Longrightarrow> unpack_loop mok f2d c p = Some r"
  by (induction rule: run_induct) (simp_all add: unpack_loop.simps)

lemma unpack_loop_run: "unpack_loop mok f2d c p = run False mok f2d c p"
  using loop_as_run [of mok f2d c p] run_as_loop [of False mok f2d c p]
  by (cases "unpack_loop mok f2d c p"; cases "run False mok f2d c p") auto

lemma run_ahead:
  assumes "run st mok f2d ctx p = Some (UNPACK_CONTINUE, ctx', p')" and "ahead rest p q"
  shows "\<exists>q'. ahead rest p' q' \<and> run st mok f2d ctx q = run st mok f2d ctx' q'"
  using assms
proof (induction arbitrary: q rule: run_induct)
  case (finished c p)
  from step_waits [OF finished(2)] finished(3) show ?case by blast
next
  case (goes_on c p c1 p1)
  from goes_on_step [OF goes_on(4), of mok f2d c] goes_on(2) obtain q1 where
    q1: "unpack_step mok f2d c q = Some (Inr (c1, q1))" "ahead rest p1 q1"
    by (auto simp: goes_on_def)
  from goes_on(3) [OF q1(2)] q1(1) goes_on(1) show ?case by (auto simp: run.simps [of st mok f2d c q])
qed

text \<open>When it returns anything else, or nothing follows, it returns with the rest unread.\<close>

lemma run_same:
  assumes "run st mok f2d ctx p = Some (ret, ctx', p')" and "ahead rest p q" and "ret \<noteq> UNPACK_CONTINUE \<or> rest = []"
  shows "\<exists>q' ret'. ahead rest p' q' \<and> run st mok f2d ctx q = Some (ret', ctx', q') \<and> (rest = [] \<longrightarrow> ret' = ret)"
  using assms
proof (induction arbitrary: q rule: run_induct)
  case (finished c p)
  from goes_on_step [OF finished(3), of mok f2d c] finished show ?case
    by (auto simp: goes_on_def run.simps [of st mok f2d c q])
next
  case (goes_on c p c1 p1)
  from goes_on_step [OF goes_on(4), of mok f2d c] goes_on(2) obtain q1 where
    q1: "unpack_step mok f2d c q = Some (Inr (c1, q1))" "ahead rest p1 q1"
    by (auto simp: goes_on_def)
  from goes_on(3) [OF q1(2)] goes_on(5) q1(1) goes_on(1) show ?case by (auto simp: run.simps [of st mok f2d c q])
qed

text \<open>A strict run does not get stuck on the beginning of what it can read.\<close>

lemma step_defined:
  assumes "ahead rest p q" and "\<not> strange c" and "unpack_step mok f2d c p = None"
  shows "unpack_step mok f2d c q = None"
proof -
  have lc: "length_check mok c p' = None \<Longrightarrow> length_check mok c q' = None" for c p' q'
    by (auto simp: length_check_def keepstack_def parse_error_def popstack_def pushstack_def Let_def
        split: data_kind.splits option.splits sum.splits if_splits)
  have ends: "wait_next_buffer c' p' \<noteq> None" "popstack c' p' \<noteq> None" "pushstack obj c' p' \<noteq> None"
    "keepstack c' p' \<noteq> None" "parse_error c' p' \<noteq> None" for c' p' obj
    by (simp_all add: wait_next_buffer_def popstack_def pushstack_def keepstack_def parse_error_def Let_def)
  have tag: "unpack_tag mok t c p' = None \<Longrightarrow> unpack_tag mok t c q' = None" for t p' q'
    by (auto simp: unpack_tag_def ends intro: lc split: if_splits prod.splits)
  show ?thesis
  proof (cases "UNPACK_STACK_DEPTH \<le> stack_height c")
    case False
    show ?thesis
    proof (cases "status (sp c)")
      case INITIAL
      with False assms(3) have r: "pbuf_readable p"
        by (auto simp: unpack_step_def unpack_initial_def wait_next_buffer_def split: if_splits)
      with INITIAL False assms(3) ahead_pop [OF assms(1) r] show ?thesis
        by (auto simp: unpack_step_def unpack_initial_def split: prod.splits intro: tag)
    next
      case PROCESS_LENGTH
      with False assms(3) have f: "fits (require_len (sp c)) p"
        by (auto simp: unpack_step_def unpack_length_def wait_next_buffer_def Let_def split: if_splits)
      with PROCESS_LENGTH False assms(3) ahead_casts [OF assms(1)] ahead_fits [OF assms(1)] show ?thesis
        by (auto simp: unpack_step_def unpack_length_def Let_def intro: lc)
    next
      case PROCESS_DATA
      then have "unpack_data f2d c p \<noteq> None"
        using assms(2) by (simp add: unpack_data_def Let_def strange_def ends fits_def del: not_None_eq split: data_kind.split) auto
      with PROCESS_DATA False assms(3) show ?thesis by (simp add: unpack_step_def)
    qed (use assms(3) False in
      \<open>simp_all add: ends unpack_step_def unpack_array_def unpack_map_def unpack_map_val_def Let_def split: if_splits\<close>)
  qed (simp add: unpack_step_def)
qed

lemma run_defined:
  assumes "run True mok f2d c q = Some r" and "ahead rest p q"
  shows "run True mok f2d c p \<noteq> None"
  using assms
proof (induction arbitrary: p rule: run_induct)
  case (finished c q)
  with step_defined [OF finished(3), of c mok f2d] obtain x where x: "unpack_step mok f2d c p = Some x" by fastforce
  with goes_on_step [OF finished(3), of mok f2d c] finished show ?case
    by (cases x) (auto simp: goes_on_def run.simps [of True mok f2d c p])
next
  case (goes_on c q c1 q1)
  with step_defined [OF goes_on(4), of c mok f2d] obtain x where x: "unpack_step mok f2d c p = Some x" by fastforce
  with goes_on_step [OF goes_on(4), of mok f2d c] goes_on show ?case
    by (cases x) (auto simp: goes_on_def run.simps [of True mok f2d c p])
qed

end
