(* ===== verification/Roundtrip.thy ===== *)
theory Roundtrip
  imports Unpack
begin

text \<open>
  What the parser of \<^verbatim>\<open>src/src/serializer/mpak/mpak.h\<close> makes of its input: it reads back every message
  the packing operations write, however the bytes arrive, it always returns, and it refuses input
  nested beyond its stack.
\<close>

section \<open>Writing into the object\<close>

fun fetch :: "place list \<Rightarrow> data \<Rightarrow> data option" where
  "fetch [] t = Some t"
| "fetch (Elem n # p) (ArrayD xs) = (if n < length xs then fetch p (xs ! n) else None)"
| "fetch (Key n # p) (MapD kvs) = (if n < length kvs then fetch p (fst (kvs ! n)) else None)"
| "fetch (Val n # p) (MapD kvs) = (if n < length kvs then fetch p (snd (kvs ! n)) else None)"
| "fetch _ t = None"

lemma fetch_append: "fetch (p @ q) t = (case fetch p t of None \<Rightarrow> None | Some u \<Rightarrow> fetch q u)"
  by (induction p t rule: fetch.induct) auto

lemma put_append: "fetch p t = Some u \<Longrightarrow> put (p @ q) v t = put p (put q v u) t"
  by (induction p t rule: fetch.induct) (auto split: if_splits)

lemma fetch_put: "fetch p t = Some u \<Longrightarrow> fetch p (put p v t) = Some v"
  by (induction p t rule: fetch.induct) (auto split: if_splits)

lemma put_put: "fetch p t = Some u \<Longrightarrow> put p v (put p w t) = put p v t"
  by (induction p t rule: fetch.induct) (auto split: if_splits)

section \<open>Running the parser\<close>

text \<open>What the parser returns when a round ends in the outcome \<open>x\<close>.\<close>

definition cont :: "bool \<Rightarrow> (nat \<Rightarrow> bool) \<Rightarrow> (U32 \<Rightarrow> U64) \<Rightarrow> outcome \<Rightarrow> (unpack_ret \<times> parse_context \<times> pbuf) option" where
  "cont st mok f2d x = (case x of None \<Rightarrow> None | Some (Inl r) \<Rightarrow> Some r
     | Some (Inr (ctx, pb)) \<Rightarrow> run st mok f2d ctx pb)"

lemma run_cont: "\<not> (st \<and> strange ctx) \<Longrightarrow> run st mok f2d ctx pb = cont st mok f2d (unpack_step mok f2d ctx pb)"
  by (subst run.simps) (auto simp add: cont_def)

lemma sp_upd [simp]:
  "sp (upd_sp f ctx) = f (sp ctx)" "stack_height (upd_sp f ctx) = stack_height ctx"
  "at_work (upd_sp f ctx) = at_work ctx" "sbf (upd_sp f ctx) = sbf ctx"
  "i < stack_height ctx \<Longrightarrow> stack (upd_sp f ctx) i = stack ctx i"
  by (simp_all add: upd_sp_def sp_def)

lemma set_d_simps [simp]:
  "sp (set_d v ctx) = sp ctx" "stack_height (set_d v ctx) = stack_height ctx"
  "at_work (set_d v ctx) = put (dptr (sp ctx)) v (at_work ctx)" "sbf (set_d v ctx) = sbf ctx"
  "stack (set_d v ctx) = stack ctx"
  by (simp_all add: set_d_def sp_def)

lemma sp_sbf [simp]: "sp (ctx\<lparr>sbf := x\<rparr>) = sp ctx"
  by (simp add: sp_def)

text \<open>The parser is about to read a value; its result \<open>r\<close> is what it returns after leaving the frame at
  height \<open>h\<close>, with the object \<open>t\<close> and the input \<open>rest\<close>.\<close>

definition ready :: "parse_context \<Rightarrow> bool" where
  "ready ctx \<longleftrightarrow> stack_height ctx < 16 \<and> status (sp ctx) = INITIAL \<and> sbf ctx \<noteq> None
     \<and> fetch (dptr (sp ctx)) (at_work ctx) \<noteq> None"

definition finishes ::
  "bool \<Rightarrow> (nat \<Rightarrow> bool) \<Rightarrow> (U32 \<Rightarrow> U64) \<Rightarrow> (unpack_ret \<times> parse_context \<times> pbuf) option \<Rightarrow>
     parse_context \<Rightarrow> nat \<Rightarrow> data \<Rightarrow> U8 list \<Rightarrow> bool" where
  "finishes st mok f2d r ctx h t rest \<longleftrightarrow> (\<exists>ctx' pb'.
     r = cont st mok f2d (popstack ctx' pb')
     \<and> stack_height ctx' = h \<and> (\<forall>i < h. stack ctx' i = stack ctx i)
     \<and> at_work ctx' = t \<and> sbf ctx' \<noteq> None \<and> in_order pb' \<and> unread pb' = rest)"

lemma finishesI:
  assumes "r = cont st mok f2d (popstack ctx' pb')"
    and "stack_height ctx' = h" and "\<And>i. i < h \<Longrightarrow> stack ctx' i = stack ctx i"
    and "at_work ctx' = t" and "sbf ctx' \<noteq> None" and "in_order pb'" and "unread pb' = rest"
  shows "finishes st mok f2d r ctx h t rest"
  using assms unfolding finishes_def by blast

lemma read_tag:
  assumes "ready ctx" and "in_order pb" and "unread pb = b # bs"
  shows "\<exists>pb'. run st mok f2d ctx pb = cont st mok f2d (unpack_tag mok b ctx pb')
    \<and> in_order pb' \<and> unread pb' = bs"
proof -
  have r: "pbuf_readable pb" using assms(3) by (simp add: readable_iff)
  obtain b' pb' where pop: "pbuf_pop pb = (b', pb')" by fastforce
  have "b' = b" "unread pb' = bs" using pop_unread [OF r] assms(3) pop by simp_all
  moreover have "in_order pb'" using assms(2) r pop by (auto simp: in_order_def code_defs)
  ultimately show ?thesis
    using assms(1) r pop
    by (simp add: run_cont [of st ctx mok f2d pb] strange_def unpack_step_def UNPACK_STACK_DEPTH_def ready_def unpack_initial_def)
      blast
qed

lemma read_scalar:
  assumes "ready ctx" and "in_order pb" and "unread pb = b # rest"
    and "\<And>pb. unpack_tag mok b ctx pb = popstack (set_d v ctx) pb"
  shows "finishes st mok f2d (run st mok f2d ctx pb) ctx (stack_height ctx) (put (dptr (sp ctx)) v (at_work ctx)) rest"
proof -
  from read_tag [OF assms(1-3), of st mok f2d] obtain pb' where
    "run st mok f2d ctx pb = cont st mok f2d (popstack (set_d v ctx) pb')" "in_order pb'" "unread pb' = rest"
    by (auto simp: assms(4))
  then show ?thesis
    using assms(1) by (intro finishesI [where ctx' = "set_d v ctx" and pb' = pb']) (auto simp: ready_def)
qed

lemma step_data:
  "status (sp ctx) = PROCESS_DATA \<Longrightarrow> require_type (sp ctx) \<noteq> DOUBLE \<or> require_len (sp ctx) \<in> {4, 8} \<Longrightarrow> stack_height ctx < 16 \<Longrightarrow>
     run st mok f2d ctx pb = cont st mok f2d (unpack_data f2d ctx pb)"
  by (simp add: run_cont [of st ctx mok f2d pb] strange_def unpack_step_def UNPACK_STACK_DEPTH_def)

lemma step_length:
  "status (sp ctx) = PROCESS_LENGTH \<Longrightarrow> require_len (sp ctx) \<in> {2, 4} \<Longrightarrow> stack_height ctx < 16 \<Longrightarrow>
     run st mok f2d ctx pb = cont st mok f2d (unpack_length mok ctx pb)"
  by (simp add: run_cont [of st ctx mok f2d pb] strange_def unpack_step_def UNPACK_STACK_DEPTH_def)

lemma step_array:
  "status (sp ctx) = PROCESS_ARRAY \<Longrightarrow> stack_height ctx < 16 \<Longrightarrow>
     run st mok f2d ctx pb = cont st mok f2d (unpack_array ctx pb)"
  by (simp add: run_cont [of st ctx mok f2d pb] strange_def unpack_step_def UNPACK_STACK_DEPTH_def)

lemma step_map:
  "status (sp ctx) = PROCESS_MAP \<Longrightarrow> stack_height ctx < 16 \<Longrightarrow>
     run st mok f2d ctx pb = cont st mok f2d (unpack_map ctx pb)"
  by (simp add: run_cont [of st ctx mok f2d pb] strange_def unpack_step_def UNPACK_STACK_DEPTH_def)

lemma step_map_val:
  "status (sp ctx) = PROCESS_MAP_VAL \<Longrightarrow> stack_height ctx < 16 \<Longrightarrow>
     run st mok f2d ctx pb = cont st mok f2d (unpack_map_val ctx pb)"
  by (simp add: run_cont [of st ctx mok f2d pb] strange_def unpack_step_def UNPACK_STACK_DEPTH_def)

text \<open>A payload of \<open>n\<close> bytes behind a tag that the table sends to \<open>PROCESS_DATA\<close>.\<close>

lemma read_data:
  assumes "ready ctx" and "in_order pb" and "unread pb = b # bs @ rest"
    and "\<And>pb. unpack_tag mok b ctx pb
      = keepstack (upd_sp (\<lambda>f. f\<lparr>status := PROCESS_DATA, require_len := length bs, require_type := ty\<rparr>) ctx) pb"
    and "\<And>ctx pb. sp ctx = sp ctx\<lparr>status := PROCESS_DATA, require_len := length bs, require_type := ty\<rparr> \<Longrightarrow>
       fits (length bs) pb \<Longrightarrow> bytes_at (m_mem pb) (m_ofs pb) (length bs) = bs \<Longrightarrow>
       unpack_data f2d ctx pb = popstack (set_d v ctx) (parsed (length bs) pb)"
    and "ty = DOUBLE \<Longrightarrow> length bs \<in> {4, 8}"
  shows "finishes st mok f2d (run st mok f2d ctx pb) ctx (stack_height ctx) (put (dptr (sp ctx)) v (at_work ctx)) rest"
proof -
  let ?ctx = "upd_sp (\<lambda>f. f\<lparr>status := PROCESS_DATA, require_len := length bs, require_type := ty\<rparr>) ctx"
  from read_tag [OF assms(1,2,3), of st mok f2d] obtain pb1 where
    pb1: "run st mok f2d ctx pb = run st mok f2d ?ctx pb1" "in_order pb1" "unread pb1 = bs @ rest"
    by (auto simp: assms(4) keepstack_def cont_def)
  have len: "length bs \<le> length (unread pb1)" by (simp add: pb1(3) del: length_unread)
  have "run st mok f2d ?ctx pb1 = cont st mok f2d (unpack_data f2d ?ctx pb1)"
    using assms(1,6) by (intro step_data) (auto simp: ready_def)
  also have "unpack_data f2d ?ctx pb1 = popstack (set_d v ?ctx) (parsed (length bs) pb1)"
    using len pb1(2,3) by (intro assms(5)) (simp_all add: fits_iff unread_bytes del: length_unread)
  finally show ?thesis
    using pb1 assms(1) unread_parsed [OF pb1(2) len]
    by (intro finishesI [where ctx' = "set_d v ?ctx" and pb' = "parsed (length bs) pb1"]) (auto simp: ready_def)
qed

section \<open>Tags\<close>

lemma fixraw_tag:
  assumes "l \<le> 31"
  shows "\<not> (FIXRAW_MASK OR of_nat l) \<le> P_FIXNUM_END \<and> (FIXRAW_MASK OR of_nat l) AND NOT 0x1f = FIXRAW_MASK
    \<and> unat ((FIXRAW_MASK OR of_nat l) AND 0x1f) = l"
proof -
  have "\<forall>l \<in> set [0..<32]. \<not> (FIXRAW_MASK OR of_nat l) \<le> P_FIXNUM_END
    \<and> (FIXRAW_MASK OR of_nat l) AND NOT 0x1f = FIXRAW_MASK \<and> unat ((FIXRAW_MASK OR of_nat l) AND 0x1f) = l"
    by code_simp
  from this [THEN bspec, of l] assms show ?thesis by simp
qed

lemma fixarray_tag:
  assumes "l \<le> 15"
  shows "\<not> (FIXARRAY_MASK OR of_nat l) \<le> P_FIXNUM_END \<and> (FIXARRAY_MASK OR of_nat l) AND NOT 0x1f \<noteq> FIXRAW_MASK
    \<and> (FIXARRAY_MASK OR of_nat l) AND NOT 0x0f = FIXARRAY_MASK \<and> unat ((FIXARRAY_MASK OR of_nat l) AND 0x0f) = l"
proof -
  have "\<forall>l \<in> set [0..<16]. \<not> (FIXARRAY_MASK OR of_nat l) \<le> P_FIXNUM_END
    \<and> (FIXARRAY_MASK OR of_nat l) AND NOT 0x1f \<noteq> FIXRAW_MASK
    \<and> (FIXARRAY_MASK OR of_nat l) AND NOT 0x0f = FIXARRAY_MASK \<and> unat ((FIXARRAY_MASK OR of_nat l) AND 0x0f) = l"
    by code_simp
  from this [THEN bspec, of l] assms show ?thesis by simp
qed

lemma fixmap_tag:
  assumes "l \<le> 15"
  shows "\<not> (FIXMAP_MASK OR of_nat l) \<le> P_FIXNUM_END \<and> (FIXMAP_MASK OR of_nat l) AND NOT 0x1f \<noteq> FIXRAW_MASK
    \<and> (FIXMAP_MASK OR of_nat l) AND NOT 0x0f \<noteq> FIXARRAY_MASK
    \<and> (FIXMAP_MASK OR of_nat l) AND NOT 0x0f = FIXMAP_MASK \<and> unat ((FIXMAP_MASK OR of_nat l) AND 0x0f) = l"
proof -
  have "\<forall>l \<in> set [0..<16]. \<not> (FIXMAP_MASK OR of_nat l) \<le> P_FIXNUM_END
    \<and> (FIXMAP_MASK OR of_nat l) AND NOT 0x1f \<noteq> FIXRAW_MASK \<and> (FIXMAP_MASK OR of_nat l) AND NOT 0x0f \<noteq> FIXARRAY_MASK
    \<and> (FIXMAP_MASK OR of_nat l) AND NOT 0x0f = FIXMAP_MASK \<and> unat ((FIXMAP_MASK OR of_nat l) AND 0x0f) = l"
    by code_simp
  from this [THEN bspec, of l] assms show ?thesis by (simp add: FIXMAP_MASK_def FIXARRAY_MASK_def)
qed

lemma short_tags:
  "l \<le> 31 \<Longrightarrow> unpack_tag mok (FIXRAW_MASK OR of_nat l) ctx pb
     = keepstack (upd_sp (\<lambda>f. f\<lparr>require_len := l, status := PROCESS_DATA, require_type := BLOB\<rparr>) ctx) pb"
  "l \<le> 15 \<Longrightarrow> unpack_tag mok (FIXARRAY_MASK OR of_nat l) ctx pb
     = length_check mok (upd_sp (\<lambda>f. f\<lparr>require_len := l, require_type := ARRAY\<rparr>) ctx) pb"
  "l \<le> 15 \<Longrightarrow> unpack_tag mok (FIXMAP_MASK OR of_nat l) ctx pb
     = length_check mok (upd_sp (\<lambda>f. f\<lparr>require_len := l, require_type := MAP\<rparr>) ctx) pb"
proof -
  have ne: "FIXMAP_MASK \<noteq> FIXARRAY_MASK" by (simp add: FIXMAP_MASK_def FIXARRAY_MASK_def)
  show "l \<le> 31 \<Longrightarrow> unpack_tag mok (FIXRAW_MASK OR of_nat l) ctx pb
     = keepstack (upd_sp (\<lambda>f. f\<lparr>require_len := l, status := PROCESS_DATA, require_type := BLOB\<rparr>) ctx) pb"
    using fixraw_tag [of l] by (simp only: unpack_tag_def if_True if_False simp_thms)
  show "l \<le> 15 \<Longrightarrow> unpack_tag mok (FIXARRAY_MASK OR of_nat l) ctx pb
     = length_check mok (upd_sp (\<lambda>f. f\<lparr>require_len := l, require_type := ARRAY\<rparr>) ctx) pb"
    using fixarray_tag [of l] by (simp only: unpack_tag_def if_True if_False simp_thms)
  show "l \<le> 15 \<Longrightarrow> unpack_tag mok (FIXMAP_MASK OR of_nat l) ctx pb
     = length_check mok (upd_sp (\<lambda>f. f\<lparr>require_len := l, require_type := MAP\<rparr>) ctx) pb"
    using fixmap_tag [of l] ne by (simp only: unpack_tag_def if_True if_False simp_thms)
qed

lemma small_fixnum:
  fixes b :: U8
  assumes "b \<le> P_FIXNUM_END"
  shows "unpack_tag mok b ctx pb = popstack (set_d (IntD (ucast b)) ctx) pb"
  using assms by (simp add: unpack_tag_def)

lemma high_tag:
  fixes b :: U8
  assumes "0xc4 \<le> b"
  shows "\<not> b \<le> P_FIXNUM_END" and "b AND NOT 0x1f \<noteq> FIXRAW_MASK" and "b AND NOT 0x0f \<noteq> FIXARRAY_MASK"
    and "b AND NOT 0x0f \<noteq> FIXMAP_MASK" and "b \<noteq> NIL_VALUE" and "b \<noteq> BOOLEAN_FALSE" and "b \<noteq> BOOLEAN_TRUE"
proof -
  have all: "\<forall>n \<in> set [196..<256]. \<not> (of_nat n :: U8) \<le> P_FIXNUM_END \<and> (of_nat n :: U8) AND NOT 0x1f \<noteq> FIXRAW_MASK
    \<and> (of_nat n :: U8) AND NOT 0x0f \<noteq> FIXARRAY_MASK \<and> (of_nat n :: U8) AND NOT 0x0f \<noteq> FIXMAP_MASK
    \<and> (of_nat n :: U8) \<noteq> NIL_VALUE \<and> (of_nat n :: U8) \<noteq> BOOLEAN_FALSE \<and> (of_nat n :: U8) \<noteq> BOOLEAN_TRUE"
    by code_simp
  have "unat b < 2 ^ LENGTH(8)" by (rule unsigned_less)
  then have "unat b < 256" by simp
  moreover have "196 \<le> unat b" using assms by (simp add: word_le_nat_alt)
  ultimately have "unat b \<in> set [196..<256]" unfolding set_upt by simp
  from bspec [OF all this] show "\<not> b \<le> P_FIXNUM_END" "b AND NOT 0x1f \<noteq> FIXRAW_MASK"
    "b AND NOT 0x0f \<noteq> FIXARRAY_MASK" "b AND NOT 0x0f \<noteq> FIXMAP_MASK" "b \<noteq> NIL_VALUE" "b \<noteq> BOOLEAN_FALSE"
    "b \<noteq> BOOLEAN_TRUE"
    unfolding of_nat_unat ucast_id by blast+
qed

lemma negative_fixnum:
  fixes b :: U8
  assumes "N_FIXNUM_START \<le> b"
  shows "unpack_tag mok b ctx pb = popstack (set_d (IntD (scast b)) ctx) pb"
proof -
  have "0xc4 \<le> b" "\<not> b \<le> TABLE_END"
    using assms by (auto simp: N_FIXNUM_START_def TABLE_END_def word_le_nat_alt)
  then show ?thesis
    using assms by (simp only: unpack_tag_def high_tag if_False simp_thms if_True)
qed

lemma table_tag:
  fixes b :: U8
  assumes "0xc4 \<le> b" and "b \<le> 0xdf"
  shows "unpack_tag mok b ctx pb = (case unpack_table ! unat (b AND 0x1f) of (status_to, rlen, rtype) \<Rightarrow>
    keepstack (upd_sp (\<lambda>f. f\<lparr>status := status_to, require_len := rlen, require_type := rtype\<rparr>) ctx) pb)"
  using assms by (simp only: unpack_tag_def high_tag if_False simp_thms if_True TABLE_START_def TABLE_END_def)

lemma table_tags:
  "unpack_tag mok FLOAT ctx pb = keepstack (upd_sp (\<lambda>f. f\<lparr>status := PROCESS_DATA, require_len := 4, require_type := DOUBLE\<rparr>) ctx) pb"
  "unpack_tag mok DOUBLE_TYPE ctx pb = keepstack (upd_sp (\<lambda>f. f\<lparr>status := PROCESS_DATA, require_len := 8, require_type := DOUBLE\<rparr>) ctx) pb"
  "unpack_tag mok UINT_8BIT ctx pb = keepstack (upd_sp (\<lambda>f. f\<lparr>status := PROCESS_DATA, require_len := 1, require_type := INTEGER\<rparr>) ctx) pb"
  "unpack_tag mok UINT_16BIT ctx pb = keepstack (upd_sp (\<lambda>f. f\<lparr>status := PROCESS_DATA, require_len := 2, require_type := INTEGER\<rparr>) ctx) pb"
  "unpack_tag mok UINT_32BIT ctx pb = keepstack (upd_sp (\<lambda>f. f\<lparr>status := PROCESS_DATA, require_len := 4, require_type := INTEGER\<rparr>) ctx) pb"
  "unpack_tag mok UINT_64BIT ctx pb = keepstack (upd_sp (\<lambda>f. f\<lparr>status := PROCESS_DATA, require_len := 8, require_type := INTEGER\<rparr>) ctx) pb"
  "unpack_tag mok SINT_8BIT ctx pb = keepstack (upd_sp (\<lambda>f. f\<lparr>status := PROCESS_DATA, require_len := 1, require_type := INTEGER\<rparr>) ctx) pb"
  "unpack_tag mok SINT_16BIT ctx pb = keepstack (upd_sp (\<lambda>f. f\<lparr>status := PROCESS_DATA, require_len := 2, require_type := INTEGER\<rparr>) ctx) pb"
  "unpack_tag mok SINT_32BIT ctx pb = keepstack (upd_sp (\<lambda>f. f\<lparr>status := PROCESS_DATA, require_len := 4, require_type := INTEGER\<rparr>) ctx) pb"
  "unpack_tag mok SINT_64BIT ctx pb = keepstack (upd_sp (\<lambda>f. f\<lparr>status := PROCESS_DATA, require_len := 8, require_type := INTEGER\<rparr>) ctx) pb"
  "unpack_tag mok RAW16 ctx pb = keepstack (upd_sp (\<lambda>f. f\<lparr>status := PROCESS_LENGTH, require_len := 2, require_type := BLOB\<rparr>) ctx) pb"
  "unpack_tag mok RAW32 ctx pb = keepstack (upd_sp (\<lambda>f. f\<lparr>status := PROCESS_LENGTH, require_len := 4, require_type := BLOB\<rparr>) ctx) pb"
  "unpack_tag mok ARRAY16 ctx pb = keepstack (upd_sp (\<lambda>f. f\<lparr>status := PROCESS_LENGTH, require_len := 2, require_type := ARRAY\<rparr>) ctx) pb"
  "unpack_tag mok ARRAY32 ctx pb = keepstack (upd_sp (\<lambda>f. f\<lparr>status := PROCESS_LENGTH, require_len := 4, require_type := ARRAY\<rparr>) ctx) pb"
  "unpack_tag mok MAP16 ctx pb = keepstack (upd_sp (\<lambda>f. f\<lparr>status := PROCESS_LENGTH, require_len := 2, require_type := MAP\<rparr>) ctx) pb"
  "unpack_tag mok MAP32 ctx pb = keepstack (upd_sp (\<lambda>f. f\<lparr>status := PROCESS_LENGTH, require_len := 4, require_type := MAP\<rparr>) ctx) pb"
  by (subst table_tag; simp add: tag_defs unpack_table_def)+

section \<open>What a message reads back as\<close>

text \<open>Every integer is widened without its sign, except the one-byte negative ones.\<close>

function dec :: "(U32 \<Rightarrow> U64) \<Rightarrow> msg \<Rightarrow> data"
  and decs :: "(U32 \<Rightarrow> U64) \<Rightarrow> msg list \<Rightarrow> data list"
  and dec_pairs :: "(U32 \<Rightarrow> U64) \<Rightarrow> (msg \<times> msg) list \<Rightarrow> (data \<times> data) list" where
  "dec f2d PNil = NilD"
| "dec f2d (PBool b) = BoolD b"
| "dec f2d (PU8 u) = IntD (ucast u)"
| "dec f2d (PS8 u) = IntD (if u \<ge> N_FIXNUM_START then scast u else ucast u)"
| "dec f2d (PU16 u) = IntD (ucast u)"
| "dec f2d (PS16 u) = IntD (ucast u)"
| "dec f2d (PU32 u) = IntD (ucast u)"
| "dec f2d (PS32 u) = IntD (ucast u)"
| "dec f2d (PU64 u) = IntD u"
| "dec f2d (PS64 u) = IntD u"
| "dec f2d (PFloat f) = DoubleD (f2d f)"
| "dec f2d (PDouble d) = DoubleD d"
| "dec f2d (PRaw b) = BlobD b"
| "dec f2d (PArray xs) = ArrayD (decs f2d xs)"
| "dec f2d (PMap kvs) = MapD (dec_pairs f2d kvs)"
| "decs f2d [] = []"
| "decs f2d (x # xs) = dec f2d x # decs f2d xs"
| "dec_pairs f2d [] = []"
| "dec_pairs f2d ((k, v) # kvs) = (dec f2d k, dec f2d v) # dec_pairs f2d kvs"
  by pat_completeness auto
termination
  by (relation "measure (case_sum (\<lambda>(f, m). size m) (case_sum (\<lambda>(f, m). size_list size m)
    (\<lambda>(f, m). size_list (size_prod size size) m)))") auto

text \<open>
  What a message means, a signed integer its signed value.  The parser keeps the sign of an integer only in the one-byte
  form and in 64 bits (\<^verbatim>\<open>mpak.h:842\<close>): \<open>dec\<close> is what it reads, \<open>meaning\<close> what was meant, and they are the same exactly when
  the message has no other negative integer.
\<close>

primrec meaning :: "(U32 \<Rightarrow> U64) \<Rightarrow> msg \<Rightarrow> data" where
  "meaning f2d PNil = NilD"
| "meaning f2d (PBool b) = BoolD b"
| "meaning f2d (PU8 u8) = IntD (ucast u8)"
| "meaning f2d (PS8 u8) = IntD (scast u8)"
| "meaning f2d (PU16 u16) = IntD (ucast u16)"
| "meaning f2d (PS16 u16) = IntD (scast u16)"
| "meaning f2d (PU32 u32) = IntD (ucast u32)"
| "meaning f2d (PS32 u32) = IntD (scast u32)"
| "meaning f2d (PU64 u64) = IntD u64"
| "meaning f2d (PS64 u64) = IntD u64"
| "meaning f2d (PFloat u32) = DoubleD (f2d u32)"
| "meaning f2d (PDouble u64) = DoubleD u64"
| "meaning f2d (PRaw bs) = BlobD bs"
| "meaning f2d (PArray xs) = ArrayD (map (meaning f2d) xs)"
| "meaning f2d (PMap kvs) = MapD (map (map_prod (meaning f2d) (meaning f2d)) kvs)"

primrec signs_kept :: "msg \<Rightarrow> bool" where
  "signs_kept PNil = True"
| "signs_kept (PBool b) = True"
| "signs_kept (PU8 u8) = True"
| "signs_kept (PS8 u8) = (0 \<le> sint u8 \<or> N_FIXNUM_START \<le> u8)"
| "signs_kept (PU16 u16) = True"
| "signs_kept (PS16 u16) = (0 \<le> sint u16)"
| "signs_kept (PU32 u32) = True"
| "signs_kept (PS32 u32) = (0 \<le> sint u32)"
| "signs_kept (PU64 u64) = True"
| "signs_kept (PS64 u64) = True"
| "signs_kept (PFloat u32) = True"
| "signs_kept (PDouble u64) = True"
| "signs_kept (PRaw bs) = True"
| "signs_kept (PArray xs) = list_all id (map signs_kept xs)"
| "signs_kept (PMap kvs) = list_all (\<lambda>(a, b). a \<and> b) (map (map_prod signs_kept signs_kept) kvs)"

lemma same_without_sign:
  fixes u :: "'a::len word"
  assumes "LENGTH('a) < 64"
  shows "(ucast u :: U64) = scast u \<longleftrightarrow> 0 \<le> sint u"
proof -
  have "bit u (LENGTH('a) - 1) \<longleftrightarrow> (ucast u :: U64) \<noteq> scast u"
  proof
    assume "bit u (LENGTH('a) - 1)"
    then have "bit (scast u :: U64) LENGTH('a)" "\<not> bit (ucast u :: U64) LENGTH('a)"
      using assms by (auto simp: bit_simps)
    then show "(ucast u :: U64) \<noteq> scast u" by metis
  next
    assume n: "(ucast u :: U64) \<noteq> scast u"
    show "bit u (LENGTH('a) - 1)"
    proof (rule ccontr)
      assume "\<not> bit u (LENGTH('a) - 1)"
      moreover have "n = LENGTH('a) - 1" if "bit u n" "LENGTH('a) - 1 \<le> n" for n
        using bit_imp_le_length [OF that(1)] that(2) by simp
      ultimately have "(ucast u :: U64) = scast u"
        by (intro bit_word_eqI) (auto simp: bit_simps min_def not_le)
      with n show False by contradiction
    qed
  qed
  then show ?thesis by (simp add: bit_last_iff flip: not_less)
qed

lemma decs_as_map: "decs f2d xs = map (dec f2d) xs" "dec_pairs f2d kvs = map (map_prod (dec f2d) (dec f2d)) kvs"
  by (induction xs, simp_all) (induction kvs, auto)

lemma dec_is_meaning: "dec f2d m = meaning f2d m \<longleftrightarrow> signs_kept m"
proof (induction m)
  case (PS8 u)
  then show ?case using same_without_sign [of u] by auto
next
  case (PArray xs)
  then show ?case by (simp add: decs_as_map list_all_iff)
next
  case (PMap kvs)
  then have "map_prod (dec f2d) (dec f2d) p = map_prod (meaning f2d) (meaning f2d) p
      \<longleftrightarrow> signs_kept (fst p) \<and> signs_kept (snd p)" if "p \<in> set kvs" for p
    using that by (cases p) (auto simp: fsts.simps snds.simps)
  then show ?case by (auto simp: decs_as_map list_all_iff case_prod_unfold)
qed (simp_all add: same_without_sign)

text \<open>The frames a message needs above its own.\<close>

function depth :: "msg \<Rightarrow> nat"
  and depths :: "msg list \<Rightarrow> nat"
  and depth_pairs :: "(msg \<times> msg) list \<Rightarrow> nat" where
  "depth PNil = 0" | "depth (PBool b) = 0" | "depth (PU8 u8) = 0" | "depth (PS8 u8) = 0"
| "depth (PU16 u16) = 0" | "depth (PS16 u16) = 0" | "depth (PU32 u32) = 0" | "depth (PS32 u32) = 0"
| "depth (PU64 u64) = 0" | "depth (PS64 u64) = 0" | "depth (PFloat u32) = 0" | "depth (PDouble u64) = 0"
| "depth (PRaw bs) = 0"
| "depth (PArray xs) = (if xs = [] then 0 else Suc (depths xs))"
| "depth (PMap kvs) = (if kvs = [] then 0 else Suc (depth_pairs kvs))"
| "depths [] = 0"
| "depths (x # xs) = max (depth x) (depths xs)"
| "depth_pairs [] = 0"
| "depth_pairs ((k, v) # kvs) = max (depth k) (max (depth v) (depth_pairs kvs))"
  by pat_completeness auto
termination
  by (relation "measure (case_sum size (case_sum (size_list size) (size_list (size_prod size size))))") auto

lemma length_decs [simp]: "length (decs f2d xs) = length xs"
  by (induction xs) auto

lemma length_dec_pairs [simp]: "length (dec_pairs f2d kvs) = length kvs"
  by (induction kvs) auto

lemma enc_not_Nil: "enc m \<noteq> []"
  by (cases m) (auto simp: enc_raw_len_def enc_array_len_def enc_map_len_def)

lemma length_encs: "length xs \<le> length (encs xs)"
proof (induction xs)
  case (Cons x xs)
  then show ?case using enc_not_Nil [of x] by (cases "enc x") auto
qed simp

lemma length_enc_pairs: "length kvs \<le> length (enc_pairs kvs)"
proof (induction kvs)
  case (Cons kv kvs)
  then show ?case using enc_not_Nil [of "fst kv"] by (cases kv; cases "enc (fst kv)") auto
qed simp

section \<open>Reading values\<close>

lemma data_integer:
  assumes "sp ctx = sp ctx\<lparr>status := PROCESS_DATA, require_len := n, require_type := INTEGER\<rparr>" and "fits n pb"
  shows "n = 1 \<Longrightarrow> bytes_at (m_mem pb) (m_ofs pb) 1 = [a] \<Longrightarrow>
      unpack_data f2d ctx pb = popstack (set_d (IntD (ucast a)) ctx) (parsed 1 pb)"
    and "n = 2 \<Longrightarrow> bytes_at (m_mem pb) (m_ofs pb) 2 = be16 b \<Longrightarrow>
      unpack_data f2d ctx pb = popstack (set_d (IntD (ucast b)) ctx) (parsed 2 pb)"
    and "n = 4 \<Longrightarrow> bytes_at (m_mem pb) (m_ofs pb) 4 = be32 c \<Longrightarrow>
      unpack_data f2d ctx pb = popstack (set_d (IntD (ucast c)) ctx) (parsed 4 pb)"
    and "n = 8 \<Longrightarrow> bytes_at (m_mem pb) (m_ofs pb) 8 = be64 e \<Longrightarrow>
      unpack_data f2d ctx pb = popstack (set_d (IntD e) ctx) (parsed 8 pb)"
proof -
  have r: "require_len (sp ctx) = n" "require_type (sp ctx) = INTEGER"
    by (subst assms(1), simp)+
  note u = unpack_data_def Let_def r assms(2)
  show "n = 1 \<Longrightarrow> bytes_at (m_mem pb) (m_ofs pb) 1 = [a] \<Longrightarrow>
      unpack_data f2d ctx pb = popstack (set_d (IntD (ucast a)) ctx) (parsed 1 pb)"
    using assms(2) by (simp add: u cast_U8_def bytes_at_def)
  show "n = 2 \<Longrightarrow> bytes_at (m_mem pb) (m_ofs pb) 2 = be16 b \<Longrightarrow>
      unpack_data f2d ctx pb = popstack (set_d (IntD (ucast b)) ctx) (parsed 2 pb)"
    using assms(2) by (simp add: u cast_U16_def ntohs_GET_16)
  show "n = 4 \<Longrightarrow> bytes_at (m_mem pb) (m_ofs pb) 4 = be32 c \<Longrightarrow>
      unpack_data f2d ctx pb = popstack (set_d (IntD (ucast c)) ctx) (parsed 4 pb)"
    using assms(2) by (simp add: u cast_U32_def ntohl_GET_32)
  show "n = 8 \<Longrightarrow> bytes_at (m_mem pb) (m_ofs pb) 8 = be64 e \<Longrightarrow>
      unpack_data f2d ctx pb = popstack (set_d (IntD e) ctx) (parsed 8 pb)"
    using assms(2) by (simp add: u cast_U64_def ntohll_GET_64)
qed

text \<open>A length of two or four bytes behind its tag.\<close>

lemma read_length:
  assumes "ready ctx" and "in_order pb" and "unread pb = b # bs @ rest"
    and "bs = be16 (of_nat l) \<and> l < 2 ^ 16 \<or> bs = be32 (of_nat l) \<and> l < 2 ^ 32"
    and "\<And>pb. unpack_tag mok b ctx pb
      = keepstack (upd_sp (\<lambda>f. f\<lparr>status := PROCESS_LENGTH, require_len := length bs, require_type := ty\<rparr>) ctx) pb"
  shows "\<exists>pb' ps. run st mok f2d ctx pb
      = cont st mok f2d (length_check mok (upd_sp (\<lambda>f. f\<lparr>status := ps, require_len := l, require_type := ty\<rparr>) ctx) pb')
    \<and> in_order pb' \<and> unread pb' = rest"
proof -
  let ?ctx = "upd_sp (\<lambda>f. f\<lparr>status := PROCESS_LENGTH, require_len := length bs, require_type := ty\<rparr>) ctx"
  from read_tag [OF assms(1,2,3), of st mok f2d] obtain pb1 where
    pb1: "run st mok f2d ctx pb = run st mok f2d ?ctx pb1" "in_order pb1" "unread pb1 = bs @ rest"
    by (auto simp: assms(5) keepstack_def cont_def)
  have len: "length bs \<le> length (unread pb1)" by (simp add: pb1(3) del: length_unread)
  have bytes: "bytes_at (m_mem pb1) (m_ofs pb1) (length bs) = bs"
    using unread_bytes [OF len] pb1(3) by simp
  have "run st mok f2d ?ctx pb1 = cont st mok f2d (unpack_length mok ?ctx pb1)"
    using assms(1,4) by (intro step_length) (auto simp: ready_def)
  also have "unpack_length mok ?ctx pb1
      = length_check mok (upd_sp (\<lambda>f. f\<lparr>require_len := l\<rparr>) ?ctx) (parsed (length bs) pb1)"
    using assms(4)
  proof
    assume bs: "bs = be16 (of_nat l) \<and> l < 2 ^ 16"
    then have "cast_U16 pb1 = of_nat l" "unat (of_nat l :: U16) = l"
      using bytes by (auto simp: cast_U16_def ntohs_GET_16 unsigned_of_nat take_bit_nat_eq_self)
    with bs len pb1(2) show ?thesis
      by (simp add: unpack_length_def Let_def fits_iff del: length_unread)
  next
    assume bs: "bs = be32 (of_nat l) \<and> l < 2 ^ 32"
    then have "cast_U32 pb1 = of_nat l" "unat (of_nat l :: U32) = l"
      using bytes by (auto simp: cast_U32_def ntohl_GET_32 unsigned_of_nat take_bit_nat_eq_self)
    with bs len pb1(2) show ?thesis
      by (simp add: unpack_length_def Let_def fits_iff del: length_unread)
  qed
  also have "upd_sp (\<lambda>f. f\<lparr>require_len := l\<rparr>) ?ctx
      = upd_sp (\<lambda>f. f\<lparr>status := PROCESS_LENGTH, require_len := l, require_type := ty\<rparr>) ctx"
    by (cases "stack ctx (stack_height ctx)") (simp add: upd_sp_def sp_def)
  finally show ?thesis
    using pb1 unread_parsed [OF pb1(2) len] by auto
qed

lemma malloc_total: "s \<le> 2 ^ 63 \<Longrightarrow> \<exists>ch ar'. sbuf_malloc True s ar = Some (Inr ch, ar')"
  using grow_total [of ALLOC_UNIT_SIZE s]
  by (auto simp: sbuf_malloc_def arena_take_def ALLOC_UNIT_SIZE_def)

lemma container_total:
  assumes "\<forall>n. mok n" and "sbf ctx \<noteq> None" and "sz * n \<le> 2 ^ 63"
  shows "\<exists>ar. init_container mok n v sz ctx = Some (Inr (), set_d v (ctx\<lparr>sbf := Some ar\<rparr>))"
proof (cases "sz = 0")
  case True
  with assms(2) obtain ar where "sbf ctx = Some ar" by auto
  then have "ctx\<lparr>sbf := Some ar\<rparr> = ctx" by simp
  with True show ?thesis by (intro exI [of _ ar]) (simp add: init_container_def)
next
  case False
  from assms(2) obtain ar where "sbf ctx = Some ar" by auto
  with False assms(1) malloc_total [OF assms(3), of ar] show ?thesis
    by (auto simp: init_container_def)
qed

section \<open>Between the frames\<close>

lemma pop_to:
  assumes "finishes st mok f2d r ctx (Suc h) t rest"
  shows "\<exists>ctx' pb'. r = run st mok f2d ctx' pb' \<and> stack_height ctx' = h
    \<and> (\<forall>i \<le> h. stack ctx' i = stack ctx i) \<and> at_work ctx' = t \<and> sbf ctx' \<noteq> None
    \<and> in_order pb' \<and> unread pb' = rest"
proof -
  from assms obtain c pb' where c: "r = cont st mok f2d (popstack c pb')" "stack_height c = Suc h"
    "\<forall>i < Suc h. stack c i = stack ctx i" "at_work c = t" "sbf c \<noteq> None" "in_order pb'" "unread pb' = rest"
    by (auto simp: finishes_def)
  then show ?thesis
    by (intro exI [of _ "c\<lparr>stack_height := h\<rparr>"] exI [of _ pb']) (auto simp: popstack_def cont_def)
qed

lemma push_to:
  assumes "stack_height ctx = h" and "Suc h < 16"
  shows "\<exists>ctx'. cont st mok f2d (pushstack obj ctx pb) = run st mok f2d ctx' pb \<and> stack_height ctx' = Suc h
    \<and> (\<forall>i \<le> h. stack ctx' i = stack ctx i) \<and> status (sp ctx') = INITIAL \<and> dptr (sp ctx') = obj
    \<and> at_work ctx' = at_work ctx \<and> sbf ctx' = sbf ctx"
  using assms
  by (simp add: pushstack_def cont_def Let_def UNPACK_STACK_DEPTH_def)
    (rule exI, rule conjI, rule refl, simp add: upd_sp_def sp_def)

text \<open>The frame of an array at height \<open>h\<close> that waits for element \<open>j\<close> of \<open>n\<close>; likewise for a map.\<close>

definition array_frame :: "parse_context \<Rightarrow> nat \<Rightarrow> place list \<Rightarrow> nat \<Rightarrow> nat \<Rightarrow> bool" where
  "array_frame ctx h p j n \<longleftrightarrow> status (stack ctx h) = PROCESS_ARRAY \<and> dptr (stack ctx h) = p
     \<and> n_pop_obj (stack ctx h) = j \<and> require_len (stack ctx h) = n"

definition map_frame :: "parse_context \<Rightarrow> nat \<Rightarrow> parse_state \<Rightarrow> place list \<Rightarrow> nat \<Rightarrow> nat \<Rightarrow> bool" where
  "map_frame ctx h st p j n \<longleftrightarrow> status (stack ctx h) = st \<and> dptr (stack ctx h) = p
     \<and> n_pop_obj (stack ctx h) = j \<and> require_len (stack ctx h) = n"

lemma frames_cong:
  "stack ctx' h = stack ctx h \<Longrightarrow> array_frame ctx' h p j n = array_frame ctx h p j n"
  "stack ctx' h = stack ctx h \<Longrightarrow> map_frame ctx' h st p j n = map_frame ctx h st p j n"
  by (simp_all add: array_frame_def map_frame_def)

text \<open>After element \<open>j\<close> the array's frame asks for the next one or is done.\<close>

lemma array_next:
  assumes "array_frame ctx h p j n" and "stack_height ctx = h" and "Suc h < 16" and "Suc j < n"
  shows "\<exists>ctx'. run st mok f2d ctx pb = run st mok f2d ctx' pb \<and> stack_height ctx' = Suc h
    \<and> (\<forall>i < h. stack ctx' i = stack ctx i) \<and> array_frame ctx' h p (Suc j) n
    \<and> status (sp ctx') = INITIAL \<and> dptr (sp ctx') = p @ [Elem (Suc j)]
    \<and> at_work ctx' = at_work ctx \<and> sbf ctx' = sbf ctx"
proof -
  let ?c = "upd_sp (\<lambda>f. f\<lparr>n_pop_obj := n_pop_obj f + 1\<rparr>) ctx"
  have f: "array_frame ?c h p (Suc j) n"
    using assms(1,2) by (simp add: array_frame_def upd_sp_def sp_def)
  have "run st mok f2d ctx pb = cont st mok f2d (unpack_array ctx pb)"
    using assms(1-3) by (intro step_array) (auto simp: array_frame_def sp_def)
  also have "unpack_array ctx pb = pushstack (p @ [Elem (Suc j)]) ?c pb"
    using assms(1,2,4) by (simp add: unpack_array_def Let_def) (simp add: array_frame_def sp_def)
  finally have l: "run st mok f2d ctx pb = cont st mok f2d (pushstack (p @ [Elem (Suc j)]) ?c pb)" .
  from push_to [of ?c h st mok f2d "p @ [Elem (Suc j)]" pb] assms(2,3) obtain c' where
    c': "cont st mok f2d (pushstack (p @ [Elem (Suc j)]) ?c pb) = run st mok f2d c' pb" "stack_height c' = Suc h"
    "\<forall>i \<le> h. stack c' i = stack ?c i" "status (sp c') = INITIAL" "dptr (sp c') = p @ [Elem (Suc j)]"
    "at_work c' = at_work ?c" "sbf c' = sbf ?c" by auto
  have "\<forall>i < h. stack c' i = stack ctx i" using c'(3) assms(2) by simp
  with l c' f frames_cong(1) [of c' h ?c] show ?thesis by auto
qed

lemma array_done:
  assumes "array_frame ctx h p j n" and "stack_height ctx = h" and "h < 16" and "\<not> Suc j < n"
  shows "\<exists>ctx'. run st mok f2d ctx pb = cont st mok f2d (popstack ctx' pb) \<and> stack_height ctx' = h
    \<and> (\<forall>i < h. stack ctx' i = stack ctx i) \<and> at_work ctx' = at_work ctx \<and> sbf ctx' = sbf ctx"
proof -
  have "run st mok f2d ctx pb = cont st mok f2d (unpack_array ctx pb)"
    using assms(1-3) by (intro step_array) (auto simp: array_frame_def sp_def)
  also have "unpack_array ctx pb = popstack (upd_sp (\<lambda>f. f\<lparr>n_pop_obj := n_pop_obj f + 1\<rparr>) ctx) pb"
    using assms(1,2,4) by (simp add: unpack_array_def Let_def) (simp add: array_frame_def sp_def)
  finally show ?thesis
    using assms(2) by (intro exI [of _ "upd_sp (\<lambda>f. f\<lparr>n_pop_obj := n_pop_obj f + 1\<rparr>) ctx"]) auto
qed

lemma map_to_val:
  assumes "map_frame ctx h PROCESS_MAP p j n" and "stack_height ctx = h" and "Suc h < 16"
  shows "\<exists>ctx'. run st mok f2d ctx pb = run st mok f2d ctx' pb \<and> stack_height ctx' = Suc h
    \<and> (\<forall>i < h. stack ctx' i = stack ctx i) \<and> map_frame ctx' h PROCESS_MAP_VAL p j n
    \<and> status (sp ctx') = INITIAL \<and> dptr (sp ctx') = p @ [Val j]
    \<and> at_work ctx' = at_work ctx \<and> sbf ctx' = sbf ctx"
proof -
  let ?c = "upd_sp (\<lambda>f. f\<lparr>status := PROCESS_MAP_VAL\<rparr>) ctx"
  have f: "map_frame ?c h PROCESS_MAP_VAL p j n"
    using assms(1,2) by (simp add: map_frame_def upd_sp_def sp_def)
  have "run st mok f2d ctx pb = cont st mok f2d (unpack_map ctx pb)"
    using assms(1-3) by (intro step_map) (auto simp: map_frame_def sp_def)
  also have "unpack_map ctx pb = pushstack (p @ [Val j]) ?c pb"
    using assms(1,2) by (simp add: unpack_map_def Let_def) (simp add: map_frame_def sp_def)
  finally have l: "run st mok f2d ctx pb = cont st mok f2d (pushstack (p @ [Val j]) ?c pb)" .
  from push_to [of ?c h st mok f2d "p @ [Val j]" pb] assms(2,3) obtain c' where
    c': "cont st mok f2d (pushstack (p @ [Val j]) ?c pb) = run st mok f2d c' pb" "stack_height c' = Suc h"
    "\<forall>i \<le> h. stack c' i = stack ?c i" "status (sp c') = INITIAL" "dptr (sp c') = p @ [Val j]"
    "at_work c' = at_work ?c" "sbf c' = sbf ?c" by auto
  have "\<forall>i < h. stack c' i = stack ctx i" using c'(3) assms(2) by simp
  with l c' f frames_cong(2) [of c' h ?c] show ?thesis by auto
qed

lemma map_next:
  assumes "map_frame ctx h PROCESS_MAP_VAL p j n" and "stack_height ctx = h" and "Suc h < 16" and "Suc j < n"
  shows "\<exists>ctx'. run st mok f2d ctx pb = run st mok f2d ctx' pb \<and> stack_height ctx' = Suc h
    \<and> (\<forall>i < h. stack ctx' i = stack ctx i) \<and> map_frame ctx' h PROCESS_MAP p (Suc j) n
    \<and> status (sp ctx') = INITIAL \<and> dptr (sp ctx') = p @ [Key (Suc j)]
    \<and> at_work ctx' = at_work ctx \<and> sbf ctx' = sbf ctx"
proof -
  let ?c = "upd_sp (\<lambda>f. f\<lparr>status := PROCESS_MAP\<rparr>) (upd_sp (\<lambda>f. f\<lparr>n_pop_obj := n_pop_obj f + 1\<rparr>) ctx)"
  have f: "map_frame ?c h PROCESS_MAP p (Suc j) n"
    using assms(1,2) by (simp add: map_frame_def upd_sp_def sp_def)
  have "run st mok f2d ctx pb = cont st mok f2d (unpack_map_val ctx pb)"
    using assms(1-3) by (intro step_map_val) (auto simp: map_frame_def sp_def)
  also have "unpack_map_val ctx pb = pushstack (p @ [Key (Suc j)]) ?c pb"
    using assms(1,2,4) by (simp add: unpack_map_val_def Let_def) (simp add: map_frame_def sp_def)
  finally have l: "run st mok f2d ctx pb = cont st mok f2d (pushstack (p @ [Key (Suc j)]) ?c pb)" .
  from push_to [of ?c h st mok f2d "p @ [Key (Suc j)]" pb] assms(2,3) obtain c' where
    c': "cont st mok f2d (pushstack (p @ [Key (Suc j)]) ?c pb) = run st mok f2d c' pb" "stack_height c' = Suc h"
    "\<forall>i \<le> h. stack c' i = stack ?c i" "status (sp c') = INITIAL" "dptr (sp c') = p @ [Key (Suc j)]"
    "at_work c' = at_work ?c" "sbf c' = sbf ?c" by auto
  have "\<forall>i < h. stack c' i = stack ctx i" using c'(3) assms(2) by simp
  with l c' f frames_cong(2) [of c' h ?c] show ?thesis by auto
qed

lemma map_done:
  assumes "map_frame ctx h PROCESS_MAP_VAL p j n" and "stack_height ctx = h" and "h < 16" and "\<not> Suc j < n"
  shows "\<exists>ctx'. run st mok f2d ctx pb = cont st mok f2d (popstack ctx' pb) \<and> stack_height ctx' = h
    \<and> (\<forall>i < h. stack ctx' i = stack ctx i) \<and> at_work ctx' = at_work ctx \<and> sbf ctx' = sbf ctx"
proof -
  have "run st mok f2d ctx pb = cont st mok f2d (unpack_map_val ctx pb)"
    using assms(1-3) by (intro step_map_val) (auto simp: map_frame_def sp_def)
  also have "unpack_map_val ctx pb = popstack (upd_sp (\<lambda>f. f\<lparr>n_pop_obj := n_pop_obj f + 1\<rparr>) ctx) pb"
    using assms(1,2,4) by (simp add: unpack_map_val_def Let_def) (simp add: map_frame_def sp_def)
  finally show ?thesis
    using assms(2) by (intro exI [of _ "upd_sp (\<lambda>f. f\<lparr>n_pop_obj := n_pop_obj f + 1\<rparr>) ctx"]) auto
qed

section \<open>Containers\<close>

text \<open>
  What the induction over messages needs to know of the elements: read one after the other into
  the frame of their container, they leave it filled.
\<close>

definition reads_elems :: "bool \<Rightarrow> (nat \<Rightarrow> bool) \<Rightarrow> (U32 \<Rightarrow> U64) \<Rightarrow> msg list \<Rightarrow> bool" where
  "reads_elems st mok f2d ms \<longleftrightarrow> (\<forall>ctx pb rest p j xs h.
     ms \<noteq> [] \<and> stack_height ctx = Suc h \<and> Suc h + depths ms < 16 \<and> status (sp ctx) = INITIAL
     \<and> sbf ctx \<noteq> None \<and> dptr (sp ctx) = p @ [Elem j] \<and> array_frame ctx h p j (j + length ms)
     \<and> fetch p (at_work ctx) = Some (ArrayD xs) \<and> length xs = j + length ms
     \<and> in_order pb \<and> unread pb = encs ms @ rest \<longrightarrow>
     finishes st mok f2d (run st mok f2d ctx pb) ctx h
       (put p (ArrayD (take j xs @ decs f2d ms)) (at_work ctx)) rest)"

definition reads_pairs :: "bool \<Rightarrow> (nat \<Rightarrow> bool) \<Rightarrow> (U32 \<Rightarrow> U64) \<Rightarrow> (msg \<times> msg) list \<Rightarrow> bool" where
  "reads_pairs st mok f2d ms \<longleftrightarrow> (\<forall>ctx pb rest p j xs h.
     ms \<noteq> [] \<and> stack_height ctx = Suc h \<and> Suc h + depth_pairs ms < 16 \<and> status (sp ctx) = INITIAL
     \<and> sbf ctx \<noteq> None \<and> dptr (sp ctx) = p @ [Key j] \<and> map_frame ctx h PROCESS_MAP p j (j + length ms)
     \<and> fetch p (at_work ctx) = Some (MapD xs) \<and> length xs = j + length ms
     \<and> in_order pb \<and> unread pb = enc_pairs ms @ rest \<longrightarrow>
     finishes st mok f2d (run st mok f2d ctx pb) ctx h
       (put p (MapD (take j xs @ dec_pairs f2d ms)) (at_work ctx)) rest)"

definition reads :: "bool \<Rightarrow> (nat \<Rightarrow> bool) \<Rightarrow> (U32 \<Rightarrow> U64) \<Rightarrow> msg \<Rightarrow> bool" where
  "reads st mok f2d m \<longleftrightarrow> (\<forall>ctx pb rest.
     ready ctx \<and> stack_height ctx + depth m < 16 \<and> in_order pb \<and> unread pb = enc m @ rest \<longrightarrow>
     finishes st mok f2d (run st mok f2d ctx pb) ctx (stack_height ctx)
       (put (dptr (sp ctx)) (dec f2d m) (at_work ctx)) rest)"

lemma readsD:
  assumes "reads st mok f2d m" and "ready ctx" and "stack_height ctx = h" and "h + depth m < 16"
    and "in_order pb" and "unread pb = enc m @ rest" and "put (dptr (sp ctx)) (dec f2d m) (at_work ctx) = t"
  shows "finishes st mok f2d (run st mok f2d ctx pb) ctx h t rest"
  using assms unfolding reads_def by blast

lemma reads_elemsD:
  assumes "reads_elems st mok f2d ms" and "ms \<noteq> []" and "stack_height ctx = Suc h" and "Suc h + depths ms < 16"
    and "status (sp ctx) = INITIAL" and "sbf ctx \<noteq> None" and "dptr (sp ctx) = p @ [Elem j]"
    and "array_frame ctx h p j (j + length ms)" and "fetch p (at_work ctx) = Some (ArrayD xs)"
    and "length xs = j + length ms" and "in_order pb" and "unread pb = encs ms @ rest"
  shows "finishes st mok f2d (run st mok f2d ctx pb) ctx h
    (put p (ArrayD (take j xs @ decs f2d ms)) (at_work ctx)) rest"
  using assms unfolding reads_elems_def by blast

lemma reads_pairsD:
  assumes "reads_pairs st mok f2d ms" and "ms \<noteq> []" and "stack_height ctx = Suc h" and "Suc h + depth_pairs ms < 16"
    and "status (sp ctx) = INITIAL" and "sbf ctx \<noteq> None" and "dptr (sp ctx) = p @ [Key j]"
    and "map_frame ctx h PROCESS_MAP p j (j + length ms)" and "fetch p (at_work ctx) = Some (MapD xs)"
    and "length xs = j + length ms" and "in_order pb" and "unread pb = enc_pairs ms @ rest"
  shows "finishes st mok f2d (run st mok f2d ctx pb) ctx h
    (put p (MapD (take j xs @ dec_pairs f2d ms)) (at_work ctx)) rest"
  using assms unfolding reads_pairs_def by blast

lemma finishes_below:
  assumes "finishes st mok f2d r ctx' h t rest" and "\<forall>i < h. stack ctx' i = stack ctx i"
  shows "finishes st mok f2d r ctx h t rest"
  using assms by (auto simp: finishes_def)

lemma reads_elems_Cons:
  assumes x: "reads st mok f2d x" and ms: "reads_elems st mok f2d ms"
  shows "reads_elems st mok f2d (x # ms)"
  unfolding reads_elems_def
proof (intro allI impI, elim conjE)
  fix ctx pb rest p j xs h
  assume h: "stack_height ctx = Suc h" "Suc h + depths (x # ms) < 16"
    and init: "status (sp ctx) = INITIAL" "sbf ctx \<noteq> None" "dptr (sp ctx) = p @ [Elem j]"
    and frame: "array_frame ctx h p j (j + length (x # ms))"
    and arr: "fetch p (at_work ctx) = Some (ArrayD xs)" "length xs = j + length (x # ms)"
    and pb: "in_order pb" "unread pb = encs (x # ms) @ rest"
  let ?xs = "xs[j := dec f2d x]" and ?n = "j + length (x # ms)"
  have "ready ctx" "Suc h + depth x < 16"
    using h init arr by (simp_all add: ready_def fetch_append)
  moreover have "put (dptr (sp ctx)) (dec f2d x) (at_work ctx) = put p (ArrayD ?xs) (at_work ctx)"
    using put_append [OF arr(1)] init(3) by simp
  ultimately have "finishes st mok f2d (run st mok f2d ctx pb) ctx (Suc h)
      (put p (ArrayD ?xs) (at_work ctx)) (encs ms @ rest)"
    using readsD [OF x _ h(1) _ pb(1)] pb(2) by simp
  from pop_to [OF this] obtain c1 pb1 where c1: "run st mok f2d ctx pb = run st mok f2d c1 pb1"
    "stack_height c1 = h" "\<forall>i \<le> h. stack c1 i = stack ctx i" "at_work c1 = put p (ArrayD ?xs) (at_work ctx)"
    "sbf c1 \<noteq> None" "in_order pb1" "unread pb1 = encs ms @ rest"
    by blast
  have frame1: "array_frame c1 h p j ?n" using frame c1(3) frames_cong(1) by blast
  show "finishes st mok f2d (run st mok f2d ctx pb) ctx h
      (put p (ArrayD (take j xs @ decs f2d (x # ms))) (at_work ctx)) rest"
  proof (cases "ms = []")
    case True
    then have all: "take j xs @ decs f2d (x # ms) = ?xs"
      using arr(2) by (simp add: upd_conv_take_nth_drop)
    have "h < 16" "\<not> Suc j < ?n" using h(2) True by simp_all
    from array_done [OF frame1 c1(2) this] obtain c2 where
      "run st mok f2d c1 pb1 = cont st mok f2d (popstack c2 pb1)" "stack_height c2 = h"
      "\<forall>i < h. stack c2 i = stack c1 i" "at_work c2 = at_work c1" "sbf c2 = sbf c1" by blast
    with c1 all True show ?thesis by (intro finishesI [of _ _ _ _ c2 pb1]) auto
  next
    case False
    then have "Suc j < ?n" "Suc h < 16" using h(2) by simp_all
    from array_next [OF frame1 c1(2) this(2,1)] obtain c2 where
      c2: "run st mok f2d c1 pb1 = run st mok f2d c2 pb1" "stack_height c2 = Suc h"
      "\<forall>i < h. stack c2 i = stack c1 i" "array_frame c2 h p (Suc j) ?n"
      "status (sp c2) = INITIAL" "dptr (sp c2) = p @ [Elem (Suc j)]" "at_work c2 = at_work c1" "sbf c2 = sbf c1"
      by blast
    have "fetch p (at_work c2) = Some (ArrayD ?xs)" using c1(4) c2(7) fetch_put [OF arr(1)] by simp
    then have "finishes st mok f2d (run st mok f2d c2 pb1) c2 h
        (put p (ArrayD (take (Suc j) ?xs @ decs f2d ms)) (at_work c2)) rest"
      using h(2) c2(4) c1(5) arr(2)
      by (intro reads_elemsD [OF ms False c2(2) _ c2(5) _ c2(6) _ _ _ c1(6,7)]) (simp_all add: c2(8))
    moreover have "take (Suc j) ?xs @ decs f2d ms = take j xs @ decs f2d (x # ms)"
      using arr(2) by (simp add: take_Suc_conv_app_nth)
    ultimately have "finishes st mok f2d (run st mok f2d c2 pb1) c2 h
        (put p (ArrayD (take j xs @ decs f2d (x # ms))) (at_work ctx)) rest"
      using c1(4) c2(7) put_put [OF arr(1)] by simp
    then have "finishes st mok f2d (run st mok f2d ctx pb) c2 h
        (put p (ArrayD (take j xs @ decs f2d (x # ms))) (at_work ctx)) rest"
      by (simp only: c1(1) c2(1))
    then show ?thesis using c1(3) c2(3) by (elim finishes_below) simp
  qed
qed

lemma reads_pairs_Cons:
  assumes k: "reads st mok f2d k" and v: "reads st mok f2d v" and ms: "reads_pairs st mok f2d ms"
  shows "reads_pairs st mok f2d ((k, v) # ms)"
  unfolding reads_pairs_def
proof (intro allI impI, elim conjE)
  fix ctx pb rest p j xs h
  assume h: "stack_height ctx = Suc h" "Suc h + depth_pairs ((k, v) # ms) < 16"
    and init: "status (sp ctx) = INITIAL" "sbf ctx \<noteq> None" "dptr (sp ctx) = p @ [Key j]"
    and frame: "map_frame ctx h PROCESS_MAP p j (j + length ((k, v) # ms))"
    and arr: "fetch p (at_work ctx) = Some (MapD xs)" "length xs = j + length ((k, v) # ms)"
    and pb: "in_order pb" "unread pb = enc_pairs ((k, v) # ms) @ rest"
  let ?dk = "dec f2d k" and ?dv = "dec f2d v" and ?n = "j + length ((k, v) # ms)"
  let ?xk = "xs[j := (?dk, snd (xs ! j))]" and ?xs = "xs[j := (?dk, ?dv)]"
  have "ready ctx" "Suc h + depth k < 16"
    using h init arr by (simp_all add: ready_def fetch_append)
  moreover have "put (dptr (sp ctx)) ?dk (at_work ctx) = put p (MapD ?xk) (at_work ctx)"
    using put_append [OF arr(1)] init(3) by simp
  ultimately have "finishes st mok f2d (run st mok f2d ctx pb) ctx (Suc h)
      (put p (MapD ?xk) (at_work ctx)) (enc v @ enc_pairs ms @ rest)"
    using readsD [OF k _ h(1) _ pb(1)] pb(2) by simp
  from pop_to [OF this] obtain c1 pb1 where c1: "run st mok f2d ctx pb = run st mok f2d c1 pb1"
    "stack_height c1 = h" "\<forall>i \<le> h. stack c1 i = stack ctx i" "at_work c1 = put p (MapD ?xk) (at_work ctx)"
    "sbf c1 \<noteq> None" "in_order pb1" "unread pb1 = enc v @ enc_pairs ms @ rest"
    by blast
  have frame1: "map_frame c1 h PROCESS_MAP p j ?n" using frame c1(3) frames_cong(2) by blast
  have "Suc h < 16" using h(2) by simp
  from map_to_val [OF frame1 c1(2) this] obtain c2 where
    c2: "run st mok f2d c1 pb1 = run st mok f2d c2 pb1" "stack_height c2 = Suc h"
    "\<forall>i < h. stack c2 i = stack c1 i" "map_frame c2 h PROCESS_MAP_VAL p j ?n"
    "status (sp c2) = INITIAL" "dptr (sp c2) = p @ [Val j]" "at_work c2 = at_work c1" "sbf c2 = sbf c1"
    by blast
  have arr2: "fetch p (at_work c2) = Some (MapD ?xk)" using c1(4) c2(7) fetch_put [OF arr(1)] by simp
  have "ready c2" "Suc h + depth v < 16"
    using h(2) c1(5) c2 arr2 arr(2) by (simp_all add: ready_def fetch_append)
  moreover have "put (dptr (sp c2)) ?dv (at_work c2) = put p (MapD ?xs) (at_work ctx)"
    using put_append [OF arr2, of "[Val j]" ?dv] c2(6,7) c1(4) put_put [OF arr(1)] arr(2) by simp
  ultimately have "finishes st mok f2d (run st mok f2d c2 pb1) c2 (Suc h)
      (put p (MapD ?xs) (at_work ctx)) (enc_pairs ms @ rest)"
    using readsD [OF v _ c2(2) _ c1(6,7)] by blast
  from pop_to [OF this] obtain c3 pb3 where c3: "run st mok f2d c2 pb1 = run st mok f2d c3 pb3"
    "stack_height c3 = h" "\<forall>i \<le> h. stack c3 i = stack c2 i" "at_work c3 = put p (MapD ?xs) (at_work ctx)"
    "sbf c3 \<noteq> None" "in_order pb3" "unread pb3 = enc_pairs ms @ rest"
    by blast
  have frame3: "map_frame c3 h PROCESS_MAP_VAL p j ?n" using c2(4) c3(3) frames_cong(2) by blast
  have below3: "\<forall>i < h. stack c3 i = stack ctx i" using c1(3) c2(3) c3(3) by simp
  have start: "run st mok f2d ctx pb = run st mok f2d c3 pb3" using c1(1) c2(1) c3(1) by simp
  show "finishes st mok f2d (run st mok f2d ctx pb) ctx h
      (put p (MapD (take j xs @ dec_pairs f2d ((k, v) # ms))) (at_work ctx)) rest"
  proof (cases "ms = []")
    case True
    then have all: "take j xs @ dec_pairs f2d ((k, v) # ms) = ?xs"
      using arr(2) by (simp add: upd_conv_take_nth_drop)
    have "h < 16" "\<not> Suc j < ?n" using h(2) True by simp_all
    from map_done [OF frame3 c3(2) this] obtain c4 where
      "run st mok f2d c3 pb3 = cont st mok f2d (popstack c4 pb3)" "stack_height c4 = h"
      "\<forall>i < h. stack c4 i = stack c3 i" "at_work c4 = at_work c3" "sbf c4 = sbf c3" by blast
    with c3 start below3 all True show ?thesis by (intro finishesI [of _ _ _ _ c4 pb3]) auto
  next
    case False
    then have "Suc j < ?n" "Suc h < 16" using h(2) by simp_all
    from map_next [OF frame3 c3(2) this(2,1)] obtain c4 where
      c4: "run st mok f2d c3 pb3 = run st mok f2d c4 pb3" "stack_height c4 = Suc h"
      "\<forall>i < h. stack c4 i = stack c3 i" "map_frame c4 h PROCESS_MAP p (Suc j) ?n"
      "status (sp c4) = INITIAL" "dptr (sp c4) = p @ [Key (Suc j)]" "at_work c4 = at_work c3" "sbf c4 = sbf c3"
      by blast
    have "fetch p (at_work c4) = Some (MapD ?xs)" using c3(4) c4(7) fetch_put [OF arr(1)] by simp
    then have "finishes st mok f2d (run st mok f2d c4 pb3) c4 h
        (put p (MapD (take (Suc j) ?xs @ dec_pairs f2d ms)) (at_work c4)) rest"
      using h(2) c4(4) c3(5) arr(2)
      by (intro reads_pairsD [OF ms False c4(2) _ c4(5) _ c4(6) _ _ _ c3(6,7)]) (simp_all add: c4(8))
    moreover have "take (Suc j) ?xs @ dec_pairs f2d ms = take j xs @ dec_pairs f2d ((k, v) # ms)"
      using arr(2) by (simp add: take_Suc_conv_app_nth)
    ultimately have "finishes st mok f2d (run st mok f2d c4 pb3) c4 h
        (put p (MapD (take j xs @ dec_pairs f2d ((k, v) # ms))) (at_work ctx)) rest"
      using c3(4) c4(7) put_put [OF arr(1)] by simp
    then have "finishes st mok f2d (run st mok f2d ctx pb) c4 h
        (put p (MapD (take j xs @ dec_pairs f2d ((k, v) # ms))) (at_work ctx)) rest"
      by (simp only: start c4(1))
    then show ?thesis using below3 c4(3) by (elim finishes_below) simp
  qed
qed

section \<open>Headers\<close>

text \<open>What a header leaves in the top frame; everything else of the context is as before.\<close>

definition headed :: "parse_context \<Rightarrow> parse_context \<Rightarrow> nat \<Rightarrow> data_kind \<Rightarrow> bool" where
  "headed ctx ctx' l ty \<longleftrightarrow> stack_height ctx' = stack_height ctx \<and> (\<forall>i < stack_height ctx. stack ctx' i = stack ctx i)
     \<and> require_len (sp ctx') = l \<and> require_type (sp ctx') = ty \<and> dptr (sp ctx') = dptr (sp ctx)
     \<and> at_work ctx' = at_work ctx \<and> sbf ctx' = sbf ctx"

lemma length_header:
  assumes "ready ctx" and "in_order pb" and "unread pb = b # bs @ rest" and "l < 2 ^ 31"
    and "bs = be16 (of_nat l) \<and> l < 2 ^ 16 \<or> bs = be32 (of_nat l)"
    and "\<And>pb. unpack_tag mok b ctx pb
      = keepstack (upd_sp (\<lambda>f. f\<lparr>status := PROCESS_LENGTH, require_len := length bs, require_type := ty\<rparr>) ctx) pb"
  shows "\<exists>ctx' pb'. run st mok f2d ctx pb = cont st mok f2d (length_check mok ctx' pb')
    \<and> headed ctx ctx' l ty \<and> in_order pb' \<and> unread pb' = rest"
proof -
  have "bs = be16 (of_nat l) \<and> l < 2 ^ 16 \<or> bs = be32 (of_nat l) \<and> l < 2 ^ 32" using assms(4,5) by auto
  from read_length [OF assms(1-3) this assms(6), of st f2d] obtain pb' ps where
    "run st mok f2d ctx pb
      = cont st mok f2d (length_check mok (upd_sp (\<lambda>f. f\<lparr>status := ps, require_len := l, require_type := ty\<rparr>) ctx) pb')"
    "in_order pb'" "unread pb' = rest" by blast
  then show ?thesis
    by (intro exI [of _ "upd_sp (\<lambda>f. f\<lparr>status := ps, require_len := l, require_type := ty\<rparr>) ctx"] exI [of _ pb'])
      (simp add: headed_def)
qed

lemma short_header:
  assumes "ready ctx" and "in_order pb" and "unread pb = b # rest"
    and "\<And>pb. unpack_tag mok b ctx pb = length_check mok (upd_sp (\<lambda>f. f\<lparr>require_len := l, require_type := ty\<rparr>) ctx) pb"
  shows "\<exists>ctx' pb'. run st mok f2d ctx pb = cont st mok f2d (length_check mok ctx' pb')
    \<and> headed ctx ctx' l ty \<and> in_order pb' \<and> unread pb' = rest"
proof -
  from read_tag [OF assms(1-3), of st mok f2d] obtain pb' where
    "run st mok f2d ctx pb
      = cont st mok f2d (length_check mok (upd_sp (\<lambda>f. f\<lparr>require_len := l, require_type := ty\<rparr>) ctx) pb')"
    "in_order pb'" "unread pb' = rest" by (auto simp: assms(4))
  then show ?thesis
    by (intro exI [of _ "upd_sp (\<lambda>f. f\<lparr>require_len := l, require_type := ty\<rparr>) ctx"] exI [of _ pb'])
      (simp add: headed_def)
qed

lemma array_header:
  assumes "ready ctx" and "in_order pb" and "unread pb = enc_array_len l @ rest" and "l < 2 ^ 31"
  shows "\<exists>ctx' pb'. run st mok f2d ctx pb = cont st mok f2d (length_check mok ctx' pb')
    \<and> headed ctx ctx' l ARRAY \<and> in_order pb' \<and> unread pb' = rest"
proof -
  consider "l \<le> 15" | "15 < l" "l \<le> 65535" | "65535 < l" by linarith
  then show ?thesis
  proof cases
    case 1
    with assms(3) short_tags(2) show ?thesis
      by (intro short_header [OF assms(1,2), where b = "FIXARRAY_MASK OR of_nat l"]) (simp_all add: enc_array_len_def)
  next
    case 2
    with assms(3) show ?thesis
      by (intro length_header [OF assms(1,2) _ assms(4), where b = ARRAY16 and bs = "be16 (of_nat l)"])
        (simp_all add: enc_array_len_def table_tags)
  next
    case 3
    with assms(3) show ?thesis
      by (intro length_header [OF assms(1,2) _ assms(4), where b = ARRAY32 and bs = "be32 (of_nat l)"])
        (simp_all add: enc_array_len_def table_tags)
  qed
qed

lemma map_header:
  assumes "ready ctx" and "in_order pb" and "unread pb = enc_map_len l @ rest" and "l < 2 ^ 31"
  shows "\<exists>ctx' pb'. run st mok f2d ctx pb = cont st mok f2d (length_check mok ctx' pb')
    \<and> headed ctx ctx' l MAP \<and> in_order pb' \<and> unread pb' = rest"
proof -
  consider "l \<le> 15" | "15 < l" "l \<le> 65535" | "65535 < l" by linarith
  then show ?thesis
  proof cases
    case 1
    with assms(3) short_tags(3) show ?thesis
      by (intro short_header [OF assms(1,2), where b = "FIXMAP_MASK OR of_nat l"]) (simp_all add: enc_map_len_def)
  next
    case 2
    with assms(3) show ?thesis
      by (intro length_header [OF assms(1,2) _ assms(4), where b = MAP16 and bs = "be16 (of_nat l)"])
        (simp_all add: enc_map_len_def table_tags)
  next
    case 3
    with assms(3) show ?thesis
      by (intro length_header [OF assms(1,2) _ assms(4), where b = MAP32 and bs = "be32 (of_nat l)"])
        (simp_all add: enc_map_len_def table_tags)
  qed
qed

lemma raw_header:
  assumes "ready ctx" and "in_order pb" and "unread pb = enc_raw_len l @ rest" and "l < 2 ^ 31"
  shows "\<exists>ctx' pb'. run st mok f2d ctx pb = run st mok f2d ctx' pb'
    \<and> status (sp ctx') = PROCESS_DATA \<and> headed ctx ctx' l BLOB \<and> in_order pb' \<and> unread pb' = rest"
proof (cases "l \<le> 31")
  case True
  let ?c = "upd_sp (\<lambda>f. f\<lparr>require_len := l, status := PROCESS_DATA, require_type := BLOB\<rparr>) ctx"
  have "unread pb = (FIXRAW_MASK OR of_nat l) # rest" using True assms(3) by (simp add: enc_raw_len_def)
  from read_tag [OF assms(1,2) this, of st mok f2d] obtain pb' where
    "run st mok f2d ctx pb = cont st mok f2d (unpack_tag mok (FIXRAW_MASK OR of_nat l) ctx pb')"
    "in_order pb'" "unread pb' = rest" by blast
  moreover have "unpack_tag mok (FIXRAW_MASK OR of_nat l) ctx pb' = keepstack ?c pb'" for pb'
    using short_tags(1) [OF True] .
  ultimately show ?thesis
    by (intro exI [of _ ?c] exI [of _ pb']) (simp add: headed_def keepstack_def cont_def)
next
  case False
  have "\<exists>ctx' pb'. run st mok f2d ctx pb = cont st mok f2d (length_check mok ctx' pb')
    \<and> headed ctx ctx' l BLOB \<and> in_order pb' \<and> unread pb' = rest"
  proof (cases "l \<le> 65535")
    case True
    with False assms(3) show ?thesis
      by (intro length_header [OF assms(1,2) _ assms(4), where b = RAW16 and bs = "be16 (of_nat l)"])
        (simp_all add: enc_raw_len_def table_tags)
  next
    case big: False
    with False assms(3) show ?thesis
      by (intro length_header [OF assms(1,2) _ assms(4), where b = RAW32 and bs = "be32 (of_nat l)"])
        (simp_all add: enc_raw_len_def table_tags)
  qed
  then obtain c pb' where c: "run st mok f2d ctx pb = cont st mok f2d (length_check mok c pb')"
    "headed ctx c l BLOB" "in_order pb'" "unread pb' = rest" by blast
  have "length_check mok c pb' = keepstack (upd_sp (\<lambda>f. f\<lparr>status := PROCESS_DATA\<rparr>) c) pb'"
    using c(2) by (simp add: length_check_def headed_def)
  with c show ?thesis
    by (intro exI [of _ "upd_sp (\<lambda>f. f\<lparr>status := PROCESS_DATA\<rparr>) c"] exI [of _ pb'])
      (simp add: headed_def keepstack_def cont_def)
qed

section \<open>Every message is read back\<close>

text \<open>Behind the header of a container with its elements to come.\<close>

lemma container_ok:
  assumes "\<forall>n. mok n" and "sbf ctx \<noteq> None" and "l < 2 ^ 31"
  shows "\<exists>ar. init_array mok l ctx = Some (Inr (), set_d (ArrayD (replicate l Uninit)) (ctx\<lparr>sbf := Some ar\<rparr>))"
    and "\<exists>ar. init_map mok l ctx = Some (Inr (), set_d (MapD (replicate l (Uninit, Uninit))) (ctx\<lparr>sbf := Some ar\<rparr>))"
proof -
  have "l * 24 \<le> 2 ^ 63" "l * 48 \<le> 2 ^ 63" using assms(3) by auto
  with container_total [OF assms(1,2)] show
    "\<exists>ar. init_array mok l ctx = Some (Inr (), set_d (ArrayD (replicate l Uninit)) (ctx\<lparr>sbf := Some ar\<rparr>))"
    "\<exists>ar. init_map mok l ctx = Some (Inr (), set_d (MapD (replicate l (Uninit, Uninit))) (ctx\<lparr>sbf := Some ar\<rparr>))"
    by (simp_all add: init_array_def init_map_def)
qed

lemma reads_array:
  assumes mok: "\<forall>n. mok n" and ms: "reads_elems st mok f2d ms"
  shows "reads st mok f2d (PArray ms)"
  unfolding reads_def
proof (intro allI impI, elim conjE)
  fix ctx pb rest
  assume rdy: "ready ctx" and dep: "stack_height ctx + depth (PArray ms) < 16" and ord: "in_order pb"
    and inp: "unread pb = enc (PArray ms) @ rest"
  let ?h = "stack_height ctx" and ?l = "length ms" and ?p = "dptr (sp ctx)"
  have "?l \<le> length (unread pb)" unfolding inp using length_encs [of ms] by simp
  then have l: "?l < 2 ^ 31" using ord by (auto simp: in_order_def)
  have "unread pb = enc_array_len ?l @ (encs ms @ rest)" using inp by simp
  from array_header [OF rdy ord this l] obtain c pb1 where
    c: "run st mok f2d ctx pb = cont st mok f2d (length_check mok c pb1)" "headed ctx c ?l ARRAY"
    "in_order pb1" "unread pb1 = encs ms @ rest" by blast
  have "sbf c \<noteq> None" using c(2) rdy by (simp add: headed_def ready_def)
  from container_ok(1) [OF mok this l] obtain ar where
    i: "init_array mok ?l c = Some (Inr (), set_d (ArrayD (replicate ?l Uninit)) (c\<lparr>sbf := Some ar\<rparr>))" by blast
  let ?c = "set_d (ArrayD (replicate ?l Uninit)) (c\<lparr>sbf := Some ar\<rparr>)"
  have c': "stack_height ?c = ?h" "\<forall>i < ?h. stack ?c i = stack ctx i" "dptr (sp ?c) = ?p"
    "at_work ?c = put ?p (ArrayD (replicate ?l Uninit)) (at_work ctx)" "sbf ?c \<noteq> None"
    using c(2) by (simp_all add: headed_def)
  show "finishes st mok f2d (run st mok f2d ctx pb) ctx ?h (put ?p (dec f2d (PArray ms)) (at_work ctx)) rest"
  proof (cases "ms = []")
    case True
    with c(2) i have "length_check mok c pb1 = popstack ?c pb1"
      by (simp add: length_check_def headed_def)
    with c c' True show ?thesis by (intro finishesI [of _ _ _ _ ?c pb1]) auto
  next
    case False
    let ?d = "upd_sp (\<lambda>f. f\<lparr>status := PROCESS_ARRAY, n_pop_obj := 0\<rparr>) ?c"
    have "length_check mok c pb1 = pushstack (?p @ [Elem 0]) ?d pb1"
      using c(2) i c'(3) False by (simp add: length_check_def headed_def Let_def)
    moreover have "Suc ?h < 16" using dep False by simp
    moreover have "stack_height ?d = ?h" using c'(1) by simp
    ultimately obtain e where e: "run st mok f2d ctx pb = run st mok f2d e pb1" "stack_height e = Suc ?h"
      "\<forall>i \<le> ?h. stack e i = stack ?d i" "status (sp e) = INITIAL" "dptr (sp e) = ?p @ [Elem 0]"
      "at_work e = at_work ?d" "sbf e = sbf ?d"
      using push_to [of ?d ?h st mok f2d "?p @ [Elem 0]" pb1] c(1) by auto
    have "require_len (stack c ?h) = ?l" "stack_height c = ?h"
      using c(2) unfolding headed_def sp_def by metis+
    then have f: "array_frame e ?h ?p 0 (0 + ?l)"
      using e(3) c'(1,3) by (simp add: array_frame_def upd_sp_def sp_def)
    have at: "at_work e = put ?p (ArrayD (replicate ?l Uninit)) (at_work ctx)" using e(6) c'(4) by simp
    obtain u where u: "fetch ?p (at_work ctx) = Some u" using rdy by (auto simp: ready_def)
    have "finishes st mok f2d (run st mok f2d e pb1) e ?h
        (put ?p (ArrayD (take 0 (replicate ?l Uninit) @ decs f2d ms)) (at_work e)) rest"
      using dep False e(7) c'(5) fetch_put [OF u]
      by (intro reads_elemsD [OF ms False e(2) _ e(4) _ e(5) f _ _ c(3,4)]) (simp_all add: at)
    then have "finishes st mok f2d (run st mok f2d ctx pb) e ?h
        (put ?p (dec f2d (PArray ms)) (at_work ctx)) rest"
      unfolding e(1) at put_put [OF u] by simp
    then show ?thesis using e(3) c'(1,2) by (elim finishes_below) (simp add: upd_sp_def)
  qed
qed

lemma reads_map:
  assumes mok: "\<forall>n. mok n" and ms: "reads_pairs st mok f2d ms"
  shows "reads st mok f2d (PMap ms)"
  unfolding reads_def
proof (intro allI impI, elim conjE)
  fix ctx pb rest
  assume rdy: "ready ctx" and dep: "stack_height ctx + depth (PMap ms) < 16" and ord: "in_order pb"
    and inp: "unread pb = enc (PMap ms) @ rest"
  let ?h = "stack_height ctx" and ?l = "length ms" and ?p = "dptr (sp ctx)"
  have "?l \<le> length (unread pb)" unfolding inp using length_enc_pairs [of ms] by simp
  then have l: "?l < 2 ^ 31" using ord by (auto simp: in_order_def)
  have "unread pb = enc_map_len ?l @ (enc_pairs ms @ rest)" using inp by simp
  from map_header [OF rdy ord this l] obtain c pb1 where
    c: "run st mok f2d ctx pb = cont st mok f2d (length_check mok c pb1)" "headed ctx c ?l MAP"
    "in_order pb1" "unread pb1 = enc_pairs ms @ rest" by blast
  have "sbf c \<noteq> None" using c(2) rdy by (simp add: headed_def ready_def)
  from container_ok(2) [OF mok this l] obtain ar where
    i: "init_map mok ?l c = Some (Inr (), set_d (MapD (replicate ?l (Uninit, Uninit))) (c\<lparr>sbf := Some ar\<rparr>))" by blast
  let ?c = "set_d (MapD (replicate ?l (Uninit, Uninit))) (c\<lparr>sbf := Some ar\<rparr>)"
  have c': "stack_height ?c = ?h" "\<forall>i < ?h. stack ?c i = stack ctx i" "dptr (sp ?c) = ?p"
    "at_work ?c = put ?p (MapD (replicate ?l (Uninit, Uninit))) (at_work ctx)" "sbf ?c \<noteq> None"
    using c(2) by (simp_all add: headed_def)
  show "finishes st mok f2d (run st mok f2d ctx pb) ctx ?h (put ?p (dec f2d (PMap ms)) (at_work ctx)) rest"
  proof (cases "ms = []")
    case True
    with c(2) i have "length_check mok c pb1 = popstack ?c pb1"
      by (simp add: length_check_def headed_def)
    with c c' True show ?thesis by (intro finishesI [of _ _ _ _ ?c pb1]) auto
  next
    case False
    let ?d = "upd_sp (\<lambda>f. f\<lparr>status := PROCESS_MAP, n_pop_obj := 0\<rparr>) ?c"
    have "length_check mok c pb1 = pushstack (?p @ [Key 0]) ?d pb1"
      using c(2) i c'(3) False by (simp add: length_check_def headed_def Let_def)
    moreover have "Suc ?h < 16" using dep False by simp
    moreover have "stack_height ?d = ?h" using c'(1) by simp
    ultimately obtain e where e: "run st mok f2d ctx pb = run st mok f2d e pb1" "stack_height e = Suc ?h"
      "\<forall>i \<le> ?h. stack e i = stack ?d i" "status (sp e) = INITIAL" "dptr (sp e) = ?p @ [Key 0]"
      "at_work e = at_work ?d" "sbf e = sbf ?d"
      using push_to [of ?d ?h st mok f2d "?p @ [Key 0]" pb1] c(1) by auto
    have "require_len (stack c ?h) = ?l" "stack_height c = ?h"
      using c(2) unfolding headed_def sp_def by metis+
    then have f: "map_frame e ?h PROCESS_MAP ?p 0 (0 + ?l)"
      using e(3) c'(1,3) by (simp add: map_frame_def upd_sp_def sp_def)
    have at: "at_work e = put ?p (MapD (replicate ?l (Uninit, Uninit))) (at_work ctx)" using e(6) c'(4) by simp
    obtain u where u: "fetch ?p (at_work ctx) = Some u" using rdy by (auto simp: ready_def)
    have "finishes st mok f2d (run st mok f2d e pb1) e ?h
        (put ?p (MapD (take 0 (replicate ?l (Uninit, Uninit)) @ dec_pairs f2d ms)) (at_work e)) rest"
      using dep False e(7) c'(5) fetch_put [OF u]
      by (intro reads_pairsD [OF ms False e(2) _ e(4) _ e(5) f _ _ c(3,4)]) (simp_all add: at)
    then have "finishes st mok f2d (run st mok f2d ctx pb) e ?h
        (put ?p (dec f2d (PMap ms)) (at_work ctx)) rest"
      unfolding e(1) at put_put [OF u] by simp
    then show ?thesis using e(3) c'(1,2) by (elim finishes_below) (simp add: upd_sp_def)
  qed
qed

lemma reads_raw: "reads st mok f2d (PRaw b)"
  unfolding reads_def
proof (intro allI impI, elim conjE)
  fix ctx pb rest
  assume rdy: "ready ctx" and ord: "in_order pb" and inp: "unread pb = enc (PRaw b) @ rest"
  have "length b \<le> length (unread pb)" unfolding inp by simp
  then have "length b < 2 ^ 31" using ord by (auto simp: in_order_def)
  moreover have "unread pb = enc_raw_len (length b) @ (b @ rest)" using inp by simp
  ultimately obtain c pb1 where c: "run st mok f2d ctx pb = run st mok f2d c pb1"
    "status (sp c) = PROCESS_DATA" "headed ctx c (length b) BLOB" "in_order pb1" "unread pb1 = b @ rest"
    using raw_header [OF rdy ord] by blast
  have len: "length b \<le> length (unread pb1)" unfolding c(5) by simp
  have "run st mok f2d c pb1 = cont st mok f2d (unpack_data f2d c pb1)"
    using c(2,3) rdy by (intro step_data) (simp_all add: headed_def ready_def)
  also have "unpack_data f2d c pb1 = popstack (set_d (BlobD b) c) (parsed (length b) pb1)"
    using c(3) len unread_bytes [OF len] c(4,5)
    by (simp add: unpack_data_def Let_def headed_def fits_iff del: length_unread)
  finally show "finishes st mok f2d (run st mok f2d ctx pb) ctx (stack_height ctx)
      (put (dptr (sp ctx)) (dec f2d (PRaw b)) (at_work ctx)) rest"
    using c rdy unread_parsed [OF c(4) len]
    by (intro finishesI [of _ _ _ _ "set_d (BlobD b) c" "parsed (length b) pb1"])
      (auto simp: headed_def ready_def)
qed

lemma reads_scalar:
  assumes "\<And>ctx pb. unpack_tag mok b ctx pb = popstack (set_d (dec f2d m) ctx) pb" and "enc m = [b]"
  shows "reads st mok f2d m"
  unfolding reads_def using read_scalar [OF _ _ _ assms(1)] assms(2) by auto

lemma reads_data:
  assumes "\<And>ctx pb. unpack_tag mok b ctx pb
      = keepstack (upd_sp (\<lambda>f. f\<lparr>status := PROCESS_DATA, require_len := length bs, require_type := ty\<rparr>) ctx) pb"
    and "enc m = b # bs"
    and "\<And>ctx pb. sp ctx = sp ctx\<lparr>status := PROCESS_DATA, require_len := length bs, require_type := ty\<rparr> \<Longrightarrow>
       fits (length bs) pb \<Longrightarrow> bytes_at (m_mem pb) (m_ofs pb) (length bs) = bs \<Longrightarrow>
       unpack_data f2d ctx pb = popstack (set_d (dec f2d m) ctx) (parsed (length bs) pb)"
    and "ty = DOUBLE \<Longrightarrow> length bs \<in> {4, 8}"
  shows "reads st mok f2d m"
  unfolding reads_def
proof (intro allI impI, elim conjE)
  fix ctx pb rest
  assume "ready ctx" "in_order pb" "unread pb = enc m @ rest"
  then show "finishes st mok f2d (run st mok f2d ctx pb) ctx (stack_height ctx)
      (put (dptr (sp ctx)) (dec f2d m) (at_work ctx)) rest"
    using assms(2) by (intro read_data [OF _ _ _ assms(1,3,4)]) simp_all
qed

lemma data_double:
  assumes "sp ctx = sp ctx\<lparr>status := PROCESS_DATA, require_len := n, require_type := DOUBLE\<rparr>" and "fits n pb"
  shows "n = 4 \<Longrightarrow> bytes_at (m_mem pb) (m_ofs pb) 4 = be32 c \<Longrightarrow>
      unpack_data f2d ctx pb = popstack (set_d (DoubleD (f2d c)) ctx) (parsed 4 pb)"
    and "n = 8 \<Longrightarrow> bytes_at (m_mem pb) (m_ofs pb) 8 = be64 e \<Longrightarrow>
      unpack_data f2d ctx pb = popstack (set_d (DoubleD e) ctx) (parsed 8 pb)"
proof -
  have r: "require_len (sp ctx) = n" "require_type (sp ctx) = DOUBLE"
    by (subst assms(1), simp)+
  note u = unpack_data_def Let_def r assms(2)
  show "n = 4 \<Longrightarrow> bytes_at (m_mem pb) (m_ofs pb) 4 = be32 c \<Longrightarrow>
      unpack_data f2d ctx pb = popstack (set_d (DoubleD (f2d c)) ctx) (parsed 4 pb)"
    using assms(2) by (simp add: u cast_U32_def ntohl_GET_32)
  show "n = 8 \<Longrightarrow> bytes_at (m_mem pb) (m_ofs pb) 8 = be64 e \<Longrightarrow>
      unpack_data f2d ctx pb = popstack (set_d (DoubleD e) ctx) (parsed 8 pb)"
    using assms(2) by (simp add: u cast_U64_def ntohll_GET_64)
qed

lemma bool_tags:
  "unpack_tag mok NIL_VALUE ctx pb = popstack (set_d NilD ctx) pb"
  "unpack_tag mok BOOLEAN_FALSE ctx pb = popstack (set_d (BoolD False) ctx) pb"
  "unpack_tag mok BOOLEAN_TRUE ctx pb = popstack (set_d (BoolD True) ctx) pb"
  by (simp_all add: unpack_tag_def tag_defs)

lemma reads_msg:
  assumes "\<forall>n. mok n"
  shows "reads st mok f2d m" and "reads_elems st mok f2d ms" and "reads_pairs st mok f2d kvs"
proof (induction m and ms and kvs rule: pack_msg_pack_msgs_pack_pairs.induct)
  case 1
  show ?case by (rule reads_scalar [where b = NIL_VALUE]) (simp_all add: bool_tags)
next
  case (2 b)
  show ?case by (rule reads_scalar [where b = "if b then BOOLEAN_TRUE else BOOLEAN_FALSE"]) (simp_all add: bool_tags)
next
  case (3 u)
  show ?case
  proof (cases "u \<le> P_FIXNUM_END")
    case True
    then show ?thesis by (intro reads_scalar [where b = u]) (simp_all add: small_fixnum)
  next
    case False
    then show ?thesis
      by (intro reads_data [where b = UINT_8BIT and bs = "[u]" and ty = INTEGER]) (auto simp: table_tags data_integer)
  qed
next
  case (4 u)
  show ?case
  proof (cases "u \<ge> N_FIXNUM_START")
    case True
    then show ?thesis by (intro reads_scalar [where b = u]) (simp_all add: negative_fixnum)
  next
    case False
    then show ?thesis
      by (intro reads_data [where b = SINT_8BIT and bs = "[u]" and ty = INTEGER]) (auto simp: table_tags data_integer)
  qed
next
  case (5 u)
  show ?case
    by (intro reads_data [where b = UINT_16BIT and bs = "be16 u" and ty = INTEGER]) (auto simp: table_tags data_integer)
next
  case (6 u)
  show ?case
    by (intro reads_data [where b = SINT_16BIT and bs = "be16 u" and ty = INTEGER]) (auto simp: table_tags data_integer)
next
  case (7 u)
  show ?case
    by (intro reads_data [where b = UINT_32BIT and bs = "be32 u" and ty = INTEGER]) (auto simp: table_tags data_integer)
next
  case (8 u)
  show ?case
    by (intro reads_data [where b = SINT_32BIT and bs = "be32 u" and ty = INTEGER]) (auto simp: table_tags data_integer)
next
  case (9 u)
  show ?case
    by (intro reads_data [where b = UINT_64BIT and bs = "be64 u" and ty = INTEGER]) (auto simp: table_tags data_integer)
next
  case (10 u)
  show ?case
    by (intro reads_data [where b = SINT_64BIT and bs = "be64 u" and ty = INTEGER]) (auto simp: table_tags data_integer)
next
  case (11 f)
  show ?case
    by (intro reads_data [where b = FLOAT and bs = "be32 f" and ty = DOUBLE]) (auto simp: table_tags data_double)
next
  case (12 e)
  show ?case
    by (intro reads_data [where b = DOUBLE_TYPE and bs = "be64 e" and ty = DOUBLE]) (auto simp: table_tags data_double)
next
  case (13 b)
  show ?case by (rule reads_raw)
next
  case (14 xs)
  then show ?case by (rule reads_array [OF assms])
next
  case (15 kvs)
  then show ?case by (rule reads_map [OF assms])
next
  case 16
  show ?case by (simp add: reads_elems_def)
next
  case (17 x xs)
  then show ?case by (rule reads_elems_Cons)
next
  case 18
  show ?case by (simp add: reads_pairs_def)
next
  case (19 k v kvs)
  then show ?case by (intro reads_pairs_Cons)
qed

end
