(* ===== verification/MpakProps.thy ===== *)
theory MpakProps
  imports Roundtrip
begin

text \<open>
  The properties of the serializer of \<^verbatim>\<open>src/src/serializer/mpak/mpak.h\<close> as a whole: what is packed is
  unpacked, in one piece or in several; the parser returns; what it does beyond its limits.
\<close>

section \<open>A parser between two messages\<close>

definition fresh_parser :: "parse_context \<Rightarrow> bool" where
  "fresh_parser ctx \<longleftrightarrow> stack_height ctx = 0 \<and> status (stack ctx 0) = INITIAL \<and> dptr (stack ctx 0) = []
     \<and> sbf ctx = None"

lemma fresh_mpak_init: "fresh_parser (mpak_init junk)"
  by (simp add: fresh_parser_def mpak_init_def init_context_def Let_def)

text \<open>The pointer of the lowest frame never moves.\<close>

definition base :: "place list \<Rightarrow> outcome \<Rightarrow> bool" where
  "base p x \<longleftrightarrow> (case x of None \<Rightarrow> True | Some (Inl (r, c, b)) \<Rightarrow> dptr (stack c 0) = p
     | Some (Inr (c, b)) \<Rightarrow> dptr (stack c 0) = p)"

lemma base_upd:
  "(\<And>f. dptr (g f) = dptr f) \<Longrightarrow> dptr (stack (upd_sp g c) 0) = dptr (stack c 0)"
  by (simp add: upd_sp_def sp_def)

lemma base_ways:
  assumes "dptr (stack c 0) = p"
  shows "base p (keepstack c b)" "base p (popstack c b)" "base p (pushstack obj c b)" "base p (parse_error c b)"
    "base p (wait_next_buffer c b)" "base p None"
  using assms
  by (simp_all add: base_def keepstack_def popstack_def pushstack_def parse_error_def wait_next_buffer_def
      init_context_def upd_sp_def Let_def)

lemma base_None [simp]: "base p None"
  by (simp add: base_def)

lemma unread_end: "in_order p \<Longrightarrow> pbuf_last p = pbuf_ofs p \<longleftrightarrow> unread p = []"
  by (auto simp: in_order_def code_defs simp flip: length_0_conv)

lemma base_container:
  "init_container mok n v sz c = Some (r, c') \<Longrightarrow> dptr (stack c' 0) = dptr (stack c 0)"
  by (auto simp: init_container_def split: if_splits option.splits sum.splits)

lemma base_length_check:
  assumes "dptr (stack c 0) = p"
  shows "base p (length_check mok c b)"
proof -
  have arr: "dptr (stack c' 0) = p" if "init_array mok n c = Some (r, c')" for n r c'
    using base_container that assms unfolding init_array_def by blast
  have map: "dptr (stack c' 0) = p" if "init_map mok n c = Some (r, c')" for n r c'
    using base_container that assms unfolding init_map_def by blast
  show ?thesis
  proof (cases "require_type (sp c)")
    case ARRAY
    show ?thesis
    proof (cases "init_array mok (require_len (sp c)) c")
      case None
      with ARRAY assms show ?thesis by (simp add: length_check_def base_ways)
    next
      case (Some a)
      obtain r c' where a: "a = (r, c')" by fastforce
      from arr Some a have "dptr (stack c' 0) = p" by blast
      with ARRAY Some a show ?thesis
        by (cases r) (simp_all add: length_check_def base_ways base_upd Let_def)
    qed
  next
    case MAP
    show ?thesis
    proof (cases "init_map mok (require_len (sp c)) c")
      case None
      with MAP assms show ?thesis by (simp add: length_check_def base_ways)
    next
      case (Some a)
      obtain r c' where a: "a = (r, c')" by fastforce
      from map Some a have "dptr (stack c' 0) = p" by blast
      with MAP Some a show ?thesis
        by (cases r) (simp_all add: length_check_def base_ways base_upd Let_def)
    qed
  qed (use assms in \<open>simp_all add: length_check_def base_ways base_upd\<close>)
qed

lemma base_step:
  assumes "dptr (stack c 0) = p"
  shows "base p (unpack_step mok f2d c b)"
proof -
  note w = base_ways base_upd base_length_check assms
  have "base p (unpack_tag mok t c b')" for t b'
    by (simp add: unpack_tag_def w split: prod.splits)
  then have "base p (unpack_initial mok c b)"
    by (simp add: unpack_initial_def w split: prod.splits)
  moreover have "base p (unpack_length mok c b)" by (simp add: unpack_length_def Let_def w)
  moreover have "base p (unpack_data f2d c b)"
    by (simp add: unpack_data_def Let_def w split: data_kind.splits)
  moreover have "base p (unpack_array c b)" by (simp add: unpack_array_def Let_def w)
  moreover have "base p (unpack_map c b)" by (simp add: unpack_map_def Let_def w)
  moreover have "base p (unpack_map_val c b)" by (simp add: unpack_map_val_def Let_def w)
  ultimately show ?thesis by (simp add: unpack_step_def w split: parse_state.splits)
qed

lemma base_loop:
  assumes "unpack_loop mok f2d c b = Some (r, c', b')"
  shows "dptr (stack c' 0) = dptr (stack c 0)"
proof -
  have "case x of (r, c', b') \<Rightarrow> dptr (stack c' 0) = dptr (stack c 0)" if "unpack_loop mok f2d c b = Some x" for x
  proof (rule unpack_loop.raw_induct [where P = "\<lambda>mok f2d c b x. case x of (r, c', b') \<Rightarrow>
        dptr (stack c' 0) = dptr (stack c 0)", OF _ that])
    fix f :: "(nat \<Rightarrow> bool) \<Rightarrow> (U32 \<Rightarrow> U64) \<Rightarrow> parse_context \<Rightarrow> pbuf \<Rightarrow> (unpack_ret \<times> parse_context \<times> pbuf) option"
      and mok f2d c b x
    assume IH: "\<And>mok f2d c b x. f mok f2d c b = Some x \<Longrightarrow> case x of (r, c', b') \<Rightarrow>
        dptr (stack c' 0) = dptr (stack c 0)"
      and eq: "(case unpack_step mok f2d c b of None \<Rightarrow> None | Some (Inl r) \<Rightarrow> Some r
         | Some (Inr (ctx', pb')) \<Rightarrow> f mok f2d ctx' pb') = Some x"
    show "case x of (r, c', b') \<Rightarrow> dptr (stack c' 0) = dptr (stack c 0)"
    proof (cases "unpack_step mok f2d c b")
      case None
      with eq show ?thesis by simp
    next
      case (Some y)
      show ?thesis
      proof (cases y)
        case (Inl z)
        with eq Some base_step [OF refl, of c mok f2d b] show ?thesis by (simp add: base_def)
      next
        case (Inr z)
        obtain c1 b1 where z: "z = (c1, b1)" by fastforce
        with eq Some Inr have "f mok f2d c1 b1 = Some x" by simp
        from IH [OF this] base_step [OF refl, of c mok f2d b] Some Inr z show ?thesis
          by (simp add: base_def)
      qed
    qed
  qed
  with assms show ?thesis by fastforce
qed

lemma reads_all_run:
  assumes "\<forall>n. mok n" and "stack_height ctx = 0" and "status (stack ctx 0) = INITIAL" and "dptr (stack ctx 0) = []"
    and "sbf ctx \<noteq> None" and "depth m < 16" and "in_order pb" and "unread pb = enc m @ rest"
  shows "\<exists>ctx' pb'. run st mok f2d ctx pb
      = Some (if rest = [] then UNPACK_SUCCESS else UNPACK_EXTRA_BYTES, ctx', pb')
    \<and> at_work ctx' = dec f2d m \<and> fresh_parser ctx' \<and> in_order pb' \<and> unread pb' = rest"
proof -
  have "finishes st mok f2d (run st mok f2d ctx pb) ctx 0 (dec f2d m) rest"
    using assms by (intro readsD [OF reads_msg(1)]) (simp_all add: ready_def sp_def)
  then obtain c p where c: "run st mok f2d ctx pb = cont st mok f2d (popstack c p)" "stack_height c = 0"
    "at_work c = dec f2d m" "in_order p" "unread p = rest" by (auto simp: finishes_def)
  have "pbuf_last p = pbuf_ofs p \<longleftrightarrow> rest = []"
    using unread_end [OF c(4)] c(5) by simp
  with c have l: "run st mok f2d ctx pb = Some (if rest = [] then UNPACK_SUCCESS else UNPACK_EXTRA_BYTES,
      init_context (c\<lparr>at_work_sbuf := sbf c\<rparr>), p)"
    by (simp add: popstack_def cont_def)
  from base_loop [OF run_as_loop [OF l]] assms(4) have "fresh_parser (init_context (c\<lparr>at_work_sbuf := sbf c\<rparr>))"
    by (simp add: fresh_parser_def init_context_def)
  moreover have "at_work (init_context (c\<lparr>at_work_sbuf := sbf c\<rparr>)) = dec f2d m"
    using c(3) by (simp add: init_context_def)
  ultimately show ?thesis using l c(4,5) by blast
qed

lemma reads_all:
  assumes "\<forall>n. mok n" and "stack_height ctx = 0" and "status (stack ctx 0) = INITIAL" and "dptr (stack ctx 0) = []"
    and "sbf ctx \<noteq> None" and "depth m < 16" and "in_order pb" and "unread pb = enc m @ rest"
  shows "\<exists>ctx' pb'. unpack_loop mok f2d ctx pb
      = Some (if rest = [] then UNPACK_SUCCESS else UNPACK_EXTRA_BYTES, ctx', pb')
    \<and> at_work ctx' = dec f2d m \<and> fresh_parser ctx' \<and> in_order pb' \<and> unread pb' = rest"
  using reads_all_run [OF assms, of False f2d] by (simp add: unpack_loop_run)

section \<open>The parser returns\<close>

text \<open>
  Every round either reads a byte, or finishes a length or a payload, or moves between frames; the
  weights are chosen so that each of these goes down.
\<close>

fun rank :: "parse_state \<Rightarrow> nat" where
  "rank INITIAL = 0" | "rank PROCESS_LENGTH = 3" | "rank PROCESS_DATA = 2"
| "rank PROCESS_ARRAY = 3" | "rank PROCESS_MAP = 3" | "rank PROCESS_MAP_VAL = 3"

definition work :: "parse_context \<Rightarrow> pbuf \<Rightarrow> nat" where
  "work c b = 8 * length (unread b) + 2 * stack_height c + rank (status (sp c))"

text \<open>
  The frames below the top one wait for an element; the top frame does not want a float of less
  than four bytes, which only the tags \<open>BIG_FLOAT_16\<close> and \<open>BIG_FLOAT_32\<close> ask for.
\<close>

definition tame :: "parse_context \<Rightarrow> bool" where
  "tame c \<longleftrightarrow> stack_height c < 16 \<and> sbf c \<noteq> None
     \<and> (status (sp c) = PROCESS_DATA \<longrightarrow> require_len (sp c) < 2 ^ 32 \<and> (require_type (sp c) = DOUBLE \<longrightarrow> require_len (sp c) \<in> {4, 8}))
     \<and> (status (sp c) = PROCESS_LENGTH \<longrightarrow> require_len (sp c) \<in> {2, 4} \<and> require_type (sp c) \<noteq> DOUBLE)
     \<and> (\<forall>i < stack_height c. status (stack c i) \<in> {PROCESS_ARRAY, PROCESS_MAP, PROCESS_MAP_VAL})"

definition big_float_free :: "pbuf \<Rightarrow> bool" where
  "big_float_free b \<longleftrightarrow> in_order b \<and> 0xd6 \<notin> set (unread b) \<and> 0xd7 \<notin> set (unread b)"

text \<open>A round from less than \<open>n\<close> is harmless: defined, and it goes on with less.\<close>

definition harmless :: "nat \<Rightarrow> outcome \<Rightarrow> bool" where
  "harmless n x \<longleftrightarrow> (case x of None \<Rightarrow> False | Some (Inl r) \<Rightarrow> True
     | Some (Inr (c, b)) \<Rightarrow> tame c \<and> big_float_free b \<and> work c b < n)"

lemma harmless_ends: "harmless n (wait_next_buffer c b)" "harmless n (parse_error c b)"
  by (simp_all add: harmless_def wait_next_buffer_def parse_error_def)

lemma harmless_pop:
  assumes "big_float_free b" and "8 * length (unread b) + 2 * stack_height c + 2 \<le> n"
    and "sbf c \<noteq> None" and "stack_height c < 16"
    and "\<forall>i < stack_height c. status (stack c i) \<in> {PROCESS_ARRAY, PROCESS_MAP, PROCESS_MAP_VAL}"
  shows "harmless n (popstack c b)"
proof (cases "stack_height c")
  case 0
  then show ?thesis by (simp add: harmless_def popstack_def)
next
  case (Suc h)
  with assms(5) have s: "status (stack c h) \<in> {PROCESS_ARRAY, PROCESS_MAP, PROCESS_MAP_VAL}" by simp
  then have "tame (c\<lparr>stack_height := h\<rparr>)"
    using Suc assms(3-5) by (auto simp: tame_def sp_def)
  moreover have "rank (status (stack c h)) = 3" using s by auto
  then have "work (c\<lparr>stack_height := h\<rparr>) b < n" using assms(2) Suc by (simp add: work_def sp_def)
  ultimately show ?thesis using Suc assms(1) by (simp add: harmless_def popstack_def)
qed

lemma harmless_push:
  assumes "big_float_free b" and "8 * length (unread b) + 2 * stack_height c + 3 \<le> n"
    and "sbf c \<noteq> None" and "stack_height c < 16"
    and "\<forall>i \<le> stack_height c. status (stack c i) \<in> {PROCESS_ARRAY, PROCESS_MAP, PROCESS_MAP_VAL}"
  shows "harmless n (pushstack obj c b)"
proof (cases "stack_height c + 1 \<ge> 16")
  case True
  then show ?thesis by (simp add: harmless_def pushstack_def UNPACK_STACK_DEPTH_def Let_def)
next
  case False
  let ?d = "upd_sp (\<lambda>f. f\<lparr>dptr := obj, status := INITIAL\<rparr>) (c\<lparr>stack_height := stack_height c + 1\<rparr>)"
  have "tame ?d" using False assms(3,5) by (simp add: tame_def upd_sp_def sp_def)
  moreover have "work ?d b < n" using assms(2) by (simp add: work_def)
  ultimately show ?thesis
    using False assms(1) by (simp add: harmless_def pushstack_def UNPACK_STACK_DEPTH_def Let_def)
qed

lemma container_defined:
  assumes "sbf c \<noteq> None" and "sz * n \<le> 2 ^ 63"
  shows "\<exists>r ar. init_container mok n v sz c = Some (r, (if r = Inr () then set_d v (c\<lparr>sbf := Some ar\<rparr>) else c\<lparr>sbf := Some ar\<rparr>))"
proof -
  obtain ar where ar: "sbf c = Some ar" using assms(1) by auto
  then have same: "c\<lparr>sbf := Some ar\<rparr> = c" by simp
  show ?thesis
  proof (cases "sz = 0")
    case True
    then show ?thesis
      by (intro exI [of _ "Inr ()"] exI [of _ ar]) (simp add: init_container_def same)
  next
    case False
    have "\<exists>r ar'. sbuf_malloc ok s ar = Some (r, ar')" if "s \<le> 2 ^ 63" for ok s
      using grow_total [of ALLOC_UNIT_SIZE s] that
      by (auto simp: sbuf_malloc_def arena_take_def ALLOC_UNIT_SIZE_def)
    from this [OF assms(2), of "mok (sz * n)"] obtain r ar' where
      "sbuf_malloc (mok (sz * n)) (sz * n) ar = Some (r, ar')" by blast
    with False ar show ?thesis
      by (cases r) (auto simp: init_container_def)
  qed
qed

lemma harmless_length_check:
  assumes b: "big_float_free b" "8 * length (unread b) + 2 * stack_height c + 3 \<le> n"
    and c: "sbf c \<noteq> None" "stack_height c < 16"
      "\<forall>i < stack_height c. status (stack c i) \<in> {PROCESS_ARRAY, PROCESS_MAP, PROCESS_MAP_VAL}"
    and len: "require_len (sp c) < 2 ^ 32" and ty: "require_type (sp c) \<noteq> DOUBLE"
  shows "harmless n (length_check mok c b)"
proof -
  have sizes: "require_len (sp c) * 24 \<le> 2 ^ 63" "require_len (sp c) * 48 \<le> 2 ^ 63" using len by auto
  have empty: "harmless n (popstack (set_d v (c\<lparr>sbf := Some ar\<rparr>)) b)" for v ar
    using b c by (intro harmless_pop) auto
  have elems: "harmless n (pushstack obj (upd_sp (\<lambda>f. f\<lparr>status := st, n_pop_obj := 0\<rparr>) (set_d v (c\<lparr>sbf := Some ar\<rparr>))) b)"
    if "st \<in> {PROCESS_ARRAY, PROCESS_MAP}" for st v ar obj
    using b c that by (intro harmless_push) (auto simp: upd_sp_def)
  show ?thesis
  proof (cases "require_type (sp c)")
    case ARRAY
    from container_defined [OF c(1) sizes(1), of mok "ArrayD (replicate (require_len (sp c)) Uninit)"] obtain r ar where
      "init_array mok (require_len (sp c)) c = Some (r, (if r = Inr ()
        then set_d (ArrayD (replicate (require_len (sp c)) Uninit)) (c\<lparr>sbf := Some ar\<rparr>) else c\<lparr>sbf := Some ar\<rparr>))"
      by (auto simp: init_array_def)
    with ARRAY elems [of PROCESS_ARRAY] empty show ?thesis
      by (cases r) (simp_all add: length_check_def harmless_ends Let_def)
  next
    case MAP
    from container_defined [OF c(1) sizes(2), of mok "MapD (replicate (require_len (sp c)) (Uninit, Uninit))"] obtain r ar where
      "init_map mok (require_len (sp c)) c = Some (r, (if r = Inr ()
        then set_d (MapD (replicate (require_len (sp c)) (Uninit, Uninit))) (c\<lparr>sbf := Some ar\<rparr>) else c\<lparr>sbf := Some ar\<rparr>))"
      by (auto simp: init_map_def)
    with MAP elems [of PROCESS_MAP] empty show ?thesis
      by (cases r) (simp_all add: length_check_def harmless_ends Let_def)
  qed (use assms in \<open>auto simp: length_check_def keepstack_def harmless_def tame_def work_def\<close>)
qed

lemma big_float_free_parsed:
  assumes "big_float_free b" and "n \<le> length (unread b)"
  shows "big_float_free (parsed n b)" and "length (unread (parsed n b)) = length (unread b) - n"
  using unread_parsed [of b n] assms set_drop_subset [of n "unread b"]
  by (auto simp: big_float_free_def simp del: length_unread)

lemma harmless_data:
  assumes "tame c" and "big_float_free b" and "status (sp c) = PROCESS_DATA"
  shows "harmless (work c b) (unpack_data f2d c b)"
proof (cases "fits (require_len (sp c)) b")
  case False
  then show ?thesis by (simp add: unpack_data_def Let_def harmless_ends)
next
  case True
  let ?n = "require_len (sp c)"
  have n: "?n \<le> length (unread b)" using True assms(2) fits_iff by (auto simp: big_float_free_def)
  have pop: "harmless (work c b) (popstack (set_d v c) (parsed k b))" if "?n = k" for v k
    using assms big_float_free_parsed [OF assms(2) n] that
    by (intro harmless_pop) (auto simp: tame_def work_def simp del: length_unread)
  have "fits 4 b" if "require_type (sp c) = DOUBLE" "?n \<noteq> 8"
    using that assms(1,3) True by (simp add: tame_def)
  with True pop show ?thesis
    by (cases "require_type (sp c)") (simp_all add: unpack_data_def Let_def harmless_ends)
qed

lemma harmless_length:
  assumes "tame c" and "big_float_free b" and "status (sp c) = PROCESS_LENGTH"
  shows "harmless (work c b) (unpack_length mok c b)"
proof (cases "fits (require_len (sp c)) b")
  case False
  then show ?thesis by (simp add: unpack_length_def Let_def harmless_ends)
next
  case True
  let ?n = "require_len (sp c)"
  have two: "?n \<in> {2, 4}" and ty: "require_type (sp c) \<noteq> DOUBLE" using assms(1,3) by (auto simp: tame_def)
  have n: "?n \<le> length (unread b)" using True assms(2) fits_iff by (auto simp: big_float_free_def)
  have "unat (cast_U16 b) < 2 ^ LENGTH(16)" "unat (cast_U32 b) < 2 ^ LENGTH(32)" by (rule unsigned_less)+
  then have small: "unat (cast_U16 b) < 2 ^ 32" "unat (cast_U32 b) < 2 ^ 32" by simp_all
  have "harmless (work c b) (length_check mok (upd_sp (\<lambda>f. f\<lparr>require_len := l\<rparr>) c) (parsed ?n b))"
    if "l < 2 ^ 32" for l
    using assms big_float_free_parsed [OF assms(2) n] n two that ty
    by (intro harmless_length_check) (auto simp: tame_def work_def simp del: length_unread)
  with True two small show ?thesis
    by (auto simp: unpack_length_def Let_def)
qed

lemma table_rows:
  fixes t :: U8
  assumes "TABLE_START \<le> t" and "t \<le> TABLE_END" and "t \<noteq> 0xd6" and "t \<noteq> 0xd7"
  shows "\<exists>st l ty. unpack_table ! unat (t AND 0x1f) = (st, l, ty)
     \<and> (st = PROCESS_DATA \<and> l \<le> 8 \<and> (ty = DOUBLE \<longrightarrow> l \<in> {4, 8})
        \<or> st = PROCESS_LENGTH \<and> l \<in> {2, 4} \<and> ty \<noteq> DOUBLE)"
proof -
  have all: "\<forall>k \<in> set [192..<224]. k = 214 \<or> k = 215 \<or>
      (case unpack_table ! unat ((of_nat k :: U8) AND 0x1f) of (st, l, ty) \<Rightarrow>
         st = PROCESS_DATA \<and> l \<le> 8 \<and> (ty = DOUBLE \<longrightarrow> l \<in> {4, 8})
         \<or> st = PROCESS_LENGTH \<and> l \<in> {2, 4} \<and> ty \<noteq> DOUBLE)" by code_simp
  have u: "unat t \<in> set [192..<224]"
    using assms(1,2) unfolding set_upt by (simp add: TABLE_START_def TABLE_END_def word_le_nat_alt)
  have "unat t \<noteq> k" if "of_nat k \<noteq> t" for k using that by (metis of_nat_unat ucast_id)
  from this [of 214] this [of 215] have "unat t \<noteq> 214" "unat t \<noteq> 215" using assms(3,4) by simp_all
  with bspec [OF all u, unfolded of_nat_unat ucast_id] have "case unpack_table ! unat (t AND 0x1f) of (st, l, ty) \<Rightarrow>
         st = PROCESS_DATA \<and> l \<le> 8 \<and> (ty = DOUBLE \<longrightarrow> l \<in> {4, 8})
         \<or> st = PROCESS_LENGTH \<and> l \<in> {2, 4} \<and> ty \<noteq> DOUBLE"
    by (simp only: simp_thms)
  then show ?thesis by (cases "unpack_table ! unat (t AND 0x1f)") (simp only: prod.case, blast)
qed

lemma harmless_tag:
  assumes c: "tame c" "status (sp c) = INITIAL" and b: "big_float_free b"
    and t: "t \<noteq> 0xd6" "t \<noteq> 0xd7" and n: "8 * length (unread b) + 2 * stack_height c + 8 \<le> n"
  shows "harmless n (unpack_tag mok t c b)"
proof -
  have pop: "harmless n (popstack (set_d v c) b)" for v
    using c b n by (intro harmless_pop) (auto simp: tame_def)
  have lc: "harmless n (length_check mok (upd_sp (\<lambda>f. f\<lparr>require_len := l, require_type := ty\<rparr>) c) b)"
    if "l < 2 ^ 32" "ty \<noteq> DOUBLE" for l ty
    using c b n that by (intro harmless_length_check) (auto simp: tame_def)
  have "unat (t AND 0x1f) < 2 ^ LENGTH(8)" "unat (t AND 0x0f) < 2 ^ LENGTH(8)" by (rule unsigned_less)+
  then have small: "unat (t AND 0x1f) < 2 ^ 32" "unat (t AND 0x0f) < 2 ^ 32" by simp_all
  have keep: "harmless n (keepstack (upd_sp g c) b)"
    if "status (g (sp c)) = PROCESS_DATA \<and> require_len (g (sp c)) < 2 ^ 32
          \<and> (require_type (g (sp c)) = DOUBLE \<longrightarrow> require_len (g (sp c)) \<in> {4, 8})
        \<or> status (g (sp c)) = PROCESS_LENGTH \<and> require_len (g (sp c)) \<in> {2, 4} \<and> require_type (g (sp c)) \<noteq> DOUBLE" for g
    using c b n that by (auto simp: harmless_def keepstack_def tame_def work_def)
  have row: "harmless n (case unpack_table ! unat (t AND 0x1f) of (status_to, rlen, rtype) \<Rightarrow>
      keepstack (upd_sp (\<lambda>f. f\<lparr>status := status_to, require_len := rlen, require_type := rtype\<rparr>) c) b)"
    if "TABLE_START \<le> t \<and> t \<le> TABLE_END"
  proof -
    from table_rows [of t] that t obtain st l ty where r: "unpack_table ! unat (t AND 0x1f) = (st, l, ty)"
      "st = PROCESS_DATA \<and> l \<le> 8 \<and> (ty = DOUBLE \<longrightarrow> l \<in> {4, 8})
        \<or> st = PROCESS_LENGTH \<and> l \<in> {2, 4} \<and> ty \<noteq> DOUBLE" by blast
    show ?thesis unfolding r(1) prod.case by (rule keep) (use r(2) in auto)
  qed
  have raw: "harmless n (keepstack (upd_sp (\<lambda>f. f\<lparr>require_len := unat (t AND 0x1f), status := PROCESS_DATA,
      require_type := BLOB\<rparr>) c) b)" by (rule keep) (use small in simp)
  have arr: "harmless n (length_check mok (upd_sp (\<lambda>f. f\<lparr>require_len := unat (t AND 0x0f), require_type := ty\<rparr>) c) b)"
    if "ty \<noteq> DOUBLE" for ty by (rule lc) (use small that in simp_all)
  show ?thesis
  proof (cases "TABLE_START \<le> t \<and> t \<le> TABLE_END")
    case True
    then show ?thesis unfolding unpack_tag_def
      by (simp only: pop raw arr row harmless_ends data_kind.distinct not_False_eq_True simp_thms if_True
          split: if_split)
  next
    case False
    then show ?thesis unfolding unpack_tag_def
      by (simp only: pop raw arr harmless_ends data_kind.distinct not_False_eq_True simp_thms if_False
          split: if_split)
  qed
qed

lemma harmless_step:
  assumes "tame c" and "big_float_free b"
  shows "harmless (work c b) (unpack_step mok f2d c b)"
proof -
  have h: "stack_height c < 16" "\<not> UNPACK_STACK_DEPTH \<le> stack_height c"
    using assms(1) by (simp_all add: tame_def UNPACK_STACK_DEPTH_def)
  have below: "\<forall>i < stack_height c. status (stack c i) \<in> {PROCESS_ARRAY, PROCESS_MAP, PROCESS_MAP_VAL}"
    and s: "sbf c \<noteq> None" using assms(1) by (simp_all add: tame_def)
  have pop: "harmless (work c b) (popstack c' b)"
    if "stack_height c' = stack_height c" "sbf c' = sbf c" "\<forall>i < stack_height c. stack c' i = stack c i"
      "rank (status (sp c)) = 3" for c'
    using that below s h assms(2) by (intro harmless_pop) (auto simp: work_def)
  have push: "harmless (work c b) (pushstack obj c' b)"
    if "stack_height c' = stack_height c" "sbf c' = sbf c" "\<forall>i < stack_height c. stack c' i = stack c i"
      "status (sp c') \<in> {PROCESS_ARRAY, PROCESS_MAP, PROCESS_MAP_VAL}" "rank (status (sp c)) = 3" for c' obj
    using that below s h assms(2)
    by (intro harmless_push) (auto simp: work_def sp_def le_less)
  have if_harmless: "\<lbrakk>harmless m x; harmless m y\<rbrakk> \<Longrightarrow> harmless m (if q then x else y)" for m x y q by simp
  show ?thesis
  proof (cases "status (sp c)")
    case INITIAL
    have "harmless (work c b) (unpack_initial mok c b)"
    proof (cases "pbuf_readable b")
      case False
      then show ?thesis by (simp add: unpack_initial_def harmless_ends)
    next
      case True
      obtain t b' where p: "pbuf_pop b = (t, b')" by fastforce
      from pop_unread [OF True] p have u: "unread b = t # unread b'" by simp
      moreover have "in_order b'" using True assms(2) p by (auto simp: big_float_free_def in_order_def code_defs)
      ultimately have "big_float_free b'" "t \<noteq> 0xd6" "t \<noteq> 0xd7" using assms(2) by (auto simp: big_float_free_def)
      moreover have "8 * length (unread b') + 2 * stack_height c + 8 \<le> work c b"
        unfolding work_def u by simp
      ultimately show ?thesis
        using harmless_tag [OF assms(1) INITIAL] True p by (simp add: unpack_initial_def)
    qed
    with INITIAL h show ?thesis by (simp add: unpack_step_def)
  next
    case PROCESS_LENGTH
    with h harmless_length [OF assms] show ?thesis by (simp add: unpack_step_def)
  next
    case PROCESS_DATA
    with h harmless_data [OF assms] show ?thesis by (simp add: unpack_step_def)
  next
    case PROCESS_ARRAY
    have "harmless (work c b) (unpack_array c b)"
      unfolding unpack_array_def Let_def
      by (rule if_harmless; (rule push pop)) (use PROCESS_ARRAY in simp_all)
    with PROCESS_ARRAY h show ?thesis by (simp add: unpack_step_def)
  next
    case PROCESS_MAP
    have "harmless (work c b) (unpack_map c b)"
      unfolding unpack_map_def Let_def by (rule push) (use PROCESS_MAP in simp_all)
    with PROCESS_MAP h show ?thesis by (simp add: unpack_step_def)
  next
    case PROCESS_MAP_VAL
    have "harmless (work c b) (unpack_map_val c b)"
      unfolding unpack_map_val_def Let_def
      by (rule if_harmless; (rule push pop)) (use PROCESS_MAP_VAL in simp_all)
    with PROCESS_MAP_VAL h show ?thesis by (simp add: unpack_step_def)
  qed
qed

lemma loop_returns: "tame c \<Longrightarrow> big_float_free b \<Longrightarrow> \<exists>r. unpack_loop mok f2d c b = Some r"
proof (induction "work c b" arbitrary: c b rule: less_induct)
  case less
  have s: "harmless (work c b) (unpack_step mok f2d c b)" using harmless_step less.prems .
  show ?case
  proof (cases "unpack_step mok f2d c b")
    case None
    with s show ?thesis by (simp add: harmless_def)
  next
    case (Some x)
    with s less.hyps show ?thesis
      by (cases x) (auto simp: harmless_def unpack_loop.simps [of mok f2d c b])
  qed
qed

section \<open>Whole calls\<close>

lemma malloc_to_256:
  assumes "n \<le> 256"
  shows "\<exists>r ar'. sbuf_malloc ok n ar = Some (r, ar') \<and> (ok \<longrightarrow> (\<exists>ch. r = Inr ch))"
proof -
  obtain z where "grow n ALLOC_UNIT_SIZE = Some z"
    using grow_total [of ALLOC_UNIT_SIZE n] assms by (auto simp: ALLOC_UNIT_SIZE_def)
  then show ?thesis by (cases ok) (auto simp: sbuf_malloc_def arena_take_def)
qed

text \<open>\<open>unpack(pbuf &)\<close> on a counted buffer: the loop runs with an arena, or an allocation has failed.\<close>

lemma mpak_unpack_runs:
  assumes "m_ptr pb = Some a" and "cnt c a = Some n"
  shows "(\<exists>ctx'. mpak_unpack mok f2d ctx pb c = Some (Inl EMALLOC, ctx', pb, c))
    \<or> (\<exists>ar c'. mpak_unpack mok f2d ctx pb c = (case unpack_loop mok f2d (ctx\<lparr>sbf := Some ar\<rparr>) pb of
         None \<Rightarrow> None | Some (r, ctx, pb) \<Rightarrow> Some (Inr r, ctx, pb, c')))"
    (is "?fails \<or> ?runs")
    and "(\<forall>k. mok k) \<Longrightarrow> (\<exists>ar c'. mpak_unpack mok f2d ctx pb c = (case unpack_loop mok f2d (ctx\<lparr>sbf := Some ar\<rparr>) pb of
         None \<Rightarrow> None | Some (r, ctx, pb) \<Rightarrow> Some (Inr r, ctx, pb, c')))"
proof -
  let ?ar = "case sbf ctx of None \<Rightarrow> arena_init | Some ar \<Rightarrow> ar"
  obtain r ar' where m: "sbuf_malloc (mok 16) 16 ?ar = Some (r, ar')" and ok: "mok 16 \<Longrightarrow> \<exists>ch. r = Inr ch"
    using malloc_to_256 [of 16 "mok 16" ?ar] by auto
  have fails: ?fails if "sbf ctx = None \<and> \<not> mok 24" using that by (simp add: mpak_unpack_def)
  have inl: ?fails if "\<not> (sbf ctx = None \<and> \<not> mok 24)" "r = Inl e" for e
    using that m by (intro exI [of _ "ctx\<lparr>sbf := Some ar'\<rparr>"]) (auto simp: mpak_unpack_def sbuf_refer_def)
  have inr: ?runs if "\<not> (sbf ctx = None \<and> \<not> mok 24)" "r = Inr ch" for ch
    using that m assms
    by (intro exI [of _ "ar'\<lparr>m_refs := a # m_refs ar'\<rparr>"] exI [of _ "c\<lparr>cnt := (cnt c)(a \<mapsto> n + 1)\<rparr>"])
      (auto simp: mpak_unpack_def sbuf_refer_def ptr_refer_def)
  show "?fails \<or> ?runs" using fails inl inr by (cases r) blast+
  show ?runs if "\<forall>k. mok k" using inr ok that by blast
qed

lemma unpack_packed:
  assumes "m_ofs pb = m_len pb" and "m_limit pb < 2 ^ 31" and "length (enc m) < pbuf_available pb"
    and "m_ptr pb = Some a" and "cnt c a = Some n" and "depth m < 16" and "fresh_parser ctx"
  shows "\<exists>mpk ctx' pb' c'. pack_msg m (start_pack pb) = (int (length (enc m)), mpk)
    \<and> mpak_unpack (\<lambda>_. True) f2d ctx (m_pbuf mpk) c = Some (Inr UNPACK_SUCCESS, ctx', pb', c')
    \<and> at_work ctx' = dec f2d m \<and> fresh_parser ctx' \<and> unread pb' = []"
proof -
  have ok: "mpak_ok (start_pack pb)" and room: "length (enc m) < buffsize (start_pack pb)"
    using assms(2,3) by (simp_all add: mpak_ok_def start_pack_def code_defs buffsize_def)
  let ?mpk = "emit (enc m) (start_pack pb)" and ?pb = "m_pbuf (emit (enc m) (start_pack pb))"
  have p: "pack_msg m (start_pack pb) = (int (length (enc m)), ?mpk)"
    using packsD [OF packs_pack_msg(1) ok room] curpos_eq [OF mpak_ok_emit [OF ok room]]
    by (simp add: here_def emit_def start_pack_def code_defs)
  have pb: "m_ptr ?pb = Some a" "in_order ?pb"
    using assms(1-4) by (simp_all add: emit_def start_pack_def in_order_def code_defs)
  have "unread ?pb = enc m @ []"
    using assms(1) by (simp add: emit_def start_pack_def unread_def code_defs mem_simps)
  moreover obtain ar c' where run: "mpak_unpack (\<lambda>_. True) f2d ctx ?pb c
      = (case unpack_loop (\<lambda>_. True) f2d (ctx\<lparr>sbf := Some ar\<rparr>) ?pb of
         None \<Rightarrow> None | Some (r, ctx, pb) \<Rightarrow> Some (Inr r, ctx, pb, c'))"
    using mpak_unpack_runs(2) [OF pb(1) assms(5), of "\<lambda>_. True" f2d ctx] by auto
  moreover have "stack_height (ctx\<lparr>sbf := Some ar\<rparr>) = 0" "status (stack (ctx\<lparr>sbf := Some ar\<rparr>) 0) = INITIAL"
    "dptr (stack (ctx\<lparr>sbf := Some ar\<rparr>) 0) = []" "sbf (ctx\<lparr>sbf := Some ar\<rparr>) \<noteq> None"
    using assms(7) by (simp_all add: fresh_parser_def)
  ultimately obtain ctx' pb' where "unpack_loop (\<lambda>_. True) f2d (ctx\<lparr>sbf := Some ar\<rparr>) ?pb = Some (UNPACK_SUCCESS, ctx', pb')"
    "at_work ctx' = dec f2d m" "fresh_parser ctx'" "unread pb' = []"
    using reads_all [of "\<lambda>_. True" "ctx\<lparr>sbf := Some ar\<rparr>" m ?pb "[]" f2d] assms(6) pb(2) by auto
  then show ?thesis using p run by (intro exI conjI) auto
qed

text \<open>One more level of nesting: the header of an array of one element.\<close>

lemma nest:
  assumes mok: "\<forall>n. mok n" and c: "ready ctx" "stack_height ctx = h"
    and p: "in_order pb" "unread pb = 0x91 # bs"
  shows "if Suc h < 16 then \<exists>e pb'. run False mok f2d ctx pb = run False mok f2d e pb' \<and> ready e
           \<and> stack_height e = Suc h \<and> in_order pb' \<and> unread pb' = bs
         else \<exists>e pb'. run False mok f2d ctx pb = Some (UNPACK_PARSE_ERROR, e, pb') \<and> stack_height e = Suc h"
proof -
  have "unread pb = enc_array_len 1 @ bs" using p(2) by (simp add: enc_array_len_def FIXARRAY_MASK_def)
  from array_header [OF c(1) p(1) this, of False mok f2d] obtain c1 pb1 where
    c1: "run False mok f2d ctx pb = cont False mok f2d (length_check mok c1 pb1)" "headed ctx c1 1 ARRAY"
    "in_order pb1" "unread pb1 = bs" by auto
  have "sbf c1 \<noteq> None" using c1(2) c(1) by (simp add: headed_def ready_def)
  from container_ok(1) [OF mok this, of 1] obtain ar where
    i: "init_array mok 1 c1 = Some (Inr (), set_d (ArrayD (replicate 1 Uninit)) (c1\<lparr>sbf := Some ar\<rparr>))" by auto
  let ?c = "set_d (ArrayD (replicate 1 Uninit)) (c1\<lparr>sbf := Some ar\<rparr>)"
  let ?d = "upd_sp (\<lambda>f. f\<lparr>status := PROCESS_ARRAY, n_pop_obj := 0\<rparr>) ?c" and ?p = "dptr (sp ctx)"
  have lc: "length_check mok c1 pb1 = pushstack (?p @ [Elem 0]) ?d pb1"
    using c1(2) i by (simp add: length_check_def headed_def Let_def)
  have h: "stack_height ?d = h" using c1(2) c(2) by (simp add: headed_def)
  obtain u where u: "fetch ?p (at_work ctx) = Some u" using c(1) by (auto simp: ready_def)
  have at: "at_work ?d = put ?p (ArrayD [Uninit]) (at_work ctx)" using c1(2) by (simp add: headed_def)
  show ?thesis
  proof (cases "Suc h < 16")
    case True
    from push_to [OF h True, of False mok f2d "?p @ [Elem 0]" pb1] obtain e where
      e: "run False mok f2d ctx pb = run False mok f2d e pb1" "stack_height e = Suc h" "status (sp e) = INITIAL"
      "dptr (sp e) = ?p @ [Elem 0]" "at_work e = at_work ?d" "sbf e = sbf ?d" using c1(1) lc by auto
    then have "ready e" using True at fetch_put [OF u] by (simp add: ready_def fetch_append)
    with e c1 True show ?thesis by auto
  next
    case False
    with h lc c1(1) show ?thesis by (simp add: pushstack_def Let_def UNPACK_STACK_DEPTH_def cont_def)
  qed
qed

lemma nested_too_deep:
  "\<forall>n. mok n \<Longrightarrow> ready ctx \<Longrightarrow> stack_height ctx + k = 16 \<Longrightarrow> in_order pb \<Longrightarrow> unread pb = replicate k 0x91 @ rest \<Longrightarrow>
     \<exists>e pb'. unpack_loop mok f2d ctx pb = Some (UNPACK_PARSE_ERROR, e, pb') \<and> stack_height e = 16"
proof (induction k arbitrary: ctx pb)
  case 0
  then show ?case by (simp add: ready_def)
next
  case (Suc k)
  have "unread pb = 0x91 # replicate k 0x91 @ rest" using Suc.prems(5) by simp
  note n = nest [OF Suc.prems(1,2) refl Suc.prems(4) this, of f2d, folded unpack_loop_run]
  show ?case
  proof (cases "Suc (stack_height ctx) < 16")
    case True
    with n obtain e pb' where e: "unpack_loop mok f2d ctx pb = unpack_loop mok f2d e pb'" "ready e"
      "stack_height e = Suc (stack_height ctx)" "in_order pb'" "unread pb' = replicate k 0x91 @ rest" by auto
    with Suc.IH [OF Suc.prems(1) e(2) _ e(4,5)] Suc.prems(3) show ?thesis by simp
  next
    case False
    with n Suc.prems(2,3) show ?thesis by (auto simp: ready_def)
  qed
qed

section \<open>Properties\<close>

text \<open>
  C11: A message is read back, and with its meaning exactly when it has no negative integer of the 8-, 16- or 32-bit forms.
  The buffer is counted and has nothing unread, \<open>m\<close> fits into what is available, memory is there, and \<open>m\<close> is nested less than
  the parser's sixteen frames.  What \<open>pack_msg\<close> appends is then parsed in one call: the buffer is consumed, the parser is
  again as at the start, and the result is \<open>dec f2d m\<close>, in which integers of those forms have lost their sign
  (\<^verbatim>\<open>mpak.h:842\<close>).  It is the object that the message stands for in the format, \<open>meaning f2d m\<close>, if and only if
  \<open>signs_kept m\<close>: every integer in it is non-negative, of 64 bits, or in the one-byte negative form.
\<close>

theorem pack_unpack_roundtrip:
  assumes "m_ofs pb = m_len pb" and "m_limit pb < 2 ^ 31" and "length (enc m) < pbuf_available pb"
    and "m_ptr pb = Some a" and "cnt c a = Some n" and "depth m < 16" and "fresh_parser ctx"
  shows "\<exists>mpk ctx' pb' c'. pack_msg m (start_pack pb) = (int (length (enc m)), mpk)
    \<and> mpak_unpack (\<lambda>_. True) f2d ctx (m_pbuf mpk) c = Some (Inr UNPACK_SUCCESS, ctx', pb', c')
    \<and> at_work ctx' = dec f2d m \<and> (at_work ctx' = meaning f2d m \<longleftrightarrow> signs_kept m) \<and> fresh_parser ctx' \<and> unread pb' = []"
  using unpack_packed [OF assms, of f2d] dec_is_meaning [of f2d m] by metis

theorem pack_unpack_roundtrip_witness:
  "\<exists>mpk ctx' pb' c'. pack_msg (PArray [PS8 (- 1), PMap [(PRaw [0x61], PS64 (- 7))]])
      (start_pack \<lparr>m_ptr = Some 0, m_mem = (\<lambda>_. 0), m_len = 0, m_limit = 64, m_ofs = 0\<rparr>) = (14, mpk)
    \<and> mpak_unpack (\<lambda>_. True) (\<lambda>_. 0) (mpak_init (\<lambda>_. undefined)) (m_pbuf mpk) \<lparr>cnt = [0 \<mapsto> 1], fresh = 1\<rparr>
        = Some (Inr UNPACK_SUCCESS, ctx', pb', c')
    \<and> at_work ctx' = ArrayD [IntD (- 1), MapD [(BlobD [0x61], IntD (- 7))]] \<and> fresh_parser ctx' \<and> unread pb' = []"
  using pack_unpack_roundtrip [of "\<lparr>m_ptr = Some 0, m_mem = (\<lambda>_. 0), m_len = 0, m_limit = 64, m_ofs = 0\<rparr>"
      "PArray [PS8 (- 1), PMap [(PRaw [0x61], PS64 (- 7))]]" 0 "\<lparr>cnt = [0 \<mapsto> 1], fresh = 1\<rparr>" 1
      "mpak_init (\<lambda>_. undefined)" "\<lambda>_. 0"] fresh_mpak_init
  by (simp add: code_defs enc_array_len_def enc_map_len_def enc_raw_len_def)

text \<open>
  Signed integers lose their sign on the way.  A negative 16-bit integer is packed as
  \<open>SINT_16BIT\<close> and read back as a non-negative number: the parser widens every integer payload
  through an unsigned type.
\<close>

theorem negative_read_back_positive:
  fixes u :: U16
  assumes "sint u < 0"
    and "m_ofs pb = m_len pb" and "m_limit pb < 2 ^ 31" and "3 < pbuf_available pb"
    and "m_ptr pb = Some a" and "cnt c a = Some n" and "fresh_parser ctx"
  shows "\<exists>mpk ctx' pb' c' v. pack_msg (PS16 u) (start_pack pb) = (3, mpk)
    \<and> mpak_unpack (\<lambda>_. True) f2d ctx (m_pbuf mpk) c = Some (Inr UNPACK_SUCCESS, ctx', pb', c')
    \<and> at_work ctx' = IntD v \<and> 0 \<le> sint v"
proof -
  have "uint u < 2 ^ LENGTH(16)" by (rule unsigned_less)
  then have "0 \<le> sint (ucast u :: U64)"
    by (simp add: sint_uint unsigned_ucast_eq signed_take_bit_int_eq_self_iff signed_take_bit_nonnegative_iff
        take_bit_int_eq_self bit_iff_odd)
  then show ?thesis using unpack_packed [OF assms(2,3) _ assms(5,6) _ assms(7), of "PS16 u" f2d] assms(4) by auto
qed

theorem negative_read_back_positive_witness:
  "\<exists>mpk ctx' pb' c' v. pack_msg (PS16 (- 1)) (start_pack \<lparr>m_ptr = Some 0, m_mem = (\<lambda>_. 0), m_len = 0, m_limit = 64, m_ofs = 0\<rparr>) = (3, mpk)
    \<and> mpak_unpack (\<lambda>_. True) (\<lambda>_. 0) (mpak_init (\<lambda>_. undefined)) (m_pbuf mpk) \<lparr>cnt = [0 \<mapsto> 1], fresh = 1\<rparr>
        = Some (Inr UNPACK_SUCCESS, ctx', pb', c')
    \<and> at_work ctx' = IntD v \<and> 0 \<le> sint v"
  using negative_read_back_positive [of "- 1" "\<lparr>m_ptr = Some 0, m_mem = (\<lambda>_. 0), m_len = 0, m_limit = 64, m_ofs = 0\<rparr>"
      0 "\<lparr>cnt = [0 \<mapsto> 1], fresh = 1\<rparr>" 1 "mpak_init (\<lambda>_. undefined)" "\<lambda>_. 0"] fresh_mpak_init
  by (simp add: code_defs)

text \<open>
  C12: The parser can be fed in pieces.  If it has stopped in the middle of its input, then with
  \<open>rest\<close> appended to what it left it goes on exactly as if all of the input had been there from the
  start: same result, same context, same bytes left.
\<close>

theorem unpack_resumes:
  assumes "unpack_loop mok f2d ctx p = Some (UNPACK_CONTINUE, ctx', p')"
    and "ahead rest p whole" and "ahead rest p' later"
  shows "map_option (\<lambda>(ret, c, b). (ret, c, unread b)) (unpack_loop mok f2d ctx whole)
    = map_option (\<lambda>(ret, c, b). (ret, c, unread b)) (unpack_loop mok f2d ctx' later)"
proof -
  from run_ahead [OF loop_as_run [OF assms(1)] assms(2)] obtain q where q: "ahead rest p' q"
    "run False mok f2d ctx whole = run False mok f2d ctx' q" by blast
  from q(1) assms(3) have two: "ahead [] q later" "ahead [] later q" by (auto simp: ahead_def)
  show ?thesis
  proof (cases "run False mok f2d ctx' q")
    case None
    with run_same [OF _ two(2), of False mok f2d ctx'] have "run False mok f2d ctx' later = None"
      by (cases "run False mok f2d ctx' later") auto
    with None q(2) show ?thesis by (simp add: unpack_loop_run)
  next
    case (Some x)
    with run_same [OF _ two(1), of False mok f2d ctx'] q(2) show ?thesis by (cases x) (fastforce simp: ahead_def unpack_loop_run)
  qed
qed

theorem unpack_resumes_witness:
  "map_option (\<lambda>(ret, c, b). (ret, c, unread b)) (unpack_loop (\<lambda>_. True) (\<lambda>_. 0) (mpak_init (\<lambda>_. undefined))
      \<lparr>m_ptr = Some 0, m_mem = (\<lambda>_. 0xc0), m_len = 1, m_limit = 64, m_ofs = 0\<rparr>)
   = map_option (\<lambda>(ret, c, b). (ret, c, unread b)) (unpack_loop (\<lambda>_. True) (\<lambda>_. 0) (mpak_init (\<lambda>_. undefined))
      \<lparr>m_ptr = Some 0, m_mem = (\<lambda>_. 0xc0), m_len = 6, m_limit = 64, m_ofs = 5\<rparr>)"
proof (rule unpack_resumes)
  let ?p = "\<lparr>m_ptr = Some 0, m_mem = (\<lambda>_. 0xc0), m_len = 0, m_limit = 64, m_ofs = 0\<rparr> :: pbuf"
  show "unpack_loop (\<lambda>_. True) (\<lambda>_. 0) (mpak_init (\<lambda>_. undefined)) ?p
      = Some (UNPACK_CONTINUE, mpak_init (\<lambda>_. undefined), ?p)"
    using fresh_mpak_init [of "\<lambda>_. undefined"]
    by (simp add: unpack_loop.simps unpack_step_def UNPACK_STACK_DEPTH_def fresh_parser_def sp_def unpack_initial_def
        code_defs wait_next_buffer_def)
qed (simp_all add: ahead_def in_order_def unread_def bytes_at_def)

text \<open>
  C13: \<open>unpack\<close> returns.  Between two messages, whatever has arrived (but for the two tags of big
  floats, whose payload may be too short) and whichever allocations fail, the call ends without
  touching a byte behind the buffer.
\<close>

theorem unpack_returns:
  assumes "fresh_parser ctx" and "in_order pb" and "0xd6 \<notin> set (unread pb)" and "0xd7 \<notin> set (unread pb)"
    and "m_ptr pb = Some a" and "cnt c a = Some n"
  shows "\<exists>r. mpak_unpack mok f2d ctx pb c = Some r"
proof -
  have "tame (ctx\<lparr>sbf := Some ar\<rparr>)" for ar using assms(1) by (simp add: tame_def fresh_parser_def sp_def)
  moreover have "big_float_free pb" using assms(2-4) by (simp add: big_float_free_def)
  ultimately have l: "\<exists>r. unpack_loop mok f2d (ctx\<lparr>sbf := Some ar\<rparr>) pb = Some r" for ar by (rule loop_returns)
  from mpak_unpack_runs(1) [OF assms(5,6), of mok f2d ctx] show ?thesis
  proof (elim disjE exE)
    fix ar c' assume "mpak_unpack mok f2d ctx pb c = (case unpack_loop mok f2d (ctx\<lparr>sbf := Some ar\<rparr>) pb of
         None \<Rightarrow> None | Some (r, ctx, pb) \<Rightarrow> Some (Inr r, ctx, pb, c'))"
    moreover obtain r where "unpack_loop mok f2d (ctx\<lparr>sbf := Some ar\<rparr>) pb = Some r" using l by blast
    ultimately show ?thesis by (cases r) simp
  qed blast
qed

theorem unpack_returns_witness:
  "\<exists>r. mpak_unpack (\<lambda>n. n < 20) (\<lambda>_. 0) (mpak_init (\<lambda>_. undefined))
      \<lparr>m_ptr = Some 0, m_mem = (\<lambda>_. 0x93), m_len = 3, m_limit = 64, m_ofs = 0\<rparr> \<lparr>cnt = [0 \<mapsto> 1], fresh = 1\<rparr> = Some r"
  by (rule unpack_returns [where a = 0 and n = 1])
    (simp_all add: fresh_mpak_init in_order_def unread_def bytes_at_def image_constant_conv)

text \<open>
  Nesting beyond the stack is refused, and must not be survived.  Sixteen nested arrays are
  a parse error; the context it leaves has a height of sixteen, and the next call reads a frame
  beyond the stack.
\<close>

theorem nesting_refused:
  assumes "fresh_parser ctx" and "in_order pb" and "unread pb = replicate 16 0x91 @ rest"
    and "m_ptr pb = Some a" and "cnt c a = Some n"
  shows "\<exists>ctx' pb' c'. mpak_unpack (\<lambda>_. True) f2d ctx pb c = Some (Inr UNPACK_PARSE_ERROR, ctx', pb', c')
    \<and> (\<forall>q. unpack_loop (\<lambda>_. True) f2d ctx' q = None)"
proof -
  obtain ar c' where run: "mpak_unpack (\<lambda>_. True) f2d ctx pb c
      = (case unpack_loop (\<lambda>_. True) f2d (ctx\<lparr>sbf := Some ar\<rparr>) pb of
         None \<Rightarrow> None | Some (r, ctx, pb) \<Rightarrow> Some (Inr r, ctx, pb, c'))"
    using mpak_unpack_runs(2) [OF assms(4,5), of "\<lambda>_. True" f2d ctx] by auto
  have "ready (ctx\<lparr>sbf := Some ar\<rparr>)" using assms(1) by (simp add: fresh_parser_def ready_def sp_def)
  then obtain e pb' where "unpack_loop (\<lambda>_. True) f2d (ctx\<lparr>sbf := Some ar\<rparr>) pb = Some (UNPACK_PARSE_ERROR, e, pb')"
    "stack_height e = 16"
    using nested_too_deep [of "\<lambda>_. True" "ctx\<lparr>sbf := Some ar\<rparr>" 16 pb rest f2d] assms(1-3)
    by (auto simp: fresh_parser_def)
  moreover from this(2) have "unpack_loop (\<lambda>_. True) f2d e q = None" for q
    by (simp add: unpack_loop.simps [of _ f2d e] unpack_step_def UNPACK_STACK_DEPTH_def)
  ultimately show ?thesis using run by auto
qed

theorem nesting_refused_witness:
  "\<exists>ctx' pb' c'. mpak_unpack (\<lambda>_. True) (\<lambda>_. 0) (mpak_init (\<lambda>_. undefined))
      \<lparr>m_ptr = Some 0, m_mem = (\<lambda>_. 0x91), m_len = 16, m_limit = 64, m_ofs = 0\<rparr> \<lparr>cnt = [0 \<mapsto> 1], fresh = 1\<rparr>
      = Some (Inr UNPACK_PARSE_ERROR, ctx', pb', c')
    \<and> (\<forall>q. unpack_loop (\<lambda>_. True) (\<lambda>_. 0) ctx' q = None)"
  by (rule nesting_refused [where a = 0 and n = 1 and rest = "[]"])
    (simp_all add: fresh_mpak_init in_order_def unread_def bytes_at_def map_replicate_const)

text \<open>
  A big float of less than four bytes is read beyond the bytes received: the payload is
  taken as a \<open>float\<close> whatever its length.
\<close>

theorem big_float_reads_beyond:
  assumes "fresh_parser ctx" and "in_order pb" and "unread pb = [0xd6, 0, 1, b]"
  shows "unpack_loop mok f2d (ctx\<lparr>sbf := Some ar\<rparr>) pb = None"
proof -
  let ?ctx = "ctx\<lparr>sbf := Some ar\<rparr>"
  have r: "ready ?ctx" using assms(1) by (simp add: fresh_parser_def ready_def sp_def)
  have u: "unread pb = 0xd6 # be16 1 @ [b]" using assms(3) by (simp add: be16_def)
  have "unpack_tag mok 0xd6 ?ctx pb'
      = keepstack (upd_sp (\<lambda>f. f\<lparr>status := PROCESS_LENGTH, require_len := length (be16 1), require_type := DOUBLE\<rparr>) ?ctx) pb'" for pb'
    by (subst table_tag; simp add: unpack_table_def)
  with read_length [OF r assms(2) u, where l = 1 and mok = mok and f2d = f2d and ty = DOUBLE and st = False] obtain pb' ps where
    l: "run False mok f2d ?ctx pb = cont False mok f2d (length_check mok
      (upd_sp (\<lambda>f. f\<lparr>status := ps, require_len := 1, require_type := DOUBLE\<rparr>) ?ctx) pb')" "in_order pb'" "unread pb' = [b]"
    by auto
  let ?c = "upd_sp (\<lambda>f. f\<lparr>status := PROCESS_DATA\<rparr>) (upd_sp (\<lambda>f. f\<lparr>status := ps, require_len := 1, require_type := DOUBLE\<rparr>) ?ctx)"
  have "run False mok f2d ?ctx pb = run False mok f2d ?c pb'"
    using l(1) by (simp add: length_check_def keepstack_def cont_def)
  also have "\<dots> = cont False mok f2d (unpack_data f2d ?c pb')"
    using assms(1) by (subst run_cont) (simp_all add: fresh_parser_def unpack_step_def UNPACK_STACK_DEPTH_def)
  also have "fits 1 pb' \<and> \<not> fits 4 pb'" using l(2,3) by (simp add: fits_iff del: length_unread)
  then have "unpack_data f2d ?c pb' = None" by (simp add: unpack_data_def Let_def)
  finally show ?thesis by (simp add: unpack_loop_run cont_def)
qed

theorem big_float_reads_beyond_witness:
  "unpack_loop (\<lambda>_. True) (\<lambda>_. 0) (mpak_init (\<lambda>_. undefined)\<lparr>sbf := Some arena_init\<rparr>)
     \<lparr>m_ptr = Some 0, m_mem = (\<lambda>i. [0xd6, 0, 1, 0x40] ! i), m_len = 4, m_limit = 64, m_ofs = 0\<rparr> = None"
  by (rule big_float_reads_beyond [where b = 64])
    (simp_all add: fresh_mpak_init in_order_def unread_def bytes_at_4)

end
