(* ===== verification/Queue.thy ===== *)
theory Queue
  imports Prelude
begin

text \<open>
  \<^verbatim>\<open>src/src/util/queue.h\<close>: the chunked queue between threads, as one thread sees it.  A queue is a chain
  of chunks of \<open>N\<close> cells from the read chunk \<open>m_r\<close> to the write chunk \<open>m_w\<close>; chunks read through
  go to the cache \<open>m_free\<close> and are used again by \<open>expand\<close>.

  Chunks are addresses into a store; a pointer to a cell is a chunk and an index.  An operation is
  \<open>None\<close> where the code would go through a null or freed chunk or beyond its cells.  \<open>ok\<close> is whether
  \<open>malloc\<close> succeeds, \<open>junk\<close> what the memory holds.  The mutex protects \<open>m_c\<close> and \<open>m_free\<close> only; the operations
  of several threads are in theory \<open>MQueue\<close>.

  The lemmas: the queue refines a list (locale \<open>fifo\<close>, interpreted on \<open>queue_push\<close> and \<open>queue_pop\<close>);
  chunks are neither lost nor used twice; a failed expansion corrupts the queue.
\<close>

section \<open>State\<close>

record 'a chunk_mem =
  c_next :: "nat option"
  c_p :: "nat \<Rightarrow> 'a"

record 'a queue =
  chunks :: "nat \<rightharpoonup> 'a chunk_mem"
  q_fresh :: nat
  m_c :: "nat option"
  m_w :: nat
  m_r :: nat
  m_cache :: "nat option"
  m_wp :: "nat \<times> nat"
  m_rp :: "nat \<times> nat"
  m_wpos :: nat
  m_rpos :: nat

section \<open>Operations\<close>

definition q_peek :: "nat \<Rightarrow> nat \<times> nat \<Rightarrow> 'a queue \<Rightarrow> 'a option" where
  "q_peek N p q = (case chunks q (fst p) of None \<Rightarrow> None
     | Some ch \<Rightarrow> if snd p < N then Some (c_p ch (snd p)) else None)"

definition q_poke :: "nat \<Rightarrow> nat \<times> nat \<Rightarrow> 'a \<Rightarrow> 'a queue \<Rightarrow> 'a queue option" where
  "q_poke N p v q = (case chunks q (fst p) of None \<Rightarrow> None
     | Some ch \<Rightarrow> if snd p < N
         then Some (q\<lparr>chunks := (chunks q)(fst p \<mapsto> ch\<lparr>c_p := (c_p ch)(snd p := v)\<rparr>)\<rparr>) else None)"

definition q_next :: "nat \<Rightarrow> 'a queue \<Rightarrow> nat option option" where
  "q_next a q = map_option c_next (chunks q a)"

definition set_next :: "nat \<Rightarrow> nat option \<Rightarrow> 'a queue \<Rightarrow> 'a queue option" where
  "set_next a n q = (case chunks q a of None \<Rightarrow> None
     | Some ch \<Rightarrow> Some (q\<lparr>chunks := (chunks q)(a \<mapsto> ch\<lparr>c_next := n\<rparr>)\<rparr>))"

definition queue_allocate :: "bool \<Rightarrow> (nat \<Rightarrow> 'a) \<Rightarrow> 'a queue \<Rightarrow> (nat \<times> 'a queue) option" where
  "queue_allocate ok junk q =
     (if \<not> ok then None
      else Some (q_fresh q, q\<lparr>chunks := (chunks q)(q_fresh q \<mapsto> \<lparr>c_next = None, c_p = junk\<rparr>),
             q_fresh := Suc (q_fresh q)\<rparr>))"

definition queue_init :: "bool \<Rightarrow> (nat \<Rightarrow> 'a) \<Rightarrow> nbr_error + 'a queue" where
  "queue_init ok junk =
     (case queue_allocate ok junk \<lparr>chunks = Map.empty, q_fresh = 0, m_c = None, m_w = 0, m_r = 0, m_cache = None,
          m_wp = (0, 0), m_rp = (0, 0), m_wpos = 0, m_rpos = 0\<rparr> of
        None \<Rightarrow> Inl EMALLOC
      | Some (c, q) \<Rightarrow> Inr (q\<lparr>m_c := Some c, m_w := c, m_r := c, m_cache := None, m_wpos := 0, m_rpos := 0,
            m_wp := (c, 0), m_rp := (c, 0)\<rparr>))"

text \<open>\<open>free(c, cache)\<close>\<close>

definition queue_free :: "nat \<Rightarrow> bool \<Rightarrow> 'a queue \<Rightarrow> 'a queue option" where
  "queue_free c cached q =
     (case q_next c q of None \<Rightarrow> None
      | Some nxt \<Rightarrow>
          (let q = (if m_c q = Some c then q\<lparr>m_c := nxt\<rparr> else q) in
           if cached then map_option (\<lambda>q. q\<lparr>m_cache := Some c\<rparr>) (set_next c (m_cache q) q)
           else Some (q\<lparr>chunks := (chunks q)(c := None)\<rparr>)))"

definition queue_cache :: "'a queue \<Rightarrow> (nat option \<times> 'a queue) option" where
  "queue_cache q = (case m_cache q of None \<Rightarrow> Some (None, q)
     | Some c \<Rightarrow> (case q_next c q of None \<Rightarrow> None | Some nxt \<Rightarrow> Some (Some c, q\<lparr>m_cache := nxt\<rparr>)))"

definition queue_expand :: "bool \<Rightarrow> (nat \<Rightarrow> 'a) \<Rightarrow> 'a queue \<Rightarrow> (bool \<times> 'a queue) option" where
  "queue_expand ok junk q =
     (case queue_cache q of None \<Rightarrow> None
      | Some (got, q) \<Rightarrow>
          (case (case got of Some c \<Rightarrow> Some (c, q) | None \<Rightarrow> queue_allocate ok junk q) of
             None \<Rightarrow> Some (False, q)
           | Some (c, q) \<Rightarrow>
               (case set_next c None q of None \<Rightarrow> None
                | Some q \<Rightarrow> map_option (Pair True) (set_next (m_w q) (Some c) q))))"

definition queue_readable :: "'a queue \<Rightarrow> bool" where
  "queue_readable q \<longleftrightarrow> m_rp q \<noteq> m_wp q"

text \<open>\<open>movestep\<close> on the write side, and \<open>push\<close>.\<close>

definition queue_push :: "nat \<Rightarrow> bool \<Rightarrow> (nat \<Rightarrow> 'a) \<Rightarrow> 'a \<Rightarrow> 'a queue \<Rightarrow> (bool \<times> 'a queue) option" where
  "queue_push N ok junk v q =
     (let p = m_wp q; q = q\<lparr>m_wpos := m_wpos q + 1\<rparr> in
      case q_poke N p v q of None \<Rightarrow> None
      | Some q \<Rightarrow>
          if N = m_wpos q then
            (case q_next (m_w q) q of None \<Rightarrow> None
             | Some nxt \<Rightarrow>
                 (case (if nxt = None then queue_expand ok junk q else Some (True, q)) of
                    None \<Rightarrow> None
                  | Some (False, q) \<Rightarrow> Some (False, q)
                  | Some (True, q) \<Rightarrow>
                      (case q_next (m_w q) q of
                         Some (Some c) \<Rightarrow> Some (True, q\<lparr>m_w := c, m_wpos := 0, m_wp := (c, 0)\<rparr>)
                       | _ \<Rightarrow> None)))
          else Some (True, q\<lparr>m_wp := (m_w q, m_wpos q)\<rparr>))"

text \<open>\<open>movestep\<close> on the read side, and \<open>pop\<close>.\<close>

definition queue_pop :: "nat \<Rightarrow> 'a queue \<Rightarrow> ('a option \<times> 'a queue) option" where
  "queue_pop N q =
     (if \<not> queue_readable q then Some (None, q)
      else
        (let q = q\<lparr>m_rpos := m_rpos q + 1\<rparr> in
         case q_peek N (m_rp q) q of None \<Rightarrow> None
         | Some v \<Rightarrow>
             if N = m_rpos q then
               (case q_next (m_r q) q of
                  Some (Some c) \<Rightarrow>
                    (case queue_free (m_r q) True (q\<lparr>m_r := c\<rparr>) of None \<Rightarrow> None
                     | Some q \<Rightarrow> Some (Some v, q\<lparr>m_rpos := 0, m_rp := (m_r q, 0)\<rparr>))
                | _ \<Rightarrow> None)
             else Some (Some v, q\<lparr>m_rp := (m_r q, m_rpos q)\<rparr>)))"

text \<open>\<open>fin\<close>: the chain from \<open>m_c\<close>, then the cache; \<open>n\<close> bounds the chunks of one chain.\<close>

fun free_chain :: "nat \<Rightarrow> nat option \<Rightarrow> 'a queue \<Rightarrow> 'a queue option" where
  "free_chain n None q = Some q"
| "free_chain 0 (Some c) q = None"
| "free_chain (Suc n) (Some c) q = (case q_next c q of None \<Rightarrow> None
     | Some nxt \<Rightarrow> (case queue_free c False q of None \<Rightarrow> None | Some q \<Rightarrow> free_chain n nxt q))"

definition queue_fin :: "'a queue \<Rightarrow> 'a queue option" where
  "queue_fin q = (case free_chain (q_fresh q) (m_c q) q of None \<Rightarrow> None
     | Some q \<Rightarrow> map_option (\<lambda>q. q\<lparr>m_cache := None\<rparr>) (free_chain (q_fresh q) (m_cache q) q))"

section \<open>Chains of chunks\<close>

fun linked :: "(nat \<rightharpoonup> 'a chunk_mem) \<Rightarrow> nat option \<Rightarrow> nat list \<Rightarrow> nat option \<Rightarrow> bool" where
  "linked h p [] e \<longleftrightarrow> p = e"
| "linked h p (c # cs) e \<longleftrightarrow> p = Some c \<and> (\<exists>ch. h c = Some ch \<and> linked h (c_next ch) cs e)"

definition cells_in :: "nat \<Rightarrow> (nat \<rightharpoonup> 'a chunk_mem) \<Rightarrow> nat \<Rightarrow> 'a list" where
  "cells_in N h c = map (c_p (the (h c))) [0..<N]"

definition content :: "nat \<Rightarrow> (nat \<rightharpoonup> 'a chunk_mem) \<Rightarrow> nat list \<Rightarrow> 'a list" where
  "content N h cs = concat (map (cells_in N h) cs)"

text \<open>
  The values \<open>xs\<close> are in the cells from the read position up to cell \<open>i\<close> of chunk \<open>w\<close>, where the next
  value becomes visible.  \<open>cs\<close> is the chain before \<open>w\<close>, \<open>ns\<close> what is linked behind it and \<open>fs\<close> the
  cached chunks; together they are all the chunks there are.  For one thread alone \<open>w\<close> is the write
  chunk and nothing is behind it.
\<close>

definition span :: "nat \<Rightarrow> 'a queue \<Rightarrow> nat list \<Rightarrow> nat \<Rightarrow> nat list \<Rightarrow> nat list \<Rightarrow> nat \<Rightarrow> 'a list \<Rightarrow> bool" where
  "span N q cs w ns fs i xs \<longleftrightarrow>
     linked (chunks q) (Some (m_r q)) (cs @ w # ns) None \<and> linked (chunks q) (m_cache q) fs None
   \<and> distinct (cs @ w # ns @ fs) \<and> dom (chunks q) = set (cs @ w # ns @ fs) \<and> (\<forall>a \<in> dom (chunks q). a < q_fresh q)
   \<and> m_c q = Some (m_r q) \<and> m_wp q = (w, i) \<and> m_rp q = (m_r q, m_rpos q)
   \<and> i < N \<and> m_rpos q < N \<and> m_rpos q \<le> length cs * N + i
   \<and> xs = drop (m_rpos q) (take (length cs * N + i) (content N (chunks q) (cs @ [w])))"

definition holds_in :: "nat \<Rightarrow> 'a queue \<Rightarrow> nat list \<Rightarrow> nat list \<Rightarrow> 'a list \<Rightarrow> bool" where
  "holds_in N q cs fs xs \<longleftrightarrow> span N q cs (m_w q) [] fs (m_wpos q) xs"

definition holds :: "nat \<Rightarrow> 'a queue \<Rightarrow> 'a list \<Rightarrow> bool" where
  "holds N q xs \<longleftrightarrow> (\<exists>cs fs. holds_in N q cs fs xs)"

lemma linked_append: "linked h p (as @ bs) e \<longleftrightarrow> (\<exists>m. linked h p as m \<and> linked h m bs e)"
  by (induction as arbitrary: p) auto

lemma linked_other [simp]: "c \<notin> set cs \<Longrightarrow> linked (h(c := x)) p cs e = linked h p cs e"
  by (induction cs arbitrary: p) auto

lemma linked_cells: "linked h p cs e \<Longrightarrow> h c = Some ch \<Longrightarrow> linked (h(c \<mapsto> ch\<lparr>c_p := f\<rparr>)) p cs e"
  by (induction cs arbitrary: p) auto

lemma linked_dom: "linked h p cs e \<Longrightarrow> set cs \<subseteq> dom h"
  by (induction cs arbitrary: p) auto

lemma length_cells_in [simp]: "length (cells_in N h c) = N"
  by (simp add: cells_in_def)

lemma length_content [simp]: "length (content N h cs) = length cs * N"
  by (induction cs) (simp_all add: content_def)

lemma content_append [simp]: "content N h (as @ bs) = content N h as @ content N h bs"
  by (simp add: content_def)

lemma content_Cons [simp]: "content N h (c # cs) = cells_in N h c @ content N h cs"
  by (simp add: content_def)

lemma content_Nil [simp]: "content N h [] = []"
  by (simp add: content_def)

lemma cells_in_other [simp]: "c \<noteq> d \<Longrightarrow> cells_in N (h(d := x)) c = cells_in N h c"
  by (simp add: cells_in_def)

lemma content_other [simp]: "c \<notin> set cs \<Longrightarrow> content N (h(c := x)) cs = content N h cs"
  by (induction cs) auto

lemma cells_in_next [simp]: "h c = Some ch \<Longrightarrow> cells_in N (h(c \<mapsto> ch\<lparr>c_next := n\<rparr>)) c = cells_in N h c"
  by (simp add: cells_in_def)

lemma cells_in_write:
  "h c = Some ch \<Longrightarrow> i < N \<Longrightarrow> cells_in N (h(c \<mapsto> ch\<lparr>c_p := (c_p ch)(i := v)\<rparr>)) c = (cells_in N h c)[i := v]"
  by (auto simp: cells_in_def list_eq_iff_nth_eq nth_list_update)

section \<open>Pushing and popping\<close>

lemma window_push:
  assumes "r \<le> length A + i" and "i < length B"
  shows "drop r (take (length A + Suc i) (A @ B[i := v])) = drop r (take (length A + i) (A @ B)) @ [v]"
proof -
  have "take (Suc i) (B[i := v]) = take i B @ [v]"
    using assms(2) by (simp add: take_Suc_conv_app_nth)
  with assms show ?thesis by simp
qed

lemma expand_ok:
  assumes "linked (chunks q) (m_cache q) fs None" and "distinct (m_w q # fs)" and "chunks q (m_w q) = Some ch"
    and "\<forall>a \<in> dom (chunks q). a < q_fresh q"
  shows "\<exists>c cells f mc fs'. queue_expand True junk q = Some (True, q\<lparr>chunks := (chunks q)(c \<mapsto> \<lparr>c_next = None, c_p = cells\<rparr>,
        m_w q \<mapsto> ch\<lparr>c_next := Some c\<rparr>), q_fresh := f, m_cache := mc\<rparr>)
      \<and> c \<noteq> m_w q \<and> c < f \<and> q_fresh q \<le> f \<and> linked (chunks q) mc fs' None
      \<and> (fs = c # fs' \<or> fs = [] \<and> fs' = [] \<and> c \<notin> dom (chunks q))"
proof (cases fs)
  case Nil
  then have m: "m_cache q = None" using assms(1) by simp
  have f: "q_fresh q \<noteq> m_w q" "q_fresh q \<notin> dom (chunks q)" using assms(3,4) by auto
  have "queue_expand True junk q = Some (True, q\<lparr>chunks := (chunks q)(q_fresh q \<mapsto> \<lparr>c_next = None, c_p = junk\<rparr>,
        m_w q \<mapsto> ch\<lparr>c_next := Some (q_fresh q)\<rparr>), q_fresh := Suc (q_fresh q), m_cache := None\<rparr>)"
    using m f(1) assms(3)
    by (cases q) (auto simp: queue_expand_def queue_cache_def queue_allocate_def set_next_def)
  with f Nil show ?thesis
    by (intro exI [of _ "q_fresh q"] exI [of _ junk] exI [of _ "Suc (q_fresh q)"] exI [of _ None] exI [of _ "[]"]) simp
next
  case (Cons c fs')
  then obtain d where d: "m_cache q = Some c" "chunks q c = Some d" "linked (chunks q) (c_next d) fs' None"
    using assms(1) by auto
  have c: "c \<noteq> m_w q" "c < q_fresh q" using Cons assms(2,4) d(2) by auto
  have "d\<lparr>c_next := None\<rparr> = \<lparr>c_next = None, c_p = c_p d\<rparr>" by (cases d) simp
  then have "queue_expand True junk q = Some (True, q\<lparr>chunks := (chunks q)(c \<mapsto> \<lparr>c_next = None, c_p = c_p d\<rparr>,
        m_w q \<mapsto> ch\<lparr>c_next := Some c\<rparr>), q_fresh := q_fresh q, m_cache := c_next d\<rparr>)"
    using c(1) d assms(3)
    by (cases q) (auto simp: queue_expand_def queue_cache_def q_next_def set_next_def)
  with c d(3) Cons show ?thesis
    by (intro exI [of _ c] exI [of _ "c_p d"] exI [of _ "q_fresh q"] exI [of _ "c_next d"] exI [of _ fs']) simp
qed

lemma push_holds:
  assumes h: "holds_in N q cs fs xs"
  shows "\<exists>q'. queue_push N True junk v q = Some (True, q') \<and> holds N q' (xs @ [v])"
proof -
  note h' = h [unfolded holds_in_def span_def]
  let ?w = "m_w q" and ?i = "m_wpos q"
  obtain ch where ch: "chunks q ?w = Some ch" "linked (chunks q) (Some (m_r q)) cs (Some ?w)" "c_next ch = None"
    using h' by (auto simp: linked_append)
  have fresh: "?w \<notin> set cs" "?w \<notin> set fs" using h' by auto
  let ?ch = "ch\<lparr>c_p := (c_p ch)(?i := v)\<rparr>"
  let ?h = "(chunks q)(?w \<mapsto> ?ch)" and ?A = "content N (chunks q) cs" and ?B = "cells_in N (chunks q) ?w"
  let ?q = "q\<lparr>m_wpos := ?i + 1, chunks := ?h\<rparr>"
  have poke: "q_poke N (m_wp q) v (q\<lparr>m_wpos := ?i + 1\<rparr>) = Some ?q" using h' ch by (simp add: q_poke_def)
  have cells: "cells_in N ?h ?w = ?B[?i := v]" using h' ch by (intro cells_in_write) auto
  have win: "drop (m_rpos q) (take (length cs * N + Suc ?i) (?A @ ?B[?i := v])) = xs @ [v]"
    using h' window_push [of "m_rpos q" ?A ?i ?B v] by simp
  show ?thesis
  proof (cases "N = ?i + 1")
    case False
    let ?q' = "?q\<lparr>m_wp := (?w, ?i + 1)\<rparr>"
    have "queue_push N True junk v q = Some (True, ?q')"
      using False poke by (simp add: queue_push_def Let_def)
    moreover have "holds_in N ?q' cs fs (xs @ [v])"
      using h' False ch fresh win cells by (auto simp: holds_in_def span_def linked_append)
    ultimately show ?thesis unfolding holds_def by blast
  next
    case True
    have pre: "linked (chunks ?q) (m_cache ?q) fs None" "distinct (m_w ?q # fs)" "chunks ?q (m_w ?q) = Some ?ch"
      "\<forall>a \<in> dom (chunks ?q). a < q_fresh ?q" using h' fresh ch(1) by auto
    from expand_ok [OF pre, of junk] obtain c cells' f mc fs' where
      e0: "queue_expand True junk ?q = Some (True, ?q\<lparr>chunks := (chunks ?q)(c \<mapsto> \<lparr>c_next = None, c_p = cells'\<rparr>,
        m_w ?q \<mapsto> ?ch\<lparr>c_next := Some c\<rparr>), q_fresh := f, m_cache := mc\<rparr>)"
      "c \<noteq> m_w ?q" "c < f" "q_fresh ?q \<le> f" "linked (chunks ?q) mc fs' None"
      "fs = c # fs' \<or> fs = [] \<and> fs' = [] \<and> c \<notin> dom (chunks ?q)" by (elim exE conjE) (rule that)
    then have e: "queue_expand True junk ?q = Some (True, ?q\<lparr>chunks := ?h(c \<mapsto> \<lparr>c_next = None, c_p = cells'\<rparr>,
        ?w \<mapsto> ?ch\<lparr>c_next := Some c\<rparr>), q_fresh := f, m_cache := mc\<rparr>)"
      "c \<noteq> ?w" "c < f" "q_fresh q \<le> f" "linked ?h mc fs' None"
      "fs = c # fs' \<or> fs = [] \<and> fs' = [] \<and> c \<notin> dom ?h" by simp_all
    let ?h2 = "?h(c \<mapsto> \<lparr>c_next = None, c_p = cells'\<rparr>, ?w \<mapsto> ?ch\<lparr>c_next := Some c\<rparr>)"
    let ?q' = "?q\<lparr>chunks := ?h2, q_fresh := f, m_cache := mc, m_w := c, m_wpos := 0, m_wp := (c, 0)\<rparr>"
    have push: "queue_push N True junk v q = Some (True, ?q')"
      using True poke e(1) ch(1,3) by (simp add: queue_push_def Let_def q_next_def)
    have dom_q: "dom (chunks q) = set (cs @ [?w] @ fs)" "distinct (cs @ [?w] @ fs)" using h' by auto
    then have "?w \<in> dom (chunks q)" by simp
    then have domh: "dom ?h = set (cs @ [?w] @ fs)" using dom_q(1) by auto
    have c: "c \<notin> set cs" "c \<notin> set fs'" "?w \<notin> set fs'" "distinct fs'" "set fs' \<subseteq> set fs"
      using e(2,6) dom_q(2) fresh domh by auto
    have "linked ?h2 (Some (m_r q)) cs (Some ?w)" "linked ?h2 mc fs' None" using ch(2) e(5) c fresh by auto
    moreover have "linked ?h2 (Some ?w) [?w, c] None" using e(2) by simp
    moreover have "dom ?h2 = set (cs @ [?w, c] @ fs')" using domh e(6) by auto
    moreover have "content N ?h2 cs = ?A" using c(1) fresh(1) by simp
    moreover have "cells_in N ?h2 ?w = ?B[?i := v]"
      using cells e(2) by (simp add: cells_in_def)
    moreover have "(length cs * N + Suc ?i) = Suc (length cs) * N" using True by simp
    moreover have "\<forall>a \<in> set fs. a < q_fresh q" "\<forall>a \<in> set cs. a < q_fresh q" "?w < q_fresh q" using h' by auto
    then have "\<forall>a \<in> set (cs @ [?w, c] @ fs'). a < f" using e(3,4) c(5) by fastforce
    ultimately have "holds_in N ?q' (cs @ [?w]) fs' (xs @ [v])"
      using h' True c fresh e(2) win by (auto simp: holds_in_def span_def linked_append)
    with push show ?thesis unfolding holds_def by blast
  qed
qed

lemma span_readable:
  assumes "span N q cs w ns fs i xs"
  shows "queue_readable q \<longleftrightarrow> xs \<noteq> []"
proof -
  note h = assms [unfolded span_def]
  have len: "length xs = length cs * N + i - m_rpos q" using h by simp
  show ?thesis
  proof (cases cs)
    case Nil
    with h len show ?thesis by (auto simp: queue_readable_def)
  next
    case (Cons c cs')
    with h have "m_r q = c" "c \<noteq> w" by auto
    moreover have "m_rpos q < length cs * N + i" using Cons h by (simp add: trans_less_add1)
    then have "xs \<noteq> []" using len by auto
    ultimately show ?thesis using h by (simp add: queue_readable_def)
  qed
qed

lemma span_pop_empty: "span N q cs w ns fs i [] \<Longrightarrow> queue_pop N q = Some (None, q)"
  by (simp add: queue_pop_def span_readable)

lemma pop_empty: "holds N q [] \<Longrightarrow> queue_pop N q = Some (None, q)"
  by (auto simp: holds_def holds_in_def span_pop_empty)

lemma window_pop:
  assumes "x # xs = drop i (take P L)" and "i < P" and "P \<le> length L"
  shows "x = L ! i" and "xs = drop (Suc i) (take P L)"
proof -
  have "L ! i # drop (Suc i) (take P L) = drop i (take P L)"
    using Cons_nth_drop_Suc [of i "take P L"] assms(2,3) by simp
  then have "x # xs = L ! i # drop (Suc i) (take P L)" using assms(1) by simp
  then show "x = L ! i" "xs = drop (Suc i) (take P L)" by simp_all
qed

text \<open>A pop moves the read side only; no cell changes.\<close>

lemma span_pop:
  assumes h: "span N q cs w ns fs i (x # xs)"
  shows "\<exists>q' cs' fs'. queue_pop N q = Some (Some x, q') \<and> span N q' cs' w ns fs' i xs
    \<and> m_w q' = m_w q \<and> m_wpos q' = m_wpos q \<and> (\<forall>c. map_option c_p (chunks q' c) = map_option c_p (chunks q c))"
proof -
  note h' = h [unfolded span_def]
  let ?r = "m_r q" and ?i = "m_rpos q" and ?L = "content N (chunks q) (cs @ [w])" and ?P = "length cs * N + i"
  have len: "length (x # xs) = ?P - ?i" using h' by simp
  then have lt: "?i < ?P" by simp
  have P: "?P \<le> length ?L" using h' by simp
  have split: "x # xs = drop ?i (take ?P ?L)" using h' by simp
  then have "x = ?L ! ?i" and xs: "xs = drop (Suc ?i) (take ?P ?L)"
    using lt P by (rule window_pop)+
  obtain cs2 where c2: "cs @ [w] = ?r # cs2" using h' by (cases cs) auto
  then have c2n: "cs @ w # ns = ?r # cs2 @ ns" by (metis append_Cons append_Nil append_assoc)
  obtain d where d: "chunks q ?r = Some d" "linked (chunks q) (c_next d) (cs2 @ ns) None"
    using h' unfolding c2n by auto
  have x: "x = c_p d ?i"
    using \<open>x = ?L ! ?i\<close> d(1) h' unfolding c2 by (simp add: nth_append cells_in_def)
  let ?q = "q\<lparr>m_rpos := ?i + 1\<rparr>"
  have peek: "q_peek N (m_rp ?q) ?q = Some x" using h' d(1) x by (simp add: q_peek_def)
  have rd: "queue_readable q" using span_readable [OF h] by simp
  show ?thesis
  proof (cases "N = ?i + 1")
    case False
    let ?q' = "?q\<lparr>m_rp := (?r, ?i + 1)\<rparr>"
    have "queue_pop N q = Some (Some x, ?q')" using False peek rd by (simp add: queue_pop_def Let_def)
    moreover have "span N ?q' cs w ns fs i xs" using h' False lt xs by (auto simp: span_def)
    ultimately show ?thesis
      by (intro exI [of _ ?q'] exI [of _ cs] exI [of _ fs]) simp
  next
    case True
    have "cs \<noteq> []" using lt h' True by (cases cs) auto
    then obtain cs' where cs: "cs = ?r # cs'" using c2 by (cases cs) auto
    then have cs2: "cs2 = cs' @ [w]" using c2 by simp
    obtain n where n: "c_next d = Some n" using d(2) cs2 by (cases cs') auto
    have dist: "?r \<notin> set cs'" "?r \<noteq> w" "?r \<notin> set fs" "?r \<notin> set ns" using h' cs by auto
    let ?h = "(chunks q)(?r \<mapsto> d\<lparr>c_next := m_cache q\<rparr>)"
    let ?q' = "?q\<lparr>m_r := n, m_c := Some n, chunks := ?h, m_cache := Some ?r, m_rpos := 0, m_rp := (n, 0)\<rparr>"
    have pop: "queue_pop N q = Some (Some x, ?q')"
      using True peek rd d(1) n h'
      by (simp add: queue_pop_def Let_def q_next_def queue_free_def set_next_def)
    have "drop (Suc ?i) (take ?P ?L) = take (length cs' * N + i) (content N (chunks q) cs2)"
      using True h' cs c2 by (simp add: add.assoc)
    then have "xs = take (length cs' * N + i) (content N ?h (cs' @ [w]))"
      using xs dist cs2 by simp
    moreover have "linked ?h (Some n) (cs2 @ ns) None" using d(2) n dist cs2 by simp
    moreover have "linked ?h (Some ?r) (?r # fs) None" using h' dist(3) by simp
    moreover have "dom ?h = set (cs' @ w # ns @ ?r # fs)" "distinct (cs' @ w # ns @ ?r # fs)"
      using h' cs by auto
    moreover have "\<forall>a \<in> set (cs' @ w # ns @ ?r # fs). a < q_fresh q" using h' cs by auto
    ultimately have "span N ?q' cs' w ns (?r # fs) i xs"
      using h' True dist cs2 by (auto simp: span_def)
    moreover have "\<forall>c. map_option c_p (chunks ?q' c) = map_option c_p (chunks q c)" using d(1) by simp
    ultimately show ?thesis
      using pop by (intro exI [of _ ?q'] exI [of _ cs'] exI [of _ "?r # fs"]) simp
  qed
qed

lemma pop_holds:
  assumes "holds_in N q cs fs (x # xs)"
  shows "\<exists>q'. queue_pop N q = Some (Some x, q') \<and> holds N q' xs"
  using span_pop [OF assms [unfolded holds_in_def]] unfolding holds_def holds_in_def by fastforce

lemma init_holds: "0 < N \<Longrightarrow> \<exists>q. queue_init True junk = Inr q \<and> holds N q []"
  by (auto simp: queue_init_def queue_allocate_def holds_def holds_in_def span_def intro!: exI [of _ "[]"])

section \<open>The contract\<close>

text \<open>What the users of a queue rely on: it is a list, in at one end and out at the other.\<close>

datatype 'a queue_op = Push 'a | Pop

fun list_run :: "'a queue_op list \<Rightarrow> 'a list \<Rightarrow> 'a option list \<times> 'a list" where
  "list_run [] xs = ([], xs)"
| "list_run (Push v # ops) xs = list_run ops (xs @ [v])"
| "list_run (Pop # ops) [] = (case list_run ops [] of (rs, ys) \<Rightarrow> (None # rs, ys))"
| "list_run (Pop # ops) (x # xs) = (case list_run ops xs of (rs, ys) \<Rightarrow> (Some x # rs, ys))"

fun queue_run ::
  "('a \<Rightarrow> 'q \<Rightarrow> (bool \<times> 'q) option) \<Rightarrow> ('q \<Rightarrow> ('a option \<times> 'q) option) \<Rightarrow> 'a queue_op list \<Rightarrow> 'q \<Rightarrow>
     ('a option list \<times> 'q) option" where
  "queue_run enq deq [] q = Some ([], q)"
| "queue_run enq deq (Push v # ops) q = (case enq v q of Some (True, q') \<Rightarrow> queue_run enq deq ops q' | _ \<Rightarrow> None)"
| "queue_run enq deq (Pop # ops) q = (case deq q of None \<Rightarrow> None
     | Some (r, q') \<Rightarrow> map_option (\<lambda>(rs, q''). (r # rs, q'')) (queue_run enq deq ops q'))"

locale fifo =
  fixes rep :: "'q \<Rightarrow> 'a list \<Rightarrow> bool"
    and enq :: "'a \<Rightarrow> 'q \<Rightarrow> (bool \<times> 'q) option"
    and deq :: "'q \<Rightarrow> ('a option \<times> 'q) option"
  assumes enq_rep: "rep q xs \<Longrightarrow> \<exists>q'. enq v q = Some (True, q') \<and> rep q' (xs @ [v])"
    and deq_empty: "rep q [] \<Longrightarrow> deq q = Some (None, q)"
    and deq_rep: "rep q (x # xs) \<Longrightarrow> \<exists>q'. deq q = Some (Some x, q') \<and> rep q' xs"
begin

lemma run_refines:
  "rep q xs \<Longrightarrow> list_run ops xs = (rs, ys) \<Longrightarrow> \<exists>q'. queue_run enq deq ops q = Some (rs, q') \<and> rep q' ys"
proof (induction ops xs arbitrary: q rs ys rule: list_run.induct)
  case (2 v ops xs)
  from enq_rep [OF 2(2), of v] obtain q' where q': "enq v q = Some (True, q')" "rep q' (xs @ [v])" by blast
  with 2(1) [OF q'(2)] 2(3) show ?case by simp
next
  case (3 ops)
  from 3(1) [OF 3(2)] 3(3) deq_empty [OF 3(2)] show ?case by (fastforce split: prod.splits)
next
  case (4 ops x xs)
  from deq_rep [OF 4(2)] obtain q' where q': "deq q = Some (Some x, q')" "rep q' xs" by blast
  with 4(1) [OF q'(2)] 4(3) show ?case by (fastforce split: prod.splits)
qed simp

lemma run_pushes: "rep q xs \<Longrightarrow> \<exists>q'. queue_run enq deq (map Push vs) q = Some ([], q') \<and> rep q' (xs @ vs)"
proof (induction vs arbitrary: q xs)
  case (Cons v vs)
  from enq_rep [OF Cons.prems, of v] obtain q' where "enq v q = Some (True, q')" "rep q' (xs @ [v])" by blast
  with Cons.IH [OF this(2)] show ?case by simp
qed simp

end

interpretation chunked: fifo "holds N" "queue_push N True junk" "queue_pop N"
proof
  fix q :: "'a queue" and xs v x
  show "holds N q xs \<Longrightarrow> \<exists>q'. queue_push N True junk v q = Some (True, q') \<and> holds N q' (xs @ [v])"
    using push_holds by (auto simp: holds_def)
  show "holds N q [] \<Longrightarrow> queue_pop N q = Some (None, q)" by (rule pop_empty)
  show "holds N q (x # xs) \<Longrightarrow> \<exists>q'. queue_pop N q = Some (Some x, q') \<and> holds N q' xs"
    using pop_holds by (auto simp: holds_def)
qed

section \<open>Releasing the chunks\<close>

lemma free_chain_ok:
  "linked (chunks q) p cs None \<Longrightarrow> distinct cs \<Longrightarrow> length cs \<le> n \<Longrightarrow>
     \<exists>q'. free_chain n p q = Some q' \<and> chunks q' = (chunks q) |` (- set cs) \<and> m_cache q' = m_cache q
       \<and> q_fresh q' = q_fresh q"
proof (induction cs arbitrary: n p q)
  case (Cons c cs)
  then obtain ch m where ch: "p = Some c" "chunks q c = Some ch" "linked (chunks q) (c_next ch) cs None" "n = Suc m"
    by (cases n) auto
  let ?q = "(if m_c q = Some c then q\<lparr>m_c := c_next ch\<rparr> else q)\<lparr>chunks := (chunks q)(c := None)\<rparr>"
  have q: "queue_free c False q = Some ?q" using ch(2) by (simp add: queue_free_def q_next_def)
  have "linked (chunks ?q) (c_next ch) cs None" using ch(3) Cons.prems(2) by simp
  moreover have "distinct cs" "length cs \<le> m" using Cons.prems(2,3) ch(4) by simp_all
  ultimately obtain q' where "free_chain m (c_next ch) ?q = Some q'"
    "chunks q' = (chunks ?q) |` (- set cs)" "m_cache q' = m_cache ?q" "q_fresh q' = q_fresh ?q"
    using Cons.IH [of ?q "c_next ch" m] by blast
  with ch q show ?case by (auto simp: q_next_def restrict_map_def fun_eq_iff)
qed (auto simp: restrict_map_def fun_eq_iff)

lemma holds_few:
  assumes "holds_in N q cs fs xs"
  shows "length (cs @ [m_w q]) \<le> q_fresh q" and "length fs \<le> q_fresh q"
proof -
  note h = assms [unfolded holds_in_def span_def]
  have sub: "set (cs @ [m_w q]) \<subseteq> {..<q_fresh q}" "set fs \<subseteq> {..<q_fresh q}" using h by auto
  have "distinct (cs @ [m_w q])" "distinct fs" using h by auto
  then have "length (cs @ [m_w q]) = card (set (cs @ [m_w q]))" "length fs = card (set fs)"
    by (simp_all only: distinct_card)
  then show "length (cs @ [m_w q]) \<le> q_fresh q" "length fs \<le> q_fresh q"
    using card_mono [OF _ sub(1)] card_mono [OF _ sub(2)] by simp_all
qed

lemma fin_ok:
  assumes "holds N q xs"
  shows "\<exists>q'. queue_fin q = Some q' \<and> chunks q' = Map.empty"
proof -
  obtain cs fs where hin: "holds_in N q cs fs xs" using assms by (auto simp: holds_def)
  note h = hin [unfolded holds_in_def span_def] and few = holds_few [OF hin]
  have "linked (chunks q) (m_c q) (cs @ [m_w q]) None" using h by simp
  from free_chain_ok [OF this _ few(1)] h obtain q1 where q1: "free_chain (q_fresh q) (m_c q) q = Some q1"
    "chunks q1 = (chunks q) |` (- set (cs @ [m_w q]))" "m_cache q1 = m_cache q" "q_fresh q1 = q_fresh q" by auto
  have same: "linked ((chunks q) |` S) p fs None = linked (chunks q) p fs None" if "set fs \<subseteq> S" for S p
    using that by (induction fs arbitrary: p) auto
  have "linked (chunks q1) (m_cache q1) fs None" using h q1 same [of "- set (cs @ [m_w q])"] by auto
  from free_chain_ok [OF this, of "q_fresh q1"] h few(2) q1 obtain q2 where
    q2: "free_chain (q_fresh q1) (m_cache q1) q1 = Some q2" "chunks q2 = (chunks q1) |` (- set fs)" by auto
  have "chunks q2 = Map.empty"
  proof
    fix a
    show "chunks q2 a = None"
    proof (cases "a \<in> set (cs @ [m_w q] @ fs)")
      case False
      moreover have "dom (chunks q) = set (cs @ [m_w q] @ fs)" using h by simp
      ultimately have "a \<notin> dom (chunks q)" by blast
      then show ?thesis using q1 q2 by (auto simp: restrict_map_def)
    qed (use q1 q2 in \<open>auto simp: restrict_map_def\<close>)
  qed
  with q1 q2 show ?thesis by (simp add: queue_fin_def)
qed

section \<open>Properties\<close>

text \<open>
  C16: The queue is a first-in first-out list: any sequence of pushes and pops on a fresh queue, with
  memory to be had, succeeds and answers exactly what the same sequence answers on a list, across
  every change of chunk; afterwards \<open>fin\<close> releases every chunk there is.
\<close>

theorem queue_is_fifo:
  assumes "0 < N" and "queue_init True junk = Inr q"
  shows "\<exists>q'. queue_run (queue_push N True junk) (queue_pop N) ops q = Some (fst (list_run ops []), q')
    \<and> (\<exists>q''. queue_fin q' = Some q'' \<and> chunks q'' = Map.empty)"
proof -
  have "holds N q []" using init_holds [OF assms(1), of junk] assms(2) by auto
  then obtain q' where "queue_run (queue_push N True junk) (queue_pop N) ops q = Some (fst (list_run ops []), q')"
    "holds N q' (snd (list_run ops []))"
    using chunked.run_refines [of N q "[]" ops] by (metis prod.collapse)
  with fin_ok show ?thesis by blast
qed

theorem queue_is_fifo_witness:
  "\<exists>q q'. queue_init True (\<lambda>_. 0) = Inr q
    \<and> queue_run (queue_push 2 True (\<lambda>_. 0)) (queue_pop 2) [Push 5, Push 6, Push 7, Pop, Pop, Pop, Pop] q
      = Some ([Some (5::nat), Some 6, Some 7, None], q')"
proof -
  obtain q :: "nat queue" where q: "queue_init True (\<lambda>_. 0) = Inr q" using init_holds [of 2 "\<lambda>_. 0"] by auto
  with queue_is_fifo [OF _ this, of 2 "[Push 5, Push 6, Push 7, Pop, Pop, Pop, Pop]"] show ?thesis by auto
qed

text \<open>
  A failed expansion is not undone: the write position has already moved past the last cell.  The
  push that finds no memory for the next chunk answers false; the one after it answers true, and
  the third one writes beyond the chunk.
\<close>

theorem push_failure_corrupts:
  assumes "holds N q xs" and "m_wpos q + 1 = N" and "m_cache q = None"
  shows "\<exists>q1 q2. queue_push N False junk u q = Some (False, q1) \<and> queue_push N True junk v q1 = Some (True, q2)
    \<and> queue_push N True junk w q2 = None"
proof -
  obtain cs fs where hin: "holds_in N q cs fs xs" using assms(1) by (auto simp: holds_def)
  note h = hin [unfolded holds_in_def span_def]
  obtain ch where ch: "chunks q (m_w q) = Some ch" "c_next ch = None" using h by (auto simp: linked_append)
  let ?q1 = "q\<lparr>m_wpos := N, chunks := (chunks q)(m_w q \<mapsto> ch\<lparr>c_p := (c_p ch)(m_wpos q := u)\<rparr>)\<rparr>"
  have one: "queue_push N False junk u q = Some (False, ?q1)"
    using ch h assms(2,3)
    by (simp add: queue_push_def Let_def q_poke_def q_next_def queue_expand_def queue_cache_def queue_allocate_def)
  obtain q2 where two: "queue_push N True junk v ?q1 = Some (True, q2)" "m_wp q2 = (m_w q, N + 1)"
    using ch h assms(2) by (simp add: queue_push_def Let_def q_poke_def)
  have "queue_push N True junk w q2 = None"
    using two(2) by (simp add: queue_push_def Let_def q_poke_def split: option.split)
  with one two(1) show ?thesis by blast
qed

theorem push_failure_corrupts_witness:
  "\<exists>q q1 q2. queue_init True (\<lambda>_. 0) = Inr q \<and> queue_push 1 False (\<lambda>_. 0) (7::nat) q = Some (False, q1)
    \<and> queue_push 1 True (\<lambda>_. 0) 8 q1 = Some (True, q2) \<and> queue_push 1 True (\<lambda>_. 0) 9 q2 = None"
proof -
  obtain q :: "nat queue" where q: "queue_init True (\<lambda>_. 0) = Inr q" "holds 1 q []"
    using init_holds [of 1 "\<lambda>_. 0"] by auto
  from q(1) have "m_wpos q + 1 = 1" "m_cache q = None" by (auto simp: queue_init_def queue_allocate_def)
  from push_failure_corrupts [OF q(2) this] q(1) show ?thesis by blast
qed

end
