(* ===== verification/MQueue.thy ===== *)
theory MQueue
  imports Queue
begin

text \<open>
  \<^verbatim>\<open>src/src/util/queue.h\<close>: \<open>mpush\<close> from several threads while one thread pops, which is how the server
  uses the queue (\<open>fque().mpush\<close> from everywhere, \<open>m_fque.pop\<close> in the thread that owns it).

  Each atomic action of \<open>mmovestep\<close> is a step: taking a slot (\<open>__sync_add_and_fetch\<close>), writing the
  cell, advancing the visible end by compare and swap, and, for the thread with the last slot of a
  chunk, expanding, moving \<open>m_w\<close> on and setting the position back.  Threads are numbered; the ghost
  fields record the values in the order they become visible and the values popped.

  The invariant: slots taken and not yet visible belong to one thread each.  So nothing is lost,
  doubled or read before it is written, and no step goes through a bad pointer.
\<close>

section \<open>Steps\<close>

text \<open>What a thread in \<open>mpush\<close> holds: its slot, or the cell \<open>p\<close> it wrote and the pointer behind it.\<close>

datatype 'a pusher =
    Idle
  | Enter 'a
  | Waiting 'a
  | Got nat 'a
  | Written "nat \<times> nat" "nat \<times> nat" 'a
  | Expanding "nat \<times> nat" 'a
  | Filled "nat \<times> nat" "nat \<times> nat" 'a
  | Swapped "nat \<times> nat" "nat \<times> nat" 'a
  | Reset

record 'a mstate =
  mq :: "'a queue"
  pusher :: "nat \<Rightarrow> 'a pusher"
  published :: "'a list"
  popped :: "'a list"

definition go :: "nat \<Rightarrow> 'a pusher \<Rightarrow> 'a queue \<Rightarrow> 'a mstate \<Rightarrow> 'a mstate" where
  "go t st q s = s\<lparr>mq := q, pusher := (pusher s)(t := st)\<rparr>"

inductive mstep :: "nat \<Rightarrow> (nat \<Rightarrow> 'a) \<Rightarrow> 'a mstate \<Rightarrow> 'a mstate \<Rightarrow> bool" for N junk where
  call: "pusher s t = Idle \<Longrightarrow> mstep N junk s (go t (Enter v) (mq s) s)"
| fetch: "pusher s t = Enter v \<Longrightarrow> k = m_wpos (mq s) + 1 \<Longrightarrow>
    mstep N junk s (go t (if k \<le> N then Got k v else Waiting v) ((mq s)\<lparr>m_wpos := k\<rparr>) s)"
| retry: "pusher s t = Waiting v \<Longrightarrow> m_wpos (mq s) < N \<Longrightarrow> mstep N junk s (go t (Enter v) (mq s) s)"
| store: "pusher s t = Got k v \<Longrightarrow> k < N \<Longrightarrow> q_poke N (m_w (mq s), k - 1) v (mq s) = Some q \<Longrightarrow>
    mstep N junk s (go t (Written (m_w (mq s), k - 1) (m_w (mq s), k) v) q s)"
| cas: "pusher s t = Written p nx v \<Longrightarrow> m_wp (mq s) = p \<Longrightarrow>
    mstep N junk s ((go t Idle ((mq s)\<lparr>m_wp := nx\<rparr>) s)\<lparr>published := published s @ [v]\<rparr>)"
| fill: "pusher s t = Got N v \<Longrightarrow> q_poke N (m_w (mq s), N - 1) v (mq s) = Some q \<Longrightarrow>
    mstep N junk s (go t (Expanding (m_w (mq s), N - 1) v) q s)"
| expand: "pusher s t = Expanding p v \<Longrightarrow> q_next (m_w (mq s)) (mq s) = Some nxt \<Longrightarrow>
    (if nxt = None then queue_expand True junk (mq s) else Some (True, mq s)) = Some (True, q) \<Longrightarrow>
    q_next (m_w q) q = Some (Some c) \<Longrightarrow>
    mstep N junk s (go t (Filled p (c, 0) v) q s)"
| swap: "pusher s t = Filled p nx v \<Longrightarrow> m_wp (mq s) = p \<Longrightarrow> q_next (m_w (mq s)) (mq s) = Some (Some c) \<Longrightarrow>
    mstep N junk s (go t (Swapped p nx v) ((mq s)\<lparr>m_w := c\<rparr>) s)"
| publish: "pusher s t = Swapped p nx v \<Longrightarrow> m_wp (mq s) = p \<Longrightarrow>
    mstep N junk s ((go t Reset ((mq s)\<lparr>m_wp := nx\<rparr>) s)\<lparr>published := published s @ [v]\<rparr>)"
| reset: "pusher s t = Reset \<Longrightarrow> mstep N junk s (go t Idle ((mq s)\<lparr>m_wpos := 0\<rparr>) s)"
| pop: "queue_pop N (mq s) = Some (r, q) \<Longrightarrow>
    mstep N junk s (s\<lparr>mq := q, popped := popped s @ (case r of None \<Rightarrow> [] | Some x \<Rightarrow> [x])\<rparr>)"

definition mstart :: "'a queue \<Rightarrow> 'a mstate" where
  "mstart q = \<lparr>mq = q, pusher = (\<lambda>_. Idle), published = [], popped = []\<rparr>"

inductive mreach :: "nat \<Rightarrow> (nat \<Rightarrow> 'a) \<Rightarrow> 'a queue \<Rightarrow> 'a mstate \<Rightarrow> bool" for N junk q where
  start: "mreach N junk q (mstart q)"
| step: "mreach N junk q s \<Longrightarrow> mstep N junk s s' \<Longrightarrow> mreach N junk q s'"

inductive_cases mstepE: "mstep N junk s s'"

section \<open>The invariant\<close>

definition slot :: "nat \<Rightarrow> 'a pusher \<Rightarrow> nat option" where
  "slot N st = (case st of Got k v \<Rightarrow> Some (k - 1) | Written p nx v \<Rightarrow> Some (snd p) | Idle \<Rightarrow> None
     | Enter v \<Rightarrow> None | Waiting v \<Rightarrow> None | _ \<Rightarrow> Some (N - 1))"

definition cell :: "'a queue \<Rightarrow> nat \<times> nat \<Rightarrow> 'a \<Rightarrow> bool" where
  "cell q p v \<longleftrightarrow> (\<exists>ch. chunks q (fst p) = Some ch \<and> c_p ch (snd p) = v)"

fun pusher_ok :: "nat \<Rightarrow> 'a queue \<Rightarrow> nat \<Rightarrow> nat \<Rightarrow> nat list \<Rightarrow> 'a pusher \<Rightarrow> bool" where
  "pusher_ok N q w i ns (Got k v) \<longleftrightarrow> i < k \<and> k \<le> N \<and> k \<le> m_wpos q \<and> m_w q = w \<and> (k = N \<longrightarrow> ns = [])"
| "pusher_ok N q w i ns (Written p nx v) \<longleftrightarrow> (\<exists>k. p = (w, k) \<and> nx = (w, k + 1) \<and> i \<le> k \<and> k + 1 < N \<and> k < m_wpos q)
     \<and> cell q p v \<and> m_w q = w"
| "pusher_ok N q w i ns (Expanding p v) \<longleftrightarrow> p = (w, N - 1) \<and> N \<le> m_wpos q \<and> cell q p v \<and> m_w q = w \<and> ns = []"
| "pusher_ok N q w i ns (Filled p nx v) \<longleftrightarrow> p = (w, N - 1) \<and> N \<le> m_wpos q \<and> cell q p v \<and> m_w q = w
     \<and> nx = (hd ns, 0) \<and> ns = [hd ns]"
| "pusher_ok N q w i ns (Swapped p nx v) \<longleftrightarrow> p = (w, N - 1) \<and> i = N - 1 \<and> N \<le> m_wpos q \<and> cell q p v \<and> m_w q = hd ns
     \<and> nx = (hd ns, 0) \<and> ns = [hd ns]"
| "pusher_ok N q w i ns Reset \<longleftrightarrow> N \<le> m_wpos q \<and> ns = [] \<and> m_w q = w \<and> i = 0"
| "pusher_ok N q w i ns st \<longleftrightarrow> True"

definition slots_apart :: "nat \<Rightarrow> (nat \<Rightarrow> 'a pusher) \<Rightarrow> bool" where
  "slots_apart N f \<longleftrightarrow> (\<forall>t u k. slot N (f t) = Some k \<longrightarrow> slot N (f u) = Some k \<longrightarrow> t = u)
     \<and> (\<forall>u t. f u = Reset \<longrightarrow> t \<noteq> u \<longrightarrow> slot N (f t) = None)"

definition slots_left :: "nat \<Rightarrow> 'a queue \<Rightarrow> nat \<Rightarrow> nat \<Rightarrow> nat list \<Rightarrow> bool" where
  "slots_left N q w i ns \<longleftrightarrow> (m_wpos q < N \<longrightarrow> m_w q = w \<and> ns = [] \<and> i \<le> m_wpos q)"

definition minv_with :: "nat \<Rightarrow> 'a mstate \<Rightarrow> nat list \<Rightarrow> nat \<Rightarrow> nat list \<Rightarrow> nat list \<Rightarrow> nat \<Rightarrow> 'a list \<Rightarrow> bool" where
  "minv_with N s cs w ns fs i xs \<longleftrightarrow> span N (mq s) cs w ns fs i xs \<and> published s = popped s @ xs
     \<and> (\<forall>t. pusher_ok N (mq s) w i ns (pusher s t)) \<and> slots_apart N (pusher s)
     \<and> slots_left N (mq s) w i ns"

definition minv :: "nat \<Rightarrow> 'a mstate \<Rightarrow> bool" where
  "minv N s \<longleftrightarrow> (\<exists>cs w ns fs i xs. minv_with N s cs w ns fs i xs)"

subsection \<open>What the single actions do to the queue\<close>

lemma span_cell_poke:
  assumes "span N q cs w ns fs i xs" and "i \<le> k" and "k < N"
  shows "\<exists>q'. q_poke N (w, k) v q = Some q' \<and> span N q' cs w ns fs i xs \<and> cell q' (w, k) v
    \<and> m_w q' = m_w q \<and> m_wpos q' = m_wpos q \<and> (\<forall>p u. p \<noteq> (w, k) \<longrightarrow> cell q' p u = cell q p u)"
proof -
  note h = assms(1) [unfolded span_def]
  obtain ch where ch: "chunks q w = Some ch" using h by (auto simp: linked_append)
  let ?ch = "ch\<lparr>c_p := (c_p ch)(k := v)\<rparr>"
  let ?q = "q\<lparr>chunks := (chunks q)(w \<mapsto> ?ch)\<rparr>"
  have w: "w \<notin> set cs" using h by auto
  have "take (length cs * N + i) (content N (chunks ?q) (cs @ [w])) = take (length cs * N + i) (content N (chunks q) (cs @ [w]))"
    using w cells_in_write [of "chunks q" w, OF ch assms(3), of v] assms(2) by simp
  moreover have "dom (chunks ?q) = dom (chunks q)" using ch by auto
  ultimately have "span N ?q cs w ns fs i xs"
    using h ch by (simp add: span_def linked_cells del: content_append fun_upd_apply)
  then show ?thesis
    using ch assms(3) by (intro exI [of _ ?q]) (auto simp: q_poke_def cell_def)
qed

lemma window_next:
  assumes "r \<le> P" and "P < length L"
  shows "drop r (take (Suc P) L) = drop r (take P L) @ [L ! P]"
  using assms by (simp add: take_Suc_conv_app_nth)

lemma span_visible:
  assumes "span N q cs w ns fs i xs" and "cell q (w, i) v"
  shows "drop (m_rpos q) (take (Suc (length cs * N + i)) (content N (chunks q) (cs @ [w]))) = xs @ [v]"
proof -
  note h = assms(1) [unfolded span_def]
  have "content N (chunks q) (cs @ [w]) ! (length cs * N + i) = v"
    using h assms(2) by (auto simp: nth_append cells_in_def cell_def)
  then show ?thesis
    using h window_next [of "m_rpos q" "length cs * N + i" "content N (chunks q) (cs @ [w])"] by simp
qed

lemma span_cas:
  assumes "span N q cs w ns fs i xs" and "cell q (w, i) v" and "i + 1 < N"
  shows "span N (q\<lparr>m_wp := (w, i + 1)\<rparr>) cs w ns fs (i + 1) (xs @ [v])"
  using assms span_visible [OF assms(1,2)] by (simp add: span_def)

lemma span_publish:
  assumes "span N q cs w [n] fs i xs" and "cell q (w, i) v" and "i = N - 1"
  shows "span N (q\<lparr>m_wp := (n, 0)\<rparr>) (cs @ [w]) n [] fs 0 (xs @ [v])"
proof -
  note h = assms(1) [unfolded span_def]
  have N: "N + length cs * N = Suc (length cs * N + i)" using h assms(3) by simp
  show ?thesis
    using h span_visible [OF assms(1,2)] assms(3) unfolding span_def by (simp add: N)
qed

lemma span_expand:
  assumes "span N q cs w [] fs i xs" and "m_w q = w"
  shows "\<exists>q' c fs'. q_next w q = Some None \<and> queue_expand True junk q = Some (True, q') \<and> q_next w q' = Some (Some c)
    \<and> span N q' cs w [c] fs' i xs \<and> m_w q' = w \<and> m_wpos q' = m_wpos q
    \<and> (\<forall>k u. cell q' (w, k) u = cell q (w, k) u)"
proof -
  note h = assms(1) [unfolded span_def]
  obtain ch where ch: "chunks q w = Some ch" "c_next ch = None" "linked (chunks q) (Some (m_r q)) cs (Some w)"
    using h by (auto simp: linked_append)
  have fresh: "w \<notin> set cs" "w \<notin> set fs" using h by auto
  have pre: "linked (chunks q) (m_cache q) fs None" "distinct (m_w q # fs)" "chunks q (m_w q) = Some ch"
    "\<forall>a \<in> dom (chunks q). a < q_fresh q" using h fresh ch(1) assms(2) by auto
  from expand_ok [OF pre, of junk] obtain c cells' f mc fs' where
    e: "queue_expand True junk q = Some (True, q\<lparr>chunks := (chunks q)(c \<mapsto> \<lparr>c_next = None, c_p = cells'\<rparr>,
        m_w q \<mapsto> ch\<lparr>c_next := Some c\<rparr>), q_fresh := f, m_cache := mc\<rparr>)"
      "c \<noteq> m_w q" "c < f" "q_fresh q \<le> f" "linked (chunks q) mc fs' None"
      "fs = c # fs' \<or> fs = [] \<and> fs' = [] \<and> c \<notin> dom (chunks q)" by (elim exE conjE) (rule that)
  let ?h = "(chunks q)(c \<mapsto> \<lparr>c_next = None, c_p = cells'\<rparr>, w \<mapsto> ch\<lparr>c_next := Some c\<rparr>)"
  let ?q = "q\<lparr>chunks := ?h, q_fresh := f, m_cache := mc\<rparr>"
  have dom_q: "dom (chunks q) = set (cs @ w # fs)" "distinct (cs @ w # fs)" using h by auto
  have c: "c \<notin> set cs" "c \<notin> set fs'" "w \<notin> set fs'" "distinct fs'" "set fs' \<subseteq> set fs" "c \<noteq> w"
    using e(2,6) dom_q fresh assms(2) by auto
  have "linked ?h (Some (m_r q)) cs (Some w)" "linked ?h mc fs' None" using ch(3) e(5) c fresh by auto
  moreover have "linked ?h (Some w) [w, c] None" using c by simp
  moreover have "dom ?h = set (cs @ w # [c] @ fs')" using dom_q(1) e(6) by auto
  moreover have "content N ?h (cs @ [w]) = content N (chunks q) (cs @ [w])"
    using c fresh ch(1) by (simp add: cells_in_def)
  moreover have "\<forall>a \<in> set fs. a < q_fresh q" "\<forall>a \<in> set cs. a < q_fresh q" "w < q_fresh q" using h by auto
  then have "\<forall>a \<in> set (cs @ w # [c] @ fs'). a < f" using e(3,4) c(5) by fastforce
  ultimately have "span N ?q cs w [c] fs' i xs"
    using h c fresh by (auto simp: span_def linked_append)
  moreover have "\<forall>k u. cell ?q (w, k) u = cell q (w, k) u" using ch(1) by (simp add: cell_def)
  ultimately show ?thesis
    using e(1) ch assms(2) by (intro exI [of _ ?q] exI [of _ c] exI [of _ fs']) (simp add: q_next_def)
qed

subsection \<open>Every step keeps the invariant\<close>

lemma cell_wp [simp]:
  "cell (q\<lparr>m_wp := x\<rparr>) p v = cell q p v" "cell (q\<lparr>m_wpos := y\<rparr>) p v = cell q p v" "cell (q\<lparr>m_w := z\<rparr>) p v = cell q p v"
  by (simp_all add: cell_def)

text \<open>A thread keeps its part if the cells of chunk \<open>w\<close> that it wrote and the write side stay.\<close>

lemma pusher_ok_cong:
  assumes "pusher_ok N q w i ns st" and "m_w q' = m_w q" and "m_wpos q \<le> m_wpos q'"
    and "\<And>k v. slot N st = Some k \<Longrightarrow> cell q (w, k) v \<Longrightarrow> cell q' (w, k) v"
  shows "pusher_ok N q' w i ns st"
  using assms by (cases st) (auto simp: slot_def)

lemma slots_apart_set:
  assumes ap: "slots_apart N f" and new: "\<And>u k. u \<noteq> t \<Longrightarrow> slot N st = Some k \<Longrightarrow> slot N (f u) \<noteq> Some k"
    and r: "\<And>u. st = Reset \<Longrightarrow> u \<noteq> t \<Longrightarrow> slot N (f u) = None"
    and o: "\<And>u. u \<noteq> t \<Longrightarrow> f u = Reset \<Longrightarrow> slot N st = None"
  shows "slots_apart N (f(t := st))"
  unfolding slots_apart_def
proof (intro conjI allI impI)
  fix a b k
  assume a: "slot N ((f(t := st)) a) = Some k" and b: "slot N ((f(t := st)) b) = Some k"
  consider "a = t" "b = t" | "a = t" "b \<noteq> t" | "a \<noteq> t" "b = t" | "a \<noteq> t" "b \<noteq> t" by blast
  then show "a = b"
  proof cases
    case 4
    with a b ap show ?thesis by (simp add: slots_apart_def)
  qed (use a b new in auto)
next
  fix u a
  assume u: "(f(t := st)) u = Reset" and a: "a \<noteq> u"
  consider "u = t" | "u \<noteq> t" "a = t" | "u \<noteq> t" "a \<noteq> t" by blast
  then show "slot N ((f(t := st)) a) = None"
  proof cases
    case 2
    with u a o [of u] show ?thesis by auto
  next
    case 3
    with u a ap show ?thesis unfolding slots_apart_def by auto
  qed (use u a r in auto)
qed

lemma slots_apart_update:
  assumes ap: "slots_apart N f" and s: "slot N st = None \<or> slot N st = slot N (f t)"
    and r: "st = Reset \<longrightarrow> (\<forall>u. u \<noteq> t \<longrightarrow> slot N (f u) = None)"
  shows "slots_apart N (f(t := st))"
proof (rule slots_apart_set [OF ap])
  fix u k assume "u \<noteq> t" "slot N st = Some k"
  then show "slot N (f u) \<noteq> Some k" using ap s unfolding slots_apart_def by (metis option.distinct(1))
next
  fix u assume "u \<noteq> t" "f u = Reset"
  then show "slot N st = None" using ap s unfolding slots_apart_def by metis
qed (use r in blast)

lemma other_slot:
  "slots_apart N f \<Longrightarrow> u \<noteq> t \<Longrightarrow> slot N (f t) = Some k \<Longrightarrow> slot N (f u) = Some j \<Longrightarrow> j \<noteq> k"
  by (auto simp: slots_apart_def)

text \<open>With the last slot of the chunk reached, nobody else holds a slot.\<close>

lemma last_alone:
  assumes "\<forall>t. pusher_ok N q w (N - 1) ns (f t)" and "slots_apart N f" and "slot N (f t) = Some (N - 1)" and "u \<noteq> t"
  shows "slot N (f u) = None"
proof (cases "slot N (f u)")
  case (Some j)
  with other_slot [OF assms(2,4,3)] have "j \<noteq> N - 1" .
  moreover from assms(1) have "pusher_ok N q w (N - 1) ns (f u)" by blast
  ultimately show ?thesis using Some by (cases "f u") (auto simp: slot_def)
qed

lemma go_simps [simp]:
  "mq (go t st q s) = q" "pusher (go t st q s) = (pusher s)(t := st)" "published (go t st q s) = published s"
  "popped (go t st q s) = popped s"
  by (simp_all add: go_def)

lemma span_write_side [simp]:
  "span N (q\<lparr>m_wpos := k\<rparr>) cs w ns fs i xs = span N q cs w ns fs i xs"
  "span N (q\<lparr>m_w := k\<rparr>) cs w ns fs i xs = span N q cs w ns fs i xs"
  by (simp_all add: span_def)

lemma minv_idle_steps:
  assumes "minv_with N s cs w ns fs i xs" and "slot N st = None" and "st \<noteq> Reset"
    and "pusher_ok N (mq s) w i ns st"
  shows "minv N (go t st (mq s) s)"
proof -
  have "slots_apart N ((pusher s)(t := st))"
    using assms slots_apart_update [of N "pusher s" st t] by (simp add: minv_with_def)
  then have "minv_with N (go t st (mq s) s) cs w ns fs i xs"
    using assms(1,4) by (simp add: minv_with_def)
  then show ?thesis unfolding minv_def by blast
qed

lemma minv_fetch:
  assumes m: "minv_with N s cs w ns fs i xs" and t: "pusher s t = Enter v" and k: "k = m_wpos (mq s) + 1"
  shows "minv N (go t (if k \<le> N then Got k v else Waiting v) ((mq s)\<lparr>m_wpos := k\<rparr>) s)"
proof -
  note h = m [unfolded minv_with_def slots_left_def]
  let ?st = "if k \<le> N then Got k v else Waiting v" and ?q = "(mq s)\<lparr>m_wpos := k\<rparr>"
  have ok: "pusher_ok N ?q w i ns (pusher s u)" for u
  proof (rule pusher_ok_cong [of N "mq s"])
    show "pusher_ok N (mq s) w i ns (pusher s u)" using h by blast
  qed (use k in simp_all)
  have none: "slot N (pusher s u) \<noteq> Some (k - 1)" if "k \<le> N" for u
  proof -
    have "pusher_ok N (mq s) w i ns (pusher s u)" using h by blast
    then show ?thesis using k that by (cases "pusher s u") (auto simp: slot_def)
  qed
  have reset: "pusher s u \<noteq> Reset" if "k \<le> N" for u
  proof
    assume "pusher s u = Reset"
    moreover have "pusher_ok N (mq s) w i ns (pusher s u)" using h by blast
    ultimately show False using k that by simp
  qed
  have "slots_apart N ((pusher s)(t := ?st))"
  proof (cases "k \<le> N")
    case True
    then have s: "slot N ?st = Some (k - 1)" "?st \<noteq> Reset" by (simp_all add: slot_def)
    show ?thesis
      by (rule slots_apart_set) (use True none [OF True] reset [OF True] h s in auto)
  next
    case False
    then show ?thesis using slots_apart_update [of N "pusher s" "Waiting v" t] h by (simp add: slot_def)
  qed
  moreover have "pusher_ok N ?q w i ns ?st" using h k by auto
  ultimately have "minv_with N (go t ?st ?q s) cs w ns fs i xs"
    using h ok k unfolding minv_with_def slots_left_def by auto
  then show ?thesis unfolding minv_def by blast
qed

lemma minv_store:
  assumes m: "minv_with N s cs w ns fs i xs" and t: "pusher s t = Got k v"
    and q: "q_poke N (m_w (mq s), k - 1) v (mq s) = Some q"
    and st: "st = (if k = N then Expanding (m_w (mq s), N - 1) v else Written (m_w (mq s), k - 1) (m_w (mq s), k) v)"
  shows "minv N (go t st q s)"
proof -
  note h = m [unfolded minv_with_def slots_left_def]
  have apart: "slots_apart N (pusher s)" using h by blast
  have t': "i < k" "k \<le> N" "k \<le> m_wpos (mq s)" "m_w (mq s) = w" "k = N \<longrightarrow> ns = []"
    using h t by (metis pusher_ok.simps(1))+
  then have ik: "i \<le> k - 1" "k - 1 < N" by auto
  from span_cell_poke [OF _ ik, of "mq s" cs w ns fs xs v] h q t'(4) have
    q': "span N q cs w ns fs i xs" "cell q (w, k - 1) v" "m_w q = m_w (mq s)" "m_wpos q = m_wpos (mq s)"
    "\<forall>p u. p \<noteq> (w, k - 1) \<longrightarrow> cell q p u = cell (mq s) p u" by auto
  have slot: "slot N st = Some (k - 1)" "slot N (pusher s t) = Some (k - 1)" "st \<noteq> Reset" using st t by (auto simp: slot_def)
  have "pusher_ok N q w i ns (pusher s u)" if "u \<noteq> t" for u
  proof (rule pusher_ok_cong [of N "mq s"])
    fix j v' assume "slot N (pusher s u) = Some j" "cell (mq s) (w, j) v'"
    with other_slot [OF apart that slot(2)] h q'(5) show "cell q (w, j) v'" by auto
  qed (use h q' in auto)
  moreover have "pusher_ok N q w i ns st" using st q' t' by auto
  ultimately have "minv_with N (go t st q s) cs w ns fs i xs"
    using h q' slot slots_apart_update [of N "pusher s" st t] unfolding minv_with_def slots_left_def by auto
  then show ?thesis unfolding minv_def by blast
qed

lemma minv_cas:
  assumes m: "minv_with N s cs w ns fs i xs" and t: "pusher s t = Written p nx v" and p: "m_wp (mq s) = p"
  shows "minv N ((go t Idle ((mq s)\<lparr>m_wp := nx\<rparr>) s)\<lparr>published := published s @ [v]\<rparr>)"
proof -
  note h = m [unfolded minv_with_def slots_left_def]
  have apart: "slots_apart N (pusher s)" using h by blast
  have "pusher_ok N (mq s) w i ns (pusher s t)" using h by blast
  moreover have "p = (w, i)" using h p by (simp add: span_def)
  ultimately have t': "nx = (w, i + 1)" "i + 1 < N" "i < m_wpos (mq s)" "cell (mq s) (w, i) v" "p = (w, i)"
    using t by auto
  let ?q = "(mq s)\<lparr>m_wp := nx\<rparr>"
  have span: "span N ?q cs w ns fs (i + 1) (xs @ [v])" using span_cas [OF _ t'(4,2)] h t'(1) by simp
  have slot: "slot N (pusher s t) = Some i" using t t' by (simp add: slot_def)
  have "pusher_ok N ?q w (i + 1) ns (pusher s u)" if "u \<noteq> t" for u
  proof -
    have ok: "pusher_ok N (mq s) w i ns (pusher s u)" using h by blast
    have "pusher s u \<noteq> Reset" using h slot that unfolding slots_apart_def by (metis option.distinct(1))
    with ok other_slot [OF apart that slot] h t'(2) show ?thesis
      by (cases "pusher s u") (auto simp: slot_def Suc_le_eq le_less)
  qed
  moreover have "slots_apart N ((pusher s)(t := Idle))"
    using h slots_apart_update [of N "pusher s" Idle t] by (simp add: slot_def)
  ultimately have "minv_with N ((go t Idle ?q s)\<lparr>published := published s @ [v]\<rparr>) cs w ns fs (i + 1) (xs @ [v])"
    using h span t' unfolding minv_with_def slots_left_def by (auto simp: Suc_le_eq)
  then show ?thesis unfolding minv_def by blast
qed

lemma minv_expand:
  assumes m: "minv_with N s cs w ns fs i xs" and t: "pusher s t = Expanding p v"
    and e: "q_next (m_w (mq s)) (mq s) = Some nxt"
      "(if nxt = None then queue_expand True junk (mq s) else Some (True, mq s)) = Some (True, q)"
      "q_next (m_w q) q = Some (Some c)"
  shows "minv N (go t (Filled p (c, 0) v) q s)"
proof -
  note h = m [unfolded minv_with_def slots_left_def]
  have apart: "slots_apart N (pusher s)" using h by blast
  have "pusher_ok N (mq s) w i ns (pusher s t)" using h by blast
  then have t': "p = (w, N - 1)" "N \<le> m_wpos (mq s)" "cell (mq s) p v" "m_w (mq s) = w" "ns = []" using t by auto
  have "span N (mq s) cs w [] fs i xs" using h t'(5) by simp
  from span_expand [OF this t'(4), of junk] e t'(4) obtain fs' where q': "span N q cs w [c] fs' i xs"
    "m_w q = w" "m_wpos q = m_wpos (mq s)" "\<forall>k u. cell q (w, k) u = cell (mq s) (w, k) u" by auto
  have slot: "slot N (pusher s t) = Some (N - 1)" using t by (simp add: slot_def)
  have "pusher_ok N q w i [c] (pusher s u)" if "u \<noteq> t" for u
  proof -
    have ok: "pusher_ok N (mq s) w i ns (pusher s u)" using h by blast
    have "pusher s u \<noteq> Reset" using h slot that unfolding slots_apart_def by (metis option.distinct(1))
    with ok other_slot [OF apart that slot] h t' q' show ?thesis
      by (cases "pusher s u") (auto simp: slot_def)
  qed
  moreover have "slots_apart N ((pusher s)(t := Filled p (c, 0) v))"
    using h slots_apart_update [of N "pusher s" "Filled p (c, 0) v" t] slot by (simp add: slot_def)
  ultimately have "minv_with N (go t (Filled p (c, 0) v) q s) cs w [c] fs' i xs"
    using h t' q' unfolding minv_with_def slots_left_def by auto
  then show ?thesis unfolding minv_def by blast
qed

lemma minv_swap:
  assumes m: "minv_with N s cs w ns fs i xs" and t: "pusher s t = Filled p nx v" and p: "m_wp (mq s) = p"
    and c: "q_next (m_w (mq s)) (mq s) = Some (Some c)"
  shows "minv N (go t (Swapped p nx v) ((mq s)\<lparr>m_w := c\<rparr>) s)"
proof -
  note h = m [unfolded minv_with_def slots_left_def]
  have "pusher_ok N (mq s) w i ns (pusher s t)" using h by blast
  then have t': "p = (w, N - 1)" "N \<le> m_wpos (mq s)" "cell (mq s) p v" "m_w (mq s) = w" "nx = (hd ns, 0)" "ns = [hd ns]"
    using t by auto
  then have i: "i = N - 1" using h p by (simp add: span_def)
  have "linked (chunks (mq s)) (Some (m_r (mq s))) (cs @ w # [hd ns]) None" using h t'(6) by (simp add: span_def)
  then have "c = hd ns" using c t'(4) by (auto simp: linked_append q_next_def)
  have slot: "slot N (pusher s t) = Some (N - 1)" using t by (simp add: slot_def)
  have none: "slot N (pusher s u) = None" if "u \<noteq> t" for u
    using last_alone [of N "mq s" w ns "pusher s" t u] h slot that i by blast
  have "pusher_ok N ((mq s)\<lparr>m_w := c\<rparr>) w i ns (pusher s u)" if "u \<noteq> t" for u
    using none [OF that] by (cases "pusher s u") (auto simp: slot_def)
  moreover have "slots_apart N ((pusher s)(t := Swapped p nx v))"
    using h slots_apart_update [of N "pusher s" "Swapped p nx v" t] slot by (simp add: slot_def)
  ultimately have "minv_with N (go t (Swapped p nx v) ((mq s)\<lparr>m_w := c\<rparr>) s) cs w ns fs i xs"
    using h t' i \<open>c = hd ns\<close> unfolding minv_with_def slots_left_def by auto
  then show ?thesis unfolding minv_def by blast
qed

lemma minv_publish:
  assumes m: "minv_with N s cs w ns fs i xs" and t: "pusher s t = Swapped p nx v"
  shows "minv N ((go t Reset ((mq s)\<lparr>m_wp := nx\<rparr>) s)\<lparr>published := published s @ [v]\<rparr>)"
proof -
  note h = m [unfolded minv_with_def slots_left_def]
  have "pusher_ok N (mq s) w i ns (pusher s t)" using h by blast
  then obtain n where t': "p = (w, i)" "i = N - 1" "N \<le> m_wpos (mq s)" "cell (mq s) (w, i) v" "m_w (mq s) = n" "nx = (n, 0)" "ns = [n]"
    using t by auto
  let ?q = "(mq s)\<lparr>m_wp := nx\<rparr>"
  have span: "span N ?q (cs @ [w]) n [] fs 0 (xs @ [v])"
    using span_publish [OF _ t'(4,2)] h t'(6,7) by simp
  have slot: "slot N (pusher s t) = Some (N - 1)" using t by (simp add: slot_def)
  have none: "slot N (pusher s u) = None" if "u \<noteq> t" for u
    using last_alone [of N "mq s" w ns "pusher s" t u] h slot that t'(2) by blast
  have "pusher_ok N ?q n 0 [] (pusher s u)" if "u \<noteq> t" for u
    using none [OF that] by (cases "pusher s u") (auto simp: slot_def)
  moreover have "slots_apart N ((pusher s)(t := Reset))"
    using h none slot slots_apart_update [of N "pusher s" Reset t] by (simp add: slot_def [of N Reset])
  ultimately have "minv_with N ((go t Reset ?q s)\<lparr>published := published s @ [v]\<rparr>) (cs @ [w]) n [] fs 0 (xs @ [v])"
    using h span t' unfolding minv_with_def slots_left_def by auto
  then show ?thesis unfolding minv_def by blast
qed

lemma minv_reset:
  assumes m: "minv_with N s cs w ns fs i xs" and t: "pusher s t = Reset"
  shows "minv N (go t Idle ((mq s)\<lparr>m_wpos := 0\<rparr>) s)"
proof -
  note h = m [unfolded minv_with_def slots_left_def]
  have "pusher_ok N (mq s) w i ns (pusher s t)" using h by blast
  then have t': "ns = []" "m_w (mq s) = w" "i = 0" using t by auto
  have none: "slot N (pusher s u) = None" if "u \<noteq> t" for u using h t that by (auto simp: slots_apart_def)
  have "pusher_ok N ((mq s)\<lparr>m_wpos := 0\<rparr>) w i ns (pusher s u)" if "u \<noteq> t" for u
    using none [OF that] by (cases "pusher s u") (auto simp: slot_def)
  moreover have "slots_apart N ((pusher s)(t := Idle))"
    using h slots_apart_update [of N "pusher s" Idle t] by (simp add: slot_def)
  ultimately have "minv_with N (go t Idle ((mq s)\<lparr>m_wpos := 0\<rparr>) s) cs w ns fs i xs"
    using h t' unfolding minv_with_def slots_left_def by auto
  then show ?thesis unfolding minv_def by blast
qed

lemma minv_pop:
  assumes m: "minv_with N s cs w ns fs i xs" and q: "queue_pop N (mq s) = Some (r, q)"
  shows "minv N (s\<lparr>mq := q, popped := popped s @ (case r of None \<Rightarrow> [] | Some x \<Rightarrow> [x])\<rparr>)"
proof (cases xs)
  case Nil
  with m q span_pop_empty [of N "mq s" cs w ns fs i] have "r = None" "q = mq s" by (auto simp: minv_with_def)
  moreover from this have "minv_with N (s\<lparr>mq := q, popped := popped s @ (case r of None \<Rightarrow> [] | Some x \<Rightarrow> [x])\<rparr>) cs w ns fs i xs"
    using m unfolding minv_with_def by simp
  ultimately show ?thesis unfolding minv_def by blast
next
  case (Cons x ys)
  note h = m [unfolded minv_with_def]
  have "span N (mq s) cs w ns fs i (x # ys)" using h Cons by simp
  from span_pop [OF this] obtain q1 cs' fs' where q1: "queue_pop N (mq s) = Some (Some x, q1)"
    "span N q1 cs' w ns fs' i ys" "m_w q1 = m_w (mq s)" "m_wpos q1 = m_wpos (mq s)"
    "\<forall>c. map_option c_p (chunks q1 c) = map_option c_p (chunks (mq s) c)" by (elim exE conjE) (rule that)
  from q1(1) q have "r = Some x" "q1 = q" by simp_all
  note q' = this(1) q1(2-5) [unfolded this(2)]
  have cell: "cell q p v = cell (mq s) p v" for p v
    using q'(5) [rule_format, of "fst p"] unfolding cell_def
    by (cases "chunks q (fst p)"; cases "chunks (mq s) (fst p)") auto
  have "pusher_ok N q w i ns (pusher s u)" for u
  proof (rule pusher_ok_cong [of N "mq s"])
    show "pusher_ok N (mq s) w i ns (pusher s u)" using h by blast
  qed (use q'(3,4) cell in simp_all)
  then have "minv_with N (s\<lparr>mq := q, popped := popped s @ (case r of None \<Rightarrow> [] | Some x \<Rightarrow> [x])\<rparr>) cs' w ns fs' i ys"
    using h q'(1-4) Cons by (simp add: minv_with_def slots_left_def [of N q] slots_left_def [of N "mq s"] del: imp_disjL)
  then show ?thesis unfolding minv_def by blast
qed

lemma minv_step:
  assumes "minv N s" and "mstep N junk s s'"
  shows "minv N s'"
proof -
  obtain cs w ns fs i xs where m: "minv_with N s cs w ns fs i xs" using assms(1) by (auto simp: minv_def)
  from assms(2) show ?thesis
  proof cases
    case (call t v)
    with m show ?thesis by (simp add: minv_idle_steps slot_def)
  next
    case (fetch t v k)
    with minv_fetch [OF m] show ?thesis by simp
  next
    case (retry t v)
    with m show ?thesis by (simp add: minv_idle_steps slot_def)
  next
    case (store t k v q)
    with minv_store [OF m store(2)] show ?thesis by simp
  next
    case (cas t p nx v)
    with minv_cas [OF m] show ?thesis by simp
  next
    case (fill t v q)
    with minv_store [OF m fill(2)] show ?thesis by simp
  next
    case (expand t p v nxt q c)
    with minv_expand [OF m] show ?thesis by simp
  next
    case (swap t p nx v c)
    with minv_swap [OF m] show ?thesis by simp
  next
    case (publish t p nx v)
    with minv_publish [OF m] show ?thesis by simp
  next
    case (reset t)
    with minv_reset [OF m] show ?thesis by simp
  next
    case (pop r q)
    with minv_pop [OF m] show ?thesis by simp
  qed
qed

lemma minv_start:
  assumes "0 < N" and "queue_init True junk = Inr q"
  shows "minv N (mstart q)"
proof -
  have "span N q [] (m_w q) [] [] 0 []" "m_wpos q = 0"
    using assms by (auto simp: queue_init_def queue_allocate_def span_def split: if_splits)
  then have "minv_with N (mstart q) [] (m_w q) [] [] 0 []"
    by (simp add: minv_with_def mstart_def slots_left_def slots_apart_def slot_def)
  then show ?thesis unfolding minv_def by blast
qed

lemma minv_reach: "mreach N junk q s \<Longrightarrow> 0 < N \<Longrightarrow> queue_init True junk = Inr q \<Longrightarrow> minv N s"
  by (induction rule: mreach.induct) (auto intro: minv_start minv_step)

section \<open>Properties\<close>

text \<open>
  C17: Concurrent pushes are linearised.  Whatever the interleaving of any number of threads in
  \<open>mpush\<close> with one thread popping, the values popped so far are the first of the values made visible
  so far, in that order, and the next pop answers the first one left, or nothing when none is left.
\<close>

theorem mpush_linearised:
  assumes "0 < N" and "queue_init True junk = Inr q" and "mreach N junk q s"
  shows "\<exists>xs q'. published s = popped s @ xs
    \<and> queue_pop N (mq s) = Some (case xs of [] \<Rightarrow> None | x # _ \<Rightarrow> Some x, q')"
proof -
  obtain cs w ns fs i xs where m: "span N (mq s) cs w ns fs i xs" "published s = popped s @ xs"
    using minv_reach [OF assms(3,1,2)] by (auto simp: minv_def minv_with_def)
  then show ?thesis using span_pop_empty [of N "mq s"] span_pop [of N "mq s"]
    by (cases xs) fastforce+
qed

theorem mpush_linearised_witness:
  "\<exists>q s q'. queue_init True (\<lambda>_. 0) = Inr q \<and> mreach 4 (\<lambda>_. 0) q s \<and> published s = popped s @ [7::nat]
    \<and> queue_pop 4 (mq s) = Some (Some 7, q')"
proof -
  let ?junk = "\<lambda>_. 0 :: nat"
  obtain q :: "nat queue" where q: "queue_init True ?junk = Inr q" using init_holds [of 4 ?junk] by auto
  then have q': "chunks q 0 = Some \<lparr>c_next = None, c_p = ?junk\<rparr>" "m_w q = 0" "m_wpos q = 0" "m_wp q = (0, 0)"
    by (auto simp: queue_init_def queue_allocate_def)
  let ?s0 = "mstart q"
  let ?s1 = "go 3 (Enter 7) (mq ?s0) ?s0"
  let ?s2 = "go 3 (Got 1 7) ((mq ?s1)\<lparr>m_wpos := 1\<rparr>) ?s1"
  have r1: "mreach 4 ?junk q ?s1" by (rule mreach.step [OF mreach.start]) (rule mstep.call, simp add: mstart_def)
  have r2: "mreach 4 ?junk q ?s2"
    using mreach.step [OF r1 mstep.fetch [of ?s1 3 7 1]] q' by (simp add: mstart_def)
  obtain q3 where q3: "q_poke 4 (m_w (mq ?s2), 1 - 1) 7 (mq ?s2) = Some q3" "m_wp q3 = (0, 0)"
    using q' by (auto simp: q_poke_def mstart_def)
  let ?s3 = "go 3 (Written (m_w (mq ?s2), 1 - 1) (m_w (mq ?s2), 1) 7) q3 ?s2"
  have r3: "mreach 4 ?junk q ?s3"
    by (rule mreach.step [OF r2], rule mstep.store [where k = 1]) (use q3 in simp_all)
  let ?s4 = "(go 3 Idle ((mq ?s3)\<lparr>m_wp := (m_w (mq ?s2), 1)\<rparr>) ?s3)\<lparr>published := published ?s3 @ [7]\<rparr>"
  have r4: "mreach 4 ?junk q ?s4"
    by (rule mreach.step [OF r3], rule mstep.cas) (use q3 q' in \<open>simp_all add: mstart_def\<close>)
  from mpush_linearised [OF _ q r4] obtain xs q4 where
    x: "published ?s4 = popped ?s4 @ xs" "queue_pop 4 (mq ?s4) = Some (case xs of [] \<Rightarrow> None | x # _ \<Rightarrow> Some x, q4)" by auto
  have "xs = [7]" using x(1) by (simp add: mstart_def)
  with x have "published ?s4 = popped ?s4 @ [7]" "queue_pop 4 (mq ?s4) = Some (Some 7, q4)" by simp_all
  with q r4 show ?thesis by blast
qed

text \<open>
  C18: No interleaving leads a pushing thread through a bad pointer: whoever has a slot finds the cell
  of that slot in the write chunk, and the thread that expands finds a chunk to link.
\<close>

theorem mpush_steps_defined:
  assumes "0 < N" and "queue_init True junk = Inr q" and "mreach N junk q s"
  shows "case pusher s t of
      Got k v \<Rightarrow> q_poke N (m_w (mq s), k - 1) v (mq s) \<noteq> None
    | Expanding p v \<Rightarrow> q_next (m_w (mq s)) (mq s) = Some None
        \<and> (\<exists>q' c. queue_expand True junk (mq s) = Some (True, q') \<and> q_next (m_w q') q' = Some (Some c))
    | Filled p nx v \<Rightarrow> q_next (m_w (mq s)) (mq s) = Some (Some (fst nx))
    | _ \<Rightarrow> True"
proof -
  obtain cs w ns fs i xs where m: "minv_with N s cs w ns fs i xs"
    using minv_reach [OF assms(3,1,2)] by (auto simp: minv_def)
  then have span: "span N (mq s) cs w ns fs i xs" and ok: "pusher_ok N (mq s) w i ns (pusher s t)"
    by (simp_all add: minv_with_def)
  show ?thesis
  proof (cases "pusher s t")
    case (Got k v)
    with ok span_cell_poke [OF span, of "k - 1" v] show ?thesis by fastforce
  next
    case (Expanding p v)
    with ok span span_expand [of N "mq s" cs w fs i xs junk] show ?thesis by auto
  next
    case (Filled p nx v)
    with ok have w: "m_w (mq s) = w" and n: "nx = (hd ns, 0)" "ns = [hd ns]" by simp_all
    have "linked (chunks (mq s)) (Some (m_r (mq s))) (cs @ w # [hd ns]) None" using span n(2) by (simp add: span_def)
    with w n(1) Filled show ?thesis by (auto simp: linked_append q_next_def)
  qed simp_all
qed

theorem mpush_steps_defined_witness:
  "\<exists>q s. queue_init True (\<lambda>_. 0) = Inr q \<and> mreach 1 (\<lambda>_. 0) q s \<and> pusher s 0 = Got 1 (7::nat)
    \<and> q_poke 1 (m_w (mq s), 1 - 1) 7 (mq s) \<noteq> None"
proof -
  let ?junk = "\<lambda>_. 0 :: nat"
  obtain q :: "nat queue" where q: "queue_init True ?junk = Inr q" using init_holds [of 1 ?junk] by auto
  then have w: "m_wpos q = 0" by (auto simp: queue_init_def queue_allocate_def)
  let ?s1 = "go 0 (Enter 7) (mq (mstart q)) (mstart q)"
  let ?s2 = "go 0 (Got 1 7) ((mq ?s1)\<lparr>m_wpos := 1\<rparr>) ?s1"
  have r1: "mreach 1 ?junk q ?s1" by (rule mreach.step [OF mreach.start]) (rule mstep.call, simp add: mstart_def)
  have r2: "mreach 1 ?junk q ?s2"
    using mreach.step [OF r1 mstep.fetch [of ?s1 0 7 1]] w by (simp add: mstart_def)
  have g: "pusher ?s2 0 = Got 1 7" by simp
  have "q_poke 1 (m_w (mq ?s2), 1 - 1) 7 (mq ?s2) \<noteq> None"
    using mpush_steps_defined [OF _ q r2, of 0] unfolding g by simp
  with q r2 g show ?thesis by blast
qed

end
