(* ===== verification/FixAlloc.thy ===== *)
theory FixAlloc
  imports Prelude
begin

text \<open>
  \<^verbatim>\<open>src/src/util/array.h\<close>: the allocator of elements of one size, \<open>fix_size_allocator\<close>, and the class
  \<open>array\<close> on top of it.  Elements of the pool are numbered from 0, elements from the heap get fresh
  numbers behind them; used elements form a doubly linked list, free ones a singly linked one.

  An operation is \<open>None\<close> where the code would use memory that is not an element.  Locks are not
  modelled: every operation is one thread's.  The counters are natural numbers; they count elements
  in memory and stay below \<open>2^32\<close>.

  The lemmas: the invariant of the two lists and the counters, kept by every operation; the contract
  of an allocator (locale \<open>pool\<close>): an element handed out is nobody else's until it is freed.
\<close>

section \<open>State\<close>

record elem =
  e_prev :: "nat option"
  e_next :: "nat option"
  e_used :: bool
  e_heap :: bool

record fix_alloc =
  elems :: "nat \<rightharpoonup> elem"
  fa_fresh :: nat
  fa_used :: "nat option"
  fa_free :: "nat option"
  fa_max :: nat
  fa_use :: nat
  fa_expandable :: bool

definition upd_elem :: "nat \<Rightarrow> (elem \<Rightarrow> elem) \<Rightarrow> fix_alloc \<Rightarrow> fix_alloc option" where
  "upd_elem e f a = (case elems a e of None \<Rightarrow> None | Some x \<Rightarrow> Some (a\<lparr>elems := (elems a)(e \<mapsto> f x)\<rparr>))"

definition upd_opt :: "nat option \<Rightarrow> (elem \<Rightarrow> elem) \<Rightarrow> fix_alloc \<Rightarrow> fix_alloc option" where
  "upd_opt e f a = (case e of None \<Rightarrow> Some a | Some e \<Rightarrow> upd_elem e f a)"

section \<open>Operations\<close>

text \<open>\<open>init_header\<close>: with no elements the loop's last write is behind the allocated memory.\<close>

definition init_header :: "nat \<Rightarrow> bool \<Rightarrow> fix_alloc option" where
  "init_header mx expandable =
     (if mx = 0 then None
      else Some \<lparr>elems = (\<lambda>i. if i < mx then Some \<lparr>e_prev = None, e_next = (if i + 1 < mx then Some (i + 1) else None),
               e_used = False, e_heap = False\<rparr> else None),
             fa_fresh = mx, fa_used = None, fa_free = Some 0, fa_max = mx, fa_use = 0, fa_expandable = expandable\<rparr>)"

text \<open>\<open>create\<close>: \<open>ok\<close> is whether the memory for header and pool is to be had.\<close>

definition fa_create :: "bool \<Rightarrow> nat \<Rightarrow> bool \<Rightarrow> fix_alloc option option" where
  "fa_create ok mx expandable = (if \<not> ok then Some None else map_option Some (init_header mx expandable))"

text \<open>The outer option is undefined behaviour, the inner one the code's \<open>NULL\<close>.\<close>

definition link_used :: "nat \<Rightarrow> fix_alloc \<Rightarrow> (nat option \<times> fix_alloc) option" where
  "link_used e a =
     (case upd_elem e (\<lambda>x. x\<lparr>e_prev := None, e_next := fa_used a\<rparr>) a of None \<Rightarrow> None
      | Some a' \<Rightarrow>
          (case upd_opt (fa_used a) (\<lambda>x. x\<lparr>e_prev := Some e\<rparr>) a' of None \<Rightarrow> None
           | Some a'' \<Rightarrow> Some (Some e, a''\<lparr>fa_used := Some e\<rparr>)))"

definition alloc_elm :: "bool \<Rightarrow> fix_alloc \<Rightarrow> (nat option \<times> fix_alloc) option" where
  "alloc_elm ok a =
     (case fa_free a of
        None \<Rightarrow>
          if fa_expandable a then
            if \<not> ok then Some (None, a)
            else link_used (fa_fresh a) (a\<lparr>elems := (elems a)(fa_fresh a \<mapsto>
                   \<lparr>e_prev = None, e_next = None, e_used = False, e_heap = True\<rparr>),
                 fa_fresh := Suc (fa_fresh a), fa_max := fa_max a + 1\<rparr>)
          else Some (None, a)
      | Some e \<Rightarrow> (case elems a e of None \<Rightarrow> None
          | Some x \<Rightarrow> link_used e (a\<lparr>fa_free := e_next x\<rparr>)))"

definition alloc_nolock :: "bool \<Rightarrow> fix_alloc \<Rightarrow> (nat option \<times> fix_alloc) option" where
  "alloc_nolock ok a =
     (case alloc_elm ok a of None \<Rightarrow> None
      | Some (None, a) \<Rightarrow> Some (None, a)
      | Some (Some e, a) \<Rightarrow> map_option (\<lambda>a. (Some e, a\<lparr>fa_use := fa_use a + 1\<rparr>)) (upd_elem e (\<lambda>x. x\<lparr>e_used := True\<rparr>) a))"

definition unlink_used :: "nat \<Rightarrow> elem \<Rightarrow> fix_alloc \<Rightarrow> fix_alloc option" where
  "unlink_used e x a =
     (if fa_used a = Some e then
        map_option (\<lambda>a. a\<lparr>fa_used := e_next x\<rparr>) (upd_opt (e_next x) (\<lambda>y. y\<lparr>e_prev := None\<rparr>) a)
      else case e_prev x of None \<Rightarrow> None
      | Some p \<Rightarrow>
          (case e_next x of
             None \<Rightarrow> upd_elem p (\<lambda>y. y\<lparr>e_next := None\<rparr>) a
           | Some n \<Rightarrow> (case upd_elem p (\<lambda>y. y\<lparr>e_next := Some n\<rparr>) a of None \<Rightarrow> None
               | Some a \<Rightarrow> upd_elem n (\<lambda>y. y\<lparr>e_prev := Some p\<rparr>) a)))"

definition free_elm :: "nat \<Rightarrow> fix_alloc \<Rightarrow> fix_alloc option" where
  "free_elm e a =
     (case elems a e of None \<Rightarrow> None
      | Some x \<Rightarrow>
          (case unlink_used e x a of None \<Rightarrow> None
           | Some a \<Rightarrow>
               if e_heap x \<and> fa_max a div 2 \<ge> fa_use a
               then Some (a\<lparr>elems := (elems a)(e := None), fa_max := fa_max a - 1\<rparr>)
               else map_option (\<lambda>b. b\<lparr>fa_free := Some e\<rparr>)
                 (upd_elem e (\<lambda>x. x\<lparr>e_prev := None, e_next := fa_free a, e_used := False\<rparr>) a)))"

definition fa_free_data :: "nat \<Rightarrow> fix_alloc \<Rightarrow> ((nbr_error + unit) \<times> fix_alloc) option" where
  "fa_free_data e a =
     (case elems a e of None \<Rightarrow> None
      | Some x \<Rightarrow>
          if \<not> e_used x then Some (Inl EALREADY, a)
          else if e_heap x \<or> e < fa_max a then
            map_option (\<lambda>a. (Inr (), a\<lparr>fa_use := fa_use a - 1\<rparr>)) (free_elm e a)
          else Some (Inl EINVAL, a))"

definition fa_first :: "fix_alloc \<Rightarrow> nat option" where
  "fa_first a = fa_used a"

definition fa_next :: "nat \<Rightarrow> fix_alloc \<Rightarrow> nat option option" where
  "fa_next e a = map_option e_next (elems a e)"

definition fa_get_index :: "nat \<Rightarrow> fix_alloc \<Rightarrow> nbr_error + nat" where
  "fa_get_index e a = (if fa_expandable a then Inl EINVAL else Inr e)"

definition fa_full :: "fix_alloc \<Rightarrow> bool" where
  "fa_full a \<longleftrightarrow> \<not> fa_expandable a \<and> fa_max a \<le> fa_use a"

text \<open>\<open>destroy\<close> frees the heap elements of both lists, then the block; \<open>n\<close> bounds one list.\<close>

fun free_heap :: "nat \<Rightarrow> nat option \<Rightarrow> fix_alloc \<Rightarrow> fix_alloc option" where
  "free_heap n None a = Some a"
| "free_heap 0 (Some e) a = None"
| "free_heap (Suc n) (Some e) a = (case elems a e of None \<Rightarrow> None
     | Some x \<Rightarrow> free_heap n (e_next x) (if e_heap x then a\<lparr>elems := (elems a)(e := None)\<rparr> else a))"

definition fa_destroy :: "fix_alloc \<Rightarrow> fix_alloc option" where
  "fa_destroy a =
     (case free_heap (fa_fresh a) (fa_used a) (a\<lparr>fa_use := 0\<rparr>) of None \<Rightarrow> None
      | Some a \<Rightarrow> (case free_heap (fa_fresh a) (fa_free a) a of None \<Rightarrow> None
          | Some a \<Rightarrow> Some (a\<lparr>elems := (\<lambda>e. case elems a e of Some x \<Rightarrow> if e_heap x then Some x else None | None \<Rightarrow> None)\<rparr>)))"

section \<open>The two lists\<close>

fun dseg :: "(nat \<rightharpoonup> elem) \<Rightarrow> nat option \<Rightarrow> nat option \<Rightarrow> nat list \<Rightarrow> nat option \<Rightarrow> nat option \<Rightarrow> bool" where
  "dseg h p t [] q nx \<longleftrightarrow> q = p \<and> nx = t"
| "dseg h p t (e # es) q nx \<longleftrightarrow> t = Some e \<and> (\<exists>x. h e = Some x \<and> e_prev x = p \<and> dseg h (Some e) (e_next x) es q nx)"

fun sll :: "(nat \<rightharpoonup> elem) \<Rightarrow> nat option \<Rightarrow> nat list \<Rightarrow> bool" where
  "sll h t [] \<longleftrightarrow> t = None"
| "sll h t (e # es) \<longleftrightarrow> t = Some e \<and> (\<exists>x. h e = Some x \<and> sll h (e_next x) es)"

text \<open>\<open>us\<close> is the used list and \<open>fs\<close> the free one; \<open>n\<close> is the size of the pool.\<close>

definition fa_inv :: "nat \<Rightarrow> fix_alloc \<Rightarrow> nat list \<Rightarrow> nat list \<Rightarrow> bool" where
  "fa_inv n a us fs \<longleftrightarrow> (\<exists>q. dseg (elems a) None (fa_used a) us q None) \<and> sll (elems a) (fa_free a) fs
     \<and> distinct (us @ fs) \<and> dom (elems a) = set (us @ fs)
     \<and> (\<forall>e x. elems a e = Some x \<longrightarrow> e_used x = (e \<in> set us)) \<and> (\<forall>e x. elems a e = Some x \<longrightarrow> e_heap x = (n \<le> e))
     \<and> fa_use a = length us \<and> fa_max a = length us + length fs
     \<and> (\<forall>e \<in> set (us @ fs). e < fa_fresh a) \<and> (\<forall>e < n. e \<in> set (us @ fs)) \<and> n \<le> fa_fresh a"

lemma dseg_append: "dseg h p t (as @ bs) q nx \<longleftrightarrow> (\<exists>r m. dseg h p t as r m \<and> dseg h r m bs q nx)"
  by (induction as arbitrary: p t) auto

lemma dseg_other [simp]: "e \<notin> set es \<Longrightarrow> dseg (h(e := x)) p t es q nx = dseg h p t es q nx"
  by (induction es arbitrary: p t) auto

lemma sll_other [simp]: "e \<notin> set es \<Longrightarrow> sll (h(e := x)) t es = sll h t es"
  by (induction es arbitrary: t) auto

lemma dseg_flag: "dseg h p t es q nx \<Longrightarrow> h e = Some x \<Longrightarrow> dseg (h(e \<mapsto> x\<lparr>e_used := b\<rparr>)) p t es q nx"
  by (induction es arbitrary: p t) auto

lemma sll_flag: "sll h t es \<Longrightarrow> h e = Some x \<Longrightarrow> sll (h(e \<mapsto> x\<lparr>e_used := b\<rparr>)) t es"
  by (induction es arbitrary: t) auto

lemma sll_cong: "(\<And>i. i \<in> set es \<Longrightarrow> h' i = h i) \<Longrightarrow> sll h' t es = sll h t es"
  by (induction es arbitrary: t) auto

lemma dseg_prev:
  "dseg h p t (e # es) q nx \<Longrightarrow> h e = Some x \<Longrightarrow> e \<notin> set es \<Longrightarrow>
     dseg (h(e \<mapsto> x\<lparr>e_prev := p'\<rparr>)) p' t (e # es) q nx"
  by auto

lemma dseg_next:
  "dseg h p t (es @ [e]) q nx \<Longrightarrow> h e = Some x \<Longrightarrow> e \<notin> set es \<Longrightarrow>
     dseg (h(e \<mapsto> x\<lparr>e_next := nx'\<rparr>)) p t (es @ [e]) q nx'"
  by (auto simp: dseg_append)

lemma dseg_some: "dseg h p t es q nx \<Longrightarrow> e \<in> set es \<Longrightarrow> \<exists>x. h e = Some x"
  by (induction es arbitrary: p t) auto

lemma sll_some: "sll h t es \<Longrightarrow> e \<in> set es \<Longrightarrow> \<exists>x. h e = Some x"
  by (induction es arbitrary: t) auto

text \<open>The links of some elements may change; what each element says of itself does not.\<close>

definition same_flags :: "(nat \<rightharpoonup> elem) \<Rightarrow> (nat \<rightharpoonup> elem) \<Rightarrow> bool" where
  "same_flags h h' \<longleftrightarrow> (\<forall>i. map_option (\<lambda>x. (e_used x, e_heap x)) (h' i) = map_option (\<lambda>x. (e_used x, e_heap x)) (h i))"

lemma same_flags_dom: "same_flags h h' \<Longrightarrow> dom h' = dom h"
proof -
  assume "same_flags h h'"
  then have *: "map_option (\<lambda>x. (e_used x, e_heap x)) (h' i) = map_option (\<lambda>x. (e_used x, e_heap x)) (h i)" for i
    by (simp add: same_flags_def)
  have "h' i = None \<longleftrightarrow> h i = None" for i
    using * [of i] by (cases "h' i"; cases "h i") simp_all
  then show ?thesis by (auto simp: dom_def)
qed

lemma same_flags_at: "same_flags h h' \<Longrightarrow> h i = Some x \<Longrightarrow> \<exists>y. h' i = Some y \<and> e_used y = e_used x \<and> e_heap y = e_heap x"
  by (auto simp: same_flags_def dest!: spec [of _ i])

lemma same_flags_links:
  "h e = Some x \<Longrightarrow> e_used y = e_used x \<Longrightarrow> e_heap y = e_heap x \<Longrightarrow> same_flags h (h(e \<mapsto> y))"
  by (simp add: same_flags_def)

lemma same_flags_trans: "same_flags h h' \<Longrightarrow> same_flags h' h'' \<Longrightarrow> same_flags h h''"
  by (simp add: same_flags_def)

lemma same_flags_refl [simp]: "same_flags h h"
  by (simp add: same_flags_def)

lemma link_used_at:
  assumes x: "elems a e = Some x" and d: "dseg (elems a) None (fa_used a) us q None" and e: "e \<notin> set us" "distinct us"
  shows "\<exists>h q'. link_used e a = Some (Some e, a\<lparr>elems := h, fa_used := Some e\<rparr>) \<and> dseg h None (Some e) (e # us) q' None
    \<and> same_flags (elems a) h \<and> (\<forall>i. i \<notin> set (e # us) \<longrightarrow> h i = elems a i)"
proof (cases us)
  case Nil
  then show ?thesis using x d e same_flags_links [where h = "elems a" and y = "x\<lparr>e_prev := None, e_next := None\<rparr>", OF x]
    by (intro exI [of _ "(elems a)(e \<mapsto> x\<lparr>e_prev := None, e_next := None\<rparr>)"])
       (auto simp: link_used_def upd_elem_def upd_opt_def)
next
  case (Cons u us')
  then obtain y where y: "elems a u = Some y" "fa_used a = Some u" using d by auto
  let ?h = "(elems a)(e \<mapsto> x\<lparr>e_prev := None, e_next := Some u\<rparr>)"
  have h: "?h u = Some y" using e y Cons by auto
  have "dseg (?h(u \<mapsto> y\<lparr>e_prev := Some e\<rparr>)) (Some e) (Some u) us q None"
    using dseg_prev [of ?h None "Some u" u us' q None y "Some e"] d e y h Cons by auto
  moreover have "same_flags (elems a) (?h(u \<mapsto> y\<lparr>e_prev := Some e\<rparr>))"
    using same_flags_trans [OF same_flags_links [where h = "elems a" and y = "x\<lparr>e_prev := None, e_next := Some u\<rparr>", OF x]
        same_flags_links [where h = "?h" and y = "y\<lparr>e_prev := Some e\<rparr>", OF h]] by simp
  moreover have "link_used e a = Some (Some e, a\<lparr>elems := ?h(u \<mapsto> y\<lparr>e_prev := Some e\<rparr>), fa_used := Some e\<rparr>)"
    using x y h by (simp add: link_used_def upd_elem_def upd_opt_def)
  ultimately show ?thesis using e Cons
    by (intro exI [of _ "?h(u \<mapsto> y\<lparr>e_prev := Some e\<rparr>)"] exI [of _ q]) auto
qed

lemma unlink_first:
  assumes d: "dseg (elems a) None (fa_used a) (e # bs) q None" and di: "distinct (e # bs)" and x: "elems a e = Some x"
  shows "\<exists>h t q'. unlink_used e x a = Some (a\<lparr>elems := h, fa_used := t\<rparr>) \<and> dseg h None t bs q' None
    \<and> same_flags (elems a) h \<and> (\<forall>i. i \<notin> set bs \<longrightarrow> h i = elems a i)"
proof (cases bs)
  case Nil
  then show ?thesis using d x
    by (intro exI [of _ "elems a"]) (auto simp: unlink_used_def upd_opt_def)
next
  case (Cons b bs')
  then obtain y where y: "elems a b = Some y" "e_next x = Some b" "fa_used a = Some e"
    and d': "dseg (elems a) (Some e) (Some b) (b # bs') q None" using d x by auto
  have "dseg ((elems a)(b \<mapsto> y\<lparr>e_prev := None\<rparr>)) None (Some b) (b # bs') q None"
    by (rule dseg_prev [OF d' y(1)]) (use di Cons in auto)
  then show ?thesis using y Cons same_flags_links [where h = "elems a" and y = "y\<lparr>e_prev := None\<rparr>", OF y(1)]
    by (intro exI [of _ "(elems a)(b \<mapsto> y\<lparr>e_prev := None\<rparr>)"] exI [of _ "Some b"] exI [of _ q])
       (auto simp: unlink_used_def upd_opt_def upd_elem_def)
qed

lemma unlink_later:
  assumes d: "dseg (elems a) None (fa_used a) ((as @ [p]) @ e # bs) q None" and di: "distinct ((as @ [p]) @ e # bs)"
    and x: "elems a e = Some x"
  shows "\<exists>h t q'. unlink_used e x a = Some (a\<lparr>elems := h, fa_used := t\<rparr>) \<and> dseg h None t ((as @ [p]) @ bs) q' None
    \<and> same_flags (elems a) h \<and> (\<forall>i. i \<notin> set ((as @ [p]) @ bs) \<longrightarrow> h i = elems a i)"
proof -
  from d obtain r where dp: "dseg (elems a) None (fa_used a) (as @ [p]) r (Some e)" and prev: "e_prev x = r"
    and db: "dseg (elems a) (Some e) (e_next x) bs q None"
    unfolding dseg_append [of _ _ _ "as @ [p]"] using x by auto
  obtain z where z: "elems a p = Some z" using dseg_some [OF dp, of p] by auto
  have r: "r = Some p" using dp by (auto simp: dseg_append)
  have ne: "fa_used a \<noteq> Some e" using dp di by (cases as) auto
  let ?h = "(elems a)(p \<mapsto> z\<lparr>e_next := e_next x\<rparr>)"
  have dp': "dseg ?h None (fa_used a) (as @ [p]) (Some p) (e_next x)"
    using dseg_next [OF dp [unfolded r] z, of "e_next x"] di by simp
  have fl: "same_flags (elems a) ?h" using same_flags_links [where h = "elems a" and y = "z\<lparr>e_next := e_next x\<rparr>", OF z] by simp
  show ?thesis
  proof (cases bs)
    case Nil
    then have "e_next x = None" using db by simp
    then show ?thesis using dp' fl z ne prev r Nil
      by (intro exI [of _ ?h] exI [of _ "fa_used a"] exI [of _ "Some p"])
         (auto simp: unlink_used_def upd_elem_def)
  next
    case (Cons b bs')
    then obtain y where y: "elems a b = Some y" "e_next x = Some b" using db by auto
    have hb: "?h b = Some y" using y di Cons by auto
    let ?k = "?h(b \<mapsto> y\<lparr>e_prev := Some p\<rparr>)"
    have p': "p \<notin> set bs" "b \<notin> set (as @ [p])" using di Cons by auto
    have "dseg ?h (Some e) (Some b) (b # bs') q None" using db y Cons p' by auto
    have "dseg ?k (Some p) (Some b) (b # bs') q None"
      by (rule dseg_prev [OF \<open>dseg ?h (Some e) (Some b) (b # bs') q None\<close> hb]) (use di Cons in simp)
    then have "dseg ?k (Some p) (Some b) bs q None" unfolding Cons .
    moreover have "dseg ?k None (fa_used a) (as @ [p]) (Some p) (Some b)"
      using dp' y p' by simp
    ultimately have "dseg ?k None (fa_used a) ((as @ [p]) @ bs) q None" unfolding dseg_append [of _ _ _ "as @ [p]"] by blast
    moreover have "same_flags (elems a) ?k"
      using same_flags_trans [OF fl same_flags_links [where h = "?h" and y = "y\<lparr>e_prev := Some p\<rparr>", OF hb]] by simp
    moreover have "unlink_used e x a = Some (a\<lparr>elems := ?k, fa_used := fa_used a\<rparr>)"
      using z y hb ne prev r by (simp add: unlink_used_def upd_elem_def)
    ultimately show ?thesis using Cons by (intro exI [of _ ?k] exI [of _ "fa_used a"] exI [of _ q]) auto
  qed
qed

lemma unlink_used_at:
  assumes "dseg (elems a) None (fa_used a) (as @ e # bs) q None" "distinct (as @ e # bs)" "elems a e = Some x"
  shows "\<exists>h t q'. unlink_used e x a = Some (a\<lparr>elems := h, fa_used := t\<rparr>) \<and> dseg h None t (as @ bs) q' None
    \<and> same_flags (elems a) h \<and> (\<forall>i. i \<notin> set (as @ bs) \<longrightarrow> h i = elems a i)"
proof (cases as rule: rev_cases)
  case Nil
  then show ?thesis using unlink_first [of a e bs q x] assms by simp
next
  case (snoc as' p)
  show ?thesis using unlink_later [of a as' p e bs q x] assms unfolding snoc by blast
qed

lemma sll_pool:
  "i + k = n \<Longrightarrow> (\<And>j. j < n \<Longrightarrow> \<exists>x. h j = Some x \<and> e_next x = (if j + 1 < n then Some (j + 1) else None)) \<Longrightarrow>
     sll h (if i < n then Some i else None) [i..<n]"
proof (induction k arbitrary: i)
  case (Suc k)
  then have i: "i < n" by simp
  from Suc.prems(2) [OF i] obtain x where x: "h i = Some x" "e_next x = (if i + 1 < n then Some (i + 1) else None)" by blast
  have "Suc i + k = n" using Suc.prems(1) by simp
  from Suc.IH [OF this Suc.prems(2)] x i show ?case unfolding upt_conv_Cons [OF i] by (simp split: if_splits)
qed simp

section \<open>The invariant\<close>

lemma fa_invI:
  assumes "dseg (elems a) None (fa_used a) us q None" "sll (elems a) (fa_free a) fs" "distinct (us @ fs)"
    "dom (elems a) = set (us @ fs)"
    "\<And>e x. elems a e = Some x \<Longrightarrow> e_used x = (e \<in> set us)" "\<And>e x. elems a e = Some x \<Longrightarrow> e_heap x = (n \<le> e)"
    "fa_use a = length us" "fa_max a = length us + length fs"
    "\<And>e. e \<in> set (us @ fs) \<Longrightarrow> e < fa_fresh a" "\<And>e. e < n \<Longrightarrow> e \<in> set (us @ fs)" "n \<le> fa_fresh a"
  shows "fa_inv n a us fs"
  unfolding fa_inv_def using assms by blast

lemma init_inv: "0 < n \<Longrightarrow> \<exists>a. init_header n b = Some a \<and> fa_inv n a [] [0..<n]"
  using sll_pool [of 0 n n] by (auto simp: init_header_def fa_inv_def split: if_splits)

lemma take_inv:
  assumes d: "dseg (elems b) None (fa_used b) us q None" and s: "sll (elems b) (fa_free b) fs" and di: "distinct (us @ e # fs)"
    and dom: "dom (elems b) = set (us @ e # fs)" and us: "\<And>i x. elems b i = Some x \<Longrightarrow> e_used x = (i \<in> set us)"
    and hp: "\<And>i x. elems b i = Some x \<Longrightarrow> e_heap x = (n \<le> i)"
    and cnt: "fa_use b = length us" "fa_max b = length us + length (e # fs)"
    and fr: "\<And>i. i \<in> set (us @ e # fs) \<Longrightarrow> i < fa_fresh b" "\<And>i. i < n \<Longrightarrow> i \<in> set (us @ e # fs)" "n \<le> fa_fresh b"
  shows "\<exists>h y. link_used e b = Some (Some e, b\<lparr>elems := h, fa_used := Some e\<rparr>) \<and> h e = Some y
    \<and> fa_inv n (b\<lparr>fa_used := Some e, elems := h(e \<mapsto> y\<lparr>e_used := True\<rparr>), fa_use := fa_use b + 1\<rparr>) (e # us) fs"
proof -
  have "e \<in> dom (elems b)" unfolding dom by simp
  then obtain x where x: "elems b e = Some x" by blast
  obtain h q' where l: "link_used e b = Some (Some e, b\<lparr>elems := h, fa_used := Some e\<rparr>)"
    and dh: "dseg h None (Some e) (e # us) q' None" and fl: "same_flags (elems b) h"
    and eq: "\<And>i. i \<notin> set (e # us) \<Longrightarrow> h i = elems b i"
    using link_used_at [OF x d] di by auto
  obtain y where y: "h e = Some y" using same_flags_at [OF fl x] by blast
  have bk: "\<exists>z. elems b i = Some z \<and> e_used w = e_used z \<and> e_heap w = e_heap z" if "h i = Some w" for i w
    using fl [unfolded same_flags_def, rule_format, of i] that by (cases "elems b i") auto
  have "fa_inv n (b\<lparr>fa_used := Some e, elems := h(e \<mapsto> y\<lparr>e_used := True\<rparr>), fa_use := fa_use b + 1\<rparr>) (e # us) fs"
  proof (rule fa_invI)
    have "h i = elems b i" if "i \<in> set fs" for i using eq [of i] di that by auto
    then have "sll h (fa_free b) fs" using s sll_cong [of fs h "elems b" "fa_free b"] by blast
    then show "sll (elems (b\<lparr>fa_used := Some e, elems := h(e \<mapsto> y\<lparr>e_used := True\<rparr>), fa_use := fa_use b + 1\<rparr>))
      (fa_free (b\<lparr>fa_used := Some e, elems := h(e \<mapsto> y\<lparr>e_used := True\<rparr>), fa_use := fa_use b + 1\<rparr>)) fs"
      using sll_flag [of h "fa_free b" fs e y True] y by simp
    show "dom (elems (b\<lparr>fa_used := Some e, elems := h(e \<mapsto> y\<lparr>e_used := True\<rparr>), fa_use := fa_use b + 1\<rparr>)) = set ((e # us) @ fs)"
      using same_flags_dom [OF fl] dom by auto
  next
    fix i w
    assume "elems (b\<lparr>fa_used := Some e, elems := h(e \<mapsto> y\<lparr>e_used := True\<rparr>), fa_use := fa_use b + 1\<rparr>) i = Some w"
    then have w: "(h(e \<mapsto> y\<lparr>e_used := True\<rparr>)) i = Some w" by simp
    show "e_used w = (i \<in> set (e # us))" using w bk [of i w] us by (cases "i = e") auto
    show "e_heap w = (n \<le> i)" using w bk [OF y] bk [of i w] hp by (cases "i = e") auto
  qed (use dseg_flag [OF dh y] di cnt fr in auto)
  with l y show ?thesis by blast
qed

lemma alloc_pool:
  assumes "fa_inv n a us (e # fs)"
  shows "\<exists>a'. alloc_nolock ok a = Some (Some e, a') \<and> fa_inv n a' (e # us) fs"
proof -
  from assms obtain q x where f: "fa_free a = Some e" and x: "elems a e = Some x" 
    and inv: "dseg (elems a) None (fa_used a) us q None" "sll (elems a) (e_next x) fs"
    unfolding fa_inv_def by auto
  have "\<exists>h y. link_used e (a\<lparr>fa_free := e_next x\<rparr>) = Some (Some e, a\<lparr>fa_free := e_next x\<rparr>\<lparr>elems := h, fa_used := Some e\<rparr>) \<and> h e = Some y
    \<and> fa_inv n (a\<lparr>fa_free := e_next x\<rparr>\<lparr>fa_used := Some e, elems := h(e \<mapsto> y\<lparr>e_used := True\<rparr>), fa_use := fa_use (a\<lparr>fa_free := e_next x\<rparr>) + 1\<rparr>) (e # us) fs"
    by (rule take_inv [where q = q]) (use inv assms [unfolded fa_inv_def] in auto)
  then show ?thesis using f x by (auto simp: alloc_nolock_def alloc_elm_def upd_elem_def)
qed

lemma alloc_heap:
  assumes inv: "fa_inv n a us []" and ex: "fa_expandable a"
  shows "\<exists>a'. alloc_nolock True a = Some (Some (fa_fresh a), a') \<and> fa_inv n a' (fa_fresh a # us) []"
proof -
  from inv obtain q where f: "fa_free a = None" and d: "dseg (elems a) None (fa_used a) us q None"
    unfolding fa_inv_def by auto
  have new: "fa_fresh a \<notin> set us" using inv unfolding fa_inv_def by auto
  let ?x = "\<lparr>e_prev = None, e_next = None, e_used = False, e_heap = True\<rparr>"
  let ?b = "a\<lparr>elems := (elems a)(fa_fresh a \<mapsto> ?x), fa_fresh := Suc (fa_fresh a), fa_max := fa_max a + 1\<rparr>"
  have "\<exists>h y. link_used (fa_fresh a) ?b = Some (Some (fa_fresh a), ?b\<lparr>elems := h, fa_used := Some (fa_fresh a)\<rparr>) \<and> h (fa_fresh a) = Some y
    \<and> fa_inv n (?b\<lparr>fa_used := Some (fa_fresh a), elems := h(fa_fresh a \<mapsto> y\<lparr>e_used := True\<rparr>), fa_use := fa_use ?b + 1\<rparr>) (fa_fresh a # us) []"
    by (rule take_inv [where q = q])
       (use f d new inv [unfolded fa_inv_def] in \<open>auto simp: less_Suc_eq split: if_splits\<close>)
  then obtain h y where "link_used (fa_fresh a) ?b = Some (Some (fa_fresh a), ?b\<lparr>elems := h, fa_used := Some (fa_fresh a)\<rparr>)" "h (fa_fresh a) = Some y"
    "fa_inv n (?b\<lparr>fa_used := Some (fa_fresh a), elems := h(fa_fresh a \<mapsto> y\<lparr>e_used := True\<rparr>), fa_use := fa_use ?b + 1\<rparr>) (fa_fresh a # us) []"
    by blast
  then show ?thesis using f ex by (simp add: alloc_nolock_def alloc_elm_def upd_elem_def)
qed

lemma alloc_none:
  assumes "fa_inv n a us fs" "alloc_nolock ok a = Some (None, a')"
  shows "a' = a \<and> fs = [] \<and> \<not> (fa_expandable a \<and> ok)"
proof (cases fs)
  case Nil
  then have f: "fa_free a = None" using assms(1) unfolding fa_inv_def by simp
  show ?thesis
  proof (cases "fa_expandable a \<and> ok")
    case True
    then show ?thesis using alloc_heap [of n a us] assms Nil by auto
  next
    case False
    then show ?thesis using f assms(2) Nil by (auto simp: alloc_nolock_def alloc_elm_def split: if_splits)
  qed
next
  case (Cons e fs')
  then show ?thesis using alloc_pool [of n a us e fs' ok] assms by auto
qed

lemma free_inv:
  assumes inv: "fa_inv n a (us @ e # vs) fs"
  shows "\<exists>a' x. elems a e = Some x \<and> fa_free_data e a = Some (Inr (), a')
    \<and> fa_inv n a' (us @ vs) (if n \<le> e \<and> fa_use a \<le> fa_max a div 2 then fs else e # fs)"
proof -
  from inv obtain q x where d: "dseg (elems a) None (fa_used a) (us @ e # vs) q None" and x: "elems a e = Some x"
    unfolding fa_inv_def by (auto simp: dseg_append)
  from inv have di: "distinct ((us @ e # vs) @ fs)" and dom: "dom (elems a) = set ((us @ e # vs) @ fs)"
    and s: "sll (elems a) (fa_free a) fs" unfolding fa_inv_def by blast+
  have us: "e_used w = (i \<in> set (us @ e # vs))" and hp: "e_heap w = (n \<le> i)" if "elems a i = Some w" for i w
    using inv that unfolding fa_inv_def by blast+
  obtain h t q' where u: "unlink_used e x a = Some (a\<lparr>elems := h, fa_used := t\<rparr>)" and dh: "dseg h None t (us @ vs) q' None"
    and fl: "same_flags (elems a) h" and eq: "\<And>i. i \<notin> set (us @ vs) \<Longrightarrow> h i = elems a i"
    using unlink_used_at [OF d _ x] di unfolding distinct_append by blast
  have bk: "\<exists>z. elems a i = Some z \<and> e_used w = e_used z \<and> e_heap w = e_heap z" if "h i = Some w" for i w
    using fl [unfolded same_flags_def, rule_format, of i] that by (cases "elems a i") auto
  have "h i = elems a i" if "i \<in> set fs" for i using eq [of i] di that by auto
  then have sh: "sll h (fa_free a) fs" using s sll_cong [of fs h "elems a" "fa_free a"] by blast
  have he: "h e = Some x" using eq [of e] x di by auto
  have ok: "e_used x" "e_heap x = (n \<le> e)" "e_heap x \<or> e < fa_max a"
  proof -
    show "e_used x" using us [OF x] by simp
    show "e_heap x = (n \<le> e)" by (rule hp [OF x])
    have "n \<le> fa_max a"
    proof -
      have sub: "{..<n} \<subseteq> set ((us @ e # vs) @ fs)" and m: "fa_max a = length ((us @ e # vs) @ fs)"
        using inv unfolding fa_inv_def by auto
      have "n \<le> card (set ((us @ e # vs) @ fs))" using card_mono [OF finite_set sub] by simp
      then show ?thesis using card_length [of "(us @ e # vs) @ fs"] m by simp
    qed
    then show "e_heap x \<or> e < fa_max a" using hp [OF x] by auto
  qed
  show ?thesis
  proof (cases "n \<le> e \<and> fa_use a \<le> fa_max a div 2")
    case True
    let ?r = "a\<lparr>fa_used := t, elems := h(e := None), fa_max := fa_max a - 1, fa_use := fa_use a - 1\<rparr>"
    have "fa_inv n ?r (us @ vs) fs"
    proof (rule fa_invI)
      fix i w assume "elems ?r i = Some w"
      then have w: "h i = Some w" "i \<noteq> e" by (auto split: if_splits)
      show "e_used w = (i \<in> set (us @ vs))" "e_heap w = (n \<le> i)" using bk [OF w(1)] w us hp by auto
    qed (use dh sh di dom same_flags_dom [OF fl] True inv in \<open>auto simp: fa_inv_def\<close>)
    then show ?thesis using x u ok True by (auto simp: fa_free_data_def free_elm_def)
  next
    case False
    let ?r = "a\<lparr>fa_used := t, elems := h(e \<mapsto> x\<lparr>e_prev := None, e_next := fa_free a, e_used := False\<rparr>),
      fa_free := Some e, fa_use := fa_use a - 1\<rparr>"
    have "fa_inv n ?r (us @ vs) (e # fs)"
    proof (rule fa_invI)
      fix i w assume "elems ?r i = Some w"
      then have w: "h i = Some w \<and> i \<noteq> e \<or> i = e \<and> e_used w = False \<and> e_heap w = e_heap x" by (auto split: if_splits)
      show "e_used w = (i \<in> set (us @ vs))" "e_heap w = (n \<le> i)" using bk [of i w] w us hp di x by auto
    qed (use dh sh di dom same_flags_dom [OF fl] False inv in \<open>auto simp: fa_inv_def\<close>)
    then show ?thesis using x u he ok False by (auto simp: fa_free_data_def free_elm_def upd_elem_def)
  qed
qed

lemma free_released: "fa_inv n a us fs \<Longrightarrow> e \<notin> set (us @ fs) \<Longrightarrow> elems a e = None"
  unfolding fa_inv_def by auto

lemma free_twice:
  assumes "fa_inv n a us fs" "e \<in> set fs"
  shows "fa_free_data e a = Some (Inl EALREADY, a)"
  using assms sll_some [of "elems a" "fa_free a" fs e] unfolding fa_inv_def by (auto simp: fa_free_data_def)

section \<open>Destruction\<close>

lemma dseg_sll: "dseg h p t es q None \<Longrightarrow> sll h t es"
  by (induction es arbitrary: p t) auto

abbreviation drop_heap :: "nat list \<Rightarrow> (nat \<rightharpoonup> elem) \<Rightarrow> (nat \<rightharpoonup> elem)" where
  "drop_heap es h \<equiv> (\<lambda>i. case h i of Some x \<Rightarrow> if i \<in> set es \<and> e_heap x then None else Some x | None \<Rightarrow> None)"

lemma free_heap_list:
  "sll (elems a) t es \<Longrightarrow> distinct es \<Longrightarrow> length es \<le> k \<Longrightarrow>
     free_heap k t a = Some (a\<lparr>elems := drop_heap es (elems a)\<rparr>)"
proof (induction es arbitrary: k t a)
  case Nil
  have "drop_heap [] (elems a) = elems a" by (auto split: option.splits)
  then show ?case using Nil by (cases k) auto
next
  case (Cons e es)
  then obtain x m where x: "elems a e = Some x" and t: "t = Some e" and s: "sll (elems a) (e_next x) es" and k: "k = Suc m"
    by (cases k) auto
  let ?a = "if e_heap x then a\<lparr>elems := (elems a)(e := None)\<rparr> else a"
  have "sll (elems ?a) (e_next x) es" using s Cons.prems by auto
  then have "free_heap m (e_next x) ?a = Some (?a\<lparr>elems := drop_heap es (elems ?a)\<rparr>)"
    using Cons k by (intro Cons.IH) auto
  moreover have "?a\<lparr>elems := drop_heap es (elems ?a)\<rparr> = a\<lparr>elems := drop_heap (e # es) (elems a)\<rparr>"
    using x Cons.prems(2) by (auto intro!: fix_alloc.equality ext split: option.splits)
  ultimately show ?case using x t k by simp
qed

lemma length_below: "distinct es \<Longrightarrow> (\<And>i. i \<in> set es \<Longrightarrow> i < (n::nat)) \<Longrightarrow> length es \<le> n"
  using card_mono [of "{..<n}" "set es"] distinct_card [of es] by auto

section \<open>The contract of an allocator\<close>

datatype pool_op = Get bool | Put nat

text \<open>
  A client and its handles: it gets elements (\<open>Get ok\<close>, whether the heap has memory) and gives back
  the one at position \<open>i\<close> of those it holds.
\<close>

fun pool_run :: "(bool \<Rightarrow> 's \<Rightarrow> (nat option \<times> 's) option) \<Rightarrow> (nat \<Rightarrow> 's \<Rightarrow> 's option) \<Rightarrow> pool_op list \<Rightarrow>
    's \<Rightarrow> nat list \<Rightarrow> ('s \<times> nat list) option" where
  "pool_run al fr [] s hs = Some (s, hs)"
| "pool_run al fr (Get ok # ops) s hs = (case al ok s of None \<Rightarrow> None
     | Some (None, s) \<Rightarrow> pool_run al fr ops s hs
     | Some (Some e, s) \<Rightarrow> pool_run al fr ops s (e # hs))"
| "pool_run al fr (Put i # ops) s hs =
     (if i < length hs then (case fr (hs ! i) s of None \<Rightarrow> None
        | Some s \<Rightarrow> pool_run al fr ops s (take i hs @ drop (Suc i) hs))
      else pool_run al fr ops s hs)"

locale pool =
  fixes al :: "bool \<Rightarrow> 's \<Rightarrow> (nat option \<times> 's) option"
    and fr :: "nat \<Rightarrow> 's \<Rightarrow> 's option"
    and live :: "'s \<Rightarrow> nat set"
    and ok :: "'s \<Rightarrow> bool"
  assumes al_law: "ok s \<Longrightarrow> \<exists>r s'. al m s = Some (r, s') \<and> ok s'
        \<and> (case r of None \<Rightarrow> live s' = live s | Some e \<Rightarrow> e \<notin> live s \<and> live s' = insert e (live s))"
    and fr_law: "ok s \<Longrightarrow> e \<in> live s \<Longrightarrow> \<exists>s'. fr e s = Some s' \<and> ok s' \<and> live s' = live s - {e}"
begin

lemma run_holds:
  "ok s \<Longrightarrow> live s = set hs \<Longrightarrow> distinct hs \<Longrightarrow>
     \<exists>s' hs'. pool_run al fr ops s hs = Some (s', hs') \<and> ok s' \<and> live s' = set hs' \<and> distinct hs'"
proof (induction ops arbitrary: s hs)
  case (Cons op ops)
  show ?case
  proof (cases op)
    case (Get m)
    obtain r s' where r: "al m s = Some (r, s')" "ok s'"
      "case r of None \<Rightarrow> live s' = live s | Some e \<Rightarrow> e \<notin> live s \<and> live s' = insert e (live s)"
      using al_law [OF Cons.prems(1)] by blast
    then show ?thesis using Cons.IH [of s' hs] Cons.IH [of s' "the r # hs"] Cons.prems Get by (cases r) auto
  next
    case (Put i)
    show ?thesis
    proof (cases "i < length hs")
      case True
      then obtain s' where s': "fr (hs ! i) s = Some s'" "ok s'" "live s' = live s - {hs ! i}"
        using fr_law [OF Cons.prems(1), of "hs ! i"] Cons.prems(2) by auto
      have split: "hs = take i hs @ hs ! i # drop (Suc i) hs" by (rule id_take_nth_drop [OF True])
      have "distinct (take i hs @ hs ! i # drop (Suc i) hs)" using split Cons.prems(3) by metis
      moreover have "set hs = insert (hs ! i) (set (take i hs @ drop (Suc i) hs))" using arg_cong [OF split, of set] by simp
      ultimately have "live s' = set (take i hs @ drop (Suc i) hs)" "distinct (take i hs @ drop (Suc i) hs)"
        using s'(3) Cons.prems(2) by auto
      then show ?thesis using Cons.IH [of s' "take i hs @ drop (Suc i) hs"] s' True Put by simp
    next
      case False
      then show ?thesis using Cons.IH [of s hs] Cons.prems Put by simp
    qed
  qed
qed auto

end

definition fa_put :: "nat \<Rightarrow> fix_alloc \<Rightarrow> fix_alloc option" where
  "fa_put e a = (case fa_free_data e a of Some (Inr _, a) \<Rightarrow> Some a | _ \<Rightarrow> None)"

definition fa_live :: "fix_alloc \<Rightarrow> nat set" where
  "fa_live a = {e. \<exists>x. elems a e = Some x \<and> e_used x}"

definition fa_ok :: "nat \<Rightarrow> fix_alloc \<Rightarrow> bool" where
  "fa_ok n a \<longleftrightarrow> (\<exists>us fs. fa_inv n a us fs)"

lemma fa_live_us: "fa_inv n a us fs \<Longrightarrow> fa_live a = set us"
proof -
  assume i: "fa_inv n a us fs"
  have "e \<in> fa_live a \<longleftrightarrow> e \<in> set us" for e
  proof (cases "elems a e")
    case None
    then have "e \<notin> dom (elems a)" by auto
    then show ?thesis using i None unfolding fa_inv_def fa_live_def by auto
  next
    case (Some x)
    then show ?thesis using i unfolding fa_inv_def fa_live_def by auto
  qed
  then show ?thesis by blast
qed

lemma fa_inv_fresh: "fa_inv n a (e # us) fs \<Longrightarrow> e \<notin> set us"
  unfolding fa_inv_def by simp

lemma fa_put_at: "fa_inv n a (us @ e # vs) fs \<Longrightarrow> \<exists>a' fs'. fa_put e a = Some a' \<and> fa_inv n a' (us @ vs) fs'"
proof -
  assume "fa_inv n a (us @ e # vs) fs"
  from free_inv [OF this] obtain a' x where f: "fa_free_data e a = Some (Inr (), a')"
    and i: "fa_inv n a' (us @ vs) (if n \<le> e \<and> fa_use a \<le> fa_max a div 2 then fs else e # fs)" by blast
  have "fa_put e a = Some a'" using f by (simp add: fa_put_def)
  with i show ?thesis by blast
qed

lemma alloc_cases:
  assumes "fa_inv n a us fs"
  shows "alloc_nolock m a = Some (None, a) \<or> (\<exists>e a' fs'. alloc_nolock m a = Some (Some e, a') \<and> fa_inv n a' (e # us) fs')"
proof (cases fs)
  case Nil
  then have "fa_free a = None" using assms unfolding fa_inv_def by simp
  then show ?thesis using alloc_heap [of n a us] assms Nil
    by (cases "fa_expandable a \<and> m") (auto simp: alloc_nolock_def alloc_elm_def)
next
  case (Cons e fs')
  then show ?thesis using alloc_pool [of n a us e fs' m] assms by blast
qed

interpretation fa: pool alloc_nolock fa_put fa_live "fa_ok n" for n
proof
  fix s m assume "fa_ok n s"
  then obtain us fs where i: "fa_inv n s us fs" unfolding fa_ok_def by blast
  from alloc_cases [OF i, of m] show "\<exists>r s'. alloc_nolock m s = Some (r, s') \<and> fa_ok n s'
        \<and> (case r of None \<Rightarrow> fa_live s' = fa_live s | Some e \<Rightarrow> e \<notin> fa_live s \<and> fa_live s' = insert e (fa_live s))"
  proof (elim disjE exE conjE)
    assume "alloc_nolock m s = Some (None, s)"
    then show ?thesis using \<open>fa_ok n s\<close> by simp
  next
    fix e a' fs' assume a: "alloc_nolock m s = Some (Some e, a')" "fa_inv n a' (e # us) fs'"
    then have "fa_ok n a'" unfolding fa_ok_def by blast
    then show ?thesis using a(1) fa_live_us [OF i] fa_live_us [OF a(2)] fa_inv_fresh [OF a(2)] by simp
  qed
next
  fix s e assume "fa_ok n s" "e \<in> fa_live s"
  then obtain us fs where i: "fa_inv n s us fs" and e: "e \<in> set us" unfolding fa_ok_def by (auto simp: fa_live_us)
  from e obtain as bs where us: "us = as @ e # bs" by (auto simp: in_set_conv_decomp)
  have new: "e \<notin> set (as @ bs)" using i us unfolding fa_inv_def by simp
  obtain a' fs' where a: "fa_put e s = Some a'" "fa_inv n a' (as @ bs) fs'"
    using fa_put_at [of n s as e bs fs] i us by blast
  then have "fa_ok n a'" unfolding fa_ok_def by blast
  then show "\<exists>s'. fa_put e s = Some s' \<and> fa_ok n s' \<and> fa_live s' = fa_live s - {e}"
    using a(1) fa_live_us [OF i] fa_live_us [OF a(2)] new us by auto
qed

section \<open>Properties\<close>

text \<open>
  C23: Whatever a client does with an allocator that was created with at least one element, getting elements
  and giving back those it holds in any order, with the heap refusing memory when it likes: no operation
  touches memory that is not an element, the handles it holds are all different, they are exactly the used
  elements, and the counter \<open>m_use\<close> is their number.
\<close>

theorem handles_are_exclusive:
  assumes "0 < n"
  shows "\<exists>a a' hs. init_header n b = Some a \<and> pool_run alloc_nolock fa_put ops a [] = Some (a', hs)
    \<and> distinct hs \<and> fa_live a' = set hs \<and> fa_use a' = length hs"
proof -
  obtain a where a: "init_header n b = Some a" "fa_inv n a [] [0..<n]" using init_inv [OF assms] by blast
  then have "fa_ok n a" "fa_live a = set []" using fa_live_us [OF a(2)] by (auto simp: fa_ok_def)
  from fa.run_holds [OF this, of ops] obtain a' hs where r: "pool_run alloc_nolock fa_put ops a [] = Some (a', hs)"
    "fa_ok n a'" "fa_live a' = set hs" "distinct hs" by auto
  then obtain us fs where i: "fa_inv n a' us fs" unfolding fa_ok_def by blast
  have "length us = length hs"
    using fa_live_us [OF i] r(3,4) i distinct_card [of us] distinct_card [of hs] by (simp add: fa_inv_def)
  then have "fa_use a' = length hs" using i unfolding fa_inv_def by simp
  then show ?thesis using a r by blast
qed

lemma handles_are_exclusive_witness:
  "\<exists>a a' hs. init_header 2 True = Some a
     \<and> pool_run alloc_nolock fa_put [Get True, Get True, Get False, Get True, Put 1, Get True] a [] = Some (a', hs)
     \<and> distinct hs \<and> fa_live a' = set hs \<and> fa_use a' = length hs"
  by (rule handles_are_exclusive) simp

text \<open>
  \<open>free\<close> of an element in use takes it out of the used list and gives it back: to the free
  list, or to the heap when it came from there and at most half the elements are in use; \<open>free\<close> of one
  that lies in the free list is refused with \<open>NBR_EALREADY\<close> and changes nothing.
\<close>

theorem free_once:
  assumes "fa_inv n a (us @ e # vs) fs"
  shows "\<exists>a'. fa_free_data e a = Some (Inr (), a')
    \<and> (if n \<le> e \<and> fa_use a \<le> fa_max a div 2
       then fa_inv n a' (us @ vs) fs \<and> elems a' e = None
       else fa_inv n a' (us @ vs) (e # fs) \<and> fa_free_data e a' = Some (Inl EALREADY, a'))"
proof -
  from free_inv [OF assms] obtain a' where a: "fa_free_data e a = Some (Inr (), a')"
    and i: "fa_inv n a' (us @ vs) (if n \<le> e \<and> fa_use a \<le> fa_max a div 2 then fs else e # fs)" by blast
  have "e \<notin> set ((us @ vs) @ fs)" using assms unfolding fa_inv_def by simp
  then have "elems a' e = None" if "fa_inv n a' (us @ vs) fs" using that unfolding fa_inv_def by auto
  moreover have "fa_free_data e a' = Some (Inl EALREADY, a')" if "fa_inv n a' (us @ vs) (e # fs)"
    using free_twice [OF that] by simp
  ultimately show ?thesis using a i by (auto split: if_splits)
qed

text \<open>
  \<open>destroy\<close> walks both lists to their end, frees every element that came from the heap once
  and then the block with the pool: no element is left.
\<close>

theorem destroy_frees_all:
  assumes "fa_inv n a us fs"
  shows "\<exists>a'. fa_destroy a = Some a' \<and> elems a' = Map.empty"
proof -
  from assms obtain q where d: "dseg (elems a) None (fa_used a) us q None" and s: "sll (elems a) (fa_free a) fs"
    and di: "distinct us" "distinct fs" "set us \<inter> set fs = {}" and dom: "dom (elems a) = set us \<union> set fs"
    and fr: "\<And>i. i \<in> set us \<Longrightarrow> i < fa_fresh a" "\<And>i. i \<in> set fs \<Longrightarrow> i < fa_fresh a"
    unfolding fa_inv_def by auto
  let ?a = "a\<lparr>fa_use := 0, elems := drop_heap us (elems a)\<rparr>"
  have 1: "free_heap (fa_fresh a) (fa_used a) (a\<lparr>fa_use := 0\<rparr>) = Some ?a"
    using free_heap_list [of "a\<lparr>fa_use := 0\<rparr>" "fa_used a" us "fa_fresh a"] dseg_sll [OF d] di length_below [OF di(1) fr(1)]
    by (cases a) simp
  have "elems ?a i = elems a i" if "i \<in> set fs" for i using that di by (auto split: option.splits)
  then have "sll (elems ?a) (fa_free a) fs" using s sll_cong [of fs "elems ?a" "elems a"] by blast
  then have 2: "free_heap (fa_fresh a) (fa_free a) ?a = Some (?a\<lparr>elems := drop_heap fs (elems ?a)\<rparr>)"
    by (rule free_heap_list) (use di length_below [OF di(2) fr(2)] in auto)
  have "(case drop_heap fs (elems ?a) i of Some x \<Rightarrow> if e_heap x then Some x else None | None \<Rightarrow> None) = None" for i
    using dom by (cases "elems a i") auto
  then show ?thesis using 1 2 by (simp add: fa_destroy_def fun_eq_iff)
qed

lemma pool_of_two: "fa_inv 2 (the (init_header 2 True)) [] [0, 1]"
  using init_inv [of 2 True] by (auto simp: upt_conv_Cons)

lemma pool_of_two_taken: "\<exists>a. fa_inv 2 a ([] @ 0 # []) [1]"
  using alloc_pool [OF pool_of_two, of True] by auto

lemma free_once_witness: "\<exists>a a'. fa_free_data 0 a = Some (Inr (), a') \<and> fa_free_data 0 a' = Some (Inl EALREADY, a')"
  using pool_of_two_taken free_once [of 2 _ "[]" 0 "[]" "[1]"] by fastforce

lemma destroy_frees_all_witness: "\<exists>a'. fa_destroy (the (init_header 2 True)) = Some a' \<and> elems a' = Map.empty"
  by (rule destroy_frees_all [OF pool_of_two])

end
