(* ===== verification/ArrayClass.thy ===== *)
theory ArrayClass
  imports FixAlloc
begin

text \<open>
  \<^verbatim>\<open>src/src/util/array.h\<close>: the class template \<open>array\<close>, elements with a value and a lifetime in
  memory of a \<open>fix_size_allocator\<close>.  The values are those of the elements that are constructed;
  element numbers stand for the addresses, \<open>None\<close> for \<open>NULL\<close> and \<open>end()\<close>.

  The constructor overloads differ in the arguments they pass on, not in what they do; \<open>ar_alloc\<close> takes
  the value the constructor leaves.  The outer option of a result is undefined behaviour.

  The lemmas: the values are those of the used elements, \<open>alloc\<close> respects the maximum, and
  \<open>iterate\<close> survives a callback that erases the element it is given.
\<close>

record 'v array =
  ar_a :: "fix_alloc option"
  ar_vals :: "nat \<rightharpoonup> 'v"

definition ar_new :: "'v array" where
  "ar_new = \<lparr>ar_a = None, ar_vals = Map.empty\<rparr>"

definition ar_initialized :: "'v array \<Rightarrow> bool" where
  "ar_initialized r = (ar_a r \<noteq> None)"

definition ar_use :: "'v array \<Rightarrow> nat option" where
  "ar_use r = map_option fa_use (ar_a r)"

definition ar_max :: "'v array \<Rightarrow> nat option" where
  "ar_max r = map_option fa_max (ar_a r)"

definition ar_begin :: "'v array \<Rightarrow> nat option option" where
  "ar_begin r = map_option fa_first (ar_a r)"

definition ar_next :: "nat \<Rightarrow> 'v array \<Rightarrow> nat option option" where
  "ar_next p r = (case ar_a r of None \<Rightarrow> None | Some a \<Rightarrow> fa_next p a)"

text \<open>\<open>fin\<close>: the destructor of every element in the used list, then the memory.\<close>

fun ar_destruct :: "nat \<Rightarrow> nat option \<Rightarrow> fix_alloc \<Rightarrow> (nat \<rightharpoonup> 'v) \<Rightarrow> (nat \<rightharpoonup> 'v) option" where
  "ar_destruct n None a vs = Some vs"
| "ar_destruct 0 (Some e) a vs = None"
| "ar_destruct (Suc n) (Some e) a vs = (case fa_next e a of None \<Rightarrow> None
     | Some p \<Rightarrow> ar_destruct n p a (vs(e := None)))"

definition ar_fin :: "'v array \<Rightarrow> 'v array option" where
  "ar_fin r =
     (case ar_a r of None \<Rightarrow> Some r
      | Some a \<Rightarrow>
          (case ar_destruct (fa_fresh a) (fa_first a) a (ar_vals r) of None \<Rightarrow> None
           | Some vs \<Rightarrow> (case fa_destroy a of None \<Rightarrow> None
               | Some _ \<Rightarrow> Some (r\<lparr>ar_a := None, ar_vals := vs\<rparr>))))"

definition ar_init :: "bool \<Rightarrow> nat \<Rightarrow> bool \<Rightarrow> 'v array \<Rightarrow> (bool \<times> 'v array) option" where
  "ar_init ok mx expandable r =
     (case fa_create ok mx expandable of None \<Rightarrow> None
      | Some None \<Rightarrow> map_option (\<lambda>r. (ar_initialized r, r)) (ar_fin (r\<lparr>ar_a := None\<rparr>))
      | Some (Some a) \<Rightarrow> Some (True, r\<lparr>ar_a := Some a\<rparr>))"

text \<open>
  \<open>operator new\<close> may not return \<open>NULL\<close>, as its declaration does not say that it throws nothing: when the
  heap has no memory the constructor runs on the null pointer.
\<close>

definition ar_alloc :: "bool \<Rightarrow> 'v \<Rightarrow> 'v array \<Rightarrow> (nat option \<times> 'v array) option" where
  "ar_alloc ok v r =
     (case ar_a r of None \<Rightarrow> None
      | Some a \<Rightarrow>
          if fa_full a then Some (None, r)
          else (case alloc_nolock ok a of None \<Rightarrow> None
            | Some (None, a) \<Rightarrow> None
            | Some (Some e, a) \<Rightarrow> Some (Some e, r\<lparr>ar_a := Some a, ar_vals := (ar_vals r)(e \<mapsto> v)\<rparr>)))"

definition ar_free :: "nat option \<Rightarrow> 'v array \<Rightarrow> 'v array option" where
  "ar_free p r =
     (case p of None \<Rightarrow> Some r
      | Some e \<Rightarrow>
          (case ar_a r of None \<Rightarrow> None
           | Some a \<Rightarrow> (case fa_free_data e a of None \<Rightarrow> None
               | Some (_, a) \<Rightarrow> Some (r\<lparr>ar_a := Some a, ar_vals := (ar_vals r)(e := None)\<rparr>))))"

definition ar_erase :: "nat option \<Rightarrow> 'v array \<Rightarrow> 'v array option" where
  "ar_erase p r = (if p \<noteq> None then ar_free p r else Some r)"

definition ar_index :: "nat \<Rightarrow> 'v array \<Rightarrow> (nbr_error + nat) option" where
  "ar_index e r = map_option (fa_get_index e) (ar_a r)"

text \<open>
  \<open>iterate\<close>: \<open>fn\<close> works on the array and a state of its own, and a negative result ends the loop.  It
  may go on for ever when \<open>fn\<close> allocates.
\<close>

partial_function (option) ar_iter ::
    "(nat \<Rightarrow> 'v array \<times> 's \<Rightarrow> (int \<times> 'v array \<times> 's) option) \<Rightarrow> nat option \<Rightarrow> int \<Rightarrow> 'v array \<times> 's \<Rightarrow> (int \<times> 'v array \<times> 's) option" where
  "ar_iter fn it cnt s =
     (case it of None \<Rightarrow> Some (cnt, s)
      | Some p \<Rightarrow>
          (case ar_next p (fst s) of None \<Rightarrow> None
           | Some it \<Rightarrow>
               (case fn p s of None \<Rightarrow> None
                | Some (r, s) \<Rightarrow> if r < 0 then Some (r, s) else ar_iter fn it (cnt + 1) s)))"

definition ar_iterate :: "(nat \<Rightarrow> 'v array \<times> 's \<Rightarrow> (int \<times> 'v array \<times> 's) option) \<Rightarrow> 'v array \<times> 's \<Rightarrow> (int \<times> 'v array \<times> 's) option" where
  "ar_iterate fn s = (case ar_begin (fst s) of None \<Rightarrow> None | Some it \<Rightarrow> ar_iter fn it 0 s)"

section \<open>The invariant\<close>

text \<open>\<open>es\<close> are the elements in the order of the used list, the latest first.\<close>

definition ar_holds :: "'v array \<Rightarrow> nat list \<Rightarrow> bool" where
  "ar_holds r es \<longleftrightarrow> (\<exists>n a fs. ar_a r = Some a \<and> fa_inv n a es fs \<and> dom (ar_vals r) = set es)"

lemma ar_init_holds: "0 < n \<Longrightarrow> \<exists>r. ar_init True n b ar_new = Some (True, r) \<and> ar_holds r []"
  using init_inv [of n b] by (fastforce simp: ar_init_def ar_new_def fa_create_def ar_holds_def)

lemma ar_alloc_holds:
  assumes "ar_holds r es" "ar_alloc ok v r = Some (Some e, r')"
  shows "ar_holds r' (e # es) \<and> e \<notin> set es \<and> ar_vals r' = (ar_vals r)(e \<mapsto> v)"
proof -
  obtain n a fs where a: "ar_a r = Some a" "fa_inv n a es fs" "dom (ar_vals r) = set es"
    using assms(1) unfolding ar_holds_def by blast
  obtain a' where e: "alloc_nolock ok a = Some (Some e, a')" and r': "r' = r\<lparr>ar_a := Some a', ar_vals := (ar_vals r)(e \<mapsto> v)\<rparr>"
    using assms(2) a(1) by (auto simp: ar_alloc_def split: if_splits option.splits prod.splits)
  from alloc_cases [OF a(2), of ok] e obtain fs' where i: "fa_inv n a' (e # es) fs'" by auto
  show ?thesis using a(3) r' i fa_inv_fresh [OF i] by (auto simp: ar_holds_def)
qed

lemma ar_free_holds:
  assumes "ar_holds r (es @ e # gs)"
  shows "\<exists>r'. ar_free (Some e) r = Some r' \<and> ar_holds r' (es @ gs) \<and> ar_vals r' = (ar_vals r)(e := None)"
proof -
  obtain n a fs where a: "ar_a r = Some a" "fa_inv n a (es @ e # gs) fs" "dom (ar_vals r) = set (es @ e # gs)"
    using assms unfolding ar_holds_def by blast
  obtain a' fs' where f: "fa_free_data e a = Some (Inr (), a')" and i: "fa_inv n a' (es @ gs) fs'"
    using free_inv [OF a(2)] by blast
  have "e \<notin> set (es @ gs)" using a(2) unfolding fa_inv_def by simp
  then have "dom ((ar_vals r)(e := None)) = set (es @ gs)" using a(3) by auto
  then show ?thesis using a(1) f i by (auto simp: ar_free_def ar_holds_def)
qed

lemma ar_begin_holds: "ar_holds r es \<Longrightarrow> ar_begin r = Some (case es of [] \<Rightarrow> None | e # _ \<Rightarrow> Some e)"
  by (cases es) (auto simp: ar_holds_def fa_inv_def ar_begin_def fa_first_def)

lemma ar_next_holds: "ar_holds r (es @ e # gs) \<Longrightarrow> ar_next e r = Some (case gs of [] \<Rightarrow> None | e # _ \<Rightarrow> Some e)"
  by (cases gs) (auto simp: ar_holds_def fa_inv_def dseg_append ar_next_def fa_next_def)

section \<open>Properties\<close>

text \<open>
  C24: \<open>alloc\<close> of an array that may not expand hands out a fresh element with the value it is given while fewer
  than the maximum are in use, however the heap fares, and refuses with \<open>NULL\<close>, unchanged, once all are.
\<close>

theorem array_bounded:
  assumes "ar_holds r es" "ar_a r = Some a" "\<not> fa_expandable a"
  shows "if length es < fa_max a
    then \<exists>e r'. ar_alloc ok v r = Some (Some e, r') \<and> e \<notin> set es \<and> ar_holds r' (e # es) \<and> ar_vals r' = (ar_vals r)(e \<mapsto> v)
    else ar_alloc ok v r = Some (None, r)"
proof -
  obtain n fs where i: "fa_inv n a es fs" using assms(1,2) unfolding ar_holds_def by auto
  then have u: "fa_use a = length es" "fa_max a = length es + length fs" unfolding fa_inv_def by blast+
  show ?thesis
  proof (cases fs)
    case Nil
    then show ?thesis using u assms(2,3) by (simp add: ar_alloc_def fa_full_def)
  next
    case (Cons e fs')
    then obtain a' where a': "alloc_nolock ok a = Some (Some e, a')" using alloc_pool [of n a es e fs' ok] i by blast
    have "ar_alloc ok v r = Some (Some e, r\<lparr>ar_a := Some a', ar_vals := (ar_vals r)(e \<mapsto> v)\<rparr>)"
      using a' u Cons assms(2) by (simp add: ar_alloc_def fa_full_def)
    then show ?thesis using ar_alloc_holds [OF assms(1)] u Cons by fastforce
  qed
qed

lemma array_bounded_witness:
  "\<exists>r e r'. ar_init True 1 False ar_new = Some (True, r) \<and> ar_alloc False ''v'' r = Some (Some e, r') \<and> ar_holds r' [e]"
proof -
  obtain r where r: "ar_init True 1 False (ar_new :: string array) = Some (True, r)" "ar_holds r []"
    using ar_init_holds [of 1 False] by auto
  then have "ar_a r = Some (the (init_header 1 False))" "\<not> fa_expandable (the (init_header 1 False))" "fa_max (the (init_header 1 False)) = 1"
    by (auto simp: ar_init_def fa_create_def init_header_def)
  then show ?thesis using array_bounded [OF r(2), of "the (init_header 1 False)" False "''v''"] r by auto
qed

text \<open>A callback that keeps some elements and erases the others while the loop stands on them.\<close>

definition ar_sweep :: "('v \<Rightarrow> bool) \<Rightarrow> nat \<Rightarrow> 'v array \<times> 'v list \<Rightarrow> (int \<times> 'v array \<times> 'v list) option" where
  "ar_sweep keep p s = (case s of (r, seen) \<Rightarrow>
     (case ar_vals r p of None \<Rightarrow> None
      | Some v \<Rightarrow> if keep v then Some (0, r, seen @ [v])
          else map_option (\<lambda>r. (0, r, seen @ [v])) (ar_erase (Some p) r)))"

abbreviation ar_value :: "'v array \<Rightarrow> nat \<Rightarrow> 'v" where
  "ar_value r e \<equiv> the (ar_vals r e)"

lemma ar_holds_distinct: "ar_holds r es \<Longrightarrow> distinct es"
  by (auto simp: ar_holds_def fa_inv_def)

lemma ar_iter_sweep:
  "ar_holds r (ks @ es) \<Longrightarrow>
     \<exists>r'. ar_iter (ar_sweep keep) (case es of [] \<Rightarrow> None | e # _ \<Rightarrow> Some e) c (r, seen)
         = Some (c + int (length es), r', seen @ map (ar_value r) es)
       \<and> ar_holds r' (ks @ filter (keep \<circ> ar_value r) es)
       \<and> (\<forall>e \<in> set (ks @ filter (keep \<circ> ar_value r) es). ar_vals r' e = ar_vals r e)"
proof (induction es arbitrary: ks r c seen)
  case Nil
  then show ?case by (simp add: ar_iter.simps)
next
  case (Cons e es)
  let ?nx = "case es of [] \<Rightarrow> None | e # _ \<Rightarrow> Some e"
  have nx: "ar_next e r = Some ?nx" by (rule ar_next_holds [OF Cons.prems])
  have di: "distinct (ks @ e # es)" by (rule ar_holds_distinct [OF Cons.prems])
  have "e \<in> dom (ar_vals r)" using Cons.prems by (auto simp: ar_holds_def)
  then obtain v where v: "ar_vals r e = Some v" by blast
  show ?case
  proof (cases "keep v")
    case True
    have "ar_holds r ((ks @ [e]) @ es)" using Cons.prems by simp
    from Cons.IH [OF this, of "c + 1" "seen @ [v]"] v True nx show ?thesis
      by (auto simp: ar_iter.simps [of _ "Some e"] ar_sweep_def algebra_simps)
  next
    case False
    obtain r1 where r1: "ar_free (Some e) r = Some r1" "ar_holds r1 (ks @ es)" "ar_vals r1 = (ar_vals r)(e := None)"
      using ar_free_holds [OF Cons.prems] by blast
    have same: "ar_vals r1 i = ar_vals r i" if "i \<in> set (ks @ es)" for i using that di r1(3) by auto
    then have eq: "map (ar_value r1) es = map (ar_value r) es" "filter (keep \<circ> ar_value r1) es = filter (keep \<circ> ar_value r) es"
      by (auto intro!: map_cong filter_cong)
    from Cons.IH [OF r1(2), of "c + 1" "seen @ [v]"] obtain r' where
      r': "ar_iter (ar_sweep keep) ?nx (c + 1) (r1, seen @ [v]) = Some (c + 1 + int (length es), r', (seen @ [v]) @ map (ar_value r) es)"
        "ar_holds r' (ks @ filter (keep \<circ> ar_value r) es)"
        "\<forall>e \<in> set (ks @ filter (keep \<circ> ar_value r) es). ar_vals r' e = ar_vals r1 e"
      unfolding eq by blast
    have "ar_iter (ar_sweep keep) (Some e) c (r, seen) = ar_iter (ar_sweep keep) ?nx (c + 1) (r1, seen @ [v])"
      using nx v False r1(1) by (simp add: ar_iter.simps [of _ "Some e"] ar_sweep_def ar_erase_def)
    then show ?thesis using r' same v False by (auto simp: comp_def)
  qed
qed

text \<open>
  C25: \<open>iterate\<close> with a callback that erases the element it stands on, for those it chooses: the loop ends,
  visits every element once in the order of the list and returns their number; what stays are exactly the
  elements the callback kept, with their values.
\<close>

theorem iterate_survives_erase:
  assumes "ar_holds r es"
  shows "\<exists>r'. ar_iterate (ar_sweep keep) (r, []) = Some (int (length es), r', map (ar_value r) es)
    \<and> ar_holds r' (filter (keep \<circ> ar_value r) es)
    \<and> (\<forall>e \<in> set (filter (keep \<circ> ar_value r) es). ar_vals r' e = ar_vals r e)"
  using ar_iter_sweep [of r "[]" es keep 0 "[]"] ar_begin_holds [OF assms] assms by (simp add: ar_iterate_def)

lemma iterate_survives_erase_witness:
  "\<exists>r e r1 r2. ar_init True 1 False ar_new = Some (True, r) \<and> ar_alloc True ''v'' r = Some (Some e, r1)
     \<and> ar_iterate (ar_sweep (\<lambda>v. False)) (r1, []) = Some (1, r2, [''v'']) \<and> ar_holds r2 []"
proof -
  obtain r where r: "ar_init True 1 False (ar_new :: string array) = Some (True, r)" "ar_holds r []"
    using ar_init_holds [of 1 False] by auto
  then have a: "ar_a r = Some (the (init_header 1 False))" "fa_inv 1 (the (init_header 1 False)) [] [0]"
    using init_inv [of 1 False] by (auto simp: ar_init_def fa_create_def init_header_def)
  obtain a' where "alloc_nolock True (the (init_header 1 False)) = Some (Some 0, a')"
    using alloc_pool [OF a(2), of True] by blast
  then have "\<exists>r1. ar_alloc True ''v'' r = Some (Some 0, r1)"
    using a(1) by (simp add: ar_alloc_def fa_full_def init_header_def)
  then obtain r1 where r1: "ar_alloc True ''v'' r = Some (Some 0, r1)" by blast
  then have h: "ar_holds r1 [0]" "ar_vals r1 0 = Some ''v''" using ar_alloc_holds [OF r(2) r1] by auto
  from iterate_survives_erase [OF h(1), of "\<lambda>v. False"] h(2) r(1) r1 show ?thesis by auto
qed

end
