(* ===== verification/HashMap.thy ===== *)
theory HashMap
  imports ArrayClass Strings
begin

text \<open>
  \<^verbatim>\<open>src/src/util/map.h\<close>: the hash table \<open>hash\<close>, chains of elements of a \<open>fix_size_allocator\<close>, and the
  class template \<open>map\<close> on top of it, with the hash functions of \<^verbatim>\<open>src/src/util/util.h\<close> and
  \<^verbatim>\<open>MurmurHash2.cpp\<close>.  The build is the one without \<open>CONCURRENT_MAP\<close> and \<open>USE_CITYHASH\<close>, as neither is set
  anywhere.

  An element has a key buffer, the bytes between its two links and its value, and a value when one is
  constructed there.  Element numbers stand for the addresses of elements, keys and values alike.  An
  operation is \<open>None\<close> where the code divides by zero, follows a null pointer, writes a key over the value behind it or uses
  memory that was given back to the heap; locks are left out.

  The lemmas: the chains hold every used element once, in the chain of its key's hash; the operations are those of a finite
  map of bounded size (locale \<open>bounded_map\<close>, interpreted on the code's operations).
\<close>

section \<open>Hash functions\<close>

fun pjw_loop :: "U32 \<Rightarrow> U8 list \<Rightarrow> U32" where
  "pjw_loop h [] = h"
| "pjw_loop h (t # ts) =
     (let h = push_bit 4 h + ucast t; g = h AND 0xf0000000 in
      pjw_loop (if g \<noteq> 0 then (h XOR drop_bit 24 g) XOR g else h) ts)"

definition pjw_hush :: "nat \<Rightarrow> U8 list \<Rightarrow> nat option" where
  "pjw_hush M t = (if M = 0 then None else Some (unat (pjw_loop 0 t) mod M))"

definition murmur_m :: U32 where
  "murmur_m = 0x5bd1e995"

fun murmur_loop :: "U32 \<Rightarrow> U8 list \<Rightarrow> U32" where
  "murmur_loop h (a # b # c # d # data) =
     (let k = (ucast a OR push_bit 8 (ucast b) OR push_bit 16 (ucast c) OR push_bit 24 (ucast d)) * murmur_m;
          k = k XOR drop_bit 24 k;
          k = k * murmur_m
      in murmur_loop ((h * murmur_m) XOR k) data)"
| "murmur_loop h [a, b, c] = (h XOR push_bit 16 (ucast c) XOR push_bit 8 (ucast b) XOR ucast a) * murmur_m"
| "murmur_loop h [a, b] = (h XOR push_bit 8 (ucast b) XOR ucast a) * murmur_m"
| "murmur_loop h [a] = (h XOR ucast a) * murmur_m"
| "murmur_loop h [] = h"

definition MurmurHash2 :: "U8 list \<Rightarrow> U32 \<Rightarrow> U32" where
  "MurmurHash2 key seed =
     (let h = murmur_loop (seed XOR of_nat (length key)) key;
          h = h XOR drop_bit 13 h;
          h = h * murmur_m
      in h XOR drop_bit 15 h)"

definition BIG_PRIME :: U32 where
  "BIG_PRIME = 16754389"

section \<open>State\<close>

datatype hush_key_type = HKT_NONE | HKT_INT | HKT_STR | HKT_MEM

text \<open>A key as the caller passes it; a string without its terminator.\<close>

datatype hkey = KInt U32 | KStr "U8 list" | KMem "U8 list"

record hushelm =
  h_next :: "nat option"
  h_prev :: "nat option"
  h_buf :: mem

record 'v hash =
  hs_type :: hush_key_type
  hs_table :: "nat option list"
  hs_size :: nat
  hs_key_size :: nat
  hs_a :: "fix_alloc option"
  hs_elm :: "nat \<Rightarrow> hushelm"
  hs_vals :: "nat \<rightharpoonup> 'v"

definition hs_zero :: "'v hash" where
  "hs_zero = \<lparr>hs_type = HKT_NONE, hs_table = [], hs_size = 0, hs_key_size = 0, hs_a = None,
     hs_elm = (\<lambda>_. \<lparr>h_next = None, h_prev = None, h_buf = (\<lambda>_. 0)\<rparr>), hs_vals = Map.empty\<rparr>"

fun get_key_size :: "hush_key_type \<Rightarrow> nat \<Rightarrow> nat" where
  "get_key_size HKT_INT keybuf = 24 + 4"
| "get_key_size HKT_STR keybuf = 24 + (3 + keybuf) div 4 * 4"
| "get_key_size HKT_MEM keybuf = 24 + (3 + keybuf) div 4 * 4"
| "get_key_size HKT_NONE keybuf = 0"

definition get_keybuf_size :: "'v hash \<Rightarrow> nat" where
  "get_keybuf_size h = hs_key_size h - 16"

text \<open>Whether the memory of an element is there at all.\<close>

definition hs_mem :: "'v hash \<Rightarrow> nat \<Rightarrow> bool" where
  "hs_mem h e = (case hs_a h of None \<Rightarrow> False | Some a \<Rightarrow> elems a e \<noteq> None)"

section \<open>Keys\<close>

fun get_hush :: "'v hash \<Rightarrow> hkey \<Rightarrow> nat option" where
  "get_hush h (KInt k) = (if hs_size h = 0 then None else Some (unat k mod hs_size h))"
| "get_hush h (KStr s) = pjw_hush (hs_size h) s"
| "get_hush h (KMem s) = (if hs_size h = 0 then None else Some (unat (MurmurHash2 s BIG_PRIME) mod hs_size h))"

text \<open>The string at the start of \<open>n\<close> bytes.\<close>

definition cstr :: "nat \<Rightarrow> mem \<Rightarrow> U8 list" where
  "cstr n m = takeWhile (\<lambda>c. c \<noteq> 0) (bytes_at m 0 n)"

fun cmp_key :: "'v hash \<Rightarrow> nat \<Rightarrow> hkey \<Rightarrow> bool option" where
  "cmp_key h e (KInt k) = Some (GET_32 (h_buf (hs_elm h e)) 0 = k)"
| "cmp_key h e (KStr s) = Some (str_cmp (cstr (get_keybuf_size h) (h_buf (hs_elm h e))) s (hs_key_size h) = 0)"
| "cmp_key h e (KMem s) =
     (if length s \<le> get_keybuf_size h then Some (bytes_at (h_buf (hs_elm h e)) 0 (length s) = s) else None)"

fun set_key :: "'v hash \<Rightarrow> mem \<Rightarrow> hkey \<Rightarrow> mem option" where
  "set_key h m (KInt k) = Some (SET_32 m 0 k)"
| "set_key h m (KStr s) =
     (case str_copy (hs_key_size h) s (hs_key_size h) of None \<Rightarrow> None
      | Some (w, _) \<Rightarrow> if length w \<le> get_keybuf_size h then Some (mem_copy m 0 w) else None)"
| "set_key h m (KMem s) =
     (let w = take (if length s < hs_key_size h then length s else hs_key_size h) s in
      if length w \<le> get_keybuf_size h then Some (mem_copy m 0 w) else None)"

section \<open>The table\<close>

text \<open>
  \<open>init\<close>: whether the sieve of \<open>prime\<close>, the table and the elements get memory are the first three
  arguments.  The result is 0 or an error.
\<close>

definition hash_init ::
    "bool \<Rightarrow> bool \<Rightarrow> bool \<Rightarrow> hush_key_type \<Rightarrow> nat \<Rightarrow> bool \<Rightarrow> int \<Rightarrow> nat \<Rightarrow> 'v hash \<Rightarrow> ((nbr_error + nat) \<times> 'v hash) option" where
  "hash_init ok1 ok2 ok3 type max_element expandable table_size keybuf h =
     (let p = prime ok1 table_size in
      if p < 0 then Some (Inl EINVAL, h)
      else
        (let h = h\<lparr>hs_size := nat p, hs_type := type, hs_key_size := get_key_size type keybuf\<rparr> in
         if \<not> ok2 then Some (Inl EMALLOC, h)
         else (case fa_create ok3 max_element expandable of None \<Rightarrow> None
           | Some None \<Rightarrow> Some (Inl EEXPIRE, h)
           | Some (Some a) \<Rightarrow> Some (Inr 0, h\<lparr>hs_a := Some a, hs_table := replicate (nat p) None\<rparr>))))"

definition hash_initialized :: "'v hash \<Rightarrow> bool" where
  "hash_initialized h = (hs_a h \<noteq> None)"

definition hash_use :: "'v hash \<Rightarrow> nat option" where
  "hash_use h = map_option fa_use (hs_a h)"

definition hash_fin :: "'v hash \<Rightarrow> 'v hash option" where
  "hash_fin h =
     (case hs_a h of None \<Rightarrow> Some hs_zero
      | Some a \<Rightarrow> (case fa_destroy a of None \<Rightarrow> None | Some _ \<Rightarrow> Some hs_zero))"

text \<open>The loop along a chain, as \<open>get\<close>, \<open>insert\<close> and \<open>remove\<close> have it.\<close>

partial_function (option) chain_find :: "'v hash \<Rightarrow> hkey \<Rightarrow> nat option \<Rightarrow> nat option option" where
  "chain_find h k t =
     (case t of None \<Rightarrow> Some None
      | Some e \<Rightarrow>
          if \<not> hs_mem h e then None
          else (case cmp_key h e k of None \<Rightarrow> None
            | Some found \<Rightarrow> if found then Some (Some e) else chain_find h k (h_next (hs_elm h e))))"

definition hash_get :: "hkey \<Rightarrow> 'v hash \<Rightarrow> nat option option" where
  "hash_get k h =
     (case get_hush h k of None \<Rightarrow> None
      | Some i \<Rightarrow> if hs_a h = None then None else chain_find h k (hs_table h ! i))"

text \<open>A new element in front of the chain that starts with \<open>t\<close>, its key already in the buffer \<open>m\<close>.\<close>

definition chain_push :: "nat \<Rightarrow> nat option \<Rightarrow> mem \<Rightarrow> (nat \<Rightarrow> hushelm) \<Rightarrow> (nat \<Rightarrow> hushelm)" where
  "chain_push e t m elm =
     (let elm = elm(e := \<lparr>h_next = t, h_prev = None, h_buf = m\<rparr>)
      in case t of None \<Rightarrow> elm | Some u \<Rightarrow> elm(u := (elm u)\<lparr>h_prev := Some e\<rparr>))"

text \<open>
  \<open>insert\<close> with its functor: \<open>f\<close> is given the value that is there, if any, and yields the value it leaves
  and whether it returns a pointer to it.  The result is the pointer, whether the key was there, and
  the table.
\<close>

definition hash_insert ::
    "bool \<Rightarrow> hkey \<Rightarrow> ('v option \<Rightarrow> 'v \<times> bool) \<Rightarrow> 'v hash \<Rightarrow> (nat option \<times> bool \<times> 'v hash) option" where
  "hash_insert ok k f h =
     (case get_hush h k of None \<Rightarrow> None
      | Some i \<Rightarrow>
          (case hs_a h of None \<Rightarrow> None
           | Some a \<Rightarrow>
               (case chain_find h k (hs_table h ! i) of None \<Rightarrow> None
                | Some (Some e) \<Rightarrow>
                    (case hs_vals h e of None \<Rightarrow> None
                     | Some w \<Rightarrow> (case f (Some w) of (v, r) \<Rightarrow>
                         Some (if r then Some e else None, True, h\<lparr>hs_vals := (hs_vals h)(e \<mapsto> v)\<rparr>)))
                | Some None \<Rightarrow>
                    (case alloc_nolock ok a of None \<Rightarrow> None
                     | Some (None, a) \<Rightarrow> Some (None, False, h\<lparr>hs_a := Some a\<rparr>)
                     | Some (Some e, a) \<Rightarrow>
                         (case set_key h (h_buf (hs_elm h e)) k of None \<Rightarrow> None
                          | Some m \<Rightarrow>
                              (case f None of (v, r) \<Rightarrow>
                                 Some (if r then Some e else None, False,
                                   h\<lparr>hs_a := Some a, hs_elm := chain_push e (hs_table h ! i) m (hs_elm h),
                                     hs_table := (hs_table h)[i := Some e], hs_vals := (hs_vals h)(e \<mapsto> v)\<rparr>)))))))"

definition chain_unlink :: "nat \<Rightarrow> nat \<Rightarrow> 'v hash \<Rightarrow> 'v hash" where
  "chain_unlink i e h =
     (let x = hs_elm h e;
          h = (case h_prev x of None \<Rightarrow> h\<lparr>hs_table := (hs_table h)[i := h_next x]\<rparr>
               | Some p \<Rightarrow> h\<lparr>hs_elm := (hs_elm h)(p := (hs_elm h p)\<lparr>h_next := h_next x\<rparr>)\<rparr>)
      in case h_next x of None \<Rightarrow> h
         | Some n \<Rightarrow> h\<lparr>hs_elm := (hs_elm h)(n := (hs_elm h n)\<lparr>h_prev := h_prev x\<rparr>)\<rparr>)"

text \<open>
  \<open>remove\<close>: nothing when \<open>f\<close> refuses, and the pointer all the same.  The pointer is one into the
  element, which is free by then.
\<close>

definition hash_remove :: "hkey \<Rightarrow> ('v \<Rightarrow> bool) \<Rightarrow> 'v hash \<Rightarrow> (nat option \<times> 'v hash) option" where
  "hash_remove k f h =
     (case get_hush h k of None \<Rightarrow> None
      | Some i \<Rightarrow>
          if hs_a h = None then None
          else
            (case chain_find h k (hs_table h ! i) of None \<Rightarrow> None
             | Some None \<Rightarrow> Some (None, h)
             | Some (Some e) \<Rightarrow>
                 (case hs_vals h e of None \<Rightarrow> None
                  | Some v \<Rightarrow>
                      if \<not> f v then Some (Some e, h)
                      else
                        (case fa_free_data e (the (hs_a h)) of None \<Rightarrow> None
                         | Some (_, a) \<Rightarrow> Some (Some e, (chain_unlink i e h)\<lparr>hs_a := Some a\<rparr>)))))"

partial_function (option) hash_iter ::
    "(nat \<Rightarrow> 'v hash \<times> 's \<Rightarrow> (int \<times> 'v hash \<times> 's) option) \<Rightarrow> nat option \<Rightarrow> int \<Rightarrow> 'v hash \<times> 's \<Rightarrow> (int \<times> 'v hash \<times> 's) option" where
  "hash_iter fn it cnt s =
     (case it of None \<Rightarrow> Some (cnt, s)
      | Some p \<Rightarrow>
          (case Option.bind (hs_a (fst s)) (fa_next p) of None \<Rightarrow> None
           | Some it \<Rightarrow>
               (case fn p s of None \<Rightarrow> None
                | Some (r, s) \<Rightarrow> if r < 0 then Some (r, s) else hash_iter fn it (cnt + 1) s)))"

definition hash_iterate ::
    "(nat \<Rightarrow> 'v hash \<times> 's \<Rightarrow> (int \<times> 'v hash \<times> 's) option) \<Rightarrow> 'v hash \<times> 's \<Rightarrow> (int \<times> 'v hash \<times> 's) option" where
  "hash_iterate fn s = (case hs_a (fst s) of None \<Rightarrow> None | Some a \<Rightarrow> hash_iter fn (fa_first a) 0 s)"

section \<open>The class \<open>map\<close>\<close>

text \<open>The specialisations of \<open>kcont\<close>: a plain type of \<open>n\<close> bytes, a string of at most \<open>n\<close>, a \<open>U32\<close>.\<close>

datatype key_class = CMem nat | CStr nat | CInt

fun kcont_type :: "key_class \<Rightarrow> hush_key_type" where
  "kcont_type (CMem n) = HKT_MEM" | "kcont_type (CStr n) = HKT_STR" | "kcont_type CInt = HKT_INT"

fun kcont_bytes :: "key_class \<Rightarrow> nat" where
  "kcont_bytes (CMem n) = n" | "kcont_bytes (CStr n) = n" | "kcont_bytes CInt = 4"

text \<open>\<open>val2key\<close> with \<open>to_type\<close>: the key read back from the buffer in front of a value.\<close>

fun val2key :: "key_class \<Rightarrow> 'v hash \<Rightarrow> nat \<Rightarrow> hkey" where
  "val2key (CMem n) h e = KMem (bytes_at (h_buf (hs_elm h e)) 0 n)"
| "val2key (CStr n) h e = KStr (cstr (get_keybuf_size h) (h_buf (hs_elm h e)))"
| "val2key CInt h e = KInt (GET_32 (h_buf (hs_elm h e)) 0)"

definition insert_set_data :: "'v \<Rightarrow> 'v option \<Rightarrow> 'v \<times> bool" where
  "insert_set_data v there = (case there of None \<Rightarrow> (v, True) | Some w \<Rightarrow> (w, False))"

definition alloc_set_data :: "'v \<Rightarrow> 'v option \<Rightarrow> 'v \<times> bool" where
  "alloc_set_data v there = (v, True)"

definition alloc_if_set_data :: "'v \<Rightarrow> 'v option \<Rightarrow> 'v \<times> bool" where
  "alloc_if_set_data v0 there = (case there of None \<Rightarrow> (v0, True) | Some w \<Rightarrow> (w, True))"

definition sweeper :: "nat \<Rightarrow> 'v hash \<times> unit \<Rightarrow> (int \<times> 'v hash \<times> unit) option" where
  "sweeper p s = Some (0, (fst s)\<lparr>hs_vals := (hs_vals (fst s))(p := None)\<rparr>, ())"

definition map_fin :: "'v hash \<Rightarrow> 'v hash option" where
  "map_fin h =
     (case (if hash_initialized h then map_option (fst \<circ> snd) (hash_iterate sweeper (h, ())) else Some h) of
        None \<Rightarrow> None
      | Some h \<Rightarrow> hash_fin h)"

definition map_init :: "bool \<Rightarrow> bool \<Rightarrow> bool \<Rightarrow> key_class \<Rightarrow> nat \<Rightarrow> int \<Rightarrow> bool \<Rightarrow> 'v hash \<Rightarrow> (bool \<times> 'v hash) option" where
  "map_init ok1 ok2 ok3 c mx hashsz expandable h =
     (case hash_init ok1 ok2 ok3 (kcont_type c) mx expandable hashsz (kcont_bytes c) h of None \<Rightarrow> None
      | Some (Inl _, h) \<Rightarrow> map_option (\<lambda>h. (hash_initialized h, h)) (map_fin h)
      | Some (Inr _, h) \<Rightarrow> Some (hash_initialized h, h))"

definition map_find :: "hkey \<Rightarrow> 'v hash \<Rightarrow> nat option option" where
  "map_find k h = hash_get k h"

definition map_insert :: "bool \<Rightarrow> 'v \<Rightarrow> hkey \<Rightarrow> 'v hash \<Rightarrow> (nat option \<times> 'v hash) option" where
  "map_insert ok v k h = map_option (\<lambda>(p, _, h). (p, h)) (hash_insert ok k (insert_set_data v) h)"

definition map_alloc :: "bool \<Rightarrow> 'v \<Rightarrow> hkey \<Rightarrow> 'v hash \<Rightarrow> (nat option \<times> 'v hash) option" where
  "map_alloc ok v k h = map_option (\<lambda>(p, _, h). (p, h)) (hash_insert ok k (alloc_set_data v) h)"

text \<open>\<open>alloc\<close> without a value: \<open>v0\<close> is what the default constructor leaves.\<close>

definition map_alloc_key :: "bool \<Rightarrow> 'v \<Rightarrow> hkey \<Rightarrow> 'v hash \<Rightarrow> (nat option \<times> bool \<times> 'v hash) option" where
  "map_alloc_key ok v0 k h = hash_insert ok k (alloc_if_set_data v0) h"

definition map_iterate ::
    "(nat \<Rightarrow> 'v hash \<times> 's \<Rightarrow> (int \<times> 'v hash \<times> 's) option) \<Rightarrow> 'v hash \<times> 's \<Rightarrow> (int \<times> 'v hash \<times> 's) option" where
  "map_iterate fn s = hash_iterate fn s"

definition map_use :: "'v hash \<Rightarrow> nat option" where
  "map_use h = hash_use h"

definition find_and_erase_if :: "('v \<Rightarrow> bool) \<Rightarrow> hkey \<Rightarrow> 'v hash \<Rightarrow> ('v option \<times> 'v hash) option" where
  "find_and_erase_if removable k h =
     (case hash_remove k removable h of None \<Rightarrow> None
      | Some (None, h) \<Rightarrow> Some (None, h)
      | Some (Some p, h) \<Rightarrow>
          if \<not> hs_mem h p then None else (case hs_vals h p of None \<Rightarrow> None | Some v \<Rightarrow> Some (Some v, h)))"

definition find_and_erase :: "hkey \<Rightarrow> 'v hash \<Rightarrow> ('v option \<times> 'v hash) option" where
  "find_and_erase k h = find_and_erase_if (\<lambda>_. True) k h"

definition map_erase :: "hkey \<Rightarrow> 'v hash \<Rightarrow> (bool \<times> 'v hash) option" where
  "map_erase k h =
     (case hash_remove k (\<lambda>_. True) h of None \<Rightarrow> None
      | Some (None, h) \<Rightarrow> Some (False, h)
      | Some (Some p, h) \<Rightarrow> if \<not> hs_mem h p then None else Some (True, h\<lparr>hs_vals := (hs_vals h)(p := None)\<rparr>))"

definition map_erase_value :: "key_class \<Rightarrow> nat \<Rightarrow> 'v hash \<Rightarrow> (bool \<times> 'v hash) option" where
  "map_erase_value c p h = map_erase (val2key c h p) h"

text \<open>
  \<open>alloc_and_init\<close>: \<open>izr\<close> initialises a new value, \<open>chk\<close> is asked about an old one until it says yes or no.
\<close>

partial_function (option) chk_loop :: "(nat \<Rightarrow> 'v \<Rightarrow> int \<times> 'v) \<Rightarrow> nat \<Rightarrow> 'v \<Rightarrow> (int \<times> 'v) option" where
  "chk_loop chk n v = (case chk (n + 1) v of (r, v) \<Rightarrow> if r = 0 then chk_loop chk (n + 1) v else Some (r, v))"

definition alloc_and_init ::
    "bool \<Rightarrow> 'v \<Rightarrow> hkey \<Rightarrow> ('v \<Rightarrow> int \<times> 'v) \<Rightarrow> (nat \<Rightarrow> 'v \<Rightarrow> int \<times> 'v) \<Rightarrow> 'v hash \<Rightarrow> (nat option \<times> 'v hash) option" where
  "alloc_and_init ok v0 k izr chk h =
     (case map_alloc_key ok v0 k h of None \<Rightarrow> None
      | Some (None, _, h) \<Rightarrow> Some (None, h)
      | Some (Some p, exist, h) \<Rightarrow>
          (case hs_vals h p of None \<Rightarrow> None
           | Some v \<Rightarrow>
               (case (if exist then chk_loop chk 0 v else Some (izr v)) of None \<Rightarrow> None
                | Some (r, v) \<Rightarrow>
                    (let h = h\<lparr>hs_vals := (hs_vals h)(p \<mapsto> v)\<rparr> in
                     if r < 0 then map_option (\<lambda>(_, h). (None, h)) (map_erase k h) else Some (Some p, h)))))"

section \<open>Keys in their buffers\<close>

fun wf_key :: "key_class \<Rightarrow> nat \<Rightarrow> hkey \<Rightarrow> bool" where
  "wf_key CInt ks (KInt k) = True"
| "wf_key (CStr n) ks (KStr s) = (length s < ks - 16 \<and> 0 \<notin> set s)"
| "wf_key (CMem n) ks (KMem s) = (length s = n \<and> n \<le> ks - 16)"
| "wf_key c ks k = False"

fun key_in :: "nat \<Rightarrow> mem \<Rightarrow> hkey \<Rightarrow> bool" where
  "key_in ks m (KInt k) = (GET_32 m 0 = k)"
| "key_in ks m (KStr s) = (cstr (ks - 16) m = s)"
| "key_in ks m (KMem s) = (bytes_at m 0 (length s) = s)"

lemma GET_SET_32: "GET_32 (SET_32 m p v) p = v"
  by (subst (2) word32_from_bytes) (simp add: GET_32_def SET_32_def)

lemma takeWhile_terminated: "0 \<notin> set s \<Longrightarrow> takeWhile (\<lambda>c. c \<noteq> 0) (s @ (0::U8) # t) = s"
  by (induction s) auto

lemma cstr_copied:
  assumes "length s < n" "0 \<notin> set s"
  shows "cstr n (mem_copy m 0 (s @ [0])) = s"
proof -
  obtain k where n: "n = length (s @ [0::U8]) + k" using assms(1) by (auto simp: less_iff_Suc_add)
  have "bytes_at (mem_copy m 0 (s @ [0])) 0 n = s @ 0 # bytes_at (mem_copy m 0 (s @ [0])) (length (s @ [0::U8])) k"
    unfolding n bytes_at_append bytes_at_mem_copy by simp
  then show ?thesis using assms(2) by (simp add: cstr_def takeWhile_terminated)
qed

lemma str_copy_whole: "length s < n \<Longrightarrow> \<exists>r. str_copy n s n = Some (s @ [0], r)"
proof -
  assume a: "length s < n"
  have "str_copy n s n = Some (s @ [0], length s)"
    unfolding str_copy_def using str_copy_loop_result [of "[]" n n s] a by simp
  then show ?thesis by blast
qed

lemma set_key_in:
  assumes "wf_key c (hs_key_size h) k"
  shows "\<exists>m'. set_key h m k = Some m' \<and> key_in (hs_key_size h) m' k"
proof (cases k)
  case (KInt i)
  then show ?thesis by (simp add: GET_SET_32)
next
  case (KStr s)
  with assms have s: "length s < hs_key_size h - 16" "0 \<notin> set s" by (cases c; simp)+
  then have "length s < hs_key_size h" by simp
  from str_copy_whole [OF this] obtain r where "str_copy (hs_key_size h) s (hs_key_size h) = Some (s @ [0], r)" by blast
  then show ?thesis using s KStr by (simp add: get_keybuf_size_def cstr_copied)
next
  case (KMem s)
  with assms have s: "length s \<le> hs_key_size h - 16" by (cases c) auto
  then have "take (if length s < hs_key_size h then length s else hs_key_size h) s = s" by auto
  then show ?thesis using KMem s bytes_at_mem_copy [of m 0 s] by (simp add: get_keybuf_size_def)
qed

lemma cmp_key_in:
  assumes "wf_key c (hs_key_size h) k" "wf_key c (hs_key_size h) k'" "key_in (hs_key_size h) (h_buf (hs_elm h e)) k'"
  shows "cmp_key h e k = Some (k' = k)"
proof (cases k)
  case (KInt i)
  then show ?thesis using assms by (cases c; cases k') auto
next
  case (KStr s)
  then obtain s' where k': "k' = KStr s'" "length s < hs_key_size h - 16" "length s' < hs_key_size h - 16"
    using assms by (cases c; cases k') auto
  then show ?thesis using KStr assms(3) str_cmp_loop_eq [of 0 "hs_key_size h" s' s]
    by (simp add: get_keybuf_size_def str_cmp_def str_cmp2_def)
next
  case (KMem s)
  then show ?thesis using assms by (cases c; cases k') (auto simp: get_keybuf_size_def)
qed

lemma get_hush_below: "0 < hs_size h \<Longrightarrow> \<exists>i. get_hush h k = Some i \<and> i < hs_size h"
  by (cases k) (auto simp: pjw_hush_def)

lemma get_hush_cong: "hs_size h' = hs_size h \<Longrightarrow> get_hush h' k = get_hush h k"
  by (cases k) auto

section \<open>The invariant\<close>

text \<open>The links of the chains, seen as those of the allocator's lists.\<close>

definition hlinks :: "(nat \<Rightarrow> hushelm) \<Rightarrow> (nat \<rightharpoonup> elem)" where
  "hlinks elm = (\<lambda>e. Some \<lparr>e_prev = h_prev (elm e), e_next = h_next (elm e), e_used = True, e_heap = False\<rparr>)"

lemma hlinks_at [simp]:
  "hlinks elm e = Some \<lparr>e_prev = h_prev (elm e), e_next = h_next (elm e), e_used = True, e_heap = False\<rparr>"
  by (simp add: hlinks_def)

lemma hlinks_upd: "hlinks (elm(e := x)) = (hlinks elm)(e \<mapsto> \<lparr>e_prev = h_prev x, e_next = h_next x, e_used = True, e_heap = False\<rparr>)"
  by (rule ext) simp

definition chain :: "'v hash \<Rightarrow> nat option \<Rightarrow> nat list \<Rightarrow> bool" where
  "chain h t es \<longleftrightarrow> (\<exists>q. dseg (hlinks (hs_elm h)) None t es q None) \<and> distinct es"

text \<open>\<open>K\<close> gives the key of every used element, \<open>n\<close> is the size of the pool.\<close>

definition hash_rep :: "key_class \<Rightarrow> nat \<Rightarrow> 'v hash \<Rightarrow> (nat \<rightharpoonup> hkey) \<Rightarrow> bool" where
  "hash_rep c n h K \<longleftrightarrow> (\<exists>a us fs. hs_a h = Some a \<and> fa_inv n a us fs \<and> dom K = set us)
     \<and> 0 < hs_size h \<and> length (hs_table h) = hs_size h
     \<and> (\<forall>e k. K e = Some k \<longrightarrow> wf_key c (hs_key_size h) k \<and> key_in (hs_key_size h) (h_buf (hs_elm h e)) k \<and> hs_vals h e \<noteq> None)
     \<and> (\<forall>e e' k. K e = Some k \<longrightarrow> K e' = Some k \<longrightarrow> e = e')
     \<and> (\<forall>i < hs_size h. \<exists>es. chain h (hs_table h ! i) es \<and> set es = {e. \<exists>k. K e = Some k \<and> get_hush h k = Some i})"

lemma hash_repI:
  assumes "hs_a h = Some a" "fa_inv n a us fs" "dom K = set us" "0 < hs_size h" "length (hs_table h) = hs_size h"
    and "\<And>e k. K e = Some k \<Longrightarrow> wf_key c (hs_key_size h) k \<and> key_in (hs_key_size h) (h_buf (hs_elm h e)) k \<and> hs_vals h e \<noteq> None"
    and "\<And>e e' k. K e = Some k \<Longrightarrow> K e' = Some k \<Longrightarrow> e = e'"
    and "\<And>i. i < hs_size h \<Longrightarrow> \<exists>es. chain h (hs_table h ! i) es \<and> set es = {e. \<exists>k. K e = Some k \<and> get_hush h k = Some i}"
  shows "hash_rep c n h K"
  unfolding hash_rep_def using assms by blast

lemma hash_rep_alloc: "hash_rep c n h K \<Longrightarrow> \<exists>a us fs. hs_a h = Some a \<and> fa_inv n a us fs \<and> dom K = set us"
  unfolding hash_rep_def by blast

lemma hash_rep_table: "hash_rep c n h K \<Longrightarrow> 0 < hs_size h \<and> length (hs_table h) = hs_size h"
  unfolding hash_rep_def by blast

lemma hash_rep_key:
  "hash_rep c n h K \<Longrightarrow> K e = Some k \<Longrightarrow>
     wf_key c (hs_key_size h) k \<and> key_in (hs_key_size h) (h_buf (hs_elm h e)) k \<and> hs_vals h e \<noteq> None"
  unfolding hash_rep_def by blast

lemma hash_rep_unique: "hash_rep c n h K \<Longrightarrow> K e = Some k \<Longrightarrow> K e' = Some k \<Longrightarrow> e = e'"
  unfolding hash_rep_def by blast

lemma hash_rep_chain:
  "hash_rep c n h K \<Longrightarrow> i < hs_size h \<Longrightarrow>
     \<exists>es. chain h (hs_table h ! i) es \<and> set es = {e. \<exists>k. K e = Some k \<and> get_hush h k = Some i}"
  unfolding hash_rep_def by blast

lemma hash_rep_mem: "hash_rep c n h K \<Longrightarrow> K e = Some k \<Longrightarrow> hs_mem h e"
proof -
  assume h: "hash_rep c n h K" and k: "K e = Some k"
  from hash_rep_alloc [OF h] obtain a us fs where a: "hs_a h = Some a" "fa_inv n a us fs" "dom K = set us" by blast
  then have "e \<in> dom (elems a)" using k unfolding fa_inv_def by auto
  then show ?thesis using a(1) by (auto simp: hs_mem_def)
qed

section \<open>Looking up\<close>

lemma chain_find_list:
  "dseg (hlinks (hs_elm h)) p t es q None \<Longrightarrow> (\<And>e. e \<in> set es \<Longrightarrow> hs_mem h e \<and> cmp_key h e k = Some (K e = Some k)) \<Longrightarrow>
     chain_find h k t = Some (find (\<lambda>e. K e = Some k) es)"
  by (induction es arbitrary: p t) (auto simp: chain_find.simps [of h k "Some e" for e] chain_find.simps [of h k None])

lemma chain_find_rep:
  assumes h: "hash_rep c n h K" and k: "wf_key c (hs_key_size h) k" and i: "get_hush h k = Some i"
  shows "\<exists>p. chain_find h k (hs_table h ! i) = Some p \<and> (\<forall>e. p = Some e \<longleftrightarrow> K e = Some k)"
proof -
  have "i < hs_size h" using get_hush_below [of h k] hash_rep_table [OF h] i by auto
  from hash_rep_chain [OF h this] obtain es q where d: "dseg (hlinks (hs_elm h)) None (hs_table h ! i) es q None"
    and es: "set es = {e. \<exists>k. K e = Some k \<and> get_hush h k = Some i}" unfolding chain_def by blast
  have "hs_mem h e \<and> cmp_key h e k = Some (K e = Some k)" if e: "e \<in> set es" for e
  proof -
    obtain k' where k': "K e = Some k'" using e es by auto
    then show ?thesis using hash_rep_mem [OF h k'] cmp_key_in [OF k] hash_rep_key [OF h k'] by auto
  qed
  from chain_find_list [OF d this] have f: "chain_find h k (hs_table h ! i) = Some (find (\<lambda>e. K e = Some k) es)" .
  have "find (\<lambda>e. K e = Some k) es = Some e \<longleftrightarrow> K e = Some k" for e
  proof
    assume "find (\<lambda>e. K e = Some k) es = Some e"
    then show "K e = Some k" by (auto simp: find_Some_iff)
  next
    assume e: "K e = Some k"
    then have "e \<in> set es" using es i by auto
    then have "find (\<lambda>e. K e = Some k) es \<noteq> None" using e by (auto simp: find_None_iff)
    then obtain e' where e': "find (\<lambda>e. K e = Some k) es = Some e'" by auto
    then have "K e' = Some k" by (auto simp: find_Some_iff)
    then show "find (\<lambda>e. K e = Some k) es = Some e" using hash_rep_unique [OF h e] e' by auto
  qed
  then show ?thesis using f by blast
qed

lemma hash_get_rep:
  assumes h: "hash_rep c n h K" and k: "wf_key c (hs_key_size h) k"
  shows "\<exists>p. hash_get k h = Some p \<and> (\<forall>e. p = Some e \<longleftrightarrow> K e = Some k)"
proof -
  obtain i where i: "get_hush h k = Some i" using get_hush_below hash_rep_table [OF h] by blast
  obtain a where a: "hs_a h = Some a" using hash_rep_alloc [OF h] by blast
  show ?thesis using chain_find_rep [OF h k i] i a by (simp add: hash_get_def)
qed

section \<open>Chains under updates\<close>

lemma chain_cong: "(\<And>e. e \<in> set es \<Longrightarrow> hs_elm h' e = hs_elm h e) \<Longrightarrow> chain h' t es = chain h t es"
proof -
  assume a: "\<And>e. e \<in> set es \<Longrightarrow> hs_elm h' e = hs_elm h e"
  have "dseg (hlinks (hs_elm h')) p t es q x = dseg (hlinks (hs_elm h)) p t es q x" for p q x
    using a by (induction es arbitrary: p t) auto
  then show ?thesis by (simp add: chain_def)
qed

lemma chain_links: "(\<And>e. h_prev (hs_elm h' e) = h_prev (hs_elm h e) \<and> h_next (hs_elm h' e) = h_next (hs_elm h e)) \<Longrightarrow> chain h' t es = chain h t es"
proof -
  assume "\<And>e. h_prev (hs_elm h' e) = h_prev (hs_elm h e) \<and> h_next (hs_elm h' e) = h_next (hs_elm h e)"
  then have "hlinks (hs_elm h') = hlinks (hs_elm h)" by (simp add: hlinks_def)
  then show ?thesis by (simp add: chain_def)
qed

lemma chain_push_other: "x \<noteq> e \<Longrightarrow> t \<noteq> Some x \<Longrightarrow> chain_push e t m elm x = elm x"
  by (auto simp: chain_push_def Let_def split: option.splits)

lemma chain_push_buf: "t \<noteq> Some e \<Longrightarrow> h_buf (chain_push e t m elm x) = (if x = e then m else h_buf (elm x))"
  by (auto simp: chain_push_def Let_def split: option.splits)

lemma chain_pushed:
  assumes c: "chain h t es" and e: "e \<notin> set es"
  shows "chain (h\<lparr>hs_elm := chain_push e t m (hs_elm h)\<rparr>) (Some e) (e # es)"
proof (cases es)
  case Nil
  then show ?thesis using c by (simp add: chain_def chain_push_def)
next
  case (Cons u us)
  from c obtain q where t: "t = Some u" and d: "dseg (hlinks (hs_elm h)) (Some u) (h_next (hs_elm h u)) us q None"
    and di: "u \<notin> set us" "distinct us" unfolding chain_def Cons by auto
  have "dseg (hlinks (chain_push e t m (hs_elm h))) (Some u) (h_next (hs_elm h u)) us q None"
    using d di e Cons by (simp add: chain_push_def Let_def t hlinks_upd del: fun_upd_apply)
  moreover have "u \<noteq> e" using e Cons by auto
  ultimately show ?thesis using di e Cons by (auto simp: chain_def chain_push_def t)
qed

lemma chain_unlink_fields [simp]:
  "hs_a (chain_unlink i e h) = hs_a h" "hs_size (chain_unlink i e h) = hs_size h"
  "hs_key_size (chain_unlink i e h) = hs_key_size h" "hs_vals (chain_unlink i e h) = hs_vals h"
  "length (hs_table (chain_unlink i e h)) = length (hs_table h)"
  "h_buf (hs_elm (chain_unlink i e h) x) = h_buf (hs_elm h x)"
  "j \<noteq> i \<Longrightarrow> hs_table (chain_unlink i e h) ! j = hs_table h ! j"
  by (auto simp: chain_unlink_def Let_def split: option.splits)

lemma chain_unlinked:
  assumes c: "chain h (hs_table h ! i) (as @ e # bs)" and i: "i < length (hs_table h)"
  shows "chain (chain_unlink i e h) (hs_table (chain_unlink i e h) ! i) (as @ bs)
    \<and> (\<forall>x. x \<notin> set (as @ bs) \<longrightarrow> hs_elm (chain_unlink i e h) x = hs_elm h x)"
proof -
  from c obtain q r where da: "dseg (hlinks (hs_elm h)) None (hs_table h ! i) as r (Some e)" and pe: "h_prev (hs_elm h e) = r"
    and db: "dseg (hlinks (hs_elm h)) (Some e) (h_next (hs_elm h e)) bs q None" and di: "distinct (as @ e # bs)"
    unfolding chain_def dseg_append by auto
  let ?x = "hs_elm h e"
  have b: "\<exists>q. dseg ((hlinks elm)(n \<mapsto> \<lparr>e_prev = h_prev ?x, e_next = h_next (hs_elm h n), e_used = True, e_heap = False\<rparr>)) r (Some n) bs q None"
    if nx: "h_next ?x = Some n" and elm: "\<And>y. y \<in> set bs \<Longrightarrow> elm y = hs_elm h y" for n elm
  proof -
    obtain bs' where bs: "bs = n # bs'" using db nx by (cases bs) auto
    have eq: "dseg (hlinks elm) p t bs q x = dseg (hlinks (hs_elm h)) p t bs q x" for p t q x
      using elm by (induction bs arbitrary: p t) auto
    have n: "n \<notin> set bs'" using di bs by auto
    have "dseg (hlinks elm) (Some e) (Some n) (n # bs') q None" using db eq nx bs by metis
    moreover have "elm n = hs_elm h n" using elm bs by simp
    ultimately show ?thesis using pe n bs by auto
  qed
  show ?thesis
  proof (cases as rule: rev_cases)
    case Nil
    then have r: "r = None" using da by simp
    show ?thesis
    proof (cases "h_next ?x")
      case None
      then show ?thesis using db r pe i Nil by (cases bs) (auto simp: chain_def chain_unlink_def)
    next
      case (Some n)
      then have "n \<in> set bs" using db by (cases bs) auto
      with Some show ?thesis using b [OF Some, of "hs_elm h"] r pe i Nil di
        by (auto simp: chain_def chain_unlink_def hlinks_upd)
    qed
  next
    case (snoc as' p)
    then have r: "r = Some p" using da by (auto simp: dseg_append)
    let ?elm = "(hs_elm h)(p := (hs_elm h p)\<lparr>h_next := h_next ?x\<rparr>)"
    have a: "dseg (hlinks ?elm) None (hs_table h ! i) as (Some p) (h_next ?x)"
      using dseg_next [of "hlinks (hs_elm h)" None "hs_table h ! i" as' p r "Some e"
          "\<lparr>e_prev = h_prev (hs_elm h p), e_next = h_next (hs_elm h p), e_used = True, e_heap = False\<rparr>" "h_next ?x"] da di snoc r
      by (simp add: hlinks_upd del: fun_upd_apply)
    show ?thesis
    proof (cases "h_next ?x")
      case None
      then have "bs = []" using db by (cases bs) auto
      then show ?thesis using a None pe r di snoc by (auto simp: chain_def chain_unlink_def)
    next
      case (Some n)
      then have n: "n \<in> set bs" "n \<notin> set as" using db di by (cases bs; auto)+
      have elm: "?elm y = hs_elm h y" if "y \<in> set bs" for y using that di snoc by auto
      have "(?elm n) = hs_elm h n" using elm n by blast
      then have "hs_elm (chain_unlink i e h) = ?elm(n := (hs_elm h n)\<lparr>h_prev := h_prev ?x\<rparr>)"
        using pe r Some by (simp add: chain_unlink_def Let_def)
      moreover have "dseg ((hlinks ?elm)(n \<mapsto> \<lparr>e_prev = h_prev ?x, e_next = h_next (hs_elm h n), e_used = True, e_heap = False\<rparr>))
          None (hs_table h ! i) as (Some p) (Some n)" using a n Some by simp
      moreover have "hs_table (chain_unlink i e h) = hs_table h" using pe r Some by (simp add: chain_unlink_def Let_def)
      ultimately show ?thesis using b [OF Some elm] n di snoc r
        by (auto simp: chain_def hlinks_upd dseg_append simp del: fun_upd_apply) (auto)
    qed
  qed
qed

section \<open>Inserting and removing\<close>

text \<open>A table with the chains of \<open>h\<close> but for the one of index \<open>i\<close>.\<close>

lemma other_chains:
  assumes h: "hash_rep c n h K" and j: "j < hs_size h" "j \<noteq> i" and sz: "hs_size h' = hs_size h"
    and t: "hs_table h' ! j = hs_table h ! j"
    and elm: "\<And>x k. K x = Some k \<Longrightarrow> get_hush h k \<noteq> Some i \<Longrightarrow> hs_elm h' x = hs_elm h x"
    and K': "\<And>x k. get_hush h k \<noteq> Some i \<Longrightarrow> K' x = Some k \<longleftrightarrow> K x = Some k"
  shows "\<exists>es. chain h' (hs_table h' ! j) es \<and> set es = {e. \<exists>k. K' e = Some k \<and> get_hush h' k = Some j}"
proof -
  obtain es where c: "chain h (hs_table h ! j) es" and es: "set es = {e. \<exists>k. K e = Some k \<and> get_hush h k = Some j}"
    using hash_rep_chain [OF h j(1)] by blast
  have "hs_elm h' x = hs_elm h x" if x: "x \<in> set es" for x
  proof -
    obtain k where "K x = Some k" "get_hush h k = Some j" using x es by auto
    then show ?thesis using elm [of x k] j(2) by auto
  qed
  then have "chain h' (hs_table h' ! j) es" using c t chain_cong [of es h' h] by auto
  moreover have "K' e = Some k \<and> get_hush h' k = Some j \<longleftrightarrow> K e = Some k \<and> get_hush h k = Some j" for e k
    using K' [of k e] j(2) get_hush_cong [OF sz] by auto
  then have "set es = {e. \<exists>k. K' e = Some k \<and> get_hush h' k = Some j}" using es by simp
  ultimately show ?thesis by blast
qed

lemma chain_head_in: "chain h t es \<Longrightarrow> t = Some u \<Longrightarrow> u \<in> set es"
  by (cases es) (auto simp: chain_def)

lemma hash_insert_there:
  assumes h: "hash_rep c n h K" and e: "K e = Some k" and w: "hs_vals h e = Some w"
  shows "hash_insert ok k f h = Some (if snd (f (Some w)) then Some e else None, True, h\<lparr>hs_vals := (hs_vals h)(e \<mapsto> fst (f (Some w)))\<rparr>)
    \<and> hash_rep c n (h\<lparr>hs_vals := (hs_vals h)(e \<mapsto> fst (f (Some w)))\<rparr>) K"
proof -
  have k: "wf_key c (hs_key_size h) k" using hash_rep_key [OF h e] by blast
  obtain i where i: "get_hush h k = Some i" using get_hush_below hash_rep_table [OF h] by blast
  obtain a us fs where a: "hs_a h = Some a" "fa_inv n a us fs" "dom K = set us" using hash_rep_alloc [OF h] by blast
  obtain p where "chain_find h k (hs_table h ! i) = Some p" "\<forall>e. p = Some e \<longleftrightarrow> K e = Some k"
    using chain_find_rep [OF h k i] by blast
  then have f: "chain_find h k (hs_table h ! i) = Some (Some e)" using e by auto
  let ?h = "h\<lparr>hs_vals := (hs_vals h)(e \<mapsto> fst (f (Some w)))\<rparr>"
  have "hash_rep c n ?h K"
  proof (rule hash_repI)
    fix e' k' assume "K e' = Some k'"
    then show "wf_key c (hs_key_size ?h) k' \<and> key_in (hs_key_size ?h) (h_buf (hs_elm ?h e')) k' \<and> hs_vals ?h e' \<noteq> None"
      using hash_rep_key [OF h] by auto
  next
    fix i assume "i < hs_size ?h"
    then have "i < hs_size h" by simp
    from hash_rep_chain [OF h this] obtain es where "chain h (hs_table h ! i) es"
      "set es = {e. \<exists>k. K e = Some k \<and> get_hush h k = Some i}" by blast
    then show "\<exists>es. chain ?h (hs_table ?h ! i) es \<and> set es = {e. \<exists>k. K e = Some k \<and> get_hush ?h k = Some i}"
      using chain_cong [of es ?h h] get_hush_cong [of ?h h] by (intro exI [of _ es]) simp
  qed (use a hash_rep_table [OF h] hash_rep_unique [OF h] in simp_all)
  then show ?thesis using i a(1) f w by (simp add: hash_insert_def split_beta)
qed

lemma hash_insert_refused:
  assumes h: "hash_rep c n h K" and k: "wf_key c (hs_key_size h) k" and new: "k \<notin> ran K"
    and a: "hs_a h = Some a" "alloc_nolock ok a = Some (None, a)"
  shows "hash_insert ok k f h = Some (None, False, h)"
proof -
  obtain i where i: "get_hush h k = Some i" using get_hush_below hash_rep_table [OF h] by blast
  obtain p where p: "chain_find h k (hs_table h ! i) = Some p" "\<forall>e. p = Some e \<longleftrightarrow> K e = Some k"
    using chain_find_rep [OF h k i] by blast
  have "p = None" using p(2) new by (cases p) (auto simp: ran_def)
  then show ?thesis using i a p(1) by (simp add: hash_insert_def)
qed

lemma hash_insert_fresh:
  assumes h: "hash_rep c n h K" and k: "wf_key c (hs_key_size h) k" and new: "k \<notin> ran K"
    and a: "hs_a h = Some a" and al: "alloc_nolock ok a = Some (Some e, a')"
  shows "\<exists>h'. hash_insert ok k f h = Some (if snd (f None) then Some e else None, False, h')
    \<and> hash_rep c n h' (K(e \<mapsto> k)) \<and> K e = None \<and> hs_a h' = Some a' \<and> hs_vals h' = (hs_vals h)(e \<mapsto> fst (f None))
    \<and> hs_key_size h' = hs_key_size h"
proof -
  obtain i where i: "get_hush h k = Some i" and il: "i < hs_size h" using get_hush_below hash_rep_table [OF h] by blast
  obtain us fs where inv: "fa_inv n a us fs" and K: "dom K = set us" using hash_rep_alloc [OF h] a by auto
  obtain fs' where inv': "fa_inv n a' (e # us) fs'" using alloc_cases [OF inv, of ok] al by auto
  have e: "e \<notin> dom K" using fa_inv_fresh [OF inv'] K by simp
  obtain p where p: "chain_find h k (hs_table h ! i) = Some p" "\<forall>e. p = Some e \<longleftrightarrow> K e = Some k"
    using chain_find_rep [OF h k i] by blast
  have pn: "p = None" using p(2) new by (cases p) (auto simp: ran_def)
  obtain m where m: "set_key h (h_buf (hs_elm h e)) k = Some m" "key_in (hs_key_size h) m k"
    using set_key_in [OF k] by blast
  obtain es where c: "chain h (hs_table h ! i) es" and es: "set es = {e. \<exists>k. K e = Some k \<and> get_hush h k = Some i}"
    using hash_rep_chain [OF h il] by blast
  have ees: "e \<notin> set es" using e es by auto
  have t: "hs_table h ! i \<noteq> Some e" using chain_head_in [OF c] ees by blast
  let ?h = "h\<lparr>hs_a := Some a', hs_elm := chain_push e (hs_table h ! i) m (hs_elm h),
    hs_table := (hs_table h)[i := Some e], hs_vals := (hs_vals h)(e \<mapsto> fst (f None))\<rparr>"
  have "hash_rep c n ?h (K(e \<mapsto> k))"
  proof (rule hash_repI)
    fix e' k' assume e': "(K(e \<mapsto> k)) e' = Some k'"
    show "wf_key c (hs_key_size ?h) k' \<and> key_in (hs_key_size ?h) (h_buf (hs_elm ?h e')) k' \<and> hs_vals ?h e' \<noteq> None"
    proof (cases "e' = e")
      case True
      then show ?thesis using e' k m(2) chain_push_buf [OF t] by simp
    next
      case False
      then have "K e' = Some k'" using e' by simp
      then show ?thesis using hash_rep_key [OF h] chain_push_buf [OF t] False by simp
    qed
  next
    fix e1 e2 k' assume "(K(e \<mapsto> k)) e1 = Some k'" "(K(e \<mapsto> k)) e2 = Some k'"
    then show "e1 = e2" using hash_rep_unique [OF h] new by (auto simp: ran_def split: if_splits)
  next
    fix j assume j: "j < hs_size ?h"
    show "\<exists>es. chain ?h (hs_table ?h ! j) es \<and> set es = {e'. \<exists>k'. (K(e \<mapsto> k)) e' = Some k' \<and> get_hush ?h k' = Some j}"
    proof (cases "j = i")
      case True
      have "chain ?h (Some e) (e # es)" using chain_pushed [OF c ees, of m] chain_cong [of "e # es" ?h] by (simp add: chain_def)
      moreover have "set (e # es) = {e'. \<exists>k'. (K(e \<mapsto> k)) e' = Some k' \<and> get_hush ?h k' = Some i}"
        using es i get_hush_cong [of ?h h] e by auto
      ultimately show ?thesis using True il hash_rep_table [OF h] by auto
    next
      case False
      show ?thesis
      proof (rule other_chains [OF h _ False])
        fix x k' assume x: "K x = Some k'" "get_hush h k' \<noteq> Some i"
        then have "x \<notin> set es" "x \<noteq> e" using es e by auto
        then show "hs_elm ?h x = hs_elm h x" using chain_push_other [of x e "hs_table h ! i" m "hs_elm h"] chain_head_in [OF c] by auto
      next
        fix x k' assume "get_hush h k' \<noteq> Some i"
        then show "(K(e \<mapsto> k)) x = Some k' \<longleftrightarrow> K x = Some k'" using i e by auto
      qed (use j False in auto)
    qed
  qed (use inv' K hash_rep_table [OF h] in auto)
  moreover have "hash_insert ok k f h = Some (if snd (f None) then Some e else None, False, ?h)"
    using i a p(1) pn al m(1) by (simp add: hash_insert_def split_beta)
  ultimately show ?thesis using e by auto
qed

lemma hash_remove_there:
  assumes h: "hash_rep c n h K" and e: "K e = Some k" and v: "hs_vals h e = Some v" "f v" and a: "hs_a h = Some a"
  shows "\<exists>h' a'. hash_remove k f h = Some (Some e, h') \<and> hash_rep c n h' (K(e := None)) \<and> fa_free_data e a = Some (Inr (), a')
    \<and> hs_a h' = Some a' \<and> hs_vals h' = hs_vals h \<and> hs_key_size h' = hs_key_size h
    \<and> hs_mem h' e = (\<not> (n \<le> e \<and> fa_use a \<le> fa_max a div 2))"
proof -
  have k: "wf_key c (hs_key_size h) k" using hash_rep_key [OF h e] by blast
  obtain i where i: "get_hush h k = Some i" and il: "i < hs_size h" using get_hush_below hash_rep_table [OF h] by blast
  obtain us fs where inv: "fa_inv n a us fs" and K: "dom K = set us" using hash_rep_alloc [OF h] a by auto
  have "e \<in> set us" using e K by auto
  then obtain as bs where us: "us = as @ e # bs" by (auto simp: in_set_conv_decomp)
  obtain a' where f: "fa_free_data e a = Some (Inr (), a')"
    and fr: "if n \<le> e \<and> fa_use a \<le> fa_max a div 2 then fa_inv n a' (as @ bs) fs \<and> elems a' e = None
       else fa_inv n a' (as @ bs) (e # fs)"
  proof -
    obtain a' where a': "fa_free_data e a = Some (Inr (), a')"
      "fa_inv n a' (as @ bs) (if n \<le> e \<and> fa_use a \<le> fa_max a div 2 then fs else e # fs)"
      using free_inv inv us by blast
    have "e \<notin> set ((as @ bs) @ fs)" using inv us unfolding fa_inv_def by simp
    from free_released [OF _ this] a' show ?thesis by (intro that [of a']) (auto split: if_splits)
  qed
  have "\<exists>fs. fa_inv n a' (as @ bs) fs" using fr by (auto split: if_splits)
  then obtain fs' where inv': "fa_inv n a' (as @ bs) fs'" by blast
  obtain p where p: "chain_find h k (hs_table h ! i) = Some p" "\<forall>e. p = Some e \<longleftrightarrow> K e = Some k"
    using chain_find_rep [OF h k i] by blast
  then have pe: "p = Some e" using e by auto
  obtain es where c: "chain h (hs_table h ! i) es" and es: "set es = {e. \<exists>k. K e = Some k \<and> get_hush h k = Some i}"
    using hash_rep_chain [OF h il] by blast
  have "e \<in> set es" using e es i by auto
  then obtain cs ds where ees: "es = cs @ e # ds" by (auto simp: in_set_conv_decomp)
  from chain_unlinked [OF c [unfolded ees]] il hash_rep_table [OF h]
  have c': "chain (chain_unlink i e h) (hs_table (chain_unlink i e h) ! i) (cs @ ds)"
    and elm: "\<And>x. x \<notin> set (cs @ ds) \<Longrightarrow> hs_elm (chain_unlink i e h) x = hs_elm h x" by auto
  have nin: "e \<notin> set (cs @ ds)" using c unfolding chain_def ees by simp
  have nus: "e \<notin> set (as @ bs)" using inv us unfolding fa_inv_def by simp
  let ?h = "(chain_unlink i e h)\<lparr>hs_a := Some a'\<rparr>"
  have "hash_rep c n ?h (K(e := None))"
  proof (rule hash_repI)
    show "dom (K(e := None)) = set (as @ bs)" using K us nus by auto
  next
    fix e' k' assume e': "(K(e := None)) e' = Some k'"
    then have "K e' = Some k'" by (auto split: if_splits)
    then show "wf_key c (hs_key_size ?h) k' \<and> key_in (hs_key_size ?h) (h_buf (hs_elm ?h e')) k' \<and> hs_vals ?h e' \<noteq> None"
      using hash_rep_key [OF h] by simp
  next
    fix e1 e2 k' assume "(K(e := None)) e1 = Some k'" "(K(e := None)) e2 = Some k'"
    then show "e1 = e2" using hash_rep_unique [OF h] by (auto split: if_splits)
  next
    fix j assume j: "j < hs_size ?h"
    show "\<exists>es. chain ?h (hs_table ?h ! j) es \<and> set es = {e'. \<exists>k'. (K(e := None)) e' = Some k' \<and> get_hush ?h k' = Some j}"
    proof (cases "j = i")
      case True
      have "chain ?h (hs_table ?h ! i) (cs @ ds)" using c' by (simp add: chain_def)
      moreover have "set (cs @ ds) = {e'. \<exists>k'. (K(e := None)) e' = Some k' \<and> get_hush ?h k' = Some i}"
        using es [unfolded ees] nin get_hush_cong [of ?h h] by (auto split: if_splits)
      ultimately show ?thesis using True by blast
    next
      case False
      show ?thesis
      proof (rule other_chains [OF h _ False])
        fix x k' assume x: "K x = Some k'" "get_hush h k' \<noteq> Some i"
        then have "x \<notin> set es" using es by auto
        then have "x \<notin> set (cs @ ds)" unfolding ees by simp
        then show "hs_elm ?h x = hs_elm h x" using elm by simp
      next
        fix x k' assume "get_hush h k' \<noteq> Some i"
        then show "(K(e := None)) x = Some k' \<longleftrightarrow> K x = Some k'" using i e by auto
      qed (use j False in auto)
    qed
  qed (use inv' hash_rep_table [OF h] in auto)
  moreover have "hash_remove k f h = Some (Some e, ?h)" using i a p(1) pe v f by (simp add: hash_remove_def)
  moreover have "hs_mem ?h e = (\<not> (n \<le> e \<and> fa_use a \<le> fa_max a div 2))"
    using fr unfolding fa_inv_def hs_mem_def by (auto split: if_splits)
  ultimately show ?thesis using f by auto
qed

section \<open>The contract of a map\<close>

datatype ('k, 'v) map_op = Find 'k | Insert 'k 'v | Erase 'k

datatype 'v map_res = Found "'v option" | Done bool

text \<open>A sequence of operations on a map, and what the same operations do to a partial function of at most \<open>cap\<close> entries.\<close>

fun run_map :: "('k \<Rightarrow> 's \<Rightarrow> 'v option option) \<Rightarrow> ('v \<Rightarrow> 'k \<Rightarrow> 's \<Rightarrow> (bool \<times> 's) option) \<Rightarrow> ('k \<Rightarrow> 's \<Rightarrow> (bool \<times> 's) option) \<Rightarrow>
    ('k, 'v) map_op list \<Rightarrow> 's \<Rightarrow> ('v map_res list \<times> 's) option" where
  "run_map fnd ins del [] s = Some ([], s)"
| "run_map fnd ins del (Find k # ops) s = (case fnd k s of None \<Rightarrow> None
     | Some r \<Rightarrow> map_option (\<lambda>(rs, s). (Found r # rs, s)) (run_map fnd ins del ops s))"
| "run_map fnd ins del (Insert k v # ops) s = (case ins v k s of None \<Rightarrow> None
     | Some (b, s) \<Rightarrow> map_option (\<lambda>(rs, s). (Done b # rs, s)) (run_map fnd ins del ops s))"
| "run_map fnd ins del (Erase k # ops) s = (case del k s of None \<Rightarrow> None
     | Some (b, s) \<Rightarrow> map_option (\<lambda>(rs, s). (Done b # rs, s)) (run_map fnd ins del ops s))"

definition has_room :: "nat \<Rightarrow> ('k \<rightharpoonup> 'v) \<Rightarrow> 'k \<Rightarrow> bool" where
  "has_room cap m k \<longleftrightarrow> m k = None \<and> card (dom m) < cap"

fun ref_map :: "nat \<Rightarrow> ('k, 'v) map_op list \<Rightarrow> ('k \<rightharpoonup> 'v) \<Rightarrow> 'v map_res list \<times> ('k \<rightharpoonup> 'v)" where
  "ref_map cap [] m = ([], m)"
| "ref_map cap (Find k # ops) m = (let (rs, m') = ref_map cap ops m in (Found (m k) # rs, m'))"
| "ref_map cap (Insert k v # ops) m =
     (let (rs, m') = ref_map cap ops (if has_room cap m k then m(k \<mapsto> v) else m) in (Done (has_room cap m k) # rs, m'))"
| "ref_map cap (Erase k # ops) m = (let (rs, m') = ref_map cap ops (m(k := None)) in (Done (m k \<noteq> None) # rs, m'))"

fun op_key :: "('k, 'v) map_op \<Rightarrow> 'k" where
  "op_key (Find k) = k" | "op_key (Insert k v) = k" | "op_key (Erase k) = k"

locale bounded_map =
  fixes rep :: "'s \<Rightarrow> ('k \<rightharpoonup> 'v) \<Rightarrow> bool" and wf :: "'k \<Rightarrow> bool" and cap :: nat
    and fnd :: "'k \<Rightarrow> 's \<Rightarrow> 'v option option"
    and ins :: "'v \<Rightarrow> 'k \<Rightarrow> 's \<Rightarrow> (bool \<times> 's) option"
    and del :: "'k \<Rightarrow> 's \<Rightarrow> (bool \<times> 's) option"
  assumes fnd_law: "rep s m \<Longrightarrow> wf k \<Longrightarrow> fnd k s = Some (m k)"
    and ins_law: "rep s m \<Longrightarrow> wf k \<Longrightarrow>
      \<exists>s'. ins v k s = Some (has_room cap m k, s') \<and> rep s' (if has_room cap m k then m(k \<mapsto> v) else m)"
    and del_law: "rep s m \<Longrightarrow> wf k \<Longrightarrow> \<exists>s'. del k s = Some (m k \<noteq> None, s') \<and> rep s' (m(k := None))"
begin

lemma run_agrees:
  "rep s m \<Longrightarrow> (\<And>op. op \<in> set ops \<Longrightarrow> wf (op_key op)) \<Longrightarrow>
     \<exists>s'. run_map fnd ins del ops s = Some (fst (ref_map cap ops m), s') \<and> rep s' (snd (ref_map cap ops m))"
proof (induction ops arbitrary: s m)
  case (Cons op ops)
  have wf: "wf (op_key op)" using Cons.prems by simp
  have IH: "\<exists>s'. run_map fnd ins del ops s = Some (fst (ref_map cap ops m), s') \<and> rep s' (snd (ref_map cap ops m))"
    if "rep s m" for s m using Cons that by simp
  show ?case
  proof (cases op)
    case (Find k)
    then show ?thesis using IH [OF Cons.prems(1)] fnd_law [OF Cons.prems(1), of k] wf
      by (auto simp: Let_def split_beta)
  next
    case (Insert k v)
    obtain s1 where 1: "ins v k s = Some (has_room cap m k, s1)" "rep s1 (if has_room cap m k then m(k \<mapsto> v) else m)"
      using ins_law [OF Cons.prems(1), of k v] wf Insert by auto
    from IH [OF 1(2)] show ?thesis using 1(1) Insert by (auto simp: Let_def split_beta)
  next
    case (Erase k)
    obtain s1 where 1: "del k s = Some (m k \<noteq> None, s1)" "rep s1 (m(k := None))"
      using del_law [OF Cons.prems(1), of k] wf Erase by auto
    from IH [OF 1(2)] show ?thesis using 1(1) Erase by (auto simp: Let_def split_beta)
  qed
qed simp

end

text \<open>The table as a partial function: a table of \<open>n\<close> elements that may not expand.\<close>

definition map_rep :: "key_class \<Rightarrow> nat \<Rightarrow> nat \<Rightarrow> 'v hash \<Rightarrow> (hkey \<rightharpoonup> 'v) \<Rightarrow> bool" where
  "map_rep c ks n h m \<longleftrightarrow> (\<exists>K a. hash_rep c n h K \<and> hs_key_size h = ks
     \<and> hs_a h = Some a \<and> \<not> fa_expandable a \<and> fa_max a = n
     \<and> (\<forall>k v. m k = Some v \<longleftrightarrow> (\<exists>e. K e = Some k \<and> hs_vals h e = Some v)))"

definition map_value :: "hkey \<Rightarrow> 'v hash \<Rightarrow> 'v option option" where
  "map_value k h =
     (case map_find k h of None \<Rightarrow> None
      | Some None \<Rightarrow> Some None
      | Some (Some e) \<Rightarrow> map_option Some (hs_vals h e))"

definition map_put :: "bool \<Rightarrow> 'v \<Rightarrow> hkey \<Rightarrow> 'v hash \<Rightarrow> (bool \<times> 'v hash) option" where
  "map_put ok v k h = map_option (\<lambda>(p, h). (p \<noteq> None, h)) (map_insert ok v k h)"

lemma alloc_keeps_kind:
  "alloc_nolock ok a = Some (r, a') \<Longrightarrow> \<not> fa_expandable a \<Longrightarrow> \<not> fa_expandable a' \<and> fa_max a' = fa_max a"
  by (auto simp: alloc_nolock_def alloc_elm_def link_used_def upd_elem_def upd_opt_def split: option.splits if_splits)

lemma free_keeps_kind:
  "fa_free_data e a = Some (r, a') \<Longrightarrow> \<not> fa_expandable a \<Longrightarrow> elems a e = Some x \<Longrightarrow> \<not> e_heap x \<Longrightarrow>
     \<not> fa_expandable a' \<and> fa_max a' = fa_max a"
  by (auto simp: fa_free_data_def free_elm_def unlink_used_def upd_elem_def upd_opt_def split: option.splits if_splits)

text \<open>Nothing comes from the heap when all the maximum is the pool.\<close>

lemma all_pool:
  assumes "fa_inv n a us fs" "fa_max a = n" "e \<in> set us"
  shows "e < n"
proof -
  have l: "length us + length fs = n" and d: "distinct (us @ fs)" and p: "{..<n} \<subseteq> set (us @ fs)"
    using assms(1,2) unfolding fa_inv_def by auto
  have "card (set (us @ fs)) = card {..<n}" using distinct_card [OF d] l by simp
  then have "{..<n} = set (us @ fs)" using card_subset_eq [OF finite_set p] by simp
  then show ?thesis using assms(3) by auto
qed

lemma map_repI:
  assumes "hash_rep c n h K" "hs_key_size h = ks" "hs_a h = Some a" "\<not> fa_expandable a" "fa_max a = n"
    and "\<And>k v. m k = Some v \<longleftrightarrow> (\<exists>e. K e = Some k \<and> hs_vals h e = Some v)"
  shows "map_rep c ks n h m"
  unfolding map_rep_def using assms by blast

lemma map_rep_None:
  assumes h: "hash_rep c n h K" and m: "\<And>k v. m k = Some v \<longleftrightarrow> (\<exists>e. K e = Some k \<and> hs_vals h e = Some v)"
  shows "m k = None \<longleftrightarrow> k \<notin> ran K"
  using hash_rep_key [OF h] m by (auto simp: ran_def) (metis not_None_eq)+

lemma map_rep_card:
  assumes h: "hash_rep c n h K" and m: "\<And>k v. m k = Some v \<longleftrightarrow> (\<exists>e. K e = Some k \<and> hs_vals h e = Some v)"
  shows "card (dom m) = card (dom K)"
proof -
  have "k \<in> dom m \<longleftrightarrow> k \<in> ran K" for k using map_rep_None [OF h m, of k] by auto
  then have "dom m = ran K" by blast
  moreover have "ran K = (\<lambda>e. the (K e)) ` dom K" by (force simp: ran_def dom_def image_iff)
  moreover have "inj_on (\<lambda>e. the (K e)) (dom K)" using hash_rep_unique [OF h] by (auto simp: inj_on_def)
  ultimately show ?thesis by (simp add: card_image)
qed

lemma map_value_rep:
  assumes r: "map_rep c ks n h m" and k: "wf_key c ks k"
  shows "map_value k h = Some (m k)"
proof -
  from r obtain K a where h: "hash_rep c n h K" "hs_key_size h = ks" "hs_a h = Some a" "\<not> fa_expandable a" "fa_max a = n"
    and m0: "\<forall>k v. m k = Some v \<longleftrightarrow> (\<exists>e. K e = Some k \<and> hs_vals h e = Some v)" unfolding map_rep_def by blast
  note m = m0 [rule_format]
  obtain p where p: "hash_get k h = Some p" "\<And>e. p = Some e \<longleftrightarrow> K e = Some k" using hash_get_rep [OF h(1)] k h(2) by blast
  show ?thesis
  proof (cases p)
    case None
    then have "m k = None" using p(2) map_rep_None [OF h(1) m] by (auto simp: ran_def)
    then show ?thesis using p(1) None by (simp add: map_value_def map_find_def)
  next
    case (Some e)
    then have "K e = Some k" using p(2) by simp
    moreover from this obtain v where "hs_vals h e = Some v" using hash_rep_key [OF h(1)] by blast
    ultimately have "hs_vals h e = Some v" "m k = Some v" using m by auto
    then show ?thesis using p(1) Some by (simp add: map_value_def map_find_def)
  qed
qed

lemma map_put_rep:
  assumes r: "map_rep c ks n h m" and k: "wf_key c ks k"
  shows "\<exists>h'. map_put ok v k h = Some (has_room n m k, h') \<and> map_rep c ks n h' (if has_room n m k then m(k \<mapsto> v) else m)"
proof -
  from r obtain K a where h: "hash_rep c n h K" "hs_key_size h = ks" "hs_a h = Some a" "\<not> fa_expandable a" "fa_max a = n"
    and m0: "\<forall>k v. m k = Some v \<longleftrightarrow> (\<exists>e. K e = Some k \<and> hs_vals h e = Some v)" unfolding map_rep_def by blast
  note m = m0 [rule_format]
  obtain us fs where inv: "fa_inv n a us fs" "dom K = set us" using hash_rep_alloc [OF h(1)] h(3) by auto
  have use: "card (dom m) = length us"
    using map_rep_card [OF h(1) m] inv distinct_card [of us] unfolding fa_inv_def by simp
  have len: "length us + length fs = n" using inv(1) h(5) unfolding fa_inv_def by simp
  show ?thesis
  proof (cases "m k")
    case (Some w)
    then obtain e where e: "K e = Some k" "hs_vals h e = Some w" using m by blast
    have "h\<lparr>hs_vals := (hs_vals h)(e \<mapsto> w)\<rparr> = h" using e(2) by (cases h) auto
    then have "hash_insert ok k (insert_set_data v) h = Some (None, True, h)"
      using hash_insert_there [OF h(1) e, of ok "insert_set_data v"] by (simp add: insert_set_data_def)
    then show ?thesis using Some r by (simp add: map_put_def map_insert_def has_room_def)
  next
    case None
    then have new: "k \<notin> ran K" using map_rep_None [OF h(1) m] by blast
    show ?thesis
    proof (cases fs)
      case Nil
      then have "alloc_nolock ok a = Some (None, a)"
        using inv(1) h(4) by (auto simp: alloc_nolock_def alloc_elm_def fa_inv_def)
      then have "hash_insert ok k (insert_set_data v) h = Some (None, False, h)"
        using hash_insert_refused [OF h(1) _ new h(3)] k h(2) by simp
      moreover have "\<not> has_room n m k" using Nil use len by (simp add: has_room_def)
      ultimately show ?thesis using r by (simp add: map_put_def map_insert_def)
    next
      case (Cons e fs')
      then obtain a' where al: "alloc_nolock ok a = Some (Some e, a')" using alloc_pool [of n a us e fs' ok] inv(1) by blast
      obtain h' where h': "hash_insert ok k (insert_set_data v) h = Some (Some e, False, h')" "hash_rep c n h' (K(e \<mapsto> k))"
        "K e = None" "hs_a h' = Some a'" "hs_vals h' = (hs_vals h)(e \<mapsto> v)" "hs_key_size h' = ks"
        using hash_insert_fresh [OF h(1) _ new h(3) al, of "insert_set_data v"] k h(2) by (auto simp: insert_set_data_def)
      have "(m(k \<mapsto> v)) k' = Some w \<longleftrightarrow> (\<exists>e'. (K(e \<mapsto> k)) e' = Some k' \<and> hs_vals h' e' = Some w)" for k' w
      proof -
        have "(K(e \<mapsto> k)) e' = Some k' \<and> hs_vals h' e' = Some w
            \<longleftrightarrow> e' = e \<and> k' = k \<and> w = v \<or> K e' = Some k' \<and> hs_vals h e' = Some w" for e'
          using h'(3,5) by (cases "e' = e") auto
        moreover have "(m(k \<mapsto> v)) k' = Some w \<longleftrightarrow> k' = k \<and> w = v \<or> m k' = Some w" using None by auto
        ultimately show ?thesis using m [of k' w] by auto
      qed
      then have "map_rep c ks n h' (m(k \<mapsto> v))"
        unfolding map_rep_def using h' alloc_keeps_kind [OF al h(4)] h(5) by blast
      moreover have "has_room n m k" using Cons use len None by (simp add: has_room_def)
      ultimately show ?thesis using h'(1) by (simp add: map_put_def map_insert_def)
    qed
  qed
qed

lemma map_erase_rep:
  assumes r: "map_rep c ks n h m" and k: "wf_key c ks k"
  shows "\<exists>h'. map_erase k h = Some (m k \<noteq> None, h') \<and> map_rep c ks n h' (m(k := None))"
proof -
  from r obtain K a where h: "hash_rep c n h K" "hs_key_size h = ks" "hs_a h = Some a" "\<not> fa_expandable a" "fa_max a = n"
    and m0: "\<forall>k v. m k = Some v \<longleftrightarrow> (\<exists>e. K e = Some k \<and> hs_vals h e = Some v)" unfolding map_rep_def by blast
  note m = m0 [rule_format]
  show ?thesis
  proof (cases "m k")
    case None
    obtain i where i: "get_hush h k = Some i" using get_hush_below hash_rep_table [OF h(1)] by blast
    obtain p where p: "chain_find h k (hs_table h ! i) = Some p" "\<forall>e. p = Some e \<longleftrightarrow> K e = Some k"
      using chain_find_rep [OF h(1) _ i] k h(2) by blast
    have "p = None" using p(2) None map_rep_None [OF h(1) m] by (cases p) (auto simp: ran_def)
    moreover have "m(k := None) = m" using None by auto
    ultimately show ?thesis using i h(3) p(1) None r by (simp add: map_erase_def hash_remove_def)
  next
    case (Some w)
    then obtain e where e: "K e = Some k" "hs_vals h e = Some w" using m by blast
    obtain us fs where inv: "fa_inv n a us fs" "dom K = set us" using hash_rep_alloc [OF h(1)] h(3) by auto
    have us: "e \<in> set us" using e(1) inv(2) by auto
    have en: "e < n" by (rule all_pool [OF inv(1) h(5) us])
    have "e \<in> dom (elems a)" using us inv(1) unfolding fa_inv_def by simp
    then obtain x where x1: "elems a e = Some x" by blast
    then have "\<not> e_heap x" using inv(1) en unfolding fa_inv_def by auto
    note x = x1 this
    obtain h' a' where h': "hash_remove k (\<lambda>_. True) h = Some (Some e, h')" "hash_rep c n h' (K(e := None))"
      "fa_free_data e a = Some (Inr (), a')" "hs_a h' = Some a'" "hs_vals h' = hs_vals h" "hs_key_size h' = ks" "hs_mem h' e"
      using hash_remove_there [OF h(1) e(1,2) _ h(3), of "\<lambda>_. True"] en h(2) by auto
    let ?h = "h'\<lparr>hs_vals := (hs_vals h')(e := None)\<rparr>"
    have "hash_rep c n ?h (K(e := None))"
    proof -
      obtain us fs where i: "fa_inv n a' us fs" "dom (K(e := None)) = set us" using hash_rep_alloc [OF h'(2)] h'(4) by auto
      show ?thesis
      proof (rule hash_repI)
        fix e' k' assume "(K(e := None)) e' = Some k'"
        then show "wf_key c (hs_key_size ?h) k' \<and> key_in (hs_key_size ?h) (h_buf (hs_elm ?h e')) k' \<and> hs_vals ?h e' \<noteq> None"
          using hash_rep_key [OF h'(2)] by (auto split: if_splits)
      next
        fix i assume "i < hs_size ?h"
        then have "i < hs_size h'" by simp
        from hash_rep_chain [OF h'(2) this] show "\<exists>es. chain ?h (hs_table ?h ! i) es
            \<and> set es = {e'. \<exists>k. (K(e := None)) e' = Some k \<and> get_hush ?h k = Some i}"
          using get_hush_cong [of ?h h'] by (simp add: chain_def)
      next
        show "hs_a ?h = Some a'" "0 < hs_size ?h" "length (hs_table ?h) = hs_size ?h"
          using h'(4) hash_rep_table [OF h'(2)] by simp_all
      next
        fix e1 e2 k' assume "(K(e := None)) e1 = Some k'" "(K(e := None)) e2 = Some k'"
        then show "e1 = e2" by (rule hash_rep_unique [OF h'(2)])
      qed (rule i)+
    qed
    moreover have "(m(k := None)) k' = Some v \<longleftrightarrow> (\<exists>e'. (K(e := None)) e' = Some k' \<and> hs_vals ?h e' = Some v)" for k' v
    proof -
      have "(K(e := None)) e' = Some k' \<and> hs_vals ?h e' = Some v \<longleftrightarrow> k' \<noteq> k \<and> K e' = Some k' \<and> hs_vals h e' = Some v" for e'
        using e(1) hash_rep_unique [OF h(1) e(1), of e'] h'(5) by (cases "e' = e") auto
      then show ?thesis using m [of k' v] by auto
    qed
    ultimately have "map_rep c ks n ?h (m(k := None))"
      using h'(4,6) free_keeps_kind [OF h'(3) h(4) x] h(5) by (intro map_repI [where K = "K(e := None)" and a = a']) simp_all
    then show ?thesis using h' Some by (simp add: map_erase_def)
  qed
qed

interpretation hm: bounded_map "map_rep c ks n" "wf_key c ks" n map_value "map_put ok" map_erase for c ks n ok
proof
  show "map_value k s = Some (m k)" if "map_rep c ks n s m" "wf_key c ks k" for s m k by (rule map_value_rep [OF that])
  show "\<exists>s'. map_put ok v k s = Some (has_room n m k, s') \<and> map_rep c ks n s' (if has_room n m k then m(k \<mapsto> v) else m)"
    if "map_rep c ks n s m" "wf_key c ks k" for s m k v by (rule map_put_rep [OF that])
  show "\<exists>s'. map_erase k s = Some (m k \<noteq> None, s') \<and> map_rep c ks n s' (m(k := None))"
    if "map_rep c ks n s m" "wf_key c ks k" for s m k by (rule map_erase_rep [OF that])
qed

lemma map_init_fresh:
  assumes "0 < n" "0 < sz"
  shows "\<exists>h a. map_init True True True c n (int sz) b hs_zero = Some (True, h) \<and> hash_rep c n h Map.empty
    \<and> hs_key_size h = get_key_size (kcont_type c) (kcont_bytes c) \<and> hs_a h = Some a \<and> fa_inv n a [] [0..<n] \<and> fa_expandable a = b"
proof -
  obtain a where a: "init_header n b = Some a" "fa_inv n a [] [0..<n]" using init_inv [OF assms(1)] by blast
  have kind: "fa_expandable a = b" using a(1) assms(1) by (auto simp: init_header_def)
  let ?ks = "get_key_size (kcont_type c) (kcont_bytes c)"
  let ?h = "hs_zero\<lparr>hs_size := nat (prime True (int sz)), hs_type := kcont_type c, hs_key_size := ?ks,
    hs_a := Some a, hs_table := replicate (nat (prime True (int sz))) None\<rparr>"
  have p: "0 < prime True (int sz)" by (rule prime_pos [OF assms(2)])
  then have "map_init True True True c n (int sz) b hs_zero = Some (True, ?h)"
    using a(1) by (simp add: map_init_def hash_init_def fa_create_def Let_def hash_initialized_def)
  moreover have "hash_rep c n ?h Map.empty"
    by (rule hash_repI [where us = "[]"]) (use a(2) p in \<open>auto simp: chain_def intro!: exI [of _ "[]"]\<close>)
  ultimately show ?thesis using a(2) kind by (intro exI [of _ ?h]) auto
qed

lemma map_init_rep:
  assumes "0 < n" "0 < sz"
  shows "\<exists>h :: 'a hash. map_init True True True c n (int sz) False hs_zero = Some (True, h)
    \<and> map_rep c (get_key_size (kcont_type c) (kcont_bytes c)) n h Map.empty"
proof -
  obtain h :: "'a hash" and a where h: "map_init True True True c n (int sz) False hs_zero = Some (True, h)" "hash_rep c n h Map.empty"
    "hs_key_size h = get_key_size (kcont_type c) (kcont_bytes c)" "hs_a h = Some a" "fa_inv n a [] [0..<n]" "\<not> fa_expandable a"
    using map_init_fresh [OF assms, of c False] by blast
  have "fa_max a = n" using h(5) unfolding fa_inv_def by simp
  then have "map_rep c (get_key_size (kcont_type c) (kcont_bytes c)) n h Map.empty"
    using h by (intro map_repI [where K = Map.empty and a = a]) simp_all
  then show ?thesis using h(1) by blast
qed

section \<open>Properties\<close>

text \<open>
  C19: a map of at most \<open>n\<close> entries behaves as a finite map: after \<open>init\<close>, every sequence of \<open>find\<close>,
  \<open>insert\<close> and \<open>erase\<close> with keys that fit their buffer runs without undefined behaviour, and each
  operation answers as it does on a partial function, where an insertion is refused when
  the key is there already or \<open>n\<close> are.
\<close>

theorem map_is_a_finite_map:
  assumes "0 < n" "0 < sz"
    and "\<And>op. op \<in> set ops \<Longrightarrow> wf_key c (get_key_size (kcont_type c) (kcont_bytes c)) (op_key op)"
  shows "\<exists>h h'. map_init True True True c n (int sz) False hs_zero = Some (True, h)
    \<and> run_map map_value (map_put ok) map_erase ops h = Some (fst (ref_map n ops Map.empty), h')"
  using map_init_rep [OF assms(1,2), of c] hm.run_agrees [OF _ assms(3)] by blast

lemma map_is_a_finite_map_witness:
  "\<exists>h h'. map_init True True True CInt 1 (int 7) False hs_zero = Some (True, h)
    \<and> run_map map_value (map_put False) map_erase
        [Insert (KInt 3) ''a'', Insert (KInt 10) ''b'', Find (KInt 3), Erase (KInt 3), Find (KInt 3)] h
      = Some ([Done True, Done False, Found (Some ''a''), Done True, Found None], h')"
proof -
  let ?ops = "[Insert (KInt 3) ''a'', Insert (KInt 10) ''b'', Find (KInt 3), Erase (KInt 3), Find (KInt 3)]"
  have r: "fst (ref_map 1 ?ops Map.empty) = [Done True, Done False, Found (Some ''a''), Done True, Found None]"
    by (simp add: has_room_def)
  have "\<exists>h h'. map_init True True True CInt 1 (int 7) False hs_zero = Some (True, h)
    \<and> run_map map_value (map_put False) map_erase ?ops h = Some (fst (ref_map 1 ?ops Map.empty), h')"
    by (rule map_is_a_finite_map) auto
  then show ?thesis unfolding r .
qed

lemma insert_value_irrelevant:
  assumes "get_hush h k = Some i" "chain_find h k (hs_table h ! i) = Some None" "hash_insert ok k (alloc_if_set_data v0) h = Some (p, b, h1)"
  shows "case p of None \<Rightarrow> hash_insert ok k (insert_set_data v1) h = Some (None, False, h1)
    | Some e \<Rightarrow> b = False \<and> hs_vals h1 e = Some v0
        \<and> hash_insert ok k (insert_set_data v1) h = Some (Some e, False, h1\<lparr>hs_vals := (hs_vals h1)(e \<mapsto> v1)\<rparr>)"
  using assms by (auto simp: hash_insert_def alloc_if_set_data_def insert_set_data_def split: option.splits prod.splits)

text \<open>
  \<open>alloc_and_init\<close> keeps no half-made entry: when the initialiser of a new value fails, or there is no room,
  the result is \<open>NULL\<close> and the table holds what it held before.
\<close>

theorem init_failure_rolls_back:
  assumes r: "map_rep c ks n h m" and k: "wf_key c ks k" and new: "m k = None" and bad: "fst (izr v0) < 0"
  shows "\<exists>h'. alloc_and_init ok v0 k izr chk h = Some (None, h') \<and> map_rep c ks n h' m"
proof -
  from r obtain K where h: "hash_rep c n h K" "hs_key_size h = ks"
    and m0: "\<forall>k v. m k = Some v \<longleftrightarrow> (\<exists>e. K e = Some k \<and> hs_vals h e = Some v)" unfolding map_rep_def by blast
  obtain i where i: "get_hush h k = Some i" using get_hush_below hash_rep_table [OF h(1)] by blast
  obtain p where p: "chain_find h k (hs_table h ! i) = Some p" "\<forall>e. p = Some e \<longleftrightarrow> K e = Some k"
    using chain_find_rep [OF h(1) _ i] k h(2) by blast
  have "k \<notin> ran K" using new map_rep_None [OF h(1) m0 [rule_format]] by blast
  then have "p = None" using p(2) by (cases p) (auto simp: ran_def)
  with p(1) have c: "chain_find h k (hs_table h ! i) = Some None" by simp
  obtain v1 where iz: "izr v0 = (fst (izr v0), v1)" by (cases "izr v0") auto
  obtain h2 where put: "map_put ok v1 k h = Some (has_room n m k, h2)"
    and r2: "map_rep c ks n h2 (if has_room n m k then m(k \<mapsto> v1) else m)" using map_put_rep [OF r k] by blast
  obtain q b h1 where q: "hash_insert ok k (alloc_if_set_data v0) h = Some (q, b, h1)"
    using put i c by (auto simp: map_put_def map_insert_def hash_insert_def insert_set_data_def alloc_if_set_data_def split: option.splits prod.splits)
  note irr = insert_value_irrelevant [OF i c q, of v1]
  show ?thesis
  proof (cases q)
    case None
    then have "has_room n m k = False" "h2 = h1" using irr put by (auto simp: map_put_def map_insert_def)
    then show ?thesis using None q r2 by (simp add: alloc_and_init_def map_alloc_key_def)
  next
    case (Some e)
    let ?h = "h1\<lparr>hs_vals := (hs_vals h1)(e \<mapsto> v1)\<rparr>"
    have e: "b = False" "hs_vals h1 e = Some v0" "has_room n m k" "h2 = ?h"
      using Some irr put by (auto simp: map_put_def map_insert_def)
    then have "map_rep c ks n ?h (m(k \<mapsto> v1))" using r2 by simp
    from map_erase_rep [OF this k] obtain h' where "map_erase k ?h = Some (True, h')" "map_rep c ks n h' (m(k := None))" by auto
    moreover have "m(k := None) = m" using new by auto
    ultimately show ?thesis using Some q e iz bad by (cases "izr v0") (auto simp: alloc_and_init_def map_alloc_key_def Let_def)
  qed
qed

lemma init_failure_rolls_back_witness:
  "\<exists>h h'. map_init True True True (CMem 2) 1 (int 7) False hs_zero = Some (True, h)
    \<and> alloc_and_init True ''v'' (KMem [1, 2]) (\<lambda>v. (- 1, v)) (\<lambda>n v. (1, v)) h = Some (None, h')
    \<and> map_rep (CMem 2) (get_key_size HKT_MEM 2) 1 h' Map.empty"
proof -
  obtain h :: "string hash" where h: "map_init True True True (CMem 2) 1 (int 7) False hs_zero = Some (True, h)"
    "map_rep (CMem 2) (get_key_size HKT_MEM 2) 1 h Map.empty" using map_init_rep [of 1 7 "CMem 2"] by auto
  from init_failure_rolls_back [OF h(2), of "KMem [1, 2]" "\<lambda>v. (- 1, v)" "''v''" True "\<lambda>n v. (1, v)"] h(1) show ?thesis by auto
qed

text \<open>
  \<open>find_and_erase\<close> on a table that expands: for an element from the heap, when at most half
  the elements are in use, the value is read from memory that \<open>remove\<close> has just given back.
\<close>

theorem find_and_erase_reads_freed:
  assumes h: "hash_rep c n h K" and e: "K e = Some k" "n \<le> e" and a: "hs_a h = Some a" "fa_use a \<le> fa_max a div 2"
  shows "find_and_erase k h = None"
proof -
  obtain v where v: "hs_vals h e = Some v" using hash_rep_key [OF h e(1)] by blast
  obtain h' where "hash_remove k (\<lambda>_. True) h = Some (Some e, h')" "\<not> hs_mem h' e"
    using hash_remove_there [OF h e(1) v _ a(1), of "\<lambda>_. True"] e(2) a(2) by auto
  then show ?thesis by (simp add: find_and_erase_def find_and_erase_if_def)
qed

lemma find_and_erase_reads_freed_witness:
  "\<exists>(h :: string hash) K e. hash_rep CInt 1 h K \<and> K e = Some (KInt 2) \<and> find_and_erase (KInt 2) h = None"
proof -
  obtain h0 :: "string hash" and a0 where h0: "hash_rep CInt 1 h0 Map.empty" "hs_a h0 = Some a0" "fa_inv 1 a0 [] [0]" "fa_expandable a0"
    using map_init_fresh [of 1 7 CInt True] by auto
  obtain a1 where a1: "alloc_nolock True a0 = Some (Some 0, a1)" "fa_inv 1 a1 [0] []" using alloc_pool [OF h0(3), of True] by blast
  have "fa_expandable a1" using a1(1) h0(4)
    by (auto simp: alloc_nolock_def alloc_elm_def link_used_def upd_elem_def upd_opt_def split: option.splits if_splits)
  from alloc_heap [OF a1(2) this] obtain a2 where a2: "alloc_nolock True a1 = Some (Some (fa_fresh a1), a2)"
    "fa_inv 1 a2 [fa_fresh a1, 0] []" by blast
  have a2e: "1 \<le> fa_fresh a1" using a1(2) unfolding fa_inv_def by blast
  define e where "e = fa_fresh a1"
  note a2 = a2 [folded e_def] a2e [folded e_def]
  obtain h1 :: "string hash" where h1: "hash_rep CInt 1 h1 [0 \<mapsto> KInt 1]" "hs_a h1 = Some a1"
    using hash_insert_fresh [OF h0(1) _ _ h0(2) a1(1), of "KInt 1" "insert_set_data ''a''"] by auto
  obtain h2 :: "string hash" where h2: "hash_rep CInt 1 h2 ([0 \<mapsto> KInt 1](e \<mapsto> KInt 2))" "hs_a h2 = Some a2"
  proof -
    have "KInt 2 \<notin> ran [0 \<mapsto> KInt 1]" by simp
    from hash_insert_fresh [OF h1(1) _ this h1(2) a2(1), of "insert_set_data ''b''"] show ?thesis using that by auto
  qed
  have K: "([0 \<mapsto> KInt 1](e \<mapsto> KInt 2)) 0 = Some (KInt 1)" using a2(3) by simp
  obtain v where v: "hs_vals h2 0 = Some v" using hash_rep_key [OF h2(1) K] by blast
  obtain h3 :: "string hash" and a3 where h3: "hash_rep CInt 1 h3 (([0 \<mapsto> KInt 1](e \<mapsto> KInt 2))(0 := None))" "hs_a h3 = Some a3"
    "fa_free_data 0 a2 = Some (Inr (), a3)"
    using hash_remove_there [OF h2(1) K v TrueI h2(2)] by blast
  have "fa_inv 1 a3 ([e] @ []) [0]" using free_inv [of 1 a2 "[e]" 0 "[]" "[]"] a2(2) h3(3) by auto
  then have "fa_use a3 \<le> fa_max a3 div 2" unfolding fa_inv_def by simp
  moreover have "(([0 \<mapsto> KInt 1](e \<mapsto> KInt 2))(0 := None)) e = Some (KInt 2)" using a2(3) by simp
  ultimately show ?thesis using find_and_erase_reads_freed [OF h3(1) _ a2(3) h3(2)] h3(1) by blast
qed

end
