(* ===== verification/Ws.thy ===== *)
theory Ws
  imports Prelude
begin

text \<open>
  \<^verbatim>\<open>src/src/net/protocol/ws.hpp\<close>: the frames of the web socket protocol, reading and writing them.

  What arrives on the descriptor is a list of \<open>read\<close> results; a read of at most \<open>l\<close> bytes takes the first
  one, or its first \<open>l\<close> bytes.  \<open>None\<close> is a loop that does not end, \<open>Overrun\<close> a write behind a buffer.
  The handshake, which works on HTTP messages, is not here.

  The lemmas: masking is the exclusive or with the repeated key, in whatever pieces it is done; the header that is
  written is the one that is read; what \<open>read_frame\<close> makes of a frame.
\<close>

section \<open>Frame headers\<close>

type_synonym bits = U16

definition hdr_fin :: "bits \<Rightarrow> bool" where "hdr_fin b = (b AND push_bit 7 1 \<noteq> 0)"
definition hdr_rsv1 :: "bits \<Rightarrow> bool" where "hdr_rsv1 b = (b AND push_bit 6 1 \<noteq> 0)"
definition hdr_rsv2 :: "bits \<Rightarrow> bool" where "hdr_rsv2 b = (b AND push_bit 5 1 \<noteq> 0)"
definition hdr_rsv3 :: "bits \<Rightarrow> bool" where "hdr_rsv3 b = (b AND push_bit 4 1 \<noteq> 0)"
definition hdr_opcode :: "bits \<Rightarrow> nat" where "hdr_opcode b = unat (b AND 0x000F)"
definition hdr_mask :: "bits \<Rightarrow> bool" where "hdr_mask b = (b AND push_bit 15 1 \<noteq> 0)"
definition hdr_payload_len :: "bits \<Rightarrow> nat" where "hdr_payload_len b = unat (drop_bit 8 (b AND 0x7F00))"

definition set_controls :: "bool \<Rightarrow> bool \<Rightarrow> U8 \<Rightarrow> bits" where
  "set_controls f m opc =
     (let b = 0; b = (if f then b OR push_bit 7 1 else b); b = (if m then b OR push_bit 15 1 else b)
      in b OR ucast (opc AND 0x0F))"

definition set_payload_len :: "U8 \<Rightarrow> bits \<Rightarrow> bits" where
  "set_payload_len len b = b OR push_bit 8 (ucast (len AND 0x7F))"

text \<open>The sizes of the six layouts of a frame, and where the masking key and the extended length are.\<close>

datatype layout = Short | Ext16 | Ext64

fun hdr_size :: "bool \<Rightarrow> layout \<Rightarrow> nat" where
  "hdr_size masked Short = (if masked then 6 else 2)"
| "hdr_size masked Ext16 = (if masked then 8 else 4)"
| "hdr_size masked Ext64 = (if masked then 14 else 10)"

definition frame_max :: nat where
  "frame_max = 14"

fun key_ofs :: "layout \<Rightarrow> nat" where
  "key_ofs Short = 2" | "key_ofs Ext16 = 4" | "key_ofs Ext64 = 10"

section \<open>Masking\<close>

definition mask_byte :: "U32 \<Rightarrow> nat \<Rightarrow> U8" where
  "mask_byte mk i = ucast (drop_bit (8 * i) mk)"

fun mask_head :: "U8 list \<Rightarrow> U32 \<Rightarrow> nat \<Rightarrow> U8 list \<times> U8 list \<times> nat" where
  "mask_head [] mk idx = ([], [], idx)"
| "mask_head (x # p) mk idx =
     (if idx < 4 then (let (ds, p, idx') = mask_head p mk (idx + 1) in ((x XOR mask_byte mk idx) # ds, p, idx'))
      else ([], x # p, idx))"

definition le32 :: "U8 \<Rightarrow> U8 \<Rightarrow> U8 \<Rightarrow> U8 \<Rightarrow> U32" where
  "le32 a b c d = ucast a OR push_bit 8 (ucast b) OR push_bit 16 (ucast c) OR push_bit 24 (ucast d)"

fun mask_words :: "U8 list \<Rightarrow> U32 \<Rightarrow> U8 list \<times> U8 list" where
  "mask_words (a # b # c # d # p) mk =
     (let w = le32 a b c d XOR mk; (ds, p) = mask_words p mk
      in (ucast w # ucast (drop_bit 8 w) # ucast (drop_bit 16 w) # ucast (drop_bit 24 w) # ds, p))"
| "mask_words p mk = ([], p)"

fun mask_tail :: "nat \<Rightarrow> U8 list \<Rightarrow> U32 \<Rightarrow> nat \<Rightarrow> U8 list \<times> nat" where
  "mask_tail k [] mk idx = ([], idx)"
| "mask_tail k (x # p) mk idx = (let (ds, idx) = mask_tail (k + 1) p mk k in ((x XOR mask_byte mk k) # ds, idx))"

definition mask_payload :: "U8 list \<Rightarrow> U32 \<Rightarrow> nat \<Rightarrow> U8 list \<times> nat" where
  "mask_payload p mk idx =
     (let (h, p, idx) = (if idx > 0
            then (let (h, p, idx) = mask_head p mk idx in (h, p, if idx \<ge> 4 then 0 else idx))
            else ([], p, idx));
          (w, p) = mask_words p mk
      in if p = [] then (h @ w, idx)
         else (let (t, idx) = mask_tail 0 p mk idx in (h @ w @ t, idx + 1)))"

section \<open>The connection\<close>

datatype rd = Data "U8 list" | Again | Fail

datatype ws_state = state_established | state_recv_frame | state_recv bool layout

record ws_conn =
  ws_st :: ws_state
  ws_flen :: nat
  ws_mask_idx :: nat
  ws_ctrl :: "U8 list option"
  ws_read :: U64
  ws_frame :: mem
  ws_body :: "U8 list"
  ws_in :: "rd list"
  ws_out :: "U8 list"

text \<open>What the world gives to \<open>write_frame\<close>: the role, a random key and the results of its two writes.\<close>

record ws_env =
  is_server :: bool
  ws_rand :: U32
  ws_write1 :: "nat \<Rightarrow> nat option"
  ws_write2 :: "nat \<Rightarrow> nat option"

definition CONTROL_FRAME_MAX :: nat where
  "CONTROL_FRAME_MAX = 125"

definition init_frame :: "ws_conn \<Rightarrow> ws_conn" where
  "init_frame c = c\<lparr>ws_flen := 0, ws_read := 0, ws_mask_idx := 0\<rparr>"

fun sys_read :: "nat \<Rightarrow> rd list \<Rightarrow> rd \<times> rd list" where
  "sys_read l [] = (Again, [])"
| "sys_read l (Data bs # rest) =
     (if length bs \<le> l then (Data bs, rest) else (Data (take l bs), Data (drop l bs) # rest))"
| "sys_read l (r # rest) = (r, rest)"

text \<open>Bytes that came with the handshake are read before those of the descriptor.\<close>

definition read_body_and_fd :: "nat \<Rightarrow> ws_conn \<Rightarrow> rd \<times> ws_conn" where
  "read_body_and_fd l c =
     (if length (ws_body c) > 0 then (Data (take l (ws_body c)), c\<lparr>ws_body := drop l (ws_body c)\<rparr>)
      else (let (r, i) = sys_read l (ws_in c) in (r, c\<lparr>ws_in := i\<rparr>)))"

abbreviation ws_bits :: "ws_conn \<Rightarrow> bits" where
  "ws_bits c \<equiv> GET_16 (ws_frame c) 0"

definition masked :: "ws_conn \<Rightarrow> bool" where
  "masked c = hdr_mask (ws_bits c)"

definition get_opcode :: "ws_conn \<Rightarrow> nat" where
  "get_opcode c = hdr_opcode (ws_bits c)"

definition frame_layout :: "nat \<Rightarrow> layout" where
  "frame_layout len = (if len = 0x7F then Ext64 else if len = 0x7E then Ext16 else Short)"

text \<open>\<open>analyze_frame\<close>: the new state, and how many of the bytes read are behind the header.\<close>

definition analyze_frame :: "ws_conn \<Rightarrow> ws_state \<times> nat" where
  "analyze_frame c =
     (if ws_flen c < 2 then (state_recv_frame, 0)
      else (let lay = frame_layout (hdr_payload_len (ws_bits c)) in
            if ws_flen c < hdr_size (masked c) lay then (state_recv_frame, 0)
            else (state_recv (masked c) lay, ws_flen c - hdr_size (masked c) lay)))"

fun get_mask :: "ws_conn \<Rightarrow> U32" where
  "get_mask c = (case ws_st c of state_recv True lay \<Rightarrow> GET_32 (ws_frame c) (key_ofs lay) | _ \<Rightarrow> 0)"

definition frame_size :: "ws_conn \<Rightarrow> U64" where
  "frame_size c =
     (case ws_st c of
        state_recv m Short \<Rightarrow> of_nat (hdr_payload_len (ws_bits c))
      | state_recv m Ext16 \<Rightarrow> ucast (htons (GET_16 (ws_frame c) 2))
      | state_recv m Ext64 \<Rightarrow> ntohll (GET_64 (ws_frame c) 2)
      | _ \<Rightarrow> - 6)"

section \<open>Writing\<close>

definition frame_header :: "bool \<Rightarrow> bool \<Rightarrow> U8 \<Rightarrow> nat \<Rightarrow> U32 \<Rightarrow> mem \<times> nat" where
  "frame_header fin m opc l rnd =
     (let b = set_controls fin m opc in
      if l \<ge> 0x7E then
        if l \<le> 0xFFFF then
          (let buff = SET_16 (SET_16 (\<lambda>_. 0) 0 (set_payload_len 0x7E b)) 2 (htons (of_nat l)) in
           if m then (SET_32 buff 4 rnd, hdr_size True Ext16) else (buff, hdr_size False Ext16))
        else
          (let buff = SET_64 (SET_16 (\<lambda>_. 0) 0 (set_payload_len 0x7F b)) 2 (htonll (of_nat l)) in
           if m then (SET_32 buff 10 rnd, hdr_size True Ext64) else (buff, hdr_size False Ext64))
      else
        (let buff = SET_16 (\<lambda>_. 0) 0 (set_payload_len (of_nat l) b) in
         if m then (SET_32 buff 2 rnd, hdr_size True Short) else (buff, hdr_size False Short)))"

text \<open>
  \<open>write_frame\<close>: the result, what was sent, and the caller's bytes afterwards, as the payload is masked in
  place.
\<close>

definition write_frame :: "ws_env \<Rightarrow> U8 list \<Rightarrow> U8 \<Rightarrow> bool \<Rightarrow> bool \<Rightarrow> (nbr_error + nat) \<times> U8 list \<times> U8 list" where
  "write_frame env p opc m fin =
     (let m = (m \<and> \<not> is_server env);
          (buff, hl) = frame_header fin m opc (length p) (ws_rand env) in
      case ws_write1 env hl of None \<Rightarrow> (Inl ESEND, [], p)
      | Some n \<Rightarrow>
          (let q = (if m then fst (mask_payload p (ws_rand env) 0) else p); sent = take n (bytes_at buff 0 hl) in
           case ws_write2 env (length q) of None \<Rightarrow> (Inl ESEND, sent, q)
           | Some r \<Rightarrow> (if r < length p then Inl ESEND else Inr r, sent @ take r q, q)))"

section \<open>Reading\<close>

text \<open>
  A result of \<open>read_frame\<close>: the \<open>int\<close> or error, what was written to the caller's buffer, the connection; or \<open>Overrun\<close>, a
  write behind the buffer of a control frame.
\<close>

datatype ws_result = Ret "nbr_error + int" "U8 list" ws_conn | Overrun

datatype ws_flow = Return ws_result | Go nat "U8 list" ws_conn

definition again :: "U8 list \<Rightarrow> ws_conn \<Rightarrow> ws_flow" where
  "again acc c = Return (Ret (if acc \<noteq> [] then Inr (int_of_size (length acc)) else Inl EAGAIN) acc c)"

definition unmask :: "U8 list \<Rightarrow> ws_conn \<Rightarrow> U8 list \<times> ws_conn" where
  "unmask bs c =
     (if masked c then (let (bs, idx) = mask_payload bs (get_mask c) (ws_mask_idx c) in (bs, c\<lparr>ws_mask_idx := idx\<rparr>))
      else (bs, c))"

text \<open>The header is complete or not; what was read behind it goes to the caller.\<close>

definition header_done :: "nat \<Rightarrow> U8 list \<Rightarrow> ws_conn \<Rightarrow> ws_flow" where
  "header_done l acc c =
     (let (st, n) = analyze_frame c; c = c\<lparr>ws_st := st\<rparr>
      in if st = state_established \<or> st = state_recv_frame then again acc c
         else if n > 0 then
           if l < n then Return (Ret (Inl EINVAL) acc c)
           else (let (bs, c) = unmask (bytes_at (ws_frame c) (ws_flen c - n) n) c
                 in Go (l - n) (acc @ bs) (c\<lparr>ws_read := ws_read c + of_nat n\<rparr>))
         else Go l acc c)"

definition read_header :: "nat \<Rightarrow> U8 list \<Rightarrow> ws_conn \<Rightarrow> ws_flow" where
  "read_header l acc c =
     (case read_body_and_fd (frame_max - ws_flen c) c of
        (Again, c) \<Rightarrow> again acc c
      | (Fail, c) \<Rightarrow> Return (Ret (Inl EINVAL) acc c)
      | (Data bs, c) \<Rightarrow>
          if bs = [] then Return (Ret (Inr 0) acc c)
          else header_done l acc (c\<lparr>ws_frame := mem_copy (ws_frame c) (ws_flen c) bs, ws_flen := ws_flen c + length bs\<rparr>))"

text \<open>
  \<open>suck_out_recv_data\<close>: \<open>Return\<close> of an error or of 0, a finished control frame, or a read that goes behind its buffer.  The loop counts the
  bytes of the buffer, not those of the read.  \<open>Expire\<close>, when no control frame is to be had, ends in
  \<open>NBR_EINVAL\<close> as \<open>errno\<close> is not \<open>EAGAIN\<close> then.
\<close>

datatype suck = Stop rd | Expire | Sucked | Behind

partial_function (option) suck_loop :: "U64 \<Rightarrow> ws_conn \<Rightarrow> (suck \<times> ws_conn) option" where
  "suck_loop remain c =
     (if remain = 0 then Some (Sucked, c)
      else
        (case read_body_and_fd (unat remain) c of
           (Data bs, c) \<Rightarrow>
             if bs = [] then Some (Stop (Data []), c)
             else (let m = the (ws_ctrl c) @ bs in
               if length m > CONTROL_FRAME_MAX then Some (Behind, c)
               else suck_loop (remain - of_nat (length m))
                      (c\<lparr>ws_ctrl := Some m, ws_read := ws_read c + of_nat (length m)\<rparr>))
         | (r, c) \<Rightarrow> Some (Stop r, c)))"

definition suck_out_recv_data :: "bool \<Rightarrow> ws_conn \<Rightarrow> (suck \<times> ws_conn) option" where
  "suck_out_recv_data ok c =
     (let remain = frame_size c - ws_read c in
      if ws_ctrl c = None then
        if \<not> ok then Some (Expire, c)
        else (let (_, n) = analyze_frame c
              in suck_loop remain (c\<lparr>ws_ctrl := Some (bytes_at (ws_frame c) (ws_flen c - n) n)\<rparr>))
      else suck_loop remain c)"

definition unmask_ctrl :: "ws_conn \<Rightarrow> ws_conn" where
  "unmask_ctrl c = (let (bs, c) = unmask (the (ws_ctrl c)) c in c\<lparr>ws_ctrl := Some bs\<rparr>)"

text \<open>The payload of a data frame: as much as there is room for.\<close>

definition read_data :: "nat \<Rightarrow> U8 list \<Rightarrow> ws_conn \<Rightarrow> ws_flow" where
  "read_data l acc c =
     (let remain = frame_size c - ws_read c in
      if remain = 0 then
        if ws_read c = 0 then Return (Ret (Inl EINVAL) acc c) else Go l acc (c\<lparr>ws_st := state_established\<rparr>)
      else
        (case read_body_and_fd (min l (unat remain)) c of
           (Again, c) \<Rightarrow> again acc c
         | (Fail, c) \<Rightarrow> Return (Ret (Inl EINVAL) acc c)
         | (Data bs, c) \<Rightarrow>
             if bs = [] then Return (Ret (Inr 0) acc c)
             else
               (let (out, c) = unmask bs c; acc = acc @ out;
                    c = c\<lparr>ws_read := ws_read c + of_nat (length bs)\<rparr> in
                if l - length bs > 0 then Go (l - length bs) acc c else Return (Ret (Inr (int_of_size (length acc))) acc c))))"

definition read_close :: "bool \<Rightarrow> U8 list \<Rightarrow> ws_conn \<Rightarrow> ws_flow option" where
  "read_close ok acc c =
     (case suck_out_recv_data ok c of None \<Rightarrow> None
      | Some (Stop (Data _), c) \<Rightarrow> Some (Return (Ret (Inr 0) acc c))
      | Some (Stop Again, c) \<Rightarrow> Some (again acc (if masked c then unmask_ctrl c else c))
      | Some (Sucked, c) \<Rightarrow> Some (Return (Ret (Inr 0) acc ((if masked c then unmask_ctrl c else c)\<lparr>ws_ctrl := None\<rparr>)))
      | Some (Behind, c) \<Rightarrow> Some (Return Overrun)
      | Some (_, c) \<Rightarrow> Some (Return (Ret (Inl EINVAL) acc c)))"

definition read_ping :: "bool \<Rightarrow> ws_env \<Rightarrow> nat \<Rightarrow> U8 list \<Rightarrow> ws_conn \<Rightarrow> ws_flow option" where
  "read_ping ok env l acc c =
     (case suck_out_recv_data ok c of None \<Rightarrow> None
      | Some (Stop (Data _), c) \<Rightarrow> Some (Return (Ret (Inr 0) acc c))
      | Some (Stop Again, c) \<Rightarrow> Some (again acc c)
      | Some (Sucked, c) \<Rightarrow>
          (let c = (if get_opcode c = 9
                    then (let c = (if masked c then unmask_ctrl c else c);
                              (_, sent, _) = write_frame env (the (ws_ctrl c)) 10 True True
                          in c\<lparr>ws_out := ws_out c @ sent\<rparr>)
                    else c);
               c = c\<lparr>ws_ctrl := None\<rparr>
           in Some (if l > 0 then Go l acc c else Return (Ret (Inr (int_of_size (length acc))) acc c)))
      | Some (Behind, c) \<Rightarrow> Some (Return Overrun)
      | Some (_, c) \<Rightarrow> Some (Return (Ret (Inl EINVAL) acc c)))"

definition read_payload :: "bool \<Rightarrow> ws_env \<Rightarrow> nat \<Rightarrow> U8 list \<Rightarrow> ws_conn \<Rightarrow> ws_flow option" where
  "read_payload ok env l acc c =
     (if get_opcode c \<le> 2 then Some (read_data l acc c)
      else if get_opcode c = 8 then read_close ok acc c
      else if get_opcode c = 9 \<or> get_opcode c = 10 then read_ping ok env l acc c
      else Some (if l > 0 then Go l acc c else Return (Ret (Inr (int_of_size (length acc))) acc c)))"

text \<open>From \<open>retry\<close> to the next one.\<close>

definition read_pass :: "bool \<Rightarrow> ws_env \<Rightarrow> nat \<Rightarrow> U8 list \<Rightarrow> ws_conn \<Rightarrow> ws_flow option" where
  "read_pass ok env l acc c =
     (case (case ws_st c of state_established \<Rightarrow> read_header l acc (init_frame c)
            | state_recv_frame \<Rightarrow> read_header l acc c
            | state_recv m lay \<Rightarrow> Go l acc c) of
        Return r \<Rightarrow> Some (Return r)
      | Go l acc c \<Rightarrow> read_payload ok env l acc c)"

partial_function (option) read_loop :: "bool \<Rightarrow> ws_env \<Rightarrow> nat \<Rightarrow> U8 list \<Rightarrow> ws_conn \<Rightarrow> ws_result option" where
  "read_loop ok env l acc c =
     (case read_pass ok env l acc c of None \<Rightarrow> None
      | Some (Return r) \<Rightarrow> Some r
      | Some (Go l acc c) \<Rightarrow> read_loop ok env l acc c)"

text \<open>The first \<open>k\<close> passes of the loop.\<close>

fun read_passes :: "nat \<Rightarrow> bool \<Rightarrow> ws_env \<Rightarrow> nat \<Rightarrow> U8 list \<Rightarrow> ws_conn \<Rightarrow> ws_flow option" where
  "read_passes 0 ok env l acc c = Some (Go l acc c)"
| "read_passes (Suc k) ok env l acc c =
     (case read_passes k ok env l acc c of Some (Go l acc c) \<Rightarrow> read_pass ok env l acc c | x \<Rightarrow> x)"

definition read_frame :: "bool \<Rightarrow> ws_env \<Rightarrow> nat \<Rightarrow> ws_conn \<Rightarrow> ws_result option" where
  "read_frame ok env l c = read_loop ok env l [] c"

section \<open>Masking, byte by byte\<close>

fun mask_stream :: "U32 \<Rightarrow> nat \<Rightarrow> U8 list \<Rightarrow> U8 list" where
  "mask_stream mk i [] = []"
| "mask_stream mk i (x # p) = (x XOR mask_byte mk (i mod 4)) # mask_stream mk (i + 1) p"

lemma mask_stream_append: "mask_stream mk i (p @ q) = mask_stream mk i p @ mask_stream mk (i + length p) q"
  by (induction p arbitrary: i) simp_all

lemma length_mask_stream [simp]: "length (mask_stream mk i p) = length p"
  by (induction p arbitrary: i) simp_all

lemma mask_stream_period: "mask_stream mk (i + 4) p = mask_stream mk i p"
proof (induction p arbitrary: i)
  case (Cons x p)
  show ?case using Cons.IH [of "Suc i"] by simp
qed simp

lemma mask_stream_mod: "mask_stream mk (i mod 4) p = mask_stream mk i p"
proof (induction i rule: less_induct)
  case (less i)
  show ?case
  proof (cases "i < 4")
    case False
    then have "i - 4 < i" "(i - 4) mod 4 = i mod 4" "i - 4 + 4 = i" using le_mod_geq [of 4 i] by auto
    then show ?thesis using less [of "i - 4"] mask_stream_period [of mk "i - 4" p] by simp
  qed simp
qed

lemma mask_stream_twice: "mask_stream mk i (mask_stream mk i p) = p"
  by (induction p arbitrary: i) (simp_all add: xor.assoc)

lemma mask_stream_Nil [simp]: "mask_stream mk i p = [] \<longleftrightarrow> p = []"
  by (cases p) simp_all

lemma le32_xor_bytes:
  "(ucast (le32 a b c d XOR mk) :: U8) = a XOR mask_byte mk 0"
  "(ucast (drop_bit 8 (le32 a b c d XOR mk)) :: U8) = b XOR mask_byte mk 1"
  "(ucast (drop_bit 16 (le32 a b c d XOR mk)) :: U8) = c XOR mask_byte mk 2"
  "(ucast (drop_bit 24 (le32 a b c d XOR mk)) :: U8) = d XOR mask_byte mk 3"
  by (auto intro!: bit_word_eqI simp: le32_def mask_byte_def bit_simps bit_beyond)

lemma mask_stream_four:
  "mask_stream mk 0 (a # b # c # d # q)
     = [a XOR mask_byte mk 0, b XOR mask_byte mk 1, c XOR mask_byte mk 2, d XOR mask_byte mk 3] @ mask_stream mk 0 q"
proof -
  have i: "mask_stream mk 0 (a # b # c # d # q) = (a XOR mask_byte mk (0 mod 4)) # (b XOR mask_byte mk ((0 + 1) mod 4))
      # (c XOR mask_byte mk ((0 + 1 + 1) mod 4)) # (d XOR mask_byte mk ((0 + 1 + 1 + 1) mod 4)) # mask_stream mk (0 + 1 + 1 + 1 + 1) q"
    unfolding mask_stream.simps ..
  have n: "(0::nat) mod 4 = 0" "(0 + 1) mod 4 = (1::nat)" "(0 + 1 + 1) mod 4 = (2::nat)" "(0 + 1 + 1 + 1) mod 4 = (3::nat)"
    "0 + 1 + 1 + 1 + 1 = (0 + 4 :: nat)" by simp_all
  show ?thesis unfolding i n mask_stream_period by simp
qed

lemma mask_words_stream:
  "mask_words p mk = (mask_stream mk 0 (take (length p div 4 * 4) p), drop (length p div 4 * 4) p)"
proof (induction p mk rule: mask_words.induct)
  case (1 a b c d p mk)
  have t: "take (n + 4) (a # b # c # d # p) = a # b # c # d # take n p" "drop (n + 4) (a # b # c # d # p) = drop n p" for n
    by (simp_all add: take_Cons' drop_Cons')
  have len: "length (a # b # c # d # p) div 4 * 4 = length p div 4 * 4 + 4" by (simp add: div_add_self1)
  have IH: "mask_words p mk = (mask_stream mk 0 (take (length p div 4 * 4) p), drop (length p div 4 * 4) p)" by (rule 1) simp
  show ?case unfolding mask_words.simps(1) len t mask_stream_four Let_def le32_xor_bytes IH prod.case by simp
qed simp_all

lemma mask_head_stream:
  "idx \<le> 4 \<Longrightarrow> mask_head p mk idx = (mask_stream mk idx (take (4 - idx) p), drop (4 - idx) p, min 4 (idx + length p))"
proof (induction p arbitrary: idx)
  case (Cons x p)
  show ?case
  proof (cases "idx < 4")
    case True
    then have "4 - idx = Suc (4 - Suc idx)" by simp
    then show ?thesis using True Cons.IH [of "idx + 1"] by simp
  next
    case False
    then show ?thesis using Cons.prems by simp
  qed
qed simp

lemma mask_tail_stream:
  "k + length p \<le> 4 \<Longrightarrow> mask_tail k p mk idx = (mask_stream mk k p, if p = [] then idx else k + length p - 1)"
  by (induction p arbitrary: k idx) auto

lemma mask_stream_blocks: "mask_stream mk 0 p = mask_stream mk 0 (take (j * 4) p) @ mask_stream mk 0 (drop (j * 4) p)"
proof (cases "j * 4 \<le> length p")
  case True
  then have "mask_stream mk 0 p = mask_stream mk 0 (take (j * 4) p) @ mask_stream mk (j * 4) (drop (j * 4) p)"
    using mask_stream_append [of mk 0 "take (j * 4) p" "drop (j * 4) p"] by (simp add: min_absorb2)
  then show ?thesis using mask_stream_mod [of mk "j * 4" "drop (j * 4) p"] by simp
qed simp

lemma mask_tail_rest:
  assumes "length r < 4" "r \<noteq> []"
  shows "mask_tail 0 r mk 0 = (mask_stream mk 0 r, length r - 1)"
  using mask_tail_stream [of 0 r mk 0] assms by simp

lemma mask_payload_aligned:
  "(let (w, r) = mask_words p mk in if r = [] then (h @ w, 0) else (let (t, idx) = mask_tail 0 r mk 0 in (h @ w @ t, idx + 1)))
     = (h @ mask_stream mk 0 p, length p mod 4)"
proof -
  define r where "r = drop (length p div 4 * 4) p"
  have l: "length r = length p mod 4" by (simp add: r_def minus_div_mult_eq_mod)
  have s: "mask_stream mk 0 p = mask_stream mk 0 (take (length p div 4 * 4) p) @ mask_stream mk 0 r"
    unfolding r_def by (rule mask_stream_blocks)
  show ?thesis
  proof (cases "r = []")
    case True
    then show ?thesis using s l unfolding mask_words_stream r_def [symmetric] by simp
  next
    case False
    have "length r < 4" "0 < length p mod 4" using l False length_greater_0_conv [of r] by simp_all
    from mask_tail_rest [OF this(1) False] show ?thesis
      using s l False \<open>0 < length p mod 4\<close> unfolding mask_words_stream r_def [symmetric] by simp
  qed
qed

lemma mask_payload_is_stream:
  assumes "idx < 4"
  shows "mask_payload p mk idx = (mask_stream mk idx p, (idx + length p) mod 4)"
proof (cases "idx = 0")
  case True
  then show ?thesis using mask_payload_aligned [of p mk "[]"] by (simp add: mask_payload_def Let_def)
next
  case False
  have split: "mask_stream mk idx p = mask_stream mk idx (take (4 - idx) p) @ mask_stream mk (idx + length (take (4 - idx) p)) (drop (4 - idx) p)"
    using mask_stream_append [of mk idx "take (4 - idx) p" "drop (4 - idx) p"] by simp
  show ?thesis
  proof (cases "length p < 4 - idx")
    case True
    then show ?thesis using False assms by (simp add: mask_payload_def mask_head_stream)
  next
    case ge: False
    then have l: "idx + length (take (4 - idx) p) = 4" "idx + length p = 4 + length (drop (4 - idx) p)" using assms by auto
    have m: "(idx + length p) mod 4 = length (drop (4 - idx) p) mod 4" unfolding l(2) by simp
    have "mask_stream mk 4 (drop (4 - idx) p) = mask_stream mk 0 (drop (4 - idx) p)" using mask_stream_period [of mk 0] by simp
    then show ?thesis using False assms ge l split mask_payload_aligned [of "drop (4 - idx) p" mk "mask_stream mk idx (take (4 - idx) p)"]
      unfolding m by (simp add: mask_payload_def mask_head_stream Let_def min_absorb1)
  qed
qed

section \<open>The header that is read is the one that was written\<close>

lemma hdr_bits: "hdr_fin b = bit b 7" "hdr_mask b = bit b 15"
  by (simp_all add: hdr_fin_def hdr_mask_def bit_iff_and_push_bit_not_eq_0)

lemma low_masks: "(0x0F :: U8) = mask 4" "(0x7F :: U8) = mask 7" "(0x000F :: U16) = mask 4" "(0x7F00 :: U16) = push_bit 8 (mask 7)"
  by (simp_all add: mask_eq_exp_minus_1)

lemma bit_one_at: "k < 16 \<Longrightarrow> bit (push_bit k (1 :: U16)) n \<longleftrightarrow> n = k"
  by (auto simp: bit_simps)

lemma bit_flags: "bit (0x80 :: U16) n \<longleftrightarrow> n = 7" "bit (0x8000 :: U16) n \<longleftrightarrow> n = 15"
  using bit_one_at [of 7 n] bit_one_at [of 15 n] by (simp_all del: bit_numeral_word_iff)

lemma bit_both_flags: "bit (0x8080 :: U16) n \<longleftrightarrow> n = 7 \<or> n = 15"
proof -
  have "(0x8080 :: U16) = push_bit 7 1 OR push_bit 15 1" by simp
  then show ?thesis by (simp only: bit_or_iff) (simp add: bit_flags del: bit_numeral_word_iff)
qed

lemma unat_byte: "unat (ucast (x :: U8) :: U16) = unat x"
proof -
  have "unat x < 2 ^ 8" using unsigned_less [of x] by simp
  then show ?thesis by (simp add: unsigned_ucast_eq take_bit_nat_eq_self)
qed

lemma bit_set_controls: "bit (set_controls f m opc) n \<longleftrightarrow> n = 7 \<and> f \<or> n = 15 \<and> m \<or> n < 4 \<and> bit opc n"
  unfolding set_controls_def low_masks Let_def
  by (cases f; cases m) (simp_all add: bit_or_iff bit_flags bit_both_flags del: bit_numeral_word_iff, auto simp: bit_simps)

lemma hdr_written:
  fixes f m :: bool and opc len :: U8
  defines "b \<equiv> set_payload_len len (set_controls f m opc)"
  shows "hdr_fin b = f" "hdr_mask b = m" "hdr_opcode b = unat (opc AND 0x0F)" "hdr_payload_len b = unat (len AND 0x7F)"
proof -
  have bit: "bit b n \<longleftrightarrow> n < 16 \<and> (n = 7 \<and> f \<or> n = 15 \<and> m \<or> n < 4 \<and> bit opc n \<or> 8 \<le> n \<and> n < 15 \<and> bit len (n - 8))" for n
    unfolding b_def set_payload_len_def low_masks
    by (auto simp: bit_or_iff bit_set_controls) (auto simp: bit_simps)
  show "hdr_fin b = f" "hdr_mask b = m" by (simp_all add: hdr_bits bit)
  have "b AND 0x000F = ucast (opc AND 0x0F)" unfolding low_masks
    by (rule bit_word_eqI) (auto simp: bit_simps bit)
  then show "hdr_opcode b = unat (opc AND 0x0F)" by (simp add: hdr_opcode_def unat_byte)
  have "drop_bit 8 (b AND 0x7F00) = ucast (len AND 0x7F)" unfolding low_masks
    by (rule bit_word_eqI) (auto simp: bit_simps bit)
  then show "hdr_payload_len b = unat (len AND 0x7F)" by (simp add: hdr_payload_len_def unat_byte)
qed

lemma GET_16_at: "GET_16 (SET_16 m p v) p = v"
  by (rule bit_word_eqI) (auto simp: GET_16_def SET_16_def bit_simps)

lemma GET_16_cong: "m p = m' p \<Longrightarrow> m (p + 1) = m' (p + 1) \<Longrightarrow> GET_16 m p = GET_16 m' p"
  by (simp add: GET_16_def)

lemma SET_32_below: "i < p \<Longrightarrow> SET_32 m p v i = m i"
  by (simp add: SET_32_def)

lemma SET_64_below: "i < p \<Longrightarrow> SET_64 m p v i = m i"
  by (simp add: SET_64_def SET_32_below)

lemma GET_SET_32_at: "GET_32 (SET_32 m p v) p = v"
  by (subst (2) word32_from_bytes) (simp add: GET_32_def SET_32_def)

definition frame_layout_for :: "nat \<Rightarrow> layout" where
  "frame_layout_for l = (if l < 0x7E then Short else if l \<le> 0xFFFF then Ext16 else Ext64)"

definition payload_byte :: "nat \<Rightarrow> U8" where
  "payload_byte l = (case frame_layout_for l of Short \<Rightarrow> of_nat l | Ext16 \<Rightarrow> 0x7E | Ext64 \<Rightarrow> 0x7F)"

lemma payload_byte_len: "unat (payload_byte l AND 0x7F) = (case frame_layout_for l of Short \<Rightarrow> l | Ext16 \<Rightarrow> 0x7E | Ext64 \<Rightarrow> 0x7F)"
proof (cases "l < 0x7E")
  case True
  then have "unat ((of_nat l :: U8) AND mask 7) = l"
    by (simp add: unsigned_take_bit_eq unsigned_of_nat take_bit_nat_eq_self flip: take_bit_eq_mask)
  then show ?thesis using True by (simp add: payload_byte_def frame_layout_for_def low_masks)
qed (simp add: payload_byte_def frame_layout_for_def)

lemma layout_read: "frame_layout (unat (payload_byte l AND 0x7F)) = frame_layout_for l"
  unfolding payload_byte_len by (auto simp: frame_layout_def frame_layout_for_def)

text \<open>The header, by layout.\<close>

lemma frame_header_parts:
  "frame_header fin m opc l rnd =
     (let buff = SET_16 (\<lambda>_. 0) 0 (set_payload_len (payload_byte l) (set_controls fin m opc));
          buff = (case frame_layout_for l of Short \<Rightarrow> buff | Ext16 \<Rightarrow> SET_16 buff 2 (htons (of_nat l))
            | Ext64 \<Rightarrow> SET_64 buff 2 (htonll (of_nat l)))
      in (if m then SET_32 buff (key_ofs (frame_layout_for l)) rnd else buff, hdr_size m (frame_layout_for l)))"
  by (auto simp: frame_header_def payload_byte_def frame_layout_for_def Let_def)

lemma hdr_size_pos: "2 \<le> hdr_size m lay" "m \<Longrightarrow> hdr_size m lay = key_ofs lay + 4"
  by (cases lay; simp)+

lemma key_ofs_pos: "2 \<le> key_ofs lay"
  by (cases lay) simp_all

lemma header_read_back:
  assumes "frame_header fin m opc l rnd = (buff, hl)" "l < 2 ^ 64"
    and same: "bytes_at (ws_frame c) 0 hl = bytes_at buff 0 hl" and "hl \<le> ws_flen c"
  shows "hl = hdr_size m (frame_layout_for l)"
    and "analyze_frame c = (state_recv m (frame_layout_for l), ws_flen c - hl)"
    and "get_opcode c = unat (opc AND 0x0F)" and "masked c = m"
    and "ws_st c = state_recv m (frame_layout_for l) \<Longrightarrow> frame_size c = of_nat l \<and> (m \<longrightarrow> get_mask c = rnd)"
proof -
  let ?lay = "frame_layout_for l" and ?b = "set_payload_len (payload_byte l) (set_controls fin m opc)"
  define b0 where "b0 = SET_16 (\<lambda>_. 0) 0 ?b"
  define b1 where "b1 = (case ?lay of Short \<Rightarrow> b0 | Ext16 \<Rightarrow> SET_16 b0 2 (htons (of_nat l)) | Ext64 \<Rightarrow> SET_64 b0 2 (htonll (of_nat l)))"
  have buff: "buff = (if m then SET_32 b1 (key_ofs ?lay) rnd else b1)" and hl: "hl = hdr_size m ?lay"
    using assms(1) unfolding frame_header_parts Let_def b1_def b0_def by auto
  have at: "ws_frame c i = buff i" if "i < hl" for i
    using arg_cong [OF same, of "\<lambda>xs. xs ! i"] that by simp
  have low: "buff i = b1 i" if "i < key_ofs ?lay" for i using that buff by (simp add: SET_32_below)
  have low2: "b1 i = b0 i" if "i < 2" for i
    using that by (cases ?lay) (simp_all add: b1_def SET_64_below SET_16_def)
  have "ws_bits c = GET_16 b0 0"
    using at [of 0] at [of 1] low [of 0] low [of 1] low2 hdr_size_pos(1) [of m ?lay] key_ofs_pos [of ?lay] hl
    by (intro GET_16_cong) simp_all
  then have bits: "ws_bits c = ?b" by (simp add: b0_def GET_16_at)
  show "hl = hdr_size m ?lay" by (rule hl)
  show "get_opcode c = unat (opc AND 0x0F)" "masked c = m"
    by (simp_all add: get_opcode_def masked_def bits hdr_written)
  then show "analyze_frame c = (state_recv m ?lay, ws_flen c - hl)"
    using assms(4) hdr_size_pos(1) [of m ?lay] hl
    by (simp add: analyze_frame_def Let_def bits hdr_written layout_read)
  show "frame_size c = of_nat l \<and> (m \<longrightarrow> get_mask c = rnd)" if st: "ws_st c = state_recv m ?lay"
  proof (intro conjI impI)
    assume m: m
    have "bytes_at (ws_frame c) (key_ofs ?lay) 4 = bytes_at buff (key_ofs ?lay) 4"
      by (rule bytes_at_eqI) (use at hl m hdr_size_pos(2) [of m ?lay] in auto)
    then have "GET_32 (ws_frame c) (key_ofs ?lay) = GET_32 buff (key_ofs ?lay)"
      by (simp add: bytes_at_4 GET_32_def)
    then show "get_mask c = rnd" using st m buff by (simp add: GET_SET_32_at)
  next
    show "frame_size c = of_nat l"
    proof (cases ?lay)
      case Short
      then show ?thesis using st payload_byte_len [of l] by (simp add: frame_size_def bits hdr_written)
    next
      case Ext16
      have "bytes_at (ws_frame c) 2 2 = bytes_at b1 2 2"
        by (rule bytes_at_eqI) (use at low hl Ext16 in auto)
      also have "\<dots> = be16 (of_nat l)" using bytes_at_mem_copy [of b0 2 "be16 (of_nat l)"] Ext16 by (simp add: b1_def SET_16_htons)
      finally have "htons (GET_16 (ws_frame c) 2) = of_nat l" by (rule ntohs_GET_16)
      moreover have "l < 2 ^ 16" using Ext16 by (auto simp: frame_layout_for_def split: if_splits)
      ultimately show ?thesis using st Ext16 by (simp add: frame_size_def unsigned_of_nat take_bit_nat_eq_self)
    next
      case Ext64
      have "bytes_at (ws_frame c) 2 8 = bytes_at b1 2 8"
        by (rule bytes_at_eqI) (use at low hl Ext64 in auto)
      also have "\<dots> = be64 (of_nat l)" using bytes_at_mem_copy [of b0 2 "be64 (of_nat l)"] Ext64 by (simp add: b1_def SET_64_htonll)
      finally have "ntohll (GET_64 (ws_frame c) 2) = of_nat l" by (rule ntohll_GET_64)
      then show ?thesis using st Ext64 by (simp add: frame_size_def)
    qed
  qed
qed

section \<open>Reading frames\<close>

text \<open>A frame as \<open>write_frame\<close> sends it.\<close>

definition frame_bytes :: "bool \<Rightarrow> U8 \<Rightarrow> U32 \<Rightarrow> U8 list \<Rightarrow> U8 list" where
  "frame_bytes m opc rnd p =
     (let (buff, hl) = frame_header True m opc (length p) rnd
      in bytes_at buff 0 hl @ (if m then mask_stream rnd 0 p else p))"

lemma write_frame_sends:
  assumes "\<And>n. ws_write1 env n = Some n" "\<And>n. ws_write2 env n = Some n"
  shows "\<exists>q. write_frame env p opc m True = (Inr (length p), frame_bytes (m \<and> \<not> is_server env) opc (ws_rand env) p, q)"
  using assms mask_payload_is_stream [of 0 p "ws_rand env"]
  by (auto simp: write_frame_def frame_bytes_def Let_def split: prod.split)

lemma hdr_size_max: "hdr_size m lay \<le> 14"
  by (cases lay) simp_all

text \<open>
  The first read: the bytes \<open>bs\<close> of the frame buffer start with the header of a frame with payload
  \<open>p\<close>; what is behind it goes to the caller.
\<close>

lemma header_step:
  assumes fh: "frame_header True m opc (length p) rnd = (buff, hl)" and p: "length p < 2 ^ 64"
    and c: "ws_body c = []" "ws_in c = Data (bytes_at buff 0 hl @ q) # rest"
    and n: "n = min (14 - hl) (length q)" and l: "n \<le> l"
  defines "c1 \<equiv> (init_frame c)\<lparr>ws_in := (if length q \<le> 14 - hl then rest else Data (drop n q) # rest),
      ws_frame := mem_copy (ws_frame c) 0 (bytes_at buff 0 hl @ take n q), ws_flen := hl + n, ws_st := state_recv m (frame_layout_for (length p)),
      ws_mask_idx := (if m then n mod 4 else 0), ws_read := of_nat n\<rparr>"
  shows "read_header l acc (init_frame c) = Go (l - n) (acc @ (if m then mask_stream rnd 0 (take n q) else take n q)) c1"
    and "hl = hdr_size m (frame_layout_for (length p))" "get_opcode c1 = unat (opc AND 0x0F)" "masked c1 = m" "frame_size c1 = of_nat (length p)"
    and "m \<Longrightarrow> get_mask c1 = rnd" and "snd (analyze_frame c1) = n"
proof -
  let ?H = "bytes_at buff 0 hl"
  define bs where "bs = ?H @ take n q"
  have lb: "length bs = hl + n" by (simp add: bs_def n min_def)
  have hl: "hl = hdr_size m (frame_layout_for (length p))" using fh by (simp add: frame_header_parts Let_def)
  then have hl14: "hl \<le> 14" using hdr_size_max by simp
  have R: "analyze_frame x = (state_recv m (frame_layout_for (length p)), n)" "get_opcode x = unat (opc AND 0x0F)" "masked x = m"
    "ws_st x = state_recv m (frame_layout_for (length p)) \<Longrightarrow> frame_size x = of_nat (length p) \<and> (m \<longrightarrow> get_mask x = rnd)"
    if x: "ws_frame x = mem_copy (ws_frame c) 0 bs" "ws_flen x = hl + n" for x
  proof -
    have "bytes_at (ws_frame x) 0 (length bs) = bs" unfolding x(1) by (rule bytes_at_mem_copy)
    then have "take hl (bytes_at (ws_frame x) 0 (hl + n)) = take hl bs" using lb by simp
    then have "bytes_at (ws_frame x) 0 hl = ?H" by (simp add: take_bytes_at bs_def)
    note r = header_read_back [OF fh p this]
    show "analyze_frame x = (state_recv m (frame_layout_for (length p)), n)" "get_opcode x = unat (opc AND 0x0F)" "masked x = m"
      "ws_st x = state_recv m (frame_layout_for (length p)) \<Longrightarrow> frame_size x = of_nat (length p) \<and> (m \<longrightarrow> get_mask x = rnd)"
      using r x(2) by simp_all
  qed
  have c1: "ws_frame c1 = mem_copy (ws_frame c) 0 bs" "ws_flen c1 = hl + n" "ws_st c1 = state_recv m (frame_layout_for (length p))"
    by (simp_all add: c1_def bs_def)
  show "hl = hdr_size m (frame_layout_for (length p))" by (rule hl)
  show "get_opcode c1 = unat (opc AND 0x0F)" "masked c1 = m" "frame_size c1 = of_nat (length p)" "m \<Longrightarrow> get_mask c1 = rnd"
    "snd (analyze_frame c1) = n" using R [OF c1(1,2)] c1(3) by simp_all
  let ?in = "if length q \<le> 14 - hl then rest else Data (drop n q) # rest"
  have sr: "sys_read 14 (Data (?H @ q) # rest) = (Data bs, ?in)"
  proof (cases "length q \<le> 14 - hl")
    case True
    then show ?thesis using hl14 by (simp add: bs_def n min_def)
  next
    case False
    then show ?thesis using hl14 by (simp add: bs_def n min_def)
  qed
  have rd: "read_body_and_fd (frame_max - ws_flen (init_frame c)) (init_frame c) = (Data bs, (init_frame c)\<lparr>ws_in := ?in\<rparr>)"
    using c sr by (simp add: read_body_and_fd_def init_frame_def frame_max_def)
  define ca where "ca = (init_frame c)\<lparr>ws_in := ?in, ws_frame := mem_copy (ws_frame c) 0 bs, ws_flen := hl + n\<rparr>"
  define cb where "cb = ca\<lparr>ws_st := state_recv m (frame_layout_for (length p))\<rparr>"
  have ca: "analyze_frame ca = (state_recv m (frame_layout_for (length p)), n)" by (rule R) (simp_all add: ca_def)
  have cb: "masked cb = m" "m \<Longrightarrow> get_mask cb = rnd" "ws_mask_idx cb = 0" "ws_frame cb = mem_copy (ws_frame c) 0 bs" "ws_flen cb = hl + n"
    using R [of cb] by (simp_all add: cb_def ca_def init_frame_def)
  have bsn: "bs \<noteq> []" using lb hl hdr_size_pos(1) [of m "frame_layout_for (length p)"] by auto
  have "read_header l acc (init_frame c) =
      (if n > 0 then (let (bs, x) = unmask (bytes_at (ws_frame cb) (ws_flen cb - n) n) cb
         in Go (l - n) (acc @ bs) (x\<lparr>ws_read := ws_read x + of_nat n\<rparr>)) else Go l acc cb)"
  proof -
    have flen: "ws_flen (init_frame c) = 0" "ws_frame (init_frame c) = ws_frame c" by (simp_all add: init_frame_def)
    have "read_header l acc (init_frame c) = header_done l acc ca"
      unfolding read_header_def rd using bsn by (simp add: ca_def flen lb)
    then show ?thesis using l by (simp add: header_done_def ca cb_def [symmetric])
  qed
  moreover have "bytes_at (ws_frame cb) (ws_flen cb - n) n = take n q"
  proof -
    have "drop hl (bytes_at (ws_frame cb) 0 (hl + n)) = drop hl bs"
      using bytes_at_mem_copy [of "ws_frame c" 0 bs] lb cb(4) by simp
    then show ?thesis by (simp add: drop_bytes_at bs_def cb(5))
  qed
  moreover have "length (take n q) = n" by (simp add: n min_def)
  moreover have "mask_payload (take n q) rnd 0 = (mask_stream rnd 0 (take n q), n mod 4)"
    using mask_payload_is_stream [of 0 "take n q" rnd] \<open>length (take n q) = n\<close> by simp
  ultimately show "read_header l acc (init_frame c) = Go (l - n) (acc @ (if m then mask_stream rnd 0 (take n q) else take n q)) c1"
    using cb by (auto simp: unmask_def c1_def cb_def ca_def init_frame_def bs_def)
qed

lemma read_loop_pass:
  "read_loop ok env l acc c = (case read_pass ok env l acc c of None \<Rightarrow> None | Some (Return r) \<Rightarrow> Some r
     | Some (Go l acc c) \<Rightarrow> read_loop ok env l acc c)"
  by (subst read_loop.simps) (simp split: option.splits ws_flow.splits)

lemma frame_size_cong: "ws_st c' = ws_st c \<Longrightarrow> ws_frame c' = ws_frame c \<Longrightarrow> frame_size c' = frame_size c"
  by (simp add: frame_size_def split: ws_state.split layout.split)

text \<open>What is left of the payload, in one read.\<close>

lemma data_step:
  assumes c: "ws_body c = []" "ws_in c = Data q # rest" "q \<noteq> []" "ws_mask_idx c < 4"
    and r: "unat (frame_size c - ws_read c) = length q" "length q \<le> l"
  shows "read_data l acc c =
    (let c' = c\<lparr>ws_in := rest, ws_read := ws_read c + of_nat (length q),
           ws_mask_idx := (if masked c then (ws_mask_idx c + length q) mod 4 else ws_mask_idx c)\<rparr>;
         acc' = acc @ (if masked c then mask_stream (get_mask c) (ws_mask_idx c) q else q)
     in if l - length q > 0 then Go (l - length q) acc' c' else Return (Ret (Inr (int_of_size (length acc'))) acc' c'))"
proof -
  have "frame_size c - ws_read c \<noteq> 0" using r(1) c(3) by auto
  moreover have "min l (length q) = length q" using r(2) by simp
  moreover have "read_body_and_fd (length q) c = (Data q, c\<lparr>ws_in := rest\<rparr>)" using c by (simp add: read_body_and_fd_def)
  moreover have "masked (c\<lparr>ws_in := rest\<rparr>) = masked c" "get_mask (c\<lparr>ws_in := rest\<rparr>) = get_mask c"
    by (simp_all add: masked_def split: ws_state.split bool.split)
  ultimately show ?thesis using c r mask_payload_is_stream [OF c(4), of q "get_mask c"]
    by (simp add: read_data_def unmask_def Let_def)
qed

lemma data_done:
  assumes "frame_size c = ws_read c" "ws_read c \<noteq> 0" "ws_body c = []" "ws_in c = []" "get_opcode c \<le> 2" "ws_st c = state_recv m lay" "acc \<noteq> []"
  shows "\<exists>c'. read_loop ok env l acc c = Some (Ret (Inr (int_of_size (length acc))) acc c')"
proof -
  have "read_payload ok env l acc c = Some (Go l acc (c\<lparr>ws_st := state_established\<rparr>))"
    using assms by (simp add: read_payload_def read_data_def)
  moreover have "read_header l acc (init_frame (c\<lparr>ws_st := state_established\<rparr>)) =
      Return (Ret (Inr (int_of_size (length acc))) acc (init_frame (c\<lparr>ws_st := state_established\<rparr>)))"
    using assms by (simp add: read_header_def read_body_and_fd_def init_frame_def again_def)
  ultimately show ?thesis using assms by (simp add: read_loop_pass [of ok env l acc c] read_loop_pass [of ok env l acc "c\<lparr>ws_st := state_established\<rparr>"] read_pass_def)
qed

section \<open>Properties\<close>

text \<open>
  C22: masking a payload, in the pieces in which it arrives or is sent and by words where they are aligned, is the
  exclusive or with the key repeated from where the last piece ended, so masking twice gives back the payload.
\<close>

theorem mask_payload_by_pieces:
  assumes "idx < 4"
  shows "mask_payload (p @ q) mk idx =
      (fst (mask_payload p mk idx) @ fst (mask_payload q mk (snd (mask_payload p mk idx))), (idx + length p + length q) mod 4)
    \<and> fst (mask_payload (fst (mask_payload p mk idx)) mk idx) = p
    \<and> (\<forall>i. i < length p \<longrightarrow> fst (mask_payload p mk idx) ! i = p ! i XOR mask_byte mk ((idx + i) mod 4))"
proof (intro conjI)
  have nth: "i < length p \<Longrightarrow> mask_stream mk idx p ! i = p ! i XOR mask_byte mk ((idx + i) mod 4)" for i
    by (induction p arbitrary: i idx) (auto simp: nth_Cons')
  then show "\<forall>i. i < length p \<longrightarrow> fst (mask_payload p mk idx) ! i = p ! i XOR mask_byte mk ((idx + i) mod 4)"
    using assms by (simp add: mask_payload_is_stream)
  show "fst (mask_payload (fst (mask_payload p mk idx)) mk idx) = p"
    using assms by (simp add: mask_payload_is_stream mask_stream_twice)
  have "(idx + length p) mod 4 < 4" by simp
  from mask_payload_is_stream [OF this, of q mk] show "mask_payload (p @ q) mk idx =
      (fst (mask_payload p mk idx) @ fst (mask_payload q mk (snd (mask_payload p mk idx))), (idx + length p + length q) mod 4)"
    using assms by (simp add: mask_payload_is_stream mask_stream_append mask_stream_mod add.assoc)
qed

lemma mask_payload_by_pieces_witness:
  "mask_payload [1, 2, 3, 4, 5, 6] 0x01020304 3 =
     (fst (mask_payload [1, 2, 3] 0x01020304 3) @ fst (mask_payload [4, 5, 6] 0x01020304 (snd (mask_payload [1, 2, 3] 0x01020304 3))), 1)"
  using mask_payload_by_pieces [where idx = 3 and p = "[1, 2, 3]" and q = "[4, 5, 6]" and mk = "0x01020304"] by simp

lemma length_word:
  assumes "p \<noteq> []" and "length p < 2 ^ 64"
  shows "unat (of_nat (length p) :: U64) = length p" and "(of_nat (length p) :: U64) \<noteq> 0"
proof -
  show u: "unat (of_nat (length p) :: U64) = length p" using assms(2) by (simp add: unsigned_of_nat take_bit_nat_eq_self)
  show "(of_nat (length p) :: U64) \<noteq> 0" using u assms(1) by (metis length_0_conv unat_0)
qed

lemma masked_pieces:
  assumes "n \<le> length p" and "q = (if m then mask_stream mk 0 p else p)"
  shows "(if m then mask_stream mk 0 (take n q) else take n q) = take n p"
    and "(if m then mask_stream mk (n mod 4) (drop n q) else drop n q) = drop n p"
proof -
  have "p = mask_stream mk 0 (take n q) @ mask_stream mk n (drop n q)" if m
    using mask_stream_append [of mk 0 "take n q" "drop n q"] assms that by (simp add: mask_stream_twice)
  moreover have "length (mask_stream mk 0 (take n q)) = n" using assms by simp
  ultimately have "m \<Longrightarrow> take n p = mask_stream mk 0 (take n q)" "m \<Longrightarrow> drop n p = mask_stream mk n (drop n q)"
    by (metis append_eq_conv_conj)+
  then show "(if m then mask_stream mk 0 (take n q) else take n q) = take n p"
    "(if m then mask_stream mk (n mod 4) (drop n q) else drop n q) = drop n p"
    using assms(2) by (simp_all add: mask_stream_mod)
qed

text \<open>The payload behind what came with the header: it is read in one piece, and then the frame is finished.\<close>

lemma rest_is_delivered:
  assumes c: "ws_body c = []" "ws_in c = Data q # []" "q \<noteq> []" "ws_mask_idx c < 4" "ws_st c = state_recv m lay"
    and f: "frame_size c = of_nat (length p)" "ws_read c = of_nat n" "length p = n + length q" "length p < 2 ^ 64" "get_opcode c \<le> 2"
    and l: "length q \<le> l" and all: "acc @ (if masked c then mask_stream (get_mask c) (ws_mask_idx c) q else q) = p"
  shows "\<exists>c'. read_loop ok env l acc c = Some (Ret (Inr (int_of_size (length p))) p c')"
proof -
  have p: "p \<noteq> []" using f(3) c(3) by auto
  let ?c = "c\<lparr>ws_in := [], ws_read := ws_read c + of_nat (length q),
           ws_mask_idx := (if masked c then (ws_mask_idx c + length q) mod 4 else ws_mask_idx c)\<rparr>"
  have sz: "unat (frame_size c - ws_read c) = length q"
  proof -
    have "frame_size c - ws_read c = of_nat (length q)" by (simp add: f(1-3))
    moreover have "length q < 2 ^ 64" using f(3,4) by simp
    ultimately show ?thesis by (simp add: unsigned_of_nat take_bit_nat_eq_self)
  qed
  have step: "read_data l acc c = (if l - length q > 0 then Go (l - length q) p ?c else Return (Ret (Inr (int_of_size (length p))) p ?c))"
    using data_step [OF c(1-4) sz l, of acc] by (simp add: Let_def all)
  have pay: "read_payload ok env l acc c = Some (read_data l acc c)" using f(5) by (simp add: read_payload_def)
  show ?thesis
  proof (cases "l - length q > 0")
    case True
    have fs: "frame_size ?c = frame_size c" "get_opcode ?c = get_opcode c"
      by (rule frame_size_cong) (simp_all add: get_opcode_def)
    have rd: "ws_read ?c = of_nat (length p)" by (simp add: f(2,3))
    have "\<exists>c'. read_loop ok env (l - length q) p ?c = Some (Ret (Inr (int_of_size (length p))) p c')"
      using length_word [OF p f(4)] fs rd f(1,5) c(1,5) p by (intro data_done) simp_all
    then show ?thesis using True step pay c(5) by (simp add: read_loop_pass [of ok env l acc c] read_pass_def)
  next
    case False
    then show ?thesis using step pay c(5) by (simp add: read_loop_pass [of ok env l acc c] read_pass_def)
  qed
qed

text \<open>A data frame without payload is an error.\<close>

lemma empty_frame_is_an_error:
  assumes c: "ws_st c = state_established" "ws_body c = []" "ws_in c = [Data (frame_bytes m opc rnd [])]" and opc: "opc \<le> 2"
  shows "\<exists>c'. read_frame ok env l c = Some (Ret (Inl EINVAL) [] c')"
proof -
  obtain buff hl where fh: "frame_header True m opc (length ([] :: U8 list)) rnd = (buff, hl)" by fastforce
  have inp: "ws_in c = Data (bytes_at buff 0 hl @ []) # []" using c(3) fh by (simp add: frame_bytes_def)
  have n: "0 = min (14 - hl) (length ([] :: U8 list))" by simp
  define c1 where "c1 = (init_frame c)\<lparr>ws_in := (if length ([] :: U8 list) \<le> 14 - hl then [] else [Data (drop 0 [])]),
      ws_frame := mem_copy (ws_frame c) 0 (bytes_at buff 0 hl @ take 0 []), ws_flen := hl + 0, ws_st := state_recv m (frame_layout_for (length ([] :: U8 list))),
      ws_mask_idx := (if m then 0 mod 4 else 0), ws_read := of_nat 0\<rparr>"
  note H = header_step [OF fh _ c(2) inp n, where l = l, folded c1_def]
  have "opc AND 0x0F \<le> 2" using opc by (rule order_trans [OF word_and_le2])
  then have "get_opcode c1 \<le> 2" using H(3) by (simp add: word_le_nat_alt)
  moreover have "frame_size c1 = 0" "ws_read c1 = 0" using H(5) by (simp_all add: c1_def)
  ultimately have "read_pass ok env l [] c = Some (Return (Ret (Inl EINVAL) [] c1))"
    using c(1) H(1) [of "[]"] by (simp add: read_pass_def read_payload_def read_data_def)
  then show ?thesis by (simp add: read_frame_def read_loop_pass)
qed

text \<open>
  C20: a data frame as \<open>write_frame\<close> sends it, masked or not, with any payload that is not empty and shorter than \<open>2 ^ 31\<close>
  bytes (beyond, the \<open>int\<close> that is returned cannot hold its length), is delivered: when it arrives in one piece on a connection
  that waits for a frame and has read nothing else, and the caller's buffer holds the payload, \<open>read_frame\<close> returns its length
  and has written the payload, unmasked.  An empty data frame is an error to \<open>read_frame\<close> (\<open>empty_frame_is_an_error\<close>).
\<close>

theorem frame_is_delivered:
  assumes c: "ws_st c = state_established" "ws_body c = []" "ws_in c = [Data (frame_bytes m opc rnd p)]"
    and opc: "opc \<le> 2" and p: "p \<noteq> []" "length p \<le> l" "length p < 2 ^ 31"
  shows "\<exists>c'. read_frame ok env l c = Some (Ret (Inr (int (length p))) p c')"
proof -
  have p64: "length p < 2 ^ 64" and i: "int_of_size (length p) = int (length p)"
    using p(3) int_of_size_small by simp_all
  obtain buff hl where fh: "frame_header True m opc (length p) rnd = (buff, hl)" by fastforce
  define q where "q = (if m then mask_stream rnd 0 p else p)"
  have lq: "length q = length p" by (simp add: q_def)
  have inp: "ws_in c = Data (bytes_at buff 0 hl @ q) # []" using c(3) fh by (simp add: frame_bytes_def q_def)
  define n where "n = min (14 - hl) (length q)"
  have nl: "n \<le> l" "n \<le> length p" using p(2) lq by (simp_all add: n_def)
  define c1 where "c1 = (init_frame c)\<lparr>ws_in := (if length q \<le> 14 - hl then [] else [Data (drop n q)]),
      ws_frame := mem_copy (ws_frame c) 0 (bytes_at buff 0 hl @ take n q), ws_flen := hl + n, ws_st := state_recv m (frame_layout_for (length p)),
      ws_mask_idx := (if m then n mod 4 else 0), ws_read := of_nat n\<rparr>"
  note H = header_step [OF fh p64 c(2) inp n_def nl(1), folded c1_def]
  note pieces = masked_pieces [OF nl(2) q_def]
  have "opc AND 0x0F \<le> 2" using opc by (rule order_trans [OF word_and_le2])
  then have opc2: "get_opcode c1 \<le> 2" using H(3) by (simp add: word_le_nat_alt)
  have c1: "ws_body c1 = []" "ws_st c1 = state_recv m (frame_layout_for (length p))" "ws_read c1 = of_nat n"
    "ws_mask_idx c1 = (if m then n mod 4 else 0)" using c(2) by (simp_all add: c1_def init_frame_def)
  have go: "read_frame ok env l c = read_loop ok env (l - n) (take n p) c1"
    using c(1) H(1) [of "[]", unfolded pieces(1)] c1(2)
    by (simp add: read_frame_def read_loop_pass [of ok env l "[]" c] read_loop_pass [of ok env "l - n" "take n p" c1] read_pass_def)
  show ?thesis
  proof (cases "length q \<le> 14 - hl")
    case True
    then have n: "n = length p" "ws_in c1 = []" using lq by (simp_all add: n_def c1_def)
    then have "\<exists>c'. read_loop ok env (l - n) (take n p) c1 = Some (Ret (Inr (int_of_size (length (take n p)))) (take n p) c')"
      using length_word [OF p(1) p64] H(5) c1 opc2 p(1) by (intro data_done) simp_all
    then show ?thesis using go n i by simp
  next
    case False
    then have n: "n < length p" "ws_in c1 = Data (drop n q) # []" using lq by (simp_all add: n_def c1_def)
    have "take n p @ (if masked c1 then mask_stream (get_mask c1) (ws_mask_idx c1) (drop n q) else drop n q) = p"
      using pieces(2) H(4,6) c1(4) by (cases m) auto
    then have "\<exists>c'. read_loop ok env (l - n) (take n p) c1 = Some (Ret (Inr (int_of_size (length p))) p c')"
      using n lq c1 H(5) opc2 p p64 nl by (intro rest_is_delivered [where q = "drop n q" and n = n]) auto
    then show ?thesis using go i by simp
  qed
qed

text \<open>A connection on which nothing has been read since the handshake.\<close>

definition ws_fresh :: "rd list \<Rightarrow> ws_conn" where
  "ws_fresh inp = \<lparr>ws_st = state_established, ws_flen = 0, ws_mask_idx = 0, ws_ctrl = None, ws_read = 0, ws_frame = (\<lambda>_. 0),
     ws_body = [], ws_in = inp, ws_out = []\<rparr>"

lemma ws_fresh_simps [simp]: "ws_st (ws_fresh inp) = state_established" "ws_body (ws_fresh inp) = []" "ws_in (ws_fresh inp) = inp"
  "ws_ctrl (ws_fresh inp) = None"
  by (simp_all add: ws_fresh_def)

lemma frame_is_delivered_witness:
  "\<exists>c'. read_frame True \<lparr>is_server = True, ws_rand = 0, ws_write1 = Some, ws_write2 = Some\<rparr> 10
     (ws_fresh [Data (frame_bytes True 2 0x01020304 [104, 105])]) = Some (Ret (Inr 2) [104, 105] c')"
  using frame_is_delivered [of "ws_fresh [Data (frame_bytes True 2 0x01020304 [104, 105])]" True 2 "0x01020304" "[104, 105]" 10 True] by (simp flip: numeral_2_eq_2)

text \<open>
  Two short frames that arrive together are run into one: the bytes behind the first header go
  to the caller without regard to the length of the first frame, so the caller gets the payload of the first, the
  header of the second and its payload as one piece of data.
\<close>

theorem short_frames_run_together:
  assumes c: "ws_st c = state_established" "ws_body c = []"
      "ws_in c = [Data (frame_bytes False opc rnd p @ frame_bytes False opc' rnd' q)]"
    and opc: "opc \<le> 2" and p: "p \<noteq> []" "length p + length q \<le> 10" "12 < l"
  shows "\<exists>c'. read_frame ok env l c = Some (Ret (Inr (int (length p + 2 + length q))) (p @ frame_bytes False opc' rnd' q) c')"
proof -
  obtain buff hl where fh: "frame_header True False opc (length p) rnd = (buff, hl)" by fastforce
  define r where "r = p @ frame_bytes False opc' rnd' q"
  have hl: "hl = 2" using fh p(2) by (auto simp: frame_header_parts Let_def frame_layout_for_def)
  have lq: "length (frame_bytes False opc' rnd' q) = 2 + length q"
    using p(2) by (simp add: frame_bytes_def frame_header_parts Let_def frame_layout_for_def)
  have inp: "ws_in c = Data (bytes_at buff 0 hl @ r) # []" using c(3) fh by (simp add: frame_bytes_def r_def)
  define n where "n = min (14 - hl) (length r)"
  have lr: "length r = length p + 2 + length q" by (simp add: r_def lq)
  have n: "n = length r" using p(2) lr by (simp add: n_def hl)
  have nl: "n \<le> l" using n lr p by simp
  have p64: "length p < 2 ^ 64" using p(2) by simp
  define c1 where "c1 = (init_frame c)\<lparr>ws_in := (if length r \<le> 14 - hl then [] else [Data (drop n r)]),
      ws_frame := mem_copy (ws_frame c) 0 (bytes_at buff 0 hl @ take n r), ws_flen := hl + n, ws_st := state_recv False (frame_layout_for (length p)),
      ws_mask_idx := (if False then n mod 4 else 0), ws_read := of_nat n\<rparr>"
  note H = header_step [OF fh p64 c(2) inp n_def nl, folded c1_def]
  have opc2: "unat (opc AND 0x0F) \<le> 2"
  proof -
    have "opc AND 0x0F \<le> opc" by (rule word_and_le2)
    then have "opc AND 0x0F \<le> 2" using opc by (rule order_trans)
    then show ?thesis by (simp add: word_le_nat_alt)
  qed
  have c1: "ws_body c1 = []" "ws_in c1 = []" "ws_read c1 = of_nat n" "ws_st c1 = state_recv False (frame_layout_for (length p))"
    using c(2) n lr p(2) hl by (simp_all add: c1_def init_frame_def)
  have ne: "frame_size c1 - ws_read c1 \<noteq> 0"
  proof
    assume "frame_size c1 - ws_read c1 = 0"
    then have "(of_nat (length p) :: U64) = of_nat n" using H(5) c1(3) by simp
    then have "unat (of_nat (length p) :: U64) = unat (of_nat n :: U64)" by simp
    moreover have "unat (of_nat k :: U64) = k" if "k < 2 ^ 64" for k using that by (simp add: unsigned_of_nat take_bit_nat_eq_self)
    moreover have "n < 2 ^ 64" using n lr p(2) by simp
    ultimately have "length p = n" using p64 by metis
    then show False using n lr by simp
  qed
  have upd: "c1\<lparr>ws_in := []\<rparr> = c1" using c1(2) by (cases c1) simp
  have "read_body_and_fd k c1 = (Again, c1)" for k using c1(1,2) upd by (simp add: read_body_and_fd_def)
  then have "read_data (l - n) r c1 = again r c1" using ne by (simp add: read_data_def Let_def)
  moreover have "r \<noteq> []" using p(1) by (simp add: r_def)
  ultimately have "read_payload ok env (l - n) r c1 = Some (Return (Ret (Inr (int_of_size (length r))) r c1))"
    using H(3) opc2 by (simp add: read_payload_def again_def)
  then have "read_loop ok env l [] c = Some (Ret (Inr (int_of_size (length r))) r c1)"
    using c(1) H(1) [of "[]"] n by (simp add: read_loop_pass [of ok env l "[]" c] read_pass_def)
  moreover have "int_of_size (length r) = int (length p + 2 + length q)" using p(2) lr by (simp add: int_of_size_small)
  ultimately show ?thesis by (simp add: read_frame_def r_def)
qed

lemma short_frames_run_together_witness:
  "\<exists>c'. read_frame True \<lparr>is_server = True, ws_rand = 0, ws_write1 = Some, ws_write2 = Some\<rparr> 20
     (ws_fresh [Data (frame_bytes False 1 0 [104] @ frame_bytes False 1 0 [105])])
   = Some (Ret (Inr 4) ([104] @ frame_bytes False 1 0 [105]) c')"
  using short_frames_run_together [of "ws_fresh [Data (frame_bytes False 1 0 [104] @ frame_bytes False 1 0 [105])]" 1 0 "[104]" 1 0 "[105]" 20 True]
  by (simp add: eval_nat_numeral)

text \<open>A control frame with payload \<open>y\<close> behind its header that has been read to its end, and is not left.\<close>

definition ping_stuck :: "bool \<Rightarrow> U8 list \<Rightarrow> ws_conn \<Rightarrow> bool" where
  "ping_stuck m y c \<longleftrightarrow> (\<exists>lay. ws_st c = state_recv m lay) \<and> masked c = m \<and> get_opcode c \<in> {9, 10} \<and> frame_size c = ws_read c
     \<and> ws_ctrl c = None \<and> ws_mask_idx c < 4 \<and> bytes_at (ws_frame c) (ws_flen c - snd (analyze_frame c)) (snd (analyze_frame c)) = y"

lemma ping_stuck_cong:
  assumes "ping_stuck m y c" "ws_st c' = ws_st c" "ws_frame c' = ws_frame c" "ws_read c' = ws_read c" "ws_flen c' = ws_flen c"
    "ws_ctrl c' = None" "ws_mask_idx c' < 4"
  shows "ping_stuck m y c'"
proof -
  have m: "masked c' = masked c" "get_opcode c' = get_opcode c" using assms(3) by (simp_all add: masked_def get_opcode_def)
  then have "analyze_frame c' = analyze_frame c" using assms(3,5) by (simp add: analyze_frame_def Let_def)
  then show ?thesis using assms m frame_size_cong [of c' c] by (simp add: ping_stuck_def)
qed

lemma unmask_ctrl_fields:
  assumes "ws_mask_idx c < 4" "ws_ctrl c = Some y"
  shows "ws_st (unmask_ctrl c) = ws_st c" "ws_frame (unmask_ctrl c) = ws_frame c" "ws_read (unmask_ctrl c) = ws_read c"
    "ws_flen (unmask_ctrl c) = ws_flen c" "ws_mask_idx (unmask_ctrl c) < 4" "ws_out (unmask_ctrl c) = ws_out c"
    "\<exists>x. ws_ctrl (unmask_ctrl c) = Some x \<and> length x = length y"
  using assms mask_payload_is_stream [OF assms(1), of y "get_mask c"] by (simp_all add: unmask_ctrl_def unmask_def Let_def)

text \<open>What is sent in answer to a ping.\<close>

definition pong :: "ws_env \<Rightarrow> U8 list \<Rightarrow> U8 list" where
  "pong env x = fst (snd (write_frame env x 10 True True))"

lemma ping_again:
  assumes "ping_stuck m y c" "0 < l"
  shows "\<exists>x c'. read_pass True env l acc c = Some (Go l acc c') \<and> ping_stuck m y c' \<and> get_opcode c' = get_opcode c
    \<and> length x = length y \<and> (m \<or> x = y) \<and> ws_out c' = ws_out c @ (if get_opcode c = 9 then pong env x else [])"
proof -
  from assms(1) have c: "frame_size c = ws_read c" "ws_ctrl c = None" "get_opcode c = 9 \<or> get_opcode c = 10" "masked c = m"
    "ws_mask_idx c < 4" "bytes_at (ws_frame c) (ws_flen c - snd (analyze_frame c)) (snd (analyze_frame c)) = y"
    by (auto simp: ping_stuck_def)
  obtain st n where an: "analyze_frame c = (st, n)" by fastforce
  let ?c = "c\<lparr>ws_ctrl := Some y\<rparr>"
  have s: "suck_out_recv_data True c = Some (Sucked, ?c)"
    using c an by (simp add: suck_out_recv_data_def suck_loop.simps Let_def)
  have g: "get_opcode ?c = get_opcode c" "masked ?c = m" using c(4) by (simp_all add: get_opcode_def masked_def)
  define d where "d = (if m then unmask_ctrl ?c else ?c)"
  have d: "ws_st d = ws_st c" "ws_frame d = ws_frame c" "ws_read d = ws_read c" "ws_flen d = ws_flen c" "ws_mask_idx d < 4" "ws_out d = ws_out c"
    using unmask_ctrl_fields [of ?c y] c(5) by (simp_all add: d_def)
  obtain x where x: "ws_ctrl d = Some x" "length x = length y" "m \<or> x = y"
    using unmask_ctrl_fields(7) [of ?c y] c(5) by (cases m) (auto simp: d_def)
  let ?e = "(if get_opcode c = 9 then d\<lparr>ws_out := ws_out d @ pong env x\<rparr> else ?c)\<lparr>ws_ctrl := None\<rparr>"
  have "read_ping True env l acc c = Some (Go l acc ?e)"
    using s assms(2) g x(1) by (simp add: read_ping_def pong_def Let_def d_def [symmetric] split_beta)
  then have "read_pass True env l acc c = Some (Go l acc ?e)"
    using assms(1) c(3) by (auto simp: read_pass_def read_payload_def ping_stuck_def)
  moreover have "ping_stuck m y ?e" by (rule ping_stuck_cong [OF assms(1)]) (simp_all add: d c(5))
  moreover have "get_opcode ?e = get_opcode c" "ws_out ?e = ws_out c @ (if get_opcode c = 9 then pong env x else [])"
    by (simp_all add: get_opcode_def d)
  ultimately show ?thesis using x(2,3) by blast
qed

lemma ping_passes:
  assumes "ping_stuck m y c" "0 < l"
  shows "\<exists>xs c'. read_passes k True env l acc c = Some (Go l acc c') \<and> ping_stuck m y c' \<and> get_opcode c' = get_opcode c
    \<and> length xs = k \<and> (\<forall>x\<in>set xs. length x = length y \<and> (m \<or> x = y))
    \<and> ws_out c' = ws_out c @ (if get_opcode c = 9 then concat (map (pong env) xs) else [])"
proof (induction k)
  case 0
  then show ?case using assms(1) by simp
next
  case (Suc k)
  then obtain xs d where d: "read_passes k True env l acc c = Some (Go l acc d)" "ping_stuck m y d" "get_opcode d = get_opcode c"
    "length xs = k" "\<forall>x\<in>set xs. length x = length y \<and> (m \<or> x = y)"
    "ws_out d = ws_out c @ (if get_opcode c = 9 then concat (map (pong env) xs) else [])" by blast
  from ping_again [OF d(2) assms(2), of env acc] obtain x e where e: "read_pass True env l acc d = Some (Go l acc e)" "ping_stuck m y e"
    "get_opcode e = get_opcode d" "length x = length y \<and> (m \<or> x = y)" "ws_out e = ws_out d @ (if get_opcode d = 9 then pong env x else [])" by blast
  then show ?case using d by (intro exI [of _ "xs @ [x]"] exI [of _ e]) auto
qed

lemma read_passes_first:
  "read_pass ok env l acc c = Some (Go l' acc' c') \<Longrightarrow> read_passes (Suc k) ok env l acc c = read_passes k ok env l' acc' c'"
  by (induction k) simp_all

lemma ping_diverges: "ping_stuck m y c \<Longrightarrow> 0 < l \<Longrightarrow> read_loop True env l acc c = None"
proof (cases "read_loop True env l acc c")
  case (Some r)
  have "\<not> (ok \<and> ping_stuck m y c \<and> 0 < l)" if *: "read_loop ok env l acc c = Some r" for ok env l acc c r
  proof (rule read_loop.raw_induct [where P = "\<lambda>ok env l acc c r. \<not> (ok \<and> ping_stuck m y c \<and> 0 < l)", OF _ *], intro notI, goal_cases)
    case (1 f ok env l acc c r)
    then obtain c' where c': "read_pass True env l acc c = Some (Go l acc c')" "ping_stuck m y c'" using ping_again [of m y c l env acc] by blast
    then have "f True env l acc c' = Some r" using 1(2,3) by simp
    from 1(1) [OF this] c' 1(3) show False by simp
  qed
  then show "ping_stuck m y c \<Longrightarrow> 0 < l \<Longrightarrow> ?thesis" using Some by blast
qed

text \<open>
  C21: a ping or pong that arrives whole in the first read makes \<open>read_frame\<close> loop for ever when room is left in the caller's
  buffer and a control frame can be allocated: the state stays at that frame, so every further pass of the loop handles the same
  frame once more.  After \<open>k\<close> passes \<open>k\<close> pongs have been sent in answer to a ping, each with a payload as long as the ping's (and
  equal to it when the frame is not masked), and \<open>read_frame\<close> never returns.  Whole in the first read, of 14 bytes, are payloads of
  up to 8 bytes, and of up to 12 in a frame that is not masked.
\<close>

theorem ping_never_returns:
  assumes c: "ws_st c = state_established" "ws_body c = []" "ws_in c = [Data (frame_bytes m opc rnd p)]" "ws_ctrl c = None"
    and opc: "opc \<in> {9, 10}" and p: "length p \<le> (if m then 8 else 12)" "length p < l"
  shows "read_frame True env l c = None \<and> (\<forall>k. \<exists>xs acc c'. read_passes k True env l [] c = Some (Go (if k = 0 then l else l - length p) acc c')
    \<and> length xs = k \<and> (\<forall>x\<in>set xs. length x = length p \<and> (m \<or> x = p))
    \<and> ws_out c' = ws_out c @ (if opc = 9 then concat (map (pong env) xs) else []))"
proof -
  obtain buff hl where fh: "frame_header True m opc (length p) rnd = (buff, hl)" by fastforce
  define q where "q = (if m then mask_stream rnd 0 p else p)"
  have lq: "length q = length p" by (simp add: q_def)
  have hl: "hl = (if m then 6 else 2)" using fh p(1) by (auto simp: frame_header_parts Let_def frame_layout_for_def split: if_splits)
  have inp: "ws_in c = Data (bytes_at buff 0 hl @ q) # []" using c(3) fh by (simp add: frame_bytes_def q_def)
  define n where "n = min (14 - hl) (length q)"
  have n: "n = length p" using hl p(1) lq by (simp add: n_def split: if_splits)
  have nl: "n \<le> l" using n p by simp
  have p64: "length p < 2 ^ 64" using p(1) by (simp split: if_splits)
  define c1 where "c1 = (init_frame c)\<lparr>ws_in := (if length q \<le> 14 - hl then [] else [Data (drop n q)]),
      ws_frame := mem_copy (ws_frame c) 0 (bytes_at buff 0 hl @ take n q), ws_flen := hl + n, ws_st := state_recv m (frame_layout_for (length p)),
      ws_mask_idx := (if m then n mod 4 else 0), ws_read := of_nat n\<rparr>"
  note H = header_step [OF fh p64 c(2) inp n_def nl, folded c1_def]
  define a where "a = (if m then mask_stream rnd 0 (take n q) else take n q)"
  have "unat opc = 9 \<or> unat opc = 10" "opc AND 0x0F = opc" using opc by auto
  then have o: "get_opcode c1 \<in> {9, 10}" "get_opcode c1 = 9 \<longleftrightarrow> opc = 9" using H(3) opc by auto
  have c1: "ws_st c1 = state_recv m (frame_layout_for (length p))" "ws_ctrl c1 = None" "ws_read c1 = of_nat n" "ws_mask_idx c1 < 4"
    "ws_flen c1 = hl + n" "ws_frame c1 = mem_copy (ws_frame c) 0 (bytes_at buff 0 hl @ q)" "ws_out c1 = ws_out c"
    using c(4) n lq by (simp_all add: c1_def init_frame_def)
  have "drop hl (bytes_at (ws_frame c1) 0 (hl + n)) = q"
    using bytes_at_mem_copy [of "ws_frame c" 0 "bytes_at buff 0 hl @ q"] n lq by (simp add: c1(6))
  then have y: "bytes_at (ws_frame c1) (ws_flen c1 - n) n = q" by (simp add: drop_bytes_at c1(5))
  have s: "ping_stuck m q c1" using o(1) c1 y H(4,5,7) n by (auto simp: ping_stuck_def)
  have l: "0 < l - n" using n p(2) by simp
  have rh: "read_header l [] (init_frame c) = Go (l - n) a c1" using H(1) [of "[]"] by (simp add: a_def)
  have first: "read_pass True env l [] c = read_pass True env (l - n) a c1" using c(1) rh c1(1) by (simp add: read_pass_def)
  have "read_loop True env l [] c = read_loop True env (l - n) a c1"
    by (simp add: read_loop_pass [of True env l "[]" c] read_loop_pass [of True env "l - n" a c1] first)
  then have "read_frame True env l c = None" using ping_diverges [OF s l] by (simp add: read_frame_def)
  moreover have "\<exists>xs acc c'. read_passes k True env l [] c = Some (Go (if k = 0 then l else l - length p) acc c')
    \<and> length xs = k \<and> (\<forall>x\<in>set xs. length x = length p \<and> (m \<or> x = p))
    \<and> ws_out c' = ws_out c @ (if opc = 9 then concat (map (pong env) xs) else [])" for k
  proof (cases k)
    case (Suc j)
    obtain l2 a2 c2 where c2: "read_pass True env (l - n) a c1 = Some (Go l2 a2 c2)" using ping_again [OF s l] by blast
    have "read_passes k True env l [] c = read_passes k True env (l - n) a c1"
      unfolding Suc read_passes_first [OF c2] by (rule read_passes_first) (simp add: first c2)
    moreover obtain xs c' where "read_passes k True env (l - n) a c1 = Some (Go (l - n) a c')" "length xs = k"
      "\<forall>x\<in>set xs. length x = length q \<and> (m \<or> x = q)" "ws_out c' = ws_out c1 @ (if get_opcode c1 = 9 then concat (map (pong env) xs) else [])"
      using ping_passes [OF s l, of k env a] by blast
    moreover have "m \<or> q = p" by (simp add: q_def)
    ultimately show ?thesis using Suc n lq c1(7) o(2)
      by (intro exI [of _ xs] exI [of _ a] exI [of _ c']) auto
  qed auto
  ultimately show ?thesis by blast
qed

theorem ping_never_returns_witness:
  "read_frame True \<lparr>is_server = True, ws_rand = 0, ws_write1 = Some, ws_write2 = Some\<rparr> 512
     (ws_fresh [Data (frame_bytes False 9 0 [1, 2, 3, 4, 5, 6, 7, 8, 9])]) = None
   \<and> (\<exists>acc c'. read_passes 2 True \<lparr>is_server = True, ws_rand = 0, ws_write1 = Some, ws_write2 = Some\<rparr> 512 []
        (ws_fresh [Data (frame_bytes False 9 0 [1, 2, 3, 4, 5, 6, 7, 8, 9])]) = Some (Go 503 acc c')
      \<and> ws_out c' = [0x8a, 9, 1, 2, 3, 4, 5, 6, 7, 8, 9, 0x8a, 9, 1, 2, 3, 4, 5, 6, 7, 8, 9])"
proof -
  let ?e = "\<lparr>is_server = True, ws_rand = 0, ws_write1 = Some, ws_write2 = Some\<rparr>" and ?p = "[1, 2, 3, 4, 5, 6, 7, 8, 9] :: U8 list"
  let ?c = "ws_fresh [Data (frame_bytes False 9 0 ?p)]"
  have all: "read_frame True ?e 512 ?c = None \<and> (\<forall>k. \<exists>xs acc c'. read_passes k True ?e 512 [] ?c = Some (Go (if k = 0 then 512 else 512 - length ?p) acc c')
    \<and> length xs = k \<and> (\<forall>x\<in>set xs. length x = length ?p \<and> (False \<or> x = ?p))
    \<and> ws_out c' = ws_out ?c @ (if (9 :: U8) = 9 then concat (map (pong ?e) xs) else []))"
    by (rule ping_never_returns [where rnd = 0]) simp_all
  from conjunct2 [OF this, THEN spec, of 2] obtain xs acc c' where
    x: "read_passes 2 True ?e 512 [] ?c = Some (Go 503 acc c')" "length xs = 2" "\<forall>x\<in>set xs. x = ?p" "ws_out c' = ws_out ?c @ concat (map (pong ?e) xs)"
    by auto
  have "xs = [?p, ?p]" using x(2,3) by (cases xs; cases "tl xs") (auto simp: numeral_2_eq_2)
  moreover have two: "bytes_at b 0 2 = [b 0, b 1]" for b by (simp add: bytes_at_def numeral_2_eq_2)
  moreover have "pong ?e ?p = [0x8a, 9] @ ?p"
    by (simp add: pong_def write_frame_def frame_header_def Let_def set_controls_def set_payload_len_def SET_16_def two)
  ultimately have "ws_out c' = [0x8a, 9, 1, 2, 3, 4, 5, 6, 7, 8, 9, 0x8a, 9, 1, 2, 3, 4, 5, 6, 7, 8, 9]" using x(4) by (simp add: ws_fresh_def)
  then show ?thesis using x(1) all by blast
qed

end
