(* ===== verification/Http.thy ===== *)
theory Http
  imports Prelude Strings
begin

text \<open>
  \<^verbatim>\<open>src/src/net/http.h\<close>: the receiving state machine \<open>fsm\<close> of HTTP messages, which the web socket
  handshake uses as well.  The message is collected byte by byte in one buffer; header lines are
  positions in it, ended in place by null bytes.

  Positions in the buffer stand for pointers.  \<open>None\<close> is a read of bytes the caller does not have.
  What is behind the buffer is never reached: \<open>append\<close> stops one byte before its end.

  The lemmas: what feeding a line, an empty line and a body does; the segments in which a message
  arrives do not matter; a message with a content length is parsed.
\<close>

definition ascii :: "string \<Rightarrow> U8 list" where
  "ascii s = map of_char s"

section \<open>State\<close>

datatype http_state =
    state_invalid | state_recv_header | state_recv_body | state_recv_body_nochunk | state_recv_bodylen
  | state_recv_footer | state_recv_comment | state_recv_finish | state_websocket_establish | state_error

record fsm =
  f_version :: nat
  f_hd :: "(nat \<times> nat) list"
  f_state :: http_state
  f_res :: int
  f_bd :: nat
  f_bl :: U32
  f_max :: nat
  f_len :: nat
  f_buf :: nat
  f_mem :: mem

definition MAX_HEADER :: nat where
  "MAX_HEADER = 64"

definition HRC_ERROR :: int where
  "HRC_ERROR = -1"

definition HRC_OK :: int where
  "HRC_OK = 200"

definition fsm_reset :: "nat \<Rightarrow> fsm \<Rightarrow> fsm" where
  "fsm_reset chunk_size f = f\<lparr>f_buf := 0, f_len := 0, f_max := chunk_size, f_version := 11, f_hd := [], f_state := state_recv_header\<rparr>"

definition consume_body :: "U32 \<Rightarrow> fsm \<Rightarrow> fsm" where
  "consume_body r f = (let r = (if f_bl f < r then f_bl f else r) in f\<lparr>f_bl := f_bl f - r, f_bd := f_bd f + unat r\<rparr>)"

text \<open>The string at a position.\<close>

definition str_at :: "fsm \<Rightarrow> nat \<Rightarrow> U8 list" where
  "str_at f p = takeWhile (\<lambda>c. c \<noteq> 0) (bytes_at (f_mem f) p (f_max f - p))"

section \<open>Header fields\<close>

definition to_lower :: "U8 \<Rightarrow> U8" where
  "to_lower c = (if 65 \<le> c \<and> c \<le> 90 then c + 32 else c)"

datatype key_match = TooLong | NoMatch | Rest "U8 list"

fun match_key :: "nat \<Rightarrow> nat \<Rightarrow> U8 list \<Rightarrow> U8 list \<Rightarrow> key_match" where
  "match_key hl j [] p = Rest p"
| "match_key hl j (k # ks) [] = NoMatch"
| "match_key hl j (k # ks) (c # p) =
     (if to_lower k = to_lower c then (if j > hl then TooLong else match_key hl (j + 1) ks p) else NoMatch)"

text \<open>The value without the spaces and colons in front of it, when it fits \<open>l\<close> bytes with its terminator.\<close>

definition field_value :: "nat \<Rightarrow> U8 list \<Rightarrow> U8 list option" where
  "field_value l p = (let v = dropWhile (\<lambda>c. c = 32 \<or> c = 58) p in if v \<noteq> [] \<and> length v \<ge> l then None else Some v)"

fun find_field :: "U8 list \<Rightarrow> nat \<Rightarrow> (U8 list \<times> nat) list \<Rightarrow> U8 list option" where
  "find_field key l [] = None"
| "find_field key l ((line, hl) # hs) =
     (case match_key hl 0 key line of
        TooLong \<Rightarrow> None
      | NoMatch \<Rightarrow> find_field key l hs
      | Rest p \<Rightarrow> field_value l p)"

definition header_lines :: "fsm \<Rightarrow> (U8 list \<times> nat) list" where
  "header_lines f = map (\<lambda>(p, hl). (str_at f p, hl)) (f_hd f)"

definition hdrstr :: "U8 list \<Rightarrow> nat \<Rightarrow> fsm \<Rightarrow> U8 list option" where
  "hdrstr key l f = find_field key l (header_lines f)"

definition hashdr :: "U8 list \<Rightarrow> fsm \<Rightarrow> bool" where
  "hashdr key f = (hdrstr key 256 f \<noteq> None)"

definition hdrint :: "U8 list \<Rightarrow> fsm \<Rightarrow> nbr_error + U32" where
  "hdrint key f = (case hdrstr key 256 f of None \<Rightarrow> Inl ENOTFOUND | Some b \<Rightarrow> atoi b 256)"

text \<open>\<open>url\<close>: the second word of the first line, without its first slash; \<open>l\<close> is the room for it.\<close>

function url_skip :: "mem \<Rightarrow> nat \<Rightarrow> nat \<Rightarrow> nat \<Rightarrow> nbr_error + nat" where
  "url_skip m p hl j =
     (if m (p + j) = 32 then Inr (p + j + 1)
      else if j + 1 > hl then Inl EFULL
      else if m (p + j + 1) = 0 then Inl EFORMAT
      else url_skip m p hl (j + 1))"
  by pat_completeness auto
termination by (relation "measure (\<lambda>(m, p, hl, j). hl - j)") auto

function url_word :: "mem \<Rightarrow> nat \<Rightarrow> nat \<Rightarrow> nat \<Rightarrow> nbr_error + U8 list" where
  "url_word m w l n =
     (if m (w + n) = 32 then Inr (bytes_at m w n)
      else if n + 1 > l then Inl EFULL
      else if m (w + n + 1) = 0 then Inl EFORMAT
      else url_word m w l (n + 1))"
  by pat_completeness auto
termination by (relation "measure (\<lambda>(m, w, l, n). l - n)") auto

declare url_skip.simps [simp del] url_word.simps [simp del]

definition fsm_url :: "nat \<Rightarrow> fsm \<Rightarrow> nbr_error + U8 list" where
  "fsm_url l f =
     (let (p, hl) = hd (f_hd f); m = f_mem f in
      case url_skip m p hl 0 of Inl e \<Rightarrow> Inl e
      | Inr w \<Rightarrow> url_word m (if m w = 47 then w + 1 else w) l 0)"

text \<open>\<open>putrc\<close>: the version and the status code of the first line.\<close>

fun rc_skip :: "nat \<Rightarrow> nat \<Rightarrow> U8 list \<Rightarrow> (nat \<times> U8 list) option" where
  "rc_skip hl j [] = Some (j, [])"
| "rc_skip hl j (c # w) =
     (case w of [] \<Rightarrow> Some (j + 1, [])
      | d # w' \<Rightarrow> if d \<noteq> 32 then Some (j + 1, w) else if j + 1 > hl then None else rc_skip hl (j + 1) w)"

fun rc_word :: "nat \<Rightarrow> nat \<Rightarrow> U8 list \<Rightarrow> U8 list \<Rightarrow> U8 list option" where
  "rc_word hl j t [] = Some t"
| "rc_word hl j t (c # w) =
     (if c = 32 then Some t
      else if j + 1 > hl then None
      else if length t + 1 \<ge> 256 then None
      else rc_word hl (j + 1) (t @ [c]) w)"

definition rc_number :: "nat \<Rightarrow> U8 list \<Rightarrow> int" where
  "rc_number hl w =
     (case rc_skip hl 8 w of None \<Rightarrow> HRC_ERROR
      | Some (j, w) \<Rightarrow>
          (case rc_word hl j [] w of None \<Rightarrow> HRC_ERROR
           | Some tok \<Rightarrow> (case atoi tok 256 of Inl _ \<Rightarrow> HRC_ERROR | Inr sc \<Rightarrow> sint sc)))"

definition putrc :: "fsm \<Rightarrow> fsm" where
  "putrc f =
     (let (s, hl) = hd (f_hd f); v = bytes_at (f_mem f) (s + 5) 3; S16 = (\<lambda>i. sint (of_int i :: 16 word)) in
      if v = ascii ''1.1'' then f\<lparr>f_version := 11, f_res := S16 (rc_number hl (str_at f (s + 8)))\<rparr>
      else if v = ascii ''1.0'' then f\<lparr>f_version := 10, f_res := S16 (rc_number hl (str_at f (s + 8)))\<rparr>
      else f\<lparr>f_res := HRC_ERROR\<rparr>)"

section \<open>The receiving states\<close>

definition recv_lf :: "fsm \<Rightarrow> nat" where
  "recv_lf f =
     (if f_len f > 2 \<and> GET_16 (f_mem f) (f_len f - 2) = htons 0x0d0a then 2
      else if f_len f > 1 \<and> f_mem f (f_len f - 1) = 10 then 1 else 0)"

definition recv_lflf :: "fsm \<Rightarrow> nat" where
  "recv_lflf f =
     (if f_len f > 4 \<and> GET_32 (f_mem f) (f_len f - 4) = htonl 0x0d0a0d0a then 4
      else if f_len f > 2 \<and> GET_16 (f_mem f) (f_len f - 2) = htons 0x0a0a then 2 else 0)"

definition clear_lf :: "nat \<Rightarrow> fsm \<Rightarrow> fsm" where
  "clear_lf nlf f = f\<lparr>f_mem := mem_copy (f_mem f) (f_len f - nlf) (replicate nlf 0)\<rparr>"

definition end_line :: "nat \<Rightarrow> fsm \<Rightarrow> fsm" where
  "end_line nlf f = f\<lparr>f_hd := f_hd f @ [(f_buf f, (f_len f - f_buf f - nlf) mod 2 ^ 16)], f_buf := f_len f\<rparr>"

text \<open>The empty line behind the header: what the fields say of the body.\<close>

definition end_header :: "fsm \<Rightarrow> http_state \<times> fsm" where
  "end_header f =
     (let f = putrc f in
      case hdrint (ascii ''Content-Length'') f of
        Inr cl \<Rightarrow> (state_recv_body_nochunk, f\<lparr>f_bd := f_len f, f_bl := cl\<rparr>)
      | Inl _ \<Rightarrow>
          if (case hdrstr (ascii ''Transfer-Encoding'') 256 f of None \<Rightarrow> False | Some tok \<Rightarrow> take 7 tok = ascii ''chunked'')
          then (state_recv_bodylen, f\<lparr>f_buf := f_len f, f_bd := f_len f, f_bl := 0\<rparr>)
          else if hdrstr (ascii ''Sec-WebSocket-Key'') 256 f \<noteq> None \<or> hdrstr (ascii ''Sec-WebSocket-Accept'') 256 f \<noteq> None
          then (state_websocket_establish, f\<lparr>f_buf := f_len f, f_bd := f_len f, f_bl := 0\<rparr>)
          else if f_res f = HRC_OK then (state_error, f)
          else (state_recv_finish, f))"

definition recv_header :: "fsm \<Rightarrow> http_state \<times> fsm" where
  "recv_header f =
     (let nlf = recv_lf f in
      if nlf = 0 then (state_recv_header, f)
      else
        (let f = clear_lf nlf f in
         if f_len f - nlf = f_buf f then end_header f
         else if length (f_hd f) < MAX_HEADER then (state_recv_header, end_line nlf f)
         else (state_error, f)))"

text \<open>How many bytes of the body are to come, as the code's \<open>int\<close>.\<close>

definition body_diff :: "nat \<Rightarrow> fsm \<Rightarrow> int" where
  "body_diff pos f = sint (of_int (int (f_bd f) + uint (f_bl f) - int pos) :: 32 word)"

definition recv_body :: "fsm \<Rightarrow> http_state \<times> fsm" where
  "recv_body f =
     (let nlf = recv_lf f in
      if nlf = 0 then (state_recv_body, f)
      else
        (let n_diff = body_diff (f_len f - nlf) f in
         if n_diff > 0 then (state_recv_body, f)
         else if n_diff < 0 then (state_error, f)
         else (state_recv_bodylen, f\<lparr>f_len := f_len f - nlf, f_buf := f_len f - nlf\<rparr>)))"

definition recv_ws_frame :: "fsm \<Rightarrow> http_state \<times> fsm" where
  "recv_ws_frame f = (state_websocket_establish, f\<lparr>f_bl := f_bl f + 1\<rparr>)"

definition recv_body_nochunk :: "fsm \<Rightarrow> http_state \<times> fsm" where
  "recv_body_nochunk f =
     (let diff = body_diff (f_len f) f in
      if diff > 0 then (state_recv_body_nochunk, f) else if diff < 0 then (state_error, f) else (state_recv_finish, f))"

definition recv_bodylen :: "fsm \<Rightarrow> http_state \<times> fsm" where
  "recv_bodylen f =
     (let lf = recv_lf f;
          (s, nlf) = (if lf > 0 then (state_recv_body, lf)
            else if f_mem f (f_len f) = 59 then (state_recv_comment, 1) else (state_recv_bodylen, 0))
      in if s = state_recv_bodylen then (s, f)
         else
           (let f = clear_lf nlf f in
            case htoi (str_at f (f_buf f)) (int (f_len f - f_buf f)) of
              Inl _ \<Rightarrow> (state_error, f)
            | Inr cl \<Rightarrow>
                if cl = 0 then (state_recv_footer, f\<lparr>f_buf := f_len f\<rparr>)
                else (s, f\<lparr>f_bl := f_bl f + cl, f_len := f_buf f\<rparr>)))"

definition recv_footer :: "fsm \<Rightarrow> http_state \<times> fsm" where
  "recv_footer f =
     (let nlf = recv_lf f in
      if nlf = 0 then (state_recv_footer, f)
      else
        (let f = clear_lf nlf f in
         if f_len f - nlf = f_buf f then (state_recv_finish, f)
         else if length (f_hd f) < MAX_HEADER
         then (state_recv_footer, (end_line nlf f)\<lparr>f_mem := (f_mem f)(f_len f := 0)\<rparr>)
         else (state_error, f)))"

definition recv_comment :: "fsm \<Rightarrow> http_state \<times> fsm" where
  "recv_comment f = (if recv_lf f > 0 then (state_recv_body, f\<lparr>f_len := f_buf f\<rparr>) else (state_recv_comment, f))"

fun fsm_recv :: "http_state \<Rightarrow> fsm \<Rightarrow> http_state \<times> fsm" where
  "fsm_recv state_recv_header f = recv_header f"
| "fsm_recv state_recv_body f = recv_body f"
| "fsm_recv state_recv_body_nochunk f = recv_body_nochunk f"
| "fsm_recv state_recv_bodylen f = recv_bodylen f"
| "fsm_recv state_recv_footer f = recv_footer f"
| "fsm_recv state_recv_comment f = recv_comment f"
| "fsm_recv state_websocket_establish f = recv_ws_frame f"
| "fsm_recv s f = (s, f)"

text \<open>One turn of the loop of \<open>append\<close>, and the loop over the bytes of a segment.\<close>

definition fsm_byte :: "U8 \<Rightarrow> fsm \<Rightarrow> fsm" where
  "fsm_byte c f =
     (if f_state f = state_error \<or> f_state f = state_recv_finish then f
      else if f_max f > 0 \<and> f_len f \<ge> f_max f - 1 then f\<lparr>f_state := state_error\<rparr>
      else
        (let (s, f) = fsm_recv (f_state f) (f\<lparr>f_mem := (f_mem f)(f_len f := c, f_len f + 1 := 0), f_len := f_len f + 1\<rparr>)
         in f\<lparr>f_state := s\<rparr>))"

fun fsm_bytes :: "U8 list \<Rightarrow> fsm \<Rightarrow> fsm" where
  "fsm_bytes [] f = f"
| "fsm_bytes (c # b) f = fsm_bytes b (fsm_byte c f)"

text \<open>\<open>append\<close>: the loop looks at its count only behind the first byte.\<close>

definition fsm_append :: "U8 list \<Rightarrow> fsm \<Rightarrow> fsm option" where
  "fsm_append b f =
     (if b = [] \<and> f_state f \<noteq> state_error \<and> f_state f \<noteq> state_recv_finish then None else Some (fsm_bytes b f))"

section \<open>Feeding bytes\<close>

lemma fsm_bytes_append: "fsm_bytes (b @ d) f = fsm_bytes d (fsm_bytes b f)"
  by (induction b arbitrary: f) simp_all

text \<open>What feeding a byte does to the buffer.\<close>

abbreviation fed :: "U8 \<Rightarrow> fsm \<Rightarrow> fsm" where
  "fed c f \<equiv> f\<lparr>f_mem := (f_mem f)(f_len f := c, f_len f + 1 := 0), f_len := f_len f + 1\<rparr>"

lemma crlf_at: "GET_16 m p = htons 0x0d0a \<longleftrightarrow> m p = 13 \<and> m (p + 1) = 10"
proof -
  have h: "htons 0x0d0a = (ucast (13 :: U8) OR push_bit 8 (ucast (10 :: U8)) :: U16)" by (simp add: htons_def)
  have "GET_16 m p = (ucast a OR push_bit 8 (ucast b) :: U16) \<longleftrightarrow> m p = a \<and> m (p + 1) = b" for a b :: U8
  proof
    assume e: "GET_16 m p = (ucast a OR push_bit 8 (ucast b) :: U16)"
    have "m p = ucast (GET_16 m p)" "m (p + 1) = ucast (drop_bit 8 (GET_16 m p))"
      by (auto intro!: bit_word_eqI simp: GET_16_def bit_simps bit_beyond)
    then show "m p = a \<and> m (p + 1) = b" unfolding e
      by (auto intro!: bit_word_eqI simp: bit_simps bit_beyond)
  qed (simp add: GET_16_def)
  from this [of 13 10] show ?thesis unfolding h .
qed

lemma recv_lf_no_lf: "f_mem f (f_len f - 1) \<noteq> 10 \<Longrightarrow> recv_lf f = 0"
proof -
  assume a: "f_mem f (f_len f - 1) \<noteq> 10"
  have "f_len f - 2 + 1 = f_len f - 1" if "f_len f > 2" using that by simp
  then show ?thesis using a by (auto simp: recv_lf_def crlf_at)
qed

lemma recv_lf_crlf: "f_len f > 2 \<Longrightarrow> f_mem f (f_len f - 2) = 13 \<Longrightarrow> f_mem f (f_len f - 1) = 10 \<Longrightarrow> recv_lf f = 2"
proof -
  assume a: "f_len f > 2" "f_mem f (f_len f - 2) = 13" "f_mem f (f_len f - 1) = 10"
  have "f_len f - 2 + 1 = f_len f - 1" using a(1) by simp
  then show ?thesis using a by (simp add: recv_lf_def crlf_at)
qed

text \<open>Bytes of a header line, up to its end.\<close>

lemma feed_plain:
  assumes "10 \<notin> set xs" "f_state f = state_recv_header" "f_len f + length xs < f_max f" "xs \<noteq> []"
  shows "fsm_bytes xs f = f\<lparr>f_mem := mem_copy (f_mem f) (f_len f) (xs @ [0]), f_len := f_len f + length xs\<rparr>"
  using assms
proof (induction xs arbitrary: f)
  case (Cons x xs)
  have "recv_lf (fed x f) = 0" using Cons.prems(1) by (intro recv_lf_no_lf) simp
  then have b: "fsm_byte x f = fed x f" using Cons.prems by (cases f) (simp add: fsm_byte_def recv_header_def)
  have m: "(f_mem f)(f_len f := x, f_len f + 1 := 0) = mem_copy (f_mem f) (f_len f) [x, 0]"
    by (simp add: mem_copy_Cons)
  show ?case
  proof (cases "xs = []")
    case True
    then show ?thesis using b m by simp
  next
    case False
    have "mem_copy ((f_mem f)(f_len f := x, f_len f + 1 := 0)) (f_len f + 1) (xs @ [0]) = mem_copy (f_mem f) (f_len f) ((x # xs) @ [0])"
      using False by (auto simp: mem_copy_def fun_eq_iff nth_Cons')
    moreover have "fsm_bytes xs (fed x f) = (fed x f)\<lparr>f_mem := mem_copy (f_mem (fed x f)) (f_len (fed x f)) (xs @ [0]), f_len := f_len (fed x f) + length xs\<rparr>"
      using Cons.prems False by (intro Cons.IH) auto
    ultimately show ?thesis using b by simp
  qed
qed simp

lemma feed_line:
  assumes "10 \<notin> set xs" "f_state f = state_recv_header" "f_len f + length xs + 2 < f_max f" "xs \<noteq> []" "f_buf f = f_len f"
    "length (f_hd f) < MAX_HEADER" "length xs < 2 ^ 16"
  shows "fsm_bytes (xs @ [13, 10]) f = f\<lparr>f_mem := mem_copy (f_mem f) (f_len f) (xs @ [0, 0, 0]), f_len := f_len f + length xs + 2,
    f_hd := f_hd f @ [(f_len f, length xs)], f_buf := f_len f + length xs + 2\<rparr>"
proof -
  let ?g = "f\<lparr>f_mem := mem_copy (f_mem f) (f_len f) (xs @ [13, 0]), f_len := f_len f + length xs + 1\<rparr>"
  have g: "fsm_bytes (xs @ [13]) f = ?g" using feed_plain [of "xs @ [13]" f] assms by simp
  let ?h = "fed 10 ?g"
  have mem: "f_mem ?h = mem_copy (f_mem f) (f_len f) (xs @ [13, 10, 0])"
    by (auto simp: mem_copy_def fun_eq_iff nth_append nth_Cons' less_Suc_eq)
  have 13: "f_mem ?h (f_len ?h - 2) = 13" "f_mem ?h (f_len ?h - 1) = 10"
    unfolding mem by (simp_all add: mem_copy_def nth_append nth_Cons')
  have len: "f_len ?h > 2" using assms(4) by (cases xs) auto
  have lf: "recv_lf ?h = 2" by (rule recv_lf_crlf [OF len 13])
  have clr: "mem_copy (mem_copy (f_mem f) (f_len f) (xs @ [13, 10, 0])) (f_len f + length xs) [0, 0] = mem_copy (f_mem f) (f_len f) (xs @ [0, 0, 0])"
    by (auto simp: mem_copy_def fun_eq_iff nth_append nth_Cons' less_Suc_eq)
  have "fsm_byte 10 ?g = f\<lparr>f_mem := mem_copy (f_mem f) (f_len f) (xs @ [0, 0, 0]), f_len := f_len f + length xs + 2,
    f_hd := f_hd f @ [(f_len f, length xs)], f_buf := f_len f + length xs + 2\<rparr>"
    using assms lf mem clr by (cases f) (simp add: fsm_byte_def recv_header_def clear_lf_def end_line_def Let_def numeral_2_eq_2)
  then show ?thesis using g fsm_bytes_append [of "xs @ [13]" "[10]" f] by simp
qed

text \<open>Several lines, one behind the other, and what the buffer holds of them.\<close>

definition held :: "U8 list list \<Rightarrow> U8 list" where
  "held ls = concat (map (\<lambda>l. l @ [0, 0]) ls)"

fun places :: "nat \<Rightarrow> U8 list list \<Rightarrow> (nat \<times> nat) list" where
  "places p [] = []"
| "places p (l # ls) = (p, length l) # places (p + length l + 2) ls"

definition crlf_lines :: "U8 list list \<Rightarrow> U8 list" where
  "crlf_lines ls = concat (map (\<lambda>l. l @ [13, 10]) ls)"

definition good_line :: "U8 list \<Rightarrow> bool" where
  "good_line l = (l \<noteq> [] \<and> 0 \<notin> set l \<and> 10 \<notin> set l \<and> length l < 2 ^ 16)"

lemma held_Cons: "held (l # ls) = l @ [0, 0] @ held ls"
  by (simp add: held_def)

lemma held_Nil [simp]: "held [] = []"
  by (simp add: held_def)

lemma length_places [simp]: "length (places p ls) = length ls"
  by (induction ls arbitrary: p) simp_all

lemma length_crlf_lines [simp]: "length (crlf_lines ls) = length (held ls)"
  by (induction ls) (simp_all add: crlf_lines_def held_def)

lemma feed_lines:
  assumes "\<forall>l\<in>set ls. good_line l" "f_state f = state_recv_header" "f_len f + length (held ls) < f_max f"
    "f_buf f = f_len f" "length (f_hd f) + length ls \<le> MAX_HEADER" "ls \<noteq> []"
  shows "fsm_bytes (crlf_lines ls) f = f\<lparr>f_mem := mem_copy (f_mem f) (f_len f) (held ls @ [0]), f_len := f_len f + length (held ls),
    f_hd := f_hd f @ places (f_len f) ls, f_buf := f_len f + length (held ls)\<rparr>"
  using assms
proof (induction ls arbitrary: f)
  case (Cons l ls)
  let ?g = "f\<lparr>f_mem := mem_copy (f_mem f) (f_len f) (l @ [0, 0, 0]), f_len := f_len f + length l + 2,
    f_hd := f_hd f @ [(f_len f, length l)], f_buf := f_len f + length l + 2\<rparr>"
  have g: "fsm_bytes (l @ [13, 10]) f = ?g"
    using Cons.prems by (intro feed_line) (auto simp: good_line_def held_Cons)
  show ?case
  proof (cases "ls = []")
    case True
    then show ?thesis using g by (simp add: crlf_lines_def held_Cons)
  next
    case False
    have ih: "fsm_bytes (crlf_lines ls) ?g = ?g\<lparr>f_mem := mem_copy (f_mem ?g) (f_len ?g) (held ls @ [0]), f_len := f_len ?g + length (held ls),
      f_hd := f_hd ?g @ places (f_len ?g) ls, f_buf := f_len ?g + length (held ls)\<rparr>"
      using Cons.prems False by (intro Cons.IH) (auto simp: held_Cons)
    have "mem_copy (mem_copy (f_mem f) (f_len f) (l @ [0, 0, 0])) (f_len f + length l + 2) (held ls @ [0])
        = mem_copy (f_mem f) (f_len f) (held (l # ls) @ [0])"
      by (auto simp: mem_copy_def fun_eq_iff nth_append nth_Cons' held_Cons)
    moreover have "fsm_bytes (crlf_lines (l # ls)) f = fsm_bytes (crlf_lines ls) ?g"
      using g fsm_bytes_append [of "l @ [13, 10]" "crlf_lines ls" f] by (simp add: crlf_lines_def)
    ultimately show ?thesis using ih by (simp add: held_Cons add.assoc)
  qed
qed simp

lemma feed_empty_line:
  assumes "f_state f = state_recv_header" "f_len f + 2 < f_max f" "f_buf f = f_len f" "0 < f_len f"
  shows "fsm_bytes [13, 10] f = (case end_header (f\<lparr>f_mem := mem_copy (f_mem f) (f_len f) [0, 0, 0], f_len := f_len f + 2\<rparr>) of
    (s, f) \<Rightarrow> f\<lparr>f_state := s\<rparr>)"
proof -
  let ?g = "f\<lparr>f_mem := mem_copy (f_mem f) (f_len f) [13, 0], f_len := f_len f + 1\<rparr>"
  have g: "fsm_byte 13 f = ?g" using feed_plain [of "[13]" f] assms by simp
  let ?h = "fed 10 ?g"
  have 13: "f_mem ?h (f_len ?h - 2) = 13" "f_mem ?h (f_len ?h - 1) = 10" by (simp_all add: mem_copy_def)
  have lf: "recv_lf ?h = 2" using assms(4) by (intro recv_lf_crlf [OF _ 13]) simp
  have "clear_lf 2 ?h = f\<lparr>f_mem := mem_copy (f_mem f) (f_len f) [0, 0, 0], f_len := f_len f + 2\<rparr>"
    by (cases f) (auto simp: clear_lf_def mem_copy_def fun_eq_iff nth_Cons' numeral_2_eq_2)
  then have "fsm_byte 10 ?g = (case end_header (f\<lparr>f_mem := mem_copy (f_mem f) (f_len f) [0, 0, 0], f_len := f_len f + 2\<rparr>) of
    (s, f) \<Rightarrow> f\<lparr>f_state := s\<rparr>)"
    using assms lf by (simp add: fsm_byte_def recv_header_def Let_def)
  then show ?thesis using g by simp
qed

section \<open>Reading the header back\<close>

lemma str_at_held:
  assumes "bytes_at (f_mem f) p (length l + 1) = l @ [0]" "0 \<notin> set l" "p + length l + 1 \<le> f_max f"
  shows "str_at f p = l"
proof -
  have "f_max f - p = (length l + 1) + (f_max f - p - length l - 1)" using assms(3) by simp
  then have "bytes_at (f_mem f) p (f_max f - p) = l @ 0 # bytes_at (f_mem f) (p + (length l + 1)) (f_max f - p - length l - 1)"
    using assms(1) bytes_at_append [of "f_mem f" p "length l + 1"] by (metis append.assoc append_Cons append_Nil)
  moreover have "takeWhile (\<lambda>c. c \<noteq> 0) l = l" using assms(2) by (auto simp: takeWhile_eq_all_conv)
  ultimately show ?thesis using assms(2) by (auto simp: str_at_def takeWhile_append)
qed

lemma lines_held:
  assumes "bytes_at (f_mem f) p (length (held ls)) = held ls" "\<forall>l\<in>set ls. good_line l" "p + length (held ls) \<le> f_max f"
  shows "map (\<lambda>(q, hl). (str_at f q, hl)) (places p ls) = map (\<lambda>l. (l, length l)) ls"
  using assms
proof (induction ls arbitrary: p)
  case (Cons l ls)
  let ?n = "length l"
  have "bytes_at (f_mem f) p ((?n + 1) + (1 + length (held ls))) = (l @ [0]) @ 0 # held ls"
    using Cons.prems(1) by (simp add: held_Cons)
  then have "bytes_at (f_mem f) p (?n + 1) @ bytes_at (f_mem f) (p + (?n + 1)) (1 + length (held ls)) = (l @ [0]) @ 0 # held ls"
    unfolding bytes_at_append .
  then have a: "bytes_at (f_mem f) p (?n + 1) = l @ [0]" and b: "bytes_at (f_mem f) (p + (?n + 1)) (1 + length (held ls)) = 0 # held ls"
    using append_eq_append_conv [of "bytes_at (f_mem f) p (?n + 1)" "l @ [0]"] by simp_all
  have "bytes_at (f_mem f) (p + ?n + 2) (length (held ls)) = held ls"
    using b bytes_at_append [of "f_mem f" "p + (?n + 1)" 1 "length (held ls)"] by (simp add: bytes_at_def)
  moreover have "str_at f p = l" using a Cons.prems by (intro str_at_held) (auto simp: good_line_def held_Cons)
  ultimately show ?case using Cons by (simp add: held_Cons)
qed simp

lemma putrc_keeps [simp]:
  "f_mem (putrc f) = f_mem f" "f_hd (putrc f) = f_hd f" "f_max (putrc f) = f_max f" "f_len (putrc f) = f_len f"
  "f_buf (putrc f) = f_buf f" "f_state (putrc f) = f_state f"
  by (simp_all add: putrc_def Let_def split: prod.split)

section \<open>The body\<close>

lemma sint_small: "k < 2 ^ 31 \<Longrightarrow> sint (of_nat k :: U32) = int k"
  by (simp add: signed_of_nat signed_take_bit_int_eq_self)

lemma feed_body:
  assumes "f_state f = state_recv_body_nochunk" "f_len f + length b < f_max f" "f_max f < 2 ^ 31" "b \<noteq> []"
    "f_bd f + unat (f_bl f) = f_len f + length b"
  shows "fsm_bytes b f = f\<lparr>f_mem := mem_copy (f_mem f) (f_len f) (b @ [0]), f_len := f_len f + length b, f_state := state_recv_finish\<rparr>"
  using assms
proof (induction b arbitrary: f)
  case (Cons x xs)
  let ?f = "fed x f"
  have "int (f_bd f) + uint (f_bl f) - int (f_len f + 1) = int (length xs)"
    using arg_cong [OF Cons.prems(5), of int] by (simp only: of_nat_add uint_nat length_Cons of_nat_Suc)
  then have "body_diff (f_len ?f) ?f = sint (of_nat (length xs) :: 32 word)"
    by (simp only: body_diff_def fsm.simps) simp
  also have "\<dots> = int (length xs)"
    using Cons.prems(2,3) by (intro sint_small) simp
  finally have d: "body_diff (f_len ?f) ?f = int (length xs)" .
  have m: "(f_mem f)(f_len f := x, f_len f + 1 := 0) = mem_copy (f_mem f) (f_len f) [x, 0]"
    by (simp add: mem_copy_Cons)
  show ?case
  proof (cases "xs = []")
    case True
    then show ?thesis using Cons.prems d m by (cases f) (simp add: fsm_byte_def recv_body_nochunk_def)
  next
    case False
    then have b: "fsm_byte x f = fed x f" using Cons.prems d by (cases f) (simp add: fsm_byte_def recv_body_nochunk_def)
    have "mem_copy ((f_mem f)(f_len f := x, f_len f + 1 := 0)) (f_len f + 1) (xs @ [0]) = mem_copy (f_mem f) (f_len f) ((x # xs) @ [0])"
      using False by (auto simp: mem_copy_def fun_eq_iff nth_Cons')
    moreover have "fsm_bytes xs (fed x f) = (fed x f)\<lparr>f_mem := mem_copy (f_mem (fed x f)) (f_len (fed x f)) (xs @ [0]),
      f_len := f_len (fed x f) + length xs, f_state := state_recv_finish\<rparr>"
      using Cons.prems False by (intro Cons.IH) auto
    ultimately show ?thesis using b by simp
  qed
qed simp

section \<open>The status line\<close>

lemma rc_word_digits:
  assumes "32 \<notin> set xs" "length t + length xs < 256" "j + length xs \<le> hl"
  shows "rc_word hl j t (xs @ 32 # ys) = Some (t @ xs)"
  using assms by (induction xs arbitrary: j t) auto

lemma decimal_no_space: "32 \<notin> set (decimal n)" "0 \<notin> set (decimal n)"
  using decimal_digits [of 32 n] decimal_digits [of 0 n] by (auto simp: dec_digit_def)

lemma rc_number_decimal:
  assumes "length (decimal n) + 9 \<le> hl" "length (decimal n) < 256" "n < 2 ^ 15"
  shows "rc_number hl (32 # decimal n @ 32 # ys) = int n"
proof -
  obtain c ds where c: "decimal n = c # ds" using decimal_not_Nil by (cases "decimal n") blast+
  then have "c \<noteq> 32" using decimal_no_space(1) [of n] by auto
  then have "rc_skip hl 8 (32 # decimal n @ 32 # ys) = Some (9, decimal n @ 32 # ys)" using c by simp
  moreover have "rc_word hl 9 [] (decimal n @ 32 # ys) = Some (decimal n)"
    using rc_word_digits [of "decimal n" "[]" 9 hl ys] decimal_no_space(1) [of n] assms by simp
  moreover have "atoi (decimal n) 256 = Inr (of_nat n :: U32)"
    using num_parse_decimal(1) [of n 256, where 'a = 32] assms(2) by (simp add: atoi_def)
  moreover have "sint (of_nat n :: U32) = int n"
    using assms(3) by (simp add: sint_small)
  ultimately show ?thesis by (simp add: rc_number_def)
qed

fun fsm_appends :: "U8 list list \<Rightarrow> fsm \<Rightarrow> fsm option" where
  "fsm_appends [] f = Some f"
| "fsm_appends (b # bs) f = (case fsm_append b f of None \<Rightarrow> None | Some f \<Rightarrow> fsm_appends bs f)"

lemma fsm_appends_bytes: "[] \<notin> set bs \<Longrightarrow> fsm_appends bs f = Some (fsm_bytes (concat bs) f)"
  by (induction bs arbitrary: f) (auto simp: fsm_append_def fsm_bytes_append)

section \<open>A message with a content length\<close>

definition http_message :: "U8 list list \<Rightarrow> U8 list \<Rightarrow> U8 list" where
  "http_message ls body = crlf_lines ls @ [13, 10] @ body"

definition status_line :: "nat \<Rightarrow> U8 list \<Rightarrow> U8 list" where
  "status_line code reason = ascii ''HTTP/1.1 '' @ decimal code @ 32 # reason"

lemma field_value_length: "field_value 256 p = Some v \<Longrightarrow> length v < 256"
  by (cases v) (auto simp: field_value_def Let_def simp del: dropWhile_eq_Nil_conv split: if_splits)

lemma find_field_length: "find_field key 256 hs = Some v \<Longrightarrow> length v < 256"
  by (induction key "256 :: nat" hs rule: find_field.induct) (auto split: key_match.splits dest: field_value_length)

lemma putrc_status_line:
  assumes "f_hd f = (p, length (status_line code reason)) # hs" "str_at f p = status_line code reason" "code < 1000"
  shows "putrc f = f\<lparr>f_version := 11, f_res := int code\<rparr>"
proof -
  let ?l = "status_line code reason"
  have l: "?l = ascii ''HTTP/'' @ ascii ''1.1'' @ 32 # decimal code @ 32 # reason"
    by (simp add: status_line_def ascii_def)
  have s: "takeWhile (\<lambda>c. c \<noteq> 0) (bytes_at (f_mem f) p (f_max f - p)) = ?l" using assms(2) by (simp add: str_at_def)
  then have n: "length ?l \<le> f_max f - p" by (metis length_bytes_at length_takeWhile_le)
  have pre: "bytes_at (f_mem f) p (length ?l) = ?l"
    using takeWhile_eq_take [of "\<lambda>c. c \<noteq> 0" "bytes_at (f_mem f) p (f_max f - p)"] take_bytes_at [OF n] s by metis
  have v: "bytes_at (f_mem f) (p + 5) 3 = ascii ''1.1''"
    using arg_cong [OF pre, of "\<lambda>x. take 3 (drop 5 x)"] by (simp add: l drop_bytes_at take_bytes_at ascii_def)
  have z: "\<forall>c\<in>set (take 8 (bytes_at (f_mem f) p (f_max f - p))). c \<noteq> 0"
  proof
    fix c assume "c \<in> set (take 8 (bytes_at (f_mem f) p (f_max f - p)))"
    also have "take 8 (bytes_at (f_mem f) p (f_max f - p)) = take 8 ?l"
      using n pre by (simp add: take_bytes_at l ascii_def flip: take_bytes_at [of 8 "length ?l"])
    finally show "c \<noteq> 0" by (auto simp: l ascii_def)
  qed
  have "takeWhile (\<lambda>c. c \<noteq> 0) (drop 8 (bytes_at (f_mem f) p (f_max f - p))) = drop 8 ?l"
  proof -
    have "takeWhile (\<lambda>c. c \<noteq> 0) (take 8 (bytes_at (f_mem f) p (f_max f - p)) @ drop 8 (bytes_at (f_mem f) p (f_max f - p))) = ?l"
      using s by simp
    then show ?thesis using z n by (subst (asm) takeWhile_append2) (auto simp: append_eq_conv_conj l ascii_def)
  qed
  then have str: "str_at f (p + 8) = 32 # decimal code @ 32 # reason"
    by (simp add: str_at_def drop_bytes_at l ascii_def diff_diff_add)
  have d: "length (decimal code) \<le> 3"
    using assms(3) by (simp add: decimal.simps [of code] decimal.simps [of "code div 10"] decimal.simps [of "code div 10 div 10"])
  have "rc_number (length ?l) (32 # decimal code @ 32 # reason) = int code"
    using assms(3) d by (intro rc_number_decimal) (simp_all add: l ascii_def)
  moreover have "sint (of_int (int code) :: 16 word) = int code"
    using assms(3) by (simp add: signed_of_nat signed_take_bit_int_eq_self)
  ultimately show ?thesis using assms(1) v str by (simp add: putrc_def)
qed

lemma header_parsed:
  assumes ls: "ls = status_line code reason # hs" "\<forall>l\<in>set ls. good_line l" "length ls \<le> MAX_HEADER" "code < 1000"
    and size: "length (held ls) + 2 < f_max f"
    and cl: "find_field (ascii ''Content-Length'') 256 (map (\<lambda>l. (l, length l)) ls) = Some (decimal n)"
    and f: "f = fsm_reset chunk f0"
  obtains m where "fsm_bytes (crlf_lines ls @ [13, 10]) f = f\<lparr>f_mem := m, f_len := length (held ls) + 2, f_hd := places 0 ls,
      f_buf := length (held ls), f_version := 11, f_res := int code, f_bd := length (held ls) + 2, f_bl := of_nat n,
      f_state := state_recv_body_nochunk\<rparr>"
    and "bytes_at m 0 (length (held ls)) = held ls"
proof -
  let ?n = "length (held ls)"
  let ?g = "f\<lparr>f_mem := mem_copy (f_mem f) 0 (held ls @ [0]), f_len := ?n, f_hd := places 0 ls, f_buf := ?n\<rparr>"
  have start: "f_state f = state_recv_header" "f_len f = 0" "f_buf f = 0" "f_hd f = []" by (simp_all add: f fsm_reset_def)
  have g: "fsm_bytes (crlf_lines ls) f = ?g"
    using feed_lines [of ls f] ls(1) ls(2,3) size start by simp
  let ?m = "mem_copy (mem_copy (f_mem f) 0 (held ls @ [0])) ?n [0, 0, 0]"
  let ?h = "f\<lparr>f_mem := ?m, f_len := ?n + 2, f_hd := places 0 ls, f_buf := ?n\<rparr>"
  have pos: "0 < ?n" using ls(1) by (simp add: held_Cons)
  have "fsm_bytes [13, 10] ?g = (case end_header (?g\<lparr>f_mem := ?m, f_len := ?n + 2\<rparr>) of (s, f) \<Rightarrow> f\<lparr>f_state := s\<rparr>)"
    using feed_empty_line [of ?g] start pos size by simp
  also have "?g\<lparr>f_mem := ?m, f_len := ?n + 2\<rparr> = ?h" by (cases f) simp
  finally have h: "fsm_bytes [13, 10] ?g = (case end_header ?h of (s, f) \<Rightarrow> f\<lparr>f_state := s\<rparr>)" .
  have m: "bytes_at ?m 0 ?n = held ls"
    using bytes_at_mem_copy_below [of 0 ?n ?n] take_bytes_at [of ?n "?n + 1" "mem_copy (f_mem f) 0 (held ls @ [0])" 0]
      bytes_at_mem_copy [of "f_mem f" 0 "held ls @ [0]"] by simp
  have hl: "header_lines ?h = map (\<lambda>l. (l, length l)) ls"
    using lines_held [of ?h 0 ls] m ls(2) size by (simp add: header_lines_def)
  then have "str_at ?h 0 = status_line code reason" by (simp add: ls(1) header_lines_def)
  then have p: "putrc ?h = ?h\<lparr>f_version := 11, f_res := int code\<rparr>"
    using ls(1,4) by (intro putrc_status_line) simp_all
  have "header_lines (putrc ?h) = header_lines ?h" by (simp add: header_lines_def str_at_def)
  then have "hdrint (ascii ''Content-Length'') (putrc ?h) = Inr (of_nat n)"
    using cl hl find_field_length [OF cl] num_parse_decimal(1) [of n 256, where 'a = 32]
    by (simp add: hdrint_def hdrstr_def atoi_def)
  then have "end_header ?h = (state_recv_body_nochunk, (putrc ?h)\<lparr>f_bd := ?n + 2, f_bl := of_nat n\<rparr>)"
    by (simp add: end_header_def)
  then have "fsm_bytes (crlf_lines ls @ [13, 10]) f = ?h\<lparr>f_version := 11, f_res := int code, f_bd := ?n + 2, f_bl := of_nat n,
      f_state := state_recv_body_nochunk\<rparr>"
    using fsm_bytes_append [of "crlf_lines ls" "[13, 10]" f] g h p by simp
  then show ?thesis using m that [of ?m] by simp
qed

section \<open>Properties\<close>

text \<open>C26:
  A reply with a content length is parsed, in whatever segments it arrives: when its last byte has come the status code and
  version are those of the first line, every header line is found where the machine points to, and the body is the body sent.
  The machine is finished then, unless the body is empty: a reply of Content-Length 0 leaves it waiting for a body
  (\<^verbatim>\<open>http.h:608\<close>).  Provided: the status line is that of HTTP/1.1 with a code below 1000; there are at most \<open>MAX_HEADER\<close>, 64,
  header lines, none of them empty, with a null byte or line feed in it, or of 65536 bytes or more (\<open>good_line\<close>); the first field that \<open>hdrstr\<close> takes for Content-Length is the
  length of the body in decimal; the whole message is shorter than the buffer (\<open>chunk\<close>), which is below \<open>2 ^ 31\<close> bytes; and no
  segment is empty.
\<close>

theorem reply_is_parsed:
  assumes "ls = status_line code reason # hs" "\<forall>l\<in>set ls. good_line l" "length ls \<le> MAX_HEADER" "code < 1000"
    and "length (http_message ls body) < chunk" "chunk < 2 ^ 31"
    and "find_field (ascii ''Content-Length'') 256 (map (\<lambda>l. (l, length l)) ls) = Some (decimal (length body))"
    and "concat segs = http_message ls body" "[] \<notin> set segs"
  shows "\<exists>g. fsm_appends segs (fsm_reset chunk f0) = Some g
    \<and> f_state g = (if body = [] then state_recv_body_nochunk else state_recv_finish) \<and> f_version g = 11 \<and> f_res g = int code
    \<and> header_lines g = map (\<lambda>l. (l, length l)) ls \<and> f_bl g = of_nat (length body) \<and> bytes_at (f_mem g) (f_bd g) (length body) = body
    \<and> f_len g = length (http_message ls body)"
proof -
  let ?f = "fsm_reset chunk f0" and ?n = "length (held ls)" and ?k = "length body"
  have len: "length (http_message ls body) = ?n + 2 + ?k" by (simp add: http_message_def)
  have max: "f_max ?f = chunk" by (simp add: fsm_reset_def)
  obtain m where g: "fsm_bytes (crlf_lines ls @ [13, 10]) ?f = ?f\<lparr>f_mem := m, f_len := ?n + 2, f_hd := places 0 ls,
      f_buf := ?n, f_version := 11, f_res := int code, f_bd := ?n + 2, f_bl := of_nat ?k, f_state := state_recv_body_nochunk\<rparr>"
      (is "_ = ?g") and m: "bytes_at m 0 ?n = held ls"
    using header_parsed [OF assms(1-4) _ assms(7) refl, of chunk f0] assms(5) len max by auto
  let ?h = "?g\<lparr>f_mem := (if body = [] then m else mem_copy m (?n + 2) (body @ [0])), f_len := ?n + 2 + ?k,
      f_state := (if body = [] then state_recv_body_nochunk else state_recv_finish)\<rparr>"
  have "fsm_bytes body ?g = ?h"
  proof (cases "body = []")
    case True
    then show ?thesis by simp
  next
    case False
    have "unat (of_nat ?k :: U32) = ?k" using assms(5,6) len by (simp add: unsigned_of_nat take_bit_nat_eq_self)
    then show ?thesis using feed_body [of ?g body] assms(5,6) len max False by simp
  qed
  then have "fsm_appends segs ?f = Some ?h"
    using fsm_appends_bytes [OF assms(9), of ?f] assms(8) g fsm_bytes_append [of "crlf_lines ls @ [13, 10]" body ?f]
    by (simp add: http_message_def)
  moreover have "bytes_at (f_mem ?h) 0 ?n = held ls"
    using m bytes_at_mem_copy_below [of 0 ?n "?n + 2" m "body @ [0]"] by simp
  then have "header_lines ?h = map (\<lambda>l. (l, length l)) ls"
    using lines_held [of ?h 0 ls] assms(2,5) len max by (simp add: header_lines_def)
  moreover have "bytes_at (f_mem ?h) (?n + 2) ?k = body"
    using take_bytes_at [of ?k "?k + 1" "f_mem ?h" "?n + 2"] bytes_at_mem_copy [of m "?n + 2" "body @ [0]"]
    by (cases "body = []") simp_all
  ultimately show ?thesis using len by simp
qed

theorem reply_is_parsed_witness:
  "\<exists>g. fsm_appends [ascii ''HTTP/1.1 404 Not'', ascii '' Found'' @ [13], [10] @ ascii ''Content-length : 2'' @ [13, 10, 13], [10] @ ascii ''h'', ascii ''i'']
      (fsm_reset 1024 \<lparr>f_version = 0, f_hd = [], f_state = state_error, f_res = 0, f_bd = 0, f_bl = 0, f_max = 0, f_len = 0, f_buf = 0, f_mem = (\<lambda>_. 0)\<rparr>)
      = Some g \<and> f_state g = state_recv_finish \<and> f_res g = 404 \<and> bytes_at (f_mem g) (f_bd g) 2 = ascii ''hi''"
proof -
  let ?segs = "[ascii ''HTTP/1.1 404 Not'', ascii '' Found'' @ [13], [10] @ ascii ''Content-length : 2'' @ [13, 10, 13], [10] @ ascii ''h'', ascii ''i'']"
  let ?f = "\<lparr>f_version = 0, f_hd = [], f_state = state_error, f_res = 0, f_bd = 0, f_bl = 0, f_max = 0, f_len = 0, f_buf = 0, f_mem = (\<lambda>_. 0)\<rparr>"
  have d: "decimal 404 = [52, 48, 52]" "decimal 2 = [50]"
    by (simp_all add: decimal.simps [of 404] decimal.simps [of 40] decimal.simps [of 4] decimal.simps [of 2])
  have s: "status_line 404 (ascii ''Not Found'') = ascii ''HTTP/1.1 404 Not Found''"
    by (simp add: status_line_def d ascii_def)
  let ?ls = "[status_line 404 (ascii ''Not Found''), ascii ''Content-length : 2'']"
  have good: "\<forall>l\<in>set ?ls. good_line l" unfolding s by (simp add: good_line_def ascii_def)
  have msg: "concat ?segs = http_message ?ls (ascii ''hi'')"
    unfolding s by (simp add: http_message_def crlf_lines_def ascii_def)
  have len: "length (http_message ?ls (ascii ''hi'')) < 1024"
    unfolding s by (simp add: http_message_def crlf_lines_def ascii_def)
  have cl: "find_field (ascii ''Content-Length'') 256 (map (\<lambda>l. (l, length l)) ?ls) = Some (decimal (length (ascii ''hi'')))"
    unfolding s by (simp add: ascii_def to_lower_def field_value_def d flip: numeral_2_eq_2)
  have "[] \<notin> set ?segs" by (simp add: ascii_def)
  then show ?thesis
    using reply_is_parsed [OF refl good _ _ len _ cl msg, of ?f] by (simp add: MAX_HEADER_def ascii_def flip: numeral_2_eq_2) blast
qed

text \<open>A reply that announces an empty body is never finished: when the empty line behind the header has
  come the machine waits for the body, and the next byte, which begins the next reply, is an error.
\<close>

theorem empty_body_never_finishes:
  assumes "ls = status_line code reason # hs" "\<forall>l\<in>set ls. good_line l" "length ls \<le> MAX_HEADER" "code < 1000"
    and "length (http_message ls []) < chunk" "chunk < 2 ^ 31"
    and "find_field (ascii ''Content-Length'') 256 (map (\<lambda>l. (l, length l)) ls) = Some (ascii ''0'')"
  shows "f_state (fsm_bytes (http_message ls []) (fsm_reset chunk f0)) = state_recv_body_nochunk
    \<and> f_state (fsm_bytes (http_message ls [] @ [c]) (fsm_reset chunk f0)) = state_error"
proof -
  let ?f = "fsm_reset chunk f0" and ?n = "length (held ls)"
  have "ascii ''0'' = decimal 0" by (simp add: ascii_def decimal.simps [of 0])
  moreover have max: "f_max ?f = chunk" by (simp add: fsm_reset_def)
  moreover have "length (http_message ls []) = ?n + 2" by (simp add: http_message_def)
  ultimately obtain m where g: "fsm_bytes (crlf_lines ls @ [13, 10]) ?f = ?f\<lparr>f_mem := m, f_len := ?n + 2, f_hd := places 0 ls,
      f_buf := ?n, f_version := 11, f_res := int code, f_bd := ?n + 2, f_bl := of_nat 0, f_state := state_recv_body_nochunk\<rparr>" (is "_ = ?g")
    using header_parsed [OF assms(1-4) _ _ refl, of chunk f0 0] assms(5,7) by auto
  have "f_state (fsm_byte c ?g) = state_error"
    using assms(5,6) max by (simp add: fsm_byte_def recv_body_nochunk_def body_diff_def)
  then show ?thesis
    using g fsm_bytes_append [of "crlf_lines ls @ [13, 10]" "[c]" ?f] by (simp add: http_message_def)
qed

theorem empty_body_never_finishes_witness:
  "f_state (fsm_bytes (http_message [status_line 302 (ascii ''Found''), ascii ''Content-Length: 0''] [] @ [72])
    (fsm_reset 1024 \<lparr>f_version = 0, f_hd = [], f_state = state_error, f_res = 0, f_bd = 0, f_bl = 0, f_max = 0, f_len = 0, f_buf = 0, f_mem = (\<lambda>_. 0)\<rparr>))
    = state_error"
proof -
  have d: "decimal 302 = [51, 48, 50]"
    by (simp add: decimal.simps [of 302] decimal.simps [of 30] decimal.simps [of 3])
  have s: "status_line 302 (ascii ''Found'') = ascii ''HTTP/1.1 302 Found''"
    by (simp add: status_line_def d ascii_def)
  let ?ls = "[status_line 302 (ascii ''Found''), ascii ''Content-Length: 0'']"
  have good: "\<forall>l\<in>set ?ls. good_line l" unfolding s by (simp add: good_line_def ascii_def)
  have cl: "find_field (ascii ''Content-Length'') 256 (map (\<lambda>l. (l, length l)) ?ls) = Some (ascii ''0'')"
    unfolding s by (simp add: ascii_def to_lower_def field_value_def)
  have len: "length (http_message ?ls []) < 1024" unfolding s by (simp add: http_message_def crlf_lines_def ascii_def)
  show ?thesis
    using empty_body_never_finishes [OF refl good _ _ len _ cl, of _ 72] by (simp add: MAX_HEADER_def)
qed

end
