(* ===== verification/Timer.thy ===== *)
theory Timer
  imports ArrayClass "HOL-Library.Multiset"
begin

text \<open>
  \<^verbatim>\<open>src/src/handler/timerfd.h\<close> and \<^verbatim>\<open>timerfd.hpp\<close>: the task group of a timer, \<open>taskgrp\<close>, a wheel of
  lists of tasks over which the ticks of one system timer move.

  Tasks are elements of an \<open>array\<close>; a chain of tasks linked by \<open>m_next\<close> is the list of their numbers.
  The second member of a task is a union: its index at the start, or the flag of a removed task in bit 0 and
  15 bits of delay, as the compiler lays them out.  Durations are given as the result of
  \<open>get_duration_index\<close>, their number of ticks, which the code computes in floating point.  Callbacks work
  on the group and a state of their own; \<open>None\<close> is undefined behaviour.

  The lemmas: the wheel runs every task at the ticks that are due, and at no other.
\<close>

section \<open>State\<close>

record 'h task =
  tk_idx :: U16
  tk_data :: U16
  tk_h :: 'h

record 'h taskgrp =
  tg_sched :: "nat list list"
  tg_insert :: "nat list"
  tg_entries :: "'h task array"
  tg_processed :: bool
  tg_count :: U64
  tg_trigger_count :: U64
  tg_size :: nat

definition MAX_DELAY :: nat where
  "MAX_DELAY = 2 ^ 15 - 1"

definition MAX_INDEX :: int where
  "MAX_INDEX = 2 ^ 16 - 1"

definition MAX_COUNT :: U64 where
  "MAX_COUNT = 0x7FFFFFFFFFFFFFFF"

definition m_removed :: "'h task \<Rightarrow> bool" where
  "m_removed t = bit (tk_data t) 0"

definition m_delay :: "'h task \<Rightarrow> nat" where
  "m_delay t = unat (drop_bit 1 (tk_data t))"

definition m_start_idx :: "'h task \<Rightarrow> nat" where
  "m_start_idx t = unat (tk_data t)"

definition set_removed :: "bool \<Rightarrow> 'h task \<Rightarrow> 'h task" where
  "set_removed b t = t\<lparr>tk_data := (if b then set_bit 0 (tk_data t) else unset_bit 0 (tk_data t))\<rparr>"

definition set_delay :: "nat \<Rightarrow> 'h task \<Rightarrow> 'h task" where
  "set_delay d t = t\<lparr>tk_data := (tk_data t AND 1) OR push_bit 1 (of_nat d)\<rparr>"

section \<open>Operations\<close>

text \<open>\<open>init\<close>: \<open>ok\<close> and \<open>lk\<close> are whether the entries' memory and the lock are to be had.\<close>

definition tg_new :: "'h taskgrp" where
  "tg_new = \<lparr>tg_sched = [], tg_insert = [], tg_entries = ar_new, tg_processed = False, tg_count = 0,
     tg_trigger_count = 0, tg_size = 0\<rparr>"

definition tg_init :: "bool \<Rightarrow> bool \<Rightarrow> nat \<Rightarrow> nat \<Rightarrow> int \<Rightarrow> 'h taskgrp \<Rightarrow> ((nbr_error + bool) \<times> 'h taskgrp) option" where
  "tg_init ok lk max_task max_intv_sec res_us g =
     (if res_us \<le> 0 then Some (Inl EINVAL, g)
      else
        (let n = max_intv_sec * 1000 * 1000 div nat res_us;
             g = g\<lparr>tg_size := n, tg_sched := replicate n []\<rparr>
         in if \<not> lk then Some (Inl EPTHREAD, g)
            else map_option (\<lambda>(r, e). (Inr r, g\<lparr>tg_entries := e\<rparr>)) (ar_init ok max_task True (tg_entries g))))"

definition tg_task :: "'h taskgrp \<Rightarrow> nat \<Rightarrow> 'h task option" where
  "tg_task g t = ar_vals (tg_entries g) t"

definition upd_task :: "nat \<Rightarrow> ('h task \<Rightarrow> 'h task) \<Rightarrow> 'h taskgrp \<Rightarrow> 'h taskgrp option" where
  "upd_task t f g = (case tg_task g t of None \<Rightarrow> None
     | Some x \<Rightarrow> Some (g\<lparr>tg_entries := (tg_entries g)\<lparr>ar_vals := (ar_vals (tg_entries g))(t \<mapsto> f x)\<rparr>\<rparr>))"

definition remove_timer :: "nat \<Rightarrow> 'h taskgrp \<Rightarrow> 'h taskgrp option" where
  "remove_timer t g = map_option (\<lambda>e. g\<lparr>tg_entries := e\<rparr>) (ar_free (Some t) (tg_entries g))"

definition remove_timer_reserve :: "nat \<Rightarrow> 'h taskgrp \<Rightarrow> 'h taskgrp option" where
  "remove_timer_reserve t g = upd_task t (set_removed True) g"

definition create_task :: "bool \<Rightarrow> 'h \<Rightarrow> int \<Rightarrow> int \<Rightarrow> 'h taskgrp \<Rightarrow> (nat option \<times> 'h taskgrp) option" where
  "create_task ok h start intval g =
     (case ar_alloc ok \<lparr>tk_idx = 0, tk_data = of_int start, tk_h = h\<rparr> (tg_entries g) of None \<Rightarrow> None
      | Some (None, e) \<Rightarrow> Some (None, g\<lparr>tg_entries := e\<rparr>)
      | Some (Some t, e) \<Rightarrow>
          (let g = g\<lparr>tg_entries := e\<rparr> in
           if intval > MAX_INDEX \<or> intval < 1 then map_option (\<lambda>g. (None, g)) (remove_timer t g)
           else map_option (\<lambda>g. (Some t, g)) (upd_task t (\<lambda>x. x\<lparr>tk_idx := of_int intval\<rparr>) g)))"

definition add_timer :: "bool \<Rightarrow> bool \<Rightarrow> 'h \<Rightarrow> int \<Rightarrow> int \<Rightarrow> 'h taskgrp \<Rightarrow> (nat option \<times> 'h taskgrp) option" where
  "add_timer ok lk h start intval g =
     (case create_task ok h start intval g of None \<Rightarrow> None
      | Some (None, g) \<Rightarrow> Some (None, g)
      | Some (Some t, g) \<Rightarrow>
          if lk then Some (Some t, g\<lparr>tg_insert := t # tg_insert g\<rparr>)
          else map_option (\<lambda>g. (None, g)) (remove_timer t g))"

definition insert_timer_at :: "nat \<Rightarrow> nat \<Rightarrow> 'h taskgrp \<Rightarrow> 'h taskgrp option" where
  "insert_timer_at t index g =
     (if index < length (tg_sched g) then Some (g\<lparr>tg_sched := (tg_sched g)[index := t # tg_sched g ! index]\<rparr>) else None)"

definition insert_timer :: "nat \<Rightarrow> nat \<Rightarrow> nat \<Rightarrow> 'h taskgrp \<Rightarrow> (bool \<times> 'h taskgrp) option" where
  "insert_timer t index current g =
     (let tmp = index + current; delay = index div tg_size g; index = tmp mod tg_size g;
          (index, delay) = (if index = current then if delay > 0 then (index, delay - 1) else (index + 1, delay)
             else (index, delay))
      in if delay > MAX_DELAY then Some (False, g)
         else (case upd_task t (set_delay delay) g of None \<Rightarrow> None
           | Some g \<Rightarrow> map_option (\<lambda>g. (True, g)) (insert_timer_at t index g)))"

text \<open>A callback: what it returns, its own state and the group it leaves.\<close>

type_synonym ('h, 'w) timer_cb = "'h \<Rightarrow> nat \<Rightarrow> 'w \<times> 'h taskgrp \<Rightarrow> (int \<times> 'w \<times> 'h taskgrp) option"

text \<open>One task of the list that is due, and the list.\<close>

definition reschedule :: "nat \<Rightarrow> nat \<Rightarrow> nat \<Rightarrow> 'w \<times> 'h taskgrp \<Rightarrow> ('w \<times> 'h taskgrp) option" where
  "reschedule t index current s = (case s of (w, g) \<Rightarrow>
     (case insert_timer t index current g of None \<Rightarrow> None
      | Some (True, g) \<Rightarrow> Some (w, g)
      | Some (False, g) \<Rightarrow> map_option (Pair w) (remove_timer t g)))"

definition run_task :: "('h, 'w) timer_cb \<Rightarrow> nat \<Rightarrow> nat \<Rightarrow> 'w \<times> 'h taskgrp \<Rightarrow> ('w \<times> 'h taskgrp) option" where
  "run_task cb idx t s = (case s of (w, g) \<Rightarrow>
     (case tg_task g t of None \<Rightarrow> None
      | Some x \<Rightarrow>
          if m_removed x then map_option (Pair w) (remove_timer t g)
          else if m_delay x > 0 then
            (case upd_task t (set_delay (m_delay x - 1)) g of None \<Rightarrow> None
             | Some g \<Rightarrow> map_option (Pair w) (insert_timer_at t idx g))
          else
            (case cb (tk_h x) t (w, g) of None \<Rightarrow> None
             | Some (r, w, g) \<Rightarrow>
                 if r < 0 then map_option (Pair w) (remove_timer t g)
                 else (case tg_task g t of None \<Rightarrow> None | Some x \<Rightarrow> reschedule t (unat (tk_idx x)) idx (w, g)))))"

fun run_tasks :: "('h, 'w) timer_cb \<Rightarrow> nat \<Rightarrow> nat list \<Rightarrow> 'w \<times> 'h taskgrp \<Rightarrow> ('w \<times> 'h taskgrp) option" where
  "run_tasks cb idx [] s = Some s"
| "run_tasks cb idx (t # ts) s = (case run_task cb idx t s of None \<Rightarrow> None | Some s \<Rightarrow> run_tasks cb idx ts s)"

text \<open>The tasks that were added since the last tick.\<close>

definition start_task :: "nat \<Rightarrow> nat \<Rightarrow> 'w \<times> 'h taskgrp \<Rightarrow> ('w \<times> 'h taskgrp) option" where
  "start_task idx t s = (case s of (w, g) \<Rightarrow>
     (case tg_task g t of None \<Rightarrow> None
      | Some x \<Rightarrow> (case upd_task t (set_removed False) g of None \<Rightarrow> None
          | Some g \<Rightarrow> reschedule t (m_start_idx x) idx (w, g))))"

fun start_tasks :: "nat \<Rightarrow> nat list \<Rightarrow> 'w \<times> 'h taskgrp \<Rightarrow> ('w \<times> 'h taskgrp) option" where
  "start_tasks idx [] s = Some s"
| "start_tasks idx (t # ts) s = (case start_task idx t s of None \<Rightarrow> None | Some s \<Rightarrow> start_tasks idx ts s)"

definition tick :: "('h, 'w) timer_cb \<Rightarrow> bool \<Rightarrow> 'w \<times> 'h taskgrp \<Rightarrow> ('w \<times> 'h taskgrp) option" where
  "tick cb lk s = (case s of (w, g) \<Rightarrow>
     let idx = unat (tg_count g) mod tg_size g; t = tg_sched g ! idx in
     if tg_size g = 0 \<or> length (tg_sched g) \<le> idx then None
     else
       (case run_tasks cb idx t (w, g\<lparr>tg_sched := (tg_sched g)[idx := []], tg_count := tg_count g + 1\<rparr>) of None \<Rightarrow> None
        | Some (w, g) \<Rightarrow>
            if tg_insert g \<noteq> [] \<and> lk then start_tasks idx (tg_insert g) (w, g\<lparr>tg_insert := []\<rparr>) else Some (w, g)))"

text \<open>
  The loop of \<open>process_one_shot\<close> moves \<open>m_count\<close>, which no callback touches, to \<open>count\<close> one tick at a
  time; the number of turns is their difference.  \<open>lks\<close> says for every turn whether the lock is to be had.
\<close>

fun ticks :: "('h, 'w) timer_cb \<Rightarrow> (nat \<Rightarrow> bool) \<Rightarrow> nat \<Rightarrow> 'w \<times> 'h taskgrp \<Rightarrow> ('w \<times> 'h taskgrp) option" where
  "ticks cb lks 0 s = Some s"
| "ticks cb lks (Suc n) s = (case tick cb (lks n) s of None \<Rightarrow> None | Some s \<Rightarrow> ticks cb lks n s)"

definition wrap_counts :: "'h taskgrp \<Rightarrow> 'h taskgrp" where
  "wrap_counts g =
     (if tg_trigger_count g > MAX_COUNT
      then (let idx = of_nat (unat (tg_count g) mod tg_size g)
            in g\<lparr>tg_trigger_count := tg_trigger_count g + (idx - tg_count g), tg_count := idx\<rparr>)
      else g)"

definition process_one_shot :: "('h, 'w) timer_cb \<Rightarrow> (nat \<Rightarrow> bool) \<Rightarrow> U64 \<Rightarrow> 'w \<times> 'h taskgrp \<Rightarrow> ('w \<times> 'h taskgrp) option" where
  "process_one_shot cb lks cnt s = (case s of (w, g) \<Rightarrow>
     if tg_processed g then Some s
     else (case ticks cb lks (unat cnt - unat (tg_count g)) (w, g\<lparr>tg_processed := True\<rparr>) of None \<Rightarrow> None
       | Some (w, g) \<Rightarrow> Some (w, (wrap_counts g)\<lparr>tg_processed := False\<rparr>)))"

definition tg_fire :: "('h, 'w) timer_cb \<Rightarrow> (nat \<Rightarrow> bool) \<Rightarrow> U64 \<Rightarrow> 'w \<times> 'h taskgrp \<Rightarrow> ('w \<times> 'h taskgrp) option" where
  "tg_fire cb lks c s = (case s of (w, g) \<Rightarrow>
     (let g = g\<lparr>tg_trigger_count := tg_trigger_count g + c\<rparr> in process_one_shot cb lks (tg_trigger_count g) (w, g)))"

text \<open>\<open>fin\<close>.\<close>

definition tg_fin :: "'h taskgrp \<Rightarrow> 'h taskgrp option" where
  "tg_fin g =
     (let g = g\<lparr>tg_sched := [], tg_insert := []\<rparr> in
      if ar_initialized (tg_entries g) then map_option (\<lambda>e. g\<lparr>tg_entries := e\<rparr>) (ar_fin (tg_entries g)) else Some g)"

section \<open>The bits of a task\<close>

lemma bit_union: "bit ((a AND 1) OR push_bit 1 b) n \<longleftrightarrow> (n = 0 \<and> bit a 0) \<or> (1 \<le> n \<and> n < 16 \<and> bit b (n - 1))" for a b :: U16
proof -
  have "bit ((a AND 1) OR push_bit k b) n \<longleftrightarrow> (n = 0 \<and> bit a 0) \<or> (k \<le> n \<and> n < 16 \<and> bit b (n - k))" for k
    by (auto simp: bit_simps bit_1_iff)
  from this [of 1] show ?thesis .
qed

lemma data_set_delay: "tk_data (set_delay d x) = (tk_data x AND 1) OR push_bit 1 (of_nat d)"
  by (simp add: set_delay_def)

lemma removed_set_delay [simp]: "m_removed (set_delay d x) = m_removed x"
  unfolding m_removed_def data_set_delay bit_union by simp

lemma task_bits [simp]:
  "\<not> m_removed (set_removed False x)" "m_removed (set_removed True x)"
  "tk_idx (set_delay d x) = tk_idx x" "tk_idx (set_removed b x) = tk_idx x"
  "tk_h (set_delay d x) = tk_h x" "tk_h (set_removed b x) = tk_h x"
  by (simp_all add: m_removed_def set_delay_def set_removed_def bit_simps)

lemma delay_set [simp]: "d < 2 ^ 15 \<Longrightarrow> m_delay (set_delay d x) = d"
proof -
  assume d: "d < 2 ^ 15"
  have "\<not> bit d 15" using d by (metis bit_take_bit_iff less_irrefl take_bit_nat_eq_self)
  then have "n < 15" if "n < 16" "bit d n" for n using that by (cases "n = 15") auto
  then have "drop_bit 1 (tk_data (set_delay d x)) = of_nat d"
    unfolding data_set_delay
    by (intro bit_word_eqI, unfold bit_drop_bit_eq comp_def, unfold bit_union) (auto simp: bit_simps less_Suc_eq)
  then show ?thesis using d by (simp add: m_delay_def unsigned_of_nat take_bit_nat_eq_self del: drop_bit_Suc)
qed

section \<open>The tasks in memory\<close>

definition holds :: "'h taskgrp \<Rightarrow> nat set \<Rightarrow> bool" where
  "holds g T \<longleftrightarrow> (\<exists>es. ar_holds (tg_entries g) es \<and> set es = T)"

definition same_clock :: "'h taskgrp \<Rightarrow> 'h taskgrp \<Rightarrow> bool" where
  "same_clock g g' \<longleftrightarrow> tg_insert g' = tg_insert g \<and> tg_count g' = tg_count g \<and> tg_size g' = tg_size g
     \<and> tg_processed g' = tg_processed g \<and> tg_trigger_count g' = tg_trigger_count g"

lemma holds_task: "holds g T \<Longrightarrow> t \<in> T \<Longrightarrow> \<exists>x. tg_task g t = Some x"
  by (auto simp: holds_def ar_holds_def tg_task_def)

lemma holds_entries: "tg_entries g' = tg_entries g \<Longrightarrow> holds g' T = holds g T"
  by (simp add: holds_def)

lemma upd_task_runs:
  assumes "holds g T" "tg_task g t = Some x"
  obtains e where "upd_task t f g = Some (g\<lparr>tg_entries := e\<rparr>)" "holds (g\<lparr>tg_entries := e\<rparr>) T"
    "ar_vals e = (ar_vals (tg_entries g))(t \<mapsto> f x)"
proof -
  let ?e = "(tg_entries g)\<lparr>ar_vals := (ar_vals (tg_entries g))(t \<mapsto> f x)\<rparr>"
  obtain es where es: "ar_holds (tg_entries g) es" "set es = T" using assms(1) by (auto simp: holds_def)
  then have "ar_holds ?e es" using assms(2) by (auto simp: ar_holds_def tg_task_def)
  then have "holds (g\<lparr>tg_entries := ?e\<rparr>) T" using es(2) by (auto simp: holds_def)
  with assms(2) show ?thesis by (intro that [of ?e]) (simp_all add: upd_task_def)
qed

lemma remove_timer_runs:
  assumes "holds g (insert t T)" "t \<notin> T"
  obtains e where "remove_timer t g = Some (g\<lparr>tg_entries := e\<rparr>)" "holds (g\<lparr>tg_entries := e\<rparr>) T"
    "ar_vals e = (ar_vals (tg_entries g))(t := None)"
proof -
  obtain es where es: "ar_holds (tg_entries g) es" "set es = insert t T" using assms(1) by (auto simp: holds_def)
  then obtain as bs where l: "es = as @ t # bs" by (metis insertI1 split_list)
  have "distinct es" by (rule ar_holds_distinct [OF es(1)])
  then have "set (as @ bs) = T" using es(2) l assms(2) by auto
  moreover obtain e where e: "ar_free (Some t) (tg_entries g) = Some e" "ar_holds e (as @ bs)" "ar_vals e = (ar_vals (tg_entries g))(t := None)"
    using ar_free_holds es(1) l by blast
  ultimately have "holds (g\<lparr>tg_entries := e\<rparr>) T" by (auto simp: holds_def)
  with e show ?thesis by (intro that [of e]) (simp_all add: remove_timer_def)
qed

section \<open>The wheel\<close>

text \<open>
  \<open>D\<close> says at which count a task is due, \<open>per\<close> what its interval is.  A task that is due at \<open>d\<close> lies in
  the list of \<open>d mod n\<close>, and its delay is the number of full turns until then.
\<close>

definition due_at :: "nat \<Rightarrow> nat \<Rightarrow> nat \<Rightarrow> nat \<Rightarrow> 'h task \<Rightarrow> bool" where
  "due_at n c s d x \<longleftrightarrow> \<not> m_removed x \<and> c \<le> d \<and> d mod n = s \<and> m_delay x = (d - c) div n"

definition listed :: "'h taskgrp \<Rightarrow> nat list \<Rightarrow> nat list" where
  "listed g hand = concat (tg_sched g) @ tg_insert g @ hand"

definition wheel :: "(nat \<Rightarrow> nat) \<Rightarrow> nat \<Rightarrow> 'h taskgrp \<Rightarrow> nat list \<Rightarrow> (nat \<rightharpoonup> nat) \<Rightarrow> bool" where
  "wheel per c g hand D \<longleftrightarrow>
     2 \<le> tg_size g \<and> length (tg_sched g) = tg_size g \<and> holds g (set (listed g hand)) \<and> distinct (listed g hand)
     \<and> (\<forall>t x. t \<in> set (listed g hand) \<longrightarrow> tg_task g t = Some x \<longrightarrow> unat (tk_idx x) = per t \<and> 0 < per t)
     \<and> (\<forall>s t. s < tg_size g \<longrightarrow> t \<in> set (tg_sched g ! s) \<longrightarrow> (\<exists>d x. D t = Some d \<and> tg_task g t = Some x \<and> due_at (tg_size g) c s d x))
     \<and> dom D = set (concat (tg_sched g))"

lemma wheelI:
  assumes "2 \<le> tg_size g" "length (tg_sched g) = tg_size g" "holds g (set (listed g hand))" "distinct (listed g hand)"
    and "\<And>t x. t \<in> set (listed g hand) \<Longrightarrow> tg_task g t = Some x \<Longrightarrow> unat (tk_idx x) = per t \<and> 0 < per t"
    and "\<And>s t. s < tg_size g \<Longrightarrow> t \<in> set (tg_sched g ! s) \<Longrightarrow> \<exists>d x. D t = Some d \<and> tg_task g t = Some x \<and> due_at (tg_size g) c s d x"
    and "dom D = set (concat (tg_sched g))"
  shows "wheel per c g hand D"
  using assms unfolding wheel_def by blast

lemma wheelD:
  assumes "wheel per c g hand D"
  shows "2 \<le> tg_size g" "length (tg_sched g) = tg_size g" "holds g (set (listed g hand))" "distinct (listed g hand)"
    and "t \<in> set (listed g hand) \<Longrightarrow> tg_task g t = Some x \<Longrightarrow> unat (tk_idx x) = per t \<and> 0 < per t"
    and "s < tg_size g \<Longrightarrow> t \<in> set (tg_sched g ! s) \<Longrightarrow> \<exists>d x. D t = Some d \<and> tg_task g t = Some x \<and> due_at (tg_size g) c s d x"
    and "dom D = set (concat (tg_sched g))"
  using assms unfolding wheel_def by blast+

lemma mset_push: "i < length S \<Longrightarrow> mset (concat (S[i := t # S ! i])) = add_mset t (mset (concat S))"
  by (induction S arbitrary: i) (auto split: nat.split)

lemma mset_clear: "i < length S \<Longrightarrow> mset (concat (S[i := []])) + mset (S ! i) = mset (concat S)"
  by (induction S arbitrary: i) (auto split: nat.split)

lemma in_slot: "t \<in> set (concat S) \<longleftrightarrow> (\<exists>i < length S. t \<in> set (S ! i))"
  by simp (metis in_set_conv_nth)

lemma task_entries: "tg_task (g\<lparr>tg_entries := e\<rparr>) = ar_vals e"
  by (simp add: tg_task_def fun_eq_iff)

lemma wheel_mset:
  assumes "mset (listed g' hand') = mset (listed g hand)"
  shows "set (listed g' hand') = set (listed g hand)" "distinct (listed g' hand') \<longleftrightarrow> distinct (listed g hand)"
  using mset_eq_setD [OF assms] mset_eq_imp_distinct_iff [OF assms] by blast+

text \<open>A task in hand goes into a list.\<close>

lemma wheel_put:
  assumes w: "wheel per c g (t # hand) D" and x: "tg_task g t = Some x" and s: "s < tg_size g"
    and f: "due_at (tg_size g) c s d (f x)" "tk_idx (f x) = tk_idx x"
  shows "\<exists>g1 g2. upd_task t f g = Some g1 \<and> insert_timer_at t s g1 = Some g2 \<and> wheel per c g2 hand (D(t \<mapsto> d))
    \<and> same_clock g g2 \<and> (\<forall>u. u \<noteq> t \<longrightarrow> tg_task g2 u = tg_task g u)"
proof -
  let ?L = "set (listed g (t # hand))"
  have len: "length (tg_sched g) = tg_size g" using w unfolding wheel_def by blast
  obtain e where e: "upd_task t f g = Some (g\<lparr>tg_entries := e\<rparr>)" "holds (g\<lparr>tg_entries := e\<rparr>) ?L"
    "ar_vals e = (ar_vals (tg_entries g))(t \<mapsto> f x)"
    using upd_task_runs [OF _ x, of ?L f] w unfolding wheel_def by blast
  let ?g = "g\<lparr>tg_entries := e, tg_sched := (tg_sched g)[s := t # tg_sched g ! s]\<rparr>"
  have at: "insert_timer_at t s (g\<lparr>tg_entries := e\<rparr>) = Some ?g" using s len by (simp add: insert_timer_at_def)
  have task: "tg_task ?g = (tg_task g)(t \<mapsto> f x)" using e(3) by (simp add: tg_task_def fun_eq_iff)
  have ms: "mset (listed ?g hand) = mset (listed g (t # hand))"
    using mset_push [of s "tg_sched g" t] s len by (simp add: listed_def)
  have out: "t \<notin> set (tg_sched g ! u)" if "u < tg_size g" for u
    using wheelD(4) [OF w] that len in_slot [of t "tg_sched g"] by (auto simp: listed_def)
  have "wheel per c ?g hand (D(t \<mapsto> d))"
  proof (rule wheelI, unfold wheel_mset [OF ms] task)
    show "holds ?g ?L" using e(2) holds_entries [of ?g "g\<lparr>tg_entries := e\<rparr>"] by simp
    show "unat (tk_idx y) = per u \<and> 0 < per u" if "u \<in> ?L" "((tg_task g)(t \<mapsto> f x)) u = Some y" for u y
      using wheelD(5) [OF w, of u] that x f(2) by (cases "u = t") auto
    show "\<exists>d' y. (D(t \<mapsto> d)) u = Some d' \<and> ((tg_task g)(t \<mapsto> f x)) u = Some y \<and> due_at (tg_size ?g) c i d' y"
      if "i < tg_size ?g" "u \<in> set (tg_sched ?g ! i)" for i u
      using wheelD(6) [OF w, of i u] that f(1) out len s by (cases "u = t"; cases "i = s") auto
    show "dom (D(t \<mapsto> d)) = set (concat (tg_sched ?g))"
      using wheelD(7) [OF w] arg_cong [OF mset_push [of s "tg_sched g" t], of set_mset] s len by simp
  qed (use wheelD(1,2,4) [OF w] in auto)
  moreover have "same_clock g ?g" by (simp add: same_clock_def)
  ultimately show ?thesis using e(1) at task by auto
qed

lemma wheel_drop:
  assumes w: "wheel per c g (t # hand) D"
  obtains g' where "remove_timer t g = Some g'" "wheel per c g' hand D" "same_clock g g'" "\<forall>u. u \<noteq> t \<longrightarrow> tg_task g' u = tg_task g u"
proof -
  have t: "t \<notin> set (listed g hand)" using w unfolding wheel_def listed_def by auto
  have "holds g (insert t (set (listed g hand)))" using w unfolding wheel_def listed_def by simp
  from remove_timer_runs [OF this t] obtain e where e: "remove_timer t g = Some (g\<lparr>tg_entries := e\<rparr>)"
    "holds (g\<lparr>tg_entries := e\<rparr>) (set (listed g hand))" "ar_vals e = (ar_vals (tg_entries g))(t := None)" .
  let ?g = "g\<lparr>tg_entries := e\<rparr>"
  have task: "tg_task ?g = (tg_task g)(t := None)" using e(3) by (simp add: tg_task_def fun_eq_iff)
  have l: "listed ?g hand = listed g hand" by (simp add: listed_def)
  have out: "t \<notin> set (tg_sched g ! u)" if "u < tg_size g" for u
    using that t in_slot [of t "tg_sched g"] wheelD(2) [OF w] by (auto simp: listed_def)
  have "wheel per c ?g hand D"
  proof (rule wheelI, unfold l task)
    show "unat (tk_idx y) = per u \<and> 0 < per u" if "u \<in> set (listed g hand)" "((tg_task g)(t := None)) u = Some y" for u y
      using wheelD(5) [OF w, of u] that by (auto simp: listed_def split: if_splits)
    show "\<exists>d y. D u = Some d \<and> ((tg_task g)(t := None)) u = Some y \<and> due_at (tg_size ?g) c i d y"
      if "i < tg_size ?g" "u \<in> set (tg_sched ?g ! i)" for i u
      using wheelD(6) [OF w, of i u] that out by (cases "u = t") auto
  qed (use wheelD [OF w] e(2) in \<open>auto simp: listed_def\<close>)
  then show ?thesis using that e(1) task by (simp add: same_clock_def)
qed

text \<open>The list of the current count is taken off the wheel, and the count moves on.\<close>

lemma due_next:
  assumes "2 \<le> n" "due_at n c s d x" "s \<noteq> c mod n"
  shows "due_at n (c + 1) s d x"
proof -
  have "d \<noteq> c" and m: "(d - c) mod n \<noteq> 0" using assms by (auto simp: due_at_def mod_eq_dvd_iff_nat dvd_eq_mod_eq_0)
  then have "c < d" using assms(2) by (simp add: due_at_def)
  moreover from this have "d - c = Suc (d - (c + 1))" by simp
  then have "(d - c) div n = (d - (c + 1)) div n" using m by (metis div_Suc)
  ultimately show ?thesis using assms(2) by (simp add: due_at_def)
qed

lemma due_now:
  assumes "2 \<le> n" "due_at n c (c mod n) d x"
  shows "m_delay x = 0 \<longleftrightarrow> d = c" "m_delay x > 0 \<Longrightarrow> m_delay x < 2 ^ 15 \<Longrightarrow> due_at n (c + 1) (c mod n) d (set_delay (m_delay x - 1) x)"
proof -
  have m: "(d - c) mod n = 0" "c \<le> d" using assms(2) by (auto simp: due_at_def mod_eq_dvd_iff_nat)
  then have e: "d - c = n * m_delay x" using assms(2) by (auto simp: due_at_def mult.commute)
  show "m_delay x = 0 \<longleftrightarrow> d = c" using e m(2) assms(1) by auto
  assume p: "m_delay x > 0" and l: "m_delay x < 2 ^ 15"
  then have S: "d - c = Suc (d - (c + 1))" using e m(2) assms(1) by (cases "d = c") auto
  then have "(d - (c + 1)) div n = m_delay x - 1"
    using m(1) assms(2) div_Suc [of "d - (c + 1)" n] by (simp add: due_at_def flip: S)
  then show "due_at n (c + 1) (c mod n) d (set_delay (m_delay x - 1) x)"
    using assms(2) S l by (simp add: due_at_def)
qed

lemma wheel_turn:
  assumes w: "wheel per c g [] D" and s: "s = c mod tg_size g"
  shows "wheel per (c + 1) (g\<lparr>tg_sched := (tg_sched g)[s := []], tg_count := k\<rparr>) (tg_sched g ! s) (D |` (- set (tg_sched g ! s)))"
proof -
  let ?g = "g\<lparr>tg_sched := (tg_sched g)[s := []], tg_count := k\<rparr>" and ?ts = "tg_sched g ! s"
  have n: "2 \<le> tg_size g" "length (tg_sched g) = tg_size g" "s < tg_size g" using wheelD(1,2) [OF w] s by auto
  have ms: "mset (listed ?g ?ts) = mset (listed g [])" using mset_clear [of s "tg_sched g"] n by (simp add: listed_def ac_simps)
  have task: "tg_task ?g = tg_task g" by (simp add: tg_task_def fun_eq_iff)
  have "distinct (concat (tg_sched ?g) @ ?ts)"
    using wheel_mset(2) [OF ms] wheelD(4) [OF w] by (auto simp: listed_def)
  then have out: "u \<notin> set ?ts" if "i < tg_size g" "u \<in> set (tg_sched ?g ! i)" for i u
    using that n in_slot [of u "tg_sched ?g"] by auto
  show ?thesis
  proof (rule wheelI, unfold wheel_mset [OF ms] task)
    show "holds ?g (set (listed g []))" using wheelD(3) [OF w] holds_entries [of ?g g] by simp
    show "\<exists>d x. (D |` (- set ?ts)) u = Some d \<and> tg_task g u = Some x \<and> due_at (tg_size ?g) (c + 1) i d x"
      if "i < tg_size ?g" "u \<in> set (tg_sched ?g ! i)" for i u
    proof -
      have "i \<noteq> s" using that n by (cases "i = s") auto
      then show ?thesis using wheelD(6) [OF w, of i u] that out [of i u] due_next [OF n(1)] s n by (auto simp: nth_list_update)
    qed
    have "set (concat (tg_sched ?g)) \<union> set ?ts = set (concat (tg_sched g))"
      using arg_cong [OF mset_clear [of s "tg_sched g"], of set_mset] n by simp
    moreover have "set (concat (tg_sched ?g)) \<inter> set ?ts = {}" using \<open>distinct (concat (tg_sched ?g) @ ?ts)\<close> by simp
    ultimately show "dom (D |` (- set ?ts)) = set (concat (tg_sched ?g))" using wheelD(7) [OF w] by auto
  qed (use wheelD [OF w] n in auto)
qed

lemma wheel_take_inserted:
  assumes w: "wheel per c g [] D"
  shows "wheel per c (g\<lparr>tg_insert := []\<rparr>) (tg_insert g) D"
proof -
  let ?g = "g\<lparr>tg_insert := []\<rparr>"
  have l: "listed ?g (tg_insert g) = listed g []" by (simp add: listed_def)
  have task: "tg_task ?g = tg_task g" by (simp add: tg_task_def fun_eq_iff)
  show ?thesis
    by (rule wheelI, unfold l task) (use wheelD [OF w] holds_entries [of ?g g] in auto)
qed

text \<open>A task is put \<open>k\<close> ticks ahead.\<close>

lemma insert_timer_cases:
  assumes n: "2 \<le> tg_size g" and k: "0 < k" "k < 2 ^ 16"
  shows "insert_timer t k (c mod tg_size g) g =
    (case upd_task t (set_delay ((k - 1) div tg_size g)) g of None \<Rightarrow> None
     | Some g' \<Rightarrow> map_option (\<lambda>g. (True, g)) (insert_timer_at t ((c + k) mod tg_size g) g'))"
    and "(k - 1) div tg_size g < 2 ^ 15"
proof -
  let ?n = "tg_size g"
  have "(k - 1) div ?n \<le> (k - 1) div 2" using n by (intro div_le_mono2) auto
  then show d: "(k - 1) div ?n < 2 ^ 15" using k by simp
  have slot: "(k + c mod ?n) mod ?n = (c + k) mod ?n" by (simp add: add.commute mod_add_right_eq)
  have S: "Suc (k - 1) = k" using k by simp
  have dv: "k div ?n = (if k mod ?n = 0 then Suc ((k - 1) div ?n) else (k - 1) div ?n)" using div_Suc [of "k - 1" ?n] S by simp
  have "(c + k) mod ?n = c mod ?n \<longleftrightarrow> k mod ?n = 0"
    using mod_eq_dvd_iff_nat [of c "c + k" ?n] by auto
  then show "insert_timer t k (c mod ?n) g = (case upd_task t (set_delay ((k - 1) div ?n)) g of None \<Rightarrow> None
     | Some g' \<Rightarrow> map_option (\<lambda>g. (True, g)) (insert_timer_at t ((c + k) mod ?n) g'))"
    using d dv unfolding insert_timer_def Let_def slot by (auto simp: MAX_DELAY_def)
qed

lemma wheel_reschedule:
  assumes w: "wheel per (c + 1) g (t # hand) D" and x: "tg_task g t = Some x" "\<not> m_removed x" and k: "0 < k" "k < 2 ^ 16"
  obtains g' where "reschedule t k (c mod tg_size g) (w, g) = Some (w, g')" "wheel per (c + 1) g' hand (D(t \<mapsto> c + k))"
    "same_clock g g'" "\<forall>u. u \<noteq> t \<longrightarrow> tg_task g' u = tg_task g u"
proof -
  let ?n = "tg_size g" and ?f = "set_delay ((k - 1) div tg_size g)"
  have n: "2 \<le> ?n" using wheelD(1) [OF w] .
  have "due_at ?n (c + 1) ((c + k) mod ?n) (c + k) (?f x)"
    using insert_timer_cases(2) [OF n k] x(2) k by (simp add: due_at_def)
  from wheel_put [where f = ?f, OF w x(1) _ this] n obtain g1 g2 where "upd_task t ?f g = Some g1" "insert_timer_at t ((c + k) mod ?n) g1 = Some g2"
    "wheel per (c + 1) g2 hand (D(t \<mapsto> c + k))" "same_clock g g2" "\<forall>u. u \<noteq> t \<longrightarrow> tg_task g2 u = tg_task g u" by auto
  then show ?thesis by (intro that) (auto simp: reschedule_def insert_timer_cases(1) [OF n k])
qed

section \<open>Running\<close>

text \<open>A callback that notes the count and its task, and leaves the group alone.\<close>

definition note_cb :: "(nat \<Rightarrow> nat \<Rightarrow> int) \<Rightarrow> ('h, (nat \<times> nat) list) timer_cb" where
  "note_cb ret h t s = (case s of (w, g) \<Rightarrow>
     (let c = unat (tg_count g) - 1 in Some (ret t c, w @ [(c, t)], g)))"

text \<open>What is due after the tick at \<open>c\<close>.\<close>

definition next_due :: "(nat \<Rightarrow> nat \<Rightarrow> int) \<Rightarrow> (nat \<Rightarrow> nat) \<Rightarrow> nat \<Rightarrow> (nat \<rightharpoonup> nat) \<Rightarrow> (nat \<rightharpoonup> nat)" where
  "next_due ret per c D t = (if D t = Some c then if ret t c < 0 then None else Some (c + per t) else D t)"

lemma delay_bound: "m_delay x < 2 ^ 15"
proof -
  have "unat (tk_data x) < 2 ^ 16" using unsigned_less [of "tk_data x"] by simp
  then show ?thesis unfolding m_delay_def unsigned_drop_bit_eq by (simp add: drop_bit_Suc take_bit_nat_eq_self)
qed

lemma run_task_due:
  assumes w: "wheel per (c + 1) g (t # hand) E" and x: "tg_task g t = Some x" "due_at (tg_size g) c (c mod tg_size g) d x"
    and c: "unat (tg_count g) = c + 1"
  obtains g' where "run_task (note_cb ret) (c mod tg_size g) t (l, g) = Some (l @ (if d = c then [(c, t)] else []), g')"
    "wheel per (c + 1) g' hand (E(t := next_due ret per c [t \<mapsto> d] t))" "same_clock g g'"
    "\<forall>u. u \<noteq> t \<longrightarrow> tg_task g' u = tg_task g u"
proof -
  let ?n = "tg_size g"
  have n: "2 \<le> ?n" using wheelD(1) [OF w] .
  have r: "\<not> m_removed x" using x(2) by (simp add: due_at_def)
  have per: "unat (tk_idx x) = per t" "0 < per t" using wheelD(5) [OF w, of t x] x(1) by (simp_all add: listed_def)
  have out: "E(t := None) = E" using wheelD(4,7) [OF w] by (auto simp: listed_def fun_eq_iff)
  show ?thesis
  proof (cases "d = c")
    case False
    then have m: "0 < m_delay x" using due_now(1) [OF n x(2)] by simp
    let ?f = "set_delay (m_delay x - 1)"
    have "due_at ?n (c + 1) (c mod ?n) d (?f x)" using due_now(2) [OF n x(2) m delay_bound] .
    from wheel_put [where f = ?f, OF w x(1) _ this] n obtain g1 g2 where "upd_task t ?f g = Some g1"
      "insert_timer_at t (c mod ?n) g1 = Some g2" "wheel per (c + 1) g2 hand (E(t \<mapsto> d))" "same_clock g g2"
      "\<forall>u. u \<noteq> t \<longrightarrow> tg_task g2 u = tg_task g u" by auto
    then show ?thesis using False r m x(1) by (intro that [of g2]) (simp_all add: run_task_def next_due_def)
  next
    case True
    then have m: "m_delay x = 0" using due_now(1) [OF n x(2)] by simp
    show ?thesis
    proof (cases "ret t c < 0")
      case neg: True
      obtain g' where "remove_timer t g = Some g'" "wheel per (c + 1) g' hand E" "same_clock g g'"
        "\<forall>u. u \<noteq> t \<longrightarrow> tg_task g' u = tg_task g u" using wheel_drop [OF w] by blast
      then show ?thesis using True neg r m x(1) c out
        by (intro that [of g']) (simp_all add: run_task_def next_due_def note_cb_def)
    next
      case False
      have "unat (tk_idx x) < 2 ^ LENGTH(16)" by (rule unsigned_less)
      then have k: "per t < 2 ^ 16" using per by simp
      from wheel_reschedule [OF w x(1) r per(2) k, of "l @ [(c, t)]"]
      obtain g' where "reschedule t (per t) (c mod ?n) (l @ [(c, t)], g) = Some (l @ [(c, t)], g')"
        "wheel per (c + 1) g' hand (E(t \<mapsto> c + per t))" "same_clock g g'" "\<forall>u. u \<noteq> t \<longrightarrow> tg_task g' u = tg_task g u" .
      then show ?thesis using True False r m x(1) c per
        by (intro that [of g']) (simp_all add: run_task_def next_due_def note_cb_def)
    qed
  qed
qed

lemma same_clock_trans: "same_clock g g' \<Longrightarrow> same_clock g' g'' \<Longrightarrow> same_clock g g''"
  by (simp add: same_clock_def)

lemma run_tasks_due:
  assumes "wheel per (c + 1) g (ts @ hand) E" "unat (tg_count g) = c + 1"
    and "\<forall>t \<in> set ts. \<exists>d x. D t = Some d \<and> tg_task g t = Some x \<and> due_at (tg_size g) c (c mod tg_size g) d x"
  shows "\<exists>g'. run_tasks (note_cb ret) (c mod tg_size g) ts (l, g) = Some (l @ map (Pair c) (filter (\<lambda>t. D t = Some c) ts), g')
    \<and> wheel per (c + 1) g' hand (\<lambda>t. if t \<in> set ts then next_due ret per c D t else E t) \<and> same_clock g g'
    \<and> (\<forall>u. u \<notin> set ts \<longrightarrow> tg_task g' u = tg_task g u)"
  using assms
proof (induction ts arbitrary: g E l)
  case Nil
  then show ?case by (auto simp: same_clock_def)
next
  case (Cons t ts)
  obtain d x where d: "D t = Some d" "tg_task g t = Some x" "due_at (tg_size g) c (c mod tg_size g) d x"
    using Cons.prems(3) by auto
  let ?E = "E(t := next_due ret per c [t \<mapsto> d] t)"
  have "wheel per (c + 1) g (t # (ts @ hand)) E" using Cons.prems(1) by simp
  from run_task_due [OF this d(2,3) Cons.prems(2), of ret l]
  obtain g1 where g1: "run_task (note_cb ret) (c mod tg_size g) t (l, g) = Some (l @ (if d = c then [(c, t)] else []), g1)"
    "wheel per (c + 1) g1 (ts @ hand) ?E" "same_clock g g1" "\<forall>u. u \<noteq> t \<longrightarrow> tg_task g1 u = tg_task g u" .
  have n: "tg_size g1 = tg_size g" "tg_count g1 = tg_count g" using g1(3) by (simp_all add: same_clock_def)
  have t: "t \<notin> set ts" using wheelD(4) [OF Cons.prems(1)] by (simp add: listed_def)
  then have *: "tg_task g1 u = tg_task g u" if "u \<in> set ts" for u using g1(4) that by metis
  have "\<exists>g'. run_tasks (note_cb ret) (c mod tg_size g1) ts (l @ (if d = c then [(c, t)] else []), g1)
      = Some ((l @ (if d = c then [(c, t)] else [])) @ map (Pair c) (filter (\<lambda>t. D t = Some c) ts), g')
    \<and> wheel per (c + 1) g' hand (\<lambda>u. if u \<in> set ts then next_due ret per c D u else ?E u) \<and> same_clock g1 g'
    \<and> (\<forall>u. u \<notin> set ts \<longrightarrow> tg_task g' u = tg_task g1 u)"
  proof (rule Cons.IH [OF g1(2)])
    show "unat (tg_count g1) = c + 1" using n Cons.prems(2) by simp
    show "\<forall>t\<in>set ts. \<exists>d x. D t = Some d \<and> tg_task g1 t = Some x \<and> due_at (tg_size g1) c (c mod tg_size g1) d x"
      using Cons.prems(3) * n by simp
  qed
  then obtain g' where g': "run_tasks (note_cb ret) (c mod tg_size g1) ts (l @ (if d = c then [(c, t)] else []), g1)
      = Some ((l @ (if d = c then [(c, t)] else [])) @ map (Pair c) (filter (\<lambda>t. D t = Some c) ts), g')"
    "wheel per (c + 1) g' hand (\<lambda>u. if u \<in> set ts then next_due ret per c D u else ?E u)" "same_clock g1 g'"
    "\<forall>u. u \<notin> set ts \<longrightarrow> tg_task g' u = tg_task g1 u" by blast
  have "(\<lambda>u. if u \<in> set ts then next_due ret per c D u else ?E u) = (\<lambda>u. if u \<in> set (t # ts) then next_due ret per c D u else E u)"
    using t d(1) by (auto simp: fun_eq_iff next_due_def)
  then have "wheel per (c + 1) g' hand (\<lambda>u. if u \<in> set (t # ts) then next_due ret per c D u else E u)" using g'(2) by simp
  moreover have "run_tasks (note_cb ret) (c mod tg_size g) (t # ts) (l, g)
    = Some (l @ map (Pair c) (filter (\<lambda>t. D t = Some c) (t # ts)), g')"
    using g1(1) g'(1) n d(1) by simp
  moreover have "\<forall>u. u \<notin> set (t # ts) \<longrightarrow> tg_task g' u = tg_task g u" using g1(4) g'(4) by auto
  ultimately show ?case using same_clock_trans [OF g1(3) g'(3)] by blast
qed

lemma wheel_upd_hand:
  assumes w: "wheel per c g (t # hand) D" and x: "tg_task g t = Some x" and f: "tk_idx (f x) = tk_idx x"
  obtains g' where "upd_task t f g = Some g'" "wheel per c g' (t # hand) D" "same_clock g g'" "tg_task g' = (tg_task g)(t \<mapsto> f x)"
    "listed g' hand = listed g hand" "tg_sched g' = tg_sched g"
proof -
  obtain e where e: "upd_task t f g = Some (g\<lparr>tg_entries := e\<rparr>)" "holds (g\<lparr>tg_entries := e\<rparr>) (set (listed g (t # hand)))"
    "ar_vals e = (ar_vals (tg_entries g))(t \<mapsto> f x)" using upd_task_runs [OF wheelD(3) [OF w] x] .
  let ?g = "g\<lparr>tg_entries := e\<rparr>"
  have task: "tg_task ?g = (tg_task g)(t \<mapsto> f x)" using e(3) by (simp add: tg_task_def fun_eq_iff)
  have l: "listed ?g hs = listed g hs" for hs by (simp add: listed_def)
  have out: "t \<notin> set (tg_sched g ! u)" if "u < tg_size g" for u
    using wheelD(2,4) [OF w] that in_slot [of t "tg_sched g"] by (auto simp: listed_def)
  have "wheel per c ?g (t # hand) D"
  proof (rule wheelI, unfold l task)
    show "unat (tk_idx y) = per u \<and> 0 < per u" if "u \<in> set (listed g (t # hand))" "((tg_task g)(t \<mapsto> f x)) u = Some y" for u y
      using wheelD(5) [OF w, of u] that x f by (cases "u = t") auto
    show "\<exists>d y. D u = Some d \<and> ((tg_task g)(t \<mapsto> f x)) u = Some y \<and> due_at (tg_size ?g) c i d y"
      if "i < tg_size ?g" "u \<in> set (tg_sched ?g ! i)" for i u
      using wheelD(6) [OF w, of i u] that out by (cases "u = t") auto
  qed (use wheelD [OF w] e(2) in auto)
  then show ?thesis using e(1) task l by (intro that [of ?g]) (simp_all add: same_clock_def)
qed

text \<open>
  A task with start index 0 is started like one with 1; but when it is taken in at the last list of the wheel the list ahead
  is behind the array.
\<close>

definition starts_in :: "'h task \<Rightarrow> nat" where
  "starts_in x = max 1 (m_start_idx x)"

definition startable :: "nat \<Rightarrow> nat \<Rightarrow> 'h task \<Rightarrow> bool" where
  "startable n c x \<longleftrightarrow> 0 < m_start_idx x \<or> c mod n + 1 < n"

lemma starts_in_bound: "0 < starts_in x" "starts_in x < 2 ^ 16"
proof -
  have "unat (tk_data x) < 2 ^ LENGTH(16)" by (rule unsigned_less)
  then show "starts_in x < 2 ^ 16" by (simp add: starts_in_def m_start_idx_def)
qed (simp add: starts_in_def)

lemma start_at_once:
  assumes "startable (tg_size g) c x"
  shows "reschedule t (m_start_idx x) (c mod tg_size g) (w, g) = reschedule t (starts_in x) (c mod tg_size g) (w, g)"
proof (cases "0 < m_start_idx x")
  case True
  then have "starts_in x = m_start_idx x" by (simp add: starts_in_def)
  then show ?thesis by simp
next
  case False
  then have z: "m_start_idx x = 0" "starts_in x = 1" "c mod tg_size g + 1 < tg_size g" using assms by (simp_all add: starts_in_def startable_def)
  then have "insert_timer t 0 (c mod tg_size g) g = insert_timer t 1 (c mod tg_size g) g" by (simp add: insert_timer_def Let_def)
  then show ?thesis by (simp add: reschedule_def z(1,2))
qed

lemma start_tasks_due:
  assumes "wheel per (c + 1) g ts E"
    and "\<forall>t \<in> set ts. \<exists>x. tg_task g t = Some x \<and> starts_in x = st t \<and> startable (tg_size g) c x"
  shows "\<exists>g'. start_tasks (c mod tg_size g) ts (l, g) = Some (l, g')
    \<and> wheel per (c + 1) g' [] (\<lambda>t. if t \<in> set ts then Some (c + st t) else E t) \<and> same_clock g g'"
  using assms
proof (induction ts arbitrary: g E)
  case Nil
  then show ?case by (auto simp: same_clock_def)
next
  case (Cons t ts)
  obtain x where x: "tg_task g t = Some x" "starts_in x = st t" "startable (tg_size g) c x" using Cons.prems(2) by auto
  have k: "0 < st t" "st t < 2 ^ 16" using starts_in_bound [of x] x(2) by simp_all
  from wheel_upd_hand [OF Cons.prems(1) x(1), of "set_removed False"]
  obtain g1 where g1: "upd_task t (set_removed False) g = Some g1" "wheel per (c + 1) g1 (t # ts) E" "same_clock g g1"
    "tg_task g1 = (tg_task g)(t \<mapsto> set_removed False x)" by auto
  have n: "tg_size g1 = tg_size g" using g1(3) by (simp add: same_clock_def)
  from wheel_reschedule [OF g1(2) _ _ k, of "set_removed False x" l] g1(4)
  obtain g2 where g2: "reschedule t (st t) (c mod tg_size g1) (l, g1) = Some (l, g2)" "wheel per (c + 1) g2 ts (E(t \<mapsto> c + st t))"
    "same_clock g1 g2" "\<forall>u. u \<noteq> t \<longrightarrow> tg_task g2 u = tg_task g1 u" by auto
  have n2: "tg_size g2 = tg_size g" using g2(3) n by (simp add: same_clock_def)
  have t: "t \<notin> set ts" using wheelD(4) [OF Cons.prems(1)] by (simp add: listed_def)
  have "\<forall>u \<in> set ts. \<exists>x. tg_task g2 u = Some x \<and> starts_in x = st u \<and> startable (tg_size g2) c x"
    using Cons.prems(2) t g1(4) g2(4) n2 by (metis fun_upd_other list.set_intros(2))
  from Cons.IH [OF g2(2) this] n2 obtain g3 where g3: "start_tasks (c mod tg_size g) ts (l, g2) = Some (l, g3)"
    "wheel per (c + 1) g3 [] (\<lambda>u. if u \<in> set ts then Some (c + st u) else (E(t \<mapsto> c + st t)) u)" "same_clock g2 g3" by auto
  have "(\<lambda>u. if u \<in> set ts then Some (c + st u) else (E(t \<mapsto> c + st t)) u) = (\<lambda>u. if u \<in> set (t # ts) then Some (c + st u) else E u)"
    by (auto simp: fun_eq_iff)
  then have "wheel per (c + 1) g3 [] (\<lambda>u. if u \<in> set (t # ts) then Some (c + st u) else E u)" using g3(2) by simp
  moreover have "start_tasks (c mod tg_size g) (t # ts) (l, g) = Some (l, g3)"
    using x g1(1) g2(1) g3(1) n start_at_once [of g1 c x t l] by (simp add: start_task_def)
  ultimately show ?case using same_clock_trans [OF g1(3) same_clock_trans [OF g2(3) g3(3)]] by blast
qed

section \<open>The calendar\<close>

text \<open>The invariant between ticks; a task that has been added waits for the next tick to be put on the wheel.\<close>

definition timers :: "(nat \<Rightarrow> nat) \<Rightarrow> 'h taskgrp \<Rightarrow> (nat \<rightharpoonup> nat) \<Rightarrow> bool" where
  "timers per g D \<longleftrightarrow> (\<exists>E. wheel per (unat (tg_count g)) g [] E
     \<and> (\<forall>t x. t \<in> set (tg_insert g) \<longrightarrow> tg_task g t = Some x \<longrightarrow> startable (tg_size g) (unat (tg_count g)) x)
     \<and> D = (\<lambda>t. if t \<in> set (tg_insert g) then map_option (\<lambda>x. unat (tg_count g) + starts_in x) (tg_task g t) else E t))"

lemma wheel_slot:
  fixes g :: "'h taskgrp"
  assumes "wheel per c g [] E" "E t = Some d"
  shows "c \<le> d" "d = c \<Longrightarrow> t \<in> set (tg_sched g ! (c mod tg_size g))" "t \<notin> set (tg_insert g)"
proof -
  have "t \<in> set (concat (tg_sched g))" using wheelD(7) [OF assms(1)] assms(2) by blast
  then show "t \<notin> set (tg_insert g)" using wheelD(4) [OF assms(1)] by (auto simp: listed_def)
  obtain s where s: "s < tg_size g" "t \<in> set (tg_sched g ! s)"
    using \<open>t \<in> set (concat (tg_sched g))\<close> wheelD(2) [OF assms(1)] in_slot [of t "tg_sched g"] by auto
  obtain x :: "'h task" where "due_at (tg_size g) c s d x" using wheelD(6) [OF assms(1) s] assms(2) by auto
  then show "c \<le> d" "d = c \<Longrightarrow> t \<in> set (tg_sched g ! (c mod tg_size g))" using s by (auto simp: due_at_def)
qed

text \<open>The list of a tick, up to the tasks that were added.\<close>

lemma run_slot:
  assumes w: "wheel per c g [] E" and c: "unat (tg_count g) = c" "c + 1 < 2 ^ 64"
  obtains g1 fs where "tick (note_cb ret) True (l, g)
      = start_tasks (c mod tg_size g) (tg_insert g) (l @ map (Pair c) fs, g1\<lparr>tg_insert := []\<rparr>)"
    "wheel per (c + 1) (g1\<lparr>tg_insert := []\<rparr>) (tg_insert g) (next_due ret per c E)"
    "same_clock (g\<lparr>tg_count := tg_count g + 1\<rparr>) g1" "distinct fs" "set fs = {t. E t = Some c}"
    "\<forall>t \<in> set (tg_insert g). tg_task g1 t = tg_task g t"
proof -
  let ?n = "tg_size g" and ?s = "c mod tg_size g" and ?ts = "tg_sched g ! (c mod tg_size g)"
  let ?g0 = "g\<lparr>tg_sched := (tg_sched g)[?s := []], tg_count := tg_count g + 1\<rparr>" and ?fs = "filter (\<lambda>t. E t = Some c) (tg_sched g ! (c mod tg_size g))"
  have n: "2 \<le> ?n" "?s < ?n" "length (tg_sched g) = ?n" using wheelD(1,2) [OF w] by auto
  then have in_range: "\<not> length (tg_sched g) \<le> ?s" by linarith
  have c1: "unat (tg_count g + 1) = c + 1" using c by (simp add: unat_word_ariths)
  have task0: "tg_task ?g0 = tg_task g" by (simp add: tg_task_def fun_eq_iff)
  have due: "\<forall>t \<in> set ?ts. \<exists>d x. E t = Some d \<and> tg_task ?g0 t = Some x \<and> due_at (tg_size ?g0) c (c mod tg_size ?g0) d x"
    using wheelD(6) [OF w n(2)] task0 by auto
  have "wheel per (c + 1) ?g0 (?ts @ []) (E |` (- set ?ts))" using wheel_turn [OF w refl] by simp
  from run_tasks_due [OF this _ due, of ret l] c1
  obtain g1 where g1: "run_tasks (note_cb ret) ?s ?ts (l, ?g0) = Some (l @ map (Pair c) ?fs, g1)"
    "wheel per (c + 1) g1 [] (\<lambda>t. if t \<in> set ?ts then next_due ret per c E t else (E |` (- set ?ts)) t)" "same_clock ?g0 g1"
    "\<forall>u. u \<notin> set ?ts \<longrightarrow> tg_task g1 u = tg_task ?g0 u" by auto
  have E1: "(\<lambda>t. if t \<in> set ?ts then next_due ret per c E t else (E |` (- set ?ts)) t) = next_due ret per c E"
    using wheel_slot(2) [OF w] by (auto simp: fun_eq_iff next_due_def restrict_map_def)
  have sc: "tg_insert g1 = tg_insert g" using g1(3) by (simp add: same_clock_def)
  have ts: "?ts \<in> set (tg_sched g)" using n by (intro nth_mem) simp
  then have "set ?ts \<subseteq> set (concat (tg_sched g))" by auto
  then have "set ?ts \<inter> set (tg_insert g) = {}" using wheelD(4) [OF w] by (auto simp: listed_def)
  then have same: "\<forall>t \<in> set (tg_insert g). tg_task g1 t = tg_task g t" using g1(4) task0 by auto
  have "tick (note_cb ret) True (l, g) = start_tasks ?s (tg_insert g) (l @ map (Pair c) ?fs, g1\<lparr>tg_insert := []\<rparr>)"
  proof (cases "tg_insert g = []")
    case True
    then have e: "g1\<lparr>tg_insert := []\<rparr> = g1" using sc by (cases g1) simp
    show ?thesis using g1(1) n(1) in_range c sc unfolding True e by (simp add: tick_def Let_def)
  next
    case False
    then show ?thesis using g1(1) n(1) in_range c sc by (simp add: tick_def Let_def)
  qed
  moreover have "wheel per (c + 1) (g1\<lparr>tg_insert := []\<rparr>) (tg_insert g) (next_due ret per c E)"
    using wheel_take_inserted [OF g1(2)] E1 sc by simp
  moreover have "distinct (concat (tg_sched g))" using wheelD(4) [OF w] by (simp add: listed_def)
  then have "distinct ?fs" using ts unfolding distinct_concat_iff by auto
  moreover have "set ?fs = {t. E t = Some c}" using wheel_slot(2) [OF w] by auto
  moreover have "same_clock (g\<lparr>tg_count := tg_count g + 1\<rparr>) g1" using g1(3) by (simp add: same_clock_def)
  ultimately show ?thesis using same that by blast
qed

lemma tick_due:
  assumes tm: "timers per g D" and c: "unat (tg_count g) = c" "c + 1 < 2 ^ 64"
  shows "\<exists>g' fs. tick (note_cb ret) True (l, g) = Some (l @ map (Pair c) fs, g') \<and> distinct fs \<and> set fs = {t. D t = Some c}
    \<and> timers per g' (next_due ret per c D) \<and> tg_insert g' = [] \<and> tg_count g' = tg_count g + 1
    \<and> tg_trigger_count g' = tg_trigger_count g \<and> tg_processed g' = tg_processed g"
proof -
  from tm obtain E where w: "wheel per c g [] E"
    and ins: "\<forall>t x. t \<in> set (tg_insert g) \<longrightarrow> tg_task g t = Some x \<longrightarrow> startable (tg_size g) c x"
    and D: "D = (\<lambda>t. if t \<in> set (tg_insert g) then map_option (\<lambda>x. c + starts_in x) (tg_task g t) else E t)"
    unfolding timers_def c(1) by blast
  have c1: "unat (tg_count g + 1) = c + 1" using c by (simp add: unat_word_ariths)
  let ?st = "\<lambda>t. starts_in (the (tg_task g t))"
  from run_slot [OF w c, of ret l] obtain g1 fs where t1: "tick (note_cb ret) True (l, g)
      = start_tasks (c mod tg_size g) (tg_insert g) (l @ map (Pair c) fs, g1\<lparr>tg_insert := []\<rparr>)"
    and w1: "wheel per (c + 1) (g1\<lparr>tg_insert := []\<rparr>) (tg_insert g) (next_due ret per c E)"
    and sc: "same_clock (g\<lparr>tg_count := tg_count g + 1\<rparr>) g1" and fs: "distinct fs" "set fs = {t. E t = Some c}"
    and same: "\<forall>t \<in> set (tg_insert g). tg_task g1 t = tg_task g t" .
  have known: "\<exists>x. tg_task g t = Some x" if "t \<in> set (tg_insert g)" for t
    using that holds_task [OF wheelD(3) [OF w]] by (simp add: listed_def)
  have n1: "tg_size (g1\<lparr>tg_insert := []\<rparr>) = tg_size g" using sc by (simp add: same_clock_def)
  have st: "\<forall>t \<in> set (tg_insert g). \<exists>x. tg_task (g1\<lparr>tg_insert := []\<rparr>) t = Some x \<and> starts_in x = ?st t
      \<and> startable (tg_size (g1\<lparr>tg_insert := []\<rparr>)) c x"
    using known ins same unfolding n1 tg_task_def by fastforce
  from start_tasks_due [OF w1 st, of "l @ map (Pair c) fs"] n1
  obtain g2 where g2: "start_tasks (c mod tg_size g) (tg_insert g) (l @ map (Pair c) fs, g1\<lparr>tg_insert := []\<rparr>) = Some (l @ map (Pair c) fs, g2)"
    "wheel per (c + 1) g2 [] (\<lambda>t. if t \<in> set (tg_insert g) then Some (c + ?st t) else next_due ret per c E t)"
    "same_clock (g1\<lparr>tg_insert := []\<rparr>) g2" by auto
  have sc2: "tg_insert g2 = []" "tg_count g2 = tg_count g + 1" "tg_trigger_count g2 = tg_trigger_count g" "tg_processed g2 = tg_processed g"
    using g2(3) sc by (simp_all add: same_clock_def)
  have D2: "(\<lambda>t. if t \<in> set (tg_insert g) then Some (c + ?st t) else next_due ret per c E t) = next_due ret per c D"
  proof
    fix t
    show "(if t \<in> set (tg_insert g) then Some (c + ?st t) else next_due ret per c E t) = next_due ret per c D t"
      using known [of t] by (cases "t \<in> set (tg_insert g)") (auto simp: next_due_def D starts_in_def)
  qed
  have "timers per g2 (next_due ret per c D)"
    using g2(2) sc2 c1 unfolding D2 timers_def by auto
  moreover have "D t = Some c \<longleftrightarrow> E t = Some c" for t
    using known [of t] wheel_slot(3) [OF w, of t c] by (cases "t \<in> set (tg_insert g)") (auto simp: D starts_in_def)
  ultimately show ?thesis using t1 g2(1) fs sc2 by (intro exI [of _ g2] exI [of _ fs]) simp
qed

text \<open>The calendar: which tasks run at which counts, over \<open>n\<close> ticks, and what is due then.\<close>

fun cal_due :: "(nat \<Rightarrow> nat \<Rightarrow> int) \<Rightarrow> (nat \<Rightarrow> nat) \<Rightarrow> nat \<Rightarrow> nat \<Rightarrow> (nat \<rightharpoonup> nat) \<Rightarrow> (nat \<rightharpoonup> nat)" where
  "cal_due ret per c 0 D = D"
| "cal_due ret per c (Suc n) D = cal_due ret per (c + 1) n (next_due ret per c D)"

fun cal_runs :: "(nat \<Rightarrow> nat \<Rightarrow> int) \<Rightarrow> (nat \<Rightarrow> nat) \<Rightarrow> nat \<Rightarrow> nat \<Rightarrow> (nat \<rightharpoonup> nat) \<Rightarrow> (nat \<times> nat) set" where
  "cal_runs ret per c 0 D = {}"
| "cal_runs ret per c (Suc n) D = {(c, t) |t. D t = Some c} \<union> cal_runs ret per (c + 1) n (next_due ret per c D)"

lemma cal_runs_from: "(k, t) \<in> cal_runs ret per c n D \<Longrightarrow> c \<le> k"
  by (induction n arbitrary: c D) force+

lemma ticks_due:
  assumes "timers per g D" "unat (tg_count g) = c" "c + n < 2 ^ 64"
  shows "\<exists>g' log. ticks (note_cb ret) (\<lambda>_. True) n (l, g) = Some (l @ log, g') \<and> distinct log \<and> set log = cal_runs ret per c n D
    \<and> timers per g' (cal_due ret per c n D) \<and> unat (tg_count g') = c + n
    \<and> tg_trigger_count g' = tg_trigger_count g \<and> tg_processed g' = tg_processed g"
  using assms
proof (induction n arbitrary: c g D l)
  case 0
  then show ?case by auto
next
  case (Suc n)
  have "c + 1 < 2 ^ 64" using Suc.prems(3) by simp
  from tick_due [OF Suc.prems(1,2) this, of ret l]
  obtain g1 fs where g1: "tick (note_cb ret) True (l, g) = Some (l @ map (Pair c) fs, g1)" "distinct fs" "set fs = {t. D t = Some c}"
    "timers per g1 (next_due ret per c D)" "tg_count g1 = tg_count g + 1" "tg_trigger_count g1 = tg_trigger_count g"
    "tg_processed g1 = tg_processed g" by blast
  have "unat (tg_count g1) = c + 1" using g1(5) Suc.prems(2,3) by (simp add: unat_word_ariths)
  from Suc.IH [OF g1(4) this, of "l @ map (Pair c) fs"] Suc.prems(3)
  obtain g2 log where g2: "ticks (note_cb ret) (\<lambda>_. True) n (l @ map (Pair c) fs, g1) = Some ((l @ map (Pair c) fs) @ log, g2)"
    "distinct log" "set log = cal_runs ret per (c + 1) n (next_due ret per c D)"
    "timers per g2 (cal_due ret per (c + 1) n (next_due ret per c D))" "unat (tg_count g2) = c + 1 + n"
    "tg_trigger_count g2 = tg_trigger_count g1" "tg_processed g2 = tg_processed g1" by auto
  let ?log = "map (Pair c) fs @ log"
  have "distinct ?log" using g1(2) g2(2,3) cal_runs_from by (fastforce simp: distinct_map inj_on_def)
  moreover have "set ?log = cal_runs ret per c (Suc n) D" using g1(3) g2(3) by auto
  moreover have "ticks (note_cb ret) (\<lambda>_. True) (Suc n) (l, g) = Some (l @ ?log, g2)" using g1(1) g2(1) by simp
  ultimately show ?case using g1(6,7) g2(4-7) by (intro exI [of _ g2] exI [of _ ?log]) simp
qed

text \<open>Callbacks that go on: a task runs when it is due and then at every multiple of its interval.\<close>

lemma cal_runs_periodic:
  assumes "\<forall>t d. D t = Some d \<longrightarrow> c \<le> d \<and> 0 < per t"
  shows "(k, t) \<in> cal_runs (\<lambda>_ _. 0) per c n D \<longleftrightarrow> (\<exists>d. D t = Some d \<and> d \<le> k \<and> k < c + n \<and> per t dvd k - d)"
  using assms
proof (induction n arbitrary: c D)
  case 0
  then show ?case by force
next
  case (Suc n)
  let ?D = "next_due (\<lambda>_ _. 0) per c D"
  have nd: "?D t = (if D t = Some c then Some (c + per t) else D t)" for t by (simp add: next_due_def)
  have "\<forall>t d. ?D t = Some d \<longrightarrow> c + 1 \<le> d \<and> 0 < per t"
  proof (intro allI impI)
    fix u e assume "?D u = Some e"
    then show "c + 1 \<le> e \<and> 0 < per u"
      using Suc.prems [rule_format, of u c] Suc.prems [rule_format, of u e] nd [of u] by (cases "D u = Some c"; cases "e = c") auto
  qed
  from Suc.IH [OF this] have ih: "(k, t) \<in> cal_runs (\<lambda>_ _. 0) per (c + 1) n ?D
    \<longleftrightarrow> (\<exists>d. ?D t = Some d \<and> d \<le> k \<and> k < c + 1 + n \<and> per t dvd k - d)" .
  show ?case
  proof (cases "D t = Some c")
    case True
    have "per t dvd k - c \<longleftrightarrow> k = c \<or> (c + per t \<le> k \<and> per t dvd k - (c + per t))" if "c \<le> k"
    proof (cases "k = c")
      case False
      have "per t dvd k - c \<longleftrightarrow> per t dvd k - c - per t" if "per t \<le> k - c"
        using that by (metis dvd_minus_self not_less)
      moreover have "per t \<le> k - c" if "per t dvd k - c" using that False \<open>c \<le> k\<close> by (simp add: dvd_imp_le)
      ultimately show ?thesis using False by (auto simp: le_diff_conv2 [OF \<open>c \<le> k\<close>] add.commute)
    qed simp
    then show ?thesis using True ih nd [of t] by auto
  next
    case False
    then show ?thesis using ih nd [of t] Suc.prems by auto
  qed
qed

lemma timers_due:
  assumes "timers per g D" "D t = Some d"
  shows "unat (tg_count g) \<le> d" "0 < per t"
proof -
  let ?c = "unat (tg_count g)"
  from assms(1) obtain E where w: "wheel per ?c g [] E"
    and D: "D = (\<lambda>t. if t \<in> set (tg_insert g) then map_option (\<lambda>x. ?c + starts_in x) (tg_task g t) else E t)"
    unfolding timers_def by blast
  show "?c \<le> d" using assms(2) wheel_slot(1) [OF w, of t d] by (auto simp: D split: if_splits)
  have "t \<in> set (listed g [])"
  proof (cases "t \<in> set (tg_insert g)")
    case False
    then have "t \<in> dom E" using assms(2) by (auto simp: D)
    then show ?thesis using wheelD(7) [OF w] by (simp add: listed_def)
  qed (simp add: listed_def)
  then show "0 < per t" using wheelD(5) [OF w, of t] holds_task [OF wheelD(3) [OF w]] by blast
qed

lemma timers_insert:
  assumes "timers per g D" "t \<in> set (tg_insert g)"
  shows "\<exists>x. tg_task g t = Some x \<and> D t = Some (unat (tg_count g) + starts_in x)"
proof -
  let ?c = "unat (tg_count g)"
  from assms(1) obtain E where w: "wheel per ?c g [] E"
    and D: "D = (\<lambda>t. if t \<in> set (tg_insert g) then map_option (\<lambda>x. ?c + starts_in x) (tg_task g t) else E t)"
    unfolding timers_def by blast
  have "t \<in> set (listed g [])" using assms(2) by (simp add: listed_def)
  then show ?thesis using holds_task [OF wheelD(3) [OF w]] assms(2) by (force simp: D)
qed

lemma timers_cong:
  assumes "tg_sched g' = tg_sched g" "tg_insert g' = tg_insert g" "tg_entries g' = tg_entries g" "tg_count g' = tg_count g"
    "tg_size g' = tg_size g"
  shows "timers per g' D = timers per g D"
  unfolding timers_def wheel_def listed_def holds_def tg_task_def assms ..

lemma next_due_dom: "dom (next_due (\<lambda>_ _. 0) per c D) = dom D"
  by (auto simp: next_due_def split: if_splits)

lemma cal_due_dom: "dom (cal_due (\<lambda>_ _. 0) per c n D) = dom D"
  by (induction n arbitrary: c D) (simp_all add: next_due_dom)

section \<open>Adding timers\<close>

lemma new_group:
  assumes "0 < max_task" "2 * nat res_us \<le> intv * 1000 * 1000" "0 < res_us"
  shows "\<exists>g. tg_init True True max_task intv res_us tg_new = Some (Inr True, g) \<and> timers per g Map.empty
    \<and> tg_count g = 0 \<and> tg_trigger_count g = 0 \<and> \<not> tg_processed g \<and> ar_init True max_task True ar_new = Some (True, tg_entries g)"
proof -
  obtain e :: "'a task array" where e: "ar_init True max_task True ar_new = Some (True, e)" "ar_holds e []"
    using ar_init_holds [OF assms(1), of True] by blast
  let ?n = "intv * 1000 * 1000 div nat res_us"
  let ?g = "tg_new\<lparr>tg_size := ?n, tg_sched := replicate ?n [], tg_entries := e\<rparr>"
  have n: "2 \<le> ?n" using assms by (simp add: less_eq_div_iff_mult_less_eq)
  have l: "listed ?g [] = []" by (simp add: listed_def tg_new_def)
  have "wheel per 0 ?g [] Map.empty"
    by (rule wheelI, unfold l) (use n e(2) in \<open>auto simp: holds_def\<close>)
  then have "timers per ?g Map.empty" by (auto simp: timers_def tg_new_def)
  moreover have "tg_init True True max_task intv res_us tg_new = Some (Inr True, ?g)"
    using e(1) assms(3) by (simp add: tg_init_def Let_def tg_new_def)
  ultimately show ?thesis using e(1) by (intro exI [of _ ?g]) (simp add: tg_new_def)
qed

lemma add_timer_wheel:
  assumes w: "wheel per c g [] E" and a: "add_timer ok True h start intval g = Some (Some t, g')" and s: "0 \<le> start" "start < 2 ^ 16"
  obtains y where "wheel (per(t := nat intval)) c g' [] E" "tg_task g' = (tg_task g)(t \<mapsto> y)" "m_start_idx y = nat start"
    "tg_insert g' = t # tg_insert g" "t \<notin> set (listed g [])" "tg_size g' = tg_size g"
    "tg_count g' = tg_count g \<and> tg_trigger_count g' = tg_trigger_count g \<and> tg_processed g' = tg_processed g"
proof -
  let ?x = "\<lparr>tk_idx = 0, tk_data = of_int start, tk_h = h\<rparr>"
  obtain e where e: "ar_alloc ok ?x (tg_entries g) = Some (Some t, e)"
    and iv: "1 \<le> intval" "intval < 2 ^ 16"
    and g': "g' = g\<lparr>tg_entries := e\<lparr>ar_vals := (ar_vals e)(t \<mapsto> the (ar_vals e t)\<lparr>tk_idx := of_int intval\<rparr>)\<rparr>, tg_insert := t # tg_insert g\<rparr>"
    using a by (auto simp: add_timer_def create_task_def upd_task_def tg_task_def MAX_INDEX_def Let_def split: option.splits if_splits)
  obtain es where es: "ar_holds (tg_entries g) es" "set es = set (listed g [])" using wheelD(3) [OF w] by (auto simp: holds_def)
  have al: "ar_holds e (t # es)" "t \<notin> set es" "ar_vals e = (ar_vals (tg_entries g))(t \<mapsto> ?x)"
    using ar_alloc_holds [OF es(1) e] by blast+
  let ?y = "?x\<lparr>tk_idx := of_int intval\<rparr>"
  have task: "tg_task g' = (tg_task g)(t \<mapsto> ?y)" by (simp add: g' tg_task_def fun_eq_iff al(3))
  have l: "listed g' [] = concat (tg_sched g) @ t # tg_insert g" by (simp add: listed_def g')
  have sl: "set (listed g' []) = insert t (set (listed g []))" "distinct (listed g' []) \<longleftrightarrow> distinct (listed g [])"
    unfolding l using al(2) es(2) by (auto simp: listed_def)
  have out: "t \<notin> set (listed g [])" using al(2) es(2) by simp
  have idx: "unat (of_int intval :: U16) = nat intval" "unat (of_int start :: U16) = nat start"
    using iv s by (simp_all add: unat_eq_nat_uint uint_word_of_int_eq take_bit_int_eq_self)
  have "ar_holds (tg_entries g') (t # es)" using al(1,3) by (auto simp: ar_holds_def g')
  then have "holds g' (set (listed g' []))" using es(2) sl by (auto simp: holds_def)
  have outs: "t \<notin> set (tg_sched g ! u)" if "u < tg_size g" for u
    using that out in_slot [of t "tg_sched g"] wheelD(2) [OF w] by (auto simp: listed_def)
  have "wheel (per(t := nat intval)) c g' [] E"
  proof (rule wheelI, unfold task)
    show "unat (tk_idx y) = (per(t := nat intval)) u \<and> 0 < (per(t := nat intval)) u"
      if "u \<in> set (listed g' [])" "((tg_task g)(t \<mapsto> ?y)) u = Some y" for u y
      using that wheelD(5) [OF w, of u y] sl idx iv by (cases "u = t") auto
    show "\<exists>d y. E u = Some d \<and> ((tg_task g)(t \<mapsto> ?y)) u = Some y \<and> due_at (tg_size g') c i d y"
      if "i < tg_size g'" "u \<in> set (tg_sched g' ! i)" for i u
      using wheelD(6) [OF w, of i u] that outs by (cases "u = t") (auto simp: g')
    show "holds g' (set (listed g' []))" by fact
  qed (use wheelD [OF w] sl in \<open>auto simp: g'\<close>)
  then show ?thesis using task idx out by (intro that [of ?y]) (simp_all add: m_start_idx_def g')
qed

lemma add_timer_timers:
  assumes tm: "timers per g D" and a: "add_timer ok True h start intval g = Some (Some t, g')"
    and s: "0 \<le> start" "start < 2 ^ 16" "0 < start \<or> unat (tg_count g) mod tg_size g + 1 < tg_size g"
  shows "timers (per(t := nat intval)) g' (D(t \<mapsto> unat (tg_count g) + max 1 (nat start)))" "t \<notin> dom D"
    "tg_count g' = tg_count g \<and> tg_trigger_count g' = tg_trigger_count g \<and> tg_processed g' = tg_processed g"
proof -
  let ?c = "unat (tg_count g)"
  from tm obtain E where w: "wheel per ?c g [] E"
    and ins: "\<forall>t x. t \<in> set (tg_insert g) \<longrightarrow> tg_task g t = Some x \<longrightarrow> startable (tg_size g) ?c x"
    and D: "D = (\<lambda>t. if t \<in> set (tg_insert g) then map_option (\<lambda>x. ?c + starts_in x) (tg_task g t) else E t)"
    unfolding timers_def by blast
  from add_timer_wheel [OF w a s(1,2)] obtain y where w': "wheel (per(t := nat intval)) ?c g' [] E"
    and task: "tg_task g' = (tg_task g)(t \<mapsto> y)" and y: "m_start_idx y = nat start" and ins': "tg_insert g' = t # tg_insert g"
    and out: "t \<notin> set (listed g [])" and size: "tg_size g' = tg_size g"
    and same: "tg_count g' = tg_count g \<and> tg_trigger_count g' = tg_trigger_count g \<and> tg_processed g' = tg_processed g"
    by metis
  have "startable (tg_size g) ?c z" if "u \<in> set (tg_insert g')" "tg_task g' u = Some z" for u z
    using that ins y s by (cases "u = t") (auto simp: task ins' startable_def)
  moreover have "D(t \<mapsto> ?c + max 1 (nat start))
    = (\<lambda>u. if u \<in> set (tg_insert g') then map_option (\<lambda>x. ?c + starts_in x) (tg_task g' u) else E u)"
    using y by (auto simp: fun_eq_iff D task ins' starts_in_def)
  ultimately show "timers (per(t := nat intval)) g' (D(t \<mapsto> ?c + max 1 (nat start)))"
    using w' same size unfolding timers_def by (intro exI [of _ E] conjI) (simp_all cong: if_cong)
  have "E t = None" using wheelD(7) [OF w] out by (auto simp: listed_def)
  then show "t \<notin> dom D" using out by (auto simp: D listed_def)
  show "tg_count g' = tg_count g \<and> tg_trigger_count g' = tg_trigger_count g \<and> tg_processed g' = tg_processed g" by (rule same)
qed

section \<open>Properties\<close>

text \<open>C27:
  The wheel keeps the calendar.  When the system timer triggers any number of times the callback of a timer runs at the tick it
  is due and then at every multiple of its interval, once at each of these counts, at no other, and for no other timer; all
  timers stay on the wheel.  A timer that is still to be started is due its start index after the current count, one with start
  index 0 at the next tick.  Provided: no timer of start index 0 is taken in at the last list of the wheel, where the tick writes
  outside the array (\<^verbatim>\<open>timerfd.h:211\<close>, \<open>start_at_once_overruns\<close>); the timers are those of a group whose wheel has two lists at
  least, all callbacks return 0 and leave the group alone, locks succeed, no tick is running, and the count stays within
  \<open>MAX_COUNT\<close>.
\<close>

theorem timers_run_on_time:
  assumes tm: "timers per g D" and c: "\<not> tg_processed g" "tg_trigger_count g = tg_count g"
    "unat (tg_count g) + unat k \<le> unat MAX_COUNT"
  shows "\<exists>log g' D'. tg_fire (note_cb (\<lambda>_ _. 0)) (\<lambda>_. True) k (l, g) = Some (l @ log, g') \<and> distinct log
    \<and> set log = {(i, t). \<exists>d. D t = Some d \<and> d \<le> i \<and> i < unat (tg_count g) + unat k \<and> per t dvd i - d}
    \<and> timers per g' D' \<and> dom D' = dom D \<and> tg_count g' = tg_count g + k \<and> tg_trigger_count g' = tg_count g' \<and> \<not> tg_processed g'"
proof -
  let ?c = "unat (tg_count g)" and ?n = "unat k"
  let ?g = "g\<lparr>tg_trigger_count := tg_count g + k, tg_processed := True\<rparr>"
  have k: "unat (tg_count g + k) = ?c + ?n" using c(3) by (simp add: unat_word_ariths MAX_COUNT_def)
  have tp: "timers per (h\<lparr>tg_trigger_count := a, tg_processed := b\<rparr>) F = timers per h F"
    "timers per (h\<lparr>tg_processed := b\<rparr>) F = timers per h F" for h :: "'a taskgrp" and a b F
    by (rule timers_cong, simp_all)+
  have "timers per ?g D" using tm tp by simp
  moreover have "?c + ?n < 2 ^ 64" using c(3) by (simp add: MAX_COUNT_def)
  ultimately obtain g1 log where g1: "ticks (note_cb (\<lambda>_ _. 0)) (\<lambda>_. True) ?n (l, ?g) = Some (l @ log, g1)" "distinct log"
    "set log = cal_runs (\<lambda>_ _. 0) per ?c ?n D" "timers per g1 (cal_due (\<lambda>_ _. 0) per ?c ?n D)" "unat (tg_count g1) = ?c + ?n"
    "tg_trigger_count g1 = tg_count g + k" using ticks_due [of per ?g D ?c ?n "\<lambda>_ _. 0" l] by auto
  have cnt: "tg_count g1 = tg_count g + k" using g1(5) k by (simp add: word_unat_eq_iff)
  have "\<not> tg_trigger_count g1 > MAX_COUNT" using c(3) k g1(6) by (simp add: word_less_nat_alt)
  then have "tg_fire (note_cb (\<lambda>_ _. 0)) (\<lambda>_. True) k (l, g) = Some (l @ log, g1\<lparr>tg_processed := False\<rparr>)"
    using g1(1) c k by (simp add: tg_fire_def process_one_shot_def wrap_counts_def)
  moreover have "set log = {(i, t). \<exists>d. D t = Some d \<and> d \<le> i \<and> i < ?c + ?n \<and> per t dvd i - d}"
    using cal_runs_periodic [of D ?c per] timers_due [OF tm] g1(3) by auto
  ultimately show ?thesis
    using g1(2,4,6) cnt tp(2) [where h = g1 and b = False] cal_due_dom [of per ?c ?n D]
    by (intro exI [of _ log] exI [of _ "g1\<lparr>tg_processed := False\<rparr>"] exI [of _ "cal_due (\<lambda>_ _. 0) per ?c ?n D"]) simp
qed

text \<open>A group with one timer.\<close>

lemma one_timer:
  assumes "0 < res_us" "2 * nat res_us \<le> intv * 1000 * 1000" "1 \<le> intval" "intval < 2 ^ 16"
  shows "\<exists>g1 g. tg_init True True 10 intv res_us (tg_new :: string taskgrp) = Some (Inr True, g1) \<and> timers (\<lambda>_. 0) g1 Map.empty
    \<and> add_timer True True ''beat'' start intval g1 = Some (Some 0, g)
    \<and> tg_count g1 = 0 \<and> tg_trigger_count g1 = 0 \<and> \<not> tg_processed g1 \<and> tg_insert g1 = []"
proof -
  from new_group [of 10 res_us intv] assms(1,2) obtain g1 :: "string taskgrp" where g1: "tg_init True True 10 intv res_us tg_new = Some (Inr True, g1)"
    "timers (\<lambda>_. 0) g1 Map.empty" "tg_count g1 = 0" "tg_trigger_count g1 = 0" "\<not> tg_processed g1"
    "ar_init True 10 True ar_new = Some (True, tg_entries g1)" by auto
  obtain h where h: "init_header 10 True = Some h" "fa_inv 10 h [] [0..<10]" using init_inv [of 10 True] by auto
  then have ent: "tg_entries g1 = \<lparr>ar_a = Some h, ar_vals = Map.empty\<rparr>"
    using g1(6) by (auto simp: ar_init_def fa_create_def ar_new_def)
  have "[0..<10] = 0 # [1..<10]" by (subst upt_rec) simp
  then obtain a where a: "alloc_nolock True h = Some (Some 0, a)"
    using alloc_pool [of 10 h "[]" 0 "[1..<10]" True] h(2) by auto
  have "\<not> fa_full h" using h(2) by (simp add: fa_full_def fa_inv_def)
  then have "\<exists>g. add_timer True True ''beat'' start intval g1 = Some (Some 0, g)"
    using a assms(3,4) by (simp add: ent add_timer_def create_task_def ar_alloc_def upd_task_def tg_task_def MAX_INDEX_def)
  moreover have "tg_insert g1 = []" using g1(1) by (auto simp: tg_init_def tg_new_def Let_def split: if_splits)
  ultimately show ?thesis using g1(1-5) by blast
qed

lemma beat_at_3:
  "\<exists>g1 g. tg_init True True 10 10 100000 (tg_new :: string taskgrp) = Some (Inr True, g1)
    \<and> add_timer True True ''beat'' 3 5 g1 = Some (Some 0, g) \<and> timers ((\<lambda>_. 0)(0 := 5)) g [0 \<mapsto> 3]
    \<and> tg_count g = 0 \<and> tg_trigger_count g = 0 \<and> \<not> tg_processed g \<and> tg_insert g = [0]"
proof -
  from one_timer [of 100000 10 5 3] obtain g1 g :: "string taskgrp" where g: "tg_init True True 10 10 100000 tg_new = Some (Inr True, g1)"
    "timers (\<lambda>_. 0) g1 Map.empty" "add_timer True True ''beat'' 3 5 g1 = Some (Some 0, g)"
    "tg_count g1 = 0" "tg_trigger_count g1 = 0" "\<not> tg_processed g1" "tg_insert g1 = []" by auto
  moreover have "tg_insert g = [0]" using g(3,7) by (auto simp: add_timer_def create_task_def upd_task_def Let_def split: option.splits if_splits)
  ultimately show ?thesis using add_timer_timers [OF g(2,3)] by auto
qed

theorem timers_run_on_time_witness:
  "\<exists>g1 g log g'. tg_init True True 10 10 100000 (tg_new :: string taskgrp) = Some (Inr True, g1)
    \<and> add_timer True True ''beat'' 3 5 g1 = Some (Some 0, g)
    \<and> tg_fire (note_cb (\<lambda>_ _. 0)) (\<lambda>_. True) 10 ([], g) = Some (log, g') \<and> distinct log \<and> set log = {(3, 0), (8, 0)}"
proof -
  obtain g1 g :: "string taskgrp" where g: "tg_init True True 10 10 100000 tg_new = Some (Inr True, g1)"
    "add_timer True True ''beat'' 3 5 g1 = Some (Some 0, g)" "timers ((\<lambda>_. 0)(0 := 5)) g [0 \<mapsto> 3]"
    "tg_count g = 0" "tg_trigger_count g = 0" "\<not> tg_processed g" using beat_at_3 by blast
  have "{(i, t). \<exists>d. [0 \<mapsto> 3] t = Some d \<and> d \<le> i \<and> i < 10 \<and> ((\<lambda>_. 0)(0 := 5)) t dvd i - d} = {(3 :: nat, 0 :: nat), (8, 0)}"
  proof -
    have "5 dvd i - 3 \<longleftrightarrow> i = 3 \<or> i = 8" if "3 \<le> i" "i < 10" for i :: nat using that by presburger
    then show ?thesis by (auto split: if_splits)
  qed
  then show ?thesis
    using timers_run_on_time [OF g(3,6), of 10 "[]"] g by (auto simp: MAX_COUNT_def)
qed

text \<open>A timer that is closed between \<open>add_timer\<close> and the next tick is not closed: the flag of a removed task
  is the lowest bit of the start index it is still to be scheduled by, and the tick clears it.  The timer stays,
  one tick later when its index was even.
\<close>

theorem early_close_is_lost:
  assumes tm: "timers per g D" and t: "t \<in> set (tg_insert g)" and x: "tg_task g t = Some x"
  shows "\<exists>g'. remove_timer_reserve t g = Some g' \<and> timers per g' (D(t \<mapsto> unat (tg_count g) + unat (tk_data x OR 1)))"
proof -
  let ?c = "unat (tg_count g)" and ?y = "set_removed True x"
  from tm obtain E where w: "wheel per ?c g [] E"
    and ins: "\<forall>t x. t \<in> set (tg_insert g) \<longrightarrow> tg_task g t = Some x \<longrightarrow> startable (tg_size g) ?c x"
    and D: "D = (\<lambda>t. if t \<in> set (tg_insert g) then map_option (\<lambda>x. ?c + starts_in x) (tg_task g t) else E t)"
    unfolding timers_def by blast
  from wheel_take_inserted [OF w] have w': "wheel per ?c (g\<lparr>tg_insert := []\<rparr>) (tg_insert g) E" .
  obtain e where e: "upd_task t (set_removed True) g = Some (g\<lparr>tg_entries := e\<rparr>)" "holds (g\<lparr>tg_entries := e\<rparr>) (set (listed g []))"
    "ar_vals e = (ar_vals (tg_entries g))(t \<mapsto> ?y)" using upd_task_runs [OF wheelD(3) [OF w] x] .
  let ?g = "g\<lparr>tg_entries := e\<rparr>"
  have task: "tg_task ?g = (tg_task g)(t \<mapsto> ?y)" using e(3) by (simp add: tg_task_def fun_eq_iff)
  have l: "listed ?g [] = listed g []" by (simp add: listed_def)
  have out: "t \<notin> set (tg_sched g ! u)" if "u < tg_size g" for u
    using wheelD(2,4) [OF w] that t in_slot [of t "tg_sched g"] by (auto simp: listed_def)
  have "wheel per ?c ?g [] E"
  proof (rule wheelI, unfold l task)
    show "unat (tk_idx z) = per u \<and> 0 < per u" if "u \<in> set (listed g [])" "((tg_task g)(t \<mapsto> ?y)) u = Some z" for u z
      using wheelD(5) [OF w, of u] that x by (cases "u = t") auto
    show "\<exists>d z. E u = Some d \<and> ((tg_task g)(t \<mapsto> ?y)) u = Some z \<and> due_at (tg_size ?g) ?c i d z"
      if "i < tg_size ?g" "u \<in> set (tg_sched ?g ! i)" for i u
      using wheelD(6) [OF w, of i u] that out by (cases "u = t") auto
  qed (use wheelD [OF w] e(2) in auto)
  moreover have s: "m_start_idx ?y = unat (tk_data x OR 1)"
    by (simp add: m_start_idx_def set_removed_def set_bit_eq_or)
  have "tk_data x OR 1 \<noteq> 0" by (metis bit_0 bit_1_0 bit_or_iff even_zero)
  then have y0: "0 < m_start_idx ?y" unfolding s by (simp add: unat_gt_0)
  have "startable (tg_size g) ?c z" if "u \<in> set (tg_insert g)" "tg_task ?g u = Some z" for u z
    using that ins y0 by (cases "u = t") (auto simp: task startable_def)
  moreover have "D(t \<mapsto> ?c + unat (tk_data x OR 1)) = (\<lambda>u. if u \<in> set (tg_insert g) then map_option (\<lambda>x. ?c + starts_in x) (tg_task ?g u) else E u)"
    using t s y0 by (auto simp: fun_eq_iff D task starts_in_def)
  ultimately have "timers per ?g (D(t \<mapsto> ?c + unat (tk_data x OR 1)))"
    unfolding timers_def by (intro exI [of _ E] conjI) (simp_all cong: if_cong)
  then show ?thesis using e(1) by (simp add: remove_timer_reserve_def)
qed

theorem early_close_is_lost_witness:
  "\<exists>g1 g g'. tg_init True True 10 10 100000 (tg_new :: string taskgrp) = Some (Inr True, g1)
    \<and> add_timer True True ''beat'' 3 5 g1 = Some (Some 0, g) \<and> remove_timer_reserve 0 g = Some g' \<and> timers ((\<lambda>_. 0)(0 := 5)) g' [0 \<mapsto> 3]"
proof -
  obtain g1 g :: "string taskgrp" where g: "tg_init True True 10 10 100000 tg_new = Some (Inr True, g1)"
    "add_timer True True ''beat'' 3 5 g1 = Some (Some 0, g)" "timers ((\<lambda>_. 0)(0 := 5)) g [0 \<mapsto> 3]"
    "tg_count g = 0" "tg_insert g = [0]" using beat_at_3 by blast
  then obtain x where x: "tg_task g 0 = Some x" "m_start_idx x = 3" using timers_insert [OF g(3), of 0] by (auto simp: starts_in_def max_def split: if_splits)
  then have "tk_data x = 3" by (simp add: m_start_idx_def word_unat_eq_iff)
  then show ?thesis using early_close_is_lost [OF g(3) _ x(1)] g by auto
qed

text \<open>A timer that starts at once (index 0) is put one list ahead of the current one; when the current list is the
  last of the wheel that is behind its end, and the tick writes outside the array.
\<close>

theorem start_at_once_overruns:
  assumes w: "wheel per c g [] E" and c: "unat (tg_count g) = c" "c + 1 < 2 ^ 64"
    and t: "tg_insert g = t # ts" "tg_task g t = Some x" "m_start_idx x = 0" and last: "c mod tg_size g = tg_size g - 1"
  shows "tick (note_cb ret) True (l, g) = None"
proof -
  from run_slot [OF w c, of ret l] obtain g1 fs where t1: "tick (note_cb ret) True (l, g)
      = start_tasks (c mod tg_size g) (t # ts) (l @ map (Pair c) fs, g1\<lparr>tg_insert := []\<rparr>)"
    and w1: "wheel per (c + 1) (g1\<lparr>tg_insert := []\<rparr>) (t # ts) (next_due ret per c E)"
    and sc: "same_clock (g\<lparr>tg_count := tg_count g + 1\<rparr>) g1" and same: "\<forall>t \<in> set (t # ts). tg_task g1 t = tg_task g t"
    unfolding t(1) .
  have x: "tg_task (g1\<lparr>tg_insert := []\<rparr>) t = Some x" using same t(2) by (simp add: tg_task_def)
  from wheel_upd_hand [OF w1 x, of "set_removed False"] obtain g2 where
    g2: "upd_task t (set_removed False) (g1\<lparr>tg_insert := []\<rparr>) = Some g2" "wheel per (c + 1) g2 (t # ts) (next_due ret per c E)"
    "same_clock (g1\<lparr>tg_insert := []\<rparr>) g2" "tg_task g2 = (tg_task (g1\<lparr>tg_insert := []\<rparr>))(t \<mapsto> set_removed False x)" by auto
  have n: "tg_size g2 = tg_size g" using sc g2(3) by (simp add: same_clock_def)
  let ?n = "tg_size g"
  have n2: "2 \<le> ?n" using wheelD(1) [OF w] .
  from wheel_upd_hand [OF g2(2), of "set_removed False x" "set_delay 0"] g2(4) obtain g3 where
    g3: "upd_task t (set_delay 0) g2 = Some g3" "wheel per (c + 1) g3 (t # ts) (next_due ret per c E)" "tg_sched g3 = tg_sched g2" by auto
  have "length (tg_sched g3) = ?n" using wheelD(2) [OF g2(2)] g3(3) n by simp
  then have "insert_timer t 0 (?n - 1) g2 = None"
    using g3(1) n n2 by (simp add: insert_timer_def MAX_DELAY_def insert_timer_at_def)
  then have "reschedule t 0 (?n - 1) (l @ map (Pair c) fs, g2) = None" by (simp add: reschedule_def)
  then show ?thesis using t1 x g2(1) t(3) last by (simp add: start_task_def)
qed

text \<open>The wheel of two lists, when its count is 1.\<close>

theorem start_at_once_overruns_witness:
  "\<exists>g1 g. tg_init True True 10 1 500000 (tg_new :: string taskgrp) = Some (Inr True, g1)
    \<and> add_timer True True ''beat'' 0 5 (g1\<lparr>tg_count := 1\<rparr>) = Some (Some 0, g) \<and> tick (note_cb (\<lambda>_ _. 0)) True ([], g) = None"
proof -
  from one_timer [of 500000 1 5 0] obtain g1 g :: "string taskgrp" where g: "tg_init True True 10 1 500000 tg_new = Some (Inr True, g1)"
    "timers (\<lambda>_. 0) g1 Map.empty" "add_timer True True ''beat'' 0 5 g1 = Some (Some 0, g)" "tg_insert g1 = []" "tg_count g1 = 0" by auto
  let ?g = "g\<lparr>tg_count := 1\<rparr>" and ?g1 = "g1\<lparr>tg_count := 1\<rparr>"
  have a: "add_timer True True ''beat'' 0 5 ?g1 = Some (Some 0, ?g)"
    using g(3) by (auto simp: add_timer_def create_task_def upd_task_def remove_timer_def tg_task_def MAX_INDEX_def Let_def split: option.splits if_splits)
  have size: "tg_size g1 = 2" and sched: "concat (tg_sched g1) = []" using g(1) by (auto simp: tg_init_def tg_new_def Let_def)
  obtain E where w: "wheel (\<lambda>_. 0) 0 g1 [] E" using g(2,5) by (auto simp: timers_def)
  have l: "listed ?g1 [] = []" "tg_task ?g1 = tg_task g1" using g(4) sched by (simp_all add: listed_def tg_task_def fun_eq_iff)
  have "wheel (\<lambda>_. 0) 1 ?g1 [] Map.empty"
  proof (rule wheelI, unfold l)
    show "holds ?g1 (set [])" using wheelD(3) [OF w] g(4) sched holds_entries [of ?g1 g1] by (simp add: listed_def)
    show "\<exists>d x. Map.empty t = Some d \<and> tg_task g1 t = Some x \<and> due_at (tg_size ?g1) 1 s d x"
      if "s < tg_size ?g1" "t \<in> set (tg_sched ?g1 ! s)" for s t
      using that sched in_slot [of t "tg_sched g1"] wheelD(2) [OF w] by auto
  qed (use wheelD(1,2) [OF w] sched in auto)
  moreover have "(0 :: int) \<le> 0" "(0 :: int) < 2 ^ 16" by simp_all
  ultimately obtain y where y: "wheel ((\<lambda>_. 0)(0 := nat 5)) 1 ?g [] Map.empty" "tg_task ?g = (tg_task ?g1)(0 \<mapsto> y)"
    "m_start_idx y = nat 0" "tg_insert ?g = 0 # tg_insert ?g1" "tg_size ?g = tg_size ?g1"
    by (rule add_timer_wheel [OF _ a])
  have "tg_insert ?g = [0]" "tg_size ?g = 2" using y(4,5) g(4) size by simp_all
  then have "tick (note_cb (\<lambda>_ _. 0)) True ([], ?g) = None"
    using start_at_once_overruns [OF y(1), of 0 "[]" y "\<lambda>_ _. 0" "[]"] y(2,3) by simp
  then show ?thesis using g(1) a by blast
qed

end
