(* ===== verification/Emittable.thy ===== *)
theory Emittable
  imports ArrayClass MsgId
begin

text \<open>
  \<^verbatim>\<open>src/src/emittable.h\<close> and \<^verbatim>\<open>emittable.hpp\<close>: objects that emit events to watchers.  The watchers of an
  object are elements of the static array \<open>m_wl\<close>, linked from \<open>m_top\<close> to \<open>m_last\<close>; commands are queued and
  executed by the thread that owns the object.  This theory has what that thread does; how threads become its
  owner is in \<open>EmitQueue\<close>.

  A watcher's functor is given by the argument \<open>call\<close>: it works on a state of its own and on the object.
  \<open>None\<close> is a use of freed memory or a loop that does not end.

  The lemmas: the watchers are a list on which the operations act as expected, as long as no watcher
  ignores an event.
\<close>

section \<open>State\<close>

definition STOP :: int where
  "STOP = 0"

definition KEEP :: int where
  "KEEP = 1"

definition IGNORE :: int where
  "IGNORE = 2"

record 'f watch_entry =
  w_f :: 'f
  w_next :: "nat option"

type_synonym MSGID = U32

datatype 'e command =
    ADD_WATCHER nat | REMOVE_WATCHER "nat option" | EMIT 'e | EMIT_ONE 'e | DESTROY

record ('f, 'e) emitter =
  m_wl :: "'f watch_entry array"
  m_top :: "nat option"
  m_last :: "nat option"
  m_commands :: "('e command \<times> MSGID) list"
  m_dying :: bool
  m_serial :: U16
  m_refc :: int

definition em_init :: "('f, 'e) emitter \<Rightarrow> ('f, 'e) emitter" where
  "em_init s = s\<lparr>m_top := None, m_last := None, m_commands := [], m_serial := m_serial s + 1\<rparr>"

definition em_refer :: "('f, 'e) emitter \<Rightarrow> ('f, 'e) emitter" where
  "em_refer s = s\<lparr>m_refc := m_refc s + 1\<rparr>"

text \<open>\<open>unref\<close>: whether the finalizer is called.\<close>

definition em_unref :: "('f, 'e) emitter \<Rightarrow> bool \<times> ('f, 'e) emitter" where
  "em_unref s =
     (let s = s\<lparr>m_refc := m_refc s - 1\<rparr> in if m_refc s \<le> 0 then (True, s\<lparr>m_dying := True\<rparr>) else (False, s))"

section \<open>The watchers of the owner's thread\<close>

definition entry :: "nat \<Rightarrow> ('f, 'e) emitter \<Rightarrow> 'f watch_entry option" where
  "entry w s = ar_vals (m_wl s) w"

definition link_next :: "nat \<Rightarrow> nat option \<Rightarrow> ('f, 'e) emitter \<Rightarrow> ('f, 'e) emitter option" where
  "link_next w n s = (case entry w s of None \<Rightarrow> None
     | Some x \<Rightarrow> Some (s\<lparr>m_wl := (m_wl s)\<lparr>ar_vals := (ar_vals (m_wl s))(w \<mapsto> x\<lparr>w_next := n\<rparr>)\<rparr>\<rparr>))"

definition free_watcher :: "nat \<Rightarrow> ('f, 'e) emitter \<Rightarrow> ('f, 'e) emitter option" where
  "free_watcher w s = map_option (\<lambda>a. s\<lparr>m_wl := a\<rparr>) (ar_free (Some w) (m_wl s))"

type_synonym ('f, 'e, 'w) call = "'f \<Rightarrow> 'e \<Rightarrow> 'w \<times> ('f, 'e) emitter \<Rightarrow> (int \<times> 'w \<times> ('f, 'e) emitter) option"

partial_function (option) emit_loop :: "('f, 'e, 'w) call \<Rightarrow> 'e \<Rightarrow> nat option \<Rightarrow> nat option \<Rightarrow> nat option
    \<Rightarrow> 'w \<times> ('f, 'e) emitter \<Rightarrow> ('w \<times> ('f, 'e) emitter) option" where
  "emit_loop call ev w remain lst s =
     (case w of None \<Rightarrow> Some (fst s, (snd s)\<lparr>m_top := remain, m_last := lst\<rparr>)
      | Some pw \<Rightarrow>
          (case entry pw (snd s) of None \<Rightarrow> None
           | Some x \<Rightarrow>
               (case call (w_f x) ev s of None \<Rightarrow> None
                | Some (r, u, s) \<Rightarrow>
                    if r = STOP then
                      (case free_watcher pw s of None \<Rightarrow> None | Some s \<Rightarrow> emit_loop call ev (w_next x) remain lst (u, s))
                    else
                      (case link_next pw remain s of None \<Rightarrow> None
                       | Some s \<Rightarrow> emit_loop call ev (w_next x) (Some pw) (if remain = None then Some pw else lst) (u, s)))))"

definition emit :: "('f, 'e, 'w) call \<Rightarrow> 'e \<Rightarrow> 'w \<times> ('f, 'e) emitter \<Rightarrow> ('w \<times> ('f, 'e) emitter) option" where
  "emit call ev s = (case s of (u, s) \<Rightarrow> emit_loop call ev (m_top s) None None (u, s\<lparr>m_top := None\<rparr>))"

text \<open>Back to the end of the list.\<close>

definition requeue :: "nat \<Rightarrow> ('f, 'e) emitter \<Rightarrow> ('f, 'e) emitter option" where
  "requeue w s =
     (case link_next w None s of None \<Rightarrow> None
      | Some s \<Rightarrow>
          map_option (\<lambda>s. s\<lparr>m_last := Some w\<rparr>)
            (case m_last s of
               Some l \<Rightarrow> link_next l (Some w) s
             | None \<Rightarrow> Some (if m_top s = m_last s then s\<lparr>m_top := Some w\<rparr> else s)))"

partial_function (option) emit_retry :: "('f, 'e, 'w) call \<Rightarrow> 'e \<Rightarrow> nat \<Rightarrow> 'w \<times> ('f, 'e) emitter \<Rightarrow> ('w \<times> ('f, 'e) emitter) option" where
  "emit_retry call ev w s =
     (case entry w (snd s) of None \<Rightarrow> None
      | Some x \<Rightarrow>
          (case call (w_f x) ev s of None \<Rightarrow> None
           | Some (r, u, s) \<Rightarrow>
               if r = STOP then map_option (Pair u) (free_watcher w s)
               else if r = IGNORE then
                 (case entry w s of None \<Rightarrow> None
                  | Some x \<Rightarrow> (case w_next x of None \<Rightarrow> Some (u, s) | Some w \<Rightarrow> emit_retry call ev w (u, s)))
               else map_option (Pair u) (requeue w s)))"

text \<open>The first watcher leaves the list; \<open>None\<close> where it is not an element.\<close>

definition pop_top :: "nat \<Rightarrow> ('f, 'e) emitter \<Rightarrow> ('f, 'e) emitter option" where
  "pop_top w s = map_option (\<lambda>x.
     if m_top s = m_last s then s\<lparr>m_top := w_next x, m_last := w_next x\<rparr> else s\<lparr>m_top := w_next x\<rparr>) (entry w s)"

definition emit_one :: "('f, 'e, 'w) call \<Rightarrow> 'e \<Rightarrow> 'w \<times> ('f, 'e) emitter \<Rightarrow> ('w \<times> ('f, 'e) emitter) option" where
  "emit_one call ev s = (case s of (u, s) \<Rightarrow>
     (case m_top s of None \<Rightarrow> Some (u, s)
      | Some w \<Rightarrow> (case pop_top w s of None \<Rightarrow> None | Some s \<Rightarrow> emit_retry call ev w (u, s))))"

definition add_watch_entry :: "nat \<Rightarrow> ('f, 'e) emitter \<Rightarrow> ('f, 'e) emitter option" where
  "add_watch_entry w s = map_option (\<lambda>s.
     if m_last s = None then s\<lparr>m_top := Some w, m_last := Some w\<rparr> else s\<lparr>m_top := Some w\<rparr>) (link_next w (m_top s) s)"

partial_function (option) free_all :: "nat option \<Rightarrow> ('f, 'e) emitter \<Rightarrow> ('f, 'e) emitter option" where
  "free_all w s =
     (case w of None \<Rightarrow> Some s
      | Some pw \<Rightarrow> (case entry pw s of None \<Rightarrow> None
          | Some x \<Rightarrow> (case free_watcher pw s of None \<Rightarrow> None | Some s \<Rightarrow> free_all (w_next x) s)))"

partial_function (option) find_remove :: "nat \<Rightarrow> nat option \<Rightarrow> nat \<Rightarrow> ('f, 'e) emitter \<Rightarrow> ((nbr_error + unit) \<times> ('f, 'e) emitter) option" where
  "find_remove w cur prev s =
     (case cur of None \<Rightarrow> Some (Inl ENOTFOUND, s)
      | Some c \<Rightarrow>
          (case entry c s of None \<Rightarrow> None
           | Some x \<Rightarrow>
               if c = w then
                 (case link_next prev (w_next x) s of None \<Rightarrow> None
                  | Some s \<Rightarrow> map_option (Pair (Inr ())) (free_watcher w (if Some c = m_last s then s\<lparr>m_last := Some prev\<rparr> else s)))
               else find_remove w (w_next x) c s))"

definition remove_watch_entry :: "nat option \<Rightarrow> ('f, 'e) emitter \<Rightarrow> ((nbr_error + unit) \<times> ('f, 'e) emitter) option" where
  "remove_watch_entry w s =
     (case w of
        None \<Rightarrow> map_option (\<lambda>s. (Inr (), s\<lparr>m_top := None, m_last := None\<rparr>)) (free_all (m_top s) s)
      | Some w \<Rightarrow>
          if m_top s = Some w then
            (case pop_top w s of None \<Rightarrow> None | Some s \<Rightarrow> map_option (Pair (Inr ())) (free_watcher w s))
          else
            (case m_top s of None \<Rightarrow> Some (Inl ENOTFOUND, s)
             | Some t \<Rightarrow> (case entry t s of None \<Rightarrow> None | Some x \<Rightarrow> find_remove w (w_next x) t s)))"

section \<open>Commands\<close>

text \<open>
  \<open>add_watcher\<close>, \<open>remove_watcher\<close> and \<open>emit\<close> from any thread: the command is queued, when the object is not
  dying.  \<open>okw\<close> and \<open>okc\<close> say whether there is memory for the watcher and the command; without memory for
  the command the watcher is lost.
\<close>

definition queue_command :: "'e command \<Rightarrow> MSGID \<Rightarrow> ('f, 'e) emitter \<Rightarrow> ('f, 'e) emitter" where
  "queue_command c msgid s = s\<lparr>m_commands := m_commands s @ [(c, msgid)]\<rparr>"

definition add_watcher :: "bool \<Rightarrow> bool \<Rightarrow> 'f \<Rightarrow> nat option \<Rightarrow> MSGID \<Rightarrow> ('f, 'e) emitter \<Rightarrow> (nat option \<times> ('f, 'e) emitter) option" where
  "add_watcher okw okc f junk msgid s =
     (if m_dying s then Some (None, s)
      else (case ar_alloc okw \<lparr>w_f = f, w_next = junk\<rparr> (m_wl s) of None \<Rightarrow> None
        | Some (None, a) \<Rightarrow> Some (None, s\<lparr>m_wl := a\<rparr>)
        | Some (Some w, a) \<Rightarrow>
            (let s = s\<lparr>m_wl := a\<rparr> in
             if okc then Some (Some w, queue_command (ADD_WATCHER w) msgid s) else Some (None, s))))"

definition remove_watcher :: "bool \<Rightarrow> nat option \<Rightarrow> MSGID \<Rightarrow> ('f, 'e) emitter \<Rightarrow> (nbr_error + unit) \<times> ('f, 'e) emitter" where
  "remove_watcher okc w msgid s =
     (if m_dying s then (Inl EINVAL, s)
      else if okc then (Inr (), queue_command (REMOVE_WATCHER w) msgid s) else (Inl EMALLOC, s))"

definition remove_all_watcher :: "bool \<Rightarrow> bool \<Rightarrow> ('f, 'e) emitter \<Rightarrow> ((nbr_error + unit) \<times> ('f, 'e) emitter) option" where
  "remove_all_watcher okc now s =
     (if now then remove_watch_entry None s else Some (remove_watcher okc None INVALID_MSGID s))"

definition emit_command :: "bool \<Rightarrow> 'e command \<Rightarrow> MSGID \<Rightarrow> ('f, 'e) emitter \<Rightarrow> (nbr_error + unit) \<times> ('f, 'e) emitter" where
  "emit_command okc c msgid s =
     (if m_dying s then (Inl EINVAL, s)
      else if okc then (Inr (), queue_command c msgid s) else (Inl EMALLOC, s))"

text \<open>
  One command of \<open>process_commands\<close>; \<open>resume\<close> resumes the fiber that waits for it.  The finalizer of
  \<open>DESTROY\<close>, after which nothing is done, is not the object's code.
\<close>

definition process_command :: "('f, 'e, 'w) call \<Rightarrow> (MSGID \<Rightarrow> 'w \<times> ('f, 'e) emitter \<Rightarrow> 'w \<times> ('f, 'e) emitter)
    \<Rightarrow> 'e command \<times> MSGID \<Rightarrow> 'w \<times> ('f, 'e) emitter \<Rightarrow> ('w \<times> ('f, 'e) emitter) option" where
  "process_command call resume c s = (case c of (c, msgid) \<Rightarrow>
     map_option (\<lambda>s. if msgid \<noteq> INVALID_MSGID then resume msgid s else s)
       (case c of
          ADD_WATCHER w \<Rightarrow> map_option (Pair (fst s)) (add_watch_entry w (snd s))
        | REMOVE_WATCHER w \<Rightarrow> map_option (\<lambda>(_, e). (fst s, e)) (remove_watch_entry w (snd s))
        | EMIT ev \<Rightarrow> emit call ev s
        | EMIT_ONE ev \<Rightarrow> emit_one call ev s
        | DESTROY \<Rightarrow> Some s))"

fun process_batch :: "('f, 'e, 'w) call \<Rightarrow> (MSGID \<Rightarrow> 'w \<times> ('f, 'e) emitter \<Rightarrow> 'w \<times> ('f, 'e) emitter)
    \<Rightarrow> ('e command \<times> MSGID) list \<Rightarrow> 'w \<times> ('f, 'e) emitter \<Rightarrow> ('w \<times> ('f, 'e) emitter) option" where
  "process_batch call resume [] s = Some s"
| "process_batch call resume (c # cs) s =
     (if fst c = DESTROY then Some s
      else case process_command call resume c s of None \<Rightarrow> None | Some s \<Rightarrow> process_batch call resume cs s)"

definition clear_commands_and_watchers :: "('f, 'e) emitter \<Rightarrow> ('f, 'e) emitter option" where
  "clear_commands_and_watchers s =
     (let w = m_top s in free_all w (s\<lparr>m_top := None, m_last := None, m_commands := []\<rparr>))"

section \<open>The list of watchers\<close>

text \<open>A watcher with its functor; \<open>wseg\<close> is the chain of watchers from one pointer to another.\<close>

fun wseg :: "(nat \<rightharpoonup> 'f watch_entry) \<Rightarrow> nat option \<Rightarrow> (nat \<times> 'f) list \<Rightarrow> nat option \<Rightarrow> bool" where
  "wseg v p [] q = (p = q)"
| "wseg v p ((w, f) # ws) q = (p = Some w \<and> (\<exists>n. v w = Some \<lparr>w_f = f, w_next = n\<rparr> \<and> wseg v n ws q))"

definition end_of :: "(nat \<times> 'f) list \<Rightarrow> nat option" where
  "end_of ws = (if ws = [] then None else Some (fst (last ws)))"

text \<open>
  The watchers in the list, and \<open>new\<close>, those which are allocated and wait to be added; \<open>fn\<close> gives the functors
  of the latter.
\<close>

definition owned :: "nat list \<Rightarrow> (nat \<Rightarrow> 'f) \<Rightarrow> nat list \<Rightarrow> ('f, 'e) emitter \<Rightarrow> bool" where
  "owned ws fn new s \<longleftrightarrow> (\<exists>es. ar_holds (m_wl s) es \<and> set (ws @ new) \<subseteq> set es) \<and> distinct (ws @ new)
     \<and> (\<forall>w \<in> set new. \<exists>x. entry w s = Some x \<and> w_f x = fn w)"

definition watchers :: "(nat \<times> 'f) list \<Rightarrow> (nat \<Rightarrow> 'f) \<Rightarrow> nat list \<Rightarrow> ('f, 'e) emitter \<Rightarrow> bool" where
  "watchers ws fn new s \<longleftrightarrow> owned (map fst ws) fn new s \<and> wseg (ar_vals (m_wl s)) (m_top s) ws None \<and> m_last s = end_of ws"

lemma end_of_simps [simp]: "end_of [] = None" "end_of (ws @ [w]) = Some (fst w)" "end_of (w # v # ws) = end_of (v # ws)"
  "end_of [w] = Some (fst w)" "end_of ws = None \<longleftrightarrow> ws = []"
  by (simp_all add: end_of_def)

lemma end_of_append [simp]: "end_of (as @ b # bs) = end_of (b # bs)"
  by (simp add: end_of_def)

lemma filter_out [simp]: "w \<notin> fst ` set ws \<Longrightarrow> filter (\<lambda>u. fst u \<noteq> w) ws = ws"
  by (induction ws) auto

lemma wseg_append: "wseg v p (as @ bs) r \<longleftrightarrow> (\<exists>q. wseg v p as q \<and> wseg v q bs r)"
proof (induction as arbitrary: p)
  case (Cons w as)
  then show ?case by (cases w) auto
qed simp

lemma wseg_cong: "\<forall>w \<in> set (map fst ws). v' w = v w \<Longrightarrow> wseg v' p ws q = wseg v p ws q"
  by (induction ws arbitrary: p) auto

lemma wseg_upd [simp]: "w \<notin> fst ` set ws \<Longrightarrow> wseg (v(w := x)) p ws q = wseg v p ws q"
  by (rule wseg_cong) auto

lemma wseg_end: "wseg v p ws None \<Longrightarrow> p = None \<longleftrightarrow> ws = []"
  by (cases ws) auto

lemma link_next_runs:
  assumes "entry w s = Some x"
  obtains a where "link_next w n s = Some (s\<lparr>m_wl := a\<rparr>)" "ar_vals a = (ar_vals (m_wl s))(w \<mapsto> x\<lparr>w_next := n\<rparr>)"
    "\<And>es. ar_holds (m_wl s) es \<Longrightarrow> ar_holds a es"
proof -
  let ?a = "(m_wl s)\<lparr>ar_vals := (ar_vals (m_wl s))(w \<mapsto> x\<lparr>w_next := n\<rparr>)\<rparr>"
  have "ar_holds ?a es" if "ar_holds (m_wl s) es" for es using that assms by (auto simp: ar_holds_def entry_def)
  then show ?thesis using assms by (intro that [of ?a]) (simp_all add: link_next_def)
qed

lemma free_watcher_runs:
  assumes "ar_holds (m_wl s) es" "w \<in> set es"
  obtains a es' where "free_watcher w s = Some (s\<lparr>m_wl := a\<rparr>)" "ar_vals a = (ar_vals (m_wl s))(w := None)"
    "ar_holds a es'" "set es' = set es - {w}"
proof -
  obtain as bs where l: "es = as @ w # bs" using assms(2) by (metis split_list)
  have "distinct es" by (rule ar_holds_distinct [OF assms(1)])
  then have "set (as @ bs) = set es - {w}" using l by auto
  moreover obtain a where "ar_free (Some w) (m_wl s) = Some a" "ar_holds a (as @ bs)" "ar_vals a = (ar_vals (m_wl s))(w := None)"
    using ar_free_holds assms(1) l by blast
  ultimately show ?thesis by (intro that [of a "as @ bs"]) (simp_all add: free_watcher_def)
qed

lemma owned_mono:
  assumes "owned (map fst ws) fn new s" "set ws' \<subseteq> set ws" "distinct (map fst ws')"
  shows "owned (map fst ws') fn new s"
  using assms unfolding owned_def by (auto 0 4)

lemma owned_set_next:
  assumes "owned ws fn new s" "link_next w n s = Some s'"
  shows "owned ws fn new s'"
proof -
  obtain x where x: "entry w s = Some x" using assms(2) by (auto simp: link_next_def split: option.splits)
  obtain es where "ar_holds (m_wl s) es" "set (ws @ new) \<subseteq> set es" using assms(1) by (auto simp: owned_def)
  moreover from link_next_runs [OF x, of n] obtain a where "s' = s\<lparr>m_wl := a\<rparr>" "ar_vals a = (ar_vals (m_wl s))(w \<mapsto> x\<lparr>w_next := n\<rparr>)"
    "\<And>es. ar_holds (m_wl s) es \<Longrightarrow> ar_holds a es" using assms(2) by (metis option.inject)
  ultimately show ?thesis using assms(1) x unfolding owned_def entry_def by fastforce
qed

lemma owned_free:
  assumes "owned (ws @ w # vs) fn new s"
  shows "\<exists>a. free_watcher w s = Some (s\<lparr>m_wl := a\<rparr>) \<and> ar_vals a = (ar_vals (m_wl s))(w := None)
    \<and> owned (ws @ vs) fn new (s\<lparr>m_wl := a\<rparr>)"
proof -
  obtain es where es: "ar_holds (m_wl s) es" "set ((ws @ w # vs) @ new) \<subseteq> set es" using assms by (auto simp: owned_def)
  then have "w \<in> set es" by simp
  from free_watcher_runs [OF es(1) this] obtain a es' where a: "free_watcher w s = Some (s\<lparr>m_wl := a\<rparr>)"
    "ar_vals a = (ar_vals (m_wl s))(w := None)" "ar_holds a es'" "set es' = set es - {w}" .
  have d: "distinct ((ws @ w # vs) @ new)" using assms by (simp add: owned_def)
  have "set ((ws @ vs) @ new) \<subseteq> set es'" using es(2) a(4) d by auto
  moreover have "\<exists>x. entry v (s\<lparr>m_wl := a\<rparr>) = Some x \<and> w_f x = fn v" if "v \<in> set new" for v
    using assms that a(2) d by (auto simp: owned_def entry_def)
  ultimately have "owned (ws @ vs) fn new (s\<lparr>m_wl := a\<rparr>)" using a(3) d unfolding owned_def by auto
  with a show ?thesis by blast
qed

section \<open>The operations on the list\<close>

text \<open>A functor that notes that it was called, and with what.\<close>

definition tell :: "('f \<Rightarrow> 'e \<Rightarrow> int) \<Rightarrow> ('f, 'e, ('f \<times> 'e) list) call" where
  "tell ret f ev s = (case s of (u, s) \<Rightarrow> Some (ret f ev, u @ [(f, ev)], s))"

definition keeps :: "('f \<Rightarrow> 'e \<Rightarrow> int) \<Rightarrow> 'e \<Rightarrow> nat \<times> 'f \<Rightarrow> bool" where
  "keeps ret ev w = (ret (snd w) ev \<noteq> STOP)"

lemma emit_loop_list:
  assumes "owned (map fst (rs @ ws)) fn new s" "wseg (ar_vals (m_wl s)) w ws None" "wseg (ar_vals (m_wl s)) remain rs None"
    and "lst = end_of rs"
  shows "\<exists>s'. emit_loop (tell ret) ev w remain lst (u, s) = Some (u @ map (\<lambda>w. (snd w, ev)) ws, s')
    \<and> watchers (rev (filter (keeps ret ev) ws) @ rs) fn new s' \<and> m_commands s' = m_commands s \<and> m_dying s' = m_dying s"
  using assms
proof (induction ws arbitrary: s w remain lst rs u)
  case Nil
  then show ?case by (auto simp: emit_loop.simps watchers_def owned_def entry_def)
next
  case (Cons p ws)
  obtain v f where p: "p = (v, f)" by fastforce
  obtain n where n: "w = Some v" "entry v s = Some \<lparr>w_f = f, w_next = n\<rparr>" "wseg (ar_vals (m_wl s)) n ws None"
    using Cons.prems(2) by (auto simp: p entry_def)
  have d: "v \<notin> fst ` set rs" "v \<notin> fst ` set ws" using Cons.prems(1) by (auto simp: owned_def p)
  show ?case
  proof (cases "ret f ev = STOP")
    case True
    have "owned (map fst rs @ v # map fst ws) fn new s" using Cons.prems(1) by (simp add: p)
    from owned_free [OF this] obtain a where a: "free_watcher v s = Some (s\<lparr>m_wl := a\<rparr>)"
      "ar_vals a = (ar_vals (m_wl s))(v := None)" "owned (map fst (rs @ ws)) fn new (s\<lparr>m_wl := a\<rparr>)" by (auto simp: p)
    have "wseg (ar_vals (m_wl (s\<lparr>m_wl := a\<rparr>))) n ws None" "wseg (ar_vals (m_wl (s\<lparr>m_wl := a\<rparr>))) remain rs None"
      using n(3) Cons.prems(3) a(2) d by simp_all
    from Cons.IH [OF a(3) this refl, of "u @ [(f, ev)]"]
    show ?thesis using True n(1,2) a(1) Cons.prems(4)
      by (auto simp: emit_loop.simps [of _ _ "Some v"] tell_def keeps_def p)
  next
    case False
    from link_next_runs [OF n(2), of remain] obtain a where a: "link_next v remain s = Some (s\<lparr>m_wl := a\<rparr>)"
      "ar_vals a = (ar_vals (m_wl s))(v \<mapsto> \<lparr>w_f = f, w_next = remain\<rparr>)" by auto
    have "owned (map fst (rs @ p # ws)) fn new (s\<lparr>m_wl := a\<rparr>)" by (rule owned_set_next [OF Cons.prems(1) a(1)])
    then have o: "owned (map fst ((p # rs) @ ws)) fn new (s\<lparr>m_wl := a\<rparr>)" by (rule owned_mono) (use Cons.prems(1) in \<open>auto simp: owned_def\<close>)
    have rs: "wseg (ar_vals a) (Some v) (p # rs) None" "wseg (ar_vals a) n ws None"
      using Cons.prems(3) n(3) a(2) d by (simp_all add: p)
    have l: "(if remain = None then Some v else lst) = end_of (p # rs)"
      using wseg_end [OF Cons.prems(3)] Cons.prems(4) by (auto simp: p end_of_def)
    from Cons.IH [OF o, of n "Some v" "end_of (p # rs)" "u @ [(f, ev)]"] rs False n(1,2) a(1) l
    show ?thesis by (auto simp: emit_loop.simps [of _ _ "Some v"] tell_def keeps_def p)
  qed
qed

lemma emit_list:
  assumes "watchers ws fn new s"
  shows "\<exists>s'. emit (tell ret) ev (u, s) = Some (u @ map (\<lambda>w. (snd w, ev)) ws, s')
    \<and> watchers (rev (filter (keeps ret ev) ws)) fn new s' \<and> m_commands s' = m_commands s \<and> m_dying s' = m_dying s"
proof -
  have "owned (map fst ([] @ ws)) fn new (s\<lparr>m_top := None\<rparr>)" using assms by (simp add: watchers_def owned_def entry_def)
  from emit_loop_list [OF this, of "m_top s" None None ret ev u] assms show ?thesis
    by (auto simp: emit_def watchers_def)
qed

lemma add_list:
  assumes "watchers ws fn (w # new) s"
  shows "\<exists>s'. add_watch_entry w s = Some s' \<and> watchers ((w, fn w) # ws) fn new s' \<and> m_commands s' = m_commands s \<and> m_dying s' = m_dying s"
proof -
  obtain x where x: "entry w s = Some x" "w_f x = fn w" using assms by (auto simp: watchers_def owned_def)
  from link_next_runs [OF x(1), of "m_top s"] obtain a where a: "link_next w (m_top s) s = Some (s\<lparr>m_wl := a\<rparr>)"
    "ar_vals a = (ar_vals (m_wl s))(w \<mapsto> x\<lparr>w_next := m_top s\<rparr>)" by auto
  have x': "x\<lparr>w_next := m_top s\<rparr> = \<lparr>w_f = fn w, w_next = m_top s\<rparr>" using x(2) by (cases x) simp
  have d: "w \<notin> fst ` set ws" using assms by (auto simp: watchers_def owned_def)
  have "owned (map fst ws) fn (w # new) (s\<lparr>m_wl := a\<rparr>)" using assms a(1) owned_set_next by (auto simp: watchers_def)
  then have "owned (map fst ((w, fn w) # ws)) fn new (s\<lparr>m_wl := a\<rparr>)" by (auto simp: owned_def)
  moreover have "wseg (ar_vals a) (Some w) ((w, fn w) # ws) None" using assms a(2) x' d by (simp add: watchers_def)
  ultimately show ?thesis using a(1) assms by (auto simp: add_watch_entry_def watchers_def owned_def entry_def end_of_def)
qed

lemma pop_list:
  assumes "watchers ((w, f) # ws) fn new s"
  shows "\<exists>s' n. pop_top w s = Some s' \<and> entry w s' = Some \<lparr>w_f = f, w_next = n\<rparr> \<and> m_top s' = n
    \<and> wseg (ar_vals (m_wl s')) n ws None \<and> m_last s' = end_of ws \<and> m_wl s' = m_wl s \<and> m_commands s' = m_commands s \<and> m_dying s' = m_dying s"
proof -
  obtain n where n: "m_top s = Some w" "entry w s = Some \<lparr>w_f = f, w_next = n\<rparr>" "wseg (ar_vals (m_wl s)) n ws None"
    using assms by (auto simp: watchers_def entry_def)
  have e: "m_last s = end_of ((w, f) # ws)" using assms by (simp add: watchers_def)
  have "m_top s = m_last s \<longleftrightarrow> ws = []"
  proof
    assume "m_top s = m_last s"
    then have "w = fst (last ((w, f) # ws))" using n(1) e by (simp add: end_of_def)
    moreover have "w \<notin> fst ` set ws" using assms by (auto simp: watchers_def owned_def)
    ultimately show "ws = []" by (auto split: if_splits)
  qed (use n(1) e in simp)
  then show ?thesis using n e by (auto simp: pop_top_def entry_def end_of_def wseg_end)
qed

lemma free_all_list:
  "owned (map fst ws) fn new s \<Longrightarrow> wseg (ar_vals (m_wl s)) w ws None \<Longrightarrow>
    \<exists>a. free_all w s = Some (s\<lparr>m_wl := a\<rparr>) \<and> owned [] fn new (s\<lparr>m_wl := a\<rparr>)"
proof (induction ws arbitrary: s w)
  case Nil
  then have "free_all w s = Some (s\<lparr>m_wl := m_wl s\<rparr>)" by (simp add: free_all.simps)
  with Nil show ?case by (intro exI [of _ "m_wl s"]) simp
next
  case (Cons p ws)
  obtain v f where p: "p = (v, f)" by fastforce
  obtain n where n: "w = Some v" "entry v s = Some \<lparr>w_f = f, w_next = n\<rparr>" "wseg (ar_vals (m_wl s)) n ws None"
    using Cons.prems(2) by (auto simp: p entry_def)
  have "owned ([] @ v # map fst ws) fn new s" using Cons.prems(1) by (simp add: p)
  from owned_free [OF this] obtain a where a: "free_watcher v s = Some (s\<lparr>m_wl := a\<rparr>)"
    "ar_vals a = (ar_vals (m_wl s))(v := None)" "owned (map fst ws) fn new (s\<lparr>m_wl := a\<rparr>)" by (auto simp: p)
  have "v \<notin> fst ` set ws" using Cons.prems(1) by (auto simp: owned_def p)
  then have "wseg (ar_vals (m_wl (s\<lparr>m_wl := a\<rparr>))) n ws None" using n(3) a(2) by simp
  from Cons.IH [OF a(3) this] obtain b where
    "free_all n (s\<lparr>m_wl := a\<rparr>) = Some (s\<lparr>m_wl := b\<rparr>)" "owned [] fn new (s\<lparr>m_wl := b\<rparr>)" by auto
  then show ?case using n(1,2) a(1) by (auto simp: free_all.simps [of "Some v"])
qed

lemma requeue_list:
  assumes o: "owned (w # map fst ws) fn new s" and x: "entry w s = Some x" "w_f x = f"
    and c: "wseg (ar_vals (m_wl s)) (m_top s) ws None" "m_last s = end_of ws"
  shows "\<exists>s'. requeue w s = Some s' \<and> watchers (ws @ [(w, f)]) fn new s' \<and> m_commands s' = m_commands s \<and> m_dying s' = m_dying s"
proof -
  from link_next_runs [OF x(1), of None] obtain a where a: "link_next w None s = Some (s\<lparr>m_wl := a\<rparr>)"
    "ar_vals a = (ar_vals (m_wl s))(w \<mapsto> x\<lparr>w_next := None\<rparr>)" by auto
  let ?s = "s\<lparr>m_wl := a\<rparr>"
  have x': "x\<lparr>w_next := None\<rparr> = \<lparr>w_f = f, w_next = None\<rparr>" using x(2) by (cases x) simp
  have d: "w \<notin> fst ` set ws" using o by (auto simp: owned_def)
  have oa: "owned (w # map fst ws) fn new ?s" by (rule owned_set_next [OF o a(1)])
  have perm: "owned (map fst (ws @ [(w, f)])) fn new t" if "owned (w # map fst ws) fn new t" for t :: "('a, 'b) emitter"
    using that by (auto simp: owned_def)
  show ?thesis
  proof (cases ws rule: rev_cases)
    case Nil
    then show ?thesis using a x' c perm [OF oa] by (auto simp: requeue_def watchers_def owned_def entry_def)
  next
    case (snoc vs p)
    obtain l g where p: "p = (l, g)" by fastforce
    obtain n where n: "wseg (ar_vals (m_wl s)) (m_top s) vs (Some l)" "ar_vals (m_wl s) l = Some \<lparr>w_f = g, w_next = n\<rparr>"
      using c(1) by (auto simp: snoc p wseg_append)
    have dl: "l \<noteq> w" "l \<notin> fst ` set vs" "w \<notin> fst ` set vs" using o by (auto simp: owned_def snoc p)
    then have "entry l ?s = Some \<lparr>w_f = g, w_next = n\<rparr>" using n(2) a(2) by (simp add: entry_def)
    from link_next_runs [OF this, of "Some w"] obtain b where b: "link_next l (Some w) ?s = Some (?s\<lparr>m_wl := b\<rparr>)"
      "ar_vals b = (ar_vals a)(l \<mapsto> \<lparr>w_f = g, w_next = Some w\<rparr>)" by auto
    have "owned (w # map fst ws) fn new (?s\<lparr>m_wl := b\<rparr>)" by (rule owned_set_next [OF oa b(1)])
    from perm [OF this] have "owned (map fst (ws @ [(w, f)])) fn new (s\<lparr>m_wl := b, m_last := Some w\<rparr>)" by (simp add: owned_def entry_def)
    moreover have "wseg (ar_vals b) (m_top s) (ws @ [(w, f)]) None"
      using n(1) a(2) b(2) dl x' by (simp add: snoc p wseg_append)
    ultimately show ?thesis using a(1) b(1) c(2) by (simp add: requeue_def watchers_def snoc p)
  qed
qed

lemma emit_one_list:
  assumes w: "watchers ((w, f) # ws) fn new s" and r: "ret f ev \<noteq> IGNORE"
  shows "\<exists>s'. emit_one (tell ret) ev (u, s) = Some (u @ [(f, ev)], s')
    \<and> watchers (if ret f ev = STOP then ws else ws @ [(w, f)]) fn new s' \<and> m_commands s' = m_commands s \<and> m_dying s' = m_dying s"
proof -
  obtain s1 n where s1: "pop_top w s = Some s1" "entry w s1 = Some \<lparr>w_f = f, w_next = n\<rparr>" "m_top s1 = n"
    "wseg (ar_vals (m_wl s1)) n ws None" "m_last s1 = end_of ws" "m_wl s1 = m_wl s" "m_commands s1 = m_commands s" "m_dying s1 = m_dying s"
    using pop_list [OF w] by blast
  have o: "owned (w # map fst ws) fn new s1" using w s1(6) by (auto simp: watchers_def owned_def entry_def)
  have t: "m_top s = Some w" using w by (simp add: watchers_def)
  show ?thesis
  proof (cases "ret f ev = STOP")
    case True
    have "owned ([] @ w # map fst ws) fn new s1" using o by simp
    from owned_free [OF this] obtain a where a: "free_watcher w s1 = Some (s1\<lparr>m_wl := a\<rparr>)"
      "ar_vals a = (ar_vals (m_wl s1))(w := None)" "owned (map fst ws) fn new (s1\<lparr>m_wl := a\<rparr>)" by auto
    moreover have "w \<notin> fst ` set ws" using o by (auto simp: owned_def)
    ultimately have "watchers ws fn new (s1\<lparr>m_wl := a\<rparr>)" using s1 by (simp add: watchers_def)
    then show ?thesis using True t s1 a(1) by (simp add: emit_one_def emit_retry.simps tell_def)
  next
    case False
    from requeue_list [OF o s1(2) _ _ s1(5), of f] s1(3,4) obtain s2 where s2: "requeue w s1 = Some s2"
      "watchers (ws @ [(w, f)]) fn new s2" "m_commands s2 = m_commands s1" "m_dying s2 = m_dying s1" by auto
    then show ?thesis using False t s1 r by (simp add: emit_one_def emit_retry.simps tell_def)
  qed
qed

lemma find_remove_list:
  assumes "wseg (ar_vals (m_wl s)) (m_top s) (as @ [(p, g)]) cur" "wseg (ar_vals (m_wl s)) cur ws None"
    and "owned (map fst (as @ (p, g) # ws)) fn new s" "m_last s = end_of ((p, g) # ws)" "w \<notin> set (map fst (as @ [(p, g)]))"
  shows "\<exists>r s'. find_remove w cur p s = Some (r, s') \<and> watchers (filter (\<lambda>v. fst v \<noteq> w) (as @ (p, g) # ws)) fn new s'
    \<and> r = (if w \<in> fst ` set ws then Inr () else Inl ENOTFOUND) \<and> m_commands s' = m_commands s \<and> m_dying s' = m_dying s"
  using assms
proof (induction ws arbitrary: as p g cur)
  case Nil
  then have "filter (\<lambda>v. fst v \<noteq> w) (as @ [(p, g)]) = as @ [(p, g)]" by (auto intro!: filter_True)
  then show ?case using Nil by (auto simp: find_remove.simps watchers_def end_of_def)
next
  case (Cons q ws)
  obtain v f where q: "q = (v, f)" by fastforce
  obtain n where n: "cur = Some v" "entry v s = Some \<lparr>w_f = f, w_next = n\<rparr>" "wseg (ar_vals (m_wl s)) n ws None"
    using Cons.prems(2) by (auto simp: q entry_def)
  have "distinct (map fst (as @ (p, g) # q # ws) @ new)" using Cons.prems(3) unfolding owned_def by blast
  then have di: "distinct (map fst (as @ (p, g) # q # ws))" by (simp only: distinct_append)
  show ?case
  proof (cases "v = w")
    case False
    have "wseg (ar_vals (m_wl s)) (m_top s) ((as @ [(p, g)]) @ [(v, f)]) n"
      using Cons.prems(1) n(1,2) by (auto simp: wseg_append entry_def)
    from Cons.IH [OF this n(3)] Cons.prems(3-5) False show ?thesis
      using n(1,2) by (auto simp: find_remove.simps [of w "Some v"] q end_of_def)
  next
    case True
    obtain m where m: "wseg (ar_vals (m_wl s)) (m_top s) as (Some p)" "ar_vals (m_wl s) p = Some \<lparr>w_f = g, w_next = m\<rparr>"
      using Cons.prems(1) by (auto simp: wseg_append)
    then have "entry p s = Some \<lparr>w_f = g, w_next = m\<rparr>" by (simp add: entry_def)
    from link_next_runs [OF this, of n] obtain a where a: "link_next p n s = Some (s\<lparr>m_wl := a\<rparr>)"
      "ar_vals a = (ar_vals (m_wl s))(p \<mapsto> \<lparr>w_f = g, w_next = n\<rparr>)" by auto
    let ?l = "if Some v = m_last s then Some p else m_last s"
    let ?s = "s\<lparr>m_wl := a, m_last := ?l\<rparr>"
    have s': "(if Some v = m_last (s\<lparr>m_wl := a\<rparr>) then (s\<lparr>m_wl := a\<rparr>)\<lparr>m_last := Some p\<rparr> else s\<lparr>m_wl := a\<rparr>) = ?s" by (cases s) simp
    have "owned (map fst (as @ [(p, g)]) @ v # map fst ws) fn new (s\<lparr>m_wl := a\<rparr>)"
      using owned_set_next [OF Cons.prems(3) a(1)] by (simp add: q)
    then have "owned (map fst (as @ [(p, g)]) @ v # map fst ws) fn new ?s" by (simp add: owned_def entry_def)
    from owned_free [OF this] obtain b where b: "free_watcher v ?s = Some (?s\<lparr>m_wl := b\<rparr>)"
      "ar_vals b = (ar_vals a)(v := None)" "owned (map fst (as @ [(p, g)]) @ map fst ws) fn new (?s\<lparr>m_wl := b\<rparr>)" by auto
    have out: "v \<notin> fst ` set as" "v \<notin> fst ` set ws" "v \<noteq> p" "p \<notin> fst ` set as" "p \<notin> fst ` set ws"
      using di by (auto simp: q)
    have "wseg (ar_vals b) (m_top s) (as @ (p, g) # ws) None"
      using m(1) n(3) out a(2) b(2) by (simp add: wseg_append)
    moreover have "?l = end_of ((p, g) # ws)"
    proof (cases "ws = []")
      case True
      then show ?thesis using Cons.prems(4) by (simp add: q)
    next
      case False
      then have "m_last s = Some (fst (last ws))" "last ws \<in> set ws" using Cons.prems(4) by (simp_all add: end_of_def)
      then show ?thesis using out(2) False by (auto simp: end_of_def)
    qed
    moreover have "filter (\<lambda>u. fst u \<noteq> w) (as @ (p, g) # q # ws) = as @ (p, g) # ws"
      using out True by (simp add: q)
    ultimately have "watchers (filter (\<lambda>u. fst u \<noteq> w) (as @ (p, g) # q # ws)) fn new (?s\<lparr>m_wl := b\<rparr>)"
      using b(3) by (simp add: watchers_def)
    moreover have "find_remove w cur p s = (case link_next p n s of None \<Rightarrow> None
      | Some s \<Rightarrow> map_option (Pair (Inr ())) (free_watcher w (if Some w = m_last s then s\<lparr>m_last := Some p\<rparr> else s)))"
      using n(1,2) True by (simp add: find_remove.simps [of w "Some w"])
    then have "find_remove w cur p s = Some (Inr (), ?s\<lparr>m_wl := b\<rparr>)"
      unfolding True by (simp only: a(1) option.case s' [unfolded True] b(1) [unfolded True] option.map)
    moreover have "w \<in> fst ` set (q # ws)" using True by (simp add: q)
    ultimately show ?thesis by (intro exI [of _ "Inr ()"] exI [of _ "?s\<lparr>m_wl := b\<rparr>"] conjI) (simp_all del: filter.simps)
  qed
qed

lemma remove_list:
  assumes w: "watchers ws fn new s"
  shows "\<exists>r s'. remove_watch_entry (Some w) s = Some (r, s') \<and> watchers (filter (\<lambda>v. fst v \<noteq> w) ws) fn new s'
    \<and> r = (if w \<in> fst ` set ws then Inr () else Inl ENOTFOUND) \<and> m_commands s' = m_commands s \<and> m_dying s' = m_dying s"
proof (cases ws)
  case Nil
  then show ?thesis using w by (simp add: remove_watch_entry_def watchers_def)
next
  case (Cons p vs)
  obtain v f where p: "p = (v, f)" by fastforce
  have t: "m_top s = Some v" using w by (simp add: watchers_def Cons p)
  show ?thesis
  proof (cases "v = w")
    case True
    obtain s1 n where s1: "pop_top w s = Some s1" "m_top s1 = n" "wseg (ar_vals (m_wl s1)) n vs None" "m_last s1 = end_of vs"
      "m_wl s1 = m_wl s" "m_commands s1 = m_commands s" "m_dying s1 = m_dying s"
      using pop_list [of w f vs fn new s] w True by (auto simp: Cons p)
    have o: "owned ([] @ w # map fst vs) fn new s1" using w s1(5) True by (auto simp: watchers_def owned_def entry_def Cons p)
    from owned_free [OF o] obtain a where a: "free_watcher w s1 = Some (s1\<lparr>m_wl := a\<rparr>)"
      "ar_vals a = (ar_vals (m_wl s1))(w := None)" "owned (map fst vs) fn new (s1\<lparr>m_wl := a\<rparr>)" by auto
    have out: "w \<notin> fst ` set vs" using o by (auto simp: owned_def)
    then have "filter (\<lambda>v. fst v \<noteq> w) ws = vs" using True by (simp add: Cons p)
    moreover have "watchers vs fn new (s1\<lparr>m_wl := a\<rparr>)" using a(2,3) s1(2-4) out by (simp add: watchers_def)
    ultimately show ?thesis using t True s1(1,6,7) a(1) by (simp add: remove_watch_entry_def Cons p)
  next
    case False
    obtain n where n: "entry v s = Some \<lparr>w_f = f, w_next = n\<rparr>" "wseg (ar_vals (m_wl s)) n vs None"
      using w by (auto simp: watchers_def entry_def Cons p)
    have "wseg (ar_vals (m_wl s)) (m_top s) ([] @ [(v, f)]) n" using n t by (simp add: entry_def)
    from find_remove_list [OF this n(2), of fn new w] w False n(1) t show ?thesis
      by (auto simp: remove_watch_entry_def watchers_def Cons p)
  qed
qed

lemma remove_all_list:
  assumes "watchers ws fn new s"
  shows "\<exists>s'. remove_watch_entry None s = Some (Inr (), s') \<and> watchers [] fn new s' \<and> m_commands s' = m_commands s \<and> m_dying s' = m_dying s"
proof -
  from free_all_list [of ws fn new s "m_top s"] assms obtain a where "free_all (m_top s) s = Some (s\<lparr>m_wl := a\<rparr>)"
    "owned [] fn new (s\<lparr>m_wl := a\<rparr>)" by (auto simp: watchers_def)
  then show ?thesis by (auto simp: remove_watch_entry_def watchers_def owned_def entry_def)
qed

section \<open>Batches of commands\<close>

text \<open>What a command does to the list of watchers and to the notes of their functors.\<close>

fun list_command :: "('f \<Rightarrow> 'e \<Rightarrow> int) \<Rightarrow> (nat \<Rightarrow> 'f) \<Rightarrow> 'e command \<Rightarrow> ('f \<times> 'e) list \<times> (nat \<times> 'f) list
    \<Rightarrow> ('f \<times> 'e) list \<times> (nat \<times> 'f) list" where
  "list_command ret fn (ADD_WATCHER w) (u, ws) = (u, (w, fn w) # ws)"
| "list_command ret fn (REMOVE_WATCHER (Some w)) (u, ws) = (u, filter (\<lambda>v. fst v \<noteq> w) ws)"
| "list_command ret fn (REMOVE_WATCHER None) (u, ws) = (u, [])"
| "list_command ret fn (EMIT ev) (u, ws) = (u @ map (\<lambda>w. (snd w, ev)) ws, rev (filter (keeps ret ev) ws))"
| "list_command ret fn (EMIT_ONE ev) (u, []) = (u, [])"
| "list_command ret fn (EMIT_ONE ev) (u, w # ws) = (u @ [(snd w, ev)], if keeps ret ev w then ws @ [w] else ws)"
| "list_command ret fn DESTROY (u, ws) = (u, ws)"

fun added :: "('e command \<times> MSGID) list \<Rightarrow> nat list" where
  "added [] = []"
| "added ((ADD_WATCHER w, _) # cs) = w # added cs"
| "added (_ # cs) = added cs"

lemma process_command_list:
  assumes w: "watchers ws fn (added [c] @ new) s" and r: "\<forall>f ev. ret f ev \<noteq> IGNORE"
  shows "\<exists>s'. process_command (tell ret) (\<lambda>_ s. s) c (u, s) = Some (fst (list_command ret fn (fst c) (u, ws)), s')
    \<and> watchers (snd (list_command ret fn (fst c) (u, ws))) fn new s'"
proof (cases c)
  case (Pair d i)
  show ?thesis
  proof (cases d)
    case (ADD_WATCHER v)
    then show ?thesis using add_list [of ws fn v new s] w by (auto simp: Pair process_command_def)
  next
    case (REMOVE_WATCHER v)
    then show ?thesis using remove_list [of ws fn new s] remove_all_list [of ws fn new s] w
      by (cases v) (fastforce simp: Pair process_command_def)+
  next
    case (EMIT ev)
    then show ?thesis using emit_list [of ws fn new s ret ev u] w by (auto simp: Pair process_command_def)
  next
    case (EMIT_ONE ev)
    show ?thesis
    proof (cases ws)
      case Nil
      then show ?thesis using w EMIT_ONE by (auto simp: Pair process_command_def emit_one_def watchers_def)
    next
      case (Cons p vs)
      then show ?thesis using emit_one_list [of "fst p" "snd p" vs fn new s ret ev u] w r EMIT_ONE
        by (auto simp: Pair process_command_def keeps_def)
    qed
  next
    case DESTROY
    then show ?thesis using w by (simp add: Pair process_command_def)
  qed
qed

lemma process_batch_list:
  assumes "watchers ws fn (added cs) s" "\<forall>f ev. ret f ev \<noteq> IGNORE" "DESTROY \<notin> fst ` set cs"
  shows "\<exists>u' ws' s'. process_batch (tell ret) (\<lambda>_ s. s) cs (u, s) = Some (u', s') \<and> watchers ws' fn [] s'
    \<and> (u', ws') = foldl (\<lambda>a c. list_command ret fn (fst c) a) (u, ws) cs"
  using assms
proof (induction cs arbitrary: s u ws)
  case (Cons c cs)
  have "added (c # cs) = added [c] @ added cs" by (cases c rule: prod.exhaust; cases "fst c") auto
  with Cons.prems(1) have "watchers ws fn (added [c] @ added cs) s" by simp
  from process_command_list [OF this Cons.prems(2), of u] obtain s1 where s1:
    "process_command (tell ret) (\<lambda>_ s. s) c (u, s) = Some (fst (list_command ret fn (fst c) (u, ws)), s1)"
    "watchers (snd (list_command ret fn (fst c) (u, ws))) fn (added cs) s1" by blast
  from Cons.IH [OF s1(2) Cons.prems(2), of "fst (list_command ret fn (fst c) (u, ws))"] Cons.prems(3) s1(1)
  show ?case by auto
qed simp

section \<open>New watchers\<close>

lemma add_watcher_new:
  assumes w: "watchers ws fn new s" and a: "add_watcher okw True f junk i s = Some (Some v, s')"
  shows "watchers ws (fn(v := f)) (new @ [v]) s'" "m_commands s' = m_commands s @ [(ADD_WATCHER v, i)]" "\<not> m_dying s'"
    "v \<notin> fst ` set ws \<union> set new"
proof -
  obtain a where al: "ar_alloc okw \<lparr>w_f = f, w_next = junk\<rparr> (m_wl s) = Some (Some v, a)"
    and s': "s' = queue_command (ADD_WATCHER v) i (s\<lparr>m_wl := a\<rparr>)" and "\<not> m_dying s"
    using a by (auto simp: add_watcher_def Let_def split: if_splits option.splits prod.splits)
  then show "m_commands s' = m_commands s @ [(ADD_WATCHER v, i)]" "\<not> m_dying s'" by (simp_all add: queue_command_def)
  obtain es where es: "ar_holds (m_wl s) es" "set (map fst ws @ new) \<subseteq> set es" using w by (auto simp: watchers_def owned_def)
  have al': "ar_holds a (v # es)" "v \<notin> set es" "ar_vals a = (ar_vals (m_wl s))(v \<mapsto> \<lparr>w_f = f, w_next = junk\<rparr>)"
    using ar_alloc_holds [OF es(1) al] by blast+
  then show out: "v \<notin> fst ` set ws \<union> set new" using es(2) by auto
  have "distinct (map fst ws @ new @ [v])" using w out by (auto simp: watchers_def owned_def)
  moreover have "\<exists>x. entry u s' = Some x \<and> w_f x = (fn(v := f)) u" if "u \<in> set (new @ [v])" for u
    using w that al'(3) by (cases "u = v") (auto simp: watchers_def owned_def s' queue_command_def entry_def)
  moreover have "ar_holds (m_wl s') (v # es)" "set (map fst ws @ new @ [v]) \<subseteq> set (v # es)"
    using al'(1) es(2) by (auto simp: s' queue_command_def)
  ultimately have "owned (map fst ws) (fn(v := f)) (new @ [v]) s'" unfolding owned_def by blast
  moreover have "wseg (ar_vals (m_wl s')) (m_top s') ws None" using w out al'(3) by (simp add: watchers_def s' queue_command_def)
  ultimately show "watchers ws (fn(v := f)) (new @ [v]) s'" using w by (simp add: watchers_def s' queue_command_def)
qed

definition em_fresh :: "'f watch_entry array \<Rightarrow> ('f, 'e) emitter" where
  "em_fresh a = em_init \<lparr>m_wl = a, m_top = None, m_last = None, m_commands = [], m_dying = False, m_serial = 0, m_refc = 0\<rparr>"

text \<open>Two watchers are added to a fresh object.\<close>

lemma two_watchers:
  "\<exists>a s1 s2. ar_init True 2 True ar_new = Some (True, a) \<and> add_watcher True True f None 0 (em_fresh a) = Some (Some 0, s1)
    \<and> add_watcher True True g None 0 s1 = Some (Some 1, s2) \<and> watchers [] ((\<lambda>_. f)(1 := g)) [0, 1] s2
    \<and> m_commands s2 = [(ADD_WATCHER 0, 0), (ADD_WATCHER 1, 0)]"
proof -
  obtain h where h: "init_header 2 True = Some h" "fa_inv 2 h [] [0..<2]" using init_inv [of 2 True] by auto
  let ?a = "\<lparr>ar_a = Some h, ar_vals = Map.empty\<rparr> :: 'a watch_entry array"
  have init: "ar_init True 2 True ar_new = Some (True, ?a)" using h(1) by (simp add: ar_init_def fa_create_def ar_new_def)
  have "[0..<2] = 0 # [1]" by (simp add: upt_rec)
  then obtain h1 where h1: "alloc_nolock True h = Some (Some 0, h1)" "fa_inv 2 h1 [0] [1]"
    using alloc_pool [of 2 h "[]" 0 "[1]" True] h(2) by auto
  then obtain h2 where h2: "alloc_nolock True h1 = Some (Some 1, h2)" using alloc_pool [of 2 h1 "[0]" 1 "[]" True] by auto
  have full: "\<not> fa_full h" "\<not> fa_full h1" using h(2) h1(2) by (simp_all add: fa_full_def fa_inv_def)
  obtain s1 :: "('a, 'b) emitter" where s1: "add_watcher True True f None 0 (em_fresh ?a) = Some (Some 0, s1)"
    "ar_a (m_wl s1) = Some h1" "\<not> m_dying s1"
    using h1(1) full by (simp add: add_watcher_def ar_alloc_def em_fresh_def em_init_def queue_command_def)
  then obtain s2 where s2: "add_watcher True True g None 0 s1 = Some (Some 1, s2)"
    using h2 full by (simp add: add_watcher_def ar_alloc_def)
  have "ar_holds ?a []" using h(2) by (auto simp: ar_holds_def)
  then have "watchers [] (\<lambda>_. f) [] (em_fresh ?a)" by (auto simp: watchers_def owned_def em_fresh_def em_init_def)
  note w1 = add_watcher_new [OF this s1(1)]
  note w2 = add_watcher_new [OF w1(1) s2]
  have "m_commands (em_fresh ?a :: ('a, 'b) emitter) = []" by (simp add: em_fresh_def em_init_def)
  moreover have "(\<lambda>_ :: nat. f)(0 := f) = (\<lambda>_. f)" by auto
  ultimately show ?thesis using init s1(1) s2 w1(2) w2(1,2) by (intro exI [of _ ?a] exI [of _ s1] exI [of _ s2]) simp
qed

section \<open>Properties\<close>

text \<open>C28:
  The chain of watchers that the commands of an object work on, with its two pointers and the memory of the
  entries, is a list: while no watcher ignores an event, a batch of commands is executed without touching
  freed memory, and adding puts a watcher in front, removing takes it out and frees it, an event is given to every
  watcher once, in order, after which those who stay are in the reverse order, and an event for one is given to
  the first watcher, who goes to the end when he stays.
\<close>

theorem watchers_are_a_list:
  assumes "watchers ws fn (added cs) s" "\<forall>f ev. ret f ev \<noteq> IGNORE" "DESTROY \<notin> fst ` set cs"
  shows "\<exists>u' ws' s'. process_batch (tell ret) (\<lambda>_ s. s) cs (u, s) = Some (u', s') \<and> watchers ws' fn [] s'
    \<and> (u', ws') = foldl (\<lambda>a c. list_command ret fn (fst c) a) (u, ws) cs"
  using assms by (rule process_batch_list)

theorem watchers_are_a_list_witness:
  "\<exists>a s1 s2 s'. ar_init True 2 True ar_new = Some (True, a) \<and> add_watcher True True ''f'' None 0 (em_fresh a) = Some (Some 0, s1)
    \<and> add_watcher True True ''g'' None 0 s1 = Some (Some 1, s2)
    \<and> process_batch (tell (\<lambda>f _. if f = ''f'' then KEEP else STOP)) (\<lambda>_ s. s)
        (m_commands s2 @ [(EMIT 7, 0), (EMIT_ONE (8 :: nat), 0), (REMOVE_WATCHER (Some 0), 0)]) ([], s2)
      = Some ([(''g'', 7), (''f'', 7), (''f'', 8)], s') \<and> watchers [] ((\<lambda>_. ''f'')(1 := ''g'')) [] s'"
proof -
  from two_watchers [of "''f''" "''g''"] obtain a and s1 s2 :: "(string, nat) emitter" where s: "ar_init True 2 True ar_new = Some (True, a)"
    "add_watcher True True ''f'' None 0 (em_fresh a) = Some (Some 0, s1)" "add_watcher True True ''g'' None 0 s1 = Some (Some 1, s2)"
    "watchers [] ((\<lambda>_. ''f'')(1 := ''g'')) [0, 1] s2" "m_commands s2 = [(ADD_WATCHER 0, 0), (ADD_WATCHER 1, 0)]" by blast
  let ?cs = "m_commands s2 @ [(EMIT 7, 0), (EMIT_ONE 8, 0), (REMOVE_WATCHER (Some 0), 0)]"
  have w: "watchers [] ((\<lambda>_. ''f'')(1 := ''g'')) (added ?cs) s2" using s(4) by (simp add: s(5))
  have "\<forall>f ev. (\<lambda>f (_ :: nat). if f = ''f'' then KEEP else STOP) f ev \<noteq> IGNORE" by (simp add: KEEP_def STOP_def IGNORE_def)
  from watchers_are_a_list [OF w this, of "[]"] obtain s' where
    "process_batch (tell (\<lambda>f _. if f = ''f'' then KEEP else STOP)) (\<lambda>_ s. s) ?cs ([], s2) = Some ([(''g'', 7), (''f'', 7), (''f'', 8)], s')"
    "watchers [] ((\<lambda>_. ''f'')(1 := ''g'')) [] s'"
    by (auto simp: s(5) keeps_def KEEP_def STOP_def)
  then show ?thesis using s by blast
qed

lemma requeue_steps:
  assumes "entry w s = Some x" "m_last s = Some l"
  shows "requeue w s = map_option (\<lambda>s. s\<lparr>m_last := Some w\<rparr>)
    (case link_next w None s of None \<Rightarrow> None | Some s \<Rightarrow> link_next l (Some w) s)"
  using assms by (auto simp: requeue_def link_next_def)

text \<open>A watcher that ignores an event for one breaks the list.  The event goes on to the second watcher, who stays, and
  then only he is left: the first and all behind the second are allocated but never called again; when
  there were only two, the second is linked to himself and is called twice at every event.
\<close>

theorem ignored_event_breaks_list:
  assumes w: "watchers ((a, f) # (b, g) # ws) fn new s"
    and r: "ret f ev = IGNORE" "ret g ev \<noteq> IGNORE" "ret g ev \<noteq> STOP" and k: "ret g ev' \<noteq> STOP"
  shows "\<exists>s1 s2. emit_one (tell ret) ev (u, s) = Some (u @ [(f, ev), (g, ev)], s1)
    \<and> emit (tell ret) ev' (v, s1) = Some (v @ (if ws = [] then [(g, ev'), (g, ev')] else [(g, ev')]), s2)
    \<and> entry a s2 \<noteq> None"
proof -
  obtain s0 n where s0: "pop_top a s = Some s0" "entry a s0 = Some \<lparr>w_f = f, w_next = n\<rparr>" "m_top s0 = n"
    "wseg (ar_vals (m_wl s0)) n ((b, g) # ws) None" "m_last s0 = end_of ((b, g) # ws)" "m_wl s0 = m_wl s"
    using pop_list [OF w] by blast
  have t: "m_top s = Some a" using w by (simp add: watchers_def)
  obtain m where m: "n = Some b" "entry b s0 = Some \<lparr>w_f = g, w_next = m\<rparr>" "wseg (ar_vals (m_wl s0)) m ws None"
    using s0(4) by (auto simp: entry_def)
  have "distinct (a # b # map fst ws)" using w by (auto simp: watchers_def owned_def)
  then have ab: "a \<noteq> b" and bw: "b \<notin> fst ` set ws" and aw: "a \<notin> fst ` set ws" by auto
  define l where "l = fst (last ((b, g) # ws))"
  have l: "m_last s0 = Some l" using s0(5) by (simp add: end_of_def l_def)
  let ?s1 = "s0\<lparr>m_wl := (m_wl s0)\<lparr>ar_vals := (ar_vals (m_wl s0))(b \<mapsto> \<lparr>w_f = g, w_next = None\<rparr>)\<rparr>\<rparr>"
  have n1: "link_next b None s0 = Some ?s1" using m(2) by (simp add: link_next_def)
  have "\<exists>y. entry l ?s1 = Some y \<and> w_f y = (if ws = [] then g else snd (last ws)) \<and> (l = b \<longleftrightarrow> ws = [])"
  proof (cases ws rule: rev_cases)
    case Nil
    then show ?thesis by (simp add: l_def entry_def)
  next
    case (snoc vs p)
    then have "l \<noteq> b" using bw by (auto simp: l_def)
    moreover have "\<exists>y. ar_vals (m_wl s0) l = Some y \<and> w_f y = snd p"
      using m(3) by (cases p) (auto simp: snoc l_def wseg_append)
    ultimately show ?thesis using snoc by (auto simp: entry_def)
  qed
  then obtain y where y: "entry l ?s1 = Some y" "l = b \<longleftrightarrow> ws = []" by blast
  from link_next_runs [OF y(1), of "Some b"] obtain c where c: "link_next l (Some b) ?s1 = Some (?s1\<lparr>m_wl := c\<rparr>)"
    "ar_vals c = (ar_vals (m_wl ?s1))(l \<mapsto> y\<lparr>w_next := Some b\<rparr>)" by auto
  let ?s2 = "?s1\<lparr>m_wl := c, m_last := Some b\<rparr>"
  have rq: "requeue b s0 = Some ?s2" using requeue_steps [OF m(2) l] n1 c(1) by simp
  have one: "emit_one (tell ret) ev (u, s) = Some (u @ [(f, ev), (g, ev)], ?s2)"
    using t s0(1,2) m(1,2) r rq
    by (simp add: emit_one_def emit_retry.simps [of _ _ a] emit_retry.simps [of _ _ b] tell_def STOP_def IGNORE_def)
  have eb: "entry b ?s2 = Some \<lparr>w_f = g, w_next = (if ws = [] then Some b else None)\<rparr>"
    using y c(2) by (auto simp: entry_def)
  have ea: "entry a ?s2 = Some \<lparr>w_f = f, w_next = n\<rparr>"
  proof -
    have "a \<noteq> l" using ab aw by (cases ws rule: rev_cases) (auto simp: l_def)
    then show ?thesis using c(2) ab s0(2) by (simp add: entry_def)
  qed
  have top: "m_top ?s2 = Some b" using s0(3) m(1) by simp
  let ?t = "?s2\<lparr>m_top := None\<rparr>"
  from link_next_runs [of b ?t, of "\<lparr>w_f = g, w_next = (if ws = [] then Some b else None)\<rparr>" None] eb
  obtain d where d: "link_next b None ?t = Some (?t\<lparr>m_wl := d\<rparr>)" "ar_vals d = (ar_vals c)(b \<mapsto> \<lparr>w_f = g, w_next = None\<rparr>)"
    by (auto simp: entry_def)
  have eb': "entry b (?t\<lparr>m_wl := d\<rparr>) = Some \<lparr>w_f = g, w_next = None\<rparr>" using d(2) by (simp add: entry_def)
  from link_next_runs [OF eb', of "Some b"] obtain e where e: "link_next b (Some b) (?t\<lparr>m_wl := d\<rparr>) = Some (?t\<lparr>m_wl := e\<rparr>)"
    "ar_vals e = (ar_vals d)(b \<mapsto> \<lparr>w_f = g, w_next = Some b\<rparr>)" by auto
  have ebt: "entry b ?t = Some \<lparr>w_f = g, w_next = (if ws = [] then Some b else None)\<rparr>" using eb by (simp add: entry_def)
  have first: "emit (tell ret) ev' (v, ?s2) = emit_loop (tell ret) ev' (if ws = [] then Some b else None) (Some b) (Some b) (v @ [(g, ev')], ?t\<lparr>m_wl := d\<rparr>)"
    using top ebt d(1) k by (simp add: emit_def emit_loop.simps [of _ _ "Some b" None] tell_def)
  have "\<exists>s3. emit (tell ret) ev' (v, ?s2) = Some (v @ (if ws = [] then [(g, ev'), (g, ev')] else [(g, ev')]), s3) \<and> entry a s3 \<noteq> None"
  proof (cases "ws = []")
    case True
    then have "emit (tell ret) ev' (v, ?s2) = emit_loop (tell ret) ev' None (Some b) (Some b) (v @ [(g, ev'), (g, ev')], ?t\<lparr>m_wl := e\<rparr>)"
      using first eb' e(1) k by (simp add: emit_loop.simps [of _ _ "Some b" "Some b"] tell_def)
    then show ?thesis using True ea ab d(2) e(2) by (simp add: emit_loop.simps [of _ _ None] entry_def)
  next
    case False
    then show ?thesis using first ea ab d(2) by (simp add: emit_loop.simps [of _ _ None] entry_def)
  qed
  then show ?thesis using one by blast
qed

theorem ignored_event_breaks_list_witness:
  "\<exists>s3 s4. watchers [(1, ''f''), (0, ''g'')] ((\<lambda>_. ''g'')(1 := ''f'')) [] s3
    \<and> emit_one (tell (\<lambda>f _. if f = ''f'' then IGNORE else KEEP)) (8 :: nat) ([], s3) = Some ([(''f'', 8), (''g'', 8)], s4)
    \<and> (\<exists>s5. emit (tell (\<lambda>f _. if f = ''f'' then IGNORE else KEEP)) 9 ([], s4) = Some ([(''g'', 9), (''g'', 9)], s5))"
proof -
  let ?ret = "\<lambda>f (_ :: nat). if f = ''f'' then IGNORE else KEEP"
  from two_watchers [of "''g''" "''f''"] obtain s1 s2 :: "(string, nat) emitter" where s: "add_watcher True True ''f'' None 0 s1 = Some (Some 1, s2)"
    "watchers [] ((\<lambda>_. ''g'')(1 := ''f'')) [0, 1] s2" by blast
  then have "watchers [] ((\<lambda>_. ''g'')(1 := ''f'')) (added [(ADD_WATCHER 0, 0), (ADD_WATCHER 1, 0)]) s2" by simp
  from process_batch_list [OF this, of "\<lambda>_ _. KEEP" "[]"] obtain s3 :: "(string, nat) emitter" where
    s3: "watchers [(1, ''f''), (0, ''g'')] ((\<lambda>_. ''g'')(1 := ''f'')) [] s3" by (auto simp: KEEP_def IGNORE_def)
  from ignored_event_breaks_list [OF s3, of ?ret 8 9 "[]" "[]"] obtain s4 s5 where
    "emit_one (tell ?ret) 8 ([], s3) = Some ([(''f'', 8), (''g'', 8)], s4)"
    "emit (tell ?ret) 9 ([], s4) = Some ([(''g'', 9), (''g'', 9)], s5)"
    by (auto simp: KEEP_def IGNORE_def STOP_def)
  with s3 show ?thesis by blast
qed

end
