(* ===== verification/EmitQueue.thy ===== *)
theory EmitQueue
  imports Emittable
begin

text \<open>
  \<^verbatim>\<open>src/src/emittable.hpp\<close>: how the commands of an object reach the thread that executes them.  Any thread
  queues a command in \<open>add_command\<close> and, when nobody owns the object, becomes its owner and pushes a task
  to its own queue; the thread that takes the task executes all queued commands in \<open>process_commands\<close>, gives
  up the object and looks once more for commands.

  A step is one access to the shared members: the list behind \<open>m_mtx\<close>, the compare-and-swap of \<open>m_owner\<close>, the store
  that gives the object up and the read of \<open>m_head\<close> behind it.  That store is a plain one: it stays in the store buffer
  of its thread until it gets to memory, and the read behind it does not wait for that, unless the threads are sequentially
  consistent (\<open>sc\<close>).  Locks and compare-and-swaps wait for the buffer.  The push of the task may fail, which
  \<open>emittable::push\<close> ignores, unless \<open>pushes\<close>.  A thread may queue commands while it executes others, as the callbacks
  of watchers do.  The finalizing command \<open>DESTROY\<close> and a failing lock are left out.

  The lemmas: one thread at a time executes the commands, in the order in which they were queued; none is
  forgotten when the threads are sequentially consistent and pushes do not fail, and without either one is.
\<close>

section \<open>State and steps\<close>

text \<open>
  Where a thread is in \<open>process_commands\<close>: executing, behind \<open>m_owner = NULL\<close>, behind the test of \<open>m_head\<close>.  \<open>s_store\<close>
  tells whose store buffer holds \<open>m_owner = NULL\<close>; \<open>s_added\<close>, \<open>s_done\<close> and \<open>s_orphan\<close>, whether the object is owned but the push of
  its task failed, are notes.
\<close>

datatype 'c handler = Away | Batch "'c list" | Released | Seen

record 'c shared =
  s_cmds :: "'c list"
  s_owner :: "nat option"
  s_tasks :: "nat \<Rightarrow> nat"
  s_adder :: "nat \<Rightarrow> bool"
  s_handler :: "nat \<Rightarrow> 'c handler"
  s_store :: "nat \<Rightarrow> bool"
  s_orphan :: bool
  s_added :: "'c list"
  s_done :: "'c list"

definition shared_init :: "'c shared" where
  "shared_init = \<lparr>s_cmds = [], s_owner = None, s_tasks = (\<lambda>_. 0), s_adder = (\<lambda>_. False), s_handler = (\<lambda>_. Away),
     s_store = (\<lambda>_. False), s_orphan = False, s_added = [], s_done = []\<rparr>"

text \<open>The object is claimed, and \<open>push\<close> puts a task into the thread's own queue, or fails to.\<close>

definition claim_by :: "bool \<Rightarrow> nat \<Rightarrow> 'c shared \<Rightarrow> 'c shared" where
  "claim_by ok t s = s\<lparr>s_owner := Some t, s_tasks := (s_tasks s)(t := s_tasks s t + (if ok then 1 else 0)), s_orphan := \<not> ok\<rparr>"

definition at :: "nat \<Rightarrow> 'c handler \<Rightarrow> 'c shared \<Rightarrow> 'c shared" where
  "at t h s = s\<lparr>s_handler := (s_handler s)(t := h)\<rparr>"

text \<open>The threads are numbered below \<open>n\<close>.  Only what does not touch \<open>m_head\<close> under a lock or swap \<open>m_owner\<close> runs past a store buffer.\<close>

inductive add_step :: "nat \<Rightarrow> 'c shared \<Rightarrow> 'c shared \<Rightarrow> bool" for n where
  append: "t < n \<Longrightarrow> \<not> s_adder s t \<Longrightarrow> s_handler s t \<noteq> Released \<Longrightarrow> s_handler s t \<noteq> Seen \<Longrightarrow> \<not> s_store s t \<Longrightarrow>
    add_step n s (s\<lparr>s_cmds := s_cmds s @ [c], s_adder := (s_adder s)(t := True), s_added := s_added s @ [c]\<rparr>)"

inductive work_step :: "bool \<Rightarrow> bool \<Rightarrow> nat \<Rightarrow> 'c shared \<Rightarrow> 'c shared \<Rightarrow> bool" for sc pushes n where
  claim: "t < n \<Longrightarrow> s_adder s t \<Longrightarrow> \<not> s_store s t \<Longrightarrow> s_owner s = None \<Longrightarrow> pushes \<longrightarrow> ok \<Longrightarrow>
    work_step sc pushes n s ((claim_by ok t s)\<lparr>s_adder := (s_adder s)(t := False)\<rparr>)"
| pass: "t < n \<Longrightarrow> s_adder s t \<Longrightarrow> \<not> s_store s t \<Longrightarrow> s_owner s \<noteq> None \<Longrightarrow>
    work_step sc pushes n s (s\<lparr>s_adder := (s_adder s)(t := False)\<rparr>)"
| take: "t < n \<Longrightarrow> \<not> s_adder s t \<Longrightarrow> \<not> s_store s t \<Longrightarrow> s_handler s t = Away \<Longrightarrow> 0 < s_tasks s t \<Longrightarrow>
    work_step sc pushes n s ((at t (Batch (s_cmds s)) s)\<lparr>s_cmds := [], s_tasks := (s_tasks s)(t := s_tasks s t - 1)\<rparr>)"
| run: "t < n \<Longrightarrow> \<not> s_adder s t \<Longrightarrow> s_handler s t = Batch (c # cs) \<Longrightarrow>
    work_step sc pushes n s ((at t (Batch cs) s)\<lparr>s_done := s_done s @ [c]\<rparr>)"
| release: "t < n \<Longrightarrow> \<not> s_adder s t \<Longrightarrow> s_handler s t = Batch [] \<Longrightarrow>
    work_step sc pushes n s ((at t Released s)\<lparr>s_store := (s_store s)(t := True)\<rparr>)"
| drain: "t < n \<Longrightarrow> s_store s t \<Longrightarrow> work_step sc pushes n s (s\<lparr>s_owner := None, s_store := (s_store s)(t := False)\<rparr>)"
| leave: "t < n \<Longrightarrow> s_handler s t = Released \<Longrightarrow> sc \<longrightarrow> \<not> s_store s t \<Longrightarrow> s_cmds s = [] \<Longrightarrow> work_step sc pushes n s (at t Away s)"
| look: "t < n \<Longrightarrow> s_handler s t = Released \<Longrightarrow> sc \<longrightarrow> \<not> s_store s t \<Longrightarrow> s_cmds s \<noteq> [] \<Longrightarrow> work_step sc pushes n s (at t Seen s)"
| reclaim: "t < n \<Longrightarrow> s_handler s t = Seen \<Longrightarrow> \<not> s_store s t \<Longrightarrow> s_owner s = None \<Longrightarrow> pushes \<longrightarrow> ok \<Longrightarrow>
    work_step sc pushes n s (at t Away (claim_by ok t s))"
| lose: "t < n \<Longrightarrow> s_handler s t = Seen \<Longrightarrow> \<not> s_store s t \<Longrightarrow> s_owner s \<noteq> None \<Longrightarrow> work_step sc pushes n s (at t Away s)"

inductive reach :: "bool \<Rightarrow> bool \<Rightarrow> nat \<Rightarrow> 'c shared \<Rightarrow> bool" for sc pushes n where
  start: "reach sc pushes n shared_init"
| add: "reach sc pushes n s \<Longrightarrow> add_step n s s' \<Longrightarrow> reach sc pushes n s'"
| work: "reach sc pushes n s \<Longrightarrow> work_step sc pushes n s s' \<Longrightarrow> reach sc pushes n s'"

inductive_simps add_step_iff: "add_step n s s'"

inductive_cases work_stepE: "work_step sc pushes n s s'"

lemmas step_defs = claim_by_def at_def

section \<open>The invariant\<close>

text \<open>
  \<open>owns\<close>: for the owner one of four is the case.  He has a task in his queue; he is executing; his giving up the object is
  still in his store buffer; or his task was lost.  For the others none is.
\<close>

definition batch :: "'c handler \<Rightarrow> 'c list option" where
  "batch h = (case h of Batch cs \<Rightarrow> Some cs | _ \<Rightarrow> None)"

lemma batch_simps [simp]: "batch Away = None" "batch (Batch cs) = Some cs" "batch Released = None" "batch Seen = None"
  by (simp_all add: batch_def)

definition idle :: "nat \<Rightarrow> 'c shared \<Rightarrow> bool" where
  "idle t s \<longleftrightarrow> s_tasks s t = 0 \<and> batch (s_handler s t) = None \<and> \<not> s_store s t"

definition owns :: "nat \<Rightarrow> 'c shared \<Rightarrow> bool" where
  "owns t s \<longleftrightarrow> s_tasks s t + of_bool (batch (s_handler s t) \<noteq> None) + of_bool (s_store s t) + of_bool (s_orphan s) = 1"

definition in_hand :: "'c shared \<Rightarrow> 'c list" where
  "in_hand s = (case s_owner s of None \<Rightarrow> [] | Some t \<Rightarrow> (case batch (s_handler s t) of None \<Rightarrow> [] | Some cs \<Rightarrow> cs))"

definition one_owner :: "nat \<Rightarrow> 'c shared \<Rightarrow> bool" where
  "one_owner n s \<longleftrightarrow> (\<forall>t. (if s_owner s = Some t then t < n \<and> owns t s else idle t s)) \<and> (s_orphan s \<longrightarrow> s_owner s \<noteq> None)"

definition in_order :: "'c shared \<Rightarrow> bool" where
  "in_order s \<longleftrightarrow> s_done s @ in_hand s @ s_cmds s = s_added s"

definition queue_inv :: "nat \<Rightarrow> 'c shared \<Rightarrow> bool" where
  "queue_inv n s \<longleftrightarrow> one_owner n s \<and> in_order s"

text \<open>With sequential consistency: what is queued while nobody owns the object is noticed by somebody.\<close>

definition noticed :: "nat \<Rightarrow> 'c shared \<Rightarrow> bool" where
  "noticed n s \<longleftrightarrow> (\<forall>t. s_store s t \<longrightarrow> s_handler s t = Released)
     \<and> (s_cmds s \<noteq> [] \<and> s_owner s = None \<longrightarrow> (\<exists>t<n. s_adder s t \<or> s_handler s t = Released \<or> s_handler s t = Seen))"

text \<open>Only thread \<open>t\<close> moves, and the object changes hands only to or from him.\<close>

lemma one_owner_update:
  assumes "one_owner n s" "\<And>u. u \<noteq> t \<Longrightarrow> s_tasks s' u = s_tasks s u \<and> s_handler s' u = s_handler s u \<and> s_store s' u = s_store s u"
    and "\<And>u. u \<noteq> t \<Longrightarrow> s_owner s' = Some u \<longleftrightarrow> s_owner s = Some u"
    and "s_owner s' = None \<or> s_owner s' = Some t \<or> s_orphan s' = s_orphan s" "s_orphan s' \<longrightarrow> s_owner s' \<noteq> None"
    and "if s_owner s' = Some t then t < n \<and> owns t s' else idle t s'"
  shows "one_owner n s'"
  unfolding one_owner_def
proof (intro conjI allI)
  fix u
  have "idle u s' = idle u s" if "u \<noteq> t" using assms(2) [OF that] by (simp add: idle_def)
  moreover have "owns u s' = owns u s" if "u \<noteq> t" "s_owner s' = Some u" using assms(2) [OF that(1)] assms(4) that by (auto simp: owns_def)
  ultimately show "if s_owner s' = Some u then u < n \<and> owns u s' else idle u s'"
    using assms(1,6) assms(3) [of u] by (cases "u = t") (auto simp: one_owner_def split: if_splits)
qed (use assms(5) in blast)

lemma one_owner_cong:
  assumes "one_owner n s" "s_tasks s' = s_tasks s" "s_handler s' = s_handler s" "s_owner s' = s_owner s" "s_store s' = s_store s"
    "s_orphan s' = s_orphan s"
  shows "one_owner n s'"
  using assms(1) unfolding one_owner_def idle_def owns_def assms(2-6) .

lemma in_hand_cong:
  assumes "s_handler s' = s_handler s" "s_owner s' = s_owner s"
  shows "in_hand s' = in_hand s"
  unfolding in_hand_def assms ..

lemma one_ownerD: "one_owner n s \<Longrightarrow> if s_owner s = Some t then t < n \<and> owns t s else idle t s"
  by (simp add: one_owner_def)

lemma one_owner_orphan: "one_owner n s \<Longrightarrow> s_orphan s \<Longrightarrow> s_owner s \<noteq> None"
  by (simp add: one_owner_def)

lemma owner_at_work:
  assumes "one_owner n s" "0 < s_tasks s t \<or> batch (s_handler s t) \<noteq> None \<or> s_store s t"
  shows "s_owner s = Some t" "s_tasks s t + of_bool (batch (s_handler s t) \<noteq> None) + of_bool (s_store s t) = 1" "\<not> s_orphan s"
proof -
  show o: "s_owner s = Some t" using one_ownerD [OF assms(1), of t] assms(2) by (auto simp: idle_def split: if_splits)
  have "owns t s" using one_ownerD [OF assms(1), of t] o by simp
  then show "s_tasks s t + of_bool (batch (s_handler s t) \<noteq> None) + of_bool (s_store s t) = 1" "\<not> s_orphan s"
    using assms(2) by (auto simp: owns_def of_bool_def split: if_splits)
qed

lemma queue_inv_work:
  assumes "queue_inv n s" "work_step sc pushes n s s'"
  shows "queue_inv n s'"
proof -
  have o: "one_owner n s" and i: "in_order s" using assms(1) by (simp_all add: queue_inv_def)
  note no_orphan = one_owner_orphan [OF o]
  from assms(2) show ?thesis
  proof cases
    case (claim t ok)
    have "one_owner n s'"
      by (rule one_owner_update [OF o, of t]) (use claim one_ownerD [OF o, of t] in \<open>auto simp: step_defs idle_def owns_def\<close>)
    moreover have "in_hand s' = []" using claim one_ownerD [OF o, of t] by (auto simp: in_hand_def step_defs idle_def)
    ultimately show ?thesis using i claim by (simp add: queue_inv_def in_order_def in_hand_def step_defs)
  next
    case (pass t)
    have "one_owner n s'" by (rule one_owner_cong [OF o]) (simp_all add: pass)
    moreover have "in_hand s' = in_hand s" by (rule in_hand_cong) (simp_all add: pass)
    ultimately show ?thesis using i pass by (simp add: queue_inv_def in_order_def)
  next
    case (take t)
    note w = owner_at_work [OF o, of t]
    have "one_owner n s'"
      by (rule one_owner_update [OF o, of t]) (use take w one_ownerD [OF o, of t] in \<open>auto simp: step_defs idle_def owns_def\<close>)
    moreover have "s_owner s = Some t" using w take by blast
    ultimately show ?thesis using i take by (simp add: queue_inv_def in_order_def in_hand_def step_defs)
  next
    case (run t c cs)
    note w = owner_at_work [OF o, of t]
    have "one_owner n s'"
      by (rule one_owner_update [OF o, of t]) (use run w one_ownerD [OF o, of t] in \<open>auto simp: step_defs idle_def owns_def\<close>)
    moreover have "s_owner s = Some t" using w run by simp
    ultimately show ?thesis using i run by (simp add: queue_inv_def in_order_def in_hand_def step_defs)
  next
    case (release t)
    note w = owner_at_work [OF o, of t]
    have "one_owner n s'"
      by (rule one_owner_update [OF o, of t]) (use release w one_ownerD [OF o, of t] in \<open>auto simp: step_defs idle_def owns_def\<close>)
    moreover have "s_owner s = Some t" using w release by simp
    ultimately show ?thesis using i release by (simp add: queue_inv_def in_order_def in_hand_def step_defs)
  next
    case (drain t)
    note w = owner_at_work [OF o, of t]
    have own: "s_owner s = Some t" "s_tasks s t = 0" "batch (s_handler s t) = None" "\<not> s_orphan s"
      using w drain by (auto simp: of_bool_def split: if_splits)
    have "one_owner n s'"
      by (rule one_owner_update [OF o, of t]) (use drain own in \<open>auto simp: idle_def owns_def\<close>)
    then show ?thesis using i drain own by (simp add: queue_inv_def in_order_def in_hand_def)
  next
    case (leave t)
    have "one_owner n s'"
      by (rule one_owner_update [OF o, of t]) (use leave no_orphan one_ownerD [OF o, of t] in \<open>auto simp: step_defs idle_def owns_def split: if_splits\<close>)
    moreover have "in_hand s' = in_hand s" using leave by (auto simp: in_hand_def step_defs split: option.splits)
    ultimately show ?thesis using i leave by (simp add: queue_inv_def in_order_def step_defs)
  next
    case (look t)
    have "one_owner n s'"
      by (rule one_owner_update [OF o, of t]) (use look no_orphan one_ownerD [OF o, of t] in \<open>auto simp: step_defs idle_def owns_def split: if_splits\<close>)
    moreover have "in_hand s' = in_hand s" using look by (auto simp: in_hand_def step_defs split: option.splits)
    ultimately show ?thesis using i look by (simp add: queue_inv_def in_order_def step_defs)
  next
    case (reclaim t ok)
    have "one_owner n s'"
      by (rule one_owner_update [OF o, of t]) (use reclaim one_ownerD [OF o, of t] in \<open>auto simp: step_defs idle_def owns_def\<close>)
    moreover have "in_hand s' = []" "in_hand s = []" using reclaim by (auto simp: in_hand_def step_defs)
    ultimately show ?thesis using i reclaim by (simp add: queue_inv_def in_order_def step_defs)
  next
    case (lose t)
    have "one_owner n s'"
      by (rule one_owner_update [OF o, of t]) (use lose no_orphan one_ownerD [OF o, of t] in \<open>auto simp: step_defs idle_def owns_def split: if_splits\<close>)
    moreover have "in_hand s' = in_hand s" using lose by (auto simp: in_hand_def step_defs split: option.splits)
    ultimately show ?thesis using i lose by (simp add: queue_inv_def in_order_def step_defs)
  qed
qed

lemma queue_inv_add:
  assumes "queue_inv n s" "add_step n s s'"
  shows "queue_inv n s'"
proof -
  have o: "one_owner n s" and i: "in_order s" using assms(1) by (simp_all add: queue_inv_def)
  from assms(2) obtain t c where t: "t < n" "s' = s\<lparr>s_cmds := s_cmds s @ [c], s_adder := (s_adder s)(t := True), s_added := s_added s @ [c]\<rparr>"
    unfolding add_step_iff by blast
  have "one_owner n s'" by (rule one_owner_cong [OF o]) (simp_all add: t(2))
  moreover have "in_hand s' = in_hand s" by (rule in_hand_cong) (simp_all add: t(2))
  ultimately show ?thesis using i t by (auto simp: queue_inv_def in_order_def)
qed

lemma queue_inv_start: "queue_inv n shared_init"
  by (simp add: queue_inv_def one_owner_def in_order_def in_hand_def idle_def shared_init_def)

lemma reach_inv: "reach sc pushes n s \<Longrightarrow> queue_inv n s"
  by (induction rule: reach.induct) (auto intro: queue_inv_start queue_inv_add queue_inv_work)

lemma noticed_work:
  assumes "noticed n s" "work_step True pushes n s s'"
  shows "noticed n s'"
  using assms(2)
proof cases
  case (run t c cs)
  then have "u \<noteq> t" if "s_adder s u \<or> s_handler s u = Released \<or> s_handler s u = Seen" for u using that by auto
  with run assms(1) show ?thesis unfolding noticed_def at_def by (simp add: fun_upd_def) blast
qed (use assms(1) in \<open>auto simp: noticed_def step_defs\<close>)

lemma noticed_add: "noticed n s \<Longrightarrow> add_step n s s' \<Longrightarrow> noticed n s'"
  unfolding add_step_iff by (auto simp: noticed_def)

lemma reach_noticed: "reach True pushes n s \<Longrightarrow> noticed n s"
proof (induction rule: reach.induct)
  case start
  then show ?case by (simp add: noticed_def shared_init_def)
qed (blast intro: noticed_work noticed_add)+

lemma reach_pushed: "reach sc True n s \<Longrightarrow> \<not> s_orphan s"
proof (induction rule: reach.induct)
  case (add s s')
  then show ?case unfolding add_step_iff by auto
next
  case (work s s')
  from work(2,3) show ?case by (auto elim!: work_stepE simp: step_defs)
qed (simp add: shared_init_def)

section \<open>Without new commands the work ends\<close>

definition weight :: "'c shared \<Rightarrow> nat \<Rightarrow> nat" where
  "weight s t = (if s_adder s t then 8 else 0) + s_tasks s t * (if s_cmds s = [] then 6 else 1) + (if s_store s t then 1 else 0)
     + (case s_handler s t of Away \<Rightarrow> 0 | Batch cs \<Rightarrow> 5 + length cs | Released \<Rightarrow> 3 | Seen \<Rightarrow> if s_cmds s = [] then 7 else 2)"

definition work_left :: "nat \<Rightarrow> ('c shared \<times> 'c shared) set" where
  "work_left n = measures [\<lambda>s. length (s_cmds s), \<lambda>s. \<Sum>t<n. weight s t]"

lemma weight_decreases:
  assumes "t < n" "weight s' t < weight s t" "\<And>u. u \<noteq> t \<Longrightarrow> weight s' u = weight s u"
  shows "(\<Sum>t<n. weight s' t) < (\<Sum>t<n. weight s t)"
proof (rule sum_strict_mono_ex1)
  show "\<forall>u\<in>{..<n}. weight s' u \<le> weight s u"
  proof
    fix u show "weight s' u \<le> weight s u" using assms(2,3) by (cases "u = t") auto
  qed
qed (use assms in auto)

lemma work_left_same_commands:
  assumes "s_cmds s' = s_cmds s" "t < n" "weight s' t < weight s t"
    and "\<And>u. u \<noteq> t \<Longrightarrow> s_adder s' u = s_adder s u \<and> s_tasks s' u = s_tasks s u \<and> s_handler s' u = s_handler s u \<and> s_store s' u = s_store s u"
  shows "(s', s) \<in> work_left n"
proof -
  have "weight s' u = weight s u" if "u \<noteq> t" for u using assms(1) assms(4) [OF that] by (simp add: weight_def)
  then have "(\<Sum>t<n. weight s' t) < (\<Sum>t<n. weight s t)" by (intro weight_decreases [OF assms(2,3)]) simp
  then show ?thesis using assms(1) by (simp add: work_left_def)
qed

lemma work_decreases:
  assumes "work_step sc pushes n s s'"
  shows "(s', s) \<in> work_left n"
  using assms
proof cases
  case (take t)
  then show ?thesis
  proof (cases "s_cmds s = []")
    case True
    with take show ?thesis by (intro work_left_same_commands [of _ _ t]) (auto simp: step_defs weight_def)
  next
    case False
    with take show ?thesis by (simp add: work_left_def step_defs)
  qed
qed (intro work_left_same_commands, auto simp: step_defs weight_def)+

lemma work_terminates: "wfP (\<lambda>s' s. work_step sc pushes n s s')"
proof -
  have "wf (work_left n :: ('c shared \<times> 'c shared) set)" by (simp add: work_left_def)
  then show ?thesis unfolding wfp_def by (rule wf_subset) (auto intro: work_decreases)
qed

definition quiet :: "bool \<Rightarrow> bool \<Rightarrow> nat \<Rightarrow> 'c shared \<Rightarrow> bool" where
  "quiet sc pushes n s \<longleftrightarrow> (\<forall>s'. \<not> work_step sc pushes n s s')"

lemma quiet_reached: "\<exists>s'. (work_step sc pushes n)\<^sup>*\<^sup>* s s' \<and> quiet sc pushes n s'"
proof (induction s rule: wfp_induct_rule [OF work_terminates [of sc pushes n]])
  case (1 s)
  show ?case
  proof (cases "quiet sc pushes n s")
    case False
    then obtain s1 where "work_step sc pushes n s s1" by (auto simp: quiet_def)
    with 1 show ?thesis by (meson converse_rtranclp_into_rtranclp)
  qed auto
qed

lemma quiet_threads:
  assumes "quiet sc pushes n s" "t < n"
  shows "\<not> s_store s t" "\<not> s_adder s t" "s_handler s t = Away" "s_tasks s t = 0"
proof -
  have no: "\<not> work_step sc pushes n s s'" for s' using assms(1) by (simp add: quiet_def)
  show w: "\<not> s_store s t" using work_step.drain [OF assms(2), of s sc pushes] no by blast
  show a: "\<not> s_adder s t"
  proof
    assume "s_adder s t"
    note steps = work_step.claim [OF assms(2) this w, where ok = True and pushes = pushes and sc = sc]
      work_step.pass [OF assms(2) this w, where pushes = pushes and sc = sc]
    show False by (cases "s_owner s = None") (use steps no in simp_all)
  qed
  show h: "s_handler s t = Away"
  proof (cases "s_handler s t")
    case (Batch cs)
    then show ?thesis using work_step.run [OF assms(2) a, where pushes = pushes and sc = sc]
        work_step.release [OF assms(2) a, where pushes = pushes and sc = sc] no by (cases cs) simp_all
  next
    case Released
    note steps = work_step.leave [OF assms(2) this, where pushes = pushes and sc = sc]
      work_step.look [OF assms(2) this, where pushes = pushes and sc = sc]
    show ?thesis by (cases "s_cmds s = []") (use steps w no in simp_all)
  next
    case Seen
    note steps = work_step.reclaim [OF assms(2) this w, where ok = True and pushes = pushes and sc = sc]
      work_step.lose [OF assms(2) this w, where pushes = pushes and sc = sc]
    show ?thesis by (cases "s_owner s = None") (use steps no in simp_all)
  qed simp
  show "s_tasks s t = 0" using work_step.take [OF assms(2) a w h, where pushes = pushes and sc = sc] no by blast
qed

lemma quiet_done:
  assumes "queue_inv n s" "noticed n s" "\<not> s_orphan s" "quiet sc pushes n s"
  shows "s_owner s = None" "s_cmds s = []" "s_done s = s_added s"
proof -
  note q = quiet_threads [OF assms(4)]
  show o: "s_owner s = None"
  proof (cases "s_owner s")
    case (Some t)
    then have "t < n" "owns t s" using assms(1) one_ownerD [of n s t] by (simp_all add: queue_inv_def)
    then show ?thesis using q [of t] assms(3) by (simp add: owns_def)
  qed
  show c: "s_cmds s = []" using assms(2) q o by (auto simp: noticed_def)
  show "s_done s = s_added s" using assms(1) o c by (simp add: queue_inv_def in_order_def in_hand_def)
qed

lemma work_keeps_added: "(work_step sc pushes n)\<^sup>*\<^sup>* s s' \<Longrightarrow> s_added s' = s_added s"
  by (induction rule: rtranclp_induct) (auto elim!: work_stepE simp: step_defs)

lemma reach_work: "(work_step sc pushes n)\<^sup>*\<^sup>* s s' \<Longrightarrow> reach sc pushes n s \<Longrightarrow> reach sc pushes n s'"
  by (induction rule: rtranclp_induct) (auto intro: reach.work)

section \<open>Properties\<close>

text \<open>C29: Two commands are never executed by two threads at a time: only the owner of the object executes a
  batch.  The commands that were executed, those left of the batch and those queued are together all commands
  that were added, in the order in which they were.  This holds although giving up the object may stay in the store buffer
  of its thread (\<open>sc\<close> or not) and although the push of a task may fail (\<open>pushes\<close> or not).\<close>

theorem commands_run_in_order:
  assumes "reach sc pushes n s"
  shows "\<exists>b. s_done s @ b @ s_cmds s = s_added s \<and>
    (\<forall>t cs. s_handler s t = Batch cs \<longrightarrow> cs = b \<and> s_owner s = Some t)"
proof (intro exI conjI allI impI)
  have q: "queue_inv n s" by (rule reach_inv [OF assms])
  then show "s_done s @ in_hand s @ s_cmds s = s_added s" by (simp add: queue_inv_def in_order_def)
  fix t cs assume b: "s_handler s t = Batch cs"
  show o: "s_owner s = Some t" using one_ownerD [of n s t] q b by (auto simp: queue_inv_def idle_def split: if_splits)
  then show "cs = in_hand s" using b by (simp add: in_hand_def)
qed

definition two_queued :: "nat shared" where
  "two_queued = shared_init\<lparr>s_cmds := [7, 8], s_adder := (\<lambda>_. False)(0 := True, 1 := True), s_added := [7, 8]\<rparr>"

lemma one_queued: "reach sc pushes 2 (shared_init\<lparr>s_cmds := [7], s_adder := (\<lambda>_. False)(0 := True), s_added := [7 :: nat]\<rparr>)"
  by (rule reach.add [OF reach.start], subst add_step_iff) (auto simp: shared_init_def intro!: exI [of _ "0 :: nat"])

lemma reach_two_queued: "reach sc pushes 2 two_queued"
  by (rule reach.add [OF one_queued], subst add_step_iff) (auto simp: shared_init_def two_queued_def intro!: exI [of _ "1 :: nat"])

theorem commands_run_in_order_witness: "\<exists>b. s_done two_queued @ b @ s_cmds two_queued = [7, 8]"
  using commands_run_in_order [OF reach_two_queued [of False False]] by (auto simp: two_queued_def shared_init_def)

text \<open>C30: No command is forgotten, provided that the threads are sequentially consistent and the push of a task to the
  thread's own queue never fails: once no more commands are added the threads cannot go on for ever, whatever the order in which
  they run, and when they cannot go on every command has been executed and nobody owns the object.  The code ensures neither.
  \<open>m_owner = NULL\<close> (\<^verbatim>\<open>emittable.hpp:81\<close>) is a plain store that the read of \<open>m_head\<close> behind it may overtake, and \<open>push\<close>
  (\<^verbatim>\<open>emittable.hpp:12\<close>) ignores the result of \<open>mpush\<close>; without either a command can stay queued for ever
  (\<open>late_store_forgets\<close>, \<open>failed_push_forgets\<close>).  Neither a failing lock nor \<open>DESTROY\<close> is considered.\<close>

theorem every_command_runs:
  assumes "reach True True n s"
  shows "(\<nexists>f. f 0 = s \<and> (\<forall>i. work_step True True n (f i) (f (Suc i)))) \<and>
    (\<forall>s'. (work_step True True n)\<^sup>*\<^sup>* s s' \<and> quiet True True n s' \<longrightarrow> s_done s' = s_added s \<and> s_cmds s' = [] \<and> s_owner s' = None)"
proof (intro conjI allI impI)
  show "\<nexists>f. f 0 = s \<and> (\<forall>i. work_step True True n (f i) (f (Suc i)))"
    using work_terminates [of True True n] by (auto simp: wfp_def wf_iff_no_infinite_down_chain)
  fix s' assume w: "(work_step True True n)\<^sup>*\<^sup>* s s' \<and> quiet True True n s'"
  then have "reach True True n s'" using reach_work assms by blast
  note q = quiet_done [OF reach_inv [OF this] reach_noticed [OF this] reach_pushed [OF this] conjunct2 [OF w]]
  show "s_done s' = s_added s" using q(3) work_keeps_added w by auto
  show "s_cmds s' = []" "s_owner s' = None" using q(1,2) by auto
qed

theorem every_command_runs_witness: "\<exists>s'. (work_step True True 2)\<^sup>*\<^sup>* two_queued s' \<and> s_done s' = [7, 8] \<and> s_cmds s' = []"
proof -
  obtain s' where "(work_step True True 2)\<^sup>*\<^sup>* two_queued s' \<and> quiet True True 2 s'" using quiet_reached by blast
  moreover have "s_added two_queued = [7, 8]" by (simp add: two_queued_def)
  ultimately show ?thesis using every_command_runs [OF reach_two_queued] by metis
qed

section \<open>Where it goes wrong\<close>

text \<open>A state in which nobody is at work and the owner, if any, has lost his task.\<close>

lemma quietI:
  assumes "\<And>t. \<not> s_adder s t \<and> s_handler s t = Away \<and> s_tasks s t = 0 \<and> \<not> s_store s t"
  shows "quiet sc pushes n s"
  unfolding quiet_def using assms by (auto elim!: work_stepE)

text \<open>
  Thread 0 has executed a command and gives up the object, but that is still in its store buffer when it finds no other
  command.  Thread 1 queues one, and sees that the object has an owner.  Then the store gets to memory: nobody owns the
  object, nobody has anything to do, and the command stays there until another one is added.
\<close>

theorem late_store_forgets:
  "\<exists>s :: nat shared. reach False True 2 s \<and> quiet False True 2 s \<and> s_cmds s = [8] \<and> s_owner s = None"
proof -
  let ?f = "\<lambda>_ :: nat. False" and ?h = "\<lambda>_ :: nat. Away :: nat handler"
  let ?st = "\<lambda>cs ow ts ad h w ad' dn. \<lparr>s_cmds = cs, s_owner = ow, s_tasks = (\<lambda>_. 0)(0 := ts), s_adder = ad, s_handler = ?h(0 := h),
      s_store = ?f(0 := w), s_orphan = False, s_added = ad', s_done = dn\<rparr> :: nat shared"
  have step: "work_step False True 2 s s' \<Longrightarrow> reach False True 2 s \<Longrightarrow> reach False True 2 s'" for s s' :: "nat shared"
    by (rule reach.work)
  have 0: "reach False True 2 (?st [7] None 0 (?f(0 := True)) Away False [7] [])"
    using one_queued [of False True] by (simp add: shared_init_def fun_upd_idem)
  have 1: "reach False True 2 (?st [7] (Some 0) 1 ?f Away False [7] [])"
    by (rule step [OF _ 0], rule work_step.claim [where t = 0 and ok = True, THEN back_subst [of "work_step False True 2 _"]]) (simp_all add: step_defs fun_upd_idem)
  have 2: "reach False True 2 (?st [] (Some 0) 0 ?f (Batch [7]) False [7] [])"
    by (rule step [OF _ 1], rule work_step.take [where t = 0, THEN back_subst [of "work_step False True 2 _"]]) (simp_all add: step_defs)
  have 3: "reach False True 2 (?st [] (Some 0) 0 ?f (Batch []) False [7] [7])"
    by (rule step [OF _ 2], rule work_step.run [where t = 0 and c = 7 and cs = "[]", THEN back_subst [of "work_step False True 2 _"]]) (simp_all add: step_defs)
  have 4: "reach False True 2 (?st [] (Some 0) 0 ?f Released True [7] [7])"
    by (rule step [OF _ 3], rule work_step.release [where t = 0, THEN back_subst [of "work_step False True 2 _"]]) (simp_all add: step_defs)
  have 5: "reach False True 2 (?st [] (Some 0) 0 ?f Away True [7] [7])"
    by (rule step [OF _ 4], rule work_step.leave [where t = 0, THEN back_subst [of "work_step False True 2 _"]]) (simp_all add: step_defs)
  have 6: "reach False True 2 (?st [8] (Some 0) 0 (?f(1 := True)) Away True [7, 8] [7])"
    by (rule reach.add [OF 5], rule add_step.append [where t = 1 and c = 8, THEN back_subst [of "add_step 2 _"]]) simp_all
  have 7: "reach False True 2 (?st [8] (Some 0) 0 ?f Away True [7, 8] [7])"
    by (rule step [OF _ 6], rule work_step.pass [where t = 1, THEN back_subst [of "work_step False True 2 _"]]) (simp_all add: fun_upd_idem)
  have 8: "reach False True 2 (?st [8] None 0 ?f Away False [7, 8] [7])"
    by (rule step [OF _ 7], rule work_step.drain [where t = 0, THEN back_subst [of "work_step False True 2 _"]]) simp_all
  moreover have "quiet False True 2 (?st [8] None 0 ?f Away False [7, 8] [7])" by (rule quietI) simp
  ultimately show ?thesis by (intro exI [of _ "?st [8] None 0 ?f Away False [7, 8] [7]"]) simp
qed

text \<open>When the push of the task fails the object keeps its owner, who has nothing to do for it, and no command is ever executed.\<close>

lemma orphan_stays:
  assumes "queue_inv n s" "s_orphan s" "add_step n s s' \<or> work_step sc pushes n s s'"
  shows "s_orphan s' \<and> s_done s' = s_done s"
proof -
  have o: "one_owner n s" using assms(1) by (simp add: queue_inv_def)
  have "\<not> (0 < s_tasks s t \<or> batch (s_handler s t) \<noteq> None \<or> s_store s t)" for t
    using owner_at_work(3) [OF o, of t] assms(2) by blast
  then have none: "s_tasks s t = 0" "batch (s_handler s t) = None" "\<not> s_store s t" for t by simp_all
  note own = one_owner_orphan [OF o assms(2)]
  from assms(3) show ?thesis
  proof
    assume "add_step n s s'"
    then show ?thesis using assms(2) unfolding add_step_iff by auto
  next
    assume "work_step sc pushes n s s'"
    then show ?thesis
    proof cases
      case (run t c cs)
      then show ?thesis using none(2) [of t] by simp
    qed (use assms(2) none own in \<open>auto simp: step_defs\<close>)
  qed
qed

theorem failed_push_forgets:
  "\<exists>s :: nat shared. reach sc False 2 s \<and> s_added s = [7] \<and> s_done s = []
    \<and> (\<forall>s'. (\<lambda>s s'. add_step 2 s s' \<or> work_step sc False 2 s s')\<^sup>*\<^sup>* s s' \<longrightarrow> s_done s' = [])"
proof -
  let ?s = "shared_init\<lparr>s_cmds := [7], s_adder := (\<lambda>_. False)(0 := True), s_added := [7 :: nat]\<rparr>"
  let ?t = "(claim_by False 0 ?s)\<lparr>s_adder := (s_adder ?s)(0 := False)\<rparr>"
  have "work_step sc False 2 ?s ?t" by (rule work_step.claim) (simp_all add: shared_init_def)
  then have r: "reach sc False 2 ?t" by (rule reach.work [OF one_queued])
  have "queue_inv 2 s' \<and> s_orphan s' \<and> s_done s' = []" if "(\<lambda>s s'. add_step 2 s s' \<or> work_step sc False 2 s s')\<^sup>*\<^sup>* ?t s'" for s'
    using that
  proof (induction rule: rtranclp_induct)
    case base
    show ?case using reach_inv [OF r] by (simp add: claim_by_def shared_init_def)
  next
    case (step y z)
    then show ?case using orphan_stays [of 2 y z sc False] queue_inv_add [of 2 y z] queue_inv_work [of 2 y sc False z] by auto
  qed
  then show ?thesis using r by (intro exI [of _ ?t]) (auto simp: claim_by_def shared_init_def)
qed

end
