(* ===== verification/Serializer.thy ===== *)
theory Serializer
  imports MpakProps MsgId
begin

text \<open>
  \<^verbatim>\<open>src/src/serializer/serializer.h\<close>: the messages of remote procedure calls.  A request is the array of the
  kind, the message id, the method and the arguments; a response the array of the kind, the id of its request,
  the error and the results.  The packing operations stand on those of \<open>Mpak\<close>, \<open>p\<close> being what the caller packs.

  An access to an object gives \<open>None\<close> where it reads what the object does not have: an element behind its last,
  or a value as another type than its own.

  The lemmas: a packed message is read back as what it was packed from; what the packing operations return when
  the buffer is full; which objects \<open>validate_as_rpc_message\<close> lets pass.
\<close>

section \<open>Packing\<close>

definition request :: U8 where
  "request = 0"

definition response :: U8 where
  "response = 1"

definition notify :: U8 where
  "notify = 2"

text \<open>
  The state of a packing operation: the packer, and what else the caller's part works on.  \<open>None\<close> is an operation of
  the caller's that does not return.
\<close>

definition lift :: "(mpak \<Rightarrow> int \<times> mpak) \<Rightarrow> mpak \<times> 'w \<Rightarrow> (int \<times> mpak \<times> 'w) option" where
  "lift f x = (case f (fst x) of (r, s) \<Rightarrow> Some (r, s, snd x))"

text \<open>\<open>verify_success(f); g\<close>: the macro returns \<open>false\<close>, which is not negative.\<close>

definition seq_s :: "('s \<Rightarrow> (int \<times> 's) option) \<Rightarrow> ('s \<Rightarrow> (int \<times> 's) option) \<Rightarrow> 's \<Rightarrow> (int \<times> 's) option" where
  "seq_s f g s = (case f s of None \<Rightarrow> None | Some (r, s') \<Rightarrow> if r < 0 then Some (0, s') else g s')"

text \<open>\<open>pack_request\<close> takes the seed of \<open>m_gen\<close> and the \<open>msgid\<close> that is assigned.\<close>

definition pack_request :: "(U32 \<Rightarrow> mpak \<times> 'w \<Rightarrow> (int \<times> mpak \<times> 'w) option) \<Rightarrow> U32 \<times> U32 \<Rightarrow> mpak \<times> 'w
    \<Rightarrow> (int \<times> (U32 \<times> U32) \<times> mpak \<times> 'w) option" where
  "pack_request p g x = (case x of (s, w) \<Rightarrow>
     (case push_array_len 4 s of (r, s) \<Rightarrow> if r < 0 then Some (0, g, s, w)
      else case pack_U8 request s of (r, s) \<Rightarrow> if r < 0 then Some (0, g, s, w)
      else (let g = new_id (fst g) in
        map_option (\<lambda>(r, x). (r, g, x)) (seq_s (lift (pack_U32 (snd g))) (seq_s (p (snd g)) (lift here)) (s, w)))))"

definition pack_error :: "U32 \<Rightarrow> (mpak \<times> 'w \<Rightarrow> (int \<times> mpak \<times> 'w) option) \<Rightarrow> mpak \<times> 'w \<Rightarrow> (int \<times> mpak \<times> 'w) option" where
  "pack_error msgid e =
     seq_s (lift (push_array_len 4)) (seq_s (lift (pack_U8 response)) (seq_s (lift (pack_U32 msgid))
       (seq_s e (seq_s (lift pushnil) (lift here)))))"

definition pack_response :: "(mpak \<times> 'w \<Rightarrow> (int \<times> mpak \<times> 'w) option) \<Rightarrow> U32 \<Rightarrow> mpak \<times> 'w \<Rightarrow> (int \<times> mpak \<times> 'w) option" where
  "pack_response p msgid =
     seq_s (lift (push_array_len 4)) (seq_s (lift (pack_U8 response)) (seq_s (lift (pack_U32 msgid))
       (seq_s (lift pushnil) (seq_s p (lift here)))))"

section \<open>Objects\<close>

text \<open>\<open>elem\<close>, \<open>key\<close>, \<open>val\<close>, \<open>size\<close>, \<open>len\<close> and the conversions of \<open>data\<close>.\<close>

fun obj_elem :: "nat \<Rightarrow> data \<Rightarrow> data option" where
  "obj_elem n (ArrayD xs) = (if n < length xs then Some (xs ! n) else None)"
| "obj_elem n _ = None"

fun data_size :: "data \<Rightarrow> nat option" where
  "data_size (ArrayD xs) = Some (length xs)"
| "data_size (MapD kvs) = Some (length kvs)"
| "data_size _ = None"

fun as_u64 :: "data \<Rightarrow> U64 option" where
  "as_u64 (IntD i) = Some i"
| "as_u64 _ = None"

definition as_u32 :: "data \<Rightarrow> U32 option" where
  "as_u32 d = map_option ucast (as_u64 d)"

definition obj_type :: "data \<Rightarrow> U8 option" where
  "obj_type d = map_option ucast (Option.bind (obj_elem 0 d) as_u32)"

definition obj_msgid :: "data \<Rightarrow> U32 option" where
  "obj_msgid d = Option.bind (obj_elem 1 d) as_u32"

definition cmd :: "data \<Rightarrow> data option" where
  "cmd d = obj_elem 2 d"

definition arg :: "nat \<Rightarrow> data \<Rightarrow> data option" where
  "arg i d = Option.bind (obj_elem 3 d) (obj_elem i)"

definition alen :: "data \<Rightarrow> nat option" where
  "alen d = Option.bind (obj_elem 3 d) data_size"

definition resp :: "data \<Rightarrow> data option" where
  "resp d = obj_elem 3 d"

definition obj_error :: "data \<Rightarrow> data option" where
  "obj_error d = obj_elem 2 d"

definition is_request :: "data \<Rightarrow> bool option" where
  "is_request d = map_option (\<lambda>t. t = request) (obj_type d)"

definition is_response :: "data \<Rightarrow> bool option" where
  "is_response d = map_option (\<lambda>t. t = response) (obj_type d)"

definition is_notify :: "data \<Rightarrow> bool option" where
  "is_notify d = map_option (\<lambda>t. t = notify) (obj_type d)"

definition is_error :: "data \<Rightarrow> bool option" where
  "is_error d = (case is_response d of None \<Rightarrow> None
     | Some b \<Rightarrow> if b then map_option (\<lambda>e. kind e \<noteq> NIL) (obj_error d) else Some False)"

definition validate_as_rpc_message :: "data \<Rightarrow> bool" where
  "validate_as_rpc_message d \<longleftrightarrow> kind d = ARRAY"

text \<open>\<open>operator []\<close>: the outer \<open>None\<close> is a key that is not a string, or an object that is not a map.\<close>

fun find_key :: "U8 list \<Rightarrow> (data \<times> data) list \<Rightarrow> data option option" where
  "find_key k [] = Some None"
| "find_key k ((BlobD b, v) # kvs) = (if length k = length b \<and> k = b then Some (Some v) else find_key k kvs)"
| "find_key k (_ # kvs) = None"

fun obj_find :: "U8 list \<Rightarrow> data \<Rightarrow> data option option" where
  "obj_find k (MapD kvs) = find_key k kvs"
| "obj_find k _ = None"

text \<open>\<open>operator ()\<close> with a \<open>bool\<close> and an \<open>int\<close> as the default; \<open>d2i\<close> is the conversion of a \<open>double\<close>.\<close>

definition obj_bool :: "U8 list \<Rightarrow> bool \<Rightarrow> data \<Rightarrow> bool option" where
  "obj_bool k def d = (case obj_find k d of None \<Rightarrow> None
     | Some None \<Rightarrow> Some def
     | Some (Some (BoolD b)) \<Rightarrow> Some b
     | Some (Some _) \<Rightarrow> None)"

definition obj_int :: "(U64 \<Rightarrow> int) \<Rightarrow> U8 list \<Rightarrow> int \<Rightarrow> data \<Rightarrow> int option" where
  "obj_int d2i k def d = (case obj_find k d of None \<Rightarrow> None
     | Some None \<Rightarrow> Some def
     | Some (Some (DoubleD x)) \<Rightarrow> Some (d2i x)
     | Some (Some (IntD i)) \<Rightarrow> Some (sint (ucast i :: U32))
     | Some (Some _) \<Rightarrow> None)"

section \<open>What the operations append\<close>

text \<open>
  As \<open>packs\<close>: \<open>appends\<close> when there is room, and \<open>packs0\<close> with the result 0 when there is not.
\<close>

definition appends :: "(mpak \<times> 'w \<Rightarrow> (int \<times> mpak \<times> 'w) option) \<Rightarrow> U8 list \<Rightarrow> bool" where
  "appends f bs \<longleftrightarrow> (\<forall>s w. mpak_ok s \<and> length bs < buffsize s \<longrightarrow> f (s, w) = Some (curpos (emit bs s), emit bs s, w))"

definition packs0 :: "(mpak \<times> 'w \<Rightarrow> (int \<times> mpak \<times> 'w) option) \<Rightarrow> U8 list \<Rightarrow> bool" where
  "packs0 f bs \<longleftrightarrow> (\<forall>s w. mpak_ok s \<and> buffsize s \<le> length bs \<longrightarrow> (\<exists>s'. f (s, w) = Some (0, s', w)))"

lemma appendsD: "appends f bs \<Longrightarrow> mpak_ok s \<Longrightarrow> length bs < buffsize s \<Longrightarrow> f (s, w) = Some (curpos (emit bs s), emit bs s, w)"
  by (simp add: appends_def)

lemma packs0D: "packs0 f bs \<Longrightarrow> mpak_ok s \<Longrightarrow> buffsize s \<le> length bs \<Longrightarrow> \<exists>s'. f (s, w) = Some (0, s', w)"
  by (simp add: packs0_def)

lemma appends_lift: "packs f bs \<Longrightarrow> appends (lift f) bs"
  by (simp add: packs_def appends_def lift_def here_def)

lemma packs0_here: "packs0 (lift here) []"
  by (auto simp: packs0_def mpak_ok_def buffsize_def code_defs)

lemma appends_seq_s:
  assumes f: "appends f as" and g: "appends g bs"
  shows "appends (seq_s f g) (as @ bs)"
  unfolding appends_def
proof (intro allI impI)
  fix s :: mpak and w
  assume *: "mpak_ok s \<and> length (as @ bs) < buffsize s"
  then have ok: "mpak_ok (emit as s)" "length bs < buffsize (emit as s)" by (auto intro: mpak_ok_emit)
  have "f (s, w) = Some (curpos (emit as s), emit as s, w)" using appendsD [OF f] * by simp
  then show "seq_s f g (s, w) = Some (curpos (emit (as @ bs) s), emit (as @ bs) s, w)"
    using curpos_nonneg [OF ok(1)] appendsD [OF g ok] by (simp add: seq_s_def emit_append)
qed

lemma packs0_seq_s:
  assumes f: "packs f as" and g: "packs0 g bs"
  shows "packs0 (seq_s (lift f) g) (as @ bs)"
  unfolding packs0_def
proof (intro allI impI)
  fix s :: mpak and w
  assume *: "mpak_ok s \<and> buffsize s \<le> length (as @ bs)"
  show "\<exists>s'. seq_s (lift f) g (s, w) = Some (0, s', w)"
  proof (cases "length as < buffsize s")
    case True
    then have ok: "mpak_ok (emit as s)" "buffsize (emit as s) \<le> length bs" using * by (auto intro: mpak_ok_emit)
    have "lift f (s, w) = Some (curpos (emit as s), emit as s, w)" using appendsD [OF appends_lift [OF f], of s w] * True by simp
    then show ?thesis using curpos_nonneg [OF ok(1)] packs0D [OF g ok] by (simp add: seq_s_def)
  next
    case False
    then have "fst (f s) < 0" using packs_short [OF f] * by simp
    then show ?thesis by (cases "f s") (simp add: seq_s_def lift_def)
  qed
qed

lemmas packs_header = packs_len(2) packs_pack_msg(1) [of "PU8 _", simplified pack_msg.simps]
  packs_pack_msg(1) [of "PU32 _", simplified pack_msg.simps] packs_pack_msg(1) [of PNil, simplified pack_msg.simps]

lemma appends_response:
  assumes "appends p bs"
  shows "appends (pack_response p msgid) (enc_array_len 4 @ enc (PU8 response) @ enc (PU32 msgid) @ enc PNil @ bs)"
  using appends_seq_s [OF assms appends_lift [OF packs_here]] unfolding pack_response_def
  by (intro appends_seq_s appends_lift packs_header) simp

lemma appends_error:
  assumes "appends p bs"
  shows "appends (pack_error msgid p) (enc_array_len 4 @ enc (PU8 response) @ enc (PU32 msgid) @ bs @ enc PNil)"
  using appends_seq_s [OF appends_lift [OF packs_header(4)] appends_lift [OF packs_here]] unfolding pack_error_def
  by (intro appends_seq_s appends_lift packs_header assms) simp

lemma packs0_response:
  assumes "packs p bs"
  shows "packs0 (pack_response (lift p) msgid) (enc_array_len 4 @ enc (PU8 response) @ enc (PU32 msgid) @ enc PNil @ bs)"
  using packs0_seq_s [OF assms packs0_here] unfolding pack_response_def
  by (intro packs0_seq_s packs_header) simp

lemma packs0_error:
  assumes "packs p bs"
  shows "packs0 (pack_error msgid (lift p)) (enc_array_len 4 @ enc (PU8 response) @ enc (PU32 msgid) @ bs @ enc PNil)"
  using packs0_seq_s [OF packs_header(4) packs0_here] unfolding pack_error_def
  by (intro packs0_seq_s packs_header assms) simp

text \<open>\<open>pack_request\<close> is the same sequence, with the id drawn in its middle.\<close>

lemma pack_request_seq:
  "map_option (\<lambda>(r, _, x). (r, x)) (pack_request p g x) =
     seq_s (lift (push_array_len 4)) (seq_s (lift (pack_U8 request)) (seq_s (lift (pack_U32 (snd (new_id (fst g)))))
       (seq_s (p (snd (new_id (fst g)))) (lift here)))) x"
  by (cases x) (auto simp: pack_request_def seq_s_def [of "lift (push_array_len 4)"] seq_s_def [of "lift (pack_U8 request)"]
      lift_def [of "push_array_len 4"] lift_def [of "pack_U8 request"] option.map_comp comp_def case_prod_beta Let_def
      option.map_ident split: prod.split)

lemma pack_request_id:
  assumes "push_array_len 4 s = (r1, s1)" "\<not> r1 < 0" "pack_U8 request s1 = (r2, s2)" "\<not> r2 < 0"
    and "pack_request p g (s, w) = Some (r, g', x)"
  shows "g' = new_id (fst g)"
  using assms by (auto simp: pack_request_def Let_def)

lemma appends_request:
  assumes p: "appends (p (snd (new_id sd))) bs" and ok: "mpak_ok s"
  defines "e \<equiv> enc_array_len 4 @ enc (PU8 request) @ enc (PU32 (snd (new_id sd))) @ bs"
  assumes room: "length e < buffsize s"
  shows "pack_request p (sd, m) (s, w) = Some (curpos (emit e s), new_id sd, emit e s, w)"
proof -
  have "appends (seq_s (lift (push_array_len 4)) (seq_s (lift (pack_U8 request)) (seq_s (lift (pack_U32 (snd (new_id sd))))
       (seq_s (p (snd (new_id sd))) (lift here))))) e"
    using appends_seq_s [OF p appends_lift [OF packs_here]] unfolding e_def
    by (intro appends_seq_s appends_lift packs_header) simp
  from appendsD [OF this ok room] obtain g' where
    r: "pack_request p (sd, m) (s, w) = Some (curpos (emit e s), g', emit e s, w)"
    using pack_request_seq [of p "(sd, m)" "(s, w)"] by auto
  have "length (enc_array_len 4) < buffsize s" using room by (simp add: e_def)
  then have a: "push_array_len 4 s = here (emit (enc_array_len 4) s)" "mpak_ok (emit (enc_array_len 4) s)"
    using packsD [OF packs_header(1) ok] mpak_ok_emit [OF ok] by auto
  have "length (enc (PU8 request)) < buffsize (emit (enc_array_len 4) s)" using room by (simp add: e_def)
  then have "pack_U8 request (emit (enc_array_len 4) s) = here (emit (enc (PU8 request)) (emit (enc_array_len 4) s))"
    "mpak_ok (emit (enc (PU8 request)) (emit (enc_array_len 4) s))"
    using packsD [OF packs_header(2) a(2)] mpak_ok_emit [OF a(2)] by auto
  with a have "g' = new_id (fst (sd, m))"
    using curpos_nonneg by (intro pack_request_id [OF _ _ _ _ r]) (auto simp: here_def not_less)
  with r show ?thesis by simp
qed

lemma packs0_request:
  assumes p: "packs (p (snd (new_id sd))) bs" and ok: "mpak_ok s"
    and full: "buffsize s \<le> length (enc_array_len 4 @ enc (PU8 request) @ enc (PU32 (snd (new_id sd))) @ bs)"
  shows "\<exists>g x. pack_request (\<lambda>i. lift (p i)) (sd, m) (s, w) = Some (0, g, x)"
proof -
  have "packs0 (seq_s (lift (push_array_len 4)) (seq_s (lift (pack_U8 request)) (seq_s (lift (pack_U32 (snd (new_id sd))))
       (seq_s (lift (p (snd (new_id sd)))) (lift here))))) (enc_array_len 4 @ enc (PU8 request) @ enc (PU32 (snd (new_id sd))) @ bs)"
    using packs0_seq_s [OF p packs0_here] by (intro packs0_seq_s packs_header) simp
  from packs0D [OF this ok full, of w] show ?thesis
    using pack_request_seq [of "\<lambda>i. lift (p i)" "(sd, m)" "(s, w)"] by auto
qed

lemma decs_map: "decs f2d xs = map (dec f2d) xs"
  by (induction xs) auto

text \<open>A message as one array: the same bytes.\<close>

definition call_msg :: "U8 \<Rightarrow> U32 \<Rightarrow> msg list \<Rightarrow> msg" where
  "call_msg k msgid ms = PArray (PU8 k # PU32 msgid # ms)"

lemma enc_call_msg:
  "length ms = 2 \<Longrightarrow> enc (call_msg k msgid ms) = enc_array_len 4 @ enc (PU8 k) @ enc (PU32 msgid) @ encs ms"
  by (simp add: call_msg_def)

lemma object_call_msg:
  fixes f2d k msgid e r
  defines "x \<equiv> dec f2d (call_msg k msgid [e, r])"
  shows "validate_as_rpc_message x" "obj_type x = Some k" "obj_msgid x = Some msgid"
    "obj_elem 2 x = Some (dec f2d e)" "obj_elem 3 x = Some (dec f2d r)"
proof -
  have "(ucast (ucast (ucast k :: U64) :: U32) :: U8) = k" by (rule bit_word_eqI) (auto simp: bit_simps)
  moreover have "(ucast (ucast msgid :: U64) :: U32) = msgid" by (rule bit_word_eqI) (auto simp: bit_simps)
  ultimately show "validate_as_rpc_message x" "obj_type x = Some k" "obj_msgid x = Some msgid"
    "obj_elem 2 x = Some (dec f2d e)" "obj_elem 3 x = Some (dec f2d r)"
    by (simp_all add: x_def call_msg_def validate_as_rpc_message_def obj_type_def obj_msgid_def as_u32_def)
qed

text \<open>What was appended to a buffer without unread bytes is unpacked again.\<close>

lemma appended_is_unpacked:
  assumes f: "appends f (enc m)" and pb: "m_ofs pb = m_len pb" "m_limit pb < 2 ^ 31" "length (enc m) < pbuf_available pb"
    and mem: "m_ptr pb = Some a" "cnt c a = Some n" and d: "depth m < 16" "fresh_parser ctx"
  shows "\<exists>mpk ctx' pb' c'. f (start_pack pb, w) = Some (int (length (enc m)), mpk, w)
    \<and> mpak_unpack (\<lambda>_. True) f2d ctx (m_pbuf mpk) c = Some (Inr UNPACK_SUCCESS, ctx', pb', c') \<and> at_work ctx' = dec f2d m
    \<and> fresh_parser ctx'"
proof -
  have ok: "mpak_ok (start_pack pb)" and room: "length (enc m) < buffsize (start_pack pb)"
    using pb(2,3) by (simp_all add: mpak_ok_def start_pack_def code_defs buffsize_def)
  have "pack_msg m (start_pack pb) = here (emit (enc m) (start_pack pb))" by (rule packsD [OF packs_pack_msg(1) ok room])
  moreover have "f (start_pack pb, w) = Some (curpos (emit (enc m) (start_pack pb)), emit (enc m) (start_pack pb), w)"
    by (rule appendsD [OF f ok room])
  ultimately show ?thesis using unpack_packed [OF pb mem d, of f2d] by (auto simp: here_def)
qed

section \<open>Properties\<close>

text \<open>A request that fits into the buffer is read back by the peer as a request, with a message id that
  was just drawn from the generator and the method and the arguments of the caller.\<close>

theorem request_reaches_peer:
  assumes "m_ofs pb = m_len pb" and "m_limit pb < 2 ^ 31" and "m_ptr pb = Some a" and "cnt c a = Some n"
    and "length (enc (call_msg request (snd (new_id sd)) [meth, PArray args])) < pbuf_available pb"
    and "depth (call_msg request (snd (new_id sd)) [meth, PArray args]) < 16" and "fresh_parser ctx"
  shows "\<exists>r mpk ctx' pb' c' x. pack_request (\<lambda>_. lift (pack_msgs [meth, PArray args])) (sd, m) (start_pack pb, ()) = Some (r, new_id sd, mpk, ())
    \<and> mpak_unpack (\<lambda>_. True) f2d ctx (m_pbuf mpk) c = Some (Inr UNPACK_SUCCESS, ctx', pb', c') \<and> x = at_work ctx'
    \<and> validate_as_rpc_message x \<and> is_request x = Some True \<and> obj_msgid x = Some (snd (new_id sd))
    \<and> cmd x = Some (dec f2d meth) \<and> obj_elem 3 x = Some (ArrayD (map (dec f2d) args))"
proof -
  let ?m = "call_msg request (snd (new_id sd)) [meth, PArray args]" and ?s = "start_pack pb"
  have e: "enc ?m = enc_array_len 4 @ enc (PU8 request) @ enc (PU32 (snd (new_id sd))) @ encs [meth, PArray args]"
    by (rule enc_call_msg) simp
  have ok: "mpak_ok ?s" and room: "length (enc ?m) < buffsize ?s"
    using assms(2,5) by (simp_all add: mpak_ok_def start_pack_def code_defs buffsize_def)
  have "pack_request (\<lambda>_. lift (pack_msgs [meth, PArray args])) (sd, m) (?s, ()) = Some (curpos (emit (enc ?m) ?s), new_id sd, emit (enc ?m) ?s, ())"
    using appends_request [of "\<lambda>_. lift (pack_msgs [meth, PArray args])" sd, OF appends_lift [OF packs_pack_msg(2)] ok, of m "()"] room
    unfolding e by blast
  moreover have "lift (pack_msg ?m) (?s, ()) = Some (curpos (emit (enc ?m) ?s), emit (enc ?m) ?s, ())"
    by (rule appendsD [OF appends_lift [OF packs_pack_msg(1)] ok room])
  ultimately show ?thesis
    using appended_is_unpacked [OF appends_lift [OF packs_pack_msg(1)] assms(1,2,5,3,4,6,7), of "()" f2d]
      object_call_msg [of f2d request "snd (new_id sd)" meth "PArray args"]
    by (auto simp: is_request_def cmd_def decs_map)
qed

lemma request_reaches_peer_witness:
  "\<exists>r mpk ctx' pb' c' x. pack_request (\<lambda>_. lift (pack_msgs [PRaw [0x70], PArray [PBool True]])) (MSGID_START, 0)
      (start_pack \<lparr>m_ptr = Some 0, m_mem = (\<lambda>_. 0), m_len = 0, m_limit = 64, m_ofs = 0\<rparr>, ()) = Some (r, (1001, 1001), mpk, ())
    \<and> mpak_unpack (\<lambda>_. True) (\<lambda>_. 0) (mpak_init (\<lambda>_. undefined)) (m_pbuf mpk) \<lparr>cnt = [0 \<mapsto> 1], fresh = 1\<rparr>
        = Some (Inr UNPACK_SUCCESS, ctx', pb', c') \<and> x = at_work ctx'
    \<and> is_request x = Some True \<and> obj_msgid x = Some 1001 \<and> cmd x = Some (BlobD [0x70]) \<and> obj_elem 3 x = Some (ArrayD [BoolD True])"
proof -
  have id: "new_id MSGID_START = (1001, 1001)" by (simp add: code_defs msgid_consts)
  show ?thesis
    using request_reaches_peer [of "\<lparr>m_ptr = Some 0, m_mem = (\<lambda>_. 0), m_len = 0, m_limit = 64, m_ofs = 0\<rparr>" 0
        "\<lparr>cnt = [0 \<mapsto> 1], fresh = 1\<rparr>" 1 MSGID_START "PRaw [0x70]" "[PBool True]" "mpak_init (\<lambda>_. undefined)" 0 "\<lambda>_. 0", unfolded id]
    by (auto simp: fresh_mpak_init code_defs call_msg_def enc_array_len_def enc_raw_len_def request_def)
qed

text \<open>When the buffer has no room for the whole of a message, packing it returns 0 and not an error: the
  callers, which test for a negative result, take it as packed.\<close>

theorem full_buffer_is_no_error:
  assumes "mpak_ok s"
    and "buffsize s \<le> length (enc (call_msg request (snd (new_id sd)) [meth, PArray args]))"
    and "buffsize s \<le> length (enc (call_msg response msgid [PNil, v]))"
  shows "\<exists>g s1 s2 s3. pack_request (\<lambda>_. lift (pack_msgs [meth, PArray args])) (sd, m) (s, ()) = Some (0, g, s1)
    \<and> pack_response (lift (pack_msg v)) msgid (s, ()) = Some (0, s2) \<and> pack_error msgid (lift (pack_msg v)) (s, ()) = Some (0, s3)"
proof -
  have "\<exists>g x. pack_request (\<lambda>_. lift (pack_msgs [meth, PArray args])) (sd, m) (s, ()) = Some (0, g, x)"
    using packs0_request [of "\<lambda>_. pack_msgs [meth, PArray args]" sd, OF packs_pack_msg(2) assms(1), of m "()"] assms(2)
      enc_call_msg [of "[meth, PArray args]"] by simp
  moreover have "\<exists>s'. pack_response (lift (pack_msg v)) msgid (s, ()) = Some (0, s', ())"
    by (rule packs0D [OF packs0_response [OF packs_pack_msg(1)] assms(1)]) (use assms(3) in \<open>simp add: enc_call_msg\<close>)
  moreover have "\<exists>s'. pack_error msgid (lift (pack_msg v)) (s, ()) = Some (0, s', ())"
    by (rule packs0D [OF packs0_error [OF packs_pack_msg(1)] assms(1)]) (use assms(3) in \<open>simp add: enc_call_msg\<close>)
  ultimately show ?thesis by blast
qed

theorem full_buffer_is_no_error_witness:
  "\<exists>g x. pack_request (\<lambda>_. lift (pack_msgs [PNil, PArray []])) (MSGID_START, 0)
    (start_pack \<lparr>m_ptr = Some 0, m_mem = (\<lambda>_. 0), m_len = 0, m_limit = 3, m_ofs = 0\<rparr>, ()) = Some (0, g, x)"
proof -
  let ?s = "start_pack \<lparr>m_ptr = Some 0, m_mem = (\<lambda>_. 0), m_len = 0, m_limit = 3, m_ofs = 0\<rparr>"
  have "mpak_ok ?s" "buffsize ?s = 3" by (simp_all add: mpak_ok_def start_pack_def buffsize_def code_defs)
  then show ?thesis using full_buffer_is_no_error [of ?s MSGID_START PNil "[]" 0 PNil 0]
    by (auto simp: call_msg_def enc_array_len_def)
qed

text \<open>The message of an empty array, a single byte, is unpacked and passes \<open>validate_as_rpc_message\<close>; its
  kind is then read from an element it does not have.\<close>

theorem empty_message_passes:
  assumes "in_order pb" and "unread pb = [FIXARRAY_MASK]" and "m_ptr pb = Some a" and "cnt c a = Some n" and "fresh_parser ctx"
  shows "\<exists>ctx' pb' c'. mpak_unpack (\<lambda>_. True) f2d ctx pb c = Some (Inr UNPACK_SUCCESS, ctx', pb', c')
    \<and> validate_as_rpc_message (at_work ctx') \<and> is_request (at_work ctx') = None \<and> is_response (at_work ctx') = None"
proof -
  obtain ar c' where run: "mpak_unpack (\<lambda>_. True) f2d ctx pb c
      = (case unpack_loop (\<lambda>_. True) f2d (ctx\<lparr>sbf := Some ar\<rparr>) pb of
         None \<Rightarrow> None | Some (r, ctx, pb) \<Rightarrow> Some (Inr r, ctx, pb, c'))"
    using mpak_unpack_runs(2) [OF assms(3,4), of "\<lambda>_. True" f2d ctx] by auto
  have "unread pb = enc (PArray []) @ []" using assms(2) by (simp add: enc_array_len_def)
  moreover have "stack_height (ctx\<lparr>sbf := Some ar\<rparr>) = 0" "status (stack (ctx\<lparr>sbf := Some ar\<rparr>) 0) = INITIAL"
    "dptr (stack (ctx\<lparr>sbf := Some ar\<rparr>) 0) = []" "sbf (ctx\<lparr>sbf := Some ar\<rparr>) \<noteq> None"
    using assms(5) by (simp_all add: fresh_parser_def)
  ultimately obtain ctx' pb' where "unpack_loop (\<lambda>_. True) f2d (ctx\<lparr>sbf := Some ar\<rparr>) pb = Some (UNPACK_SUCCESS, ctx', pb')"
    "at_work ctx' = dec f2d (PArray [])"
    using reads_all [of "\<lambda>_. True" "ctx\<lparr>sbf := Some ar\<rparr>" "PArray []" pb "[]" f2d] assms(1) by auto
  then show ?thesis using run
    by (simp add: validate_as_rpc_message_def is_request_def is_response_def obj_type_def)
qed

theorem empty_message_passes_witness:
  "\<exists>ctx' pb' c'. mpak_unpack (\<lambda>_. True) (\<lambda>_. 0) (mpak_init (\<lambda>_. undefined))
      \<lparr>m_ptr = Some 0, m_mem = (\<lambda>_. 0x90), m_len = 1, m_limit = 64, m_ofs = 0\<rparr> \<lparr>cnt = [0 \<mapsto> 1], fresh = 1\<rparr>
      = Some (Inr UNPACK_SUCCESS, ctx', pb', c')
    \<and> validate_as_rpc_message (at_work ctx') \<and> is_request (at_work ctx') = None"
  using empty_message_passes [of "\<lparr>m_ptr = Some 0, m_mem = (\<lambda>_. 0x90), m_len = 1, m_limit = 64, m_ofs = 0\<rparr>" 0
      "\<lparr>cnt = [0 \<mapsto> 1], fresh = 1\<rparr>" 1 "mpak_init (\<lambda>_. undefined)" "\<lambda>_. 0"]
  by (auto simp: fresh_mpak_init in_order_def unread_def code_defs tag_defs bytes_at_def)

end
