(* ===== verification/LuaPack.thy ===== *)
theory LuaPack
  imports Serializer "HOL-Library.AList"
begin

text \<open>
  \<^verbatim>\<open>src/src/ll/lua/lua.cpp\<close>, lines 252 to 566: how Lua values become messages and messages Lua values.  A value
  of the Lua stack is an \<open>lval\<close>; a number is its 64 bits, a function the bytes of its dump, a table the pairs in
  the order in which \<open>lua_next\<close> gives them.  What Lua itself does (the \<open>pack\<close> and \<open>unpack\<close> methods of modules,
  loading a dumped function, turning an integer into a number) and the memory of buffers are arguments, in the
  record \<open>vm\<close>.

  Packing returns \<open>None\<close> when a loop does not end; unpacking when it reads what the message does not have or an
  error is raised inside Lua.

  The lemmas: values that fit into the buffer are unpacked as they were; a string that has to be packed again
  because the buffer was too small gets its header twice.
\<close>

section \<open>Lua values\<close>

datatype lval = LNil | LBool bool | LNum U64 | LStr "U8 list" | LTab "(lval \<times> lval) list" | LFun "U8 list" | LCFun | LUser nat | LOther

definition LUA_TFUNCTION :: U8 where
  "LUA_TFUNCTION = 6"

definition LUA_TUSERDATA :: U8 where
  "LUA_TUSERDATA = 7"

text \<open>
  \<open>vm_ok\<close> and \<open>vm_junk\<close>: \<open>malloc\<close>; \<open>vm_pack\<close>: the method that packs a value, if it has one, and the module and the
  bytes it gives, unless it fails; \<open>vm_load\<close>: what \<open>lua_load\<close> leaves on the stack; \<open>vm_require\<close>: the method of a
  module that unpacks.
\<close>

record vm =
  vm_ok :: "nat \<Rightarrow> bool"
  vm_junk :: mem
  vm_pack :: "lval \<Rightarrow> (U8 list \<times> U8 list) option option"
  vm_load :: "U8 list \<Rightarrow> lval"
  vm_require :: "U8 list \<Rightarrow> (data \<Rightarrow> lval option) option"
  vm_number :: "int \<Rightarrow> U64"

section \<open>Packing\<close>

type_synonym packing = "mpak \<times> cells \<Rightarrow> (int \<times> mpak \<times> cells) option"

definition expand_buffer :: "vm \<Rightarrow> nat \<Rightarrow> packing" where
  "expand_buffer vm sz x = (case x of (s, c) \<Rightarrow>
     (case pbuf_reserve (vm_ok vm sz) (vm_junk vm) sz (m_pbuf s) c of None \<Rightarrow> None
      | Some (r, pb, c) \<Rightarrow> Some (int_result r, s\<lparr>m_pbuf := pb\<rparr>, c)))"

text \<open>The macro \<open>retry\<close>.\<close>

partial_function (option) retry :: "vm \<Rightarrow> (mpak \<Rightarrow> int \<times> mpak) \<Rightarrow> nat \<Rightarrow> packing" where
  "retry vm f sz x =
     (case f (fst x) of (r, s) \<Rightarrow>
        if r < 0 then
          (case expand_buffer vm sz (s, snd x) of None \<Rightarrow> None
           | Some (r', x) \<Rightarrow> if r' < 0 then Some (r, x) else retry vm f (2 * sz mod 2 ^ 64) x)
        else Some (r, s, snd x))"

text \<open>The \<open>break\<close> to \<open>return sr.len()\<close>, unless the macro returned.\<close>

definition then_len :: "(int \<times> mpak \<times> cells) option \<Rightarrow> (int \<times> mpak \<times> cells) option" where
  "then_len y = (case y of None \<Rightarrow> None | Some (r, s, c) \<Rightarrow> if r < 0 then Some (r, s, c) else Some (curpos s, s, c))"

text \<open>A call whose result is not looked at, then \<open>g\<close>.\<close>

definition seq_i :: "packing \<Rightarrow> packing \<Rightarrow> packing" where
  "seq_i f g x = (case f x of None \<Rightarrow> None | Some (_, x) \<Rightarrow> g x)"

definition ret :: "int \<Rightarrow> packing" where
  "ret r x = Some (r, x)"

definition call_custom_pack :: "vm \<Rightarrow> lval \<Rightarrow> packing" where
  "call_custom_pack vm v x =
     (case vm_pack vm v of
        None \<Rightarrow> Some (nbr_code ENOTFOUND, x)
      | Some None \<Rightarrow> Some (nbr_code ESYSCALL, x)
      | Some (Some (m, b)) \<Rightarrow>
          (case expand_buffer vm (length b) x of None \<Rightarrow> None
           | Some (r, x) \<Rightarrow> if r < 0 then Some (r, x)
               else seq_s (lift (push_array_len 3)) (seq_s (lift (pack_U8 LUA_TUSERDATA))
                 (seq_s (lift (push_string (m @ [0]) (- 1))) (seq_s (lift (push_raw b)) (ret 0)))) x))"

definition pack_function :: "vm \<Rightarrow> U8 list \<Rightarrow> packing" where
  "pack_function vm b x =
     (if \<not> vm_ok vm (length b) then Some (nbr_code EINVAL, x)
      else case expand_buffer vm (length b) x of None \<Rightarrow> None
        | Some (r, x) \<Rightarrow> if r < 0 then Some (r, x)
            else seq_s (lift (push_array_len 2)) (seq_s (lift (pack_U8 LUA_TFUNCTION)) (seq_s (lift (push_raw b)) (ret 0))) x)"

function pack_stack :: "vm \<Rightarrow> lval \<Rightarrow> packing"
  and pack_table :: "vm \<Rightarrow> (lval \<times> lval) list \<Rightarrow> packing" where
  "pack_stack vm LNil x = then_len (retry vm pushnil 1024 x)"
| "pack_stack vm (LNum d) x = then_len (retry vm (pack_double d) 1024 x)"
| "pack_stack vm (LBool b) x = then_len (retry vm (pack_bool b) 1024 x)"
| "pack_stack vm (LStr b) x = then_len (retry vm (push_raw b) 1024 x)"
| "pack_stack vm (LTab kvs) x =
     (case call_custom_pack vm (LTab kvs) x of None \<Rightarrow> None
      | Some (r, x) \<Rightarrow>
          if r = nbr_code ENOTFOUND then then_len (seq_i (lift (push_map_len (length kvs))) (pack_table vm kvs) x)
          else then_len (Some (r, x)))"
| "pack_stack vm (LFun b) x = seq_s (pack_function vm b) (lift here) x"
| "pack_stack vm LCFun x = then_len (retry vm pushnil 1024 x)"
| "pack_stack vm (LUser u) x =
     (case call_custom_pack vm (LUser u) x of None \<Rightarrow> None
      | Some (r, x) \<Rightarrow> if r = nbr_code ENOTFOUND then retry vm pushnil 1024 x else then_len (Some (r, x)))"
| "pack_stack vm LOther x = Some (nbr_code EINVAL, x)"
| "pack_table vm [] x = Some (0, x)"
| "pack_table vm ((k, v) # kvs) x = seq_i (pack_stack vm k) (seq_i (pack_stack vm v) (pack_table vm kvs)) x"
  by pat_completeness auto
termination
  by (relation "measure (case_sum (\<lambda>(vm, v, x). size v) (\<lambda>(vm, kvs, x). size_list (size_prod size size) kvs))") auto

text \<open>\<open>pack_stack\<close> for each value.\<close>

fun pack_values :: "vm \<Rightarrow> lval list \<Rightarrow> packing" where
  "pack_values vm [] x = Some (curpos (fst x), x)"
| "pack_values vm (v # vs) x = (case pack_stack vm v x of None \<Rightarrow> None
     | Some (r, x) \<Rightarrow> if r < 0 then Some (r, x) else pack_values vm vs x)"


definition pack_stack_as_response :: "vm \<Rightarrow> lval list \<Rightarrow> packing" where
  "pack_stack_as_response vm vs = seq_i (lift (push_array_len (length vs))) (pack_values vm vs)"

section \<open>Unpacking\<close>

definition as_int :: "data \<Rightarrow> int option" where
  "as_int d = map_option (\<lambda>i. sint (ucast i :: U32)) (as_u64 d)"

fun as_blob :: "data \<Rightarrow> U8 list option" where
  "as_blob (BlobD b) = Some b"
| "as_blob _ = None"

text \<open>\<open>t[k] = v\<close>.\<close>

definition settable :: "lval \<Rightarrow> lval \<Rightarrow> (lval \<times> lval) list \<Rightarrow> (lval \<times> lval) list option" where
  "settable k v t = (if k = LNil then None else Some (if v = LNil then AList.delete k t else AList.update k v t))"

text \<open>\<open>lua_load\<close> gives no negative result, so the test for one never is true; a method that fails leaves \<open>nil\<close>.\<close>

definition unpack_function :: "vm \<Rightarrow> data \<Rightarrow> (nbr_error + lval) option" where
  "unpack_function vm d = map_option (\<lambda>b. Inr (vm_load vm b)) (as_blob d)"

definition call_custom_unpack :: "vm \<Rightarrow> data \<Rightarrow> (nbr_error + lval) option" where
  "call_custom_unpack vm d =
     (case Option.bind (obj_elem 1 d) as_blob of None \<Rightarrow> None
      | Some m \<Rightarrow>
          (case vm_require vm (takeWhile ((\<noteq>) 0) m) of None \<Rightarrow> Some (Inr LNil)
           | Some f \<Rightarrow> (case obj_elem 2 d of None \<Rightarrow> None
               | Some d \<Rightarrow> Some (Inr (case f d of None \<Rightarrow> LNil | Some v \<Rightarrow> v)))))"

text \<open>The results of \<open>unpack_stack\<close> within tables are not looked at: without a value the stack does not fit any more.\<close>

function unpack_stack :: "vm \<Rightarrow> data \<Rightarrow> (nbr_error + lval) option"
  and unpack_list :: "vm \<Rightarrow> nat \<Rightarrow> data list \<Rightarrow> (lval \<times> lval) list \<Rightarrow> (lval \<times> lval) list option"
  and unpack_pairs :: "vm \<Rightarrow> (data \<times> data) list \<Rightarrow> (lval \<times> lval) list \<Rightarrow> (lval \<times> lval) list option" where
  "unpack_stack vm NilD = Some (Inr LNil)"
| "unpack_stack vm Uninit = Some (Inr LNil)"
| "unpack_stack vm (BoolD b) = Some (Inr (LBool b))"
| "unpack_stack vm (ArrayD xs) =
     (case Option.bind (obj_elem 0 (ArrayD xs)) as_int of None \<Rightarrow> None
      | Some t \<Rightarrow>
          if t = uint LUA_TFUNCTION then Option.bind (obj_elem 1 (ArrayD xs)) (unpack_function vm)
          else if t = uint LUA_TUSERDATA then call_custom_unpack vm (ArrayD xs)
          else if t < 0 then map_option (\<lambda>t. Inr (LTab t)) (unpack_list vm 1 xs [])
          else Some (Inl EINVAL))"
| "unpack_stack vm (MapD kvs) = map_option (\<lambda>t. Inr (LTab t)) (unpack_pairs vm kvs [])"
| "unpack_stack vm (BlobD b) = Some (Inr (LStr b))"
| "unpack_stack vm (DoubleD d) = Some (Inr (LNum d))"
| "unpack_stack vm (IntD i) = Some (Inr (LNum (vm_number vm (sint (ucast i :: U32)))))"
| "unpack_list vm i [] t = Some t"
| "unpack_list vm i (x # xs) t =
     (case unpack_stack vm x of Some (Inr v) \<Rightarrow> Option.bind (settable (LNum (vm_number vm (int i))) v t) (unpack_list vm (i + 1) xs)
      | _ \<Rightarrow> None)"
| "unpack_pairs vm [] t = Some t"
| "unpack_pairs vm ((k, v) # kvs) t =
     (case (unpack_stack vm k, unpack_stack vm v) of
        (Some (Inr k), Some (Inr v)) \<Rightarrow> Option.bind (settable k v t) (unpack_pairs vm kvs)
      | _ \<Rightarrow> None)"
  by pat_completeness auto
termination
  by (relation "measure (case_sum (\<lambda>(vm, d). size d) (case_sum (\<lambda>(vm, i, xs, t). size_list size xs)
      (\<lambda>(vm, kvs, t). size_list (size_prod size size) kvs)))") auto

fun unpack_values :: "vm \<Rightarrow> data list \<Rightarrow> (nbr_error + lval list) option" where
  "unpack_values vm [] = Some (Inr [])"
| "unpack_values vm (d # ds) =
     (case unpack_stack vm d of None \<Rightarrow> None
      | Some (Inl e) \<Rightarrow> Some (Inl e)
      | Some (Inr v) \<Rightarrow> map_option (map_sum id ((#) v)) (unpack_values vm ds))"

text \<open>The elements below \<open>size\<close>; the elements of a map are not read as such.\<close>

fun unpack_elems :: "vm \<Rightarrow> data \<Rightarrow> (nbr_error + lval list) option" where
  "unpack_elems vm (ArrayD xs) = unpack_values vm xs"
| "unpack_elems vm (MapD []) = Some (Inr [])"
| "unpack_elems vm _ = None"

text \<open>What is left on the stack, for the coroutine that waits for the response.\<close>

definition unpack_response_to_stack :: "vm \<Rightarrow> data \<Rightarrow> (nbr_error + lval list) option" where
  "unpack_response_to_stack vm d =
     (case is_error d of None \<Rightarrow> None
      | Some True \<Rightarrow> map_option (map_sum id (\<lambda>v. [LBool False, v])) (Option.bind (obj_error d) (unpack_stack vm))
      | Some False \<Rightarrow> map_option (map_sum id ((#) (LBool True))) (Option.bind (resp d) (unpack_elems vm)))"


section \<open>Values that fit\<close>

text \<open>
  The message of a value.  A value is plain when no method packs it: no userdata, no function of C, and no table
  with a \<open>pack\<close> method; a table has no key twice and no \<open>nil\<close>.  A function is loaded by the receiver \<open>vm'\<close>.
\<close>

function lmsg :: "lval \<Rightarrow> msg" and lpairs :: "(lval \<times> lval) list \<Rightarrow> (msg \<times> msg) list" where
  "lmsg LNil = PNil"
| "lmsg (LBool b) = PBool b"
| "lmsg (LNum d) = PDouble d"
| "lmsg (LStr b) = PRaw b"
| "lmsg (LTab kvs) = PMap (lpairs kvs)"
| "lmsg (LFun b) = PArray [PU8 LUA_TFUNCTION, PRaw b]"
| "lmsg LCFun = PNil"
| "lmsg (LUser u) = PNil"
| "lmsg LOther = PNil"
| "lpairs [] = []"
| "lpairs ((k, v) # kvs) = (lmsg k, lmsg v) # lpairs kvs"
  by pat_completeness auto
termination
  by (relation "measure (case_sum size (size_list (size_prod size size)))") auto

function plain :: "vm \<Rightarrow> vm \<Rightarrow> lval \<Rightarrow> bool" and plain_pairs :: "vm \<Rightarrow> vm \<Rightarrow> (lval \<times> lval) list \<Rightarrow> bool" where
  "plain vm vm' LNil = True"
| "plain vm vm' (LBool b) = True"
| "plain vm vm' (LNum d) = True"
| "plain vm vm' (LStr b) = True"
| "plain vm vm' (LTab kvs) = (vm_pack vm (LTab kvs) = None \<and> plain_pairs vm vm' kvs)"
| "plain vm vm' (LFun b) = (vm_ok vm (length b) \<and> vm_load vm' b = LFun b)"
| "plain vm vm' LCFun = False"
| "plain vm vm' (LUser u) = False"
| "plain vm vm' LOther = False"
| "plain_pairs vm vm' [] = True"
| "plain_pairs vm vm' ((k, v) # kvs) = (plain vm vm' k \<and> plain vm vm' v \<and> k \<noteq> LNil \<and> v \<noteq> LNil \<and> k \<notin> fst ` set kvs
     \<and> plain_pairs vm vm' kvs)"
  by pat_completeness auto
termination
  by (relation "measure (case_sum (\<lambda>(_, _, v). size v) (\<lambda>(_, _, kvs). size_list (size_prod size size) kvs))") auto

lemma length_lpairs [simp]: "length (lpairs kvs) = length kvs"
  by (induction kvs) auto

lemma appends_retry:
  assumes "packs f bs"
  shows "appends (\<lambda>x. then_len (retry vm f sz x)) bs"
  unfolding appends_def
proof (intro allI impI)
  fix s :: mpak and c
  assume *: "mpak_ok s \<and> length bs < buffsize s"
  then have "f s = (curpos (emit bs s), emit bs s)" using packsD [OF assms] by (simp add: here_def)
  moreover have "0 \<le> curpos (emit bs s)" using * by (intro curpos_nonneg mpak_ok_emit) auto
  ultimately show "then_len (retry vm f sz (s, c)) = Some (curpos (emit bs s), emit bs s, c)"
    by (simp add: retry.simps then_len_def)
qed

lemma appends_function:
  assumes "vm_ok vm (length b)"
  shows "appends (seq_s (pack_function vm b) (lift here)) (enc (lmsg (LFun b)))"
  unfolding appends_def
proof (intro allI impI)
  fix s :: mpak and c
  let ?a = "enc_array_len 2" and ?u = "enc (PU8 LUA_TFUNCTION)" and ?b = "enc (PRaw b)"
  assume *: "mpak_ok s \<and> length (enc (lmsg (LFun b))) < buffsize s"
  have e: "enc (lmsg (LFun b)) = ?a @ ?u @ ?b" by (simp add: numeral_2_eq_2)
  have "length b \<le> pbuf_available (m_pbuf s)" using * by (simp add: buffsize_def)
  then have x: "expand_buffer vm (length b) (s, c) = Some (0, s, c)" by (simp add: expand_buffer_def reserve_enough)
  have room: "length ?a < buffsize s" "length ?u < buffsize (emit ?a s)" "length ?b < buffsize (emit ?u (emit ?a s))"
    using * unfolding e by (auto simp del: enc.simps)
  have ok: "mpak_ok (emit ?a s)" "mpak_ok (emit ?u (emit ?a s))" "mpak_ok (emit ?b (emit ?u (emit ?a s)))"
    using * room by (auto intro!: mpak_ok_emit simp del: enc.simps)
  have step: "seq_s (lift f) g (t, c) = g (emit bs t, c)" if "packs f bs" "mpak_ok t" "length bs < buffsize t" for f g bs t
    using packsD [OF that] curpos_nonneg [OF mpak_ok_emit [OF that(2,3)]] by (simp add: seq_s_def lift_def here_def)
  have "seq_s (lift (push_array_len 2)) (seq_s (lift (pack_U8 LUA_TFUNCTION)) (seq_s (lift (push_raw b)) (ret 0))) (s, c)
      = Some (0, emit (enc (lmsg (LFun b))) s, c)"
    using * unfolding e emit_append
    by (simp add: step [OF packs_header(1) _ room(1)] step [OF packs_header(2) ok(1) room(2)]
        step [OF packs_pack_msg(1) [of "PRaw b", unfolded pack_msg.simps] ok(2) room(3)] ret_def del: enc.simps)
  then show "seq_s (pack_function vm b) (lift here) (s, c) = Some (curpos (emit (enc (lmsg (LFun b))) s), emit (enc (lmsg (LFun b))) s, c)"
    using assms x by (simp add: pack_function_def seq_s_def [of "pack_function vm b"] lift_def here_def)
qed

text \<open>Of tables only the pairs: the result is not a length.\<close>

definition appends_pairs :: "packing \<Rightarrow> U8 list \<Rightarrow> bool" where
  "appends_pairs f bs \<longleftrightarrow> (\<forall>s c. mpak_ok s \<and> length bs < buffsize s \<longrightarrow> f (s, c) = Some (0, emit bs s, c))"

lemma appends_pairs_seq:
  assumes "appends f as" "appends_pairs g bs"
  shows "appends_pairs (seq_i f g) (as @ bs)"
  unfolding appends_pairs_def
proof (intro allI impI)
  fix s c assume *: "mpak_ok s \<and> length (as @ bs) < buffsize s"
  then have "f (s, c) = Some (curpos (emit as s), emit as s, c)" by (intro appendsD [OF assms(1)]) auto
  moreover have "g (emit as s, c) = Some (0, emit bs (emit as s), c)"
    using assms(2) * mpak_ok_emit [of s as] by (auto simp: appends_pairs_def)
  ultimately show "seq_i f g (s, c) = Some (0, emit (as @ bs) s, c)" by (simp add: seq_i_def emit_append)
qed

lemma appends_table:
  assumes "vm_pack vm (LTab kvs) = None" "appends_pairs (pack_table vm kvs) (enc_pairs (lpairs kvs))"
  shows "appends (pack_stack vm (LTab kvs)) (enc (lmsg (LTab kvs)))"
  unfolding appends_def
proof (intro allI impI)
  fix s c assume *: "mpak_ok s \<and> length (enc (lmsg (LTab kvs))) < buffsize s"
  have "appends_pairs (seq_i (lift (push_map_len (length kvs))) (pack_table vm kvs)) (enc (lmsg (LTab kvs)))"
    using appends_pairs_seq [OF appends_lift [OF packs_len(3)] assms(2)] by simp
  then have "seq_i (lift (push_map_len (length kvs))) (pack_table vm kvs) (s, c) = Some (0, emit (enc (lmsg (LTab kvs))) s, c)"
    using * unfolding appends_pairs_def by blast
  then show "pack_stack vm (LTab kvs) (s, c) = Some (curpos (emit (enc (lmsg (LTab kvs))) s), emit (enc (lmsg (LTab kvs))) s, c)"
    by (simp add: assms(1) call_custom_pack_def then_len_def)
qed

lemma plain_appends:
  shows "plain vm vm' v \<Longrightarrow> appends (pack_stack vm v) (enc (lmsg v))"
    and "plain_pairs vm vm' kvs \<Longrightarrow> appends_pairs (pack_table vm kvs) (enc_pairs (lpairs kvs))"
proof (induction vm vm' v and vm vm' kvs rule: plain_plain_pairs.induct)
  case (5 vm vm' kvs)
  then show ?case by (intro appends_table) auto
next
  case (6 vm vm' b)
  then show ?case using appends_function [of vm b] by (simp add: appends_def del: lmsg.simps)
next
  case (10 vm vm')
  then show ?case by (simp add: appends_pairs_def)
next
  case (11 vm vm' k v kvs)
  then have "appends_pairs (seq_i (pack_stack vm k) (seq_i (pack_stack vm v) (pack_table vm kvs)))
      (enc (lmsg k) @ enc (lmsg v) @ enc_pairs (lpairs kvs))"
    by (intro appends_pairs_seq) auto
  then show ?case by (simp add: appends_pairs_def)
qed (use appends_retry [OF packs_pack_msg(1) [of PNil]] appends_retry [OF packs_pack_msg(1) [of "PBool _"]]
    appends_retry [OF packs_pack_msg(1) [of "PDouble _"]] appends_retry [OF packs_pack_msg(1) [of "PRaw _"]]
    in \<open>simp_all add: appends_def\<close>)

lemma appends_values:
  assumes "\<forall>v\<in>set vs. plain vm vm' v"
  shows "appends (pack_values vm vs) (encs (map lmsg vs))"
  using assms
proof (induction vs)
  case Nil
  then show ?case by (simp add: appends_def)
next
  case (Cons v vs)
  have v: "appends (pack_stack vm v) (enc (lmsg v))" using Cons.prems by (intro plain_appends(1) [of vm vm']) simp
  have vs: "appends (pack_values vm vs) (encs (map lmsg vs))" using Cons by simp
  show ?case unfolding appends_def
  proof (intro allI impI)
    fix s c assume *: "mpak_ok s \<and> length (encs (map lmsg (v # vs))) < buffsize s"
    let ?t = "emit (enc (lmsg v)) s"
    have t: "mpak_ok ?t" "length (encs (map lmsg vs)) < buffsize ?t" using * by (auto intro!: mpak_ok_emit)
    have "pack_stack vm v (s, c) = Some (curpos ?t, ?t, c)" using * by (intro appendsD [OF v]) auto
    then show "pack_values vm (v # vs) (s, c) = Some (curpos (emit (encs (map lmsg (v # vs))) s), emit (encs (map lmsg (v # vs))) s, c)"
      using appendsD [OF vs t, of c] curpos_nonneg [OF t(1)] by (simp add: emit_append not_less)
  qed
qed

lemma appends_seq_i:
  assumes "appends f as" "appends g bs"
  shows "appends (seq_i f g) (as @ bs)"
  unfolding appends_def
proof (intro allI impI)
  fix s c assume *: "mpak_ok s \<and> length (as @ bs) < buffsize s"
  then have ok: "mpak_ok (emit as s)" "length bs < buffsize (emit as s)" by (auto intro: mpak_ok_emit)
  have "f (s, c) = Some (curpos (emit as s), emit as s, c)" using * by (intro appendsD [OF assms(1)]) auto
  then show "seq_i f g (s, c) = Some (curpos (emit (as @ bs) s), emit (as @ bs) s, c)"
    using appendsD [OF assms(2) ok, of c] by (simp add: seq_i_def emit_append)
qed

lemma appends_stack_response:
  assumes "\<forall>v\<in>set vs. plain vm vm' v"
  shows "appends (pack_stack_as_response vm vs) (enc (PArray (map lmsg vs)))"
  using appends_seq_i [OF appends_lift [OF packs_len(2)] appends_values [OF assms], of "length vs"]
  by (simp add: pack_stack_as_response_def)


text \<open>And unpacking them again.\<close>

lemma update_fresh: "k \<notin> fst ` set t \<Longrightarrow> AList.update k v t = t @ [(k, v)]"
  by (induction t) auto

lemma plain_unpacked:
  shows "plain vm vm' v \<Longrightarrow> unpack_stack vm' (dec f2d (lmsg v)) = Some (Inr v)"
    and "plain_pairs vm vm' kvs \<Longrightarrow> fst ` set kvs \<inter> fst ` set t = {} \<Longrightarrow> unpack_pairs vm' (dec_pairs f2d (lpairs kvs)) t = Some (t @ kvs)"
proof (induction vm vm' v and vm vm' kvs arbitrary: and t rule: plain_plain_pairs.induct)
  case (5 vm vm' kvs)
  then show ?case using "5.IH" [of "[]"] by simp
next
  case (6 vm vm' b)
  have "as_int (IntD (ucast LUA_TFUNCTION)) = Some (uint LUA_TFUNCTION)" by (simp add: as_int_def LUA_TFUNCTION_def)
  with 6 show ?case by (simp add: unpack_function_def)
next
  case (11 vm vm' k v kvs)
  have "settable k v t = Some (t @ [(k, v)])" using 11 update_fresh [of k t v] by (simp add: settable_def)
  then show ?case using 11 by auto
qed auto

lemma values_unpacked:
  assumes "\<forall>v\<in>set vs. plain vm vm' v"
  shows "unpack_values vm' (map (dec f2d) (map lmsg vs)) = Some (Inr vs)"
  using assms by (induction vs) (simp_all add: plain_unpacked(1) [of vm vm'])

section \<open>A string that does not fit\<close>

lemma grow_bound:
  assumes "0 < limit" and "sz \<le> 2 ^ 62"
  shows "\<exists>r. grow sz limit = Some r \<and> sz \<le> r \<and> r \<le> max limit (2 * sz)"
  using assms(1)
proof (induction "sz - limit" arbitrary: limit rule: less_induct)
  case less
  show ?case
  proof (cases "limit < sz")
    case True
    with assms(2) have "(limit * 2) mod 2 ^ 64 = limit * 2" by simp
    moreover have "sz - limit * 2 < sz - limit" using True less.prems by linarith
    then obtain r where "grow sz (limit * 2) = Some r" "sz \<le> r" "r \<le> max (limit * 2) (2 * sz)"
      using less.hyps [of "limit * 2"] less.prems by auto
    ultimately show ?thesis using grow_step [OF True] True by auto
  qed auto
qed

lemma reserve_keeps:
  assumes "pbuf_available pb < sz" and "m_ptr pb = Some old" and "cnt c old = Some n" and "old < fresh c"
    and "m_ofs pb = 0" and "m_len pb \<le> m_limit pb" and "0 < m_limit pb" and "m_limit pb < 2 ^ 29" and "sz \<le> 2 ^ 29"
  shows "\<exists>pb' c'. pbuf_reserve True junk sz pb c = Some (Inr 0, pb', c') \<and> contents pb' = contents pb
    \<and> m_len pb' = m_len pb \<and> m_limit pb' < 2 ^ 31 \<and> sz \<le> pbuf_available pb'"
proof -
  have small: "sz + m_len pb < 2 ^ 30" using assms(6,8,9) by simp
  then have m: "(sz + m_len pb) mod 2 ^ 64 = sz + m_len pb" by simp
  obtain r where r: "grow (sz + m_len pb) (m_limit pb) = Some r" "sz + m_len pb \<le> r" "r \<le> max (m_limit pb) (2 * (sz + m_len pb))"
    using grow_bound [of "m_limit pb" "sz + m_len pb"] assms(7) small by auto
  then have "r < 2 ^ 31" using small assms(8) by simp
  moreover obtain c' where c': "ptr_unref old (snd (cell_new c)) = Some c'"
    using assms(3,4) by (simp add: ptr_unref_def cell_new_def)
  moreover have "bytes_at (mem_copy junk 0 (bytes_at (m_mem pb) 0 (m_len pb))) 0 (m_len pb) = bytes_at (m_mem pb) 0 (m_len pb)"
    using bytes_at_mem_copy [of junk 0 "bytes_at (m_mem pb) 0 (m_len pb)"] by simp
  ultimately show ?thesis using r m assms(1,2,5)
    by (auto simp: pbuf_reserve_def code_defs cell_new_def Let_def contents_def)
qed

lemma contents_emit: "contents (m_pbuf (emit bs s)) = contents (m_pbuf s) @ bs"
  by (simp add: emit_def contents_def bytes_at_append mem_simps)

text \<open>The first attempt leaves the header behind, the second packs the string with another.\<close>

lemma two_headers:
  fixes b s
  defines "h \<equiv> enc_raw_len (length b)"
  assumes ok: "mpak_ok s" and short: "length h < buffsize s" "buffsize s \<le> length h + length b" "length h + length b < 1024"
    and mem: "vm_ok vm 1024" "m_ptr (m_pbuf s) = Some old" "cnt c old = Some n" "old < fresh c"
    and pb: "m_ofs (m_pbuf s) = 0" "m_limit (m_pbuf s) < 2 ^ 29"
  shows "\<exists>r s' c'. pack_stack vm (LStr b) (s, c) = Some (r, s', c') \<and> 0 \<le> r \<and> contents (m_pbuf s') = contents (m_pbuf s) @ h @ h @ b"
proof -
  have e: "enc (PRaw b) = h @ b" by (simp add: h_def)
  have ok1: "mpak_ok (emit h s)" using mpak_ok_emit ok short(1) .
  have "push_raw_len (length b) s = here (emit h s)" unfolding h_def
    by (rule packsD [OF packs_len(1) ok]) (use short(1) in \<open>simp add: h_def\<close>)
  moreover have "buffsize (emit h s) \<le> length b" using short(2) by (simp add: le_diff_conv add.commute)
  ultimately have f: "push_raw b s = (nbr_code ESHORT, emit h s)"
    using curpos_nonneg [OF ok1] by (simp add: push_raw_def seq_r_def here_def push_raw_onlydata_def checked_def not_less del: buffsize_emit)
  let ?pb = "m_pbuf (emit h s)"
  have av: "pbuf_available ?pb < 1024" using short buffsize_emit [of h s] by (simp add: buffsize_def)
  have fl: "m_ptr ?pb = Some old" "m_ofs ?pb = 0" "m_limit ?pb < 2 ^ 29" "m_len ?pb \<le> m_limit ?pb" "0 < m_limit ?pb"
    using mem pb ok1 by (simp_all add: emit_def mpak_ok_def)
  obtain pb' c' where x: "pbuf_reserve True (vm_junk vm) 1024 ?pb c = Some (Inr 0, pb', c')" "contents pb' = contents ?pb"
    "m_len pb' = m_len ?pb" "m_limit pb' < 2 ^ 31" "1024 \<le> pbuf_available pb'"
    using reserve_keeps [OF av fl(1) mem(3,4) fl(2,4,5,3), of "vm_junk vm"] by auto
  let ?s = "(emit h s)\<lparr>m_pbuf := pb'\<rparr>"
  have ok2: "mpak_ok ?s" and room: "length (enc (PRaw b)) < buffsize ?s"
    using ok1 x(3-5) short(3) unfolding e by (auto simp: mpak_ok_def buffsize_def code_defs)
  have g: "push_raw b ?s = here (emit (enc (PRaw b)) ?s)"
    using packsD [OF packs_pack_msg(1) [of "PRaw b"] ok2 room] by simp
  have pos: "0 \<le> curpos (emit (enc (PRaw b)) ?s)" by (rule curpos_nonneg [OF mpak_ok_emit [OF ok2 room]])
  have "retry vm (push_raw b) (2 * 1024 mod 2 ^ 64) (?s, c') = Some (curpos (emit (enc (PRaw b)) ?s), emit (enc (PRaw b)) ?s, c')"
    using g pos by (simp add: retry.simps here_def del: enc.simps)
  moreover have "expand_buffer vm 1024 (emit h s, c) = Some (0, ?s, c')" using x(1) mem(1) by (simp add: expand_buffer_def)
  ultimately have "retry vm (push_raw b) 1024 (s, c) = Some (curpos (emit (enc (PRaw b)) ?s), emit (enc (PRaw b)) ?s, c')"
    by (subst retry.simps) (simp add: f del: enc.simps)
  then show ?thesis using pos x(2) unfolding e by (simp add: then_len_def contents_emit not_less)
qed

section \<open>Properties\<close>


definition small_vm :: vm where
  "small_vm = \<lparr>vm_ok = (\<lambda>_. True), vm_junk = (\<lambda>_. 0), vm_pack = (\<lambda>_. None), vm_load = LFun, vm_require = (\<lambda>_. None), vm_number = (\<lambda>_. 0)\<rparr>"

definition small_buffer :: pbuf where
  "small_buffer = \<lparr>m_ptr = Some 0, m_mem = (\<lambda>_. 0), m_len = 0, m_limit = 64, m_ofs = 0\<rparr>"

lemmas small_defs = small_vm_def small_buffer_def fresh_mpak_init code_defs call_msg_def enc_array_len_def enc_raw_len_def
  enc_map_len_def request_def response_def P_FIXNUM_END_def


text \<open>C32: and so do the results: the coroutine that made the call is resumed with \<open>true\<close> and the values that the
  procedure returned, or with \<open>false\<close> and the error that it raised, provided that the error is not \<open>nil\<close>.  An error \<open>nil\<close>
  (\<open>error(nil)\<close>) is not taken for one: \<open>is_error\<close> is false of the message, and the receiver asks for the size of the result that
  is not there, an object \<open>nil\<close>, whose size was never set.  Provided as well: the values are plain (booleans, numbers,
  strings, functions that the receiver can load, tables of these without a \<open>pack\<close> method), the message fits into the buffer
  and is nested less than the parser's sixteen frames, memory is there, and the parser is between two messages.\<close>

theorem results_arrive:
  assumes "m_ofs pb = m_len pb" and "m_limit pb < 2 ^ 31" and "m_ptr pb = Some a" and "cnt c a = Some n" and "fresh_parser ctx"
    and "\<forall>v\<in>set vs. plain vm vm' v"
    and "length (enc (call_msg response msgid [PNil, PArray (map lmsg vs)])) < pbuf_available pb"
    and "depth (call_msg response msgid [PNil, PArray (map lmsg vs)]) < 16"
    and "plain vm vm' e"
    and "length (enc (call_msg response msgid [lmsg e, PNil])) < pbuf_available pb"
    and "depth (call_msg response msgid [lmsg e, PNil]) < 16"
  shows "(\<exists>r mpk ctx' pb' c' x. pack_response (pack_stack_as_response vm vs) msgid (start_pack pb, c) = Some (r, mpk, c)
      \<and> mpak_unpack (\<lambda>_. True) f2d ctx (m_pbuf mpk) c = Some (Inr UNPACK_SUCCESS, ctx', pb', c') \<and> x = at_work ctx'
      \<and> is_response x = Some True \<and> obj_msgid x = Some msgid \<and> unpack_response_to_stack vm' x = Some (Inr (LBool True # vs)))
    \<and> (\<exists>r mpk ctx' pb' c' x. pack_error msgid (pack_stack vm e) (start_pack pb, c) = Some (r, mpk, c)
      \<and> mpak_unpack (\<lambda>_. True) f2d ctx (m_pbuf mpk) c = Some (Inr UNPACK_SUCCESS, ctx', pb', c') \<and> x = at_work ctx'
      \<and> is_response x = Some True \<and> obj_msgid x = Some msgid \<and> is_error x = Some (e \<noteq> LNil)
      \<and> unpack_response_to_stack vm' x = (if e = LNil then None else Some (Inr [LBool False, e])))"
    (is "?good \<and> ?bad")
proof (rule conjI)
  note obj = object_call_msg [of f2d response msgid]
  have "appends (pack_response (pack_stack_as_response vm vs) msgid) (enc (call_msg response msgid [PNil, PArray (map lmsg vs)]))"
    using appends_response [OF appends_stack_response [OF assms(6)], of msgid] enc_call_msg [of "[PNil, PArray (map lmsg vs)]"]
    by (simp del: enc.simps)
  from appended_is_unpacked [OF this assms(1,2,7,3,4,8,5), of c f2d] show ?good
    using obj [of PNil "PArray (map lmsg vs)"] values_unpacked [OF assms(6), of f2d]
    by (auto simp: is_response_def is_error_def resp_def obj_error_def unpack_response_to_stack_def decs_map)
  have "appends (pack_error msgid (pack_stack vm e)) (enc (call_msg response msgid [lmsg e, PNil]))"
    using appends_error [OF plain_appends(1) [OF assms(9)], of msgid] enc_call_msg [of "[lmsg e, PNil]"] by (simp del: enc.simps)
  moreover have "kind (dec f2d (lmsg e)) = NIL \<longleftrightarrow> e = LNil" using assms(9) by (cases e) auto
  ultimately show ?bad using appended_is_unpacked [OF _ assms(1,2,10,3,4,11,5), of "pack_error msgid (pack_stack vm e)" c f2d]
      obj [of "lmsg e" PNil] plain_unpacked(1) [OF assms(9), of f2d]
    by (auto simp: is_response_def is_error_def obj_error_def resp_def unpack_response_to_stack_def)
qed

theorem results_arrive_witness:
  "(\<exists>r mpk ctx' pb' c' x. pack_response (pack_stack_as_response small_vm [LStr [0x66], LNil]) 7
      (start_pack small_buffer, \<lparr>cnt = [0 \<mapsto> 1], fresh = 1\<rparr>) = Some (r, mpk, \<lparr>cnt = [0 \<mapsto> 1], fresh = 1\<rparr>)
    \<and> mpak_unpack (\<lambda>_. True) (\<lambda>_. 0) (mpak_init (\<lambda>_. undefined)) (m_pbuf mpk) \<lparr>cnt = [0 \<mapsto> 1], fresh = 1\<rparr>
        = Some (Inr UNPACK_SUCCESS, ctx', pb', c') \<and> x = at_work ctx'
    \<and> unpack_response_to_stack small_vm x = Some (Inr [LBool True, LStr [0x66], LNil]))
  \<and> (\<exists>r mpk ctx' pb' c' x. pack_error 7 (pack_stack small_vm (LStr [0x6e, 0x6f])) (start_pack small_buffer, \<lparr>cnt = [0 \<mapsto> 1], fresh = 1\<rparr>)
        = Some (r, mpk, \<lparr>cnt = [0 \<mapsto> 1], fresh = 1\<rparr>)
    \<and> mpak_unpack (\<lambda>_. True) (\<lambda>_. 0) (mpak_init (\<lambda>_. undefined)) (m_pbuf mpk) \<lparr>cnt = [0 \<mapsto> 1], fresh = 1\<rparr>
        = Some (Inr UNPACK_SUCCESS, ctx', pb', c') \<and> x = at_work ctx'
    \<and> unpack_response_to_stack small_vm x = Some (Inr [LBool False, LStr [0x6e, 0x6f]]))" (is "?good \<and> ?bad")
proof (rule conjI)
  note r = results_arrive [of small_buffer 0 "\<lparr>cnt = [0 \<mapsto> 1], fresh = 1\<rparr>" 1 "mpak_init (\<lambda>_. undefined)"
        "[LStr [0x66], LNil]" small_vm small_vm 7 "LStr [0x6e, 0x6f]" "\<lambda>_. 0"]
  show ?good using conjunct1 [OF r] by (auto simp: small_defs)
  show ?bad using conjunct2 [OF r] by (auto simp: small_defs)
qed

text \<open>A string that does not fit into the buffer is packed wrongly: the header of the first attempt stays in the
  buffer, which is enlarged, and the string is packed behind it with a second header; no error is reported.\<close>

theorem long_string_gets_two_headers:
  assumes "mpak_ok s" and "length (enc_raw_len (length b)) < buffsize s" and "buffsize s \<le> length (enc_raw_len (length b)) + length b"
    and "length (enc_raw_len (length b)) + length b < 1024"
    and "vm_ok vm 1024" and "m_ptr (m_pbuf s) = Some old" and "cnt c old = Some n" and "old < fresh c"
    and "m_ofs (m_pbuf s) = 0" and "m_limit (m_pbuf s) < 2 ^ 29"
  shows "\<exists>r s' c'. pack_stack vm (LStr b) (s, c) = Some (r, s', c') \<and> 0 \<le> r
    \<and> contents (m_pbuf s') = contents (m_pbuf s) @ enc_raw_len (length b) @ enc (PRaw b)"
  using two_headers [OF assms] by simp

theorem long_string_gets_two_headers_witness:
  "\<exists>r s' c'. pack_stack small_vm (LStr (replicate 70 0x61)) (start_pack small_buffer, \<lparr>cnt = [0 \<mapsto> 1], fresh = 1\<rparr>) = Some (r, s', c')
    \<and> 0 \<le> r \<and> contents (m_pbuf s') = [RAW16, 0, 70, RAW16, 0, 70] @ replicate 70 0x61"
  using long_string_gets_two_headers [of "start_pack small_buffer" "replicate 70 0x61" small_vm 0 "\<lparr>cnt = [0 \<mapsto> 1], fresh = 1\<rparr>" 1]
  by (simp add: small_defs mpak_ok_def buffsize_def start_pack_def contents_def be16_def)

text \<open>Headers of tables are not packed again at all: an empty table vanishes.\<close>

theorem table_vanishes:
  assumes "vm_pack vm (LTab []) = None" and "mpak_ok s" and "buffsize s = 1"
  shows "pack_stack vm (LTab []) (s, c) = Some (curpos s, s, c)"
proof -
  have "push_map_len 0 s = (nbr_code ESHORT, s)" using assms(3) by (simp add: push_map_len_def checked_def)
  then show ?thesis using assms(1) by (simp add: call_custom_pack_def seq_i_def lift_def then_len_def)
qed

end
