(* ===== verification/Fabric.thy ===== *)
theory Fabric
  imports Serializer "HOL-Library.AList" "HOL-Library.Multiset"
begin

text \<open>
  \<^verbatim>\<open>src/src/fiber/\<close> (\<^verbatim>\<open>fiber.h\<close>, \<^verbatim>\<open>fiber.hpp\<close>, \<^verbatim>\<open>fabric.h\<close>): fibers and how they are resumed.  A fiber belongs to the
  server (thread) that created it.  When it calls a procedure, emits an event or waits for one it is put into the
  table of yielded fibers under a new message id; a response, an event or the timeout takes it out and resumes it,
  on its own server.  When its coroutine is finished it answers and is destroyed.

  The program of a fiber is an argument: \<open>prog\<close> tells what the coroutine does when it is resumed, namely an
  \<open>action\<close> that suspends it, finishing, or an error.  So are, in the record \<open>env\<close> of a step, the thread that takes it, the time and
  whether memory, queues, emitters and peers do what they are asked.  The table is kept in the order in which it
  is iterated.  \<open>None\<close> is a use of a fiber or a watcher that was destroyed, or of an element a message does not have.

  The lemmas: without failing sends no step uses a destroyed fiber, and every suspended fiber is in one place
  only; a failing send, and an event behind a timeout, do use a destroyed fiber.
\<close>

section \<open>State\<close>

datatype event = Timer | Signal int | Session nat | Listener | Proc "U8 list" | Emitted "U8 list" | Fs "U32" | Thread

datatype event_id = ID_STOP | ID_TIMER | ID_SIGNAL | ID_SESSION | ID_LISTENER | ID_PROC | ID_EMIT | ID_FILESYSTEM | ID_THREAD

datatype input = Args int | Message data | Event event | TimeoutError

datatype endpoint = Nop | Callback nat | Datagram nat nat | Stream nat | Local nat

datatype action = Call U32 | Wait event_id "U8 list" U32 U32 | Emit U32

datatype co_outcome = Suspend action | Finish | Fail

type_synonym 'c prog = "'c \<Rightarrow> input \<Rightarrow> 'c \<times> co_outcome"

record 'c fiber =
  b_msgid :: U32
  b_endp :: endpoint
  b_owner :: nat
  b_unremovable :: bool
  b_w :: "nat option"
  b_co :: 'c

record watcher =
  w_id :: event_id
  w_name :: "U8 list"
  w_flag :: U32
  w_msgid :: U32
  w_owner :: nat
  w_fb :: "nat option"

record yielded =
  y_f :: nat
  y_limit :: U64

datatype fabric_task = Resume nat input | Start input | Destroy_fiber nat | Thread_message nat data

record 'c fabric =
  f_fibers :: "nat \<rightharpoonup> 'c fiber"
  f_watchers :: "nat \<rightharpoonup> watcher"
  f_yielded :: "(U32 \<times> yielded) list"
  f_que :: "nat \<Rightarrow> fabric_task list"
  f_seed :: U32
  f_sent :: "(endpoint \<times> U32 \<times> bool) list"

text \<open>
  \<open>e_slot\<close> and \<open>e_wslot\<close> are where the pools put a new fiber and a new watcher; \<open>e_co\<close> is a coroutine as \<open>init\<close>
  leaves it.
\<close>

record 'c env =
  e_me :: nat
  e_now :: U64
  e_timeout_us :: U32
  e_slot :: "nat option"
  e_wslot :: "nat option"
  e_co :: "'c option"
  e_yield_ok :: bool
  e_push_ok :: bool
  e_send_ok :: bool
  e_emit_ok :: bool
  e_watch_ok :: bool

section \<open>The table of yielded fibers\<close>

definition entry_new :: "U32 \<Rightarrow> yielded \<Rightarrow> (U32 \<times> yielded) list \<Rightarrow> (U32 \<times> yielded) list" where
  "entry_new key y es = (if key \<in> fst ` set es then AList.update key y es else (key, y) # es)"

definition yield_fiber :: "'c env \<Rightarrow> nat \<Rightarrow> U32 \<Rightarrow> U32 \<Rightarrow> 'c fabric \<Rightarrow> (nbr_error + unit) \<times> 'c fabric" where
  "yield_fiber env f key timeout_us s =
     (let t = (if timeout_us = 0 then e_timeout_us env else timeout_us) in
      if \<not> e_yield_ok env then (Inl EMALLOC, s)
      else (Inr (), s\<lparr>f_yielded := entry_new key \<lparr>y_f = f, y_limit = e_now env + ucast t\<rparr> (f_yielded s)\<rparr>))"

text \<open>\<open>find_and_erase_if\<close>: the fiber is returned, but its entry stays, when it is unremovable.\<close>

definition take_yielded :: "U32 \<Rightarrow> 'c fabric \<Rightarrow> (yielded option \<times> 'c fabric) option" where
  "take_yielded key s =
     (case map_of (f_yielded s) key of None \<Rightarrow> Some (None, s)
      | Some y \<Rightarrow>
          (case f_fibers s (y_f y) of None \<Rightarrow> None
           | Some b \<Rightarrow> Some (Some y, if b_unremovable b then s else s\<lparr>f_yielded := AList.delete key (f_yielded s)\<rparr>)))"

definition upd_fiber :: "nat \<Rightarrow> ('c fiber \<Rightarrow> 'c fiber) \<Rightarrow> 'c fabric \<Rightarrow> 'c fabric" where
  "upd_fiber f g s = s\<lparr>f_fibers := (f_fibers s)(f := map_option g (f_fibers s f))\<rparr>"

definition push_task :: "'c env \<Rightarrow> nat \<Rightarrow> fabric_task \<Rightarrow> 'c fabric \<Rightarrow> bool \<times> 'c fabric" where
  "push_task env t k s = (if e_push_ok env then (True, s\<lparr>f_que := (f_que s)(t := f_que s t @ [k])\<rparr>) else (False, s))"

section \<open>Fibers\<close>

text \<open>\<open>unwatch\<close>: the watcher is stopped, the command that removes it goes to its emitter.\<close>

definition unwatch :: "nat \<Rightarrow> 'c fabric \<Rightarrow> 'c fabric option" where
  "unwatch w s = (case f_watchers s w of None \<Rightarrow> None
     | Some x \<Rightarrow> Some (s\<lparr>f_watchers := (f_watchers s)(w \<mapsto> x\<lparr>w_id := ID_STOP\<rparr>)\<rparr>))"

definition fiber_fin :: "'c env \<Rightarrow> nat \<Rightarrow> 'c fabric \<Rightarrow> 'c fabric option" where
  "fiber_fin env f s =
     (case f_fibers s f of None \<Rightarrow> None
      | Some b \<Rightarrow>
          if b_owner b \<noteq> e_me env then Some (snd (push_task env (b_owner b) (Destroy_fiber f) s))
          else (case (case b_w b of None \<Rightarrow> Some s | Some w \<Rightarrow> unwatch w s) of None \<Rightarrow> None
            | Some s \<Rightarrow> Some (s\<lparr>f_fibers := (f_fibers s)(f := None)\<rparr>)))"

text \<open>\<open>respond\<close> to \<open>exec_finish\<close> (\<open>ok\<close>) and \<open>exec_error\<close>; the message goes out with the id of the request.\<close>

definition respond :: "'c env \<Rightarrow> nat \<Rightarrow> bool \<Rightarrow> 'c fabric \<Rightarrow> ((nbr_error + unit) \<times> 'c fabric) option" where
  "respond env f ok s =
     (case f_fibers s f of None \<Rightarrow> None
      | Some b \<Rightarrow> map_option (Pair (if e_send_ok env then Inr () else Inl ESEND))
          (fiber_fin env f (s\<lparr>f_sent := f_sent s @ [(b_endp b, b_msgid b, ok)]\<rparr>)))"

text \<open>\<open>finish_wait\<close>\<close>

definition finish_wait :: "nat \<Rightarrow> nat option \<Rightarrow> 'c fabric \<Rightarrow> 'c fabric option" where
  "finish_wait f w s = (case f_fibers s f of None \<Rightarrow> None
     | Some b \<Rightarrow> Some (if b_w b \<noteq> None \<and> b_w b = w then upd_fiber f (\<lambda>b. b\<lparr>b_w := None\<rparr>) s else s))"

text \<open>\<open>watcher::unref\<close>\<close>

definition watcher_unref :: "nat \<Rightarrow> 'c fabric \<Rightarrow> 'c fabric option" where
  "watcher_unref w s = (case f_watchers s w of None \<Rightarrow> None
     | Some x \<Rightarrow>
         map_option (\<lambda>s. s\<lparr>f_watchers := (f_watchers s)(w := None)\<rparr>)
           (case w_fb x of None \<Rightarrow> Some s | Some f \<Rightarrow> finish_wait f (Some w) s))"

text \<open>
  What suspends a coroutine.  A call packs its request, yields, and is sent; an event is emitted after the yield;
  \<open>wait\<close> makes a watcher, yields, and watches.
\<close>

definition fiber_call :: "'c env \<Rightarrow> nat \<Rightarrow> U32 \<Rightarrow> 'c fabric \<Rightarrow> (nbr_error + unit) \<times> 'c fabric" where
  "fiber_call env f timeout s =
     (let (sd, msgid) = new_id (f_seed s); s = s\<lparr>f_seed := sd\<rparr> in
      case yield_fiber env f msgid timeout s of
        (Inl e, s) \<Rightarrow> (Inl ESHORT, s)
      | (Inr _, s) \<Rightarrow> if e_send_ok env then (Inr (), s) else (Inl ESEND, s))"

definition fiber_emit :: "'c env \<Rightarrow> nat \<Rightarrow> U32 \<Rightarrow> 'c fabric \<Rightarrow> (nbr_error + unit) \<times> 'c fabric" where
  "fiber_emit env f timeout s =
     (let (sd, msgid) = new_id (f_seed s); s = s\<lparr>f_seed := sd\<rparr> in
      case yield_fiber env f msgid timeout s of
        (Inl e, s) \<Rightarrow> (Inl EMALLOC, s)
      | (Inr _, s) \<Rightarrow> if e_emit_ok env then (Inr (), s) else (Inl EPTHREAD, s))"

definition fiber_wait :: "'c env \<Rightarrow> nat \<Rightarrow> event_id \<Rightarrow> U8 list \<Rightarrow> U32 \<Rightarrow> U32 \<Rightarrow> 'c fabric \<Rightarrow> ((nbr_error + unit) \<times> 'c fabric) option" where
  "fiber_wait env f i name flag timeout s =
     (case e_wslot env of None \<Rightarrow> Some (Inl EMALLOC, upd_fiber f (\<lambda>b. b\<lparr>b_w := None\<rparr>) s)
      | Some w \<Rightarrow>
          (let (sd, msgid) = new_id (f_seed s);
               x = \<lparr>w_id = i, w_name = name, w_flag = flag, w_msgid = msgid, w_owner = 0, w_fb = Some f\<rparr>;
               s = upd_fiber f (\<lambda>b. b\<lparr>b_w := Some w\<rparr>) (s\<lparr>f_seed := sd, f_watchers := (f_watchers s)(w \<mapsto> x)\<rparr>) in
           case yield_fiber env f msgid timeout s of
             (Inl e, s) \<Rightarrow> map_option (\<lambda>s. (Inl EMALLOC, upd_fiber f (\<lambda>b. b\<lparr>b_w := None\<rparr>) s)) (watcher_unref w s)
           | (Inr _, s) \<Rightarrow>
               if e_watch_ok env then Some (Inr (), s)
               else map_option (\<lambda>s. (Inl EPTHREAD, upd_fiber f (\<lambda>b. b\<lparr>b_w := None\<rparr>) s)) (unwatch w s)))"

definition act :: "'c env \<Rightarrow> nat \<Rightarrow> action \<Rightarrow> 'c fabric \<Rightarrow> ((nbr_error + unit) \<times> 'c fabric) option" where
  "act env f a s =
     (case a of
        Call t \<Rightarrow> Some (fiber_call env f t s)
      | Emit t \<Rightarrow> Some (fiber_emit env f t s)
      | Wait i name flag t \<Rightarrow> fiber_wait env f i name flag t s)"

text \<open>A turn of the coroutine, and the answer; an action that fails is an error in the coroutine.\<close>

definition run_fiber :: "'c prog \<Rightarrow> 'c env \<Rightarrow> nat \<Rightarrow> input \<Rightarrow> 'c fabric \<Rightarrow> ((nbr_error + unit) \<times> 'c fabric) option" where
  "run_fiber prog env f i s =
     (case f_fibers s f of None \<Rightarrow> None
      | Some b \<Rightarrow>
          (let (c, out) = prog (b_co b) i; s = upd_fiber f (\<lambda>b. b\<lparr>b_co := c\<rparr>) s in
           case out of
             Finish \<Rightarrow> respond env f True s
           | Fail \<Rightarrow> respond env f False s
           | Suspend a \<Rightarrow>
               (case act env f a s of None \<Rightarrow> None
                | Some (Inl e, s) \<Rightarrow> respond env f False s
                | Some (Inr _, s) \<Rightarrow> Some (Inr (), s))))"

definition resume_fiber :: "'c prog \<Rightarrow> 'c env \<Rightarrow> nat \<Rightarrow> input \<Rightarrow> 'c fabric \<Rightarrow> ((nbr_error + unit) \<times> 'c fabric) option" where
  "resume_fiber prog env f i s =
     (case f_fibers s f of None \<Rightarrow> None
      | Some b \<Rightarrow>
          if b_owner b \<noteq> e_me env then
            (case push_task env (b_owner b) (Resume f i) s of (ok, s) \<Rightarrow> Some (if ok then Inr () else Inl EMALLOC, s))
          else run_fiber prog env f i s)"

definition raise_fiber :: "'c prog \<Rightarrow> 'c env \<Rightarrow> nat \<Rightarrow> 'c fabric \<Rightarrow> ((nbr_error + unit) \<times> 'c fabric) option" where
  "raise_fiber prog env f s =
     (case f_fibers s f of None \<Rightarrow> None
      | Some b \<Rightarrow> (case finish_wait f (b_w b) s of None \<Rightarrow> None | Some s \<Rightarrow> resume_fiber prog env f TimeoutError s))"

section \<open>The fabric\<close>

text \<open>\<open>create\<close>; \<open>init\<close> fails where the language has no coroutine to give.\<close>

definition create_fiber :: "'c env \<Rightarrow> endpoint \<Rightarrow> 'c fabric \<Rightarrow> nat option \<times> 'c fabric" where
  "create_fiber env ep s =
     (case (e_slot env, e_co env) of
        (Some f, Some c) \<Rightarrow>
          (Some f, s\<lparr>f_fibers := (f_fibers s)(f \<mapsto> \<lparr>b_msgid = INVALID_MSGID, b_endp = ep, b_owner = e_me env,
             b_unremovable = False, b_w = None, b_co = c\<rparr>)\<rparr>)
      | _ \<Rightarrow> (None, s))"

text \<open>\<open>start\<close>: only the event of a remote call has a message id.\<close>

definition start_fiber :: "'c prog \<Rightarrow> 'c env \<Rightarrow> endpoint \<Rightarrow> input \<Rightarrow> 'c fabric \<Rightarrow> ((nbr_error + unit) \<times> 'c fabric) option" where
  "start_fiber prog env ep i s =
     (case create_fiber env ep s of
        (None, s) \<Rightarrow> Some (Inl EMALLOC, s)
      | (Some f, s) \<Rightarrow>
          (case (case i of Message d \<Rightarrow> obj_msgid d | _ \<Rightarrow> Some INVALID_MSGID) of None \<Rightarrow> None
           | Some m \<Rightarrow> run_fiber prog env f i (upd_fiber f (\<lambda>b. b\<lparr>b_msgid := m\<rparr>) s)))"

text \<open>A message from a peer.\<close>

definition fabric_recv :: "'c prog \<Rightarrow> 'c env \<Rightarrow> endpoint \<Rightarrow> data \<Rightarrow> 'c fabric \<Rightarrow> ((nbr_error + unit) \<times> 'c fabric) option" where
  "fabric_recv prog env ep d s =
     (if \<not> validate_as_rpc_message d then Some (Inl EINVAL, s)
      else case is_request d of None \<Rightarrow> None
        | Some True \<Rightarrow> map_option (\<lambda>(_, s). (Inr (), s)) (start_fiber prog env ep (Message d) s)
        | Some False \<Rightarrow>
            (if is_response d = Some True then
               (case obj_msgid d of None \<Rightarrow> None
                | Some m \<Rightarrow>
                    (case take_yielded m s of None \<Rightarrow> None
                     | Some (None, s) \<Rightarrow> Some (Inr (), s)
                     | Some (Some y, s) \<Rightarrow> map_option (\<lambda>(_, s). (Inr (), s)) (resume_fiber prog env (y_f y) (Message d) s)))
             else Some (Inr (), s)))"

text \<open>A command of an emitter has been executed.\<close>

definition resume_by_id :: "'c prog \<Rightarrow> 'c env \<Rightarrow> U32 \<Rightarrow> 'c fabric \<Rightarrow> 'c fabric option" where
  "resume_by_id prog env m s =
     (case take_yielded m s of None \<Rightarrow> None
      | Some (None, s) \<Rightarrow> Some s
      | Some (Some y, s) \<Rightarrow> map_option snd (resume_fiber prog env (y_f y) (Args 0) s))"

text \<open>The iteration of \<open>check_timeout\<close>, over the ids that were in the table when it began.\<close>

fun timeout_loop :: "'c prog \<Rightarrow> 'c env \<Rightarrow> U32 list \<Rightarrow> 'c fabric \<Rightarrow> 'c fabric option" where
  "timeout_loop prog env [] s = Some s"
| "timeout_loop prog env (k # ks) s =
     (case map_of (f_yielded s) k of None \<Rightarrow> None
      | Some y \<Rightarrow>
          if e_now env > y_limit y then
            (case raise_fiber prog env (y_f y) (s\<lparr>f_yielded := AList.delete k (f_yielded s)\<rparr>) of None \<Rightarrow> None
             | Some (_, s) \<Rightarrow> timeout_loop prog env ks s)
          else timeout_loop prog env ks s)"

definition check_timeout :: "'c prog \<Rightarrow> 'c env \<Rightarrow> 'c fabric \<Rightarrow> 'c fabric option" where
  "check_timeout prog env s = timeout_loop prog env (map fst (f_yielded s)) s"

section \<open>Watchers of fibers\<close>

fun event_code :: "event \<Rightarrow> event_id" where
  "event_code Timer = ID_TIMER"
| "event_code (Signal n) = ID_SIGNAL"
| "event_code (Session n) = ID_SESSION"
| "event_code Listener = ID_LISTENER"
| "event_code (Proc n) = ID_PROC"
| "event_code (Emitted n) = ID_EMIT"
| "event_code (Fs n) = ID_FILESYSTEM"
| "event_code Thread = ID_THREAD"

text \<open>
  \<open>filter\<close>: of an emitted event as many characters are compared as its own name has; strings end with a null byte,
  which the name of an event from a message does not have.
\<close>

definition watcher_filter :: "watcher \<Rightarrow> event \<Rightarrow> bool" where
  "watcher_filter w e =
     (w_id w = event_code e \<and>
      (case e of
         Session st \<Rightarrow> bit (w_flag w) st
       | Proc n \<Rightarrow> takeWhile ((\<noteq>) 0) n = takeWhile ((\<noteq>) 0) (w_name w)
       | Emitted n \<Rightarrow> take (length n) (w_name w) = n
       | Fs f \<Rightarrow> f AND w_flag w \<noteq> 0
       | _ \<Rightarrow> True))"

text \<open>\<open>start_fiber\<close> of an event: here, or as a task of the server that bound the event.\<close>

definition delegate_or_start :: "'c prog \<Rightarrow> 'c env \<Rightarrow> nat \<Rightarrow> event \<Rightarrow> 'c fabric \<Rightarrow> 'c fabric option" where
  "delegate_or_start prog env owner e s =
     (case e of
        Proc n \<Rightarrow> Some s
      | Fs n \<Rightarrow> Some s
      | _ \<Rightarrow>
          if e_me env \<noteq> owner then Some (snd (push_task env owner (Start (Event e)) s))
          else map_option snd (start_fiber prog env Nop (Event e) s))"

text \<open>
  \<open>watcher::operator ()\<close> with \<open>fabric::recv\<close>; what it returns tells the emitter to remove the watcher (\<open>STOP\<close>), to
  keep it, or that the event was not for it.
\<close>

datatype verdict = STOP | KEEP | IGNORE

definition watcher_call :: "'c prog \<Rightarrow> 'c env \<Rightarrow> nat \<Rightarrow> event \<Rightarrow> 'c fabric \<Rightarrow> (verdict \<times> 'c fabric) option" where
  "watcher_call prog env w e s =
     (case f_watchers s w of None \<Rightarrow> None
      | Some x \<Rightarrow>
          if w_id x = ID_STOP then Some (STOP, s)
          else if \<not> watcher_filter x e then Some (IGNORE, s)
          else (case w_fb x of
              None \<Rightarrow> map_option (Pair KEEP) (delegate_or_start prog env (w_owner x) e s)
            | Some f \<Rightarrow>
                (case finish_wait f (Some w) s of None \<Rightarrow> None
                 | Some s \<Rightarrow>
                     (case take_yielded (w_msgid x) s of None \<Rightarrow> None
                      | Some (None, s) \<Rightarrow> Some (STOP, s)
                      | Some (Some y, s) \<Rightarrow>
                          (case e of
                             Proc n \<Rightarrow> Some (STOP, s)
                           | Fs n \<Rightarrow> Some (STOP, s)
                           | _ \<Rightarrow> map_option (\<lambda>(_, s). (STOP, s)) (resume_fiber prog env (y_f y) (Event e) s))))))"

text \<open>\<open>bind\<close>: the watcher has no fiber; the fiber \<open>wfb\<close>, if any, waits until the command that adds it was executed.\<close>

definition fiber_bind :: "'c env \<Rightarrow> event_id \<Rightarrow> U8 list \<Rightarrow> U32 \<Rightarrow> nat option \<Rightarrow> U32 \<Rightarrow> 'c fabric \<Rightarrow> (nbr_error + unit) \<times> 'c fabric" where
  "fiber_bind env i name flag wfb timeout s =
     (case e_wslot env of None \<Rightarrow> (Inl EMALLOC, s)
      | Some w \<Rightarrow>
          (let x = \<lparr>w_id = i, w_name = name, w_flag = flag, w_msgid = INVALID_MSGID, w_owner = e_me env, w_fb = None\<rparr>;
               ws = f_watchers s in
           case (case wfb of None \<Rightarrow> (Inr (), s)
                 | Some f \<Rightarrow> (let (sd, msgid) = new_id (f_seed s) in yield_fiber env f msgid timeout (s\<lparr>f_seed := sd\<rparr>))) of
             (Inl e, s) \<Rightarrow> (Inl EMALLOC, s)
           | (Inr _, s) \<Rightarrow>
               if e_watch_ok env then (Inr (), s\<lparr>f_watchers := ws(w \<mapsto> x)\<rparr>)
               else (Inl EPTHREAD, s\<lparr>f_watchers := ws(w \<mapsto> x\<lparr>w_id := ID_STOP\<rparr>)\<rparr>)))"

section \<open>Tasks\<close>

definition do_task :: "'c prog \<Rightarrow> 'c env \<Rightarrow> fabric_task \<Rightarrow> 'c fabric \<Rightarrow> 'c fabric option" where
  "do_task prog env k s =
     (case k of
        Resume f i \<Rightarrow> map_option snd (resume_fiber prog env f i s)
      | Start i \<Rightarrow> map_option snd (start_fiber prog env Nop i s)
      | Destroy_fiber f \<Rightarrow> fiber_fin env f s
      | Thread_message t d \<Rightarrow> map_option snd (fabric_recv prog env (Local t) d s))"

text \<open>The server takes the next task of its queue.\<close>

definition poll_task :: "'c prog \<Rightarrow> 'c env \<Rightarrow> 'c fabric \<Rightarrow> 'c fabric option" where
  "poll_task prog env s =
     (case f_que s (e_me env) of [] \<Rightarrow> Some s
      | k # ks \<Rightarrow> do_task prog env k (s\<lparr>f_que := (f_que s)(e_me env := ks)\<rparr>))"

section \<open>Where suspended fibers are\<close>

definition waiting :: "'c fabric \<Rightarrow> nat list" where
  "waiting s = map (y_f \<circ> snd) (f_yielded s)"

fun resumes :: "fabric_task list \<Rightarrow> nat list" where
  "resumes [] = []"
| "resumes (Resume f i # ks) = f # resumes ks"
| "resumes (_ # ks) = resumes ks"

lemma resumes_append [simp]: "resumes (as @ bs) = resumes as @ resumes bs"
  by (induction as rule: resumes.induct) auto

text \<open>Messages that have what is read of them.\<close>

definition good_message :: "data \<Rightarrow> bool" where
  "good_message d \<longleftrightarrow> is_request d \<noteq> None \<and> obj_msgid d \<noteq> None"

fun task_ok :: "fabric_task \<Rightarrow> bool" where
  "task_ok (Resume f i) = True"
| "task_ok (Start (Message d)) = (obj_msgid d \<noteq> None)"
| "task_ok (Start _) = True"
| "task_ok (Destroy_fiber f) = False"
| "task_ok (Thread_message t d) = good_message d"

definition nowhere :: "nat \<Rightarrow> 'c fabric \<Rightarrow> bool" where
  "nowhere f s \<longleftrightarrow> f \<notin> set (waiting s) \<and> (\<forall>t. f \<notin> set (resumes (f_que s t)))"

definition tables_ok :: "'c fabric \<Rightarrow> bool" where
  "tables_ok s \<longleftrightarrow> distinct (map fst (f_yielded s)) \<and> distinct (waiting s)
     \<and> (\<forall>f\<in>set (waiting s). f \<in> dom (f_fibers s) \<and> (\<forall>t. f \<notin> set (resumes (f_que s t))))"

definition queues_ok :: "'c fabric \<Rightarrow> bool" where
  "queues_ok s \<longleftrightarrow> (\<forall>t. distinct (resumes (f_que s t)) \<and> (\<forall>k\<in>set (f_que s t). task_ok k)
     \<and> (\<forall>f\<in>set (resumes (f_que s t)). \<exists>b. f_fibers s f = Some b \<and> b_owner b = t))"

definition fibers_ok :: "'c fabric \<Rightarrow> bool" where
  "fibers_ok s \<longleftrightarrow> finite (dom (f_fibers s)) \<and> (\<forall>f b. f_fibers s f = Some b \<longrightarrow> b_w b = None \<and> \<not> b_unremovable b)"

definition fabric_ok :: "'c fabric \<Rightarrow> bool" where
  "fabric_ok s \<longleftrightarrow> tables_ok s \<and> queues_ok s \<and> fibers_ok s"

text \<open>The calls: those whose fiber lives, and those that were answered.\<close>

definition call_of :: "'c fabric \<Rightarrow> nat \<Rightarrow> endpoint \<times> U32" where
  "call_of s f = (case f_fibers s f of Some b \<Rightarrow> (b_endp b, b_msgid b) | None \<Rightarrow> (Nop, 0))"

definition open_calls :: "'c fabric \<Rightarrow> (endpoint \<times> U32) multiset" where
  "open_calls s = image_mset (call_of s) (mset_set (dom (f_fibers s)))"

definition answers :: "'c fabric \<Rightarrow> (endpoint \<times> U32) multiset" where
  "answers s = mset (map (\<lambda>(e, m, ok). (e, m)) (f_sent s))"

definition calls :: "'c fabric \<Rightarrow> (endpoint \<times> U32) multiset" where
  "calls s = answers s + open_calls s"

definition ids :: "'c fabric \<Rightarrow> U32 set" where
  "ids s = fst ` set (f_yielded s)"

lemma same_open_calls:
  assumes "dom (f_fibers s') = dom (f_fibers s)" "\<And>f. call_of s' f = call_of s f"
  shows "open_calls s' = open_calls s"
  using assms(1) by (simp add: open_calls_def assms(2) ext [of "call_of s'" "call_of s"])

lemma same_fibers_open: "f_fibers s' = f_fibers s \<Longrightarrow> open_calls s' = open_calls s"
  by (rule same_open_calls) (simp_all add: call_of_def)

lemma call_of_cong: "f_fibers s' f = f_fibers s f \<Longrightarrow> call_of s' f = call_of s f"
  by (simp add: call_of_def)

lemma open_calls_add:
  assumes "finite (dom (f_fibers s))" "f_fibers s f = None" "f_fibers s' = (f_fibers s)(f \<mapsto> b)"
  shows "open_calls s' = add_mset (b_endp b, b_msgid b) (open_calls s)"
proof -
  have "f \<notin> dom (f_fibers s)" using assms(2) by blast
  moreover have "call_of s' x = call_of s x" if "x \<in> dom (f_fibers s)" for x
    using that assms(2,3) by (intro call_of_cong) auto
  then have "image_mset (call_of s') (mset_set (dom (f_fibers s))) = image_mset (call_of s) (mset_set (dom (f_fibers s)))"
    using assms(1) by (intro image_mset_cong) auto
  moreover have "call_of s' f = (b_endp b, b_msgid b)" by (simp add: call_of_def assms(3))
  ultimately show ?thesis using assms(1,3) by (simp add: open_calls_def)
qed

lemma open_calls_remove:
  assumes "finite (dom (f_fibers s))" "f_fibers s f = Some b" "f_fibers s' = (f_fibers s)(f := None)"
  shows "open_calls s = add_mset (b_endp b, b_msgid b) (open_calls s')"
proof (rule open_calls_add [of s' f s b])
  show "finite (dom (f_fibers s'))" using assms(1,3) by simp
  show "f_fibers s' f = None" using assms(3) by simp
  show "f_fibers s = (f_fibers s')(f \<mapsto> b)" using assms(2,3) by (auto simp: fun_eq_iff)
qed

subsection \<open>Changes of one table\<close>

lemma waitingI: "(k, y) \<in> set (f_yielded s) \<Longrightarrow> y_f y \<in> set (waiting s)"
  by (force simp: waiting_def)

lemma fabric_ok_delete:
  assumes "fabric_ok s" "map_of (f_yielded s) k = Some y" and s': "s' = s\<lparr>f_yielded := AList.delete k (f_yielded s)\<rparr>"
  shows "fabric_ok s' \<and> y_f y \<in> dom (f_fibers s') \<and> nowhere (y_f y) s' \<and> calls s' = calls s \<and> ids s' = ids s - {k}"
proof -
  have t: "tables_ok s" and q: "queues_ok s" "fibers_ok s" using assms(1) by (simp_all add: fabric_ok_def)
  have m: "(k, y) \<in> set (f_yielded s)" using assms(2) by (rule map_of_SomeD)
  have d: "AList.delete k (f_yielded s) = filter (\<lambda>e. fst e \<noteq> k) (f_yielded s)" by (auto simp: AList.delete_eq case_prod_unfold intro!: filter_cong)
  have sub: "set (waiting s') \<subseteq> set (waiting s)" by (auto simp: s' waiting_def d)
  have "distinct (map (y_f \<circ> snd) (filter (\<lambda>e. fst e \<noteq> k) (f_yielded s)))"
    using t by (intro distinct_map_filter) (simp add: tables_ok_def waiting_def)
  moreover have "distinct (map fst (filter (\<lambda>e. fst e \<noteq> k) (f_yielded s)))"
    using t by (intro distinct_map_filter) (simp add: tables_ok_def)
  ultimately have t': "tables_ok s'" using t sub by (auto simp: tables_ok_def s' d waiting_def)
  have "y_f y \<notin> set (waiting s')"
  proof
    assume "y_f y \<in> set (waiting s')"
    then obtain k' y' where e: "(k', y') \<in> set (f_yielded s)" "k' \<noteq> k" "y_f y' = y_f y" by (auto simp: s' waiting_def d)
    moreover have "inj_on (y_f \<circ> snd) (set (f_yielded s))" using t by (simp add: tables_ok_def waiting_def distinct_map)
    ultimately have "(k', y') = (k, y)" using m inj_onD [of "y_f \<circ> snd" "set (f_yielded s)" "(k', y')" "(k, y)"] by simp
    with e(2) show False by simp
  qed
  moreover have "y_f y \<in> dom (f_fibers s)" "\<forall>t. y_f y \<notin> set (resumes (f_que s t))"
    using t waitingI [OF m] by (simp_all add: tables_ok_def)
  moreover have "queues_ok s'" "fibers_ok s'" using q by (simp_all add: queues_ok_def fibers_ok_def s')
  moreover have "calls s' = calls s" using same_fibers_open [of s' s] by (simp add: calls_def answers_def s')
  ultimately show ?thesis using t' by (auto simp: fabric_ok_def nowhere_def s' ids_def d)
qed

lemma fabric_ok_take:
  assumes "fabric_ok s"
  shows "take_yielded k s = Some (None, s) \<and> k \<notin> ids s
    \<or> (\<exists>y s'. take_yielded k s = Some (Some y, s') \<and> fabric_ok s' \<and> y_f y \<in> dom (f_fibers s') \<and> nowhere (y_f y) s'
        \<and> calls s' = calls s \<and> f_fibers s' = f_fibers s)"
proof (cases "map_of (f_yielded s) k")
  case None
  moreover from this have "k \<notin> ids s" by (simp add: ids_def map_of_eq_None_iff)
  ultimately show ?thesis by (simp add: take_yielded_def)
next
  case (Some y)
  note d = fabric_ok_delete [OF assms Some refl]
  then obtain b where b: "f_fibers s (y_f y) = Some b" by auto
  then have "\<not> b_unremovable b" using assms by (auto simp: fabric_ok_def fibers_ok_def)
  with d b Some show ?thesis by (simp add: take_yielded_def)
qed

lemma update_waiting:
  "set (map (y_f \<circ> snd) (AList.update k y es)) \<subseteq> insert (y_f y) (set (map (y_f \<circ> snd) es))"
  "distinct (map (y_f \<circ> snd) es) \<Longrightarrow> y_f y \<notin> set (map (y_f \<circ> snd) es) \<Longrightarrow> distinct (map (y_f \<circ> snd) (AList.update k y es))"
proof (induction es)
  case (Cons e es)
  {
    case 1
    then show ?case using Cons(1) by (cases e) auto
  next
    case 2
    then show ?case using Cons(1,2) by (cases e) auto
  }
qed auto

lemma entry_new_waiting:
  "set (map (y_f \<circ> snd) (entry_new k y es)) \<subseteq> insert (y_f y) (set (map (y_f \<circ> snd) es))"
  "distinct (map (y_f \<circ> snd) es) \<Longrightarrow> y_f y \<notin> set (map (y_f \<circ> snd) es) \<Longrightarrow> distinct (map (y_f \<circ> snd) (entry_new k y es))"
  "distinct (map fst es) \<Longrightarrow> distinct (map fst (entry_new k y es))"
  "fst ` set (entry_new k y es) = insert k (fst ` set es)"
  using update_waiting [where k = k and y = y and es = es] by (auto simp: entry_new_def AList.distinct_update dom_update)

lemma fabric_ok_yield:
  assumes "fabric_ok s" "f \<in> dom (f_fibers s)" "nowhere f s" "y_f y = f" and s': "s' = s\<lparr>f_seed := sd, f_yielded := entry_new k y (f_yielded s)\<rparr>"
  shows "fabric_ok s' \<and> calls s' = calls s \<and> ids s' = insert k (ids s)"
proof -
  have t: "tables_ok s" and q: "queues_ok s" "fibers_ok s" using assms(1) by (simp_all add: fabric_ok_def)
  have w: "set (waiting s') \<subseteq> insert f (set (waiting s))"
    using entry_new_waiting(1) [of k y "f_yielded s"] assms(4) by (simp add: waiting_def s')
  have "distinct (map (y_f \<circ> snd) (f_yielded s))" "y_f y \<notin> set (map (y_f \<circ> snd) (f_yielded s))" "distinct (map fst (f_yielded s))"
    using t assms(3,4) by (simp_all add: tables_ok_def waiting_def nowhere_def)
  then have "distinct (waiting s')" "distinct (map fst (f_yielded s'))"
    using entry_new_waiting(2,3) by (simp_all add: waiting_def s')
  moreover have "\<forall>g\<in>set (waiting s'). g \<in> dom (f_fibers s') \<and> (\<forall>t. g \<notin> set (resumes (f_que s' t)))"
  proof
    fix g assume "g \<in> set (waiting s')"
    with w consider "g = f" | "g \<in> set (waiting s)" by blast
    then show "g \<in> dom (f_fibers s') \<and> (\<forall>t. g \<notin> set (resumes (f_que s' t)))"
      using t assms(2,3) by cases (simp_all add: s' nowhere_def tables_ok_def)
  qed
  ultimately have "tables_ok s'" by (simp add: tables_ok_def)
  moreover have "queues_ok s'" "fibers_ok s'" using q by (simp_all add: queues_ok_def fibers_ok_def s')
  moreover have "calls s' = calls s" using same_fibers_open [of s' s] by (simp add: calls_def answers_def s')
  ultimately show ?thesis using entry_new_waiting(4) [of k y "f_yielded s"] by (simp add: fabric_ok_def ids_def s')
qed

lemma fabric_ok_seed:
  "fabric_ok (s\<lparr>f_seed := sd\<rparr>) = fabric_ok s" "nowhere f (s\<lparr>f_seed := sd\<rparr>) = nowhere f s" "calls (s\<lparr>f_seed := sd\<rparr>) = calls s"
  "ids (s\<lparr>f_seed := sd\<rparr>) = ids s"
  by (simp_all add: fabric_ok_def tables_ok_def queues_ok_def fibers_ok_def nowhere_def waiting_def calls_def answers_def
      open_calls_def ids_def call_of_def [abs_def])

text \<open>A fiber that changes nothing but its coroutine.\<close>

lemma fabric_ok_co:
  assumes "fabric_ok s" and s': "s' = upd_fiber f (\<lambda>b. b\<lparr>b_co := c\<rparr>) s"
  shows "fabric_ok s' \<and> nowhere f s' = nowhere f s \<and> calls s' = calls s \<and> ids s' = ids s \<and> dom (f_fibers s') = dom (f_fibers s)"
proof -
  have d: "dom (f_fibers s') = dom (f_fibers s)" by (auto simp: s' upd_fiber_def split: if_splits)
  have same: "f_yielded s' = f_yielded s" "f_que s' = f_que s" "f_sent s' = f_sent s" by (simp_all add: s' upd_fiber_def)
  have t: "tables_ok s" and q: "queues_ok s" and fs: "fibers_ok s" using assms(1) by (simp_all add: fabric_ok_def)
  have "tables_ok s'" using t by (simp add: tables_ok_def waiting_def same d)
  moreover have "queues_ok s'" unfolding queues_ok_def same
  proof (intro allI conjI ballI)
    fix t g
    show "distinct (resumes (f_que s t))" using q by (simp add: queues_ok_def)
    show "task_ok k" if "k \<in> set (f_que s t)" for k using q that by (simp add: queues_ok_def)
    assume "g \<in> set (resumes (f_que s t))"
    then have "\<exists>b. f_fibers s g = Some b \<and> b_owner b = t" using q by (simp add: queues_ok_def)
    then obtain b where "f_fibers s g = Some b" "b_owner b = t" by blast
    then show "\<exists>b. f_fibers s' g = Some b \<and> b_owner b = t" by (auto simp: s' upd_fiber_def)
  qed
  moreover have "fibers_ok s'" using fs by (auto simp: fibers_ok_def d) (auto simp: s' upd_fiber_def split: if_splits)
  moreover have "open_calls s' = open_calls s"
  proof (rule same_open_calls [OF d])
    show "call_of s' g = call_of s g" for g
      by (cases "f_fibers s g") (auto simp: call_of_def s' upd_fiber_def)
  qed
  ultimately show ?thesis using d same by (simp add: fabric_ok_def nowhere_def waiting_def calls_def answers_def ids_def)
qed

text \<open>A fiber that is nowhere answers and is destroyed.\<close>

lemma fabric_ok_respond:
  assumes "fabric_ok s" "f_fibers s f = Some b" "b_owner b = e_me env" "nowhere f s"
  shows "\<exists>r s'. respond env f ok s = Some (r, s') \<and> fabric_ok s' \<and> calls s' = calls s \<and> ids s' = ids s"
proof -
  have t: "tables_ok s" and q: "queues_ok s" and fs: "fibers_ok s" using assms(1) by (simp_all add: fabric_ok_def)
  define s' where "s' = s\<lparr>f_sent := f_sent s @ [(b_endp b, b_msgid b, ok)], f_fibers := (f_fibers s)(f := None)\<rparr>"
  have "b_w b = None" using fs assms(2) by (auto simp: fibers_ok_def)
  then have r: "\<exists>r. respond env f ok s = Some (r, s')"
    using assms(2,3) by (simp add: respond_def fiber_fin_def s'_def)
  have "tables_ok s'" using t assms(4) by (auto simp: tables_ok_def waiting_def s'_def nowhere_def)
  moreover have "queues_ok s'" using q assms(4) by (auto simp: queues_ok_def s'_def nowhere_def)
  moreover have "fibers_ok s'" using fs by (auto simp: fibers_ok_def s'_def)
  moreover have "open_calls s = add_mset (b_endp b, b_msgid b) (open_calls s')"
    using fs assms(2) by (intro open_calls_remove [of s f b s']) (simp_all add: fibers_ok_def s'_def)
  then have "calls s' = calls s" by (simp add: calls_def answers_def s'_def)
  moreover have "ids s' = ids s" by (simp add: ids_def s'_def)
  ultimately show ?thesis using r by (auto simp: fabric_ok_def)
qed

section \<open>Remote calls\<close>

text \<open>Programs that only call procedures and emit events, where neither fails once the fiber has yielded.\<close>

definition calls_only :: "'c prog \<Rightarrow> bool" where
  "calls_only prog \<longleftrightarrow> (\<forall>c i. case snd (prog c i) of Suspend (Wait _ _ _ _) \<Rightarrow> False | _ \<Rightarrow> True)"

definition sends_ok :: "'c env \<Rightarrow> bool" where
  "sends_ok env \<longleftrightarrow> e_send_ok env \<and> e_emit_ok env"

definition goes_well :: "'c fabric \<Rightarrow> ('a \<times> 'c fabric) option \<Rightarrow> bool" where
  "goes_well s y \<longleftrightarrow> (\<exists>r s'. y = Some (r, s') \<and> fabric_ok s' \<and> calls s' = calls s \<and> ids s \<subseteq> ids s')"

lemma goes_wellI: "fabric_ok s' \<Longrightarrow> calls s' = calls s \<Longrightarrow> ids s \<subseteq> ids s' \<Longrightarrow> goes_well s (Some (r, s'))"
  by (simp add: goes_well_def)

lemma goes_well_cong: "goes_well s1 y \<Longrightarrow> calls s1 = calls s \<Longrightarrow> ids s \<subseteq> ids s1 \<Longrightarrow> goes_well s y"
  by (auto simp: goes_well_def)

lemma goes_well_respond:
  assumes "fabric_ok s" "f_fibers s f = Some b" "b_owner b = e_me env" "nowhere f s"
  shows "goes_well s (respond env f ok s)"
  using fabric_ok_respond [OF assms, of ok] by (auto simp: goes_well_def)

text \<open>A call and an emit: the fiber is in the table, or nothing has changed but the seed.\<close>

lemma act_ok:
  assumes "fabric_ok s" "f_fibers s f = Some b" "nowhere f s" "sends_ok env" "\<forall>i n g t. a \<noteq> Wait i n g t"
  shows "(\<exists>e sd. act env f a s = Some (Inl e, s\<lparr>f_seed := sd\<rparr>)) \<or> (\<exists>s'. act env f a s = Some (Inr (), s') \<and> goes_well s (Some ((), s')))"
proof -
  have d: "f \<in> dom (f_fibers s)" using assms(2) by blast
  have y: "goes_well s (Some ((), s\<lparr>f_seed := sd, f_yielded := entry_new k y (f_yielded s)\<rparr>))" if "y_f y = f" for sd k y
    using fabric_ok_yield [OF assms(1) d assms(3) that refl, where k = k and sd = sd] by (intro goes_wellI) auto
  show ?thesis using assms(4,5) y
    by (cases a) (auto simp: act_def fiber_call_def fiber_emit_def yield_fiber_def sends_ok_def Let_def split: prod.splits)
qed

lemma run_ok:
  assumes "fabric_ok s" "f_fibers s f = Some b" "b_owner b = e_me env" "nowhere f s" "sends_ok env" "calls_only prog"
  shows "goes_well s (run_fiber prog env f i s)"
proof -
  obtain c out where p: "prog (b_co b) i = (c, out)" by fastforce
  let ?s = "upd_fiber f (\<lambda>b. b\<lparr>b_co := c\<rparr>) s"
  note co = fabric_ok_co [OF assms(1) refl, of f c]
  have b: "f_fibers ?s f = Some (b\<lparr>b_co := c\<rparr>)" using assms(2) by (simp add: upd_fiber_def)
  have same: "goes_well ?s y \<Longrightarrow> goes_well s y" for y :: "((nbr_error + unit) \<times> 'a fabric) option"
    using co by (auto intro: goes_well_cong)
  have resp: "goes_well s (respond env f ok ?s)" for ok
    using goes_well_respond [OF _ b, of env ok] co assms(3,4) same by simp
  show ?thesis
  proof (cases out)
    case (Suspend a)
    then have "\<forall>i n g t. a \<noteq> Wait i n g t" using assms(6) p unfolding calls_only_def by (metis (no_types, lifting) action.simps(11) co_outcome.simps(8) snd_conv)
    then consider (fail) e sd where "act env f a ?s = Some (Inl e, ?s\<lparr>f_seed := sd\<rparr>)" | (ok) s' where "act env f a ?s = Some (Inr (), s')" "goes_well ?s (Some ((), s'))"
      using act_ok [OF _ b, of env a] co assms(4,5) by blast
    then show ?thesis
    proof cases
      case fail
      have "goes_well (?s\<lparr>f_seed := sd\<rparr>) (respond env f False (?s\<lparr>f_seed := sd\<rparr>))"
        using b co assms(3,4) by (intro goes_well_respond [where b = "b\<lparr>b_co := c\<rparr>"]) (simp_all add: fabric_ok_seed)
      then have "goes_well ?s (respond env f False (?s\<lparr>f_seed := sd\<rparr>))" by (rule goes_well_cong) (simp_all add: fabric_ok_seed)
      then show ?thesis using same p Suspend fail assms(2) by (simp add: run_fiber_def)
    next
      case ok
      then show ?thesis using same [of "Some (Inr (), s')"] p Suspend assms(2) by (simp add: run_fiber_def goes_well_def)
    qed
  qed (use resp p assms(2) in \<open>simp_all add: run_fiber_def\<close>)
qed

lemma push_ok:
  assumes "fabric_ok s" "f_fibers s f = Some b" "nowhere f s"
  shows "goes_well s (Some (push_task env (b_owner b) (Resume f i) s))"
proof (cases "e_push_ok env")
  case False
  then show ?thesis using assms(1) by (simp add: push_task_def goes_wellI)
next
  case True
  let ?s = "s\<lparr>f_que := (f_que s)(b_owner b := f_que s (b_owner b) @ [Resume f i])\<rparr>"
  have t: "tables_ok s" and q: "queues_ok s" and fs: "fibers_ok s" using assms(1) by (simp_all add: fabric_ok_def)
  have "tables_ok ?s" using t assms(3) by (auto simp: tables_ok_def waiting_def nowhere_def)
  moreover have "queues_ok ?s" using q assms(2,3) by (auto simp: queues_ok_def nowhere_def)
  moreover have "fibers_ok ?s" using fs by (simp add: fibers_ok_def)
  moreover have "calls ?s = calls s" using same_fibers_open [of ?s s] by (simp add: calls_def answers_def)
  ultimately show ?thesis using True by (auto simp: push_task_def fabric_ok_def ids_def intro!: goes_wellI)
qed

lemma resume_ok:
  assumes "fabric_ok s" "f \<in> dom (f_fibers s)" "nowhere f s" "sends_ok env" "calls_only prog"
  shows "goes_well s (resume_fiber prog env f i s)"
proof -
  obtain b where b: "f_fibers s f = Some b" using assms(2) by blast
  show ?thesis
  proof (cases "b_owner b = e_me env")
    case True
    then show ?thesis using run_ok [OF assms(1) b _ assms(3-5)] b by (simp add: resume_fiber_def)
  next
    case False
    then show ?thesis using push_ok [OF assms(1) b assms(3), of env i] b
      by (auto simp: resume_fiber_def goes_well_def split: prod.splits)
  qed
qed

text \<open>A new fiber, and the call it is for.\<close>

definition fresh_slot :: "'c env \<Rightarrow> 'c fabric \<Rightarrow> bool" where
  "fresh_slot env s \<longleftrightarrow> (\<forall>f. e_slot env = Some f \<longrightarrow> f_fibers s f = None)"

fun msgid_of :: "input \<Rightarrow> U32 option" where
  "msgid_of (Message d) = obj_msgid d"
| "msgid_of _ = Some INVALID_MSGID"

definition started :: "'c env \<Rightarrow> endpoint \<Rightarrow> input \<Rightarrow> (endpoint \<times> U32) multiset" where
  "started env ep i = (if e_slot env = None \<or> e_co env = None then {#}
     else case msgid_of i of None \<Rightarrow> {#} | Some m \<Rightarrow> {#(ep, m)#})"

lemma new_fiber_ok:
  assumes "fabric_ok s" "f_fibers s f = None" "b_w b = None" "\<not> b_unremovable b"
    and s': "s' = s\<lparr>f_fibers := (f_fibers s)(f \<mapsto> b)\<rparr>"
  shows "fabric_ok s' \<and> nowhere f s' \<and> calls s' = add_mset (b_endp b, b_msgid b) (calls s) \<and> ids s' = ids s"
proof -
  have t: "tables_ok s" and q: "queues_ok s" and fs: "fibers_ok s" using assms(1) by (simp_all add: fabric_ok_def)
  have "f \<notin> set (resumes (f_que s t))" for t
  proof
    assume "f \<in> set (resumes (f_que s t))"
    then have "\<exists>b. f_fibers s f = Some b \<and> b_owner b = t" using q by (simp add: queues_ok_def)
    with assms(2) show False by simp
  qed
  then have n: "nowhere f s'" using t assms(2) by (auto simp: nowhere_def tables_ok_def waiting_def s')
  have "tables_ok s'" using t by (auto simp: tables_ok_def waiting_def s')
  moreover have "queues_ok s'" unfolding queues_ok_def
  proof (intro allI conjI ballI)
    fix t g
    show "distinct (resumes (f_que s' t))" using q by (simp add: queues_ok_def s')
    show "task_ok k" if "k \<in> set (f_que s' t)" for k using q that by (simp add: queues_ok_def s')
    assume g: "g \<in> set (resumes (f_que s' t))"
    then have "\<exists>b. f_fibers s g = Some b \<and> b_owner b = t" using q by (simp add: queues_ok_def s')
    moreover have "g \<noteq> f" using g n by (auto simp: nowhere_def)
    ultimately show "\<exists>b. f_fibers s' g = Some b \<and> b_owner b = t" by (simp add: s')
  qed
  moreover have "fibers_ok s'" using fs assms(3,4) by (auto simp: fibers_ok_def s')
  moreover have "open_calls s' = add_mset (b_endp b, b_msgid b) (open_calls s)"
    using fs assms(2) by (intro open_calls_add) (simp_all add: fibers_ok_def s')
  ultimately show ?thesis using n by (simp add: fabric_ok_def calls_def answers_def ids_def s')
qed

lemma start_ok:
  assumes "fabric_ok s" "fresh_slot env s" "msgid_of i \<noteq> None" "sends_ok env" "calls_only prog"
  shows "\<exists>r s'. start_fiber prog env ep i s = Some (r, s') \<and> fabric_ok s' \<and> calls s' = calls s + started env ep i \<and> ids s \<subseteq> ids s'"
proof (cases "e_slot env = None \<or> e_co env = None")
  case True
  then have "create_fiber env ep s = (None, s)" by (auto simp: create_fiber_def split: option.splits)
  then show ?thesis using True assms(1) by (simp add: start_fiber_def started_def)
next
  case False
  then obtain f c where f: "e_slot env = Some f" "e_co env = Some c" by (cases "e_slot env"; cases "e_co env") auto
  obtain m where m: "msgid_of i = Some m" using assms(3) by blast
  define b where "b = \<lparr>b_msgid = m, b_endp = ep, b_owner = e_me env, b_unremovable = False, b_w = None, b_co = c\<rparr>"
  define s1 where "s1 = s\<lparr>f_fibers := (f_fibers s)(f \<mapsto> b)\<rparr>"
  have new: "fabric_ok s1 \<and> nowhere f s1 \<and> calls s1 = add_mset (ep, m) (calls s) \<and> ids s1 = ids s"
    using new_fiber_ok [OF assms(1) _ _ _ s1_def] f assms(2) by (simp add: fresh_slot_def b_def)
  have "start_fiber prog env ep i s = run_fiber prog env f i s1"
    using f m by (cases i) (simp_all add: start_fiber_def create_fiber_def upd_fiber_def s1_def b_def)
  moreover have "goes_well s1 (run_fiber prog env f i s1)"
    using new assms(4,5) by (intro run_ok [of _ _ b]) (simp_all add: s1_def b_def)
  ultimately show ?thesis using new f m by (auto simp: goes_well_def started_def)
qed

text \<open>The steps.\<close>

definition started_by :: "'c env \<Rightarrow> endpoint \<Rightarrow> data \<Rightarrow> (endpoint \<times> U32) multiset" where
  "started_by env ep d = (if validate_as_rpc_message d \<and> is_request d = Some True then started env ep (Message d) else {#})"

fun started_task :: "'c env \<Rightarrow> fabric_task list \<Rightarrow> (endpoint \<times> U32) multiset" where
  "started_task env (Start i # ks) = started env Nop i"
| "started_task env (Thread_message t d # ks) = started_by env (Local t) d"
| "started_task env _ = {#}"

lemma recv_ok:
  assumes "fabric_ok s" "fresh_slot env s" "good_message d" "sends_ok env" "calls_only prog"
  shows "\<exists>r s'. fabric_recv prog env ep d s = Some (r, s') \<and> fabric_ok s' \<and> calls s' = calls s + started_by env ep d"
proof -
  obtain m rq where m: "obj_msgid d = Some m" and rq: "is_request d = Some rq" using assms(3) by (auto simp: good_message_def)
  consider (bad) "\<not> validate_as_rpc_message d" | (req) "validate_as_rpc_message d" "is_request d = Some True"
    | (resp) "validate_as_rpc_message d" "is_request d = Some False" "is_response d = Some True"
    | (other) "validate_as_rpc_message d" "is_request d = Some False" "is_response d \<noteq> Some True"
    using rq by (cases rq; cases "validate_as_rpc_message d"; cases "is_response d = Some True") auto
  then show ?thesis
  proof cases
    case req
    obtain r s' where "start_fiber prog env ep (Message d) s = Some (r, s')" "fabric_ok s'" "calls s' = calls s + started env ep (Message d)"
      using start_ok [OF assms(1,2) _ assms(4,5), of "Message d" ep] m by auto
    then show ?thesis using req by (simp add: fabric_recv_def started_by_def)
  next
    case resp
    then show ?thesis
    proof (cases "take_yielded m s = Some (None, s)")
      case True
      then show ?thesis using resp m assms(1) by (simp add: fabric_recv_def started_by_def)
    next
      case False
      then obtain y s1 where y: "take_yielded m s = Some (Some y, s1)" "fabric_ok s1" "y_f y \<in> dom (f_fibers s1)" "nowhere (y_f y) s1" "calls s1 = calls s"
        using fabric_ok_take [OF assms(1), of m] by auto
      have "goes_well s1 (resume_fiber prog env (y_f y) (Message d) s1)" by (rule resume_ok [OF y(2-4) assms(4,5)])
      then show ?thesis using resp m y by (auto simp: fabric_recv_def started_by_def goes_well_def)
    qed
  qed (use assms(1) in \<open>simp_all add: fabric_recv_def started_by_def\<close>)
qed

lemma by_id_ok:
  assumes "fabric_ok s" "sends_ok env" "calls_only prog"
  shows "\<exists>s'. resume_by_id prog env m s = Some s' \<and> fabric_ok s' \<and> calls s' = calls s"
proof (cases "take_yielded m s = Some (None, s)")
  case True
  then show ?thesis using assms(1) by (simp add: resume_by_id_def)
next
  case False
  then obtain y s1 where y: "take_yielded m s = Some (Some y, s1)" "fabric_ok s1" "y_f y \<in> dom (f_fibers s1)" "nowhere (y_f y) s1" "calls s1 = calls s"
    using fabric_ok_take [OF assms(1), of m] by auto
  have "goes_well s1 (resume_fiber prog env (y_f y) (Args 0) s1)" by (rule resume_ok [OF y(2-4) assms(2,3)])
  then show ?thesis using y by (auto simp: resume_by_id_def goes_well_def)
qed

lemma timeout_ok:
  assumes "sends_ok env" "calls_only prog"
  shows "fabric_ok s \<Longrightarrow> distinct ks \<Longrightarrow> set ks \<subseteq> ids s \<Longrightarrow>
    \<exists>s'. timeout_loop prog env ks s = Some s' \<and> fabric_ok s' \<and> calls s' = calls s"
proof (induction ks arbitrary: s)
  case (Cons k ks)
  then obtain y where y: "map_of (f_yielded s) k = Some y"
    by (cases "map_of (f_yielded s) k") (auto simp: ids_def map_of_eq_None_iff)
  show ?case
  proof (cases "e_now env > y_limit y")
    case True
    define s1 where "s1 = s\<lparr>f_yielded := AList.delete k (f_yielded s)\<rparr>"
    have d: "fabric_ok s1" "y_f y \<in> dom (f_fibers s1)" "nowhere (y_f y) s1" "calls s1 = calls s" "ids s1 = ids s - {k}"
      using fabric_ok_delete [OF Cons.prems(1) y s1_def] by simp_all
    then obtain b where b: "f_fibers s1 (y_f y) = Some b" by blast
    then have "b_w b = None" using d(1) by (auto simp: fabric_ok_def fibers_ok_def)
    then have "raise_fiber prog env (y_f y) s1 = resume_fiber prog env (y_f y) TimeoutError s1"
      using b by (simp add: raise_fiber_def finish_wait_def)
    moreover obtain r s2 where s2: "resume_fiber prog env (y_f y) TimeoutError s1 = Some (r, s2)" "fabric_ok s2" "calls s2 = calls s1" "ids s1 \<subseteq> ids s2"
      using resume_ok [OF d(1-3) assms, of TimeoutError] by (auto simp: goes_well_def)
    moreover have "set ks \<subseteq> ids s2" using Cons.prems(2,3) d(5) s2(4) by auto
    ultimately show ?thesis using Cons.IH [of s2] Cons.prems(2) y True d(4) by (simp add: s1_def)
  next
    case False
    then show ?thesis using Cons.IH [of s] Cons.prems y by simp
  qed
qed auto

lemma poll_ok:
  assumes "fabric_ok s" "fresh_slot env s" "sends_ok env" "calls_only prog"
  shows "\<exists>s'. poll_task prog env s = Some s' \<and> fabric_ok s' \<and> calls s' = calls s + started_task env (f_que s (e_me env))"
proof (cases "f_que s (e_me env)")
  case Nil
  then show ?thesis using assms(1) by (simp add: poll_task_def)
next
  case (Cons k ks)
  define s1 where "s1 = s\<lparr>f_que := (f_que s)(e_me env := ks)\<rparr>"
  have t: "tables_ok s" and q: "queues_ok s" and fs: "fibers_ok s" using assms(1) by (simp_all add: fabric_ok_def)
  have "\<forall>k\<in>set (f_que s (e_me env)). task_ok k" using q by (simp add: queues_ok_def)
  then have k: "task_ok k" using Cons by simp
  have sub: "set (resumes ks) \<subseteq> set (resumes (k # ks))" "distinct (resumes (k # ks)) \<Longrightarrow> distinct (resumes ks)"
    by (cases k; auto)+
  have sub': "set (resumes (f_que s1 t)) \<subseteq> set (resumes (f_que s t))" for t using sub(1) Cons by (simp add: s1_def)
  have w: "waiting s1 = waiting s" "f_yielded s1 = f_yielded s" "f_fibers s1 = f_fibers s" by (simp_all add: waiting_def s1_def)
  have t': "f \<in> dom (f_fibers s)" "f \<notin> set (resumes (f_que s t))" if "f \<in> set (waiting s)" for f t
    using t that by (auto simp: tables_ok_def)
  have "tables_ok s1" using t t' sub' unfolding tables_ok_def w by blast
  moreover have "queues_ok s1" unfolding queues_ok_def w
  proof (intro allI conjI ballI)
    fix t
    have qt: "distinct (resumes (f_que s t))" "\<forall>k\<in>set (f_que s t). task_ok k"
      "\<forall>f\<in>set (resumes (f_que s t)). \<exists>b. f_fibers s f = Some b \<and> b_owner b = t" using q by (simp_all add: queues_ok_def)
    show "distinct (resumes (f_que s1 t))" using qt(1) sub(2) Cons by (cases "t = e_me env") (simp_all add: s1_def)
    show "task_ok k'" if "k' \<in> set (f_que s1 t)" for k' using qt(2) that Cons by (auto simp: s1_def split: if_splits)
    show "\<exists>b. f_fibers s f = Some b \<and> b_owner b = t" if "f \<in> set (resumes (f_que s1 t))" for f using qt(3) that sub' by blast
  qed
  moreover have "fibers_ok s1" "fresh_slot env s1" using fs assms(2) by (simp_all add: fibers_ok_def fresh_slot_def s1_def)
  moreover have c: "calls s1 = calls s" using same_fibers_open [of s1 s] by (simp add: calls_def answers_def s1_def)
  ultimately have ok: "fabric_ok s1" "fresh_slot env s1" by (simp_all add: fabric_ok_def)
  have p: "poll_task prog env s = do_task prog env k s1" using Cons by (simp add: poll_task_def s1_def)
  show ?thesis
  proof (cases k)
    case (Resume f i)
    have qt: "distinct (resumes (f_que s t))" "\<forall>f\<in>set (resumes (f_que s t)). \<exists>b. f_fibers s f = Some b \<and> b_owner b = t" for t
      using q by (simp_all add: queues_ok_def)
    have "distinct (resumes (k # ks))" "\<exists>b. f_fibers s f = Some b \<and> b_owner b = e_me env"
      using qt [of "e_me env"] Cons Resume by auto
    moreover have "f \<notin> set (resumes (f_que s t))" if "t \<noteq> e_me env" for t
      using qt(2) [of t] that calculation(2) by auto
    moreover have "f \<notin> set (waiting s)" using t'(2) [of f "e_me env"] Cons Resume by auto
    ultimately have "nowhere f s1" "f \<in> dom (f_fibers s1)" using Resume by (auto simp: nowhere_def w(1) w(3) [unfolded s1_def] waiting_def s1_def)
    then show ?thesis using resume_ok [OF ok(1) _ _ assms(3,4), of f i] p Resume Cons c by (auto simp: do_task_def goes_well_def)
  next
    case (Start i)
    then have "msgid_of i \<noteq> None" using k by (cases i) simp_all
    then show ?thesis using start_ok [OF ok _ assms(3,4), of i Nop] p Start Cons c by (auto simp: do_task_def)
  next
    case (Thread_message t d)
    then show ?thesis using recv_ok [OF ok _ assms(3,4), of d "Local t"] k p Cons c by (auto simp: do_task_def)
  qed (use k in simp)
qed

section \<open>Reachable states\<close>

text \<open>
  Steps of any thread: a message of a peer, a command an emitter executed, the timeout, the next task, a task
  another component posts.  \<open>l\<close> counts the calls that were started.
\<close>

definition fabric_init :: "'c fabric" where
  "fabric_init = \<lparr>f_fibers = Map.empty, f_watchers = Map.empty, f_yielded = [], f_que = (\<lambda>_. []), f_seed = MSGID_START, f_sent = []\<rparr>"

definition posted :: "fabric_task \<Rightarrow> bool" where
  "posted k \<longleftrightarrow> task_ok k \<and> resumes [k] = []"

inductive fabric_reach :: "'c prog \<Rightarrow> (endpoint \<times> U32) multiset \<Rightarrow> 'c fabric \<Rightarrow> bool" for prog where
  init: "fabric_reach prog {#} fabric_init"
| recv: "fabric_reach prog l s \<Longrightarrow> sends_ok env \<Longrightarrow> fresh_slot env s \<Longrightarrow> good_message d \<Longrightarrow>
    fabric_recv prog env ep d s = Some (r, s') \<Longrightarrow> fabric_reach prog (l + started_by env ep d) s'"
| executed: "fabric_reach prog l s \<Longrightarrow> sends_ok env \<Longrightarrow> resume_by_id prog env m s = Some s' \<Longrightarrow> fabric_reach prog l s'"
| timeout: "fabric_reach prog l s \<Longrightarrow> sends_ok env \<Longrightarrow> check_timeout prog env s = Some s' \<Longrightarrow> fabric_reach prog l s'"
| poll: "fabric_reach prog l s \<Longrightarrow> sends_ok env \<Longrightarrow> fresh_slot env s \<Longrightarrow> poll_task prog env s = Some s' \<Longrightarrow>
    fabric_reach prog (l + started_task env (f_que s (e_me env))) s'"
| post: "fabric_reach prog l s \<Longrightarrow> posted k \<Longrightarrow> fabric_reach prog l (snd (push_task env t k s))"

lemma fabric_ok_init: "fabric_ok fabric_init" "calls fabric_init = {#}"
  by (simp_all add: fabric_ok_def tables_ok_def queues_ok_def fibers_ok_def fabric_init_def waiting_def calls_def answers_def open_calls_def)

lemma post_ok:
  assumes "fabric_ok s" "posted k"
  shows "fabric_ok (snd (push_task env t k s)) \<and> calls (snd (push_task env t k s)) = calls s"
proof (cases "e_push_ok env")
  case True
  define s' where "s' = s\<lparr>f_que := (f_que s)(t := f_que s t @ [k])\<rparr>"
  have r: "resumes (f_que s' u) = resumes (f_que s u)" for u using assms(2) by (simp add: s'_def posted_def)
  have w: "waiting s' = waiting s" "f_yielded s' = f_yielded s" "f_fibers s' = f_fibers s" by (simp_all add: waiting_def s'_def)
  have t: "tables_ok s" and q: "queues_ok s" and fs: "fibers_ok s" using assms(1) by (simp_all add: fabric_ok_def)
  have "tables_ok s'" using t by (simp add: tables_ok_def w r)
  moreover have "queues_ok s'" unfolding queues_ok_def w r
  proof (intro allI conjI ballI)
    fix u
    show "distinct (resumes (f_que s u))" using q by (simp add: queues_ok_def)
    show "task_ok k'" if "k' \<in> set (f_que s' u)" for k'
    proof -
      have "\<forall>k\<in>set (f_que s u). task_ok k" using q by (simp add: queues_ok_def)
      then show ?thesis using that assms(2) by (auto simp: s'_def posted_def split: if_splits)
    qed
    show "\<exists>b. f_fibers s f = Some b \<and> b_owner b = u" if "f \<in> set (resumes (f_que s u))" for f
      using q that by (simp add: queues_ok_def)
  qed
  moreover have "fibers_ok s'" using fs by (simp add: fibers_ok_def w)
  moreover have "calls s' = calls s" using same_fibers_open [of s' s] by (simp add: calls_def answers_def s'_def)
  ultimately show ?thesis using True by (simp add: push_task_def fabric_ok_def flip: s'_def)
qed (use assms(1) in \<open>simp add: push_task_def\<close>)

lemma check_ok:
  assumes "fabric_ok s" "sends_ok env" "calls_only prog"
  shows "\<exists>s'. check_timeout prog env s = Some s' \<and> fabric_ok s' \<and> calls s' = calls s"
  unfolding check_timeout_def
  using assms by (intro timeout_ok) (simp_all add: fabric_ok_def tables_ok_def ids_def)

lemma reach_ok: "fabric_reach prog l s \<Longrightarrow> calls_only prog \<Longrightarrow> fabric_ok s \<and> calls s = l"
proof (induction rule: fabric_reach.induct)
  case (recv l s env d ep r s')
  then show ?case using recv_ok [of s env d prog ep] by auto
next
  case (executed l s env m s')
  then show ?case using by_id_ok [of s env prog m] by auto
next
  case (timeout l s env s')
  then show ?case using check_ok [of s env prog] by auto
next
  case (poll l s env s')
  then show ?case using poll_ok [of s env prog] by auto
qed (use fabric_ok_init post_ok in \<open>blast+\<close>)

section \<open>Properties\<close>

text \<open>A server whose fibers call another procedure and then finish, with one request.\<close>

definition req_example :: data where
  "req_example = ArrayD [IntD 0, IntD 9, BlobD [0x70], ArrayD []]"

definition env_example :: "bool \<Rightarrow> U64 \<Rightarrow> unit env" where
  "env_example ok t = \<lparr>e_me = 0, e_now = t, e_timeout_us = 50, e_slot = Some 7, e_wslot = None, e_co = Some (),
     e_yield_ok = True, e_push_ok = True, e_send_ok = ok, e_emit_ok = True, e_watch_ok = True\<rparr>"

definition prog_example :: "unit prog" where
  "prog_example c i = (c, case i of Message d \<Rightarrow> Suspend (Call 0) | _ \<Rightarrow> Finish)"

lemma reach_example:
  "\<exists>s. fabric_reach prog_example {#(Stream 1, 9)#} s \<and> fabric_reach prog_example {#} (fabric_init :: unit fabric)
     \<and> calls_only prog_example \<and> sends_ok (env_example True 0) \<and> good_message req_example \<and> fresh_slot (env_example True 0\<lparr>e_slot := Some 8\<rparr>) s
     \<and> f_yielded s \<noteq> []"
proof -
  let ?e = "env_example True 0"
  have c: "calls_only prog_example" by (auto simp: calls_only_def prog_example_def split: input.splits)
  have g: "good_message req_example" "sends_ok ?e" "fresh_slot ?e fabric_init"
    by (simp_all add: good_message_def is_request_def obj_type_def obj_msgid_def as_u32_def req_example_def
        sends_ok_def env_example_def fresh_slot_def fabric_init_def)
  have m: "obj_msgid req_example = Some 9" "is_request req_example = Some True" "validate_as_rpc_message req_example"
    by (simp_all add: is_request_def obj_type_def obj_msgid_def as_u32_def req_example_def request_def validate_as_rpc_message_def)
  obtain sd k where n: "new_id MSGID_START = (sd, k)" by fastforce
  obtain r s where s: "fabric_recv prog_example ?e (Stream 1) req_example fabric_init = Some (r, s)" "f_yielded s \<noteq> []" "dom (f_fibers s) = {7}"
    by (simp add: fabric_recv_def m start_fiber_def create_fiber_def run_fiber_def prog_example_def act_def fiber_call_def
        yield_fiber_def entry_new_def env_example_def upd_fiber_def fabric_init_def n Let_def)
  have "started_by ?e (Stream 1) req_example = {#(Stream 1, 9)#}" by (simp add: started_by_def m started_def env_example_def)
  with fabric_reach.recv [OF fabric_reach.init g(2,3,1) s(1)] have "fabric_reach prog_example {#(Stream 1, 9)#} s" by simp
  moreover have "fresh_slot (env_example True 0\<lparr>e_slot := Some 8\<rparr>) s" using s(3) domIff [of 8 "f_fibers s"] by (simp add: fresh_slot_def env_example_def)
  ultimately show ?thesis using c g fabric_reach.init s(2) by blast
qed


text \<open>C33: Fibers that call and emit but never wait for an event (\<open>calls_only\<close>) are not used after they were destroyed: from any
  state that the fabric reaches neither an incoming message, a resumption by message id, the check for timeouts nor a queued
  task touches a destroyed fiber, whatever the order of messages, responses that come twice or too late, timeouts and tasks.  A
  handler is one step of its thread, and in every step all sends and emits succeed (\<open>sends_ok\<close>), the messages are well-formed
  arrays with type and message id (\<open>good_message\<close>), a new fiber gets a free slot (\<open>fresh_slot\<close>), and the tasks that other
  threads post start fibers or hand over well-formed messages.  Without these it is false: a failing send leaves a dangling fiber
  (C35), and so does a wait that times out (\<open>event_after_timeout_uses_destroyed_fiber\<close>, \<^verbatim>\<open>fiber.hpp:104\<close>).\<close>

theorem fibers_never_dangle:
  assumes "fabric_reach prog l s" and "calls_only prog" and "sends_ok env" and "fresh_slot env s" and "good_message d"
  shows "fabric_recv prog env ep d s \<noteq> None \<and> resume_by_id prog env m s \<noteq> None
    \<and> check_timeout prog env s \<noteq> None \<and> poll_task prog env s \<noteq> None"
proof -
  have ok: "fabric_ok s" using reach_ok assms(1,2) by blast
  show ?thesis using recv_ok [OF ok assms(4,5,3,2), of ep] by_id_ok [OF ok assms(3,2), of m] check_ok [OF ok assms(3,2)]
      poll_ok [OF ok assms(4,3,2)] by auto
qed

theorem fibers_never_dangle_witness:
  "\<exists>s. f_yielded s \<noteq> [] \<and> check_timeout prog_example (env_example True 0\<lparr>e_slot := Some 8\<rparr>) s \<noteq> None
     \<and> fabric_recv prog_example (env_example True 0\<lparr>e_slot := Some 8\<rparr>) (Stream 2) req_example s \<noteq> None"
proof -
  obtain s where s: "fabric_reach prog_example {#(Stream 1, 9)#} s" "calls_only prog_example" "good_message req_example"
    "fresh_slot (env_example True 0\<lparr>e_slot := Some 8\<rparr>) s" "f_yielded s \<noteq> []" using reach_example by blast
  have "sends_ok (env_example True 0\<lparr>e_slot := Some 8\<rparr>)" by (simp add: sends_ok_def env_example_def)
  from fibers_never_dangle [OF s(1,2) this s(4,3), of "Stream 2"] s(5) show ?thesis by auto
qed

text \<open>C34: Every call that was started is answered once, to the endpoint it came from and under its message id,
  or its fiber still lives; a suspended fiber is in one place only, the table of yielded fibers or the queue of its thread, so
  nothing resumes it twice.  This holds in the states reached under the conditions of C33: fibers call and emit but never wait
  for an event, a handler is one step of its thread, in every step all sends and emits succeed, messages are well-formed and
  new fibers get free slots.  When a send fails the table keeps an entry of a destroyed fiber (C35).\<close>

theorem calls_are_answered_once:
  assumes "fabric_reach prog l s" and "calls_only prog"
  shows "mset (map (\<lambda>(ep, m, ok). (ep, m)) (f_sent s)) + open_calls s = l
    \<and> distinct (waiting s) \<and> (\<forall>t. distinct (resumes (f_que s t)) \<and> set (waiting s) \<inter> set (resumes (f_que s t)) = {})"
  using reach_ok [OF assms] by (auto simp: fabric_ok_def tables_ok_def queues_ok_def calls_def answers_def)

theorem calls_are_answered_once_witness:
  "\<exists>s. f_yielded s \<noteq> [] \<and> mset (map (\<lambda>(ep, m, ok). (ep, m)) (f_sent s)) + open_calls (s :: unit fabric) = {#(Stream 1, 9)#}"
proof -
  obtain s where s: "fabric_reach prog_example {#(Stream 1, 9)#} s" "calls_only prog_example" "f_yielded s \<noteq> []"
    using reach_example by blast
  from calls_are_answered_once [OF s(1,2)] s(3) show ?thesis by auto
qed

subsection \<open>Where it goes wrong\<close>

text \<open>C35: when a call cannot be sent the fiber is told so, ends and is destroyed, but the table of yielded
  fibers keeps it: the timeout of that call raises its error in a fiber that does not exist.\<close>

theorem failed_send_leaves_dangling:
  assumes "f_fibers s f = Some b" and "b_owner b = e_me env" and "b_w b = None" and "f_yielded s = []"
    and "prog (b_co b) i = (c, Suspend (Call t))" and "e_yield_ok env" and "\<not> e_send_ok env"
  shows "\<exists>s' m y. run_fiber prog env f i s = Some (Inl ESEND, s') \<and> f_fibers s' f = None \<and> f_yielded s' = [(m, y)] \<and> y_f y = f
    \<and> (e_now env' \<le> y_limit y \<or> check_timeout prog env' s' = None)"
proof -
  obtain sd m where n: "new_id (f_seed s) = (sd, m)" by fastforce
  have "new_id (f_seed (upd_fiber f (\<lambda>b. b\<lparr>b_co := c\<rparr>) s)) = (sd, m)" by (simp add: upd_fiber_def n)
  then show ?thesis
    using assms by (auto simp: run_fiber_def act_def fiber_call_def yield_fiber_def entry_new_def respond_def fiber_fin_def
        check_timeout_def raise_fiber_def finish_wait_def upd_fiber_def Let_def not_le)
qed

theorem failed_send_leaves_dangling_witness:
  "\<exists>s s' m y. run_fiber prog_example (env_example False 0) 7 (Message req_example) s = Some (Inl ESEND, s') \<and> f_yielded s' = [(m, y)]
     \<and> (1000 \<le> y_limit y \<or> check_timeout prog_example (env_example True 1000) s' = None)"
proof -
  let ?b = "\<lparr>b_msgid = 9, b_endp = Stream 1, b_owner = 0, b_unremovable = False, b_w = None, b_co = ()\<rparr>"
  let ?s = "fabric_init\<lparr>f_fibers := [7 \<mapsto> ?b]\<rparr>"
  have "f_fibers ?s 7 = Some ?b" "b_owner ?b = e_me (env_example False 0)" "b_w ?b = None" "f_yielded ?s = []"
    "prog_example (b_co ?b) (Message req_example) = ((), Suspend (Call 0))" "e_yield_ok (env_example False 0)" "\<not> e_send_ok (env_example False 0)"
    by (simp_all add: env_example_def fabric_init_def prog_example_def)
  from failed_send_leaves_dangling [where prog = prog_example and i = "Message req_example", OF this, of "env_example True 1000"] show ?thesis by (auto simp: env_example_def)
qed

text \<open>A fiber whose \<open>wait\<close> runs out of time forgets its watcher without stopping it.  When the fiber has ended,
  the event it waited for is delivered to it all the same.\<close>

theorem event_after_timeout_uses_destroyed_fiber:
  assumes "f_fibers s f = Some b" and "b_owner b = e_me env" and "b_w b = Some w" and "f_yielded s = [(m, y)]" and "y_f y = f"
    and "f_watchers s w = Some x" and "w_fb x = Some f" and "prog (b_co b) TimeoutError = (c, Finish)"
    and "e_now env > y_limit y" and "watcher_filter x e" and "w_id x \<noteq> ID_STOP"
  shows "\<exists>s'. check_timeout prog env s = Some s' \<and> f_fibers s' f = None \<and> watcher_call prog env' w e s' = None"
  using assms by (auto simp: check_timeout_def raise_fiber_def finish_wait_def resume_fiber_def run_fiber_def respond_def fiber_fin_def
      upd_fiber_def watcher_call_def)

theorem event_after_timeout_uses_destroyed_fiber_witness:
  "\<exists>s s'. check_timeout prog_example (env_example True 1000) s = Some s' \<and> watcher_call prog_example (env_example True 2000) 3 Timer s' = None"
proof -
  let ?b = "\<lparr>b_msgid = 9, b_endp = Stream 1, b_owner = 0, b_unremovable = False, b_w = Some 3, b_co = ()\<rparr>"
  let ?x = "\<lparr>w_id = ID_TIMER, w_name = [], w_flag = 0, w_msgid = 5, w_owner = 0, w_fb = Some 7\<rparr>"
  let ?s = "fabric_init\<lparr>f_fibers := [7 \<mapsto> ?b], f_watchers := [3 \<mapsto> ?x], f_yielded := [(5, \<lparr>y_f = 7, y_limit = 100\<rparr>)]\<rparr>"
  have "f_fibers ?s 7 = Some ?b" "b_owner ?b = e_me (env_example True 1000)" "b_w ?b = Some 3" "f_yielded ?s = [(5, \<lparr>y_f = 7, y_limit = 100\<rparr>)]"
    "y_f \<lparr>y_f = 7, y_limit = 100\<rparr> = 7" "f_watchers ?s 3 = Some ?x" "w_fb ?x = Some 7" "prog_example (b_co ?b) TimeoutError = ((), Finish)"
    "e_now (env_example True 1000) > y_limit \<lparr>y_f = 7, y_limit = 100\<rparr>" "watcher_filter ?x Timer" "w_id ?x \<noteq> ID_STOP"
    by (simp_all add: env_example_def prog_example_def watcher_filter_def)
  from event_after_timeout_uses_destroyed_fiber [where prog = prog_example, OF this, of "env_example True 2000"] show ?thesis by blast
qed

end
