(* ===== verification/Wbuf.thy ===== *)
theory Wbuf
  imports Pbuf MsgId
begin

text \<open>
  \<^verbatim>\<open>src/src/net/wbuf.h\<close>: the write buffer of a socket.  Any thread appends commands (bytes, \<open>iovec\<close>s, ranges of
  files, datagrams, objects that are packed in place) to the buffer \<open>next\<close> under a lock; the thread of the write
  poller executes those of the buffer \<open>curr\<close> and swaps the two when \<open>curr\<close> is empty.  A stream command of the same
  kind as the one before is merged into it.

  The buffers are \<open>pbuf\<close>s: a command is one byte that tells its kind, its \<open>struct\<close> with the counters \<open>sz\<close> and \<open>pos\<close>
  as the machine lays it out, and its data.  \<open>m_flag\<close> tells whether the write poller owns the buffer.  What the kernel
  answers to the system calls is an argument; \<open>io\<close> is the log of what they handed over.  \<open>None\<close> is a write outside the
  memory of a buffer, or through a pointer to memory that has been freed.

  The lemmas: the bytes of a stream arrive in the order they were sent, each once, however the system calls cut
  them, and a buffer the poller does not own has nothing to send.
\<close>

section \<open>The commands\<close>

definition WBUF_CMD_RAW :: U8 where "WBUF_CMD_RAW = 0"
definition WBUF_CMD_IOVEC :: U8 where "WBUF_CMD_IOVEC = 1"
definition WBUF_CMD_FILE :: U8 where "WBUF_CMD_FILE = 2"
definition WBUF_CMD_DGRAM :: U8 where "WBUF_CMD_DGRAM = 3"
definition WBUF_CMD_NUM :: U8 where "WBUF_CMD_NUM = 4"

lemmas cmd_defs = WBUF_CMD_RAW_def WBUF_CMD_IOVEC_def WBUF_CMD_FILE_def WBUF_CMD_DGRAM_def WBUF_CMD_NUM_def

text \<open>What packing an object into the buffer does: bytes, bytes and then an error, or more than the buffer has room for.\<close>

datatype packed = Packed "U8 list" | PackFails "U8 list" nbr_error | PackMoves

text \<open>An address is the 24 bytes of the \<open>address\<close> object.\<close>

datatype writer_arg =
    ArgRaw "U8 list" | ArgIov "(U64 \<times> U64) list" | ArgFile U32 U32 U32 | ArgDgram "U8 list" "U8 list"
  | ArgObj packed | ArgObjDgram packed "U8 list"

fun arg_cmd :: "writer_arg \<Rightarrow> U8" where
  "arg_cmd (ArgRaw b) = WBUF_CMD_RAW"
| "arg_cmd (ArgIov v) = WBUF_CMD_IOVEC"
| "arg_cmd (ArgFile fd ofs n) = WBUF_CMD_FILE"
| "arg_cmd (ArgDgram b a) = WBUF_CMD_DGRAM"
| "arg_cmd (ArgObj r) = WBUF_CMD_RAW"
| "arg_cmd (ArgObjDgram r a) = WBUF_CMD_DGRAM"

text \<open>\<open>append\<close> and \<open>update_wbuf_send_info\<close> of \<open>stream_command\<close> and \<open>dgram_command\<close>.\<close>

fun is_dgram :: "writer_arg \<Rightarrow> bool" where
  "is_dgram (ArgDgram b a) = True"
| "is_dgram (ArgObjDgram r a) = True"
| "is_dgram _ = False"

definition arg_append :: "U8 \<Rightarrow> writer_arg \<Rightarrow> bool" where
  "arg_append last_wcmd a \<longleftrightarrow> \<not> is_dgram a \<and> arg_cmd a = last_wcmd"

definition update_wcmd :: "writer_arg \<Rightarrow> U8 \<Rightarrow> U8" where
  "update_wcmd a last_wcmd = (if is_dgram a then last_wcmd else arg_cmd a)"

text \<open>\<open>required_size\<close>; the structs have 16 (\<open>raw\<close>, \<open>iov\<close>), 8 (\<open>file\<close>) and 40 bytes (\<open>dgram\<close>, with its address).\<close>

fun required_size :: "writer_arg \<Rightarrow> bool \<Rightarrow> nat" where
  "required_size (ArgRaw b) ap = length b + (if ap then 0 else 16)"
| "required_size (ArgIov v) ap = 16 * length v + (if ap then 0 else 16)"
| "required_size (ArgFile fd ofs n) ap = 24 + (if ap then 0 else 8)"
| "required_size (ArgDgram b a) ap = length b + (if ap then 0 else 40)"
| "required_size (ArgObj r) ap = 1024"
| "required_size (ArgObjDgram r a) ap = 1024"

section \<open>Writing a command into the buffer\<close>

text \<open>\<open>w\<close> is where the struct is: its \<open>sz\<close> is at \<open>w\<close> and its \<open>pos\<close> behind it, in a datagram both are behind the address.\<close>

definition raw_put :: "U8 list \<Rightarrow> bool \<Rightarrow> nat \<Rightarrow> pbuf \<Rightarrow> (nat \<times> pbuf) option" where
  "raw_put b ap w pb =
     (if \<not> ap then
        (if w + 16 + length b > m_limit pb then None
         else (let m = mem_copy (SET_64 (SET_64 (m_mem pb) (w + 8) 0) w (of_nat (length b))) (w + 16) b in
               Some (16 + length b, pbuf_commit (16 + length b) (pb\<lparr>m_mem := m\<rparr>))))
      else
        (let sz = unat (GET_64 (m_mem pb) w) in
         if w + 16 + sz + length b > m_limit pb then None
         else Some (length b, pbuf_commit (length b)
           (pb\<lparr>m_mem := SET_64 (mem_copy (m_mem pb) (w + 16 + sz) b) w (of_nat (sz + length b))\<rparr>))))"

definition dgram_put :: "U8 list \<Rightarrow> U8 list \<Rightarrow> nat \<Rightarrow> pbuf \<Rightarrow> (nat \<times> pbuf) option" where
  "dgram_put b addr w pb =
     (if w + 40 + length b > m_limit pb then None
      else (let m = mem_copy (mem_copy (SET_64 (SET_64 (m_mem pb) (w + 32) 0) (w + 24) (of_nat (length b))) w addr) (w + 40) b in
            Some (40 + length b, pbuf_commit (40 + length b) (pb\<lparr>m_mem := m\<rparr>))))"

text \<open>\<open>iovec\<close>: a pointer and a length, 16 bytes.\<close>

fun iov_copy :: "mem \<Rightarrow> nat \<Rightarrow> (U64 \<times> U64) list \<Rightarrow> mem" where
  "iov_copy m p [] = m"
| "iov_copy m p ((base, len) # v) = iov_copy (SET_64 (SET_64 m p base) (p + 8) len) (p + 16) v"

definition iov_put :: "(U64 \<times> U64) list \<Rightarrow> bool \<Rightarrow> nat \<Rightarrow> pbuf \<Rightarrow> (nat \<times> pbuf) option" where
  "iov_put v ap w pb =
     (if \<not> ap then
        (if w + 16 + 16 * length v > m_limit pb then None
         else (let m = iov_copy (SET_64 (SET_64 (m_mem pb) (w + 8) 0) w (of_nat (length v))) (w + 16) v in
               Some (16 + 16 * length v, pbuf_commit (16 + 16 * length v) (pb\<lparr>m_mem := m\<rparr>))))
      else
        (let sz = unat (GET_64 (m_mem pb) w) in
         if w + 16 + 16 * (sz + length v) > m_limit pb then None
         else Some (16 * length v, pbuf_commit (16 * length v)
           (pb\<lparr>m_mem := SET_64 (iov_copy (m_mem pb) (w + 16 + 16 * sz) v) w (of_nat (sz + length v))\<rparr>))))"

text \<open>\<open>file\<close>: \<open>sz\<close> and \<open>pos\<close> have 32 bits, an element is a descriptor, an offset and a count in 24 bytes.\<close>

definition fds_set :: "mem \<Rightarrow> nat \<Rightarrow> U32 \<Rightarrow> U64 \<Rightarrow> U64 \<Rightarrow> mem" where
  "fds_set m p fd ofs n = SET_64 (SET_64 (SET_32 m p fd) (p + 8) ofs) (p + 16) n"

definition file_put :: "U32 \<Rightarrow> U32 \<Rightarrow> U32 \<Rightarrow> bool \<Rightarrow> nat \<Rightarrow> pbuf \<Rightarrow> (nat \<times> pbuf) option" where
  "file_put fd ofs n ap w pb =
     (if \<not> ap then
        (if w + 32 > m_limit pb then None
         else (let m = SET_32 (fds_set (SET_32 (m_mem pb) (w + 4) 0) (w + 8) fd (ucast ofs) (ucast n)) w 1 in
               Some (32, pbuf_commit 32 (pb\<lparr>m_mem := m\<rparr>))))
      else
        (let sz = GET_32 (m_mem pb) w; p = w + 8 + 24 * unat sz in
         if p + 24 > m_limit pb then None
         else Some (24, pbuf_commit 24
           (pb\<lparr>m_mem := SET_32 (fds_set (m_mem pb) p fd (ucast ofs) (ucast n)) w (sz + 1)\<rparr>))))"

text \<open>\<open>obj2\<close>: \<open>h\<close> is the size of the struct and \<open>so\<close> where \<open>sz\<close> is in it; the packer appends at the end of the buffer.\<close>

definition obj_put :: "nat \<Rightarrow> nat \<Rightarrow> packed \<Rightarrow> bool \<Rightarrow> nat \<Rightarrow> pbuf \<Rightarrow> ((nbr_error + nat) \<times> pbuf) option" where
  "obj_put h so r ap w pb =
     (let pb = (if ap then pb else pbuf_commit h (pb\<lparr>m_mem := SET_64 (m_mem pb) (w + so + 8) 0\<rparr>));
          write = (\<lambda>b. if m_len pb + length b > m_limit pb then None
             else Some (pbuf_commit (length b) (pb\<lparr>m_mem := mem_copy (m_mem pb) (m_len pb) b\<rparr>))) in
      case r of
        PackMoves \<Rightarrow> None
      | PackFails b e \<Rightarrow> map_option (Pair (Inl e)) (write b)
      | Packed b \<Rightarrow>
          (case write b of None \<Rightarrow> None
           | Some pb \<Rightarrow>
               (let sz = (if ap then GET_64 (m_mem pb) (w + so) + of_nat (length b) else of_nat (length b)) in
                Some (Inr (length b), pb\<lparr>m_mem := SET_64 (m_mem pb) (w + so) sz\<rparr>))))"

fun writer_put :: "writer_arg \<Rightarrow> bool \<Rightarrow> nat \<Rightarrow> pbuf \<Rightarrow> ((nbr_error + nat) \<times> pbuf) option" where
  "writer_put (ArgRaw b) ap w pb = map_option (map_prod Inr id) (raw_put b ap w pb)"
| "writer_put (ArgIov v) ap w pb = map_option (map_prod Inr id) (iov_put v ap w pb)"
| "writer_put (ArgFile fd ofs n) ap w pb = map_option (map_prod Inr id) (file_put fd ofs n ap w pb)"
| "writer_put (ArgDgram b a) ap w pb = map_option (map_prod Inr id) (dgram_put b a w pb)"
| "writer_put (ArgObj r) ap w pb = obj_put 16 0 r ap w pb"
| "writer_put (ArgObjDgram r a) ap w pb = obj_put 40 24 r ap w (pb\<lparr>m_mem := mem_copy (m_mem pb) w a\<rparr>)"

section \<open>State\<close>

text \<open>What the kernel took: bytes of a stream, of \<open>iovec\<close>s, a range of a file, a datagram.\<close>

datatype io = Bytes "U8 list" | Pieces "(U64 \<times> U64) list" nat | FileRange U32 U64 nat | Datagram_to "U8 list" "U8 list"

text \<open>The result of a system call; \<open>handler::base::result\<close>.\<close>

datatype sysres = Wrote nat | Again | Pipe | Reset

datatype hresult = r_write_again | r_read_again | r_keep | r_destroy | r_nop

record wbuf =
  wb_dbf0 :: pbuf
  wb_dbf1 :: pbuf
  wb_second :: bool
  wb_last_writer :: nat
  wb_attached :: bool
  wb_last_wcmd :: U8
  wb_serial :: U32
  wb_seed :: U32
  wb_cells :: cells
  wb_log :: "io list"

text \<open>\<open>curr\<close> is \<open>dbf[1]\<close> when \<open>wb_second\<close>, and \<open>next\<close> the other one.\<close>

definition wb_curr :: "wbuf \<Rightarrow> pbuf" where
  "wb_curr s = (if wb_second s then wb_dbf1 s else wb_dbf0 s)"

definition wb_next :: "wbuf \<Rightarrow> pbuf" where
  "wb_next s = (if wb_second s then wb_dbf0 s else wb_dbf1 s)"

definition set_curr :: "pbuf \<Rightarrow> wbuf \<Rightarrow> wbuf" where
  "set_curr pb s = (if wb_second s then s\<lparr>wb_dbf1 := pb\<rparr> else s\<lparr>wb_dbf0 := pb\<rparr>)"

definition set_nextbuf :: "pbuf \<Rightarrow> wbuf \<Rightarrow> wbuf" where
  "set_nextbuf pb s = (if wb_second s then s\<lparr>wb_dbf0 := pb\<rparr> else s\<lparr>wb_dbf1 := pb\<rparr>)"

record wenv =
  we_lock_ok :: bool
  we_alloc_ok :: bool
  we_junk :: mem
  we_attach_ok :: bool

definition INITIAL_WBUF_SIZE :: nat where
  "INITIAL_WBUF_SIZE = 16 * 1024"

definition wbuf_new :: wbuf where
  "wbuf_new = \<lparr>wb_dbf0 = pbuf_empty, wb_dbf1 = pbuf_empty, wb_second = False, wb_last_writer = 0, wb_attached = False,
     wb_last_wcmd = WBUF_CMD_NUM, wb_serial = INVALID_MSGID, wb_seed = MSGID_START,
     wb_cells = \<lparr>cnt = Map.empty, fresh = 0\<rparr>, wb_log = []\<rparr>"

definition update_serial :: "wbuf \<Rightarrow> wbuf" where
  "update_serial s = (let (sd, i) = new_id (wb_seed s) in s\<lparr>wb_seed := sd, wb_serial := i\<rparr>)"

definition invalidate :: "wbuf \<Rightarrow> wbuf" where
  "invalidate s = s\<lparr>wb_serial := INVALID_MSGID\<rparr>"

definition initialized :: "wbuf \<Rightarrow> bool" where
  "initialized s \<longleftrightarrow> wb_serial s \<noteq> INVALID_MSGID"

definition write_attach :: "wbuf \<Rightarrow> bool \<times> wbuf" where
  "write_attach s = (\<not> wb_attached s, s\<lparr>wb_attached := True\<rparr>)"

definition write_detach :: "wbuf \<Rightarrow> wbuf" where
  "write_detach s = s\<lparr>wb_attached := False\<rparr>"

text \<open>\<open>init\<close>: the lock is set up with \<open>we_lock_ok\<close>.\<close>

definition wbuf_init :: "wenv \<Rightarrow> wbuf \<Rightarrow> ((nbr_error + unit) \<times> wbuf) option" where
  "wbuf_init env s =
     (let finish = (\<lambda>s. Some (Inr (), update_serial s\<lparr>wb_last_wcmd := WBUF_CMD_NUM\<rparr>)) in
      if \<not> initialized s then
        (case pbuf_reserve (we_alloc_ok env) (we_junk env) INITIAL_WBUF_SIZE (wb_dbf0 s) (wb_cells s) of
           None \<Rightarrow> None
         | Some (Inl e, pb, c) \<Rightarrow> Some (Inl e, s\<lparr>wb_dbf0 := pb, wb_cells := c\<rparr>)
         | Some (Inr _, pb, c) \<Rightarrow>
             (case pbuf_reserve (we_alloc_ok env) (we_junk env) INITIAL_WBUF_SIZE (wb_dbf1 s) c of
                None \<Rightarrow> None
              | Some (Inl e, pb1, c) \<Rightarrow> Some (Inl e, s\<lparr>wb_dbf0 := pb, wb_dbf1 := pb1, wb_cells := c\<rparr>)
              | Some (Inr _, pb1, c) \<Rightarrow>
                  (let s = s\<lparr>wb_dbf0 := pb, wb_dbf1 := pb1, wb_cells := c, wb_second := False\<rparr> in
                   if we_lock_ok env then finish s else Some (Inl EPTHREAD, s))))
      else finish (s\<lparr>wb_dbf0 := pbuf_reset (wb_dbf0 s), wb_dbf1 := pbuf_reset (wb_dbf1 s)\<rparr>))"

section \<open>Sending\<close>

text \<open>
  \<open>sendraw\<close>, under the lock.  The result of the command goes through a \<open>size_t\<close> that is never below zero: a packer
  that fails does not end the function.  \<open>rollback\<close> is given that number.
\<close>

definition sendraw :: "wenv \<Rightarrow> writer_arg \<Rightarrow> wbuf \<Rightarrow> ((nbr_error + nat) \<times> wbuf) option" where
  "sendraw env a s =
     (if \<not> we_lock_ok env then Some (Inl EPTHREAD, s)
      else
        (let ap = arg_append (wb_last_wcmd s) a in
         case pbuf_reserve (we_alloc_ok env) (we_junk env) (required_size a ap) (wb_next s) (wb_cells s) of
           None \<Rightarrow> None
         | Some (Inl e, pb, c) \<Rightarrow> Some (Inl EMALLOC, set_nextbuf pb (s\<lparr>wb_cells := c\<rparr>))
         | Some (Inr _, pb, c) \<Rightarrow>
             if \<not> ap \<and> m_limit pb \<le> m_len pb then None
             else
               (let pb = (if ap then pb else pbuf_push (arg_cmd a) pb);
                    w = (if ap then wb_last_writer s else m_len pb) in
                case writer_put a ap w pb of
                  None \<Rightarrow> None
                | Some (r, pb) \<Rightarrow>
                    (let s = set_nextbuf pb (s\<lparr>wb_cells := c, wb_last_writer := w, wb_last_wcmd := update_wcmd a (wb_last_wcmd s)\<rparr>);
                         (fresh_attach, s) = write_attach s in
                     if fresh_attach \<and> \<not> we_attach_ok env then
                       Some (Inl ESYSCALL, set_nextbuf (case r of Inr n \<Rightarrow> pbuf_rollback n pb | Inl e \<Rightarrow> pbuf_reset pb) (write_detach s))
                     else Some (r, s)))))"

section \<open>Executing the commands\<close>

text \<open>\<open>iov::sent\<close>: whole pieces are skipped; \<open>pos\<close> is set at the piece that was cut.\<close>

function iov_sent :: "nat \<Rightarrow> nat \<Rightarrow> nat \<Rightarrow> nat \<Rightarrow> mem \<Rightarrow> mem" where
  "iov_sent w i sz wb m =
     (if i < sz then
        (let p = w + 16 + 16 * i; len = unat (GET_64 m (p + 8)) in
         if wb \<ge> len then iov_sent w (i + 1) sz (wb - len) m
         else SET_64 (SET_64 (SET_64 m p (GET_64 m p + of_nat wb)) (p + 8) (of_nat (len - wb))) (w + 8) (of_nat i))
      else m)"
  by pat_completeness auto
termination by (relation "measure (\<lambda>(w, i, sz, wb, m). sz - i)") auto

declare iov_sent.simps [simp del]

definition iov_pieces :: "mem \<Rightarrow> nat \<Rightarrow> nat \<Rightarrow> nat \<Rightarrow> (U64 \<times> U64) list" where
  "iov_pieces m w pos sz = map (\<lambda>i. (GET_64 m (w + 16 + 16 * i), GET_64 m (w + 16 + 16 * i + 8))) [pos ..< sz]"

text \<open>
  \<open>write\<close>, \<open>sent\<close>, \<open>finish\<close> and \<open>chunk_size\<close> of the command at \<open>w\<close>, of which the kernel took \<open>r\<close> bytes.  \<open>sendfile\<close>
  moves the offset.
\<close>

definition raw_write :: "nat \<Rightarrow> nat \<Rightarrow> mem \<Rightarrow> io \<times> mem \<times> bool \<times> nat" where
  "raw_write w r m =
     (let sz = unat (GET_64 m w); pos = unat (GET_64 m (w + 8)) in
      (Bytes (take r (bytes_at m (w + 16 + pos) (sz - pos))), SET_64 m (w + 8) (of_nat (pos + r)), sz \<le> pos + r, 16 + sz))"

definition iov_write :: "nat \<Rightarrow> nat \<Rightarrow> mem \<Rightarrow> io \<times> mem \<times> bool \<times> nat" where
  "iov_write w r m =
     (let sz = unat (GET_64 m w); pos = unat (GET_64 m (w + 8)); m' = iov_sent w pos sz r m in
      (Pieces (iov_pieces m w pos sz) r, m', sz \<le> unat (GET_64 m' (w + 8)), 16 + 16 * sz))"

definition file_write :: "nat \<Rightarrow> nat \<Rightarrow> mem \<Rightarrow> io \<times> mem \<times> bool \<times> nat" where
  "file_write w r m =
     (let sz = unat (GET_32 m w); pos = unat (GET_32 m (w + 4)); p = w + 8 + 24 * pos; n = unat (GET_64 m (p + 16));
          m1 = SET_64 m (p + 8) (GET_64 m (p + 8) + of_nat r);
          m' = (if n > r then SET_64 m1 (p + 16) (of_nat (n - r)) else SET_32 m1 (w + 4) (of_nat (pos + 1))) in
      (FileRange (GET_32 m p) (GET_64 m (p + 8)) r, m', sz \<le> unat (GET_32 m' (w + 4)), 8 + 24 * sz))"

definition dgram_write :: "nat \<Rightarrow> nat \<Rightarrow> mem \<Rightarrow> io \<times> mem \<times> bool \<times> nat" where
  "dgram_write w r m =
     (let sz = unat (GET_64 m (w + 24)); pos = unat (GET_64 m (w + 32)) in
      (Datagram_to (bytes_at m w 24) (take r (bytes_at m (w + 40 + pos) (sz - pos))),
        SET_64 m (w + 32) (of_nat (pos + r)), sz \<le> pos + r, 40 + sz))"

text \<open>The \<open>switch\<close>; \<open>None\<close> is a byte that is no command.\<close>

definition write_one :: "U8 \<Rightarrow> nat \<Rightarrow> nat \<Rightarrow> mem \<Rightarrow> (io \<times> mem \<times> bool \<times> nat) option" where
  "write_one wcmd w r m =
     (if wcmd = WBUF_CMD_RAW then Some (raw_write w r m)
      else if wcmd = WBUF_CMD_IOVEC then Some (iov_write w r m)
      else if wcmd = WBUF_CMD_FILE then Some (file_write w r m)
      else if wcmd = WBUF_CMD_DGRAM then Some (dgram_write w r m)
      else None)"

text \<open>How many bytes \<open>write\<close> offers to the kernel.\<close>

definition offered :: "U8 \<Rightarrow> nat \<Rightarrow> mem \<Rightarrow> nat" where
  "offered wcmd w m =
     (if wcmd = WBUF_CMD_RAW then unat (GET_64 m w) - unat (GET_64 m (w + 8))
      else if wcmd = WBUF_CMD_IOVEC then
        sum_list (map (unat \<circ> snd) (iov_pieces m w (unat (GET_64 m (w + 8))) (unat (GET_64 m w))))
      else if wcmd = WBUF_CMD_FILE then unat (GET_64 m (w + 8 + 24 * unat (GET_32 m (w + 4)) + 16))
      else unat (GET_64 m (w + 24)) - unat (GET_64 m (w + 32)))"

text \<open>
  The loop over the commands from \<open>now\<close> to \<open>last\<close>.  \<open>Inr\<close> is a \<open>break\<close> to \<open>shrink_buffer\<close> with the final \<open>now\<close>;
  the early returns (\<open>Inl\<close>) leave the commands that are done in the buffer.  \<open>Wrote r\<close> is a kernel with
  room for \<open>r\<close> bytes, which takes as many of those it is offered; behind the given results it takes no more.
\<close>

function write_loop :: "nat \<Rightarrow> nat \<Rightarrow> sysres list \<Rightarrow> mem \<Rightarrow> io list \<Rightarrow> (hresult + nat) \<times> mem \<times> io list" where
  "write_loop now lim rs m out =
     (if now < lim then
        (case rs of
           [] \<Rightarrow> (Inl r_write_again, m, out)
         | Again # rs \<Rightarrow> (Inl r_write_again, m, out)
         | Pipe # rs \<Rightarrow> (Inl r_nop, m, out)
         | Reset # rs \<Rightarrow> (Inl r_destroy, m, out)
         | Wrote r # rs \<Rightarrow>
             (case write_one (m now) (now + 1) (min r (offered (m now) (now + 1) m)) m of
                None \<Rightarrow> (Inl r_destroy, m, out)
              | Some (x, m, finish, chunk) \<Rightarrow>
                  if finish then write_loop (now + (1 + chunk)) lim rs m (out @ [x])
                  else (Inr now, m, out @ [x])))
      else (Inr now, m, out))"
  by pat_completeness auto
termination by (relation "measure (\<lambda>(now, lim, rs, m, out). lim - now)") auto

declare write_loop.simps [simp del]

definition write_command :: "bool \<Rightarrow> sysres list \<Rightarrow> wbuf \<Rightarrow> hresult \<times> wbuf" where
  "write_command lock_ok rs s =
     (if pbuf_last (wb_curr s) = 0 then
        (if \<not> lock_ok then (r_destroy, s)
         else
           (let s = s\<lparr>wb_second := \<not> wb_second s, wb_last_wcmd := WBUF_CMD_NUM\<rparr> in
            if pbuf_last (wb_curr s) = 0 then (r_nop, write_detach s) else (r_keep, s)))
      else
        (case write_loop 0 (m_len (wb_curr s)) rs (m_mem (wb_curr s)) [] of
           (res, m, out) \<Rightarrow>
             (let pb = (wb_curr s)\<lparr>m_mem := m\<rparr>; s = s\<lparr>wb_log := wb_log s @ out\<rparr> in
              case res of
                Inl e \<Rightarrow> (e, set_curr pb s)
              | Inr now \<Rightarrow> (r_keep, set_curr (shrink_used_buffer_size now pb) s))))"

section \<open>Memory as a list of commands\<close>

definition le32 :: "U32 \<Rightarrow> U8 list" where
  "le32 v = [ucast v, ucast (drop_bit 8 v), ucast (drop_bit 16 v), ucast (drop_bit 24 v)]"

definition le64 :: "U64 \<Rightarrow> U8 list" where
  "le64 v = le32 (ucast v) @ le32 (ucast (drop_bit 32 v))"

lemma length_le [simp]: "length (le32 a) = 4" "length (le64 b) = 8"
  by (simp_all add: le32_def le64_def)

lemma SET_64_le: "SET_64 m p v = mem_copy m p (le64 v)"
  using mem_copy_append [of m p "le32 (ucast v)" "le32 (ucast (drop_bit 32 v))"]
  by (simp add: SET_64_def SET_32_bytes le64_def flip: le32_def)

lemma GET_32_le: "bytes_at m p 4 = le32 v \<Longrightarrow> GET_32 m p = v"
  unfolding bytes_at_4 le32_def by (simp add: GET_32_def flip: word32_from_bytes)

lemma GET_64_le:
  assumes "bytes_at m p 8 = le64 v"
  shows "GET_64 m p = v"
proof -
  have "bytes_at m p 4 @ bytes_at m (p + 4) 4 = le64 v" using assms bytes_at_append [of m p 4 4] by simp
  then have "bytes_at m p 4 = le32 (ucast v)" "bytes_at m (p + 4) 4 = le32 (ucast (drop_bit 32 v))" by (simp_all add: le64_def)
  then have "GET_32 m p = ucast v" "GET_32 m (p + 4) = ucast (drop_bit 32 v)" by (simp_all add: GET_32_le)
  then show ?thesis by (auto intro!: bit_word_eqI simp: GET_64_def bit_simps)
qed

text \<open>The bytes from 0 to \<open>n\<close> as a list: reading a part of it, and writing into it.\<close>

lemma bytes_at_part: "p + k \<le> n \<Longrightarrow> bytes_at m p k = take k (drop p (bytes_at m 0 n))"
  by (auto simp: list_eq_iff_nth_eq)

lemma bytes_mem_copy:
  assumes "bytes_at m 0 n = A @ B @ C" "length B = length b" "p = length A"
  shows "bytes_at (mem_copy m p b) 0 n = A @ b @ C"
proof (rule nth_equalityI)
  have n: "n = length A + length b + length C" using arg_cong [OF assms(1), of length] assms(2) by simp
  show "length (bytes_at (mem_copy m p b) 0 n) = length (A @ b @ C)" using n by simp
  fix i assume "i < length (bytes_at (mem_copy m p b) 0 n)"
  then have i: "i < n" by simp
  have "m i = (A @ B @ C) ! i" using i by (simp flip: assms(1))
  then show "bytes_at (mem_copy m p b) 0 n ! i = (A @ b @ C) ! i"
    using i n assms(2,3) by (auto simp: mem_copy_def nth_append)
qed

lemma bytes_append_copy: "bytes_at (mem_copy m n b) 0 (n + length b) = bytes_at m 0 n @ b"
  using bytes_at_append [of "mem_copy m n b" 0 n "length b"] by (simp add: mem_simps)

type_synonym wchunk = "U8 list \<times> nat"

definition enc_chunk :: "wchunk \<Rightarrow> U8 list" where
  "enc_chunk c = WBUF_CMD_RAW # le64 (of_nat (length (fst c))) @ le64 (of_nat (snd c)) @ fst c"

definition chunk_ok :: "wchunk \<Rightarrow> bool" where
  "chunk_ok c \<longleftrightarrow> snd c \<le> length (fst c) \<and> length (fst c) < 2 ^ 63"

definition chunk_bytes :: "wchunk list \<Rightarrow> U8 list" where
  "chunk_bytes cs = concat (map enc_chunk cs)"

definition pend :: "wchunk list \<Rightarrow> U8 list" where
  "pend cs = concat (map (\<lambda>c. drop (snd c) (fst c)) cs)"

lemma chunk_bytes_simps [simp]: "chunk_bytes [] = []" "chunk_bytes (c # cs) = enc_chunk c @ chunk_bytes cs"
  "chunk_bytes (cs @ ds) = chunk_bytes cs @ chunk_bytes ds"
  by (simp_all add: chunk_bytes_def)

lemma pend_simps [simp]: "pend [] = []" "pend (c # cs) = drop (snd c) (fst c) @ pend cs" "pend (cs @ ds) = pend cs @ pend ds"
  by (simp_all add: pend_def)

lemma length_enc [simp]: "length (enc_chunk c) = 17 + length (fst c)"
  by (simp add: enc_chunk_def)

lemma chunk_bytes_Nil_iff [simp]: "chunk_bytes cs = [] \<longleftrightarrow> cs = []"
  by (cases cs) (simp_all add: enc_chunk_def)

fun io_bytes :: "io \<Rightarrow> U8 list" where
  "io_bytes (Bytes b) = b"
| "io_bytes _ = []"

definition written :: "wbuf \<Rightarrow> U8 list" where
  "written s = concat (map io_bytes (wb_log s))"

lemma unat_of_nat_small: "n < 2 ^ 63 \<Longrightarrow> unat (of_nat n :: U64) = n"
  by (simp add: unsigned_of_nat take_bit_nat_eq_self)

text \<open>The fields of the struct of a command in the middle of the buffer.\<close>

lemma chunk_fields:
  assumes "bytes_at m 0 n = P @ enc_chunk (b, pos) @ R" and "chunk_ok (b, pos)"
  shows "m (length P) = WBUF_CMD_RAW" "unat (GET_64 m (length P + 1)) = length b" "unat (GET_64 m (length P + 9)) = pos"
    "bytes_at m (length P + 17) (length b) = b"
proof -
  have n: "n = length P + 17 + length b + length R" using arg_cong [OF assms(1), of length] by simp
  have part: "bytes_at m (length P + i) k = take k (drop i (enc_chunk (b, pos)))" if "i + k \<le> 17 + length b" for i k
    using bytes_at_part [of "length P + i" k n m] that n unfolding assms(1) by simp
  have e: "enc_chunk (b, pos) = WBUF_CMD_RAW # le64 (of_nat (length b)) @ le64 (of_nat pos) @ b" by (simp add: enc_chunk_def)
  have "bytes_at m (length P + 0) 1 = [WBUF_CMD_RAW]" using part [of 0 1] by (simp add: e)
  then show "m (length P) = WBUF_CMD_RAW" by (simp add: bytes_at_def)
  have "bytes_at m (length P + 1) 8 = le64 (of_nat (length b))" using part [of 1 8] by (simp add: e)
  then have "GET_64 m (length P + 1) = of_nat (length b)" by (rule GET_64_le)
  then show "unat (GET_64 m (length P + 1)) = length b" using assms(2) by (simp add: chunk_ok_def unat_of_nat_small)
  have "bytes_at m (length P + 9) 8 = le64 (of_nat pos)" using part [of 9 8] by (simp add: e)
  then have "GET_64 m (length P + 9) = of_nat pos" by (rule GET_64_le)
  then show "unat (GET_64 m (length P + 9)) = pos" using assms(2) by (simp add: chunk_ok_def unat_of_nat_small)
  show "bytes_at m (length P + 17) (length b) = b" using part [of 17 "length b"] by (simp add: e)
qed

lemma chunk_set_pos:
  assumes "bytes_at m 0 n = P @ enc_chunk (b, pos) @ R"
  shows "bytes_at (SET_64 m (length P + 9) (of_nat pos')) 0 n = P @ enc_chunk (b, pos') @ R"
proof -
  have "bytes_at m 0 n = (P @ WBUF_CMD_RAW # le64 (of_nat (length b))) @ le64 (of_nat pos) @ (b @ R)"
    using assms by (simp add: enc_chunk_def)
  from bytes_mem_copy [OF this, of "le64 (of_nat pos')" "length P + 9"] show ?thesis by (simp add: SET_64_le enc_chunk_def)
qed

lemma write_one_chunk:
  assumes "bytes_at m 0 n = P @ enc_chunk (b, pos) @ R" and "chunk_ok (b, pos)" and "r \<le> length b - pos"
  shows "offered (m (length P)) (length P + 1) m = length b - pos"
    "write_one (m (length P)) (length P + 1) r m =
       Some (Bytes (take r (drop pos b)), SET_64 m (length P + 9) (of_nat (pos + r)), length b \<le> pos + r, 16 + length b)"
proof -
  note f = chunk_fields [OF assms(1,2)]
  have "bytes_at m (length P + 17 + pos) (length b - pos) = drop pos b"
    using f(4) drop_bytes_at [of pos m "length P + 17" "length b"] by simp
  then show "write_one (m (length P)) (length P + 1) r m =
       Some (Bytes (take r (drop pos b)), SET_64 m (length P + 9) (of_nat (pos + r)), length b \<le> pos + r, 16 + length b)"
    using f by (simp add: write_one_def raw_write_def Let_def ac_simps)
  show "offered (m (length P)) (length P + 1) m = length b - pos" using f by (simp add: offered_def ac_simps)
qed

lemma write_loop_Wrote:
  assumes "now < lim"
  shows "write_loop now lim (Wrote r # rs) m out =
    (case write_one (m now) (now + 1) (min r (offered (m now) (now + 1) m)) m of
       None \<Rightarrow> (Inl r_destroy, m, out)
     | Some (x, m, finish, chunk) \<Rightarrow>
         if finish then write_loop (now + (1 + chunk)) lim rs m (out @ [x]) else (Inr now, m, out @ [x]))"
  using assms by (subst write_loop.simps) simp

lemma write_loop_stop: "lim \<le> now \<Longrightarrow> write_loop now lim rs m out = (Inr now, m, out)"
  by (subst write_loop.simps) simp

definition out_bytes :: "io list \<Rightarrow> U8 list" where
  "out_bytes xs = concat (map io_bytes xs)"

lemma out_bytes_simps [simp]: "out_bytes [] = []" "out_bytes (xs @ ys) = out_bytes xs @ out_bytes ys" "out_bytes (Bytes b # xs) = b @ out_bytes xs"
  by (simp_all add: out_bytes_def)

text \<open>What the loop leaves: the same commands with their positions moved on by what was handed over.\<close>

lemma write_loop_ok:
  assumes "bytes_at m 0 n = P @ chunk_bytes cs" and "list_all chunk_ok cs"
  shows "\<exists>m' cs' xs res. write_loop (length P) n rs m out = (res, m', out @ xs) \<and> bytes_at m' 0 n = P @ chunk_bytes cs'
    \<and> list_all chunk_ok cs' \<and> out_bytes xs @ pend cs' = pend cs
    \<and> (\<forall>now. res = Inr now \<longrightarrow> (\<exists>ds es. cs' = ds @ es \<and> now = length P + length (chunk_bytes ds) \<and> pend ds = []))"
  using assms
proof (induction cs arbitrary: m P rs out)
  case Nil
  from Nil.prems(1) have "length (bytes_at m 0 n) = length P" by simp
  then have "n = length P" by simp
  then show ?case using Nil by (simp add: write_loop_stop)
next
  case (Cons c cs)
  obtain b pos where c: "c = (b, pos)" by fastforce
  have n: "n = length P + 17 + length b + length (chunk_bytes cs)" using arg_cong [OF Cons.prems(1), of length] by (simp add: c)
  then have lt: "length P < n" by simp
  have m: "bytes_at m 0 n = P @ enc_chunk (b, pos) @ chunk_bytes cs" "chunk_ok (b, pos)" "list_all chunk_ok cs"
    using Cons.prems by (simp_all add: c)
  have early: "\<exists>m' cs' xs res'. (Inl e, m, out) = (res', m', out @ xs) \<and> bytes_at m' 0 n = P @ chunk_bytes cs'
    \<and> list_all chunk_ok cs' \<and> out_bytes xs @ pend cs' = pend (c # cs)
    \<and> (\<forall>now. res' = Inr now \<longrightarrow> (\<exists>ds es. cs' = ds @ es \<and> now = length P + length (chunk_bytes ds) \<and> pend ds = []))" for e
    using Cons.prems by (intro exI [of _ m] exI [of _ "c # cs"] exI [of _ "[]"] exI [of _ "Inl e"]) simp
  show ?case
  proof (cases "\<exists>r rs'. rs = Wrote r # rs'")
    case False
    then have "\<exists>e. write_loop (length P) n rs m out = (Inl e, m, out)"
      using lt by (cases rs; cases "hd rs") (simp_all add: write_loop.simps)
    then show ?thesis using early by auto
  next
    case True
    then obtain r rs' where rs: "rs = Wrote r # rs'" by blast
    define k where "k = min r (length b - pos)"
    define m1 where "m1 = SET_64 m (length P + 9) (of_nat (pos + k))"
    have k: "k \<le> length b - pos" "pos \<le> length b" using m(2) by (simp_all add: k_def chunk_ok_def)
    have m1: "bytes_at m1 0 n = P @ enc_chunk (b, pos + k) @ chunk_bytes cs"
      unfolding m1_def by (rule chunk_set_pos [OF m(1)])
    have ok1: "chunk_ok (b, pos + k)" using k m(2) by (simp add: chunk_ok_def)
    have split_pend: "take k (drop pos b) @ drop (pos + k) b = drop pos b"
      by (simp add: add.commute flip: drop_drop)
    have one: "write_loop (length P) n rs m out =
        (if length b \<le> pos + k then write_loop (length P + (1 + (16 + length b))) n rs' m1 (out @ [Bytes (take k (drop pos b))])
         else (Inr (length P), m1, out @ [Bytes (take k (drop pos b))]))"
    proof -
      note w = write_one_chunk [OF m(1,2) k(1)]
      have "min r (offered (m (length P)) (length P + 1) m) = k" by (simp only: w(1) k_def)
      then show ?thesis by (simp only: rs write_loop_Wrote [OF lt] w(2) m1_def option.case prod.case)
    qed
    show ?thesis
    proof (cases "length b \<le> pos + k")
      case False
      have "P @ enc_chunk (b, pos + k) @ chunk_bytes cs = P @ chunk_bytes ((b, pos + k) # cs)" by simp
      then show ?thesis using one False m1 ok1 m(3) split_pend
        by (intro exI [of _ m1] exI [of _ "(b, pos + k) # cs"] exI [of _ "[Bytes (take k (drop pos b))]"] exI [of _ "Inr (length P)"])
          (auto simp: c intro!: exI [of _ "[]"])
    next
      case True
      have "bytes_at m1 0 n = (P @ enc_chunk (b, pos + k)) @ chunk_bytes cs" using m1 by simp
      from Cons.IH [OF this m(3), of rs' "out @ [Bytes (take k (drop pos b))]"] obtain m' cs' xs res where
        r: "write_loop (length P + (17 + length b)) n rs' m1 (out @ [Bytes (take k (drop pos b))]) =
            (res, m', (out @ [Bytes (take k (drop pos b))]) @ xs)"
          "bytes_at m' 0 n = (P @ enc_chunk (b, pos + k)) @ chunk_bytes cs'" "list_all chunk_ok cs'" "out_bytes xs @ pend cs' = pend cs"
          "\<forall>now. res = Inr now \<longrightarrow> (\<exists>ds es. cs' = ds @ es \<and> now = length (P @ enc_chunk (b, pos + k)) + length (chunk_bytes ds) \<and> pend ds = [])"
        by auto
      have e: "drop (pos + k) b = []" using True by simp
      have "write_loop (length P) n rs m out = (res, m', out @ ([Bytes (take k (drop pos b))] @ xs))" using one True r(1) by simp
      moreover have "bytes_at m' 0 n = P @ chunk_bytes ((b, pos + k) # cs')" using r(2) by simp
      moreover have "out_bytes ([Bytes (take k (drop pos b))] @ xs) @ pend ((b, pos + k) # cs') = pend (c # cs)"
        using r(4) e split_pend by (simp add: c)
      moreover have "\<exists>ds es. (b, pos + k) # cs' = ds @ es \<and> now = length P + length (chunk_bytes ds) \<and> pend ds = []" if now: "res = Inr now" for now
      proof -
        obtain ds es where "cs' = ds @ es" "now = length (P @ enc_chunk (b, pos + k)) + length (chunk_bytes ds)" "pend ds = []"
          using r(5) now by blast
        then show ?thesis using e by (intro exI [of _ "(b, pos + k) # ds"] exI [of _ es]) simp
      qed
      ultimately show ?thesis using r(3) ok1 by (intro exI [of _ m'] exI [of _ "(b, pos + k) # cs'"] exI) (auto simp del: append.simps chunk_bytes_simps pend_simps)
    qed
  qed
qed

text \<open>A kernel that takes everything.\<close>

lemma write_loop_all:
  assumes "bytes_at m 0 n = P @ chunk_bytes cs" and "list_all chunk_ok cs" and "length cs \<le> k" and "\<forall>c\<in>set cs. length (fst c) \<le> r"
  shows "\<exists>m' xs. write_loop (length P) n (replicate k (Wrote r)) m out = (Inr n, m', out @ xs)"
  using assms
proof (induction cs arbitrary: m P k out)
  case Nil
  from Nil.prems(1) have "length (bytes_at m 0 n) = length P" by simp
  then have "n = length P" by simp
  then show ?case by (simp add: write_loop_stop)
next
  case (Cons c cs)
  obtain b pos k' where c: "c = (b, pos)" and k: "k = Suc k'" using Cons.prems(3) by (cases c; cases k) auto
  have n: "n = length P + 17 + length b + length (chunk_bytes cs)" using arg_cong [OF Cons.prems(1), of length] by (simp add: c)
  then have lt: "length P < n" by simp
  have m: "bytes_at m 0 n = P @ enc_chunk (b, pos) @ chunk_bytes cs" "chunk_ok (b, pos)" "list_all chunk_ok cs"
    using Cons.prems by (simp_all add: c)
  have min: "min r (length b - pos) = length b - pos" "pos \<le> length b" using Cons.prems(4) m(2) by (auto simp: c chunk_ok_def)
  have "bytes_at (SET_64 m (length P + 9) (of_nat (pos + (length b - pos)))) 0 n = (P @ enc_chunk (b, pos + (length b - pos))) @ chunk_bytes cs"
    using chunk_set_pos [OF m(1), of "pos + (length b - pos)"] by simp
  from Cons.IH [OF this m(3), of k' "out @ [Bytes (take (length b - pos) (drop pos b))]"] show ?case
    using Cons.prems(3,4) write_one_chunk [OF m(1,2) order_refl] min
    by (auto simp: k write_loop_Wrote [OF lt] ac_simps)
qed

section \<open>The invariant of the two buffers\<close>

definition buf_ok :: "cells \<Rightarrow> pbuf \<Rightarrow> wchunk list \<Rightarrow> bool" where
  "buf_ok c pb cs \<longleftrightarrow> pbuf_inv pb \<and> m_ofs pb = 0 \<and> contents pb = chunk_bytes cs \<and> list_all chunk_ok cs
     \<and> (\<exists>a. m_ptr pb = Some a \<and> cnt c a = Some 1 \<and> a < fresh c)"

definition wbuf_inv :: "wbuf \<Rightarrow> wchunk list \<Rightarrow> wchunk list \<Rightarrow> bool" where
  "wbuf_inv s cs ds \<longleftrightarrow> buf_ok (wb_cells s) (wb_curr s) cs \<and> buf_ok (wb_cells s) (wb_next s) ds
     \<and> m_ptr (wb_curr s) \<noteq> m_ptr (wb_next s)
     \<and> (wb_last_wcmd s = WBUF_CMD_NUM \<or> wb_last_wcmd s = WBUF_CMD_RAW \<and>
          (\<exists>es e. ds = es @ [e] \<and> wb_last_writer s = length (chunk_bytes es) + 1))
     \<and> (\<not> wb_attached s \<longrightarrow> pend cs = [] \<and> pend ds = [])"

lemma curr_next_simps [simp]:
  "wb_curr (set_curr pb s) = pb" "wb_next (set_curr pb s) = wb_next s" "wb_next (set_nextbuf pb s) = pb" "wb_curr (set_nextbuf pb s) = wb_curr s"
  "wb_cells (set_curr pb s) = wb_cells s" "wb_cells (set_nextbuf pb s) = wb_cells s" "wb_log (set_curr pb s) = wb_log s" "wb_log (set_nextbuf pb s) = wb_log s"
  "wb_attached (set_curr pb s) = wb_attached s" "wb_attached (set_nextbuf pb s) = wb_attached s"
  "wb_last_wcmd (set_curr pb s) = wb_last_wcmd s" "wb_last_wcmd (set_nextbuf pb s) = wb_last_wcmd s"
  "wb_last_writer (set_curr pb s) = wb_last_writer s" "wb_last_writer (set_nextbuf pb s) = wb_last_writer s"
  by (simp_all add: wb_curr_def wb_next_def set_curr_def set_nextbuf_def)

lemma curr_next_fields [simp]:
  "wb_curr (s\<lparr>wb_cells := c\<rparr>) = wb_curr s" "wb_next (s\<lparr>wb_cells := c\<rparr>) = wb_next s"
  "wb_curr (s\<lparr>wb_log := l\<rparr>) = wb_curr s" "wb_next (s\<lparr>wb_log := l\<rparr>) = wb_next s"
  "wb_curr (s\<lparr>wb_attached := b\<rparr>) = wb_curr s" "wb_next (s\<lparr>wb_attached := b\<rparr>) = wb_next s"
  "wb_curr (s\<lparr>wb_last_wcmd := u\<rparr>) = wb_curr s" "wb_next (s\<lparr>wb_last_wcmd := u\<rparr>) = wb_next s"
  "wb_curr (s\<lparr>wb_last_writer := n\<rparr>) = wb_curr s" "wb_next (s\<lparr>wb_last_writer := n\<rparr>) = wb_next s"
  "wb_curr (s\<lparr>wb_second := \<not> wb_second s\<rparr>) = wb_next s" "wb_next (s\<lparr>wb_second := \<not> wb_second s\<rparr>) = wb_curr s"
  by (simp_all add: wb_curr_def wb_next_def)

lemma contents_unread: "m_ofs pb = 0 \<Longrightarrow> contents pb = unread pb"
  by (simp add: contents_def unread_def)

lemma buf_ok_other:
  assumes "buf_ok c pb cs" and "\<And>a. m_ptr pb = Some a \<Longrightarrow> cnt c' a = cnt c a" and "fresh c \<le> fresh c'"
  shows "buf_ok c' pb cs"
  using assms by (auto simp: buf_ok_def)

lemma buf_ok_length: "buf_ok c pb cs \<Longrightarrow> m_len pb = length (chunk_bytes cs)"
  using length_contents [of pb] by (simp add: buf_ok_def del: length_contents)

text \<open>\<open>reserve\<close> of one buffer: its contents stay, the memory of the other one is not touched.\<close>

lemma reserve_buf:
  assumes "buf_ok c pb cs" and "sz + m_len pb \<le> 2 ^ 63" and "pbuf_reserve ok junk sz pb c = Some (r, pb', c')"
  shows "buf_ok c' pb' cs \<and> fresh c \<le> fresh c' \<and> (\<forall>a. a < fresh c \<and> m_ptr pb \<noteq> Some a \<longrightarrow> cnt c' a = cnt c a \<and> m_ptr pb' \<noteq> Some a)
    \<and> (\<forall>n. r = Inr n \<longrightarrow> sz \<le> m_limit pb' - m_len pb')"
proof -
  obtain a where a: "m_ptr pb = Some a" "cnt c a = Some 1" "a < fresh c" and inv: "pbuf_inv pb" "m_ofs pb = 0"
    and cont: "contents pb = chunk_bytes cs" "list_all chunk_ok cs" using assms(1) by (auto simp: buf_ok_def)
  show ?thesis
  proof (cases "sz \<le> pbuf_available pb")
    case True
    then show ?thesis using assms by (auto simp: reserve_enough pbuf_available_def)
  next
    case False
    then have av: "pbuf_available pb < sz" by simp
    from reserve_grow [OF this a inv(1) assms(2), of junk] obtain pb1 c1 where
      g: "pbuf_reserve True junk sz pb c = Some (Inr 0, pb1, c1)" "ptr_unref a (snd (cell_new c)) = Some c1" "m_ptr pb1 = Some (fresh c)"
      "unread pb1 = unread pb" "m_ofs pb1 = 0" "pbuf_inv pb1" "sz \<le> pbuf_available pb1" by blast
    have c1: "fresh c1 = Suc (fresh c)" "cnt c1 (fresh c) = Some 1" "x \<noteq> a \<Longrightarrow> x < fresh c \<Longrightarrow> cnt c1 x = cnt c x" for x
      using g(2) a(2,3) by (auto simp: ptr_unref_def cell_new_def)
    show ?thesis
    proof (cases ok)
      case True
      then have "r = Inr 0" "pb' = pb1" "c' = c1" using assms(3) g(1) by simp_all
      then show ?thesis using g c1 cont inv a contents_unread [of pb] contents_unread [of pb1]
        by (auto simp: buf_ok_def pbuf_available_def)
    next
      case False
      then have "pb' = pb" "c' = c" "\<exists>e. r = Inl e"
        using assms(3) av a(1) by (auto simp: pbuf_reserve_def Let_def split: option.splits)
      then show ?thesis using assms(1) by auto
    qed
  qed
qed

section \<open>Sends of a stream\<close>

fun stream_bytes :: "writer_arg \<Rightarrow> U8 list option" where
  "stream_bytes (ArgRaw b) = Some b"
| "stream_bytes (ArgObj (Packed b)) = Some b"
| "stream_bytes _ = None"

fun_cases stream_bytesE: "stream_bytes a = Some b"

lemma stream_args:
  assumes "stream_bytes a = Some b"
  obtains "a = ArgRaw b" | "a = ArgObj (Packed b)"
  using assms by (auto elim: stream_bytesE)

lemma set_header:
  assumes "bytes_at m 0 n = A @ X @ Y @ R" "length X = 8" "length Y = 8"
  shows "bytes_at (SET_64 m (length A) v) 0 n = A @ le64 v @ Y @ R" "bytes_at (SET_64 m (length A + 8) v) 0 n = A @ X @ le64 v @ R"
proof -
  show "bytes_at (SET_64 m (length A) v) 0 n = A @ le64 v @ Y @ R"
    unfolding SET_64_le using assms by (intro bytes_mem_copy [where B = X]) simp_all
  have "bytes_at m 0 n = (A @ X) @ Y @ R" using assms by simp
  from bytes_mem_copy [OF this, of "le64 v" "length A + 8"] assms show "bytes_at (SET_64 m (length A + 8) v) 0 n = A @ X @ le64 v @ R"
    by (simp add: SET_64_le)
qed

lemma header_bytes: "bytes_at m 0 (w + 16) = bytes_at m 0 w @ bytes_at m w 8 @ bytes_at m (w + 8) 8"
  using bytes_at_append [of m 0 w 16] bytes_at_append [of m w 8 8] by simp

lemma put_new:
  assumes "stream_bytes a = Some b" and "contents pb = C @ [WBUF_CMD_RAW]" and "writer_put a False (m_len pb) pb = Some (r, pb')"
  shows "(\<exists>n. r = Inr n) \<and> contents pb' = C @ enc_chunk (b, 0) \<and> m_len pb' \<le> m_limit pb' \<and> m_limit pb' = m_limit pb
    \<and> m_ptr pb' = m_ptr pb \<and> m_ofs pb' = m_ofs pb"
proof -
  let ?w = "m_len pb" and ?m = "m_mem pb" and ?l = "of_nat (length b) :: U64"
  have C: "bytes_at ?m 0 ?w = C @ [WBUF_CMD_RAW]" using assms(2) by (simp add: contents_def)
  have e: "C @ enc_chunk (b, 0) = bytes_at ?m 0 ?w @ le64 ?l @ le64 0 @ b" by (simp add: C enc_chunk_def)
  have h1: "bytes_at (SET_64 ?m (?w + 8) 0) 0 (?w + 16) = bytes_at ?m 0 ?w @ bytes_at ?m ?w 8 @ le64 0"
    using set_header(2) [of ?m "?w + 16" "bytes_at ?m 0 ?w" "bytes_at ?m ?w 8" "bytes_at ?m (?w + 8) 8" "[]" 0] by (simp add: header_bytes)
  have h2: "bytes_at (SET_64 (SET_64 ?m (?w + 8) 0) ?w ?l) 0 (?w + 16) = bytes_at ?m 0 ?w @ le64 ?l @ le64 0"
    using set_header(1) [of "SET_64 ?m (?w + 8) 0" "?w + 16" "bytes_at ?m 0 ?w" "bytes_at ?m ?w 8" "le64 0" "[]" ?l] h1 by simp
  from assms(1) show ?thesis
  proof (cases rule: stream_args)
    case 1
    let ?m' = "SET_64 (SET_64 ?m (?w + 8) 0) ?w ?l"
    have "bytes_at (mem_copy ?m' (?w + 16) b) 0 (?w + 16 + length b) = C @ enc_chunk (b, 0)"
      unfolding bytes_append_copy h2 e by simp
    then show ?thesis using assms(3) 1
      by (auto simp: raw_put_def pbuf_commit_def contents_def Let_def add.assoc split: if_splits)
  next
    case 2
    let ?m' = "SET_64 (mem_copy (SET_64 ?m (?w + 8) 0) (?w + 16) b) ?w ?l"
    have "bytes_at (mem_copy (SET_64 ?m (?w + 8) 0) (?w + 16) b) 0 (?w + 16 + length b) = bytes_at ?m 0 ?w @ bytes_at ?m ?w 8 @ le64 0 @ b"
      unfolding bytes_append_copy h1 by simp
    from set_header(1) [OF this, of ?l] have "bytes_at ?m' 0 (?w + 16 + length b) = C @ enc_chunk (b, 0)" unfolding e by simp
    then show ?thesis using assms(3) 2
      by (auto simp: obj_put_def pbuf_commit_def contents_def Let_def add.assoc split: if_splits)
  qed
qed

lemma put_more:
  assumes "stream_bytes a = Some b" and "contents pb = E @ enc_chunk (b0, pos)" and "chunk_ok (b0, pos)"
    and "writer_put a True (length E + 1) pb = Some (r, pb')"
  shows "(\<exists>n. r = Inr n) \<and> contents pb' = E @ enc_chunk (b0 @ b, pos) \<and> m_len pb' \<le> m_limit pb' \<and> m_limit pb' = m_limit pb
    \<and> m_ptr pb' = m_ptr pb \<and> m_ofs pb' = m_ofs pb"
proof -
  let ?m = "m_mem pb" and ?w = "length E + 1"
  have len: "m_len pb = ?w + 16 + length b0" using arg_cong [OF assms(2), of length] by simp
  have C: "bytes_at ?m 0 (m_len pb) = E @ enc_chunk (b0, pos) @ []" using assms(2) by (simp add: contents_def)
  have c: "bytes_at (mem_copy ?m (m_len pb) b) 0 (m_len pb + length b) = E @ enc_chunk (b0, pos) @ b"
    unfolding bytes_append_copy C by simp
  then have "bytes_at (mem_copy ?m (m_len pb) b) 0 (m_len pb + length b) =
      (E @ [WBUF_CMD_RAW]) @ le64 (of_nat (length b0)) @ le64 (of_nat pos) @ (b0 @ b)" by (simp add: enc_chunk_def)
  from set_header(1) [OF this, of "of_nat (length b0 + length b)"]
  have s: "bytes_at (SET_64 (mem_copy ?m (m_len pb) b) ?w (of_nat (length b0 + length b))) 0 (m_len pb + length b) = E @ enc_chunk (b0 @ b, pos)"
    by (simp add: enc_chunk_def)
  have g: "unat (GET_64 ?m ?w) = length b0" using chunk_fields(2) [OF C assms(3)] .
  have "unat (GET_64 (mem_copy ?m (m_len pb) b) ?w) = length b0" using chunk_fields(2) [OF c assms(3)] .
  then have g': "GET_64 (mem_copy ?m (m_len pb) b) ?w = of_nat (length b0)" by (metis of_nat_unat ucast_id)
  from assms(1) show ?thesis
  proof (cases rule: stream_args)
    case 1
    then show ?thesis using assms(4) g s len
      by (auto simp: raw_put_def pbuf_commit_def contents_def Let_def add.assoc split: if_splits)
  next
    case 2
    then show ?thesis using assms(4) g' s len
      by (auto simp: obj_put_def pbuf_commit_def contents_def Let_def add.assoc split: if_splits)
  qed
qed

lemma stream_arg_facts:
  assumes "stream_bytes a = Some b"
  shows "arg_cmd a = WBUF_CMD_RAW" "\<not> is_dgram a" "required_size a ap \<le> length b + 1024"
  using assms by (cases rule: stream_args; simp)+

text \<open>A send that got the memory it asked for: the new command, or the last one made longer.\<close>

lemma put_ok:
  assumes buf: "buf_ok c pb ds" and a: "stream_bytes a = Some b" and size: "m_len pb + length b < 2 ^ 62"
    and last: "ap \<Longrightarrow> \<exists>es e. ds = es @ [e] \<and> w = length (chunk_bytes es) + 1"
    and new: "\<not> ap \<Longrightarrow> m_len pb < m_limit pb \<and> w = m_len (pbuf_push WBUF_CMD_RAW pb)"
    and put: "writer_put a ap w (if ap then pb else pbuf_push WBUF_CMD_RAW pb) = Some (r, pb')"
  shows "(\<exists>n. r = Inr n) \<and> m_ptr pb' = m_ptr pb
    \<and> (\<exists>es e. buf_ok c pb' (es @ [e]) \<and> w = length (chunk_bytes es) + 1 \<and> pend (es @ [e]) = pend ds @ b)"
proof (cases ap)
  case True
  obtain es e where ds: "ds = es @ [e]" and w: "w = length (chunk_bytes es) + 1" using last [OF True] by blast
  obtain b0 pos where e: "e = (b0, pos)" by fastforce
  have ok: "chunk_ok (b0, pos)" "list_all chunk_ok es" and cont: "contents pb = chunk_bytes es @ enc_chunk (b0, pos)"
    using buf by (auto simp: buf_ok_def ds e)
  have "length b0 \<le> m_len pb" using buf_ok_length [OF buf] by (simp add: ds e)
  then have ok': "chunk_ok (b0 @ b, pos)" using ok(1) size by (simp add: chunk_ok_def)
  have put': "writer_put a True (length (chunk_bytes es) + 1) pb = Some (r, pb')" using put True w by simp
  have pend: "pend (es @ [(b0 @ b, pos)]) = pend ds @ b" using ok(1) by (simp add: ds e chunk_ok_def)
  from put_more [OF a cont ok(1) put'] have "(\<exists>n. r = Inr n) \<and> m_ptr pb' = m_ptr pb \<and> buf_ok c pb' (es @ [(b0 @ b, pos)])"
    using buf ok' ok(2) by (auto simp: buf_ok_def pbuf_inv_def)
  then show ?thesis using w pend by blast
next
  case False
  have cont: "contents (pbuf_push WBUF_CMD_RAW pb) = chunk_bytes ds @ [WBUF_CMD_RAW]" using buf by (simp add: contents_push buf_ok_def)
  have w: "w = length (chunk_bytes ds) + 1" using new [OF False] buf_ok_length [OF buf] by (simp add: pbuf_push_def)
  have ok: "chunk_ok (b, 0)" using size by (simp add: chunk_ok_def)
  have put': "writer_put a False (m_len (pbuf_push WBUF_CMD_RAW pb)) (pbuf_push WBUF_CMD_RAW pb) = Some (r, pb')" using put False new by simp
  from put_new [OF a cont put'] have "(\<exists>n. r = Inr n) \<and> m_ptr pb' = m_ptr pb \<and> buf_ok c pb' (ds @ [(b, 0)])"
    using buf ok by (auto simp: buf_ok_def pbuf_inv_def pbuf_push_def)
  then show ?thesis using w by (intro conjI exI [of _ ds] exI [of _ "(b, 0)"]) simp_all
qed

lemma send_ok:
  assumes inv: "wbuf_inv s cs ds" and a: "stream_bytes a = Some b" and att: "we_attach_ok env"
    and size: "m_len (wb_next s) + length b + 1024 < 2 ^ 62" and res: "sendraw env a s = Some (r, s')"
  shows "\<exists>ds'. wbuf_inv s' cs ds' \<and> wb_log s' = wb_log s \<and> pend ds' = pend ds @ (case r of Inl _ \<Rightarrow> [] | Inr _ \<Rightarrow> b)"
proof (cases "we_lock_ok env")
  case False
  then show ?thesis using res inv by (auto simp: sendraw_def)
next
  case True
  let ?ap = "arg_append (wb_last_wcmd s) a"
  note f = stream_arg_facts [OF a]
  have next_ok: "buf_ok (wb_cells s) (wb_next s) ds" and curr_ok: "buf_ok (wb_cells s) (wb_curr s) cs"
    and ptr: "m_ptr (wb_curr s) \<noteq> m_ptr (wb_next s)" and att': "\<not> wb_attached s \<longrightarrow> pend cs = [] \<and> pend ds = []"
    and wcmd: "wb_last_wcmd s = WBUF_CMD_NUM \<or> wb_last_wcmd s = WBUF_CMD_RAW \<and>
          (\<exists>es e. ds = es @ [e] \<and> wb_last_writer s = length (chunk_bytes es) + 1)"
    using inv by (simp_all add: wbuf_inv_def)
  obtain r1 pb c where rs: "pbuf_reserve (we_alloc_ok env) (we_junk env) (required_size a ?ap) (wb_next s) (wb_cells s) = Some (r1, pb, c)"
    using res True by (cases "pbuf_reserve (we_alloc_ok env) (we_junk env) (required_size a ?ap) (wb_next s) (wb_cells s)")
      (auto simp: sendraw_def)
  have "required_size a ?ap + m_len (wb_next s) \<le> 2 ^ 63" using f(3) [of ?ap] size by simp
  from reserve_buf [OF next_ok this rs] have pb: "buf_ok c pb ds" "fresh (wb_cells s) \<le> fresh c"
    and other: "x < fresh (wb_cells s) \<Longrightarrow> m_ptr (wb_next s) \<noteq> Some x \<Longrightarrow> cnt c x = cnt (wb_cells s) x \<and> m_ptr pb \<noteq> Some x" for x
    by blast+
  obtain x where x: "m_ptr (wb_curr s) = Some x" "x < fresh (wb_cells s)" using curr_ok by (auto simp: buf_ok_def)
  have curr': "buf_ok c (wb_curr s) cs" using buf_ok_other [OF curr_ok _ pb(2)] other x ptr by auto
  have ptr': "m_ptr (wb_curr s) \<noteq> m_ptr pb" using other [OF x(2)] x(1) ptr by auto
  show ?thesis
  proof (cases r1)
    case (Inl e)
    then have "r = Inl EMALLOC" "s' = set_nextbuf pb (s\<lparr>wb_cells := c\<rparr>)" using res True rs by (auto simp: sendraw_def Let_def)
    then show ?thesis using pb(1) curr' ptr' wcmd att' by (auto simp: wbuf_inv_def)
  next
    case (Inr n)
    let ?pb = "if ?ap then pb else pbuf_push WBUF_CMD_RAW pb"
    define w where "w = (if ?ap then wb_last_writer s else m_len ?pb)"
    have room: "?ap \<or> m_len pb < m_limit pb" using res True rs Inr by (auto simp: sendraw_def Let_def not_less split: if_splits)
    obtain r2 pb2 where put: "writer_put a ?ap w ?pb = Some (r2, pb2)"
      using res True rs Inr room f by (cases "writer_put a ?ap w ?pb") (auto simp: sendraw_def Let_def w_def split: if_splits)
    have s': "r = r2" "s' = set_nextbuf pb2 (s\<lparr>wb_cells := c, wb_last_writer := w, wb_last_wcmd := WBUF_CMD_RAW\<rparr>)\<lparr>wb_attached := True\<rparr>"
      using res True rs Inr room put f att
      by (auto simp: sendraw_def Let_def w_def write_attach_def update_wcmd_def split: if_splits)
    have "m_len pb = m_len (wb_next s)" using buf_ok_length [OF pb(1)] buf_ok_length [OF next_ok] by simp
    then have "m_len pb + length b < 2 ^ 62" using size by simp
    moreover have "\<exists>es e. ds = es @ [e] \<and> w = length (chunk_bytes es) + 1" if "?ap"
      using that wcmd f(1) by (auto simp: arg_append_def w_def cmd_defs)
    moreover have "m_len pb < m_limit pb \<and> w = m_len (pbuf_push WBUF_CMD_RAW pb)" if "\<not> ?ap" using that room by (simp add: w_def)
    ultimately obtain n' es e where d: "r2 = Inr n'" "m_ptr pb2 = m_ptr pb" "buf_ok c pb2 (es @ [e])" "w = length (chunk_bytes es) + 1"
      "pend (es @ [e]) = pend ds @ b" using put_ok [OF pb(1) a _ _ _ put] by blast
    have "wbuf_inv s' cs (es @ [e])" using d(2-4) curr' ptr' by (auto simp: s' wbuf_inv_def)
    then show ?thesis using d(1,5) by (intro exI [of _ "es @ [e]"]) (simp add: s')
  qed
qed

section \<open>Writes\<close>

definition buffers_ok :: "wbuf \<Rightarrow> wchunk list \<Rightarrow> wchunk list \<Rightarrow> bool" where
  "buffers_ok s cs ds \<longleftrightarrow> buf_ok (wb_cells s) (wb_curr s) cs \<and> buf_ok (wb_cells s) (wb_next s) ds
     \<and> m_ptr (wb_curr s) \<noteq> m_ptr (wb_next s)"

lemma inv_buffers: "wbuf_inv s cs ds \<Longrightarrow> buffers_ok s cs ds"
  by (simp add: wbuf_inv_def buffers_ok_def)

lemma written_out: "written s = out_bytes (wb_log s)"
  by (simp add: written_def out_bytes_def)

lemma buf_ok_shrink:
  assumes "buf_ok c pb (ds @ es)"
  shows "buf_ok c (shrink_used_buffer_size (length (chunk_bytes ds)) pb) es"
  using assms contents_shrink [of "length (chunk_bytes ds)" pb] buf_ok_length [OF assms]
  by (auto simp: buf_ok_def pbuf_inv_def shrink_used_buffer_size_def)

text \<open>An empty \<open>curr\<close>: the swap.\<close>

lemma write_swap:
  assumes "buffers_ok s [] ds"
  shows "write_command True rs s = (let s = s\<lparr>wb_second := \<not> wb_second s, wb_last_wcmd := WBUF_CMD_NUM\<rparr> in
      if ds = [] then (r_nop, write_detach s) else (r_keep, s))"
    and "buffers_ok (snd (write_command True rs s)) ds []" "wb_log (snd (write_command True rs s)) = wb_log s"
proof -
  have l: "m_len (wb_curr s) = 0" "m_len (wb_next s) = length (chunk_bytes ds)"
    using assms buf_ok_length by (auto simp: buffers_ok_def)
  have "wb_curr (s\<lparr>wb_second := \<not> wb_second s, wb_last_wcmd := WBUF_CMD_NUM\<rparr>) = wb_next s" by (simp add: wb_curr_def wb_next_def)
  then show w: "write_command True rs s = (let s = s\<lparr>wb_second := \<not> wb_second s, wb_last_wcmd := WBUF_CMD_NUM\<rparr> in
      if ds = [] then (r_nop, write_detach s) else (r_keep, s))"
    using l by (simp add: write_command_def pbuf_last_def Let_def)
  show "buffers_ok (snd (write_command True rs s)) ds []" using assms
    by (cases "ds = []"; cases "wb_second s") (auto simp: w buffers_ok_def Let_def write_detach_def wb_curr_def wb_next_def)
  show "wb_log (snd (write_command True rs s)) = wb_log s" by (simp add: w Let_def write_detach_def)
qed

text \<open>The commands of a \<open>curr\<close> that is not empty.\<close>

lemma write_cmds:
  assumes ok: "buffers_ok s cs ds" and ne: "cs \<noteq> []" and w: "write_command lk rs s = (x, s')"
  shows "\<exists>cs' xs. buffers_ok s' cs' ds \<and> wb_log s' = wb_log s @ xs \<and> out_bytes xs @ pend cs' = pend cs
    \<and> wb_next s' = wb_next s \<and> wb_attached s' = wb_attached s \<and> wb_last_wcmd s' = wb_last_wcmd s \<and> wb_last_writer s' = wb_last_writer s
    \<and> ((\<exists>m out. write_loop 0 (m_len (wb_curr s)) rs (m_mem (wb_curr s)) [] = (Inr (m_len (wb_curr s)), m, out)) \<longrightarrow> cs' = [])"
proof -
  let ?c = "wb_curr s"
  have b: "buf_ok (wb_cells s) ?c cs" using ok by (simp add: buffers_ok_def)
  then have m: "bytes_at (m_mem ?c) 0 (m_len ?c) = [] @ chunk_bytes cs" "list_all chunk_ok cs"
    by (simp_all add: buf_ok_def contents_def)
  have len: "m_len ?c = length (chunk_bytes cs)" using b by (rule buf_ok_length)
  then have ne': "m_len ?c \<noteq> 0" using ne by (cases cs) simp_all
  from write_loop_ok [OF m, of rs "[]"] obtain m' cs' xs res where
    l: "write_loop 0 (m_len ?c) rs (m_mem ?c) [] = (res, m', xs)" "bytes_at m' 0 (m_len ?c) = chunk_bytes cs'"
      "list_all chunk_ok cs'" "out_bytes xs @ pend cs' = pend cs"
      "\<forall>now. res = Inr now \<longrightarrow> (\<exists>ds es. cs' = ds @ es \<and> now = length (chunk_bytes ds) \<and> pend ds = [])" by auto
  let ?pb = "?c\<lparr>m_mem := m'\<rparr>"
  have pb: "buf_ok (wb_cells s) ?pb cs'" using b l(2,3) by (auto simp: buf_ok_def contents_def pbuf_inv_def)
  have len': "length (chunk_bytes cs') = m_len ?c" using buf_ok_length [OF pb] by simp
  show ?thesis
  proof (cases res)
    case (Inl e)
    then have "s' = set_curr ?pb (s\<lparr>wb_log := wb_log s @ xs\<rparr>)" using w l(1) ne' by (simp add: write_command_def pbuf_last_def Let_def)
    then show ?thesis using ok pb l(1,4) Inl by (intro exI [of _ cs'] exI [of _ xs]) (simp add: buffers_ok_def)
  next
    case (Inr now)
    then have s': "s' = set_curr (shrink_used_buffer_size now ?pb) (s\<lparr>wb_log := wb_log s @ xs\<rparr>)"
      using w l(1) ne' by (simp add: write_command_def pbuf_last_def Let_def)
    obtain fs es where d: "cs' = fs @ es" "now = length (chunk_bytes fs)" "pend fs = []" using l(5) Inr by blast
    have "buf_ok (wb_cells s) (shrink_used_buffer_size now ?pb) es" using buf_ok_shrink pb unfolding d(1,2) by blast
    moreover have "m_ptr (shrink_used_buffer_size now ?pb) = m_ptr ?c" by (simp add: shrink_used_buffer_size_def)
    moreover have "out_bytes xs @ pend es = pend cs" using l(4) d by simp
    moreover have "es = []" if "now = m_len ?c" using that d len' by simp
    ultimately show ?thesis using ok l(1) Inr by (intro exI [of _ es] exI [of _ xs]) (auto simp: buffers_ok_def s')
  qed
qed

lemma write_ok:
  assumes inv: "wbuf_inv s cs ds" and w: "write_command lk rs s = (x, s')"
  shows "\<exists>cs' ds'. wbuf_inv s' cs' ds' \<and> written s' @ pend cs' @ pend ds' = written s @ pend cs @ pend ds"
proof (cases "cs = []")
  case True
  show ?thesis
  proof (cases lk)
    case False
    have "m_len (wb_curr s) = 0" using inv buf_ok_length True by (auto simp: wbuf_inv_def)
    then have "s' = s" using w False by (simp add: write_command_def pbuf_last_def)
    then show ?thesis using inv by blast
  next
    case lk: True
    have ok: "buffers_ok s [] ds" using inv_buffers [OF inv] True by simp
    from write_swap [OF ok, of rs] w lk have "buffers_ok s' ds []" "wb_log s' = wb_log s" "wb_last_wcmd s' = WBUF_CMD_NUM"
      "wb_attached s' \<longrightarrow> wb_attached s" "\<not> wb_attached s' \<longrightarrow> ds = [] \<or> \<not> wb_attached s"
      by (auto simp: Let_def write_detach_def split: if_splits)
    moreover have "\<not> wb_attached s \<longrightarrow> pend ds = []" using inv by (simp add: wbuf_inv_def)
    ultimately have "wbuf_inv s' ds []" by (auto simp: wbuf_inv_def buffers_ok_def)
    then show ?thesis using True \<open>wb_log s' = wb_log s\<close> by (intro exI [of _ ds] exI [of _ "[]"]) (simp add: written_out)
  qed
next
  case False
  from write_cmds [OF inv_buffers [OF inv] False w] obtain cs' xs where
    d: "buffers_ok s' cs' ds" "wb_log s' = wb_log s @ xs" "out_bytes xs @ pend cs' = pend cs" "wb_attached s' = wb_attached s"
      "wb_last_wcmd s' = wb_last_wcmd s" "wb_last_writer s' = wb_last_writer s" by blast
  have "wbuf_inv s' cs' ds" using inv d by (auto simp: wbuf_inv_def buffers_ok_def)
  moreover have "written s' @ pend cs' @ pend ds = written s @ pend cs @ pend ds" using d(2) by (simp add: written_out flip: d(3))
  ultimately show ?thesis by blast
qed

text \<open>One run of the write poller with a kernel that has room for everything.\<close>

definition flush :: "wbuf \<Rightarrow> wbuf" where
  "flush s = snd (write_command True (replicate (m_len (wb_curr s)) (Wrote (m_len (wb_curr s)))) s)"

lemma chunks_bound: "length cs \<le> length (chunk_bytes cs) \<and> (\<forall>c\<in>set cs. length (fst c) \<le> length (chunk_bytes cs))"
  by (induction cs) (auto simp: trans_le_add2)

lemma flush_cmds:
  assumes "buffers_ok s cs ds" and "cs \<noteq> []"
  shows "buffers_ok (flush s) [] ds \<and> written (flush s) = written s @ pend cs \<and> wb_attached (flush s) = wb_attached s"
proof -
  let ?n = "m_len (wb_curr s)"
  have b: "buf_ok (wb_cells s) (wb_curr s) cs" using assms by (simp add: buffers_ok_def)
  then have m: "bytes_at (m_mem (wb_curr s)) 0 ?n = [] @ chunk_bytes cs" "list_all chunk_ok cs"
    by (simp_all add: buf_ok_def contents_def)
  have "length cs \<le> ?n" "\<forall>c\<in>set cs. length (fst c) \<le> ?n" using chunks_bound [of cs] buf_ok_length [OF b] by simp_all
  from write_loop_all [OF m this, of "[]"] have
    "\<exists>m out. write_loop 0 ?n (replicate ?n (Wrote ?n)) (m_mem (wb_curr s)) [] = (Inr ?n, m, out)" by auto
  moreover obtain x s' where w: "write_command True (replicate ?n (Wrote ?n)) s = (x, s')" by fastforce
  ultimately obtain xs where "buffers_ok s' [] ds" "wb_log s' = wb_log s @ xs" "out_bytes xs @ pend [] = pend cs" "wb_attached s' = wb_attached s"
    using write_cmds [OF assms w] by blast
  then show ?thesis by (simp add: flush_def w written_out)
qed

lemma flush_swap:
  assumes "buffers_ok s [] ds"
  shows "buffers_ok (flush s) ds [] \<and> written (flush s) = written s \<and> (ds = [] \<longrightarrow> \<not> wb_attached (flush s))"
  using write_swap [OF assms, of "replicate (m_len (wb_curr s)) (Wrote (m_len (wb_curr s)))"]
  by (auto simp: flush_def written_out Let_def write_detach_def)

lemma flush_all:
  assumes "buffers_ok s cs ds"
  shows "written (flush (flush (flush (flush s)))) = written s @ pend cs @ pend ds \<and> \<not> wb_attached (flush (flush (flush (flush s))))"
proof -
  have two: "written (flush (flush s)) = written s @ pend ds \<and> \<not> wb_attached (flush (flush s)) \<and> buffers_ok (flush (flush s)) [] []"
    if s: "buffers_ok s [] []" "ds = []" for s ds using flush_swap [OF s(1)] flush_swap [of "flush s" "[]"] s(2) by auto
  have three: "written (flush (flush (flush s))) = written s @ pend ds \<and> \<not> wb_attached (flush (flush (flush s)))
      \<and> buffers_ok (flush (flush (flush s))) [] []" if s: "buffers_ok s [] ds" for s
  proof (cases "ds = []")
    case True
    then show ?thesis using two [of s "[]"] flush_swap [of "flush (flush s)" "[]"] s by auto
  next
    case False
    then show ?thesis using flush_swap [OF s] flush_cmds [of "flush s" ds "[]"] flush_swap [of "flush (flush s)" "[]"] by auto
  qed
  show ?thesis
  proof (cases "cs = []")
    case True
    then show ?thesis using three [of s] flush_swap [of "flush (flush (flush s))" "[]"] assms by auto
  next
    case False
    then show ?thesis using flush_cmds [OF assms] three [of "flush s"] by auto
  qed
qed

section \<open>Properties\<close>

text \<open>
  Any order of sends of a stream and of runs of the write poller, each with whatever results of the system calls, as
  long as attaching to the poller does not fail; \<open>l\<close> are the bytes whose send was answered with success.
\<close>

inductive wbuf_reach :: "U8 list \<Rightarrow> wbuf \<Rightarrow> bool" where
  start: "wbuf_init env wbuf_new = Some (Inr (), s) \<Longrightarrow> wbuf_reach [] s"
| send: "wbuf_reach l s \<Longrightarrow> stream_bytes a = Some b \<Longrightarrow> we_attach_ok env \<Longrightarrow> m_len (wb_next s) + length b + 1024 < 2 ^ 62
    \<Longrightarrow> sendraw env a s = Some (r, s') \<Longrightarrow> wbuf_reach (l @ (case r of Inl _ \<Rightarrow> [] | Inr _ \<Rightarrow> b)) s'"
| poller: "wbuf_reach l s \<Longrightarrow> write_command lk rs s = (x, s') \<Longrightarrow> wbuf_reach l s'"

lemma update_serial_fields [simp]:
  "wb_curr (update_serial s) = wb_curr s" "wb_next (update_serial s) = wb_next s" "wb_cells (update_serial s) = wb_cells s"
  "wb_log (update_serial s) = wb_log s" "wb_attached (update_serial s) = wb_attached s" "wb_last_wcmd (update_serial s) = wb_last_wcmd s"
  by (simp_all add: update_serial_def wb_curr_def wb_next_def split_beta)

lemma init_ok:
  assumes "wbuf_init env wbuf_new = Some (Inr (), s)"
  shows "wbuf_inv s [] [] \<and> wb_log s = []"
proof -
  let ?c = "\<lparr>cnt = Map.empty, fresh = 0\<rparr> :: cells" and ?n = INITIAL_WBUF_SIZE
  have e: "m_ptr pbuf_empty = None" "pbuf_inv pbuf_empty" "0 < ?n" "?n \<le> 2 ^ 63" by (simp_all add: pbuf_empty_def pbuf_inv_def INITIAL_WBUF_SIZE_def)
  have ok: "we_alloc_ok env"
  proof (rule ccontr)
    assume "\<not> we_alloc_ok env"
    then have "pbuf_reserve (we_alloc_ok env) (we_junk env) ?n pbuf_empty ?c = None
      \<or> (\<exists>e pb c. pbuf_reserve (we_alloc_ok env) (we_junk env) ?n pbuf_empty ?c = Some (Inl e, pb, c))"
      by (auto simp: pbuf_reserve_def pbuf_available_def pbuf_empty_def INITIAL_WBUF_SIZE_def Let_def split: option.splits)
    then show False using assms by (auto simp: wbuf_init_def initialized_def wbuf_new_def)
  qed
  from reserve_first [OF e(3,1,2,4), of "we_junk env" ?c] obtain pb where
    p: "pbuf_reserve True (we_junk env) ?n pbuf_empty ?c = Some (Inr 0, pb, snd (cell_new ?c))" "m_ptr pb = Some (fresh ?c)"
      "unread pb = []" "m_ofs pb = 0" "pbuf_inv pb" by blast
  from reserve_first [OF e(3,1,2,4), of "we_junk env" "snd (cell_new ?c)"] obtain pb1 where
    p1: "pbuf_reserve True (we_junk env) ?n pbuf_empty (snd (cell_new ?c)) = Some (Inr 0, pb1, snd (cell_new (snd (cell_new ?c))))"
      "m_ptr pb1 = Some (fresh (snd (cell_new ?c)))" "unread pb1 = []" "m_ofs pb1 = 0" "pbuf_inv pb1" by blast
  have s: "s = update_serial (wbuf_new\<lparr>wb_dbf0 := pb, wb_dbf1 := pb1, wb_cells := snd (cell_new (snd (cell_new ?c))), wb_second := False,
      wb_last_wcmd := WBUF_CMD_NUM\<rparr>)"
    using assms ok p(1) p1(1) by (auto simp: wbuf_init_def initialized_def wbuf_new_def Let_def split: if_splits)
  show ?thesis using p p1 contents_unread [of pb] contents_unread [of pb1]
    unfolding s by (auto simp: wbuf_inv_def buf_ok_def wb_curr_def wb_next_def wbuf_new_def cell_new_def update_serial_def split_beta)
qed

lemma wbuf_reach_inv: "wbuf_reach l s \<Longrightarrow> \<exists>cs ds. wbuf_inv s cs ds \<and> l = written s @ pend cs @ pend ds"
proof (induction rule: wbuf_reach.induct)
  case (start env s)
  then show ?case using init_ok by (intro exI [of _ "[]"]) (auto simp: written_def)
next
  case (send l s a b env r s')
  then obtain cs ds where i: "wbuf_inv s cs ds" "l = written s @ pend cs @ pend ds" by blast
  from send_ok [OF i(1) send.hyps(2-5)] obtain ds' where "wbuf_inv s' cs ds'" "wb_log s' = wb_log s"
    "pend ds' = pend ds @ (case r of Inl _ \<Rightarrow> [] | Inr _ \<Rightarrow> b)" by blast
  then show ?case using i(2) by (intro exI [of _ cs] exI [of _ ds']) (simp add: written_def)
next
  case (poller l s lk rs x s')
  then show ?case using write_ok by metis
qed

text \<open>A write buffer with two sends, for the witnesses.\<close>

definition wenv_example :: wenv where
  "wenv_example = \<lparr>we_lock_ok = True, we_alloc_ok = True, we_junk = (\<lambda>_. 7), we_attach_ok = True\<rparr>"

lemma init_example: "\<exists>s. wbuf_init wenv_example wbuf_new = Some (Inr (), s) \<and> m_limit (wb_dbf1 s) = 16384 \<and> m_len (wb_next s) = 0 \<and> wb_dbf1 s = wb_next s
    \<and> wb_dbf0 s = wb_curr s \<and> wb_last_wcmd s = WBUF_CMD_NUM \<and> m_len (wb_curr s) = 0 \<and> \<not> wb_second s"
proof -
  have g: "grow 16384 256 = Some 16384" by (simp add: grow.simps)
  show ?thesis
    by (simp add: wbuf_init_def initialized_def wbuf_new_def wenv_example_def pbuf_reserve_def pbuf_available_def pbuf_empty_def
        INITIAL_WBUF_SIZE_def INITIAL_BUFFER_SIZE_def g cell_new_def Let_def update_serial_def split_beta wb_next_def wb_curr_def)
qed

lemma send_example:
  assumes "m_limit (wb_next s) = 16384" "m_len (wb_next s) = 0" "wb_last_wcmd s = WBUF_CMD_NUM"
  shows "\<exists>s'. sendraw wenv_example (ArgRaw [1, 2, 3]) s = Some (Inr 19, s') \<and> wb_attached s' \<and> wb_second s' = wb_second s"
  using assms by (simp add: sendraw_def wenv_example_def arg_append_def cmd_defs reserve_enough pbuf_available_def pbuf_push_def
      raw_put_def pbuf_commit_def Let_def write_attach_def set_nextbuf_def update_wcmd_def)

lemma wbuf_reach_example: "\<exists>s. wbuf_reach [1, 2, 3] s \<and> wb_attached s \<and> \<not> wb_second s"
proof -
  obtain s where s: "wbuf_init wenv_example wbuf_new = Some (Inr (), s)" "m_limit (wb_dbf1 s) = 16384" "m_len (wb_next s) = 0"
    "wb_dbf1 s = wb_next s" "wb_last_wcmd s = WBUF_CMD_NUM" "\<not> wb_second s" using init_example by blast
  from send_example [of s] s obtain s' where s': "sendraw wenv_example (ArgRaw [1, 2, 3]) s = Some (Inr 19, s')" "wb_attached s'" "\<not> wb_second s'" by auto
  from wbuf_reach.send [OF wbuf_reach.start [OF s(1)] _ _ _ s'(1), of "[1, 2, 3]"] s(3) have "wbuf_reach [1, 2, 3] s'"
    by (simp add: wenv_example_def)
  then show ?thesis using s' by blast
qed

lemma reach_flushes:
  assumes "wbuf_reach l s"
  shows "written (flush (flush (flush (flush s)))) = l \<and> \<not> wb_attached (flush (flush (flush (flush s))))"
proof -
  obtain cs ds where i: "wbuf_inv s cs ds" "l = written s @ pend cs @ pend ds" using wbuf_reach_inv [OF assms] by blast
  show ?thesis using flush_all [OF inv_buffers [OF i(1)]] i(2) by simp
qed

text \<open>C3: the bytes of a stream leave in the order in which they were sent, each once, whatever part of them every
  system call takes; while any are left the buffer belongs to the write poller.  The sends are of raw bytes and of packed
  objects, in any order with the runs of the poller, from the opening of the connection on; every send is defined (a command
  that fits exactly is not, see \<open>exact_fit_overruns\<close>), attaching to the poller never fails (\<^verbatim>\<open>wbuf.h:375\<close>), and the buffer
  stays below \<open>2 ^ 62\<close> bytes.\<close>

theorem stream_leaves_in_order:
  assumes "wbuf_reach l s"
  shows "\<exists>rest. l = written s @ rest \<and> (\<not> wb_attached s \<longrightarrow> rest = [])"
proof -
  obtain cs ds where "wbuf_inv s cs ds" "l = written s @ pend cs @ pend ds" using wbuf_reach_inv [OF assms] by blast
  then show ?thesis by (auto simp: wbuf_inv_def)
qed

theorem stream_leaves_in_order_witness: "\<exists>s rest. wb_attached s \<and> [1, 2, 3] = written s @ rest"
  using wbuf_reach_example stream_leaves_in_order by blast

text \<open>C36: when the kernel has room, four runs of the write poller bring out everything that was sent, and the buffer
  is given back; from every state that sends of raw bytes and packed objects and runs of the poller reach, as long as every
  send is defined and attaching to the poller does not fail.\<close>

theorem everything_gets_out:
  assumes "wbuf_reach l s"
  shows "written (flush (flush (flush (flush s)))) = l \<and> \<not> wb_attached (flush (flush (flush (flush s))))"
  using reach_flushes [OF assms] .

theorem everything_gets_out_witness: "\<exists>s. wb_attached s \<and> written (flush (flush (flush (flush s)))) = [1, 2, 3]"
  using wbuf_reach_example everything_gets_out by blast

text \<open>Closing a connection invalidates the buffer, and \<open>init\<close> of the next connection then takes it for a new one
  and does not empty it: what the old peer did not get is sent to the new one.\<close>

theorem reopened_connection_gets_old_bytes:
  assumes "wbuf_reach l s" and "\<not> wb_second s" and "wbuf_init env (invalidate s) = Some (Inr (), s')"
    and "m_len (wb_curr s) < 2 ^ 62" and "m_len (wb_next s) < 2 ^ 62"
  shows "\<exists>rest. l = written s @ rest \<and> written (flush (flush (flush (flush s')))) = written s @ rest"
proof -
  obtain cs ds where i: "wbuf_inv s cs ds" "l = written s @ pend cs @ pend ds" using wbuf_reach_inv [OF assms(1)] by blast
  let ?n = INITIAL_WBUF_SIZE
  have b: "buf_ok (wb_cells s) (wb_dbf0 s) cs" "buf_ok (wb_cells s) (wb_dbf1 s) ds" "m_ptr (wb_dbf0 s) \<noteq> m_ptr (wb_dbf1 s)"
    using i(1) assms(2) by (simp_all add: wbuf_inv_def wb_curr_def wb_next_def)
  have size: "?n + m_len (wb_dbf0 s) \<le> 2 ^ 63" "?n + m_len (wb_dbf1 s) \<le> 2 ^ 63"
    using assms(2,4,5) by (simp_all add: INITIAL_WBUF_SIZE_def wb_curr_def wb_next_def)
  obtain n0 pb0 c0 n1 pb1 c1 where r: "pbuf_reserve (we_alloc_ok env) (we_junk env) ?n (wb_dbf0 s) (wb_cells s) = Some (Inr n0, pb0, c0)"
    "pbuf_reserve (we_alloc_ok env) (we_junk env) ?n (wb_dbf1 s) c0 = Some (Inr n1, pb1, c1)"
    "s' = update_serial ((invalidate s)\<lparr>wb_dbf0 := pb0, wb_dbf1 := pb1, wb_cells := c1, wb_second := False\<rparr>)\<lparr>wb_last_wcmd := WBUF_CMD_NUM\<rparr>"
    using assms(3) by (auto simp: wbuf_init_def invalidate_def initialized_def Let_def split: option.splits sum.splits if_splits)
  note k0 = reserve_buf [OF b(1) size(1) r(1)]
  obtain x0 x1 where x: "m_ptr (wb_dbf0 s) = Some x0" "x0 < fresh (wb_cells s)" "m_ptr (wb_dbf1 s) = Some x1" "x1 < fresh (wb_cells s)"
    using b by (auto simp: buf_ok_def)
  have b1: "buf_ok c0 (wb_dbf1 s) ds" "m_ptr pb0 \<noteq> m_ptr (wb_dbf1 s)"
    using buf_ok_other [OF b(2), of c0] k0 x b(3) by auto
  note k1 = reserve_buf [OF b1(1) size(2) r(2)]
  obtain y where y: "m_ptr pb0 = Some y" "y < fresh c0" using k0 by (auto simp: buf_ok_def)
  have "buf_ok c1 pb0 cs" "m_ptr pb0 \<noteq> m_ptr pb1" using buf_ok_other [of c0 pb0 cs c1] k0 k1 y b1(2) by auto
  then have "buffers_ok s' cs ds" using k1 by (simp add: r(3) buffers_ok_def update_serial_def split_beta wb_curr_def wb_next_def)
  moreover have "written s' = written s" by (simp add: r(3) written_def invalidate_def)
  ultimately show ?thesis using flush_all [of s' cs ds] i(2) by simp
qed

lemma reserve_succeeds:
  assumes "buf_ok c pb cs" and "sz + m_len pb \<le> 2 ^ 63"
  shows "\<exists>pb' c'. pbuf_reserve True junk sz pb c = Some (Inr 0, pb', c')"
proof (cases "sz \<le> pbuf_available pb")
  case True
  then show ?thesis by (simp add: reserve_enough)
next
  case False
  obtain a where "m_ptr pb = Some a" "cnt c a = Some 1" "a < fresh c" "pbuf_inv pb" using assms(1) by (auto simp: buf_ok_def)
  from reserve_grow [OF _ this assms(2), of junk] False show ?thesis by (meson not_le)
qed

lemma reopen_example:
  assumes "wbuf_reach l s" and "\<not> wb_second s" and "m_len (wb_curr s) < 2 ^ 62" and "m_len (wb_next s) < 2 ^ 62"
  shows "\<exists>s'. wbuf_init wenv_example (invalidate s) = Some (Inr (), s')"
proof -
  obtain cs ds where i: "wbuf_inv s cs ds" using wbuf_reach_inv [OF assms(1)] by blast
  then have b: "buf_ok (wb_cells s) (wb_dbf0 s) cs" "buf_ok (wb_cells s) (wb_dbf1 s) ds" "m_ptr (wb_dbf0 s) \<noteq> m_ptr (wb_dbf1 s)"
    using assms(2) by (simp_all add: wbuf_inv_def wb_curr_def wb_next_def)
  have size: "INITIAL_WBUF_SIZE + m_len (wb_dbf0 s) \<le> 2 ^ 63" "INITIAL_WBUF_SIZE + m_len (wb_dbf1 s) \<le> 2 ^ 63"
    using assms(2-4) by (simp_all add: INITIAL_WBUF_SIZE_def wb_curr_def wb_next_def)
  obtain pb c where r: "pbuf_reserve True (\<lambda>_. 7) INITIAL_WBUF_SIZE (wb_dbf0 s) (wb_cells s) = Some (Inr 0, pb, c)"
    using reserve_succeeds [OF b(1) size(1)] by blast
  obtain x where x: "m_ptr (wb_dbf1 s) = Some x" "x < fresh (wb_cells s)" using b(2) by (auto simp: buf_ok_def)
  have "buf_ok c (wb_dbf1 s) ds" using buf_ok_other [OF b(2), of c] reserve_buf [OF b(1) size(1) r] x b(3) by auto
  then obtain pb1 c1 where "pbuf_reserve True (\<lambda>_. 7) INITIAL_WBUF_SIZE (wb_dbf1 s) c = Some (Inr 0, pb1, c1)"
    using reserve_succeeds size(2) by blast
  then show ?thesis using r by (simp add: wbuf_init_def invalidate_def initialized_def wenv_example_def Let_def)
qed

theorem reopened_connection_gets_old_bytes_witness:
  "\<exists>s s' rest. [1, 2, 3] = written s @ rest \<and> written (flush (flush (flush (flush s')))) = written s @ rest"
proof -
  obtain s where s: "wbuf_init wenv_example wbuf_new = Some (Inr (), s)" "m_limit (wb_dbf1 s) = 16384" "m_len (wb_next s) = 0"
    "wb_dbf1 s = wb_next s" "wb_last_wcmd s = WBUF_CMD_NUM" "\<not> wb_second s" "m_len (wb_curr s) = 0"
    using init_example by blast
  from send_example [of s] s obtain s1 where s1: "sendraw wenv_example (ArgRaw [1, 2, 3]) s = Some (Inr 19, s1)" "\<not> wb_second s1" by auto
  from wbuf_reach.send [OF wbuf_reach.start [OF s(1)] _ _ _ s1(1), of "[1, 2, 3]"] s(3) have r: "wbuf_reach [1, 2, 3] s1"
    by (simp add: wenv_example_def)
  have l: "m_len (wb_next s1) = 20 \<and> wb_curr s1 = wb_curr s" using s1(1) s(2-5)
    by (auto simp: sendraw_def wenv_example_def arg_append_def cmd_defs reserve_enough pbuf_available_def pbuf_push_def
        raw_put_def pbuf_commit_def Let_def write_attach_def update_wcmd_def)
  then have l': "m_len (wb_curr s1) < 2 ^ 62" "m_len (wb_next s1) < 2 ^ 62" using s(7) by simp_all
  obtain s' where "wbuf_init wenv_example (invalidate s1) = Some (Inr (), s')" using reopen_example [OF r s1(2) l'] by blast
  from reopened_connection_gets_old_bytes [OF r s1(2) this l'] show ?thesis by blast
qed

lemma iov_sent_all: "sum_list (map (\<lambda>i. unat (GET_64 m (w + 16 + 16 * i + 8))) [i ..< sz]) \<le> wb \<Longrightarrow> iov_sent w i sz wb m = m"
proof (induction w i sz wb m rule: iov_sent.induct)
  case (1 w i sz wb m)
  show ?case
  proof (cases "i < sz")
    case True
    have "[i ..< sz] = i # [i + 1 ..< sz]" using True by (simp add: upt_conv_Cons)
    then show ?thesis using 1 True by (subst iov_sent.simps) (simp add: Let_def)
  qed (simp add: iov_sent.simps)
qed

lemma shrink_nothing: "m_len pb \<noteq> 0 \<Longrightarrow> shrink_used_buffer_size 0 pb = pb"
  by (cases pb) (simp add: shrink_used_buffer_size_def mem_copy_def fun_eq_iff)

text \<open>C37: \<open>sent\<close> of an \<open>iovec\<close> command never moves \<open>pos\<close> past the last piece: when the kernel takes all of them the
  command is not finished, and every further run hands over the same pieces again.\<close>

theorem iovecs_are_sent_again:
  assumes "m_mem (wb_curr s) 0 = WBUF_CMD_IOVEC" and "m_len (wb_curr s) \<noteq> 0"
    and "unat (GET_64 (m_mem (wb_curr s)) 9) < unat (GET_64 (m_mem (wb_curr s)) 1)"
    and "offered WBUF_CMD_IOVEC 1 (m_mem (wb_curr s)) \<le> r"
  shows "\<exists>x. write_command lk (Wrote r # rs) s = (r_keep, s\<lparr>wb_log := wb_log s @ [x]\<rparr>)
    \<and> x = Pieces (iov_pieces (m_mem (wb_curr s)) 1 (unat (GET_64 (m_mem (wb_curr s)) 9)) (unat (GET_64 (m_mem (wb_curr s)) 1)))
        (offered WBUF_CMD_IOVEC 1 (m_mem (wb_curr s)))"
proof -
  let ?m = "m_mem (wb_curr s)" and ?c = "wb_curr s"
  have i: "iov_sent 1 (unat (GET_64 ?m 9)) (unat (GET_64 ?m 1)) (offered WBUF_CMD_IOVEC 1 ?m) ?m = ?m"
    by (rule iov_sent_all) (simp add: offered_def iov_pieces_def cmd_defs comp_def)
  have "min r (offered WBUF_CMD_IOVEC 1 ?m) = offered WBUF_CMD_IOVEC 1 ?m" using assms(4) by simp
  then have "write_loop 0 (m_len ?c) (Wrote r # rs) ?m [] =
      (Inr 0, ?m, [Pieces (iov_pieces ?m 1 (unat (GET_64 ?m 9)) (unat (GET_64 ?m 1))) (offered WBUF_CMD_IOVEC 1 ?m)])"
    using assms(2,3) i by (simp add: write_loop_Wrote assms(1) write_one_def iov_write_def Let_def cmd_defs flip: One_nat_def)
  moreover have "set_curr ?c (s\<lparr>wb_log := l\<rparr>) = s\<lparr>wb_log := l\<rparr>" for l by (cases s) (simp add: set_curr_def wb_curr_def)
  ultimately show ?thesis using assms(2) by (simp add: write_command_def pbuf_last_def Let_def shrink_nothing)
qed

theorem iovecs_are_sent_again_witness:
  "\<exists>s x. write_command True [Wrote 100] s = (r_keep, s\<lparr>wb_log := wb_log s @ [x]\<rparr>) \<and> wb_log s = []"
proof -
  let ?m = "(SET_64 (SET_64 (\<lambda>_. 0) 1 1) 25 5)(0 := WBUF_CMD_IOVEC)"
  let ?s = "wbuf_new\<lparr>wb_dbf0 := pbuf_empty\<lparr>m_mem := ?m, m_len := 33\<rparr>\<rparr>"
  have g: "GET_64 ?m 9 = 0" "GET_64 ?m 1 = 1" "GET_64 ?m 25 = 5"
    by (simp_all add: SET_64_def SET_32_def GET_64_def GET_32_def)
  have "m_mem (wb_curr ?s) 0 = WBUF_CMD_IOVEC" "m_len (wb_curr ?s) \<noteq> 0" "unat (GET_64 (m_mem (wb_curr ?s)) 9) < unat (GET_64 (m_mem (wb_curr ?s)) 1)"
    "offered WBUF_CMD_IOVEC 1 (m_mem (wb_curr ?s)) \<le> 100"
    using g by (simp_all add: wb_curr_def wbuf_new_def offered_def cmd_defs iov_pieces_def)
  from iovecs_are_sent_again [OF this, of True "[]"] show ?thesis by (intro exI [of _ ?s]) (simp add: wbuf_new_def)
qed

text \<open>The room that is asked for does not count the byte of the command.  When a new command fits exactly, the
  last byte of it is written behind the memory of the buffer.\<close>

theorem exact_fit_overruns:
  assumes "we_lock_ok env" and "arg_append (wb_last_wcmd s) (ArgRaw b) = False" and "m_len (wb_next s) + 16 + length b = m_limit (wb_next s)"
  shows "sendraw env (ArgRaw b) s = None"
  using assms by (simp add: sendraw_def reserve_enough pbuf_available_def Let_def raw_put_def pbuf_push_def)

theorem exact_fit_overruns_witness: "\<exists>s. sendraw wenv_example (ArgRaw (replicate 240 0)) s = None"
proof -
  let ?s = "wbuf_new\<lparr>wb_dbf1 := pbuf_empty\<lparr>m_limit := 256\<rparr>\<rparr>"
  have "we_lock_ok wenv_example" "arg_append (wb_last_wcmd ?s) (ArgRaw (replicate 240 0)) = False"
    "m_len (wb_next ?s) + 16 + length (replicate 240 (0::U8)) = m_limit (wb_next ?s)"
    by (simp_all add: wenv_example_def arg_append_def wbuf_new_def cmd_defs wb_next_def pbuf_empty_def)
  from exact_fit_overruns [OF this] show ?thesis by blast
qed

end
