(* ===== verification/Socket.thy ===== *)
theory Socket
  imports Wbuf
begin

text \<open>
  \<^verbatim>\<open>src/src/handler/socket.h\<close>, \<^verbatim>\<open>socket.hpp\<close>, \<^verbatim>\<open>handshake.h\<close>, \<^verbatim>\<open>wpoller.h\<close> and the event loop around them
  (\<^verbatim>\<open>loop.hpp\<close>, \<^verbatim>\<open>task.hpp\<close>): the life of a socket.  The state moves from \<open>CLOSED\<close> over \<open>HANDSHAKE\<close> and
  \<open>WAITACCEPT\<close> to \<open>ESTABLISH\<close> and back by compare-and-swap, every move but the one to \<open>HANDSHAKE\<close> emits an event.  The
  record holds the socket with its write buffer and what the rest of the program knows of it: the table of
  handshakes, the tables of handlers and write buffers by descriptor, the tasks for it, the events it emitted, and the
  descriptors the system has open for it.

  What the system, the poller and the parser answer is the record \<open>senv\<close>.  \<open>None\<close> is an access before the tables
  (they are indexed by the descriptor, also when there is none).  A function is one step here; \<open>SockRace\<close> takes \<open>state_change\<close>
  apart, for the races of its compare-and-swap with the events of other threads.

  The lemmas: the events of every connection come in order; a descriptor is closed once only; and where it goes wrong: an
  open that fails reaches before the table of write buffers, a handshake that times out leaks its descriptor.
\<close>

section \<open>State\<close>

datatype sstate = HANDSHAKE | WAITACCEPT | ESTABLISH | RECVDATA | CLOSED

datatype skind = K_NONE | K_STREAM | K_DGRAM | K_RAW

record sevent =
  ev_readable :: bool
  ev_closed :: bool

datatype io_task = Write_again | Read_again sevent | Close

record sock =
  sk_fd :: "nat option"
  sk_state :: sstate
  sk_kind :: skind
  sk_finalized :: bool
  sk_initialized :: bool
  sk_closing :: bool
  sk_closed :: bool
  sk_server :: bool
  sk_raw :: bool
  sk_skip_accept :: bool
  sk_dgram :: bool
  sk_wbuf :: wbuf
  sk_hs :: "nat \<rightharpoonup> U64"
  sk_wp :: "nat \<Rightarrow> bool"
  sk_hl :: "nat \<Rightarrow> bool"
  sk_reg :: "nat \<Rightarrow> bool"
  sk_que :: "io_task list"
  sk_os :: "nat set"
  sk_events :: "sstate list"

text \<open>
  \<open>se_hs\<close> is the result of the handshake of the transport and \<open>se_read\<close> that of \<open>read_stream\<close> or \<open>read_dgram\<close>;
  \<open>se_wp_free\<close> and \<open>se_slot_free\<close> whether the tables have no entry of another socket at the descriptor, \<open>se_same_poller\<close>
  whether the thread that closes has the poller of the socket.
\<close>

datatype hsres = Hs_ok | Hs_send | Hs_again | Hs_fail

record senv =
  se_sock :: "nat option"
  se_connect_ok :: bool
  se_wenv :: wenv
  se_hs_ok :: bool
  se_fcntl_ok :: bool
  se_slot_free :: bool
  se_attach_ok :: bool
  se_wp_free :: bool
  se_wp_attach_ok :: bool
  se_same_poller :: bool
  se_hs :: hsres
  se_read :: hresult
  se_write :: "sysres list"
  se_now :: U64
  se_timeout :: U64

definition sock_new :: sock where
  "sock_new = \<lparr>sk_fd = None, sk_state = CLOSED, sk_kind = K_NONE, sk_finalized = False, sk_initialized = False, sk_closing = False,
     sk_closed = False, sk_server = False, sk_raw = False, sk_skip_accept = False, sk_dgram = False, sk_wbuf = wbuf_new,
     sk_hs = Map.empty, sk_wp = (\<lambda>_. False), sk_hl = (\<lambda>_. False), sk_reg = (\<lambda>_. False), sk_que = [], sk_os = {}, sk_events = []\<rparr>"

definition sock_valid :: "sock \<Rightarrow> bool" where
  "sock_valid s \<longleftrightarrow> sk_state s = WAITACCEPT \<or> sk_state s = ESTABLISH \<or> sk_state s = RECVDATA"

definition authorized :: "sock \<Rightarrow> bool" where
  "authorized s \<longleftrightarrow> sk_state s = ESTABLISH"

definition skip_server_accept :: "sock \<Rightarrow> bool" where
  "skip_server_accept s \<longleftrightarrow> sk_dgram s \<or> sk_raw s \<or> sk_skip_accept s"

definition set_kind :: "sock \<Rightarrow> sock" where
  "set_kind s = s\<lparr>sk_kind := (if sk_raw s then K_RAW else if sk_dgram s then K_DGRAM else K_STREAM)\<rparr>"

definition sk_emit :: "sstate \<Rightarrow> sock \<Rightarrow> sock" where
  "sk_emit st s = s\<lparr>sk_events := sk_events s @ [st]\<rparr>"

definition push_io :: "io_task \<Rightarrow> sock \<Rightarrow> sock" where
  "push_io k s = s\<lparr>sk_que := sk_que s @ [k]\<rparr>"

section \<open>Closing by the user\<close>

text \<open>\<open>close\<close>; \<open>detach\<close> fails where the descriptor is not with the poller of the calling thread.\<close>

definition sock_close :: "bool \<Rightarrow> senv \<Rightarrow> sock \<Rightarrow> sock" where
  "sock_close finalize env s =
     (let s = s\<lparr>sk_finalized := sk_finalized s \<or> finalize, sk_closing := True\<rparr> in
      case sk_fd s of None \<Rightarrow> s
      | Some fd \<Rightarrow>
          if \<not> (se_same_poller env \<and> sk_reg s fd) then s
          else
            (let s = s\<lparr>sk_reg := (sk_reg s)(fd := False)\<rparr> in
             if \<not> sk_closed s then push_io Close (s\<lparr>sk_closed := True\<rparr>) else s))"

section \<open>The write poller's table\<close>

definition set_wbuf :: "senv \<Rightarrow> nat option \<Rightarrow> sock \<Rightarrow> ((nbr_error + unit) \<times> sock) option" where
  "set_wbuf env fd s =
     (case fd of None \<Rightarrow> None
      | Some fd \<Rightarrow>
          if \<not> sk_wp s fd \<and> se_wp_free env then
            Some (if se_wp_attach_ok env then Inr () else Inl ESYSCALL, s\<lparr>sk_wp := (sk_wp s)(fd := True)\<rparr>)
          else Some (Inl EALREADY, s))"

definition reset_wbuf :: "nat option \<Rightarrow> sock \<Rightarrow> sock option" where
  "reset_wbuf fd s = (case fd of None \<Rightarrow> None | Some fd \<Rightarrow> Some (s\<lparr>sk_wp := (sk_wp s)(fd := False)\<rparr>))"

section \<open>The states\<close>

definition grant :: "sock \<Rightarrow> bool \<times> sock" where
  "grant s = (if sk_state s = WAITACCEPT then (True, sk_emit ESTABLISH (s\<lparr>sk_state := ESTABLISH\<rparr>)) else (False, s))"

definition accept_enter :: "senv \<Rightarrow> sock \<Rightarrow> (bool \<times> sock) option" where
  "accept_enter env s =
     (let s = s\<lparr>sk_wbuf := write_detach (update_serial (sk_wbuf s))\<rparr> in
      case set_wbuf env (sk_fd s) s of
        None \<Rightarrow> None
      | Some (Inl e, s) \<Rightarrow> Some (False, sock_close True env s)
      | Some (Inr _, s) \<Rightarrow> Some (True, sk_emit WAITACCEPT s))"

definition enter_waitaccept :: "senv \<Rightarrow> sock \<Rightarrow> sock option" where
  "enter_waitaccept env s =
     (case accept_enter env s of
        None \<Rightarrow> None
      | Some (ok, s) \<Rightarrow> Some (if ok \<and> skip_server_accept s then snd (grant s) else s))"

definition enter_closed :: "sock \<Rightarrow> sock option" where
  "enter_closed s =
     (case reset_wbuf (sk_fd s) (s\<lparr>sk_wbuf := invalidate (sk_wbuf s)\<rparr>) of
        None \<Rightarrow> None
      | Some s \<Rightarrow> Some (sk_emit CLOSED (if sk_server s then s\<lparr>sk_finalized := True, sk_closing := True\<rparr> else s)))"

text \<open>\<open>state_change\<close>: the compare-and-swap, and what follows when it succeeds.\<close>

definition state_cas :: "sstate \<Rightarrow> sstate \<Rightarrow> sock \<Rightarrow> bool \<times> sock" where
  "state_cas new_state old_state s = (if sk_state s = old_state then (True, s\<lparr>sk_state := new_state\<rparr>) else (False, s))"

definition state_enter :: "senv \<Rightarrow> sstate \<Rightarrow> sock \<Rightarrow> (bool \<times> sock) option" where
  "state_enter env new_state s =
     (case new_state of
        HANDSHAKE \<Rightarrow> if sk_closing s then Some (False, s) else Some (True, s\<lparr>sk_initialized := False\<rparr>)
      | WAITACCEPT \<Rightarrow> map_option (Pair True) (enter_waitaccept env s)
      | ESTABLISH \<Rightarrow> Some (True, sk_emit ESTABLISH s)
      | CLOSED \<Rightarrow> map_option (Pair True) (enter_closed s)
      | RECVDATA \<Rightarrow> Some (True, s))"

definition state_change :: "senv \<Rightarrow> sstate \<Rightarrow> sstate \<Rightarrow> sock \<Rightarrow> (bool \<times> sock) option" where
  "state_change env new_state old_state s =
     (case state_cas new_state old_state s of
        (False, s) \<Rightarrow> Some (False, s)
      | (True, s) \<Rightarrow> state_enter env new_state s)"

lemma enter_waitaccept_eq:
  "enter_waitaccept env s =
     (let s = s\<lparr>sk_wbuf := write_detach (update_serial (sk_wbuf s))\<rparr> in
      case set_wbuf env (sk_fd s) s of
        None \<Rightarrow> None
      | Some (Inl e, s) \<Rightarrow> Some (sock_close True env s)
      | Some (Inr _, s) \<Rightarrow> (let s = sk_emit WAITACCEPT s in Some (if skip_server_accept s then snd (grant s) else s)))"
  by (simp add: enter_waitaccept_def accept_enter_def Let_def split: option.splits sum.splits)

lemma state_change_eq:
  "state_change env new_state old_state s =
     (if sk_state s \<noteq> old_state then Some (False, s)
      else
        (let s = s\<lparr>sk_state := new_state\<rparr> in
         case new_state of
           HANDSHAKE \<Rightarrow> if sk_closing s then Some (False, s) else Some (True, s\<lparr>sk_initialized := False\<rparr>)
         | WAITACCEPT \<Rightarrow> map_option (Pair True) (enter_waitaccept env s)
         | ESTABLISH \<Rightarrow> Some (True, sk_emit ESTABLISH s)
         | CLOSED \<Rightarrow> map_option (Pair True) (enter_closed s)
         | RECVDATA \<Rightarrow> Some (True, s)))"
  by (cases new_state) (simp_all add: state_change_def state_cas_def state_enter_def Let_def)

text \<open>\<open>operator ()\<close>: the handshake of descriptor \<open>fd\<close> is over.\<close>

definition handshake_done :: "senv \<Rightarrow> nat \<Rightarrow> bool \<Rightarrow> sock \<Rightarrow> ((nbr_error + unit) \<times> sock) option" where
  "handshake_done env fd success s =
     (if sk_fd s \<noteq> Some fd then Some (Inl EINVAL, s)
      else case sk_state s of
        HANDSHAKE \<Rightarrow> map_option (\<lambda>(_, s). (Inr (), s)) (state_change env (if success then WAITACCEPT else CLOSED) HANDSHAKE s)
      | CLOSED \<Rightarrow> Some (Inr (), s)
      | _ \<Rightarrow> Some (Inl EINVAL, s))"

section \<open>The table of handshakes\<close>

definition start_handshake :: "senv \<Rightarrow> nat \<Rightarrow> sock \<Rightarrow> (nbr_error + unit) \<times> sock" where
  "start_handshake env fd s =
     (if se_hs_ok env then (Inr (), s\<lparr>sk_hs := (sk_hs s)(fd \<mapsto> se_now env + se_timeout env)\<rparr>) else (Inl EEXPIRE, s))"

definition hs_erase :: "nat option \<Rightarrow> sock \<Rightarrow> bool \<times> sock" where
  "hs_erase fd s =
     (case fd of None \<Rightarrow> (False, s)
      | Some fd \<Rightarrow> (sk_hs s fd \<noteq> None, s\<lparr>sk_hs := (sk_hs s)(fd := None)\<rparr>))"

text \<open>\<open>timeout_iterator\<close> at the entry of \<open>fd\<close>.\<close>

definition hs_timeout :: "senv \<Rightarrow> nat \<Rightarrow> sock \<Rightarrow> sock option" where
  "hs_timeout env fd s =
     (case sk_hs s fd of None \<Rightarrow> Some s
      | Some limit \<Rightarrow>
          if limit < se_now env then map_option snd (handshake_done env fd False (snd (hs_erase (Some fd) s)))
          else Some s)"

section \<open>The loop's table of handlers\<close>

definition sk_on_open :: "sock \<Rightarrow> nat option \<times> sock" where
  "sk_on_open s = (let s = set_kind s in (sk_fd s, push_io (Read_again \<lparr>ev_readable = False, ev_closed = False\<rparr>) s))"

definition loop_open :: "senv \<Rightarrow> sock \<Rightarrow> (nbr_error + unit) \<times> sock" where
  "loop_open env s =
     (case sk_on_open s of
        (None, s) \<Rightarrow> (Inl EINVAL, s)
      | (Some fd, s) \<Rightarrow>
          if \<not> se_fcntl_ok env then (Inl ESYSCALL, s)
          else if \<not> se_slot_free env \<or> sk_hl s fd then (Inl EALREADY, s\<lparr>sk_hl := (sk_hl s)(fd := False)\<rparr>)
          else if se_attach_ok env then (Inr (), s\<lparr>sk_hl := (sk_hl s)(fd := True), sk_reg := (sk_reg s)(fd := True)\<rparr>)
          else (Inl ESYSCALL, s))"

text \<open>\<open>on_close\<close>; to close a descriptor that is not open is \<open>None\<close>.\<close>

definition os_close :: "nat \<Rightarrow> sock \<Rightarrow> sock option" where
  "os_close fd s = (if fd \<in> sk_os s then Some (s\<lparr>sk_os := sk_os s - {fd}\<rparr>) else None)"

definition sk_on_close :: "senv \<Rightarrow> sock \<Rightarrow> sock option" where
  "sk_on_close env s =
     (let s = snd (hs_erase (sk_fd s) s) in
      if sk_state s = HANDSHAKE \<or> sk_state s = ESTABLISH \<or> sk_state s = WAITACCEPT then
        (case state_change env CLOSED (sk_state s) s of
           None \<Rightarrow> None
         | Some (_, s) \<Rightarrow>
             (case sk_fd s of None \<Rightarrow> Some s
              | Some fd \<Rightarrow> os_close fd (s\<lparr>sk_fd := None\<rparr>)))
      else Some s)"

text \<open>\<open>loop::close\<close>; the poller of a descriptor without handler is the null pointer.\<close>

definition loop_close :: "senv \<Rightarrow> sock \<Rightarrow> sock option" where
  "loop_close env s =
     (case sk_fd s of None \<Rightarrow> Some s
      | Some fd \<Rightarrow>
          if \<not> sk_hl s fd then None
          else sk_on_close env (s\<lparr>sk_reg := (sk_reg s)(fd := False), sk_hl := (sk_hl s)(fd := False)\<rparr>))"

section \<open>Opening\<close>

definition fail_open :: "senv \<Rightarrow> sock \<Rightarrow> ((nbr_error + nat) \<times> sock) option" where
  "fail_open env s =
     (let s = snd (hs_erase (sk_fd s) s) in
      case (case sk_fd s of None \<Rightarrow> Some s | Some fd \<Rightarrow> os_close fd (s\<lparr>sk_fd := None\<rparr>)) of
        None \<Rightarrow> None
      | Some s \<Rightarrow> map_option (\<lambda>(_, s). (Inl ESYSCALL, s)) (state_change env CLOSED HANDSHAKE s))"

definition open_client_conn :: "senv \<Rightarrow> sock \<Rightarrow> ((nbr_error + nat) \<times> sock) option" where
  "open_client_conn env s =
     (case state_change env HANDSHAKE CLOSED (s\<lparr>sk_closing := False, sk_closed := False\<rparr>) of
        None \<Rightarrow> None
      | Some (False, s) \<Rightarrow> Some (Inl EALREADY, s)
      | Some (True, s) \<Rightarrow>
          (case se_sock env of
             None \<Rightarrow> fail_open env (s\<lparr>sk_fd := None\<rparr>)
           | Some fd \<Rightarrow>
               (let s = s\<lparr>sk_fd := Some fd, sk_os := insert fd (sk_os s)\<rparr> in
                if \<not> sk_dgram s \<and> \<not> se_connect_ok env then fail_open env s
                else
                  (case wbuf_init (se_wenv env) (sk_wbuf s) of
                     None \<Rightarrow> None
                   | Some (Inl e, wb) \<Rightarrow> fail_open env (s\<lparr>sk_wbuf := wb\<rparr>)
                   | Some (Inr _, wb) \<Rightarrow>
                       (case start_handshake env fd (s\<lparr>sk_wbuf := wb\<rparr>) of
                          (Inl e, s) \<Rightarrow> fail_open env s
                        | (Inr _, s) \<Rightarrow>
                            (case loop_open env s of
                               (Inl e, s) \<Rightarrow> fail_open env s
                             | (Inr _, s) \<Rightarrow> Some (Inr fd, s)))))))"

text \<open>\<open>configure\<close> of an accepted connection, and \<open>open_server_conn\<close>; the entry of a handshake without descriptor is left out.\<close>

definition configure_server :: "nat \<Rightarrow> bool \<Rightarrow> sock \<Rightarrow> sock" where
  "configure_server fd dgram s = s\<lparr>sk_fd := Some fd, sk_server := True, sk_dgram := dgram, sk_os := insert fd (sk_os s)\<rparr>"

definition open_server_conn :: "senv \<Rightarrow> sock \<Rightarrow> ((nbr_error + unit) \<times> sock) option" where
  "open_server_conn env s =
     (case state_change env HANDSHAKE CLOSED (s\<lparr>sk_closing := False, sk_closed := False\<rparr>) of
        None \<Rightarrow> None
      | Some (False, s) \<Rightarrow> Some (Inl EALREADY, s)
      | Some (True, s) \<Rightarrow>
          (case wbuf_init (se_wenv env) (sk_wbuf s) of
             None \<Rightarrow> None
           | Some (Inl e, wb) \<Rightarrow> Some (Inl e, s\<lparr>sk_wbuf := wb\<rparr>)
           | Some (Inr _, wb) \<Rightarrow>
               (let s = s\<lparr>sk_wbuf := wb, sk_raw := False, sk_skip_accept := False\<rparr> in
                case (case sk_fd s of Some fd \<Rightarrow> start_handshake env fd s | None \<Rightarrow> (if se_hs_ok env then Inr () else Inl EEXPIRE, s)) of
                  (Inl e, s) \<Rightarrow> Some (Inl e, s)
                | (Inr _, s) \<Rightarrow> Some (loop_open env s))))"

definition open_datagram_server :: "senv \<Rightarrow> sock \<Rightarrow> ((nbr_error + unit) \<times> sock) option" where
  "open_datagram_server env s =
     (case state_change env WAITACCEPT CLOSED s of
        None \<Rightarrow> None
      | Some (False, s) \<Rightarrow> Some (Inl EALREADY, s)
      | Some (True, s) \<Rightarrow>
          (case loop_open env s of
             (Inr _, s) \<Rightarrow> Some (Inr (), s)
           | (Inl e, s) \<Rightarrow>
               (case sk_fd s of None \<Rightarrow> Some (Inl ESYSCALL, s)
                | Some fd \<Rightarrow> map_option (Pair (Inl ESYSCALL)) (os_close fd (s\<lparr>sk_fd := None\<rparr>)))))"

definition sock_open :: "senv \<Rightarrow> sock \<Rightarrow> ((nbr_error + unit) \<times> sock) option" where
  "sock_open env s =
     (let s = (if sk_kind s = K_NONE then set_kind s else s) in
      if sk_server s then
        (case (if sk_kind s \<noteq> K_DGRAM then open_server_conn env s else open_datagram_server env s) of
           None \<Rightarrow> None
         | Some (Inl e, s) \<Rightarrow> Some (if e = EALREADY then Inr () else Inl e, s)
         | Some (Inr _, s) \<Rightarrow> Some (Inr (), s))
      else Some (Inr (), s))"

section \<open>Reading and writing\<close>

definition sock_read :: "senv \<Rightarrow> sock \<Rightarrow> hresult \<times> sock" where
  "sock_read env s =
     (case sk_kind s of
        K_STREAM \<Rightarrow> (se_read env, s)
      | K_DGRAM \<Rightarrow> (se_read env, s)
      | K_RAW \<Rightarrow> (r_nop, sk_emit RECVDATA s)
      | K_NONE \<Rightarrow> (r_destroy, s))"

definition read_ready :: "senv \<Rightarrow> sevent \<Rightarrow> sock \<Rightarrow> hresult \<times> sock" where
  "read_ready env ev s = (if ev_closed ev then (r_destroy, s) else sock_read env s)"

definition on_read_impl :: "senv \<Rightarrow> sevent \<Rightarrow> sock \<Rightarrow> (hresult \<times> sock) option" where
  "on_read_impl env ev s =
     (case sk_state s of
        HANDSHAKE \<Rightarrow>
          if ev_closed ev then Some (r_destroy, s)
          else
            (case se_hs env of
               Hs_send \<Rightarrow> Some (r_write_again, s)
             | Hs_again \<Rightarrow> Some (r_read_again, s)
             | Hs_fail \<Rightarrow>
                 (case hs_erase (sk_fd s) s of
                    (False, s) \<Rightarrow> Some (r_destroy, s)
                  | (True, s) \<Rightarrow> map_option (\<lambda>(_, s). (r_destroy, s)) (handshake_done env (the (sk_fd s)) False s))
             | Hs_ok \<Rightarrow>
                 (case hs_erase (sk_fd s) s of
                    (False, s) \<Rightarrow> Some (r_nop, s)
                  | (True, s) \<Rightarrow>
                      (case handshake_done env (the (sk_fd s)) True s of
                         None \<Rightarrow> None
                       | Some (_, s) \<Rightarrow> Some (if \<not> ev_readable ev then (r_read_again, s) else read_ready env ev s))))
      | WAITACCEPT \<Rightarrow> Some (read_ready env ev s)
      | ESTABLISH \<Rightarrow> Some (read_ready env ev s)
      | CLOSED \<Rightarrow> Some (r_nop, s)
      | RECVDATA \<Rightarrow> Some (r_destroy, s))"

definition sk_on_read :: "senv \<Rightarrow> sevent \<Rightarrow> sock \<Rightarrow> (hresult \<times> sock) option" where
  "sk_on_read env ev s =
     map_option (\<lambda>(r, s). (if sk_closing s then (if sk_closed s then r_nop else r_destroy) else r, s)) (on_read_impl env ev s)"

definition sk_on_write :: "senv \<Rightarrow> sock \<Rightarrow> hresult \<times> sock" where
  "sk_on_write env s =
     (if sk_closing s then (r_nop, s)
      else (case write_command (we_lock_ok (se_wenv env)) (se_write env) (sk_wbuf s) of (r, wb) \<Rightarrow> (r, s\<lparr>sk_wbuf := wb\<rparr>)))"

text \<open>What the loop makes of the result; going back to the poller does not change who has the descriptor.\<close>

definition loop_read :: "senv \<Rightarrow> sevent \<Rightarrow> sock \<Rightarrow> sock option" where
  "loop_read env ev s =
     map_option (\<lambda>(r, s). case r of r_keep \<Rightarrow> push_io (Read_again ev) s | r_destroy \<Rightarrow> push_io Close s | _ \<Rightarrow> s) (sk_on_read env ev s)"

definition loop_write :: "senv \<Rightarrow> sock \<Rightarrow> sock" where
  "loop_write env s =
     (case sk_on_write env s of (r, s) \<Rightarrow> (case r of r_keep \<Rightarrow> push_io Write_again s | r_destroy \<Rightarrow> push_io Close s | _ \<Rightarrow> s))"

text \<open>\<open>write_poller::write\<close> of an event for \<open>fd\<close>.\<close>

definition wpoller_write :: "senv \<Rightarrow> nat \<Rightarrow> sock \<Rightarrow> sock" where
  "wpoller_write env fd s =
     (if \<not> sk_wp s fd then s
      else if \<not> sk_hl s fd then s
      else
        (case write_command (we_lock_ok (se_wenv env)) (se_write env) (sk_wbuf s) of
           (r, wb) \<Rightarrow>
             (let s = s\<lparr>sk_wbuf := wb\<rparr> in
              case r of r_keep \<Rightarrow> push_io Write_again s | r_destroy \<Rightarrow> push_io Close s | _ \<Rightarrow> s)))"

definition run_io :: "senv \<Rightarrow> io_task \<Rightarrow> sock \<Rightarrow> sock option" where
  "run_io env k s =
     (case k of
        Write_again \<Rightarrow> Some (loop_write env s)
      | Read_again ev \<Rightarrow> loop_read env ev s
      | Close \<Rightarrow> loop_close env s)"

section \<open>Steps\<close>

datatype sk_op =
    Open_client | Open | User_close bool | Grant | Event nat sevent | Writable nat | Io | Hs_timeout nat

text \<open>A step of any thread: a call of the user, an event of a poller, the next task, the timer of the handshakes.\<close>

definition sk_step :: "senv \<Rightarrow> sk_op \<Rightarrow> sock \<Rightarrow> sock option" where
  "sk_step env op s =
     (case op of
        Open_client \<Rightarrow> map_option snd (open_client_conn env s)
      | Open \<Rightarrow> map_option snd (sock_open env s)
      | User_close finalize \<Rightarrow> Some (sock_close finalize env s)
      | Grant \<Rightarrow> Some (snd (grant s))
      | Event fd ev \<Rightarrow> if sk_hl s fd \<and> sk_reg s fd then loop_read env ev s else Some s
      | Writable fd \<Rightarrow> Some (wpoller_write env fd s)
      | Io \<Rightarrow> (case sk_que s of [] \<Rightarrow> Some s | k # ks \<Rightarrow> run_io env k (s\<lparr>sk_que := ks\<rparr>))
      | Hs_timeout fd \<Rightarrow> hs_timeout env fd s)"

text \<open>
  Any number of steps in surroundings that satisfy \<open>P\<close>; the system hands out descriptors that are not open.  A socket begins as a client's, with its
  options, or with the descriptor of a connection that was accepted.
\<close>

inductive sk_reach :: "(senv \<Rightarrow> bool) \<Rightarrow> sock \<Rightarrow> sock \<Rightarrow> bool" for P s0 where
  refl: "sk_reach P s0 s0"
| step: "sk_reach P s0 s \<Longrightarrow> P env \<Longrightarrow> (\<forall>fd. se_sock env = Some fd \<longrightarrow> fd \<notin> sk_os s) \<Longrightarrow> sk_step env op s = Some s' \<Longrightarrow> sk_reach P s0 s'"

definition sock_start :: "sock \<Rightarrow> bool" where
  "sock_start s \<longleftrightarrow> (\<exists>raw skip dgram. s = sock_new\<lparr>sk_raw := raw, sk_skip_accept := skip, sk_dgram := dgram\<rparr>)
     \<or> (\<exists>fd dgram. s = configure_server fd dgram sock_new)"

section \<open>The events of a connection\<close>

fun track_step :: "sstate option \<Rightarrow> sstate \<Rightarrow> sstate option" where
  "track_step (Some CLOSED) WAITACCEPT = Some WAITACCEPT"
| "track_step (Some WAITACCEPT) ESTABLISH = Some ESTABLISH"
| "track_step (Some st) RECVDATA = (if st = WAITACCEPT \<or> st = ESTABLISH then Some st else None)"
| "track_step (Some st) CLOSED = Some CLOSED"
| "track_step _ _ = None"

definition track :: "sstate list \<Rightarrow> sstate option" where
  "track es = foldl track_step (Some CLOSED) es"

lemma track_snoc [simp]: "track (es @ [e]) = track_step (track es) e" "track [] = Some CLOSED"
  by (simp_all add: track_def)

text \<open>The state as the events tell it.\<close>

definition seen :: "sstate \<Rightarrow> sstate" where
  "seen st = (if st = HANDSHAKE then CLOSED else st)"

definition wp_ok :: "senv \<Rightarrow> bool" where
  "wp_ok env \<longleftrightarrow> se_wp_free env \<and> se_wp_attach_ok env"

definition wp_inv :: "sock \<Rightarrow> bool" where
  "wp_inv s \<longleftrightarrow> (\<forall>fd. sk_wp s fd \<longrightarrow> sk_state s \<noteq> CLOSED \<and> sk_state s \<noteq> HANDSHAKE \<and> (sk_fd s = None \<or> sk_fd s = Some fd))"

definition ev_inv :: "sock \<Rightarrow> bool" where
  "ev_inv s \<longleftrightarrow> track (sk_events s) = Some (seen (sk_state s)) \<and> sk_state s \<noteq> RECVDATA \<and> wp_inv s"

definition os_inv :: "sock \<Rightarrow> bool" where
  "os_inv s \<longleftrightarrow> (\<forall>fd. sk_fd s = Some fd \<longrightarrow> fd \<in> sk_os s) \<and> sk_state s \<noteq> RECVDATA"

lemmas sk_inv_defs = ev_inv_def wp_inv_def os_inv_def seen_def

lemmas sk_simple_defs = set_kind_def sk_emit_def push_io_def Let_def

text \<open>What does not touch the state, the descriptors or the events.\<close>

definition same_core :: "sock \<Rightarrow> sock \<Rightarrow> bool" where
  "same_core s s' \<longleftrightarrow> sk_state s' = sk_state s \<and> sk_fd s' = sk_fd s \<and> sk_os s' = sk_os s \<and> sk_events s' = sk_events s \<and> sk_wp s' = sk_wp s"

lemma same_core_inv: "same_core s s' \<Longrightarrow> ev_inv s' = ev_inv s \<and> os_inv s' = os_inv s"
  by (simp add: same_core_def sk_inv_defs)

lemma same_core_simps [simp]:
  "same_core s (sock_close f env s)" "same_core s (snd (hs_erase fd s))" "same_core s (snd (start_handshake env n s))"
  "same_core s (snd (loop_open env s))" "same_core s (push_io k s)" "same_core s (snd (sk_on_write env s))" "same_core s s"
  "same_core s (s\<lparr>sk_wbuf := wb\<rparr>)" "same_core s (s\<lparr>sk_que := ks\<rparr>)" "same_core s (set_kind s)" "same_core s (s\<lparr>sk_reg := g, sk_hl := h\<rparr>)"
  "same_core s (s\<lparr>sk_closing := b, sk_closed := c\<rparr>)" "same_core s (s\<lparr>sk_wbuf := wb, sk_raw := b, sk_skip_accept := c\<rparr>)"
  by (auto simp: same_core_def sock_close_def hs_erase_def start_handshake_def loop_open_def sk_on_open_def sk_on_write_def sk_simple_defs
      split: option.splits prod.splits)

lemma same_core_trans: "same_core s s' \<Longrightarrow> same_core s' s'' \<Longrightarrow> same_core s s''"
  by (simp add: same_core_def)

lemma grant_inv:
  assumes "ev_inv s" shows "ev_inv (snd (grant s))"
  using assms by (auto simp: grant_def sk_inv_defs sk_emit_def)

lemma grant_os: "os_inv s \<Longrightarrow> os_inv (snd (grant s))"
  by (auto simp: grant_def sk_inv_defs sk_emit_def)

lemma state_change_ev:
  assumes "ev_inv s" "wp_ok env" "state_change env new old s = Some (r, s')"
    and "new = HANDSHAKE \<and> old = CLOSED \<or> new = WAITACCEPT \<and> (old = HANDSHAKE \<or> old = CLOSED) \<or> new = CLOSED \<and> old \<noteq> CLOSED"
  shows "ev_inv s'"
proof (cases "sk_state s = old")
  case True
  from assms(4) consider (h) "new = HANDSHAKE" "old = CLOSED" | (w) "new = WAITACCEPT" "old = HANDSHAKE \<or> old = CLOSED"
    | (c) "new = CLOSED" "old \<noteq> CLOSED" by blast
  then show ?thesis
  proof cases
    case h
    then show ?thesis using assms(1,3) True by (auto simp: state_change_eq sk_inv_defs Let_def split: if_splits)
  next
    case n: w
    let ?s = "s\<lparr>sk_state := WAITACCEPT, sk_wbuf := write_detach (update_serial (sk_wbuf s))\<rparr>"
    have w: "\<not> sk_wp s fd" for fd using assms(1) n(2) True by (auto simp: sk_inv_defs)
    then obtain fd where fd: "sk_fd s = Some fd"
      using assms(3) n True by (cases "sk_fd s") (auto simp: state_change_eq enter_waitaccept_eq set_wbuf_def)
    have t: "track (sk_events s) = Some CLOSED" using assms(1) n(2) True by (auto simp: sk_inv_defs)
    let ?s1 = "sk_emit WAITACCEPT (?s\<lparr>sk_wp := (sk_wp s)(fd := True)\<rparr>)"
    have "s' = (if skip_server_accept ?s1 then snd (grant ?s1) else ?s1)"
      using assms(2,3) n True fd w by (auto simp: state_change_eq enter_waitaccept_eq set_wbuf_def wp_ok_def Let_def)
    moreover have "ev_inv ?s1" using t w fd by (simp add: sk_inv_defs sk_emit_def)
    ultimately show ?thesis using grant_inv by auto
  next
    case n: c
    then obtain fd where fd: "sk_fd s = Some fd"
      using assms(3) True by (cases "sk_fd s") (auto simp: state_change_eq enter_closed_def reset_wbuf_def)
    then show ?thesis using assms(1,3) n True
      by (cases "sk_state s") (auto simp: state_change_eq enter_closed_def reset_wbuf_def sk_inv_defs sk_emit_def Let_def split: if_splits)
  qed
next
  case False
  then show ?thesis using assms(1,3) by (simp add: state_change_eq)
qed

lemma state_change_os:
  assumes "os_inv s" "state_change env new old s = Some (r, s')" "new \<noteq> RECVDATA"
  shows "os_inv s' \<and> sk_fd s' = sk_fd s \<and> sk_os s' = sk_os s"
  using assms
  by (cases new) (auto simp: state_change_eq enter_waitaccept_eq enter_closed_def set_wbuf_def reset_wbuf_def sock_close_def grant_def sk_inv_defs
      sk_simple_defs split: if_splits option.splits)

lemma handshake_done_ev:
  assumes "ev_inv s" "wp_ok env" "handshake_done env fd ok s = Some (r, s')"
  shows "ev_inv s'"
proof (cases "sk_fd s = Some fd \<and> sk_state s = HANDSHAKE")
  case True
  then obtain b s'' where "state_change env (if ok then WAITACCEPT else CLOSED) HANDSHAKE s = Some (b, s'')" "s' = s''"
    using assms(3) by (auto simp: handshake_done_def)
  then show ?thesis using state_change_ev [OF assms(1,2)] by (cases ok) auto
next
  case False
  then show ?thesis using assms by (cases "sk_state s") (auto simp: handshake_done_def split: if_splits)
qed

lemma handshake_done_os:
  assumes "os_inv s" "handshake_done env fd ok s = Some (r, s')"
  shows "os_inv s' \<and> sk_fd s' = sk_fd s \<and> sk_os s' = sk_os s"
proof (cases "sk_fd s = Some fd \<and> sk_state s = HANDSHAKE")
  case True
  then obtain b s'' where "state_change env (if ok then WAITACCEPT else CLOSED) HANDSHAKE s = Some (b, s'')" "s' = s''"
    using assms(2) by (auto simp: handshake_done_def)
  then show ?thesis using state_change_os [OF assms(1)] by (cases ok) auto
next
  case False
  then show ?thesis using assms by (cases "sk_state s") (auto simp: handshake_done_def split: if_splits)
qed

lemma fail_open_crashes: "sk_state s = HANDSHAKE \<Longrightarrow> fail_open env s = None"
  by (cases "sk_fd s") (auto simp: fail_open_def hs_erase_def os_close_def state_change_eq enter_closed_def reset_wbuf_def Let_def split: option.splits)

section \<open>Invariants of the socket\<close>

text \<open>
  What a property of the socket has to survive to be kept by every step: the moves of the state, the events of raw
  data, a new descriptor, and the release of one.
\<close>

definition sk_move :: "sstate \<Rightarrow> sstate \<Rightarrow> bool" where
  "sk_move new old \<longleftrightarrow> new = HANDSHAKE \<and> old = CLOSED \<or> new = WAITACCEPT \<and> (old = HANDSHAKE \<or> old = CLOSED) \<or> new = CLOSED \<and> old \<noteq> CLOSED"

locale sock_invariant =
  fixes I :: "sock \<Rightarrow> bool" and P :: "senv \<Rightarrow> bool"
  assumes core: "same_core s s' \<Longrightarrow> I s' = I s"
    and move: "I s \<Longrightarrow> P env \<Longrightarrow> sk_move new old \<Longrightarrow> state_change env new old s = Some (r, s') \<Longrightarrow> I s'"
    and accept: "I s \<Longrightarrow> I (snd (grant s))"
    and recv_raw: "I s \<Longrightarrow> sk_state s = WAITACCEPT \<or> sk_state s = ESTABLISH \<Longrightarrow> I (sk_emit RECVDATA s)"
    and new_fd: "I s \<Longrightarrow> sk_state s = HANDSHAKE \<Longrightarrow> fd \<notin> sk_os s \<Longrightarrow> I (s\<lparr>sk_fd := Some fd, sk_os := insert fd (sk_os s)\<rparr>)"
    and release: "I s \<Longrightarrow> sk_fd s = Some fd \<Longrightarrow> I (s\<lparr>sk_fd := None, sk_os := sk_os s - {fd}\<rparr>)"
begin

lemma done_keeps:
  assumes "I s" "P env" "handshake_done env fd ok s = Some (r, s')"
  shows "I s'"
proof (cases "sk_fd s = Some fd \<and> sk_state s = HANDSHAKE")
  case True
  then obtain b where "state_change env (if ok then WAITACCEPT else CLOSED) HANDSHAKE s = Some (b, s')"
    using assms(3) by (auto simp: handshake_done_def)
  moreover have "sk_move (if ok then WAITACCEPT else CLOSED) HANDSHAKE" by (simp add: sk_move_def)
  ultimately show ?thesis using move [OF assms(1,2)] by blast
next
  case False
  then show ?thesis using assms by (cases "sk_state s") (auto simp: handshake_done_def split: if_splits)
qed

lemma erase_keeps: "I s \<Longrightarrow> I (snd (hs_erase fd s))"
  using core [of s "snd (hs_erase fd s)"] by simp

lemma timeout_keeps:
  assumes "I s" "P env" "hs_timeout env fd s = Some s'"
  shows "I s'"
  using assms done_keeps [OF erase_keeps [OF assms(1), of "Some fd"] assms(2), of fd False]
  by (auto simp: hs_timeout_def split: option.splits if_splits)

lemma ready_keeps:
  assumes "I s" "sk_state s = WAITACCEPT \<or> sk_state s = ESTABLISH" "read_ready env ev s = (r, s')"
  shows "I s'"
  using assms recv_raw by (cases "sk_kind s") (auto simp: read_ready_def sock_read_def split: if_splits)

lemma read_keeps:
  assumes "I s" "P env" "on_read_impl env ev s = Some (r, s')"
  shows "I s'"
proof (cases "sk_state s")
  case HANDSHAKE
  obtain b s1 where e: "hs_erase (sk_fd s) s = (b, s1)" by fastforce
  have s1: "I s1" "sk_state s1 = HANDSHAKE" "b \<Longrightarrow> sk_fd s \<noteq> None" "sk_fd s1 = sk_fd s"
    using erase_keeps [OF assms(1), of "sk_fd s"] e HANDSHAKE by (auto simp: hs_erase_def split: option.splits)
  show ?thesis
  proof (cases "\<not> ev_closed ev \<and> se_hs env = Hs_ok \<and> b")
    case True
    then obtain q s2 where d: "handshake_done env (the (sk_fd s1)) True s1 = Some (q, s2)"
      using assms(3) HANDSHAKE e by (auto simp: on_read_impl_def split: option.splits)
    have "I s2" using done_keeps [OF s1(1) assms(2) d] .
    moreover have "sk_state s2 = WAITACCEPT \<or> sk_state s2 = ESTABLISH"
      using d s1 True by (auto simp: handshake_done_def state_change_eq enter_waitaccept_eq set_wbuf_def grant_def sock_close_def
          sk_simple_defs split: if_splits option.splits)
    ultimately show ?thesis using assms(3) HANDSHAKE e True d ready_keeps [of s2]
      by (auto simp: on_read_impl_def split: if_splits)
  next
    case False
    then show ?thesis using assms(1,3) HANDSHAKE e s1(1) done_keeps [OF s1(1) assms(2)]
      by (cases "se_hs env"; cases b) (auto simp: on_read_impl_def split: if_splits option.splits)
  qed
qed (use assms ready_keeps in \<open>auto simp: on_read_impl_def\<close>)

lemma loop_read_keeps:
  assumes "I s" "P env" "loop_read env ev s = Some s'"
  shows "I s'"
proof -
  obtain r s1 where r: "on_read_impl env ev s = Some (r, s1)" using assms(3) by (auto simp: loop_read_def sk_on_read_def)
  have "same_core s1 s'" using assms(3) r by (auto simp: loop_read_def sk_on_read_def split: hresult.splits if_splits)
  then show ?thesis using read_keeps [OF assms(1,2) r] core by blast
qed

lemma close_keeps:
  assumes "I s" "P env" "loop_close env s = Some s'"
  shows "I s'"
proof (cases "sk_fd s")
  case None
  then show ?thesis using assms by (simp add: loop_close_def)
next
  case (Some fd)
  let ?s0 = "s\<lparr>sk_reg := (sk_reg s)(fd := False), sk_hl := (sk_hl s)(fd := False)\<rparr>"
  define s1 where "s1 = snd (hs_erase (sk_fd ?s0) ?s0)"
  have "same_core s ?s0" "same_core ?s0 s1" by (simp_all add: s1_def)
  then have s1: "I s1" using core assms(1) by blast
  have "sk_on_close env ?s0 = Some s'" using assms(3) Some by (simp add: loop_close_def split: if_splits)
  then have L: "(if sk_state s1 = HANDSHAKE \<or> sk_state s1 = ESTABLISH \<or> sk_state s1 = WAITACCEPT then
        (case state_change env CLOSED (sk_state s1) s1 of
           None \<Rightarrow> None
         | Some (_, s) \<Rightarrow> (case sk_fd s of None \<Rightarrow> Some s | Some fd \<Rightarrow> os_close fd (s\<lparr>sk_fd := None\<rparr>)))
      else Some s1) = Some s'"
    unfolding sk_on_close_def s1_def Let_def .
  show ?thesis
  proof (cases "sk_state s1 = HANDSHAKE \<or> sk_state s1 = ESTABLISH \<or> sk_state s1 = WAITACCEPT")
    case True
    then obtain q s2 where c: "state_change env CLOSED (sk_state s1) s1 = Some (q, s2)"
      using L by (auto split: option.splits)
    have s2: "I s2" using move [OF s1 assms(2) _ c] True by (auto simp: sk_move_def)
    show ?thesis
    proof (cases "sk_fd s2")
      case None
      then show ?thesis using L True c s2 by simp
    next
      case (Some fd2)
      then have "s' = s2\<lparr>sk_fd := None, sk_os := sk_os s2 - {fd2}\<rparr>"
        using L True c by (simp add: os_close_def split: if_splits)
      then show ?thesis using release [OF s2 Some] by simp
    qed
  next
    case False
    then show ?thesis using L s1 by simp
  qed
qed

lemma open_client_keeps:
  assumes "I s" "P env" "open_client_conn env s = Some (r, s')" "\<forall>fd. se_sock env = Some fd \<longrightarrow> fd \<notin> sk_os s"
  shows "I s'"
proof -
  let ?s0 = "s\<lparr>sk_closing := False, sk_closed := False\<rparr>"
  have i0: "I ?s0" using core [of s ?s0] assms(1) by simp
  obtain b s1 where c: "state_change env HANDSHAKE CLOSED ?s0 = Some (b, s1)"
    using assms(3) by (auto simp: open_client_conn_def split: option.splits)
  have s1: "I s1" using move [OF i0 assms(2) _ c] by (simp add: sk_move_def)
  show ?thesis
  proof (cases b)
    case False
    then show ?thesis using assms(3) c s1 by (simp add: open_client_conn_def)
  next
    case True
    then have h: "sk_state s1 = HANDSHAKE" using c by (auto simp: state_change_eq Let_def split: if_splits)
    then obtain fd where fd: "se_sock env = Some fd"
      using assms(3) c True fail_open_crashes [of "s1\<lparr>sk_fd := None\<rparr>"] by (cases "se_sock env") (auto simp: open_client_conn_def)
    define s2 where "s2 = s1\<lparr>sk_fd := Some fd, sk_os := insert fd (sk_os s1)\<rparr>"
    have "sk_os s1 = sk_os s" using c by (auto simp: state_change_eq Let_def split: if_splits)
    then have s2: "I s2" "sk_state s2 = HANDSHAKE" using new_fd [OF s1 h, of fd] h fd assms(4) by (simp_all add: s2_def)
    have crash: "fail_open env s3 = None" if "same_core s2 s3" for s3
      using fail_open_crashes [of s3] that s2(2) by (simp add: same_core_def)
    have r: "(if \<not> sk_dgram s2 \<and> \<not> se_connect_ok env then fail_open env s2
                else
                  (case wbuf_init (se_wenv env) (sk_wbuf s2) of
                     None \<Rightarrow> None
                   | Some (Inl e, wb) \<Rightarrow> fail_open env (s2\<lparr>sk_wbuf := wb\<rparr>)
                   | Some (Inr _, wb) \<Rightarrow>
                       (case start_handshake env fd (s2\<lparr>sk_wbuf := wb\<rparr>) of
                          (Inl e, s) \<Rightarrow> fail_open env s
                        | (Inr _, s) \<Rightarrow>
                            (case loop_open env s of
                               (Inl e, s) \<Rightarrow> fail_open env s
                             | (Inr _, s) \<Rightarrow> Some (Inr fd, s))))) = Some (r, s')"
      using assms(3) c True fd unfolding open_client_conn_def s2_def by (simp add: Let_def)
    then obtain u wb where w: "wbuf_init (se_wenv env) (sk_wbuf s2) = Some (Inr u, wb)"
      using crash [of s2] crash by (auto split: if_splits option.splits sum.splits)
    define s3 where "s3 = snd (start_handshake env fd (s2\<lparr>sk_wbuf := wb\<rparr>))"
    have k3: "same_core s2 s3" unfolding s3_def by (rule same_core_trans [of _ "s2\<lparr>sk_wbuf := wb\<rparr>"]) simp_all
    have k4: "same_core s2 (snd (loop_open env s3))" using k3 by (rule same_core_trans) simp
    have "s' = snd (loop_open env s3)"
      using r w crash [of s2] crash [OF k3] crash [OF k4] by (auto simp: s3_def split: if_splits prod.splits sum.splits)
    then show ?thesis using core [OF k4] s2(1) by simp
  qed
qed

lemma open_server_keeps:
  assumes "I s" "P env" "open_server_conn env s = Some (r, s')"
  shows "I s'"
proof -
  let ?s0 = "s\<lparr>sk_closing := False, sk_closed := False\<rparr>"
  have i0: "I ?s0" using core [of s ?s0] assms(1) by simp
  obtain b s1 where c: "state_change env HANDSHAKE CLOSED ?s0 = Some (b, s1)"
    using assms(3) by (auto simp: open_server_conn_def split: option.splits)
  have s1: "I s1" using move [OF i0 assms(2) _ c] by (simp add: sk_move_def)
  have "same_core s1 s'"
  proof (cases b)
    case False
    then show ?thesis using assms(3) c by (simp add: open_server_conn_def)
  next
    case True
    have hs: "same_core s2 s3" if "start_handshake env fd s2 = (q, s3)" for fd s2 q s3
      using same_core_simps(3) [of s2 env fd] that by simp
    have lo: "same_core s2 s3" if "loop_open env s2 = (q, s3)" for s2 q s3 using same_core_simps(4) [of s2 env] that by simp
    show ?thesis using assms(3) c True hs lo
      by (auto simp: open_server_conn_def same_core_def Let_def split: option.splits sum.splits prod.splits if_splits)
  qed
  then show ?thesis using core s1 by blast
qed

end

context sock_invariant
begin

lemma open_datagram_keeps:
  assumes "I s" "P env" "open_datagram_server env s = Some (r, s')"
  shows "I s'"
proof -
  obtain b s1 where c: "state_change env WAITACCEPT CLOSED s = Some (b, s1)"
    using assms(3) by (auto simp: open_datagram_server_def split: option.splits)
  have s1: "I s1" using move [OF assms(1,2) _ c] by (simp add: sk_move_def)
  show ?thesis
  proof (cases b)
    case False
    then show ?thesis using assms(3) c s1 by (simp add: open_datagram_server_def)
  next
    case True
    obtain q s2 where o: "loop_open env s1 = (q, s2)" by fastforce
    have s2: "I s2" using core [of s1 s2] same_core_simps(4) [of s1 env] o s1 by simp
    then show ?thesis using assms(3) c True o release [OF s2] s2
      by (cases q) (auto simp: open_datagram_server_def os_close_def split: option.splits if_splits)
  qed
qed

lemma open_keeps:
  assumes "I s" "P env" "sock_open env s = Some (r, s')"
  shows "I s'"
proof -
  let ?s = "if sk_kind s = K_NONE then set_kind s else s"
  have s: "I ?s" using core [of s "set_kind s"] assms(1) by simp
  have "I s''" if "(if sk_kind ?s \<noteq> K_DGRAM then open_server_conn env ?s else open_datagram_server env ?s) = Some (q, s'')" for q s''
    using that open_server_keeps [OF s assms(2)] open_datagram_keeps [OF s assms(2)] by (auto split: if_splits)
  then show ?thesis using assms(3) s unfolding sock_open_def Let_def
    by (auto split: if_splits option.splits sum.splits prod.splits)
qed

lemma step_keeps:
  assumes "I s" "P env" "sk_step env op s = Some s'" "\<forall>fd. se_sock env = Some fd \<longrightarrow> fd \<notin> sk_os s"
  shows "I s'"
proof (cases op)
  case Open_client
  then show ?thesis using assms open_client_keeps by (auto simp: sk_step_def)
next
  case Open
  then show ?thesis using assms open_keeps by (auto simp: sk_step_def)
next
  case (User_close f)
  then show ?thesis using assms core [of s "sock_close f env s"] by (auto simp: sk_step_def)
next
  case Grant
  then show ?thesis using assms accept by (auto simp: sk_step_def)
next
  case (Event fd ev)
  then show ?thesis using assms loop_read_keeps by (auto simp: sk_step_def split: if_splits)
next
  case (Writable fd)
  have "same_core s (wpoller_write env fd s)"
    by (auto simp: wpoller_write_def same_core_def push_io_def Let_def split: prod.splits hresult.splits)
  then show ?thesis using assms core Writable by (auto simp: sk_step_def)
next
  case Io
  show ?thesis
  proof (cases "sk_que s")
    case Nil
    then show ?thesis using assms Io by (simp add: sk_step_def)
  next
    case (Cons k ks)
    have q: "I (s\<lparr>sk_que := ks\<rparr>)" using core [of s "s\<lparr>sk_que := ks\<rparr>"] assms(1) by simp
    have r: "run_io env k (s\<lparr>sk_que := ks\<rparr>) = Some s'" using assms(3) Io Cons by (simp add: sk_step_def)
    have w: "same_core t (loop_write env t)" for t
      by (auto simp: loop_write_def sk_on_write_def same_core_def push_io_def split: prod.splits hresult.splits)
    show ?thesis
    proof (cases k)
      case Write_again
      then show ?thesis using r q core [OF w] by (auto simp: run_io_def)
    next
      case (Read_again ev)
      then show ?thesis using r loop_read_keeps [OF q assms(2), of ev s'] by (simp add: run_io_def)
    next
      case Close
      then show ?thesis using r close_keeps [OF q assms(2), of s'] by (simp add: run_io_def)
    qed
  qed
next
  case (Hs_timeout fd)
  then show ?thesis using assms timeout_keeps by (simp add: sk_step_def)
qed

lemma reach_keeps: "sk_reach P s0 s \<Longrightarrow> I s0 \<Longrightarrow> I s"
  by (induction rule: sk_reach.induct) (auto intro: step_keeps)

end

interpretation events: sock_invariant ev_inv wp_ok
proof
  show "same_core s s' \<Longrightarrow> ev_inv s' = ev_inv s" for s s' by (simp add: same_core_inv)
  show "ev_inv s \<Longrightarrow> wp_ok env \<Longrightarrow> sk_move new old \<Longrightarrow> state_change env new old s = Some (r, s') \<Longrightarrow> ev_inv s'" for s env new old r s'
    unfolding sk_move_def by (rule state_change_ev)
qed (auto simp: sk_inv_defs sk_emit_def grant_def)

interpretation descriptors: sock_invariant os_inv "\<lambda>_. True"
proof
  show "same_core s s' \<Longrightarrow> os_inv s' = os_inv s" for s s' by (simp add: same_core_inv)
  show "os_inv s \<Longrightarrow> sk_move new old \<Longrightarrow> state_change env new old s = Some (r, s') \<Longrightarrow> os_inv s'" for s env new old r s'
    using state_change_os [of s env new old r s'] by (auto simp: sk_move_def)
qed (auto simp: sk_inv_defs sk_emit_def grant_def)

text \<open>A descriptor that is open and no longer the socket's stays open.\<close>

lemma state_change_fd:
  assumes "state_change env new old s = Some (r, s')"
  shows "sk_fd s' = sk_fd s \<and> sk_os s' = sk_os s"
  using assms
  by (cases new) (auto simp: state_change_eq enter_waitaccept_eq enter_closed_def set_wbuf_def reset_wbuf_def sock_close_def grant_def
      sk_simple_defs split: if_splits option.splits)

interpretation leak: sock_invariant "\<lambda>s. fd \<in> sk_os s \<and> sk_fd s \<noteq> Some fd" "\<lambda>_. True" for fd
proof
  show "(fd \<in> sk_os s' \<and> sk_fd s' \<noteq> Some fd) = (fd \<in> sk_os s \<and> sk_fd s \<noteq> Some fd)" if "same_core s s'" for s s'
    using that by (simp add: same_core_def)
qed (auto simp: sk_emit_def grant_def dest: state_change_fd)

lemma start_inv: "sock_start s \<Longrightarrow> ev_inv s \<and> os_inv s"
  by (auto simp: sock_start_def sock_new_def configure_server_def sk_inv_defs)

section \<open>Properties\<close>

text \<open>A client whose connection is being opened, for the witnesses.\<close>

definition senv_example :: "U64 \<Rightarrow> senv" where
  "senv_example t = \<lparr>se_sock = Some 5, se_connect_ok = True, se_wenv = wenv_example, se_hs_ok = True, se_fcntl_ok = True, se_slot_free = True,
     se_attach_ok = True, se_wp_free = True, se_wp_attach_ok = True, se_same_poller = True, se_hs = Hs_ok, se_read = r_read_again, se_write = [],
     se_now = t, se_timeout = 100\<rparr>"

lemma open_example:
  "\<exists>s. open_client_conn (senv_example 0) sock_new = Some (Inr 5, s) \<and> sk_state s = HANDSHAKE \<and> sk_fd s = Some 5 \<and> sk_hl s 5 \<and> sk_reg s 5
     \<and> sk_hs s 5 = Some 100 \<and> \<not> sk_server s \<and> sk_events s = [] \<and> sk_kind s = K_STREAM \<and> sk_wp s = (\<lambda>_. False) \<and> \<not> sk_closing s \<and> \<not> sk_dgram s \<and> \<not> sk_raw s
     \<and> \<not> sk_skip_accept s \<and> 5 \<in> sk_os s"
proof -
  obtain wb where "wbuf_init wenv_example wbuf_new = Some (Inr (), wb)" using init_example by blast
  then show ?thesis
    by (simp add: open_client_conn_def state_change_eq sock_new_def senv_example_def start_handshake_def loop_open_def sk_on_open_def
        sk_simple_defs)
qed

lemma example_starts: "sock_start sock_new"
  unfolding sock_start_def by (rule disjI1, rule exI [of _ False], rule exI [of _ False], rule exI [of _ False]) (simp add: sock_new_def)

lemma open_reach_example:
  assumes "P (senv_example 0)"
  shows "\<exists>s. sk_reach P sock_new s \<and> sk_state s = HANDSHAKE \<and> sk_fd s = Some 5 \<and> sk_hl s 5 \<and> sk_reg s 5
     \<and> sk_hs s 5 = Some 100 \<and> \<not> sk_server s \<and> sk_events s = [] \<and> sk_kind s = K_STREAM \<and> sk_wp s = (\<lambda>_. False) \<and> \<not> sk_closing s \<and> \<not> sk_dgram s \<and> \<not> sk_raw s
     \<and> \<not> sk_skip_accept s \<and> 5 \<in> sk_os s"
proof -
  obtain s where s: "open_client_conn (senv_example 0) sock_new = Some (Inr 5, s)" "sk_state s = HANDSHAKE \<and> sk_fd s = Some 5 \<and> sk_hl s 5 \<and> sk_reg s 5
     \<and> sk_hs s 5 = Some 100 \<and> \<not> sk_server s \<and> sk_events s = [] \<and> sk_kind s = K_STREAM \<and> sk_wp s = (\<lambda>_. False) \<and> \<not> sk_closing s \<and> \<not> sk_dgram s \<and> \<not> sk_raw s
     \<and> \<not> sk_skip_accept s \<and> 5 \<in> sk_os s" using open_example by blast
  have st: "sk_step (senv_example 0) Open_client sock_new = Some s" using s(1) by (simp add: sk_step_def)
  have "sk_reach P sock_new s"
    by (rule sk_reach.step [where P = P, OF sk_reach.refl [where P = P] assms _ st]) (simp add: sock_new_def)
  then show ?thesis using s(2) by blast
qed

text \<open>
  When the calls of \<open>state_change\<close> do not interleave and the table of write buffers accepts every connection
  (\<open>wp_ok\<close>), the events of a socket tell its state, and they come in order: the acceptance of a connection, its
  establishment, its end; raw data only while it is open.  \<open>SockRace\<close> does without both conditions.
\<close>

theorem events_follow_the_state:
  assumes "sock_start s0" and "sk_reach wp_ok s0 s"
  shows "track (sk_events s) = Some (if sk_state s = HANDSHAKE then CLOSED else sk_state s)"
  using events.reach_keeps [OF assms(2)] start_inv [OF assms(1)] by (simp add: ev_inv_def seen_def)

lemma accepted_reach_example:
  assumes "P (senv_example 0)" "P (senv_example 0\<lparr>se_sock := None\<rparr>)"
  shows "\<exists>s. sk_reach P sock_new s \<and> sk_state s = WAITACCEPT \<and> sk_events s = [WAITACCEPT] \<and> sk_fd s = Some 5"
proof -
  obtain s where s: "sk_reach P sock_new s" "sk_state s = HANDSHAKE" "sk_fd s = Some 5" "sk_hl s 5" "sk_reg s 5" "sk_hs s 5 = Some 100"
    "\<not> sk_server s" "sk_events s = []" "sk_kind s = K_STREAM" "sk_wp s = (\<lambda>_. False)" "\<not> sk_closing s" "\<not> sk_dgram s" "\<not> sk_raw s" "\<not> sk_skip_accept s"
    using open_reach_example [of P, OF assms(1)] by blast
  let ?e = "senv_example 0\<lparr>se_sock := None\<rparr>"
  obtain s' where s': "sk_step ?e (Event 5 \<lparr>ev_readable = True, ev_closed = False\<rparr>) s = Some s'" "sk_state s' = WAITACCEPT" "sk_events s' = [WAITACCEPT]"
    "sk_fd s' = Some 5"
    using s(2-14) by (simp add: sk_step_def loop_read_def sk_on_read_def on_read_impl_def senv_example_def hs_erase_def handshake_done_def state_change_eq
        enter_waitaccept_eq set_wbuf_def sk_emit_def skip_server_accept_def read_ready_def sock_read_def Let_def)
  have "sk_reach P sock_new s'"
    by (rule sk_reach.step [where P = P, OF s(1) _ _ s'(1)]) (use assms(2) in \<open>simp_all add: senv_example_def\<close>)
  then show ?thesis using s'(2-4) by blast
qed

theorem events_follow_the_state_witness: "\<exists>s :: sock. sk_events s = [WAITACCEPT] \<and> track (sk_events s) = Some (sk_state s)"
proof -
  obtain s where s: "sk_reach wp_ok sock_new s" "sk_state s = WAITACCEPT" "sk_events s = [WAITACCEPT]"
    using accepted_reach_example [of wp_ok] by (auto simp: wp_ok_def senv_example_def)
  from events_follow_the_state [OF example_starts s(1)] s(2,3) show ?thesis by (intro exI [of _ s]) simp
qed

text \<open>C5: Closing a connection that the loop handles takes it out of the tables of the loop and of the handshakes, and
  leaves it in \<open>CLOSED\<close>.  Unless it was in \<open>CLOSED\<close> before, its descriptor, which was open, is closed and forgotten, so it
  is closed once only, its write buffer leaves the write poller, and the watchers are told.  When it was in \<open>CLOSED\<close> before,
  as after a handshake that ran out of time (\<^verbatim>\<open>handshake.h:33\<close>), nothing else happens: its descriptor stays open (C38).\<close>

theorem close_releases_the_socket:
  assumes "sock_start s0" and "sk_reach (\<lambda>_. True) s0 s" and "sk_fd s = Some fd" and "sk_hl s fd"
  shows "\<exists>s'. loop_close env s = Some s' \<and> sk_state s' = CLOSED \<and> \<not> sk_hl s' fd \<and> \<not> sk_reg s' fd \<and> sk_hs s' fd = None \<and> fd \<in> sk_os s
    \<and> (if sk_state s = CLOSED then sk_fd s' = Some fd \<and> sk_os s' = sk_os s \<and> sk_events s' = sk_events s
       else sk_fd s' = None \<and> sk_os s' = sk_os s - {fd} \<and> \<not> sk_wp s' fd \<and> sk_events s' = sk_events s @ [CLOSED])"
proof -
  have "os_inv s" using descriptors.reach_keeps [OF assms(2)] start_inv [OF assms(1)] by simp
  then have "fd \<in> sk_os s" "sk_state s \<noteq> RECVDATA" using assms(3) by (simp_all add: os_inv_def)
  then show ?thesis using assms(3,4)
    by (cases "sk_state s") (simp_all add: loop_close_def sk_on_close_def hs_erase_def state_change_eq enter_closed_def reset_wbuf_def
        sk_emit_def os_close_def Let_def)
qed

theorem close_releases_the_socket_witness:
  "\<exists>s s'. sk_state s = HANDSHAKE \<and> loop_close (senv_example 0) s = Some s' \<and> 5 \<in> sk_os s \<and> sk_os s' = sk_os s - {5} \<and> sk_events s' = [CLOSED]"
proof -
  obtain s where s: "sk_reach (\<lambda>_. True) sock_new s" "sk_fd s = Some 5" "sk_hl s 5" "sk_state s = HANDSHAKE" "sk_events s = []"
    using open_reach_example [of "\<lambda>_. True"] by auto
  from close_releases_the_socket [OF example_starts s(1-3), of "senv_example 0"] s(4,5) show ?thesis by auto
qed

subsection \<open>Where it goes wrong\<close>

text \<open>While a client's socket is closed, nothing but opening it changes its descriptor.\<close>

lemma closed_stays:
  assumes "sk_state s = CLOSED" "\<not> sk_server s" "op \<noteq> Open_client" "sk_step env op s = Some s'"
  shows "sk_state s' = CLOSED \<and> sk_fd s' = sk_fd s \<and> sk_os s' = sk_os s \<and> \<not> sk_server s'"
proof -
  have read: "sk_state t' = CLOSED \<and> sk_fd t' = sk_fd t \<and> sk_os t' = sk_os t \<and> \<not> sk_server t'"
    if "loop_read env ev t = Some t'" "sk_state t = CLOSED" "\<not> sk_server t" for ev t t'
    using that by (auto simp: loop_read_def sk_on_read_def on_read_impl_def push_io_def split: if_splits)
  have io: "sk_state t' = CLOSED \<and> sk_fd t' = sk_fd t \<and> sk_os t' = sk_os t \<and> \<not> sk_server t'"
    if "run_io env k t = Some t'" "sk_state t = CLOSED" "\<not> sk_server t" for k t t'
  proof (cases k)
    case Write_again
    then show ?thesis using that
      by (auto simp: run_io_def loop_write_def sk_on_write_def push_io_def split: prod.splits hresult.splits if_splits)
  next
    case (Read_again ev)
    then show ?thesis using that read by (simp add: run_io_def)
  next
    case Close
    then show ?thesis using that
      by (auto simp: run_io_def loop_close_def sk_on_close_def hs_erase_def Let_def split: option.splits if_splits)
  qed
  show ?thesis
  proof (cases op)
    case (Event fd ev)
    then show ?thesis using assms read [of ev s s'] by (auto simp: sk_step_def split: if_splits)
  next
    case Io
    then show ?thesis using assms io [of _ "s\<lparr>sk_que := tl (sk_que s)\<rparr>" s'] by (cases "sk_que s") (auto simp: sk_step_def)
  next
    case (Writable fd)
    then show ?thesis using assms
      by (auto simp: sk_step_def wpoller_write_def push_io_def Let_def split: prod.splits hresult.splits if_splits)
  next
    case (Hs_timeout fd)
    then show ?thesis using assms
      by (auto simp: sk_step_def hs_timeout_def handshake_done_def hs_erase_def split: option.splits if_splits)
  qed (use assms in \<open>auto simp: sk_step_def sock_open_def sock_close_def grant_def sk_simple_defs split: if_splits option.splits\<close>)
qed

definition stale :: "nat \<Rightarrow> sock \<Rightarrow> bool" where
  "stale fd s \<longleftrightarrow> fd \<in> sk_os s \<and> (sk_fd s \<noteq> Some fd \<or> sk_state s = CLOSED \<and> \<not> sk_server s)"

lemma open_client_new_fd:
  assumes "open_client_conn env s = Some (r, s')" "sk_state s = CLOSED" "fd \<in> sk_os s" "\<forall>n. se_sock env = Some n \<longrightarrow> n \<notin> sk_os s"
  shows "fd \<in> sk_os s' \<and> sk_fd s' \<noteq> Some fd"
proof -
  let ?s0 = "s\<lparr>sk_closing := False, sk_closed := False\<rparr>"
  have c: "state_change env HANDSHAKE CLOSED ?s0 = Some (True, ?s0\<lparr>sk_state := HANDSHAKE, sk_initialized := False\<rparr>)"
    using assms(2) by (simp add: state_change_eq)
  define s1 where "s1 = ?s0\<lparr>sk_state := HANDSHAKE, sk_initialized := False\<rparr>"
  have h: "sk_state s1 = HANDSHAKE" "sk_os s1 = sk_os s" by (simp_all add: s1_def)
  obtain n where n: "se_sock env = Some n"
    using assms(1) c fail_open_crashes [of "s1\<lparr>sk_fd := None\<rparr>"] h by (cases "se_sock env") (auto simp: open_client_conn_def s1_def)
  then have "n \<noteq> fd" using assms(3,4) by auto
  define s2 where "s2 = s1\<lparr>sk_fd := None\<rparr>"
  have "open_client_conn env s = open_client_conn env (s\<lparr>sk_fd := None\<rparr>)"
    using assms(2) n by (simp add: open_client_conn_def state_change_eq)
  then have "open_client_conn env (s\<lparr>sk_fd := None\<rparr>) = Some (r, s')" using assms(1) by simp
  from leak.open_client_keeps [OF _ _ this, of fd] show ?thesis using assms(3,4) by simp
qed

lemma stale_step:
  assumes "stale fd s" "sk_step env op s = Some s'" "\<forall>n. se_sock env = Some n \<longrightarrow> n \<notin> sk_os s"
  shows "stale fd s'"
proof (cases "sk_fd s = Some fd")
  case True
  then have s: "fd \<in> sk_os s" "sk_state s = CLOSED" "\<not> sk_server s" using assms(1) by (simp_all add: stale_def)
  show ?thesis
  proof (cases "op = Open_client")
    case True
    then obtain r where "open_client_conn env s = Some (r, s')" using assms(2) by (auto simp: sk_step_def)
    then show ?thesis using open_client_new_fd [OF _ s(2,1) assms(3)] by (simp add: stale_def)
  next
    case False
    then show ?thesis using closed_stays [OF s(2,3) _ assms(2)] s by (simp add: stale_def)
  qed
next
  case False
  then show ?thesis using leak.step_keeps [OF _ _ assms(2,3), of fd] assms(1) by (simp add: stale_def)
qed

text \<open>C38: the handshake of a client that runs out of time leaves the socket closed but its descriptor open, and no later
  step ever closes it: not the loop, not the user, not the next connection.\<close>

theorem timed_out_handshake_leaks:
  assumes "sock_start s0" and "sk_reach (\<lambda>_. True) s0 s" and "sk_fd s = Some fd" and "sk_state s = HANDSHAKE" and "\<not> sk_server s"
    and "sk_hs s fd = Some limit" and "limit < se_now env"
  shows "\<exists>s1. hs_timeout env fd s = Some s1 \<and> sk_state s1 = CLOSED \<and> (\<forall>s2. sk_reach (\<lambda>_. True) s1 s2 \<longrightarrow> fd \<in> sk_os s2)"
proof -
  have "os_inv s" using descriptors.reach_keeps [OF assms(2)] start_inv [OF assms(1)] by simp
  then have os: "fd \<in> sk_os s" using assms(3) by (simp add: os_inv_def)
  obtain s1 where s1: "hs_timeout env fd s = Some s1" "sk_state s1 = CLOSED" "sk_fd s1 = Some fd" "sk_os s1 = sk_os s" "\<not> sk_server s1"
    using assms(3-7) by (simp add: hs_timeout_def hs_erase_def handshake_done_def state_change_eq enter_closed_def reset_wbuf_def
        sk_emit_def Let_def)
  then have "stale fd s1" using os by (simp add: stale_def)
  moreover have "stale fd s2" if "sk_reach (\<lambda>_. True) s1 s2" "stale fd s1" for s2
    using that by (induction rule: sk_reach.induct) (auto intro: stale_step)
  ultimately show ?thesis using s1(1,2) by (auto simp: stale_def)
qed

theorem timed_out_handshake_leaks_witness:
  "\<exists>s s1. hs_timeout (senv_example 200) 5 s = Some s1 \<and> sk_state s1 = CLOSED \<and> (\<forall>s2. sk_reach (\<lambda>_. True) s1 s2 \<longrightarrow> 5 \<in> sk_os s2)"
proof -
  obtain s where s: "sk_reach (\<lambda>_. True) sock_new s" "sk_fd s = Some 5" "sk_state s = HANDSHAKE" "\<not> sk_server s" "sk_hs s 5 = Some 100"
    using open_reach_example [of "\<lambda>_. True"] by blast
  have "100 < se_now (senv_example 200)" by (simp add: senv_example_def)
  from timed_out_handshake_leaks [OF example_starts s this] show ?thesis by blast
qed

text \<open>When the system gives no descriptor or the connect fails, the socket forgets its descriptor before it
  leaves the table of write buffers, and looks itself up before the beginning of that table.\<close>

theorem failed_open_reaches_before_the_table:
  assumes "sk_state s = CLOSED" and "se_sock env = None \<or> \<not> sk_dgram s \<and> \<not> se_connect_ok env"
  shows "open_client_conn env s = None"
  using assms fail_open_crashes by (cases "se_sock env") (auto simp: open_client_conn_def state_change_eq Let_def)

theorem failed_open_reaches_before_the_table_witness: "open_client_conn (senv_example 0\<lparr>se_sock := None\<rparr>) sock_new = None"
  by (rule failed_open_reaches_before_the_table) (simp_all add: sock_new_def)

text \<open>C39: a \<open>close\<close> that comes after \<open>open_client_conn\<close> has cleared the flag of closing and before it moves the state
  leaves the socket in \<open>HANDSHAKE\<close> without a descriptor, and no step brings it out of there: it can never be opened again.\<close>

theorem close_while_opening_wedges:
  assumes "sk_state s = CLOSED" and "sk_fd s = None" and "\<not> sk_server s"
  shows "\<exists>s1. state_change env HANDSHAKE CLOSED (sock_close fin env s) = Some (False, s1)
    \<and> (\<forall>s2 env2. sk_reach (\<lambda>_. True) s1 s2 \<longrightarrow> (\<exists>s3. open_client_conn env2 s2 = Some (Inl EALREADY, s3)))"
proof -
  let ?W = "\<lambda>s. sk_state s = HANDSHAKE \<and> sk_fd s = None \<and> \<not> sk_server s"
  have stuck: "\<exists>s3. open_client_conn e t = Some (Inl EALREADY, s3) \<and> ?W s3" if "?W t" for t e
    using that by (simp add: open_client_conn_def state_change_eq)
  have read: "?W t'" if "loop_read e ev t = Some t'" "?W t" for e ev t t'
    using that by (cases "se_hs e")
      (auto simp: loop_read_def sk_on_read_def on_read_impl_def hs_erase_def push_io_def split: if_splits)
  have io: "?W t'" if "run_io e k t = Some t'" "?W t" for e k t t'
    using that read by (cases k) (auto simp: run_io_def loop_write_def sk_on_write_def push_io_def loop_close_def
        split: prod.splits hresult.splits if_splits)
  have keep: "?W t'" if "sk_step e op t = Some t'" "?W t" for e op t t'
  proof (cases op)
    case Open_client
    then show ?thesis using that stuck [of t e] by (auto simp: sk_step_def)
  next
    case (Event fd ev)
    then show ?thesis using that read [of e ev t t'] by (auto simp: sk_step_def split: if_splits)
  next
    case Io
    then show ?thesis using that io [of e _ "t\<lparr>sk_que := tl (sk_que t)\<rparr>" t'] by (cases "sk_que t") (auto simp: sk_step_def)
  next
    case (Writable fd)
    then show ?thesis using that
      by (auto simp: sk_step_def wpoller_write_def push_io_def Let_def split: prod.splits hresult.splits if_splits)
  next
    case (Hs_timeout fd)
    then show ?thesis using that
      by (auto simp: sk_step_def hs_timeout_def handshake_done_def hs_erase_def split: option.splits if_splits)
  qed (use that in \<open>auto simp: sk_step_def sock_open_def sock_close_def grant_def sk_simple_defs split: if_splits option.splits\<close>)
  let ?s1 = "(sock_close fin env s)\<lparr>sk_state := HANDSHAKE\<rparr>"
  have "state_change env HANDSHAKE CLOSED (sock_close fin env s) = Some (False, ?s1)" "?W ?s1"
    using assms by (simp_all add: state_change_eq sock_close_def)
  moreover have "?W s2" if "sk_reach (\<lambda>_. True) ?s1 s2" "?W ?s1" for s2
    using that by (induction rule: sk_reach.induct) (auto dest: keep)
  ultimately show ?thesis using stuck by blast
qed

theorem close_while_opening_wedges_witness:
  "\<exists>s1. state_change (senv_example 0) HANDSHAKE CLOSED (sock_close True (senv_example 0) sock_new) = Some (False, s1)
    \<and> (\<forall>s2. sk_reach (\<lambda>_. True) s1 s2 \<longrightarrow> (\<exists>s3. open_client_conn (senv_example 1) s2 = Some (Inl EALREADY, s3)))"
proof -
  have "sk_state sock_new = CLOSED" "sk_fd sock_new = None" "\<not> sk_server sock_new" by (simp_all add: sock_new_def)
  from close_while_opening_wedges [OF this, of "senv_example 0" True] show ?thesis by blast
qed

end
