(* ===== verification/SockRace.thy ===== *)
theory SockRace
  imports Socket "HOL-Library.Multiset"
begin

text \<open>
  \<^verbatim>\<open>src/src/handler/socket.h\<close>: \<open>state_change\<close> as several threads run it at a time.  The compare-and-swap of the state is one step
  and what follows it, with the event at its end, is another, and so are the two halves of the \<open>grant\<close> behind an acceptance.  Between
  them any thread may move the state on and emit.

  A step is taken by any thread, in any state: nothing is assumed of the callers but which moves they ask for.  What
  happens between the compare-and-swap and the event of one call (the write buffer, its place in the write poller's table) is one
  step with the event.  \<open>None\<close> of \<open>Socket\<close>, an access before the tables, is no step here: that call stays where it is.

  The lemmas: every move of the state is told once, in the order of the moves unless a call is overtaken; the runs of \<open>Socket\<close>
  are among those here; and an event can be overtaken by \<open>CLOSED\<close>.
\<close>

section \<open>Calls in progress\<close>

text \<open>
  A call is behind its compare-and-swap, or behind the event \<open>WAITACCEPT\<close> and before the test of \<open>skip_server_accept\<close>.  The
  rest of the record are notes: the moves that were made, how many connections the write poller refused, and
  whether a move was made while an event of another was still to come.
\<close>

datatype point = Enter sstate | Skip_accept

record race =
  rc_sock :: sock
  rc_calls :: "point list"
  rc_moves :: "(sstate \<times> sstate) list"
  rc_refused :: nat
  rc_overtaken :: bool

definition race_init :: "sock \<Rightarrow> race" where
  "race_init s = \<lparr>rc_sock = s, rc_calls = [], rc_moves = [], rc_refused = 0, rc_overtaken = False\<rparr>"

text \<open>The events still to come.\<close>

fun to_come :: "point list \<Rightarrow> sstate list" where
  "to_come [] = []"
| "to_come (Enter st # ps) = (if st = HANDSHAKE then to_come ps else st # to_come ps)"
| "to_come (Skip_accept # ps) = to_come ps"

text \<open>The moves that are asked for; \<open>on_close\<close> reads the state twice, so the second may be any.\<close>

definition may_move :: "sstate \<Rightarrow> sstate \<Rightarrow> bool" where
  "may_move old new \<longleftrightarrow> sk_move new old \<or> new = ESTABLISH \<and> old = WAITACCEPT \<or> new = CLOSED"

text \<open>A compare-and-swap that succeeds.\<close>

definition made_move :: "sstate \<Rightarrow> sstate \<Rightarrow> sock \<Rightarrow> point list \<Rightarrow> race \<Rightarrow> race" where
  "made_move old new s ps r = r\<lparr>rc_sock := s, rc_calls := ps @ [Enter new], rc_moves := rc_moves r @ [(old, new)],
     rc_overtaken := (rc_overtaken r \<or> to_come (rc_calls r) \<noteq> [])\<rparr>"

definition without :: "nat \<Rightarrow> 'a list \<Rightarrow> 'a list" where
  "without i xs = take i xs @ drop (Suc i) xs"

inductive race_step :: "race \<Rightarrow> race \<Rightarrow> bool" where
  move: "may_move old new \<Longrightarrow> state_cas new old (rc_sock r) = (True, s) \<Longrightarrow> race_step r (made_move old new s (rc_calls r) r)"
| enter: "i < length (rc_calls r) \<Longrightarrow> rc_calls r ! i = Enter st \<Longrightarrow> st \<noteq> WAITACCEPT \<Longrightarrow> state_enter env st (rc_sock r) = Some (b, s) \<Longrightarrow>
    race_step r (r\<lparr>rc_sock := s, rc_calls := without i (rc_calls r)\<rparr>)"
| accept: "i < length (rc_calls r) \<Longrightarrow> rc_calls r ! i = Enter WAITACCEPT \<Longrightarrow> accept_enter env (rc_sock r) = Some (True, s) \<Longrightarrow>
    race_step r (r\<lparr>rc_sock := s, rc_calls := without i (rc_calls r) @ [Skip_accept]\<rparr>)"
| refuse: "i < length (rc_calls r) \<Longrightarrow> rc_calls r ! i = Enter WAITACCEPT \<Longrightarrow> accept_enter env (rc_sock r) = Some (False, s) \<Longrightarrow>
    race_step r (r\<lparr>rc_sock := s, rc_calls := without i (rc_calls r), rc_refused := Suc (rc_refused r)\<rparr>)"
| skip: "i < length (rc_calls r) \<Longrightarrow> rc_calls r ! i = Skip_accept \<Longrightarrow> skip_server_accept (rc_sock r) \<Longrightarrow>
    state_cas ESTABLISH WAITACCEPT (rc_sock r) = (True, s) \<Longrightarrow> race_step r (made_move WAITACCEPT ESTABLISH s (without i (rc_calls r)) r)"
| skipped: "i < length (rc_calls r) \<Longrightarrow> rc_calls r ! i = Skip_accept \<Longrightarrow>
    \<not> skip_server_accept (rc_sock r) \<or> fst (state_cas ESTABLISH WAITACCEPT (rc_sock r)) = False \<Longrightarrow>
    race_step r (r\<lparr>rc_calls := without i (rc_calls r)\<rparr>)"
| raw: "race_step r (r\<lparr>rc_sock := sk_emit RECVDATA (rc_sock r)\<rparr>)"
| other: "sk_state s = sk_state (rc_sock r) \<Longrightarrow> sk_events s = sk_events (rc_sock r) \<Longrightarrow> race_step r (r\<lparr>rc_sock := s\<rparr>)"

inductive race_reach :: "sock \<Rightarrow> race \<Rightarrow> bool" for s0 where
  start: "race_reach s0 (race_init s0)"
| step: "race_reach s0 r \<Longrightarrow> race_step r r' \<Longrightarrow> race_reach s0 r'"

inductive_cases race_stepE: "race_step r r'"

section \<open>The moves and the events\<close>

text \<open>\<open>path st ms\<close>: the moves go on from each other, from \<open>CLOSED\<close> to \<open>st\<close>.\<close>

fun path :: "sstate \<Rightarrow> (sstate \<times> sstate) list \<Rightarrow> sstate option" where
  "path st [] = Some st"
| "path st ((old, new) # ms) = (if old = st \<and> may_move old new then path new ms else None)"

lemma path_snoc: "path st (ms @ [(old, new)]) = (if path st ms = Some old \<and> may_move old new then Some new else None)"
  by (induction st ms rule: path.induct) auto

text \<open>The events that the moves make.\<close>

definition told :: "(sstate \<times> sstate) list \<Rightarrow> sstate list" where
  "told ms = filter (\<lambda>st. st \<noteq> HANDSHAKE) (map snd ms)"

definition heard :: "sock \<Rightarrow> sstate list" where
  "heard s = filter (\<lambda>st. st \<noteq> RECVDATA) (sk_events s)"

definition race_inv :: "race \<Rightarrow> bool" where
  "race_inv r \<longleftrightarrow> path CLOSED (rc_moves r) = Some (sk_state (rc_sock r)) \<and> HANDSHAKE \<notin> set (sk_events (rc_sock r)) \<and> RECVDATA \<notin> set (to_come (rc_calls r))
     \<and> mset (heard (rc_sock r)) + mset (to_come (rc_calls r)) + replicate_mset (rc_refused r) WAITACCEPT = mset (told (rc_moves r))
     \<and> (\<not> rc_overtaken r \<and> rc_refused r = 0 \<longrightarrow> heard (rc_sock r) @ to_come (rc_calls r) = told (rc_moves r) \<and> length (to_come (rc_calls r)) \<le> 1)"

lemma to_come_append [simp]: "to_come (ps @ qs) = to_come ps @ to_come qs"
  by (induction ps rule: to_come.induct) auto

lemma split_at: "i < length xs \<Longrightarrow> xs = take i xs @ xs ! i # drop (Suc i) xs"
  by (rule id_take_nth_drop)

lemma to_come_without:
  assumes "i < length ps"
  shows "mset (to_come ps) = mset (to_come [ps ! i]) + mset (to_come (without i ps))"
    and "length (to_come ps) \<le> 1 \<Longrightarrow> to_come [ps ! i] \<noteq> [] \<Longrightarrow> to_come ps = to_come [ps ! i] \<and> to_come (without i ps) = []"
    and "to_come [ps ! i] = [] \<Longrightarrow> to_come (without i ps) = to_come ps"
proof -
  let ?a = "to_come (take i ps)" and ?b = "to_come (drop (Suc i) ps)" and ?p = "to_come [ps ! i]"
  have e: "to_come ps = ?a @ ?p @ ?b"
    using arg_cong [OF split_at [OF assms], of to_come] to_come_append [of "[ps ! i]" "drop (Suc i) ps"] by simp
  have w: "to_come (without i ps) = ?a @ ?b" by (simp add: without_def)
  show "mset (to_come ps) = mset ?p + mset (to_come (without i ps))" unfolding e w by simp
  show "to_come ps = ?p \<and> to_come (without i ps) = []" if "length (to_come ps) \<le> 1" "?p \<noteq> []"
  proof -
    have "length ?a + length ?p + length ?b \<le> 1" "1 \<le> length ?p" using that e by (simp_all add: Suc_le_eq)
    then have "length ?a = 0" "length ?b = 0" by linarith+
    then show ?thesis using e w by simp
  qed
  show "to_come (without i ps) = to_come ps" if "?p = []" unfolding e w that by simp
qed

lemma told_snoc: "told (ms @ [(old, new)]) = told ms @ (if new = HANDSHAKE then [] else [new])"
  by (simp add: told_def)

lemma heard_simps [simp]: "heard (sk_emit st s) = (if st = RECVDATA then heard s else heard s @ [st])"
  by (simp add: heard_def sk_emit_def)

text \<open>The kinds of step: a move, an event that was to come, one that will not come, and what concerns neither.\<close>

lemma race_inv_move:
  assumes "race_inv r" "may_move old new" "state_cas new old (rc_sock r) = (True, s)" "to_come ps = to_come (rc_calls r)"
  shows "race_inv (made_move old new s ps r)"
proof -
  have s: "sk_state (rc_sock r) = old" "s = rc_sock r\<lparr>sk_state := new\<rparr>" using assms(3) by (auto simp: state_cas_def split: if_splits)
  have n: "new \<noteq> RECVDATA" using assms(2) by (auto simp: may_move_def sk_move_def)
  show ?thesis using assms(1,2,4) s n
    by (cases "new = HANDSHAKE") (auto simp: race_inv_def made_move_def path_snoc told_snoc heard_def)
qed

lemma race_inv_event:
  assumes "race_inv r" "i < length (rc_calls r)" "sk_state s = sk_state (rc_sock r)" "sk_events s = sk_events (rc_sock r) @ to_come [rc_calls r ! i]"
    and "to_come ps = to_come (without i (rc_calls r))"
  shows "race_inv (r\<lparr>rc_sock := s, rc_calls := ps\<rparr>)"
proof -
  let ?p = "to_come [rc_calls r ! i]"
  note t = to_come_without [OF assms(2)]
  have sub: "set ?p \<subseteq> set (to_come (rc_calls r))" "set (to_come ps) \<subseteq> set (to_come (rc_calls r))"
    using arg_cong [OF t(1), of set_mset] assms(5) by auto
  have p: "HANDSHAKE \<notin> set ?p" by (cases "rc_calls r ! i") auto
  have h: "heard s = heard (rc_sock r) @ ?p"
    using assms(1) sub(1) by (auto simp: heard_def assms(4) race_inv_def filter_id_conv)
  have "heard s @ to_come ps = heard (rc_sock r) @ to_come (rc_calls r) \<and> length (to_come ps) \<le> 1" if "length (to_come (rc_calls r)) \<le> 1"
    using t(2) [OF that] t(3) that h assms(5) by (cases "?p = []") auto
  then show ?thesis using assms(1,3,4) p sub(2) h t(1) assms(5) by (auto simp: race_inv_def add.assoc)
qed

lemma race_inv_refuse:
  assumes "race_inv r" "i < length (rc_calls r)" "rc_calls r ! i = Enter WAITACCEPT" "sk_state s = sk_state (rc_sock r)" "sk_events s = sk_events (rc_sock r)"
  shows "race_inv (r\<lparr>rc_sock := s, rc_calls := without i (rc_calls r), rc_refused := Suc (rc_refused r)\<rparr>)"
proof -
  note t = to_come_without(1) [OF assms(2)]
  have "set (to_come (without i (rc_calls r))) \<subseteq> set (to_come (rc_calls r))" using arg_cong [OF t, of set_mset] by auto
  then show ?thesis using assms t by (auto simp: race_inv_def heard_def)
qed

lemma race_inv_same:
  assumes "race_inv r" "sk_state s = sk_state (rc_sock r)" "heard s = heard (rc_sock r)" "HANDSHAKE \<notin> set (sk_events s)" "to_come ps = to_come (rc_calls r)"
  shows "race_inv (r\<lparr>rc_sock := s, rc_calls := ps\<rparr>)"
  using assms by (simp add: race_inv_def)

lemma enter_tells:
  assumes "state_enter env st s = Some (b, s')" "st \<noteq> WAITACCEPT" "st \<noteq> RECVDATA"
  shows "sk_state s' = sk_state s \<and> sk_events s' = sk_events s @ to_come [Enter st]"
  using assms by (cases st) (auto simp: state_enter_def enter_closed_def reset_wbuf_def sk_emit_def split: if_splits option.splits)

lemma accept_tells:
  assumes "accept_enter env s = Some (ok, s')"
  shows "sk_state s' = sk_state s \<and> sk_events s' = sk_events s @ (if ok then [WAITACCEPT] else [])"
  using assms by (auto simp: accept_enter_def set_wbuf_def sk_emit_def sock_close_def push_io_def Let_def split: if_splits option.splits)

lemma race_inv_step:
  assumes "race_inv r" "race_step r r'"
  shows "race_inv r'"
  using assms(2)
proof cases
  case (move old new s)
  then show ?thesis using race_inv_move [OF assms(1)] by simp
next
  case (enter i st env b s)
  have "st \<noteq> RECVDATA"
    using assms(1) to_come_without(1) [OF enter(2)] enter(3) by (auto simp: race_inv_def dest: arg_cong [where f = set_mset])
  from enter_tells [OF enter(5,4) this] show ?thesis
    unfolding enter(1) by (intro race_inv_event [OF assms(1) enter(2)]) (simp_all add: enter(3))
next
  case (accept i env s)
  from accept_tells [OF accept(4)] show ?thesis
    unfolding accept(1) by (intro race_inv_event [OF assms(1) accept(2)]) (simp_all add: accept(3))
next
  case (refuse i env s)
  from accept_tells [OF refuse(4)] show ?thesis unfolding refuse(1) by (intro race_inv_refuse [OF assms(1) refuse(2,3)]) simp_all
next
  case (skip i s)
  have "may_move WAITACCEPT ESTABLISH" by (simp add: may_move_def)
  moreover have "to_come (without i (rc_calls r)) = to_come (rc_calls r)" using to_come_without(3) [OF skip(2)] skip(3) by simp
  ultimately show ?thesis unfolding skip(1) using race_inv_move [OF assms(1) _ skip(5)] by simp
next
  case (skipped i)
  have "to_come (without i (rc_calls r)) = to_come (rc_calls r)" using to_come_without(3) [OF skipped(2)] skipped(3) by simp
  then show ?thesis using race_inv_same [OF assms(1), of "rc_sock r"] assms(1) skipped(1) by (simp add: race_inv_def)
next
  case raw
  then show ?thesis using race_inv_same [OF assms(1), of "sk_emit RECVDATA (rc_sock r)" "rc_calls r"] assms(1)
    by (simp add: race_inv_def) (simp add: sk_emit_def)
next
  case (other s)
  then show ?thesis using race_inv_same [OF assms(1), of s "rc_calls r"] assms(1) by (simp add: race_inv_def heard_def)
qed

lemma race_inv_start: "sock_start s \<Longrightarrow> race_inv (race_init s)"
  by (auto simp: sock_start_def sock_new_def configure_server_def race_inv_def race_init_def heard_def told_def)

lemma race_reach_inv:
  assumes "race_reach s0 r" "sock_start s0"
  shows "race_inv r"
  using assms by (induction rule: race_reach.induct) (auto intro: race_inv_step race_inv_start)

lemma path_tracked: "path CLOSED ms = Some st \<Longrightarrow> track (told ms) = Some (seen st)"
proof (induction ms arbitrary: st rule: rev_induct)
  case (snoc m ms)
  obtain old new where m: "m = (old, new)" by (cases m)
  then have p: "path CLOSED ms = Some old" "may_move old new" "st = new" using snoc(2) by (simp_all add: path_snoc split: if_splits)
  have "track (told ms) = Some (seen old)" by (rule snoc(1) [OF p(1)])
  then show ?case using p(2,3) m by (auto simp: told_snoc may_move_def sk_move_def seen_def)
qed (simp add: told_def seen_def)

section \<open>The runs of \<open>Socket\<close>\<close>

text \<open>A call of \<open>state_change\<close> that nobody interrupts.\<close>

lemma race_enter_last:
  assumes "race_reach s0 r" "rc_calls r = [Enter st]" "st \<noteq> WAITACCEPT" "state_enter env st (rc_sock r) = Some (b, s)"
  shows "race_reach s0 (r\<lparr>rc_sock := s, rc_calls := []\<rparr>)"
  using race_reach.step [OF assms(1) race_step.enter [where i = 0 and st = st and env = env and b = b and s = s]] assms
  by (simp add: without_def)

lemma race_grant:
  assumes "race_reach s0 r" "rc_calls r = [] \<or> rc_calls r = [Skip_accept] \<and> skip_server_accept (rc_sock r)"
  shows "\<exists>r'. race_reach s0 r' \<and> rc_sock r' = snd (grant (rc_sock r)) \<and> rc_calls r' = []"
proof (cases "sk_state (rc_sock r) = WAITACCEPT")
  case False
  then show ?thesis
  proof (cases "rc_calls r = []")
    case True
    with assms(1) False show ?thesis by (auto simp: grant_def)
  next
    case skip: False
    then have "race_step r (r\<lparr>rc_calls := without 0 (rc_calls r)\<rparr>)"
      using assms(2) False by (intro race_step.skipped) (auto simp: state_cas_def)
    then have "race_reach s0 (r\<lparr>rc_calls := []\<rparr>)" using race_reach.step [OF assms(1)] skip assms(2) by (simp add: without_def)
    then show ?thesis using False by (intro exI [of _ "r\<lparr>rc_calls := []\<rparr>"]) (simp add: grant_def)
  qed
next
  case True
  let ?s = "(rc_sock r)\<lparr>sk_state := ESTABLISH\<rparr>"
  have c: "state_cas ESTABLISH WAITACCEPT (rc_sock r) = (True, ?s)" using True by (simp add: state_cas_def)
  have "race_step r (made_move WAITACCEPT ESTABLISH ?s [] r)"
    using assms(2)
  proof
    assume "rc_calls r = []"
    then show ?thesis using race_step.move [OF _ c] by (simp add: may_move_def)
  next
    assume "rc_calls r = [Skip_accept] \<and> skip_server_accept (rc_sock r)"
    then show ?thesis using race_step.skip [where i = 0, OF _ _ _ c] by (simp add: without_def)
  qed
  from race_reach.step [OF assms(1) this]
  have "race_reach s0 ((made_move WAITACCEPT ESTABLISH ?s [] r)\<lparr>rc_sock := sk_emit ESTABLISH ?s, rc_calls := []\<rparr>)"
    by (rule race_enter_last [where st = ESTABLISH and b = True and env = undefined]) (simp_all add: made_move_def state_enter_def)
  then show ?thesis using True by (intro exI [of _ "(made_move WAITACCEPT ESTABLISH ?s [] r)\<lparr>rc_sock := sk_emit ESTABLISH ?s, rc_calls := []\<rparr>"])
      (simp add: grant_def)
qed

lemma race_change:
  assumes "race_reach s0 r" "rc_calls r = []" "sk_move new old" "state_change env new old (rc_sock r) = Some (b, s)"
  shows "\<exists>r'. race_reach s0 r' \<and> rc_sock r' = s \<and> rc_calls r' = []"
proof (cases "sk_state (rc_sock r) = old")
  case False
  then have "s = rc_sock r" using assms(4) by (simp add: state_change_eq)
  then show ?thesis using assms(1,2) by blast
next
  case True
  let ?s = "(rc_sock r)\<lparr>sk_state := new\<rparr>"
  let ?r = "made_move old new ?s [] r"
  have c: "state_cas new old (rc_sock r) = (True, ?s)" using True by (simp add: state_cas_def)
  have "race_step r ?r" using race_step.move [OF _ c] assms(2,3) by (simp add: may_move_def)
  then have r: "race_reach s0 ?r" by (rule race_reach.step [OF assms(1)])
  have calls: "rc_calls ?r = [Enter new]" "rc_sock ?r = ?s" by (simp_all add: made_move_def)
  have e: "state_enter env new ?s = Some (b, s)" using assms(4) c by (simp add: state_change_def)
  show ?thesis
  proof (cases "new = WAITACCEPT")
    case False
    from race_enter_last [OF r calls(1) False, of env b s] e show ?thesis unfolding calls(2) by fastforce
  next
    case w: True
    then obtain ok s1 where a: "accept_enter env ?s = Some (ok, s1)" "s = (if ok \<and> skip_server_accept s1 then snd (grant s1) else s1)"
      using e by (auto simp: state_enter_def enter_waitaccept_def split: option.splits)
    show ?thesis
    proof (cases ok)
      case False
      have "race_step ?r (?r\<lparr>rc_sock := s1, rc_calls := without 0 (rc_calls ?r), rc_refused := Suc (rc_refused ?r)\<rparr>)"
        by (rule race_step.refuse [where env = env]) (use a False calls w in simp_all)
      from race_reach.step [OF r this] show ?thesis using a(2) False calls
        by (intro exI [of _ "?r\<lparr>rc_sock := s1, rc_calls := without 0 (rc_calls ?r), rc_refused := Suc (rc_refused ?r)\<rparr>"]) (simp add: without_def)
    next
      case True
      let ?r1 = "?r\<lparr>rc_sock := s1, rc_calls := without 0 (rc_calls ?r) @ [Skip_accept]\<rparr>"
      have "race_step ?r ?r1" by (rule race_step.accept [where env = env]) (use a True calls w in simp_all)
      then have r1: "race_reach s0 ?r1" by (rule race_reach.step [OF r])
      have c1: "rc_calls ?r1 = [Skip_accept]" "rc_sock ?r1 = s1" using calls by (simp_all add: without_def)
      show ?thesis
      proof (cases "skip_server_accept s1")
        case True
        then show ?thesis using race_grant [OF r1] c1 a(2) \<open>ok\<close> by simp
      next
        case False
        then have "race_step ?r1 (?r1\<lparr>rc_calls := without 0 (rc_calls ?r1)\<rparr>)" using c1 by (intro race_step.skipped) simp_all
        from race_reach.step [OF r1 this] show ?thesis using c1 a(2) False by (fastforce simp: without_def)
      qed
    qed
  qed
qed

text \<open>So whatever a run of \<open>Socket\<close> reaches is reached here, with no call in progress.\<close>

definition race_covers :: "sock \<Rightarrow> sock \<Rightarrow> bool" where
  "race_covers s0 s \<longleftrightarrow> (\<exists>r. race_reach s0 r \<and> rc_sock r = s \<and> rc_calls r = [])"

lemma race_covers_other:
  assumes "race_covers s0 s" "sk_state s' = sk_state s" "sk_events s' = sk_events s \<or> s' = sk_emit RECVDATA s"
  shows "race_covers s0 s'"
proof -
  obtain r where r: "race_reach s0 r" "rc_sock r = s" "rc_calls r = []" using assms(1) by (auto simp: race_covers_def)
  have "race_step r (r\<lparr>rc_sock := s'\<rparr>)"
    using assms(3)
  proof
    assume "sk_events s' = sk_events s"
    then show ?thesis using assms(2) r(2) by (intro race_step.other) simp_all
  next
    assume "s' = sk_emit RECVDATA s"
    then show ?thesis using race_step.raw [of r] r(2) by simp
  qed
  from race_reach.step [OF r(1) this] show ?thesis unfolding race_covers_def using r(3) by (intro exI [of _ "r\<lparr>rc_sock := s'\<rparr>"]) simp
qed

interpretation covered: sock_invariant "race_covers s0" "\<lambda>_. True" for s0
proof
  show "race_covers s0 s' = race_covers s0 s" if "same_core s s'" for s s'
    using that race_covers_other [of s0 s s'] race_covers_other [of s0 s' s] by (auto simp: same_core_def)
  show "race_covers s0 s'" if "race_covers s0 s" "sk_move new old" "state_change env new old s = Some (q, s')" for s env new old q s'
    using that race_change by (fastforce simp: race_covers_def)
  show "race_covers s0 (snd (grant s))" if "race_covers s0 s" for s
    using that race_grant by (fastforce simp: race_covers_def)
qed (auto intro: race_covers_other simp: sk_emit_def)

lemma atomic_runs_covered: "sk_reach P s0 s \<Longrightarrow> race_covers s0 s"
proof (induction rule: sk_reach.induct)
  case refl
  show ?case unfolding race_covers_def by (intro exI [of _ "race_init s0"]) (simp add: race_init_def race_reach.start [unfolded race_init_def])
next
  case (step s env op s')
  then show ?case using covered.step_keeps [of s0 s env op s'] by simp
qed

section \<open>Properties\<close>

lemma mset_count: "count_list xs x = count (mset xs) x"
  by (induction xs) auto

text \<open>C4: However the calls of \<open>state_change\<close> of several threads interleave, with the compare-and-swap and the event of a
  call as separate steps, the moves of the state lead from \<open>CLOSED\<close> to the present state, each from where the one before
  ended, and every move but those to \<open>HANDSHAKE\<close> is told once: its event was emitted or the call that has to emit it is still in progress, except that
  a connection which the write poller refuses (\<open>set_wbuf\<close>, \<^verbatim>\<open>socket.h:177\<close>) has no \<open>WAITACCEPT\<close>.  When none was refused and no move was
  made while an event of an earlier one was still to come, the events come in the order of the moves: acceptance, establishment, end.
  Otherwise they need not: \<open>CLOSED\<close> can be told before \<open>ESTABLISH\<close> (\<open>closed_overtakes\<close>).  \<open>RECVDATA\<close> is no move.\<close>

theorem moves_are_told:
  assumes "sock_start s0" and "race_reach s0 r"
  shows "path CLOSED (rc_moves r) = Some (sk_state (rc_sock r))
    \<and> (\<forall>st. count_list (heard (rc_sock r)) st + count_list (to_come (rc_calls r)) st + (if st = WAITACCEPT then rc_refused r else 0)
        = count_list (told (rc_moves r)) st)
    \<and> (rc_overtaken r \<or> 0 < rc_refused r
      \<or> heard (rc_sock r) @ to_come (rc_calls r) = told (rc_moves r) \<and> track (told (rc_moves r)) = Some (seen (sk_state (rc_sock r))))"
proof (intro conjI allI)
  have inv: "race_inv r" by (rule race_reach_inv [OF assms(2,1)])
  then show p: "path CLOSED (rc_moves r) = Some (sk_state (rc_sock r))" by (simp add: race_inv_def)
  fix st
  have "count (mset (heard (rc_sock r)) + mset (to_come (rc_calls r)) + replicate_mset (rc_refused r) WAITACCEPT) st = count (mset (told (rc_moves r))) st"
    using inv by (simp add: race_inv_def)
  then show "count_list (heard (rc_sock r)) st + count_list (to_come (rc_calls r)) st + (if st = WAITACCEPT then rc_refused r else 0)
      = count_list (told (rc_moves r)) st"
    by (simp add: mset_count)
next
  have inv: "race_inv r" by (rule race_reach_inv [OF assms(2,1)])
  then show "rc_overtaken r \<or> 0 < rc_refused r
      \<or> heard (rc_sock r) @ to_come (rc_calls r) = told (rc_moves r) \<and> track (told (rc_moves r)) = Some (seen (sk_state (rc_sock r)))"
    using path_tracked by (auto simp: race_inv_def)
qed

text \<open>A connection that was accepted, granted by the user and at the same time closed by the loop.\<close>

lemma closed_overtakes:
  assumes "race_reach s0 r" "sk_state (rc_sock r) = WAITACCEPT" "sk_fd (rc_sock r) = Some fd"
  shows "\<exists>r'. race_reach s0 r' \<and> rc_calls r' = rc_calls r \<and> rc_moves r' = rc_moves r @ [(WAITACCEPT, ESTABLISH), (ESTABLISH, CLOSED)]
    \<and> rc_refused r' = rc_refused r \<and> sk_events (rc_sock r') = sk_events (rc_sock r) @ [CLOSED, ESTABLISH]"
proof -
  let ?s1 = "(rc_sock r)\<lparr>sk_state := ESTABLISH\<rparr>" and ?n = "length (rc_calls r)"
  let ?s2 = "(rc_sock r)\<lparr>sk_state := CLOSED\<rparr>"
  define r1 where "r1 = made_move WAITACCEPT ESTABLISH ?s1 (rc_calls r) r"
  define r2 where "r2 = made_move ESTABLISH CLOSED ?s2 (rc_calls r1) r1"
  have 1: "race_reach s0 r1" unfolding r1_def
    by (rule race_reach.step [OF assms(1)], rule race_step.move) (simp_all add: may_move_def state_cas_def assms(2))
  have 2: "race_reach s0 r2" unfolding r2_def
    by (rule race_reach.step [OF 1], rule race_step.move) (simp_all add: may_move_def state_cas_def r1_def made_move_def)
  obtain s3 where s3: "enter_closed ?s2 = Some s3" "sk_events s3 = sk_events (rc_sock r) @ [CLOSED]"
    using assms(3) by (simp add: enter_closed_def reset_wbuf_def sk_emit_def)
  define r3 where "r3 = r2\<lparr>rc_sock := s3, rc_calls := without (Suc ?n) (rc_calls r2)\<rparr>"
  have c2: "rc_calls r2 = rc_calls r @ [Enter ESTABLISH, Enter CLOSED]" "rc_sock r2 = ?s2" by (simp_all add: r2_def r1_def made_move_def)
  have 3: "race_reach s0 r3" unfolding r3_def
    by (rule race_reach.step [OF 2], rule race_step.enter [where st = CLOSED and b = True and env = undefined])
      (simp_all add: c2 nth_append state_enter_def s3(1))
  have c3: "rc_calls r3 = rc_calls r @ [Enter ESTABLISH]" "rc_sock r3 = s3" by (simp_all add: r3_def c2 without_def)
  define r4 where "r4 = r3\<lparr>rc_sock := sk_emit ESTABLISH s3, rc_calls := without ?n (rc_calls r3)\<rparr>"
  have "race_reach s0 r4" unfolding r4_def
    by (rule race_reach.step [OF 3], rule race_step.enter [where st = ESTABLISH and b = True and env = undefined])
      (simp_all add: c3 state_enter_def)
  moreover have "rc_calls r4 = rc_calls r" "sk_events (rc_sock r4) = sk_events (rc_sock r) @ [CLOSED, ESTABLISH]"
    by (simp_all add: r4_def c3 without_def sk_emit_def s3(2))
  moreover have "rc_moves r4 = rc_moves r @ [(WAITACCEPT, ESTABLISH), (ESTABLISH, CLOSED)]" "rc_refused r4 = rc_refused r"
    by (simp_all add: r4_def r3_def r2_def r1_def made_move_def)
  ultimately show ?thesis by blast
qed

lemma accepted_example:
  "\<exists>r. race_reach sock_new r \<and> sk_state (rc_sock r) = WAITACCEPT \<and> sk_fd (rc_sock r) = Some 5 \<and> rc_calls r = [] \<and> sk_events (rc_sock r) = [WAITACCEPT]"
proof -
  obtain s where s: "sk_reach (\<lambda>_. True) sock_new s" "sk_fd s = Some 5" "sk_state s = WAITACCEPT" "sk_events s = [WAITACCEPT]"
    using accepted_reach_example [of "\<lambda>_. True"] by auto
  then show ?thesis using atomic_runs_covered [OF s(1)] by (auto simp: race_covers_def)
qed

theorem moves_are_told_witness:
  "\<exists>r :: race. heard (rc_sock r) = [WAITACCEPT, CLOSED, ESTABLISH] \<and> sk_state (rc_sock r) = CLOSED
    \<and> count_list (told (rc_moves r)) ESTABLISH = 1 \<and> (rc_overtaken r \<or> 0 < rc_refused r)"
proof -
  obtain r0 where r0: "race_reach sock_new r0" "sk_state (rc_sock r0) = WAITACCEPT" "sk_fd (rc_sock r0) = Some 5" "rc_calls r0 = []"
    "sk_events (rc_sock r0) = [WAITACCEPT]" using accepted_example by blast
  obtain r where r: "race_reach sock_new r" "rc_calls r = []" "rc_moves r = rc_moves r0 @ [(WAITACCEPT, ESTABLISH), (ESTABLISH, CLOSED)]"
    "sk_events (rc_sock r) = [WAITACCEPT, CLOSED, ESTABLISH]" using closed_overtakes [OF r0(1-3)] r0(4,5) by auto
  note t = moves_are_told [OF example_starts r(1)]
  have h: "heard (rc_sock r) = [WAITACCEPT, CLOSED, ESTABLISH]" by (simp add: heard_def r(4))
  have "path CLOSED (rc_moves r) = Some CLOSED"
    using conjunct1 [OF t] r(3) path_snoc [of CLOSED "rc_moves r0 @ [(WAITACCEPT, ESTABLISH)]" ESTABLISH CLOSED] by (simp split: if_splits)
  then have "sk_state (rc_sock r) = CLOSED" using conjunct1 [OF t] by simp
  moreover have "count_list (told (rc_moves r)) ESTABLISH = 1"
    using spec [OF conjunct1 [OF conjunct2 [OF t]], of ESTABLISH] r(2) h by simp
  moreover have "rc_overtaken r \<or> 0 < rc_refused r"
  proof -
    have "track [WAITACCEPT, CLOSED, ESTABLISH] = None" by (simp add: track_def)
    then show ?thesis using conjunct2 [OF conjunct2 [OF t]] r(2) h by (metis append_Nil2 option.distinct(1) to_come.simps(1))
  qed
  ultimately show ?thesis using h by (intro exI [of _ r]) simp
qed

end
