(* ===== verification/Resume.thy ===== *)
theory Resume
  imports MpakProps
begin

text \<open>
  Parsing \<^verbatim>\<open>src/src/serializer/mpak/mpak.h\<close> over several calls.  Between two calls the arena of the parser changes and the
  buffer may have been moved; the lemmas show that neither matters, and what a parser in the middle of a message
  does with the bytes that are still to come.
\<close>

section \<open>Another arena\<close>

text \<open>The parser does not depend on the arena it takes storage from; sizes are bounded in a strict run.\<close>

definition like :: "parse_context \<Rightarrow> parse_context \<Rightarrow> bool" where
  "like c d \<longleftrightarrow> stack_height d = stack_height c \<and> at_work d = at_work c \<and> stack d = stack c
     \<and> (sbf c \<noteq> None \<longrightarrow> sbf d \<noteq> None)"

definition like_out :: "outcome \<Rightarrow> outcome \<Rightarrow> bool" where
  "like_out x y \<longleftrightarrow> (case x of None \<Rightarrow> True
     | Some (Inl (r, c, p)) \<Rightarrow> \<exists>d. y = Some (Inl (r, d, p)) \<and> like c d \<and> (r \<in> {UNPACK_SUCCESS, UNPACK_EXTRA_BYTES} \<longrightarrow> sbf d = None)
     | Some (Inr (c, p)) \<Rightarrow> \<exists>d. y = Some (Inr (d, p)) \<and> like c d)"

named_theorems alike \<open>operations of the parser do not look at the arena\<close>

lemma likeD [alike]:
  assumes "like c d"
  shows "sp d = sp c" "stack_height d = stack_height c" "stack d = stack c" "at_work d = at_work c"
  using assms by (auto simp: like_def sp_def)

lemma like_upd: "like c d \<Longrightarrow> like (upd_sp f c) (upd_sp f d)"
  by (auto simp: like_def upd_sp_def sp_def)

lemma like_set: "like c d \<Longrightarrow> like (set_d v c) (set_d v d)"
  by (auto simp: like_def set_d_def sp_def)

lemma like_ways:
  assumes "like c d"
  shows "like_out (wait_next_buffer c p) (wait_next_buffer d p)" "like_out (keepstack c p) (keepstack d p)"
    "like_out (parse_error c p) (parse_error d p)" "like_out (pushstack obj c p) (pushstack obj d p)"
    "like_out (popstack c p) (popstack d p)" "like_out None y"
  using assms
  by (auto simp: like_out_def like_def wait_next_buffer_def keepstack_def parse_error_def pushstack_def popstack_def
      upd_sp_def sp_def init_context_def Let_def)

lemma like_if: "like_out x y \<Longrightarrow> like_out x' y' \<Longrightarrow> like_out (if q then x else x') (if q then y else y')"
  by simp

lemma like_container:
  assumes "like c d" and "init_container (\<lambda>_. True) n v sz c = Some (r, c')" and "sz * n \<le> 2 ^ 63"
  shows "r = Inr () \<and> (\<exists>d'. init_container (\<lambda>_. True) n v sz d = Some (Inr (), d') \<and> like c' d')"
proof (cases "sz = 0")
  case True
  with assms like_set [OF assms(1)] show ?thesis by (auto simp: init_container_def)
next
  case False
  with assms(1,2) have s: "sbf c \<noteq> None" "sbf d \<noteq> None" by (auto simp: init_container_def like_def split: option.splits)
  from container_total [of "\<lambda>_. True", OF _ s(1) assms(3), of v] container_total [of "\<lambda>_. True", OF _ s(2) assms(3), of v]
  obtain ar br where "init_container (\<lambda>_. True) n v sz c = Some (Inr (), set_d v (c\<lparr>sbf := Some ar\<rparr>))"
    "init_container (\<lambda>_. True) n v sz d = Some (Inr (), set_d v (d\<lparr>sbf := Some br\<rparr>))" by auto
  moreover have "like (c\<lparr>sbf := Some ar\<rparr>) (d\<lparr>sbf := Some br\<rparr>)" using assms(1) by (auto simp: like_def)
  ultimately show ?thesis using assms(2) like_set by auto
qed

lemma like_length_check:
  assumes "like c d" and "require_len (sp c) < 2 ^ 32"
  shows "like_out (length_check (\<lambda>_. True) c p) (length_check (\<lambda>_. True) d p)"
proof -
  have sz: "require_len (sp c) * 24 \<le> 2 ^ 63" "require_len (sp c) * 48 \<le> 2 ^ 63" using assms(2) by simp_all
  show ?thesis
  proof (cases "require_type (sp c)")
    case ARRAY
    show ?thesis
    proof (cases "init_array (\<lambda>_. True) (require_len (sp c)) c")
      case None
      with ARRAY show ?thesis by (simp add: length_check_def like_ways(6) [OF assms(1)])
    next
      case (Some y)
      then obtain r c' where y: "init_container (\<lambda>_. True) 24 (ArrayD (replicate (require_len (sp c)) Uninit)) (require_len (sp c)) c
          = Some (r, c')" by (cases y) (auto simp: init_array_def)
      from like_container [OF assms(1) y sz(1)] obtain d' where "r = Inr ()" and l: "like c' d'" and
        "init_container (\<lambda>_. True) 24 (ArrayD (replicate (require_len (sp c)) Uninit)) (require_len (sp c)) d = Some (Inr (), d')"
        by auto
      with ARRAY y likeD [OF assms(1)] likeD [OF l] show ?thesis
        by (simp add: length_check_def init_array_def Let_def like_ways(4) [OF like_upd [OF l]] like_ways(5) [OF l])
    qed
  next
    case MAP
    show ?thesis
    proof (cases "init_map (\<lambda>_. True) (require_len (sp c)) c")
      case None
      with MAP show ?thesis by (simp add: length_check_def like_ways(6) [OF assms(1)])
    next
      case (Some y)
      then obtain r c' where y: "init_container (\<lambda>_. True) 48 (MapD (replicate (require_len (sp c)) (Uninit, Uninit))) (require_len (sp c)) c
          = Some (r, c')" by (cases y) (auto simp: init_map_def)
      from like_container [OF assms(1) y sz(2)] obtain d' where "r = Inr ()" and l: "like c' d'" and
        "init_container (\<lambda>_. True) 48 (MapD (replicate (require_len (sp c)) (Uninit, Uninit))) (require_len (sp c)) d = Some (Inr (), d')"
        by auto
      with MAP y likeD [OF assms(1)] likeD [OF l] show ?thesis
        by (simp add: length_check_def init_map_def Let_def like_ways(4) [OF like_upd [OF l]] like_ways(5) [OF l])
    qed
  qed (use like_ways(2) [OF like_upd [OF assms(1)]] likeD [OF assms(1)] in \<open>simp_all add: length_check_def\<close>)
qed


lemma U8_bound: "unat (x :: U8) < 2 ^ 32"
proof -
  have "unat x < 2 ^ LENGTH(8)" by (rule unsigned_less)
  then show ?thesis by simp
qed

lemma like_tag:
  assumes l: "like c d"
  shows "like_out (unpack_tag (\<lambda>_. True) b c p) (unpack_tag (\<lambda>_. True) b d p)"
proof -
  have k: "like_out (keepstack (upd_sp f c) p) (keepstack (upd_sp f d) p)" for f by (rule like_ways [OF like_upd [OF l]])
  then have t: "like_out
      (case unpack_table ! n of (s, m, t) \<Rightarrow> keepstack (upd_sp (\<lambda>f. f\<lparr>status := s, require_len := m, require_type := t\<rparr>) c) p)
      (case unpack_table ! n of (s, m, t) \<Rightarrow> keepstack (upd_sp (\<lambda>f. f\<lparr>status := s, require_len := m, require_type := t\<rparr>) d) p)"
    for n by (simp split: prod.split)
  show ?thesis
    unfolding unpack_tag_def
    by (intro like_if k t like_ways l like_set like_length_check like_upd) (simp_all add: U8_bound [simplified])
qed

lemma like_step:
  assumes l: "like c d" and s: "\<not> strange c"
  shows "like_out (unpack_step (\<lambda>_. True) f2d c p) (unpack_step (\<lambda>_. True) f2d d p)"
proof -
  note same = likeD [OF l]
  note ways = like_ways [OF l] like_ways [OF like_upd [OF l]] like_ways [OF like_set [OF l]]
  have len: "like_out (unpack_length (\<lambda>_. True) c p) (unpack_length (\<lambda>_. True) d p)" if "status (sp c) = PROCESS_LENGTH"
  proof -
    have "require_len (sp c) \<in> {2, 4}" using s that by (auto simp: strange_def)
    moreover have "unat (cast_U16 p) < 2 ^ LENGTH(16)" "unat (cast_U32 p) < 2 ^ LENGTH(32)" by (rule unsigned_less)+
    ultimately show ?thesis
      unfolding unpack_length_def Let_def same
      by (intro like_if ways like_length_check like_upd l) auto
  qed
  have data: "like_out (unpack_data f2d c p) (unpack_data f2d d p)"
    unfolding unpack_data_def Let_def same
    by (cases "require_type (sp c)") (simp_all only: data_kind.simps, (intro like_if ways)+)
  have init: "like_out (unpack_initial (\<lambda>_. True) c p) (unpack_initial (\<lambda>_. True) d p)"
    unfolding unpack_initial_def using like_tag [OF l] ways(1) by (simp split: prod.split)
  have rest: "like_out (unpack_array c p) (unpack_array d p)" "like_out (unpack_map c p) (unpack_map d p)"
    "like_out (unpack_map_val c p) (unpack_map_val d p)"
    unfolding unpack_array_def unpack_map_def unpack_map_val_def Let_def
    using like_ways [OF like_upd [OF l]] like_ways [OF like_upd [OF like_upd [OF l]]] same by simp_all
  show ?thesis
    using len data init rest ways(6) same by (cases "status (sp c)") (simp_all add: unpack_step_def)
qed

lemma like_run:
  assumes "run True (\<lambda>_. True) f2d c p = Some (r, c', p')" and "like c d"
  shows "\<exists>d'. run True (\<lambda>_. True) f2d d p = Some (r, d', p') \<and> at_work d' = at_work c' \<and> stack_height d' = stack_height c'
    \<and> stack d' = stack c' \<and> (r \<in> {UNPACK_SUCCESS, UNPACK_EXTRA_BYTES} \<longrightarrow> sbf d' = None)"
  using assms
proof (induction arbitrary: d rule: run_induct)
  case (finished c p)
  have "\<not> strange d" using finished(1) likeD [OF finished(3)] by (simp add: strange_def)
  with finished like_step [OF finished(3), of f2d p] likeD show ?case
    by (fastforce simp: like_out_def run.simps [of True "\<lambda>_. True" f2d d p])
next
  case (goes_on c p c1 p1)
  have s: "\<not> strange d" using goes_on(1) likeD [OF goes_on(4)] by (simp add: strange_def)
  from goes_on(1,2) like_step [OF goes_on(4), of f2d p] obtain d1 where
    "unpack_step (\<lambda>_. True) f2d d p = Some (Inr (d1, p1))" "like c1 d1" by (auto simp: like_out_def)
  with goes_on(3) [of d1] s show ?case by (simp add: run.simps [of True "\<lambda>_. True" f2d d p])
qed

section \<open>The buffer of a parse\<close>

text \<open>Only the read position moves, and forward.\<close>

definition onward :: "pbuf \<Rightarrow> pbuf \<Rightarrow> bool" where
  "onward p q \<longleftrightarrow> q = p\<lparr>m_ofs := m_ofs q\<rparr> \<and> (in_order p \<longrightarrow> in_order q \<and> m_ofs p \<le> m_ofs q)"

definition moved :: "pbuf \<Rightarrow> outcome \<Rightarrow> bool" where
  "moved p x \<longleftrightarrow> (case x of None \<Rightarrow> True | Some (Inl (r, c, q)) \<Rightarrow> onward p q | Some (Inr (c, q)) \<Rightarrow> onward p q)"

lemma onward_trans: "onward p q \<Longrightarrow> onward q s \<Longrightarrow> onward p s"
  unfolding onward_def by (metis (no_types) order_trans pbuf.select_convs(5) pbuf.surjective pbuf.update_convs(5))

lemma moved_ways:
  assumes "onward p q"
  shows "moved p (wait_next_buffer c q)" "moved p (keepstack c q)" "moved p (parse_error c q)" "moved p (pushstack obj c q)"
    "moved p (popstack c q)" "moved p None"
  using assms by (simp_all add: moved_def wait_next_buffer_def keepstack_def parse_error_def pushstack_def popstack_def Let_def)

lemma moved_length_check:
  assumes "onward p q"
  shows "moved p (length_check mok c q)"
  using moved_ways [OF assms] by (auto simp: length_check_def Let_def split: data_kind.splits option.splits sum.splits)

lemma moved_if: "(\<not> q \<Longrightarrow> moved p x) \<Longrightarrow> (q \<Longrightarrow> moved p y) \<Longrightarrow> moved p (if \<not> q then x else y)"
  by simp

lemma onward_parsed: "fits n p \<Longrightarrow> onward p (parsed n p)"
  using parsed_eq [of p n] fits_iff [of p n]
  by (auto simp: onward_def parsed_def add_parsed_ofs_def in_order_def)

lemma moved_step: "moved p (unpack_step mok f2d c p)"
proof -
  note q = onward_parsed
  have same: "onward p p" by (simp add: onward_def)
  have pop: "onward p (snd (pbuf_pop p))" if "pbuf_readable p" using that by (auto simp: onward_def in_order_def code_defs)
  have "moved p (unpack_tag mok b c (snd (pbuf_pop p)))" if "pbuf_readable p" for b
    using moved_ways [OF pop [OF that]] moved_length_check [OF pop [OF that]] by (simp add: unpack_tag_def split: prod.split)
  then have "moved p (unpack_initial mok c p)" using moved_ways [OF same] by (fastforce simp: unpack_initial_def split: prod.split)
  moreover have "moved p (unpack_length mok c p)"
    unfolding unpack_length_def Let_def by (rule moved_if) (use moved_ways [OF same] moved_length_check [OF q] in auto)
  moreover have "moved p (unpack_data f2d c p)"
    unfolding unpack_data_def Let_def
    by (rule moved_if) (use moved_ways [OF same] moved_ways [OF q] in \<open>auto split: data_kind.split\<close>)
  moreover have "moved p (unpack_array c p)" "moved p (unpack_map c p)" "moved p (unpack_map_val c p)"
    using moved_ways [OF same] by (simp_all add: unpack_array_def unpack_map_def unpack_map_val_def Let_def)
  ultimately show ?thesis using moved_ways(6) [OF same] by (cases "status (sp c)") (simp_all add: unpack_step_def)
qed

lemma run_moves: "run st mok f2d c p = Some (r, c', p') \<Longrightarrow> onward p p'"
proof (induction rule: run_induct)
  case (finished c p)
  then show ?case using moved_step [of p mok f2d c] by (simp add: moved_def)
next
  case (goes_on c p c1 p1)
  then have "onward p p1" using moved_step [of p mok f2d c] by (simp add: moved_def)
  with goes_on(3) onward_trans show ?case by blast
qed

section \<open>In the middle of a message\<close>

text \<open>
  \<open>expects f2d c m bs\<close>: with \<open>bs\<close> and whatever follows, the parser at \<open>c\<close> finishes the message \<open>m\<close> and leaves what
  follows; \<open>awaiting\<close> is the same between two calls, whichever arena the next one has.
\<close>

definition expects :: "(U32 \<Rightarrow> U64) \<Rightarrow> parse_context \<Rightarrow> msg \<Rightarrow> U8 list \<Rightarrow> bool" where
  "expects f2d c m bs \<longleftrightarrow> (\<forall>q rest. in_order q \<and> unread q = bs @ rest \<and> length rest < 2 ^ 30 \<longrightarrow>
     (\<exists>c' q'. run True (\<lambda>_. True) f2d c q = Some (if rest = [] then UNPACK_SUCCESS else UNPACK_EXTRA_BYTES, c', q')
       \<and> at_work c' = dec f2d m \<and> fresh_parser c' \<and> in_order q' \<and> unread q' = rest))"

definition awaiting :: "(U32 \<Rightarrow> U64) \<Rightarrow> parse_context \<Rightarrow> msg \<Rightarrow> U8 list \<Rightarrow> bool" where
  "awaiting f2d c m bs \<longleftrightarrow> (\<forall>ar. expects f2d (c\<lparr>sbf := Some ar\<rparr>) m bs)"

lemma awaiting_fresh: "fresh_parser c \<Longrightarrow> depth m < 16 \<Longrightarrow> awaiting f2d c m (enc m)"
  unfolding awaiting_def expects_def
  by (intro allI impI reads_all_run) (simp_all add: fresh_parser_def)

lemma expects_like:
  assumes "expects f2d c m bs" and "like c d"
  shows "expects f2d d m bs"
  unfolding expects_def
proof (intro allI impI)
  fix q rest assume "in_order q \<and> unread q = bs @ rest \<and> length rest < 2 ^ 30"
  with assms(1) obtain c' q' where r: "run True (\<lambda>_. True) f2d c q = Some (if rest = [] then UNPACK_SUCCESS else UNPACK_EXTRA_BYTES, c', q')"
    "at_work c' = dec f2d m" "fresh_parser c'" "in_order q'" "unread q' = rest" unfolding expects_def by blast
  from like_run [OF r(1) assms(2)] r(2-5) show "\<exists>c' q'. run True (\<lambda>_. True) f2d d q
      = Some (if rest = [] then UNPACK_SUCCESS else UNPACK_EXTRA_BYTES, c', q')
    \<and> at_work c' = dec f2d m \<and> fresh_parser c' \<and> in_order q' \<and> unread q' = rest"
    by (auto simp: fresh_parser_def split: if_splits)
qed

lemma awaiting_expects: "expects f2d c m bs \<Longrightarrow> awaiting f2d c m bs"
  unfolding awaiting_def by (intro allI) (erule expects_like, simp add: like_def)

text \<open>A buffer that ends within the message: the parser waits for the rest of it.\<close>

definition buffer_of :: "U8 list \<Rightarrow> pbuf" where
  "buffer_of bs = \<lparr>m_ptr = None, m_mem = (\<lambda>i. bs ! i), m_len = length bs, m_limit = length bs, m_ofs = 0\<rparr>"

lemma buffer_of: "length bs < 2 ^ 31 \<Longrightarrow> in_order (buffer_of bs) \<and> unread (buffer_of bs) = bs"
  by (simp add: buffer_of_def in_order_def unread_def bytes_at_def map_nth)

lemma expects_more:
  assumes e: "expects f2d c m (unread p @ y)" and p: "in_order p" and y: "y \<noteq> []" and len: "length (unread p @ y) < 2 ^ 30"
  shows "\<exists>c' p'. run True (\<lambda>_. True) f2d c p = Some (UNPACK_CONTINUE, c', p') \<and> in_order p' \<and> expects f2d c' m (unread p' @ y)"
proof -
  let ?q = "buffer_of (unread p @ y)"
  have q: "in_order ?q" "unread ?q = unread p @ y" using buffer_of [of "unread p @ y"] len by auto
  then obtain c1 q1 where whole: "run True (\<lambda>_. True) f2d c ?q = Some (UNPACK_SUCCESS, c1, q1)" "unread q1 = []"
    using e [unfolded expects_def, THEN spec [of _ ?q], THEN spec [of _ "[]"]] by auto
  have a: "ahead y p ?q" using p q by (simp add: ahead_def)
  from run_defined [OF whole(1) a] obtain r c' p' where r: "run True (\<lambda>_. True) f2d c p = Some (r, c', p')" by auto
  have "r = UNPACK_CONTINUE"
  proof (rule ccontr)
    assume "r \<noteq> UNPACK_CONTINUE"
    with run_same [OF r a] whole y show False by (auto simp: ahead_def)
  qed
  note r = r [unfolded this]
  from run_ahead [OF r a] have p': "in_order p'" by (auto simp: ahead_def)
  have "expects f2d c' m (unread p' @ y)"
    unfolding expects_def
  proof (intro allI impI)
    fix b rest assume b: "in_order b \<and> unread b = (unread p' @ y) @ rest \<and> length rest < 2 ^ 30"
    let ?q = "buffer_of (unread p @ y @ rest)"
    have q: "in_order ?q" "unread ?q = (unread p @ y) @ rest" using buffer_of [of "unread p @ y @ rest"] len b by auto
    from e q b obtain c1 q1 where whole:
      "run True (\<lambda>_. True) f2d c ?q = Some (if rest = [] then UNPACK_SUCCESS else UNPACK_EXTRA_BYTES, c1, q1)"
      "at_work c1 = dec f2d m" "fresh_parser c1" "in_order q1" "unread q1 = rest" unfolding expects_def by blast
    have "ahead (y @ rest) p ?q" using p q by (simp add: ahead_def)
    from run_ahead [OF r this] obtain q' where q': "ahead (y @ rest) p' q'"
      "run True (\<lambda>_. True) f2d c ?q = run True (\<lambda>_. True) f2d c' q'" by blast
    have "ahead [] q' b" using q'(1) b by (simp add: ahead_def)
    from run_same [OF whole(1) [unfolded q'(2)] this] whole show "\<exists>c'' q'. run True (\<lambda>_. True) f2d c' b
        = Some (if rest = [] then UNPACK_SUCCESS else UNPACK_EXTRA_BYTES, c'', q')
      \<and> at_work c'' = dec f2d m \<and> fresh_parser c'' \<and> in_order q' \<and> unread q' = rest"
      by (auto simp: ahead_def)
  qed
  with r p' show ?thesis by blast
qed

end
