(* ===== verification/Receive.thy ===== *)
theory Receive
  imports Socket Resume
begin

text \<open>
  \<^verbatim>\<open>src/src/handler/socket.hpp\<close>: what a socket does when its descriptor is readable.  It reads into its packet
  buffer (\<open>Pbuf\<close>), lets the parser (\<open>Unpack\<close>) go on where it stopped, and hands every complete message to the
  fabric.  The memory of the buffer is shared with the messages that were read from it, so \<open>reserve\<close> may move the
  unread bytes in the middle of a message.

  \<open>rv_in\<close> are the bytes the system has received and not handed over, \<open>rv_dg\<close> the datagrams with their senders.
  What the fabric does with a message is the parameter \<open>recv\<close> on a state of its own, its answer is whether the
  result was not negative.  Allocations succeed.

  The lemmas: the messages of a stream are delivered in order and completely, however the system cuts it; a datagram
  that ends within a message is completed by the next one, whoever sent it.
\<close>

section \<open>Reading\<close>

datatype rd_end = Rd_open | Rd_eof | Rd_reset

datatype rd_result = Rd_bytes "U8 list" | Rd_again | Rd_fail

record 'w receiver =
  rv_pbf :: pbuf
  rv_sr :: parse_context
  rv_cells :: cells
  rv_in :: "U8 list"
  rv_dg :: "(U32 \<times> U8 list) list"
  rv_end :: rd_end
  rv_w :: 'w

definition MINIMUM_FREE_PBUF :: nat where
  "MINIMUM_FREE_PBUF = 1024"

definition DGRAM_MTU :: nat where
  "DGRAM_MTU = 1492"

text \<open>\<open>read\<close> and \<open>recvfrom\<close> of the system with room for \<open>n\<close> bytes; what does not fit of a datagram is lost.\<close>

definition rv_read :: "nat \<Rightarrow> 'w receiver \<Rightarrow> rd_result \<times> 'w receiver" where
  "rv_read n r =
     (if rv_in r \<noteq> [] then (Rd_bytes (take n (rv_in r)), r\<lparr>rv_in := drop n (rv_in r)\<rparr>)
      else (case rv_end r of Rd_open \<Rightarrow> Rd_again | Rd_eof \<Rightarrow> Rd_bytes [] | Rd_reset \<Rightarrow> Rd_fail, r))"

definition rv_recvfrom :: "nat \<Rightarrow> 'w receiver \<Rightarrow> (U32 \<times> rd_result) \<times> 'w receiver" where
  "rv_recvfrom n r =
     (case rv_dg r of
        (a, bs) # ds \<Rightarrow> ((a, Rd_bytes (take n bs)), r\<lparr>rv_dg := ds\<rparr>)
      | [] \<Rightarrow> ((0, if rv_end r = Rd_reset then Rd_fail else Rd_again), r))"

definition read_in :: "U8 list \<Rightarrow> pbuf \<Rightarrow> pbuf" where
  "read_in bs pb = pbuf_commit (length bs) (pb\<lparr>m_mem := mem_copy (m_mem pb) (pbuf_last pb) bs\<rparr>)"

definition sr_unpack :: "(U32 \<Rightarrow> U64) \<Rightarrow> 'w receiver \<Rightarrow> ((nbr_error + unpack_ret) \<times> 'w receiver) option" where
  "sr_unpack f2d r =
     (case mpak_unpack (\<lambda>_. True) f2d (rv_sr r) (rv_pbf r) (rv_cells r) of
        None \<Rightarrow> None
      | Some (p, sr, pb, c) \<Rightarrow> Some (p, r\<lparr>rv_sr := sr, rv_pbf := pb, rv_cells := c\<rparr>))"

text \<open>The result is left when it is not \<open>nop\<close>, else what the parser returned.\<close>

definition read_and_parse ::
  "(U32 \<Rightarrow> U64) \<Rightarrow> mem \<Rightarrow> 'w receiver \<Rightarrow> ((hresult + (nbr_error + unpack_ret)) \<times> 'w receiver) option" where
  "read_and_parse f2d junk r =
     (case pbuf_reserve True junk MINIMUM_FREE_PBUF (rv_pbf r) (rv_cells r) of
        None \<Rightarrow> None
      | Some (Inl e, pb, c) \<Rightarrow> Some (Inl r_destroy, r\<lparr>rv_pbf := pb, rv_cells := c\<rparr>)
      | Some (Inr _, pb, c) \<Rightarrow>
          (case rv_read (pbuf_available pb) (r\<lparr>rv_pbf := pb, rv_cells := c\<rparr>) of
             (Rd_bytes bs, r) \<Rightarrow>
               if bs = [] then Some (Inl r_destroy, r)
               else (case sr_unpack f2d (r\<lparr>rv_pbf := read_in bs pb\<rparr>) of
                       None \<Rightarrow> None
                     | Some (p, r) \<Rightarrow> Some (Inr p, r))
           | (Rd_again, r) \<Rightarrow> Some (Inl r_read_again, r)
           | (Rd_fail, r) \<Rightarrow> Some (Inl r_destroy, r)))"

definition hand_over :: "(data \<Rightarrow> 'w \<Rightarrow> (bool \<times> 'w) option) \<Rightarrow> 'w receiver \<Rightarrow> (bool \<times> 'w receiver) option" where
  "hand_over recv r = (case recv (at_work (rv_sr r)) (rv_w r) of None \<Rightarrow> None | Some (ok, w) \<Rightarrow> Some (ok, r\<lparr>rv_w := w\<rparr>))"

text \<open>From the label \<open>retry\<close> on.\<close>

partial_function (option) stream_retry ::
  "(data \<Rightarrow> 'w \<Rightarrow> (bool \<times> 'w) option) \<Rightarrow> (U32 \<Rightarrow> U64) \<Rightarrow> nbr_error + unpack_ret \<Rightarrow> 'w receiver \<Rightarrow>
     (hresult \<times> 'w receiver) option" where
  "stream_retry recv f2d pres r =
     (case pres of
        Inr UNPACK_SUCCESS \<Rightarrow>
          (case hand_over recv r of None \<Rightarrow> None | Some (ok, r) \<Rightarrow> Some (if ok then r_keep else r_destroy, r))
      | Inr UNPACK_EXTRA_BYTES \<Rightarrow>
          (case hand_over recv r of None \<Rightarrow> None
           | Some (ok, r) \<Rightarrow>
               if \<not> ok then Some (r_destroy, r)
               else (case sr_unpack f2d r of None \<Rightarrow> None | Some (p, r) \<Rightarrow> stream_retry recv f2d p r))
      | Inr UNPACK_CONTINUE \<Rightarrow> Some (r_keep, r)
      | _ \<Rightarrow> Some (r_destroy, r))"

definition read_stream ::
  "(data \<Rightarrow> 'w \<Rightarrow> (bool \<times> 'w) option) \<Rightarrow> (U32 \<Rightarrow> U64) \<Rightarrow> mem \<Rightarrow> 'w receiver \<Rightarrow> (hresult \<times> 'w receiver) option" where
  "read_stream recv f2d junk r =
     (case read_and_parse f2d junk r of
        None \<Rightarrow> None
      | Some (Inl h, r) \<Rightarrow> Some (h, r)
      | Some (Inr p, r) \<Rightarrow> stream_retry recv f2d p r)"

partial_function (option) dgram_retry ::
  "(data \<Rightarrow> 'w \<Rightarrow> (bool \<times> 'w) option) \<Rightarrow> (U32 \<Rightarrow> U64) \<Rightarrow> 'w receiver \<Rightarrow> (hresult \<times> 'w receiver) option" where
  "dgram_retry recv f2d r =
     (case sr_unpack f2d r of
        None \<Rightarrow> None
      | Some (Inr UNPACK_SUCCESS, r) \<Rightarrow>
          (case hand_over recv r of None \<Rightarrow> None | Some (ok, r) \<Rightarrow> Some (if ok then r_keep else r_destroy, r))
      | Some (Inr UNPACK_EXTRA_BYTES, r) \<Rightarrow>
          (case hand_over recv r of None \<Rightarrow> None
           | Some (ok, r) \<Rightarrow> if \<not> ok then Some (r_destroy, r) else dgram_retry recv f2d r)
      | Some (Inr UNPACK_CONTINUE, r) \<Rightarrow> Some (r_keep, r)
      | Some (_, r) \<Rightarrow> Some (r_destroy, r))"

text \<open>Every way through the body of the \<open>while (true)\<close> returns.\<close>

definition read_dgram ::
  "(U32 \<Rightarrow> data \<Rightarrow> 'w \<Rightarrow> (bool \<times> 'w) option) \<Rightarrow> (U32 \<Rightarrow> U64) \<Rightarrow> mem \<Rightarrow> 'w receiver \<Rightarrow> (hresult \<times> 'w receiver) option" where
  "read_dgram recv f2d junk r =
     (case pbuf_reserve True junk DGRAM_MTU (rv_pbf r) (rv_cells r) of
        None \<Rightarrow> None
      | Some (Inl e, pb, c) \<Rightarrow> Some (r_destroy, r\<lparr>rv_pbf := pb, rv_cells := c\<rparr>)
      | Some (Inr _, pb, c) \<Rightarrow>
          (case rv_recvfrom (pbuf_available pb) (r\<lparr>rv_pbf := pb, rv_cells := c\<rparr>) of
             ((a, Rd_bytes bs), r) \<Rightarrow> dgram_retry (recv a) f2d (r\<lparr>rv_pbf := read_in bs pb\<rparr>)
           | ((a, Rd_again), r) \<Rightarrow> Some (r_read_again, r)
           | ((a, Rd_fail), r) \<Rightarrow> Some (r_destroy, r)))"


section \<open>The buffer of a socket\<close>

lemma grow_doubles: "\<lbrakk>grow sz limit = Some r; 0 < limit; sz \<le> 2 ^ 62\<rbrakk> \<Longrightarrow> r = limit \<or> r < 2 * sz"
proof (induction "sz - limit" arbitrary: limit rule: less_induct)
  case less
  show ?case
  proof (cases "limit < sz")
    case True
    with less.prems(3) have "(limit * 2) mod 2 ^ 64 = limit * 2" by simp
    then have g: "grow sz (limit * 2) = Some r" using less.prems(1) grow_step [OF True] by simp
    have "sz - limit * 2 < sz - limit" using True less.prems(2) by linarith
    from less.hyps [OF this g] less.prems True show ?thesis by auto
  next
    case False
    with less.prems show ?thesis by simp
  qed
qed

definition counted :: "pbuf \<Rightarrow> cells \<Rightarrow> bool" where
  "counted pb c \<longleftrightarrow> (\<exists>a n. m_ptr pb = Some a \<and> cnt c a = Some n \<and> a < fresh c)"

definition sized :: "pbuf \<Rightarrow> bool" where
  "sized pb \<longleftrightarrow> pbuf_inv pb \<and> m_limit pb \<le> 2 ^ 30"

lemma sized_in_order: "sized pb \<Longrightarrow> in_order pb"
  by (simp add: sized_def pbuf_inv_def in_order_def)

lemma sized_onward:
  assumes "sized p" and "onward p q"
  shows "sized q" and "m_ptr q = m_ptr p" and "length (unread q) \<le> length (unread p)"
proof -
  from assms have ord: "in_order q" "m_ofs p \<le> m_ofs q" and q: "q = p\<lparr>m_ofs := m_ofs q\<rparr>"
    using sized_in_order by (auto simp: onward_def)
  have f: "m_len q = m_len p" "m_ptr q = m_ptr p" "m_limit q = m_limit p" by (subst q, simp)+
  then show "sized q" "m_ptr q = m_ptr p" "length (unread q) \<le> length (unread p)"
    using assms(1) ord by (auto simp: sized_def pbuf_inv_def in_order_def)
qed

lemma reserve_sized:
  assumes "sized pb" and "m_ptr pb \<noteq> None \<Longrightarrow> counted pb c" and "0 < sz" and "sz + length (unread pb) \<le> 2 ^ 29"
  shows "\<exists>pb' c'. pbuf_reserve True junk sz pb c = Some (Inr 0, pb', c') \<and> unread pb' = unread pb
    \<and> sized pb' \<and> counted pb' c' \<and> sz \<le> pbuf_available pb'"
proof -
  have inv: "pbuf_inv pb" and lim: "m_limit pb \<le> 2 ^ 30" using assms(1) by (simp_all add: sized_def)
  have bound: "m_limit pb' \<le> 2 ^ 30" if r: "pbuf_reserve True junk sz pb c = Some (Inr 0, pb', c')" for pb' c'
  proof (cases "sz \<le> pbuf_available pb")
    case True
    with r lim show ?thesis by (simp add: reserve_enough)
  next
    case False
    have le: "l \<le> 2 ^ 30" if "grow s l0 = Some l" "0 < l0" "s \<le> 2 ^ 29" "l0 \<le> 2 ^ 30" for s l0 l
      using grow_doubles [OF that(1,2)] that(3,4) by auto
    have "(sz + (m_len pb - m_ofs pb)) mod 2 ^ 64 \<le> 2 ^ 29" using assms(4) by simp
    then show ?thesis
      using r False le [of "(sz + (m_len pb - m_ofs pb)) mod 2 ^ 64" "m_limit pb"] le [of sz INITIAL_BUFFER_SIZE] inv lim assms(4)
      by (auto simp: pbuf_reserve_def code_defs Let_def cell_new_def INITIAL_BUFFER_SIZE_def pbuf_inv_def split: option.splits)
  qed
  show ?thesis
  proof (cases "m_ptr pb")
    case None
    then have "unread pb = []" using inv by (simp add: unread_def pbuf_inv_def bytes_at_def)
    moreover have "sz \<le> 2 ^ 63" using assms(4) by simp
    from reserve_first [OF assms(3) None inv this, of junk c] obtain pb' where
      p: "pbuf_reserve True junk sz pb c = Some (Inr 0, pb', snd (cell_new c))" "m_ptr pb' = Some (fresh c)" "unread pb' = []"
      "pbuf_inv pb'" "sz \<le> pbuf_available pb'" by auto
    moreover have "counted pb' (snd (cell_new c))" using p(2) by (simp add: counted_def cell_new_def)
    ultimately show ?thesis using bound [OF p(1)] by (auto simp: sized_def)
  next
    case (Some old)
    with assms(2) obtain n where n: "cnt c old = Some n" "old < fresh c" by (auto simp: counted_def)
    show ?thesis
    proof (cases "pbuf_available pb < sz")
      case True
      have "sz + m_len pb \<le> 2 ^ 63" using assms(1,4) by (auto simp: sized_def pbuf_inv_def)
      from reserve_grow [OF True Some n inv this, of junk] obtain pb' c' where
        p: "pbuf_reserve True junk sz pb c = Some (Inr 0, pb', c')" "ptr_unref old (snd (cell_new c)) = Some c'"
        "m_ptr pb' = Some (fresh c)" "unread pb' = unread pb" "pbuf_inv pb'" "sz \<le> pbuf_available pb'" by auto
      moreover have "counted pb' c'"
        using p(2,3) n(2) by (auto simp: counted_def ptr_unref_def cell_new_def split: option.splits)
      ultimately show ?thesis using bound [OF p(1)] by (auto simp: sized_def)
    next
      case False
      with assms(1,2) Some show ?thesis by (intro exI [of _ pb] exI [of _ c]) (simp add: reserve_enough)
    qed
  qed
qed

lemma read_in_sized:
  assumes "sized pb" and "counted pb c" and "length bs \<le> pbuf_available pb"
  shows "unread (read_in bs pb) = unread pb @ bs" and "sized (read_in bs pb)" and "counted (read_in bs pb) c"
proof -
  let ?m = "mem_copy (m_mem pb) (m_len pb) bs"
  have o: "m_ofs pb \<le> m_len pb" "m_len pb + length bs \<le> m_limit pb"
    using assms(1,3) by (auto simp: sized_def pbuf_inv_def code_defs)
  have "bytes_at ?m (m_ofs pb) (m_len pb + length bs - m_ofs pb)
      = bytes_at ?m (m_ofs pb) (m_len pb - m_ofs pb) @ bytes_at ?m (m_len pb) (length bs)"
    using o(1) by (simp add: bytes_at_def flip: map_append upt_add_eq_append)
  then show "unread (read_in bs pb) = unread pb @ bs"
    using o(1) by (simp add: unread_def read_in_def code_defs mem_simps)
  show "sized (read_in bs pb)" "counted (read_in bs pb) c"
    using assms o by (auto simp: sized_def pbuf_inv_def counted_def read_in_def code_defs)
qed

section \<open>One call of the parser\<close>

lemma unpack_call:
  assumes "counted pb c"
  shows "\<exists>ar c'. mpak_unpack (\<lambda>_. True) f2d ctx pb c = (case unpack_loop (\<lambda>_. True) f2d (ctx\<lparr>sbf := Some ar\<rparr>) pb of
       None \<Rightarrow> None | Some (r, ctx, pb) \<Rightarrow> Some (Inr r, ctx, pb, c'))
    \<and> (\<forall>q. m_ptr q = m_ptr pb \<longrightarrow> counted q c')"
proof -
  let ?ar = "case sbf ctx of None \<Rightarrow> arena_init | Some ar \<Rightarrow> ar"
  obtain a n where a: "m_ptr pb = Some a" "cnt c a = Some n" "a < fresh c" using assms by (auto simp: counted_def)
  obtain ch ar' where m: "sbuf_malloc True 16 ?ar = Some (Inr ch, ar')" using malloc_total [of 16 ?ar] by auto
  with a show ?thesis
    by (intro exI [of _ "ar'\<lparr>m_refs := a # m_refs ar'\<rparr>"] exI [of _ "c\<lparr>cnt := (cnt c)(a \<mapsto> n + 1)\<rparr>"])
      (simp add: mpak_unpack_def sbuf_refer_def ptr_refer_def counted_def)
qed

lemma call_more:
  assumes w: "awaiting f2d sr m (unread pb @ y)" and y: "y \<noteq> []" "length (unread pb @ y) < 2 ^ 30"
    and pb: "sized pb" "counted pb c"
  shows "\<exists>sr' pb' c'. mpak_unpack (\<lambda>_. True) f2d sr pb c = Some (Inr UNPACK_CONTINUE, sr', pb', c')
    \<and> awaiting f2d sr' m (unread pb' @ y) \<and> sized pb' \<and> counted pb' c' \<and> length (unread pb') \<le> length (unread pb)"
proof -
  from unpack_call [OF pb(2), of f2d sr] obtain ar c' where
    call: "mpak_unpack (\<lambda>_. True) f2d sr pb c = (case unpack_loop (\<lambda>_. True) f2d (sr\<lparr>sbf := Some ar\<rparr>) pb of
       None \<Rightarrow> None | Some (r, ctx, pb) \<Rightarrow> Some (Inr r, ctx, pb, c'))" "\<forall>q. m_ptr q = m_ptr pb \<longrightarrow> counted q c'" by blast
  have "expects f2d (sr\<lparr>sbf := Some ar\<rparr>) m (unread pb @ y)" using w by (simp add: awaiting_def)
  from expects_more [OF this sized_in_order [OF pb(1)] y] obtain s p where
    r: "run True (\<lambda>_. True) f2d (sr\<lparr>sbf := Some ar\<rparr>) pb = Some (UNPACK_CONTINUE, s, p)" "expects f2d s m (unread p @ y)"
    by blast
  from run_as_loop [OF r(1)] call awaiting_expects [OF r(2)] sized_onward [OF pb(1) run_moves [OF r(1)]]
  show ?thesis by auto
qed

lemma call_done:
  assumes w: "awaiting f2d sr m bs" and u: "unread pb = bs @ rest" "length rest < 2 ^ 30"
    and pb: "sized pb" "counted pb c"
  shows "\<exists>sr' pb' c'. mpak_unpack (\<lambda>_. True) f2d sr pb c
      = Some (Inr (if rest = [] then UNPACK_SUCCESS else UNPACK_EXTRA_BYTES), sr', pb', c')
    \<and> at_work sr' = dec f2d m \<and> fresh_parser sr' \<and> unread pb' = rest \<and> sized pb' \<and> counted pb' c'"
proof -
  from unpack_call [OF pb(2), of f2d sr] obtain ar c' where
    call: "mpak_unpack (\<lambda>_. True) f2d sr pb c = (case unpack_loop (\<lambda>_. True) f2d (sr\<lparr>sbf := Some ar\<rparr>) pb of
       None \<Rightarrow> None | Some (r, ctx, pb) \<Rightarrow> Some (Inr r, ctx, pb, c'))" "\<forall>q. m_ptr q = m_ptr pb \<longrightarrow> counted q c'" by blast
  have "expects f2d (sr\<lparr>sbf := Some ar\<rparr>) m bs" using w by (simp add: awaiting_def)
  then obtain s p where
    r: "run True (\<lambda>_. True) f2d (sr\<lparr>sbf := Some ar\<rparr>) pb = Some (if rest = [] then UNPACK_SUCCESS else UNPACK_EXTRA_BYTES, s, p)"
      "at_work s = dec f2d m" "fresh_parser s" "unread p = rest"
    using u sized_in_order [OF pb(1)] unfolding expects_def by blast
  from run_as_loop [OF r(1)] call r(2-4) sized_onward [OF pb(1) run_moves [OF r(1)]] show ?thesis by auto
qed


section \<open>Messages are handed over\<close>

fun recv_all :: "(data \<Rightarrow> 'w \<Rightarrow> (bool \<times> 'w) option) \<Rightarrow> data list \<Rightarrow> 'w \<Rightarrow> 'w option" where
  "recv_all recv [] w = Some w"
| "recv_all recv (d # ds) w = (case recv d w of Some (True, w') \<Rightarrow> recv_all recv ds w' | _ \<Rightarrow> None)"

fun_cases recv_all_ConsE: "recv_all recv (d # ds) w = Some w'"

lemma recv_all_append:
  "recv_all recv (ds @ es) w = (case recv_all recv ds w of None \<Rightarrow> None | Some w' \<Rightarrow> recv_all recv es w')"
  by (induction recv ds w rule: recv_all.induct) (auto split: option.split bool.split)

text \<open>The receiver needs \<open>ys\<close> for the messages \<open>ms\<close>; of the first it may have a part.\<close>

definition waits :: "(U32 \<Rightarrow> U64) \<Rightarrow> msg list \<Rightarrow> U8 list \<Rightarrow> parse_context \<Rightarrow> pbuf \<Rightarrow> bool" where
  "waits f2d ms ys sr pb \<longleftrightarrow> (case ms of
       [] \<Rightarrow> ys = [] \<and> fresh_parser sr \<and> unread pb = []
     | m # ms' \<Rightarrow> \<exists>y. y \<noteq> [] \<and> length y \<le> length (enc m) \<and> ys = y @ encs ms' \<and> awaiting f2d sr m (unread pb @ y))"

definition unpack_then where
  "unpack_then recv f2d r = (case sr_unpack f2d r of None \<Rightarrow> None | Some (p, r) \<Rightarrow> stream_retry recv f2d p r)"

lemma enc_not_empty: "enc m \<noteq> []"
  using length_encs [of "[m]"] by auto

lemma fresh_waits:
  assumes "fresh_parser sr" and "unread pb = []" and "\<forall>m \<in> set ms. depth m < 16"
  shows "waits f2d ms (encs ms) sr pb"
proof (cases ms)
  case (Cons m ms')
  with assms awaiting_fresh [OF assms(1), of m f2d] enc_not_empty [of m] show ?thesis by (simp add: waits_def)
qed (use assms in \<open>simp add: waits_def\<close>)

definition delivered ::
  "(data \<Rightarrow> 'w \<Rightarrow> (bool \<times> 'w) option) \<Rightarrow> (U32 \<Rightarrow> U64) \<Rightarrow> msg list \<Rightarrow> U8 list \<Rightarrow> 'w receiver \<Rightarrow> 'w receiver \<Rightarrow> bool" where
  "delivered recv f2d ms ys r r' \<longleftrightarrow> (\<exists>ds rest. ms = ds @ rest \<and> recv_all recv (map (dec f2d) ds) (rv_w r) = Some (rv_w r')
     \<and> waits f2d rest ys (rv_sr r') (rv_pbf r') \<and> sized (rv_pbf r') \<and> counted (rv_pbf r') (rv_cells r')
     \<and> length (unread (rv_pbf r')) \<le> length (unread (rv_pbf r))
     \<and> rv_in r' = rv_in r \<and> rv_dg r' = rv_dg r \<and> rv_end r' = rv_end r)"

lemma unpack_delivers:
  assumes "awaiting f2d (rv_sr r) m bs" and "bs @ encs ms = unread (rv_pbf r) @ ys"
    and "length bs \<le> length (unread (rv_pbf r)) + length (enc m)" and "length (bs @ encs ms) < 2 ^ 30"
    and "sized (rv_pbf r)" and "counted (rv_pbf r) (rv_cells r)" and "\<forall>m \<in> set ms. depth m < 16"
    and "recv_all recv (map (dec f2d) (m # ms)) (rv_w r) \<noteq> None"
  shows "\<exists>r'. unpack_then recv f2d r = Some (r_keep, r') \<and> delivered recv f2d (m # ms) ys r r'"
  using assms
proof (induction "length ms" arbitrary: ms m bs r rule: less_induct)
  case less
  let ?pb = "rv_pbf r"
  note w = less.prems(1) and pb = less.prems(5,6)
  consider (more) y where "bs = unread ?pb @ y" "y \<noteq> []" "ys = y @ encs ms"
    | (whole) x where "unread ?pb = bs @ x" "encs ms = x @ ys"
  proof -
    from less.prems(2) obtain us where us: "bs = unread ?pb @ us \<and> ys = us @ encs ms \<or> unread ?pb = bs @ us \<and> encs ms = us @ ys"
      unfolding append_eq_append_conv2 by metis
    then show ?thesis using that(1) [of us] that(2) [of us] that(2) [of "[]"] by (cases "us = []") auto
  qed
  then show ?case
  proof cases
    case more
    from less.prems(4) more(1) have "length (unread ?pb @ y) < 2 ^ 30" by simp
    from call_more [OF w [unfolded more(1)] more(2) this pb] obtain sr' pb' c' where
      c: "mpak_unpack (\<lambda>_. True) f2d (rv_sr r) ?pb (rv_cells r) = Some (Inr UNPACK_CONTINUE, sr', pb', c')"
      "awaiting f2d sr' m (unread pb' @ y)" "sized pb'" "counted pb' c'" "length (unread pb') \<le> length (unread ?pb)" by blast
    let ?r = "r\<lparr>rv_sr := sr', rv_pbf := pb', rv_cells := c'\<rparr>"
    have "unpack_then recv f2d r = Some (r_keep, ?r)"
      using c(1) by (simp add: unpack_then_def sr_unpack_def stream_retry.simps)
    moreover have "length y \<le> length (enc m)" using less.prems(3) more(1) by simp
    with c more have "delivered recv f2d (m # ms) ys r ?r"
      unfolding delivered_def by (intro exI [of _ "[]"] exI [of _ "m # ms"]) (simp add: waits_def del: length_unread)
    ultimately show ?thesis by blast
  next
    case whole
    obtain w1 where w1: "recv (dec f2d m) (rv_w r) = Some (True, w1)" "recv_all recv (map (dec f2d) ms) w1 \<noteq> None"
      using less.prems(8) by (auto elim!: recv_all_ConsE split: option.splits prod.splits bool.splits)
    from less.prems(4) whole have "length x < 2 ^ 30" by simp
    from call_done [OF w whole(1) this pb] obtain sr' pb' c' where
      c: "mpak_unpack (\<lambda>_. True) f2d (rv_sr r) ?pb (rv_cells r)
        = Some (Inr (if x = [] then UNPACK_SUCCESS else UNPACK_EXTRA_BYTES), sr', pb', c')"
      "at_work sr' = dec f2d m" "fresh_parser sr'" "unread pb' = x" "sized pb'" "counted pb' c'" by blast
    let ?r = "r\<lparr>rv_sr := sr', rv_pbf := pb', rv_cells := c', rv_w := w1\<rparr>"
    have shorter: "length (unread pb') \<le> length (unread ?pb)" using c(4) whole(1) by (simp del: length_unread)
    show ?thesis
    proof (cases "x = []")
      case True
      then have "unpack_then recv f2d r = Some (r_keep, ?r)"
        using c(1,2) w1(1) by (simp add: unpack_then_def sr_unpack_def stream_retry.simps hand_over_def)
      moreover have "delivered recv f2d (m # ms) ys r ?r"
        unfolding delivered_def
        using fresh_waits [OF c(3), of pb' ms f2d] c True whole(2) less.prems(7) w1(1) shorter
        by (intro exI [of _ "[m]"] exI [of _ ms]) (simp del: length_unread)
      ultimately show ?thesis by blast
    next
      case False
      with whole(2) obtain m2 ms2 where ms: "ms = m2 # ms2" by (cases ms) auto
      have "awaiting f2d sr' m2 (enc m2)" using c(3) less.prems(7) by (intro awaiting_fresh) (simp_all add: ms)
      then have "\<exists>r'. unpack_then recv f2d ?r = Some (r_keep, r') \<and> delivered recv f2d (m2 # ms2) ys ?r r'"
        using less.prems(4,7) c whole(2) w1(2) by (intro less.hyps) (auto simp: ms simp del: length_unread)
      then obtain r' where r': "unpack_then recv f2d ?r = Some (r_keep, r')" "delivered recv f2d (m2 # ms2) ys ?r r'" by blast
      have "unpack_then recv f2d r = unpack_then recv f2d ?r"
        using c(1,2) w1(1) False
        by (simp add: unpack_then_def sr_unpack_def stream_retry.simps [of _ _ "Inr UNPACK_EXTRA_BYTES"] hand_over_def)
      moreover from r'(2) obtain ds rest where d: "m2 # ms2 = ds @ rest" "recv_all recv (map (dec f2d) ds) w1 = Some (rv_w r')"
        "waits f2d rest ys (rv_sr r') (rv_pbf r')" "sized (rv_pbf r')" "counted (rv_pbf r') (rv_cells r')"
        "length (unread (rv_pbf r')) \<le> length (unread pb')" "rv_in r' = rv_in r" "rv_dg r' = rv_dg r" "rv_end r' = rv_end r"
        by (auto simp: delivered_def)
      have "delivered recv f2d (m # ms) ys r r'"
        unfolding delivered_def using d w1(1) shorter ms
        by (intro exI [of _ "m # ds"] exI [of _ rest]) (simp del: length_unread)
      ultimately show ?thesis using r'(1) by auto
    qed
  qed
qed


section \<open>A stream\<close>

definition going :: "(U32 \<Rightarrow> U64) \<Rightarrow> U8 list \<Rightarrow> msg list \<Rightarrow> 'w receiver \<Rightarrow> bool" where
  "going f2d tail ms r \<longleftrightarrow> waits f2d ms (rv_in r @ tail) (rv_sr r) (rv_pbf r) \<and> sized (rv_pbf r)
     \<and> (m_ptr (rv_pbf r) \<noteq> None \<longrightarrow> counted (rv_pbf r) (rv_cells r)) \<and> rv_end r = Rd_open
     \<and> length (unread (rv_pbf r)) + length (rv_in r @ tail) \<le> 2 ^ 28"

lemma waits_same: "unread q = unread p \<Longrightarrow> waits f2d ms ys sr q = waits f2d ms ys sr p"
  by (cases ms) (simp_all add: waits_def)

lemma read_stream_delivers:
  assumes g: "going f2d tail ms r" and d: "\<forall>m \<in> set ms. depth m < 16" and rc: "recv_all recv (map (dec f2d) ms) (rv_w r) \<noteq> None"
  shows "\<exists>h r' b ds rest. read_stream recv f2d junk r = Some (h, r') \<and> h \<in> {r_keep, r_read_again}
    \<and> rv_in r = b @ rv_in r' \<and> (length (rv_in r) \<le> 1024 \<longrightarrow> rv_in r' = []) \<and> ms = ds @ rest
    \<and> recv_all recv (map (dec f2d) ds) (rv_w r) = Some (rv_w r') \<and> going f2d tail rest r'"
proof -
  have w: "waits f2d ms (rv_in r @ tail) (rv_sr r) (rv_pbf r)" and len: "length (unread (rv_pbf r)) + length (rv_in r @ tail) \<le> 2 ^ 28"
    and s: "sized (rv_pbf r)" "m_ptr (rv_pbf r) \<noteq> None \<Longrightarrow> counted (rv_pbf r) (rv_cells r)" "rv_end r = Rd_open"
    using g by (simp_all add: going_def del: length_unread)
  have "MINIMUM_FREE_PBUF + length (unread (rv_pbf r)) \<le> 2 ^ 29" using len by (simp add: MINIMUM_FREE_PBUF_def del: length_unread)
  from reserve_sized [OF s(1,2) _ this, of junk] obtain pb c where
    pb: "pbuf_reserve True junk MINIMUM_FREE_PBUF (rv_pbf r) (rv_cells r) = Some (Inr 0, pb, c)" "unread pb = unread (rv_pbf r)"
    "sized pb" "counted pb c" "1024 \<le> pbuf_available pb"
    by (auto simp: MINIMUM_FREE_PBUF_def simp del: length_unread)
  show ?thesis
  proof (cases "rv_in r")
    case Nil
    let ?r = "r\<lparr>rv_pbf := pb, rv_cells := c\<rparr>"
    have "read_stream recv f2d junk r = Some (r_read_again, ?r)"
      using pb(1) Nil s(3) by (simp add: read_stream_def read_and_parse_def rv_read_def)
    moreover have "going f2d tail ms ?r"
      using w len s(3) pb waits_same [OF pb(2)] by (simp add: going_def del: length_unread)
    ultimately show ?thesis
      using Nil by (intro exI [of _ r_read_again] exI [of _ ?r] exI [of _ "[]"] exI [of _ ms]) simp
  next
    case (Cons x xs)
    let ?b = "take (pbuf_available pb) (rv_in r)" and ?t = "drop (pbuf_available pb) (rv_in r)"
    let ?r = "r\<lparr>rv_cells := c, rv_in := ?t, rv_pbf := read_in ?b pb\<rparr>"
    have b: "?b \<noteq> []" using Cons pb(5) by auto
    have rs: "read_stream recv f2d junk r = unpack_then recv f2d ?r"
      using pb(1) Cons b
      by (auto simp: read_stream_def read_and_parse_def rv_read_def unpack_then_def split: option.split prod.split)
    note ri = read_in_sized [OF pb(3,4), of ?b, simplified]
    obtain m ms' y where ms: "ms = m # ms'" and y: "y \<noteq> []" "length y \<le> length (enc m)" "rv_in r @ tail = y @ encs ms'"
      "awaiting f2d (rv_sr r) m (unread pb @ y)"
      using w Cons pb(2) by (cases ms) (auto simp: waits_def)
    have u: "unread (rv_pbf ?r) = unread pb @ ?b" using ri(1) by simp
    have "?b @ ?t @ tail = y @ encs ms'" using y(3) by (simp flip: append_assoc)
    then have a: "(unread pb @ y) @ encs ms' = unread (rv_pbf ?r) @ (?t @ tail)" unfolding u by simp
    have l: "length (unread pb @ y) \<le> length (unread (rv_pbf ?r)) + length (enc m)" unfolding u using y(2) by simp
    have l2: "length ((unread pb @ y) @ encs ms') < 2 ^ 30"
      using len arg_cong [OF y(3), of length] pb(2) by (simp del: length_unread)
    have "\<exists>r'. unpack_then recv f2d ?r = Some (r_keep, r') \<and> delivered recv f2d (m # ms') (?t @ tail) ?r r'"
      by (rule unpack_delivers [OF _ a l l2]) (use y(4) ri d rc ms in simp_all)
    then obtain r' ds rest where r': "unpack_then recv f2d ?r = Some (r_keep, r')" "ms = ds @ rest"
      "recv_all recv (map (dec f2d) ds) (rv_w r) = Some (rv_w r')" "waits f2d rest (?t @ tail) (rv_sr r') (rv_pbf r')"
      "sized (rv_pbf r')" "counted (rv_pbf r') (rv_cells r')" "length (unread (rv_pbf r')) \<le> length (unread (rv_pbf ?r))"
      "rv_in r' = ?t" "rv_end r' = rv_end r"
      unfolding delivered_def ms by (auto simp del: length_unread)
    have "length (unread (rv_pbf r')) + length (?t @ tail) \<le> 2 ^ 28"
      using r'(7) len pb(2) unfolding u by (simp del: length_unread)
    then have "going f2d tail rest r'" using r' s(3) by (simp add: going_def del: length_unread)
    then show ?thesis
      using rs r' pb(5) by (intro exI [of _ r_keep] exI [of _ r'] exI [of _ ?b] exI [of _ ds] exI [of _ rest]) simp
  qed
qed

text \<open>Bytes arrive and the socket is read, again and again.\<close>

fun receive_run ::
  "(data \<Rightarrow> 'w \<Rightarrow> (bool \<times> 'w) option) \<Rightarrow> (U32 \<Rightarrow> U64) \<Rightarrow> mem \<Rightarrow> U8 list list \<Rightarrow> 'w receiver \<Rightarrow> 'w receiver option" where
  "receive_run recv f2d junk [] r = Some r"
| "receive_run recv f2d junk (xs # xss) r =
     (case read_stream recv f2d junk (r\<lparr>rv_in := rv_in r @ xs\<rparr>) of
        Some (h, r) \<Rightarrow> if h = r_keep \<or> h = r_read_again then receive_run recv f2d junk xss r else None
      | None \<Rightarrow> None)"

lemma run_delivers:
  assumes "going f2d (concat xss @ tail) ms r" and "\<forall>m \<in> set ms. depth m < 16"
    and "recv_all recv (map (dec f2d) ms) (rv_w r) \<noteq> None"
  shows "\<exists>r' b ds rest. receive_run recv f2d junk xss r = Some r' \<and> rv_in r @ concat xss = b @ rv_in r'
    \<and> (rv_in r = [] \<and> (\<forall>xs \<in> set xss. length xs \<le> 1024) \<longrightarrow> rv_in r' = []) \<and> ms = ds @ rest
    \<and> recv_all recv (map (dec f2d) ds) (rv_w r) = Some (rv_w r') \<and> going f2d tail rest r'"
  using assms
proof (induction xss arbitrary: ms r)
  case Nil
  then show ?case by (intro exI [of _ r] exI [of _ "[]"] exI [of _ ms]) simp
next
  case (Cons xs xss)
  let ?r = "r\<lparr>rv_in := rv_in r @ xs\<rparr>"
  have "going f2d (concat xss @ tail) ms ?r" using Cons.prems(1) by (simp add: going_def)
  have rc: "recv_all recv (map (dec f2d) ms) (rv_w ?r) \<noteq> None" using Cons.prems(3) by simp
  from read_stream_delivers [OF \<open>going f2d (concat xss @ tail) ms ?r\<close> Cons.prems(2) rc, of junk] obtain h r1 b ds rest where
    h': "read_stream recv f2d junk ?r = Some (h, r1)" "h \<in> {r_keep, r_read_again}" "rv_in ?r = b @ rv_in r1"
    "length (rv_in ?r) \<le> 1024 \<longrightarrow> rv_in r1 = []" "ms = ds @ rest"
    "recv_all recv (map (dec f2d) ds) (rv_w ?r) = Some (rv_w r1)" "going f2d (concat xss @ tail) rest r1" by blast
  note h = h'(1,2) h'(3-7) [simplified]
  have "recv_all recv (map (dec f2d) rest) (rv_w r1) \<noteq> None"
    using Cons.prems(3) h(5,6) by (simp add: recv_all_append)
  moreover have "\<forall>m \<in> set rest. depth m < 16" using Cons.prems(2) h(5) by simp
  ultimately obtain r' b' ds' rest' where
    r': "receive_run recv f2d junk xss r1 = Some r'" "rv_in r1 @ concat xss = b' @ rv_in r'"
    "rv_in r1 = [] \<and> (\<forall>xs \<in> set xss. length xs \<le> 1024) \<longrightarrow> rv_in r' = []" "rest = ds' @ rest'"
    "recv_all recv (map (dec f2d) ds') (rv_w r1) = Some (rv_w r')" "going f2d tail rest' r'"
    using Cons.IH [OF h(7)] by blast
  have "rv_in r @ concat (xs # xss) = (b @ b') @ rv_in r'" using h(3) r'(2) by (metis append_assoc concat.simps(2))
  with h r' show ?case
    by (intro exI [of _ r'] exI [of _ "b @ b'"] exI [of _ "ds @ ds'"] exI [of _ rest']) (auto simp: recv_all_append)
qed

lemma encs_append: "encs (xs @ ys) = encs xs @ encs ys"
  by (induction xs) auto


section \<open>Datagrams\<close>

lemma dgram_like_stream:
  assumes "stream_retry recv f2d p r = Some x" and "sr_unpack f2d r0 = Some (p, r)"
  shows "dgram_retry recv f2d r0 = Some x"
proof -
  have "sr_unpack f2d r0 = Some (p, r) \<longrightarrow> dgram_retry recv f2d r0 = Some x" for r0
  proof (rule stream_retry.raw_induct [where P = "\<lambda>recv f2d p r x. \<forall>r0. sr_unpack f2d r0 = Some (p, r) \<longrightarrow>
        dgram_retry recv f2d r0 = Some x", OF _ assms(1), THEN spec], intro allI impI)
    fix f and recv :: "data \<Rightarrow> 'a \<Rightarrow> (bool \<times> 'a) option" and f2d p r x r0
    assume IH: "\<And>recv f2d p r x. f recv f2d p r = Some x \<Longrightarrow>
        \<forall>r0. sr_unpack f2d r0 = Some (p, r) \<longrightarrow> dgram_retry recv f2d r0 = Some (x :: hresult \<times> 'a receiver)"
      and eq: "(case p of
        Inr UNPACK_SUCCESS \<Rightarrow>
          (case hand_over recv r of None \<Rightarrow> None | Some (ok, r) \<Rightarrow> Some (if ok then r_keep else r_destroy, r))
      | Inr UNPACK_EXTRA_BYTES \<Rightarrow>
          (case hand_over recv r of None \<Rightarrow> None
           | Some (ok, r) \<Rightarrow>
               if \<not> ok then Some (r_destroy, r)
               else (case sr_unpack f2d r of None \<Rightarrow> None | Some (p, r) \<Rightarrow> f recv f2d p r))
      | Inr UNPACK_CONTINUE \<Rightarrow> Some (r_keep, r)
      | _ \<Rightarrow> Some (r_destroy, r)) = Some x"
      and r0: "sr_unpack f2d r0 = Some (p, r)"
    show "dgram_retry recv f2d r0 = Some x"
    proof (cases "p = Inr UNPACK_EXTRA_BYTES")
      case True
      with eq obtain ok r1 where h: "hand_over recv r = Some (ok, r1)" by (auto split: option.splits)
      show ?thesis
      proof (cases ok)
        case ok: True
        with eq h True obtain p2 r2 where "sr_unpack f2d r1 = Some (p2, r2)" "f recv f2d p2 r2 = Some x"
          by (auto split: option.splits)
        with IH have "dgram_retry recv f2d r1 = Some x" by blast
        with ok h True r0 show ?thesis by (simp add: dgram_retry.simps [of recv f2d r0])
      next
        case False
        with eq h True r0 show ?thesis by (simp add: dgram_retry.simps [of recv f2d r0])
      qed
    next
      case False
      with eq r0 show ?thesis
        by (cases p; cases "projr p") (simp_all add: dgram_retry.simps [of recv f2d r0])
    qed
  qed
  with assms(2) show ?thesis by simp
qed

lemma dgram_unpack: "unpack_then recv f2d r = Some x \<Longrightarrow> dgram_retry recv f2d r = Some x"
  by (auto simp: unpack_then_def split: option.splits prod.splits intro: dgram_like_stream)

definition between_messages :: "'w receiver \<Rightarrow> bool" where
  "between_messages r \<longleftrightarrow> fresh_parser (rv_sr r) \<and> unread (rv_pbf r) = [] \<and> sized (rv_pbf r)
     \<and> (m_ptr (rv_pbf r) \<noteq> None \<longrightarrow> counted (rv_pbf r) (rv_cells r))"

lemma read_dgram_reads:
  assumes "sized (rv_pbf r)" and "m_ptr (rv_pbf r) \<noteq> None \<Longrightarrow> counted (rv_pbf r) (rv_cells r)"
    and "length (unread (rv_pbf r)) \<le> 2 ^ 28" and "rv_dg r = (a, bs) # ds" and "length bs \<le> 1492"
  shows "\<exists>pb c. read_dgram recv f2d junk r = dgram_retry (recv a) f2d (r\<lparr>rv_cells := c, rv_dg := ds, rv_pbf := pb\<rparr>)
    \<and> unread pb = unread (rv_pbf r) @ bs \<and> sized pb \<and> counted pb c"
proof -
  have "DGRAM_MTU + length (unread (rv_pbf r)) \<le> 2 ^ 29" using assms(3) by (simp add: DGRAM_MTU_def del: length_unread)
  from reserve_sized [OF assms(1,2) _ this, of junk] obtain pb c where
    pb: "pbuf_reserve True junk DGRAM_MTU (rv_pbf r) (rv_cells r) = Some (Inr 0, pb, c)" "unread pb = unread (rv_pbf r)"
    "sized pb" "counted pb c" "1492 \<le> pbuf_available pb"
    by (auto simp: DGRAM_MTU_def simp del: length_unread)
  then have "length bs \<le> pbuf_available pb" using assms(5) by simp
  note ri = read_in_sized [OF pb(3,4) this]
  have "read_dgram recv f2d junk r = dgram_retry (recv a) f2d (r\<lparr>rv_cells := c, rv_dg := ds, rv_pbf := read_in bs pb\<rparr>)"
    using pb(1) assms(4) \<open>length bs \<le> pbuf_available pb\<close> by (simp add: read_dgram_def rv_recvfrom_def)
  with ri pb(2) show ?thesis by metis
qed

text \<open>A datagram of whole messages: they are handed over with its sender.\<close>

theorem datagram_is_delivered:
  assumes "between_messages r" and "rv_dg r = (a, encs ms) # ds" and "ms \<noteq> []" and "length (encs ms) \<le> 1492"
    and "\<forall>m \<in> set ms. depth m < 16" and "recv_all (recv a) (map (dec f2d) ms) (rv_w r) = Some w"
  shows "\<exists>r'. read_dgram recv f2d junk r = Some (r_keep, r') \<and> rv_w r' = w \<and> rv_dg r' = ds \<and> fresh_parser (rv_sr r')
    \<and> unread (rv_pbf r') = []"
proof -
  obtain m ms' where ms: "ms = m # ms'" using assms(3) by (cases ms) auto
  from assms(1) have b: "fresh_parser (rv_sr r)" "unread (rv_pbf r) = []" "sized (rv_pbf r)"
    "m_ptr (rv_pbf r) \<noteq> None \<Longrightarrow> counted (rv_pbf r) (rv_cells r)" by (simp_all add: between_messages_def)
  from read_dgram_reads [OF b(3,4) _ assms(2,4), of recv f2d junk] b(2) obtain pb c where
    rd: "read_dgram recv f2d junk r = dgram_retry (recv a) f2d (r\<lparr>rv_cells := c, rv_dg := ds, rv_pbf := pb\<rparr>)"
    "unread pb = encs ms" "sized pb" "counted pb c" by auto
  let ?r = "r\<lparr>rv_cells := c, rv_dg := ds, rv_pbf := pb\<rparr>"
  have "awaiting f2d (rv_sr ?r) m (enc m)" using awaiting_fresh [OF b(1)] assms(5) ms by simp
  then have "\<exists>r'. unpack_then (recv a) f2d ?r = Some (r_keep, r') \<and> delivered (recv a) f2d (m # ms') [] ?r r'"
    using rd ms assms(4-6) by (intro unpack_delivers) (simp_all, linarith+)
  then obtain r' where r': "unpack_then (recv a) f2d ?r = Some (r_keep, r')" "delivered (recv a) f2d ms [] ?r r'" using ms by blast
  from r'(2) obtain es rest where "ms = es @ rest" "recv_all (recv a) (map (dec f2d) es) (rv_w r) = Some (rv_w r')"
    "waits f2d rest [] (rv_sr r') (rv_pbf r')" "rv_dg r' = ds" by (auto simp: delivered_def)
  then show ?thesis
    using dgram_unpack [OF r'(1)] rd(1) assms(6) by (cases rest) (auto simp: waits_def)
qed

lemma meant:
  assumes "\<forall>m \<in> set ms. depth m < 16 \<and> signs_kept m"
  shows "\<forall>m \<in> set ms. depth m < 16" "map (meaning f2d) (take k ms) = map (dec f2d) (take k ms)"
    "map (meaning f2d) ms = map (dec f2d) ms"
proof -
  have same: "meaning f2d m = dec f2d m" if "m \<in> set ms" for m using assms that dec_is_meaning [of f2d m] by simp
  show "\<forall>m \<in> set ms. depth m < 16" using assms by simp
  show "map (meaning f2d) (take k ms) = map (dec f2d) (take k ms)" using same by (auto dest: in_set_takeD)
  show "map (meaning f2d) ms = map (dec f2d) ms" using same by simp
qed

lemma run_reads:
  assumes "between_messages r" and "rv_in r = []" and "rv_end r = Rd_open" and "concat xss @ tail = encs ms"
    and "length (encs ms) \<le> 2 ^ 28" and "\<forall>m \<in> set ms. depth m < 16"
    and "recv_all recv (map (dec f2d) ms) (rv_w r) \<noteq> None"
  shows "\<exists>r' n bs. receive_run recv f2d junk xss r = Some r' \<and> concat xss = bs @ rv_in r' \<and> n \<le> length ms
    \<and> recv_all recv (map (dec f2d) (take n ms)) (rv_w r) = Some (rv_w r')
    \<and> length (encs (take n ms)) \<le> length bs \<and> (n < length ms \<longrightarrow> length bs < length (encs (take (Suc n) ms)))
    \<and> ((\<forall>xs \<in> set xss. length xs \<le> MINIMUM_FREE_PBUF) \<longrightarrow> rv_in r' = [])"
proof -
  from assms(1) have b: "fresh_parser (rv_sr r)" "unread (rv_pbf r) = []" "sized (rv_pbf r)"
    "m_ptr (rv_pbf r) \<noteq> None \<longrightarrow> counted (rv_pbf r) (rv_cells r)" by (simp_all add: between_messages_def)
  have "going f2d (concat xss @ tail) ms r"
    using fresh_waits [OF b(1,2) assms(6), of f2d] b assms(2-5) by (simp add: going_def)
  from run_delivers [OF this assms(6,7), of junk] assms(2) obtain r' bs ds rest where
    r': "receive_run recv f2d junk xss r = Some r'" "concat xss = bs @ rv_in r'"
    "(\<forall>xs \<in> set xss. length xs \<le> 1024) \<longrightarrow> rv_in r' = []" "ms = ds @ rest"
    "recv_all recv (map (dec f2d) ds) (rv_w r) = Some (rv_w r')" "going f2d tail rest r'"
    by (simp only: append_Nil simp_thms) blast
  from r'(6) have w: "waits f2d rest (rv_in r' @ tail) (rv_sr r') (rv_pbf r')" by (simp add: going_def)
  have all: "bs @ rv_in r' @ tail = encs ds @ encs rest" using assms(4) r'(2,4) by (simp add: encs_append)
  have "length (encs ds) \<le> length bs \<and> (rest \<noteq> [] \<longrightarrow> length bs < length (encs ds @ enc (hd rest)))"
  proof (cases rest)
    case Nil
    with w all show ?thesis by (simp add: waits_def)
  next
    case (Cons m ms')
    with w obtain y where y: "y \<noteq> []" "length y \<le> length (enc m)" "rv_in r' @ tail = y @ encs ms'" by (auto simp: waits_def)
    from all Cons y(3) have "length (bs @ y) = length (encs ds @ enc m)" by (metis append_assoc append_same_eq encs.simps(2))
    with y(1,2) Cons show ?thesis by (cases y) auto
  qed
  moreover have "take (Suc (length ds)) ms = ds @ [hd rest]" if "rest \<noteq> []" using r'(4) that by (cases rest) auto
  ultimately show ?thesis
    using r' by (intro exI [of _ r'] exI [of _ "length ds"] exI [of _ bs]) (auto simp: encs_append MINIMUM_FREE_PBUF_def)
qed


section \<open>Properties\<close>

text \<open>
  C2: The messages of a stream are delivered.  The peer's messages reach the socket in any pieces, and after every piece
  the socket is read once.  Then what is handed to the fabric are, in order, the meanings of exactly those messages whose
  bytes have been read so far; nothing is handed over twice, and if no piece is larger than what every read has room for,
  nothing is left in the system.  This holds although the buffer may move and the parser takes a new arena between the reads.
  Provided: every message is nested less than the parser's sixteen frames (a deeper one is a parse error) and has no
  negative integer of the 8-, 16- or 32-bit forms (they lose their sign, \<^verbatim>\<open>mpak.h:842\<close>); all messages together have at most
  \<open>2 ^ 28\<close> bytes; memory is there; the connection stays open, is between two messages at the start, and the fabric accepts
  every message it is handed.
\<close>

theorem stream_is_delivered:
  assumes "between_messages r" and "rv_in r = []" and "rv_end r = Rd_open" and "concat xss @ tail = encs ms"
    and "length (encs ms) \<le> 2 ^ 28" and "\<forall>m \<in> set ms. depth m < 16 \<and> signs_kept m"
    and "recv_all recv (map (meaning f2d) ms) (rv_w r) \<noteq> None"
  shows "\<exists>r' n bs. receive_run recv f2d junk xss r = Some r' \<and> concat xss = bs @ rv_in r' \<and> n \<le> length ms
    \<and> recv_all recv (map (meaning f2d) (take n ms)) (rv_w r) = Some (rv_w r')
    \<and> length (encs (take n ms)) \<le> length bs \<and> (n < length ms \<longrightarrow> length bs < length (encs (take (Suc n) ms)))
    \<and> ((\<forall>xs \<in> set xss. length xs \<le> MINIMUM_FREE_PBUF) \<longrightarrow> rv_in r' = [])"
  using run_reads [OF assms(1-5) meant(1) [OF assms(6)]] assms(7) unfolding meant(2,3) [OF assms(6)] .

theorem stream_is_delivered_witness:
  "\<exists>r'. receive_run (\<lambda>d w. Some (True, w @ [d])) (\<lambda>_. 0) (\<lambda>_. 0) [[0x91], [0xc0, 0x90]]
      \<lparr>rv_pbf = \<lparr>m_ptr = None, m_mem = (\<lambda>_. 0), m_len = 0, m_limit = 0, m_ofs = 0\<rparr>, rv_sr = mpak_init (\<lambda>_. undefined),
        rv_cells = \<lparr>cnt = Map.empty, fresh = 0\<rparr>, rv_in = [], rv_dg = [], rv_end = Rd_open, rv_w = []\<rparr> = Some r'
    \<and> rv_w r' = [ArrayD [NilD], ArrayD []]"
proof -
  let ?r = "\<lparr>rv_pbf = \<lparr>m_ptr = None, m_mem = (\<lambda>_. 0), m_len = 0, m_limit = 0, m_ofs = 0\<rparr>, rv_sr = mpak_init (\<lambda>_. undefined),
        rv_cells = \<lparr>cnt = Map.empty, fresh = 0\<rparr>, rv_in = [], rv_dg = [], rv_end = Rd_open, rv_w = []\<rparr> :: data list receiver"
  let ?ms = "[PArray [PNil], PArray []]"
  let ?recv = "\<lambda>d w. Some (True, w @ [d])" and ?xss = "[[0x91], [0xc0, 0x90]] :: U8 list list"
  have b: "between_messages ?r"
    by (simp add: between_messages_def fresh_mpak_init unread_def bytes_at_def sized_def pbuf_inv_def)
  have e: "encs ?ms = [0x91, 0xc0, 0x90]" by (simp add: enc_array_len_def FIXARRAY_MASK_def NIL_VALUE_def)
  have "\<exists>r' n bs. receive_run ?recv (\<lambda>_. 0) (\<lambda>_. 0) ?xss ?r = Some r' \<and> concat ?xss = bs @ rv_in r' \<and> n \<le> length ?ms
    \<and> recv_all ?recv (map (meaning (\<lambda>_. 0)) (take n ?ms)) (rv_w ?r) = Some (rv_w r')
    \<and> length (encs (take n ?ms)) \<le> length bs \<and> (n < length ?ms \<longrightarrow> length bs < length (encs (take (Suc n) ?ms)))
    \<and> ((\<forall>xs \<in> set ?xss. length xs \<le> MINIMUM_FREE_PBUF) \<longrightarrow> rv_in r' = [])"
    by (rule stream_is_delivered [where tail = "[]"]) (use b e in \<open>simp_all del: encs.simps\<close>)
  then obtain r' n bs where r': "receive_run ?recv (\<lambda>_. 0) (\<lambda>_. 0) ?xss ?r = Some r'" "concat ?xss = bs @ rv_in r'" "n \<le> length ?ms"
    "recv_all ?recv (map (meaning (\<lambda>_. 0)) (take n ?ms)) (rv_w ?r) = Some (rv_w r')"
    "n < length ?ms \<longrightarrow> length bs < length (encs (take (Suc n) ?ms))"
    "(\<forall>xs \<in> set ?xss. length xs \<le> MINIMUM_FREE_PBUF) \<longrightarrow> rv_in r' = []" by blast
  have "rv_in r' = []" using r'(6) by (simp add: MINIMUM_FREE_PBUF_def)
  then have l: "length bs = 3" using arg_cong [OF r'(2), of length] by simp
  have two: "length (encs (take (Suc 0) ?ms)) = 2" "length (encs (take (Suc 1) ?ms)) = 3" by (simp_all add: enc_array_len_def)
  have "n \<noteq> 0"
  proof
    assume z: "n = 0"
    show False using r'(5) l two(1) unfolding z by simp
  qed
  moreover have "n \<noteq> 1"
  proof
    assume z: "n = 1"
    show False using r'(5) l two(2) unfolding z by simp
  qed
  ultimately have "n = 2" using r'(3) by simp
  then have "rv_w r' = [ArrayD [NilD], ArrayD []]" using r'(4) by (simp add: numeral_2_eq_2)
  with r'(1) show ?thesis by blast
qed

text \<open>
  C40: A datagram that ends within a message is completed by the next one, whoever sent it.  The parser belongs to the
  socket, not to the sender: the message is handed over as one of the second sender's, although its first bytes are
  another's.
\<close>

theorem datagrams_are_joined:
  assumes "between_messages r" and "rv_dg r = (a, u) # (b, v) # ds" and "u @ v = enc m" and "u \<noteq> []" and "v \<noteq> []"
    and "length (enc m) \<le> 1492" and "depth m < 16" and "recv b (dec f2d m) (rv_w r) = Some (True, w)"
  shows "\<exists>r1 r2. read_dgram recv f2d junk r = Some (r_keep, r1) \<and> rv_w r1 = rv_w r
    \<and> read_dgram recv f2d junk r1 = Some (r_keep, r2) \<and> rv_w r2 = w \<and> rv_dg r2 = ds"
proof -
  from assms(1) have p: "fresh_parser (rv_sr r)" "unread (rv_pbf r) = []" "sized (rv_pbf r)"
    "m_ptr (rv_pbf r) \<noteq> None \<Longrightarrow> counted (rv_pbf r) (rv_cells r)" by (simp_all add: between_messages_def)
  have len: "length u \<le> 1492" "length v \<le> 1492" using assms(3,6) by (auto simp flip: assms(3))
  from read_dgram_reads [OF p(3,4) _ assms(2) len(1), of recv f2d junk] p(2) obtain pb c where
    rd: "read_dgram recv f2d junk r = dgram_retry (recv a) f2d (r\<lparr>rv_cells := c, rv_dg := (b, v) # ds, rv_pbf := pb\<rparr>)"
    "unread pb = u" "sized pb" "counted pb c" by auto
  have "awaiting f2d (rv_sr r) m (unread pb @ v)" using awaiting_fresh [OF p(1) assms(7)] rd(2) assms(3) by simp
  from call_more [OF this assms(5) _ rd(3,4)] rd(2) assms(3,6) obtain sr1 pb1 c1 where
    c1: "mpak_unpack (\<lambda>_. True) f2d (rv_sr r) pb c = Some (Inr UNPACK_CONTINUE, sr1, pb1, c1)"
    "awaiting f2d sr1 m (unread pb1 @ v)" "sized pb1" "counted pb1 c1" "length (unread pb1) \<le> length (unread pb)" by auto
  let ?r1 = "r\<lparr>rv_cells := c1, rv_dg := (b, v) # ds, rv_pbf := pb1, rv_sr := sr1\<rparr>"
  have one: "read_dgram recv f2d junk r = Some (r_keep, ?r1)"
    using rd(1) c1(1) by (simp add: dgram_retry.simps sr_unpack_def)
  have "length (unread pb1) \<le> 2 ^ 28" using c1(5) rd(2) len by (simp del: length_unread)
  with read_dgram_reads [of ?r1 b v ds recv f2d junk] c1(3,4) len(2) obtain qb d where
    rd2: "read_dgram recv f2d junk ?r1 = dgram_retry (recv b) f2d (?r1\<lparr>rv_cells := d, rv_dg := ds, rv_pbf := qb\<rparr>)"
    "unread qb = unread pb1 @ v" "sized qb" "counted qb d" by (auto simp del: length_unread)
  from call_done [OF c1(2), of qb "[]" d] rd2(2-4) obtain sr2 pb2 c2 where
    c2: "mpak_unpack (\<lambda>_. True) f2d sr1 qb d = Some (Inr UNPACK_SUCCESS, sr2, pb2, c2)" "at_work sr2 = dec f2d m" by auto
  have "\<exists>r2. read_dgram recv f2d junk ?r1 = Some (r_keep, r2) \<and> rv_w r2 = w \<and> rv_dg r2 = ds"
    using rd2(1) c2 assms(8) by (simp add: dgram_retry.simps sr_unpack_def hand_over_def)
  moreover have "rv_w ?r1 = rv_w r" by simp
  ultimately show ?thesis using one by blast
qed

theorem datagrams_are_joined_witness:
  "\<exists>r1 r2. read_dgram (\<lambda>a d w. Some (True, w @ [(a, d)])) (\<lambda>_. 0) (\<lambda>_. 0)
      \<lparr>rv_pbf = \<lparr>m_ptr = None, m_mem = (\<lambda>_. 0), m_len = 0, m_limit = 0, m_ofs = 0\<rparr>, rv_sr = mpak_init (\<lambda>_. undefined),
        rv_cells = \<lparr>cnt = Map.empty, fresh = 0\<rparr>, rv_in = [], rv_dg = [(1, [0x91]), (2, [0xc0])], rv_end = Rd_open, rv_w = []\<rparr>
      = Some (r_keep, r1) \<and> rv_w r1 = []
    \<and> read_dgram (\<lambda>a d w. Some (True, w @ [(a, d)])) (\<lambda>_. 0) (\<lambda>_. 0) r1 = Some (r_keep, r2)
    \<and> rv_w r2 = [(2, ArrayD [NilD])] \<and> rv_dg r2 = []"
proof -
  let ?r = "\<lparr>rv_pbf = \<lparr>m_ptr = None, m_mem = (\<lambda>_. 0), m_len = 0, m_limit = 0, m_ofs = 0\<rparr>, rv_sr = mpak_init (\<lambda>_. undefined),
        rv_cells = \<lparr>cnt = Map.empty, fresh = 0\<rparr>, rv_in = [], rv_dg = [(1, [0x91]), (2, [0xc0])], rv_end = Rd_open, rv_w = []\<rparr>
      :: (U32 \<times> data) list receiver"
  have "between_messages ?r"
    by (simp add: between_messages_def fresh_mpak_init unread_def bytes_at_def sized_def pbuf_inv_def)
  then show ?thesis
    using datagrams_are_joined [of ?r 1 "[0x91]" 2 "[0xc0]" "[]" "PArray [PNil]" "\<lambda>a d w. Some (True, w @ [(a, d)])" "\<lambda>_. 0"
        "[(2, ArrayD [NilD])]" "\<lambda>_. 0"]
    by (simp add: enc_array_len_def FIXARRAY_MASK_def NIL_VALUE_def)
qed

end
