(* ===== verification/Spec2Isabelle.thy ===== *)
theory Spec2Isabelle
  imports MsgId Pbuf Strings MpakProps MQueue HashMap Ws Http Timer EmitQueue LuaPack Fabric SockRace Receive
begin

text \<open>
  A verification library for the core of \<open>yue\<close>, the C++ sources under \<^verbatim>\<open>src/src/\<close>: a server that runs Lua
  programs as fibers on several threads and lets them call each other, on the same machine or over the network, by
  messages.

  How the parts work together.  A server thread takes the next input of the loop (\<open>Socket\<close>).  Bytes of a peer are read
  into a packet buffer (\<open>Pbuf\<close>) and parsed, however they are cut (\<open>Receive\<close>, \<open>Unpack\<close>); a complete message goes to
  the fabric of the thread (\<open>Fabric\<close>), which starts a fiber for a request and resumes the waiting one for a response.  What
  a fiber sends is packed (\<open>LuaPack\<close>, \<open>Serializer\<close>, \<open>Mpak\<close>) into the write buffer of a socket (\<open>Wbuf\<close>), from
  where the write poller brings it to the peer.  Messages of calls are told apart by ids (\<open>MsgId\<close>).  Objects tell their
  events to watchers (\<open>Emittable\<close>), their commands reach the one thread that owns them in order (\<open>EmitQueue\<close>), tasks
  of other threads come through queues (\<open>Queue\<close>, \<open>MQueue\<close>), timeouts through the timer wheel (\<open>Timer\<close>).  All of them keep their
  objects in arrays and hash tables (\<open>FixAlloc\<close>, \<open>ArrayClass\<close>, \<open>HashMap\<close>).  Web socket connections carry the
  messages in frames (\<open>Ws\<close>) behind an HTTP handshake (\<open>Http\<close>).

  The theories, what they model and what their lemmas show:

  \<^item> \<open>Prelude\<close> (\<^verbatim>\<open>util/types.h\<close>, \<^verbatim>\<open>util/macro.h\<close>): error codes, machine words, byte order, memory; the rewrite
    collections \<open>mem_simps\<close>, \<open>code_defs\<close>, \<open>inv_intros\<close>.
  \<^item> \<open>MsgId\<close> (\<^verbatim>\<open>util/msgid.h\<close>): the ids of one thread do not repeat within a turn and compare in the order they were issued.
  \<^item> \<open>Pbuf\<close> (\<^verbatim>\<open>util/sbuf.h\<close>): \<open>reserve\<close> keeps the unread bytes; memory that is shared between buffers and messages is not
    freed while somebody refers to it; the arena hands out disjoint chunks.
  \<^item> \<open>Strings\<close> (\<^verbatim>\<open>util/util.h\<close>, \<^verbatim>\<open>util/util.cpp\<close>): bounded copies, numbers, request parameters, the prime sieve.
  \<^item> \<open>Mpak\<close>, \<open>Unpack\<close>, \<open>Roundtrip\<close>, \<open>MpakProps\<close>, \<open>Resume\<close> (\<^verbatim>\<open>serializer/mpak/\<close>): packing, the resumable parser, which
    works in any pieces and with any arena, and returns.  \<open>meaning\<close> is what a packed message stands for and \<open>dec\<close> what the parser
    makes of it; they are the same exactly when no negative integer of 8, 16 or 32 bits is in it (\<open>dec_is_meaning\<close>).
  \<^item> \<open>Serializer\<close> (\<^verbatim>\<open>serializer/serializer.h\<close>) and \<open>LuaPack\<close> (\<^verbatim>\<open>ll/lua/lua.cpp\<close>): requests and responses, and that Lua
    arguments and results arrive as they were.
  \<^item> \<open>Queue\<close>, \<open>MQueue\<close> (\<^verbatim>\<open>util/queue.h\<close>): the queue is a list; with several writers every step is defined and an element
    is pushed at one point of time.
  \<^item> \<open>FixAlloc\<close>, \<open>ArrayClass\<close> (\<^verbatim>\<open>util/array.h\<close>), \<open>HashMap\<close> (\<^verbatim>\<open>util/map.h\<close>): elements are given out once; iteration
    survives the erasing of the element it is at; a map is a finite map.
  \<^item> \<open>Ws\<close> (\<^verbatim>\<open>net/protocol/ws.hpp\<close>), \<open>Http\<close> (\<^verbatim>\<open>net/http.h\<close>): a frame is delivered, a reply is parsed.
  \<^item> \<open>Timer\<close> (\<^verbatim>\<open>handler/timerfd.h\<close>): tasks run in the ticks they were asked for; what a task that starts at once may do to the
    wheel is excluded by \<open>startable\<close>.
  \<^item> \<open>Emittable\<close>, \<open>EmitQueue\<close> (\<^verbatim>\<open>emittable.h\<close>, \<^verbatim>\<open>emittable.hpp\<close>): the watchers are a list; commands run in
    order, on one thread at a time, with and without store buffers and failing pushes; with both the code can forget
    commands, without either it does not.
  \<^item> \<open>Fabric\<close> (\<^verbatim>\<open>fiber/\<close>): a suspended fiber is waited for in one place, and a call gets one answer, as long as
    fibers do not wait for events and sends succeed; otherwise destroyed fibers are used.
  \<^item> \<open>Wbuf\<close> (\<^verbatim>\<open>net/wbuf.h\<close>): bytes leave in the order they were sent in, and all of them leave.
  \<^item> \<open>Socket\<close> (\<^verbatim>\<open>handler/socket.h\<close>, \<^verbatim>\<open>handshake.h\<close>, \<^verbatim>\<open>wpoller.h\<close>, \<^verbatim>\<open>loop.hpp\<close>): closing a connection releases its
    descriptor once, unless its handshake ran out of time before.  \<open>SockRace\<close> takes \<open>state_change\<close> apart: every move of the state is
    told once, whatever the threads do, but not always in order.
  \<^item> \<open>Receive\<close> (\<^verbatim>\<open>handler/socket.hpp\<close>): the messages of a stream are handed over in order, however the system cuts it.

  The theorem below composes \<open>Wbuf\<close>, \<open>Pbuf\<close>, \<open>Unpack\<close> and \<open>Receive\<close>: what one side sends, the other side's fabric gets.

  Conventions.  A definition has the name of the function it models, with a prefix where that name is taken.  Records
  have the fields of the classes.  \<open>None\<close> as a result is undefined behaviour or an endless loop, stated in the head of every
  theory (in \<open>Ws\<close> it is an endless loop only, a write behind a buffer is \<open>Overrun\<close>); errors are \<open>Inl\<close>.  Loops that may not end are \<open>partial_function (option)\<close>, the others are shown to terminate.
  There is no fuel.  Results of system calls, of the
  allocator, of locks and of code outside \<^verbatim>\<open>src/\<close> (Lua, the transport plugins) are parameters.  A bound in a hypothesis
  (\<open>2 ^ 28\<close> bytes of a stream, \<open>2 ^ 62\<close> of a buffer) is where the code's \<open>int\<close> or \<open>size_t\<close> arithmetic is still exact.

  Not modelled: the server class and its configuration (\<^verbatim>\<open>server.h\<close>: threads, their set-up and joining, which call the
  components above), the set-up of the loop, the poller and the system timers (system calls), the file-system watcher and
  signals (system calls), the transports tcp, udp, multicast and popen, the parking and addresses (system calls and string
  plumbing), the Lua side but for the conversion of values (the behaviour is that of the Lua library), wrappers of threads
  and locks, functors, the macros of containers that nothing modelled uses, and the vendored hash, random number, SHA-1 and
  base64 code.
\<close>

section \<open>From one process to the other\<close>

text \<open>
  C1: Every message arrives.  One side has sent the messages \<open>ms\<close> through the write buffer of its socket, interleaved in
  any way with the write poller; four more runs of the poller with room in the kernel bring out what is left.  If the
  network hands these bytes to the other side in any pieces, none larger than what a read has room for, and that side
  reads its socket once after each, its fabric is handed exactly the meanings of \<open>ms\<close>, in order and each once.  Provided:
  every send is defined and attaching to the poller never fails (\<open>wbuf_reach\<close>); each message is nested less than sixteen
  deep and has no negative integer of the 8-, 16- or 32-bit forms (they lose their sign, \<^verbatim>\<open>mpak.h:842\<close>); all messages together
  have at most \<open>2 ^ 28\<close> bytes; memory is there on the receiving side, whose connection stays open and is between two messages
  at the start; its fabric accepts every message it is handed.
\<close>

theorem every_message_arrives:
  assumes "wbuf_reach (encs ms) s" and "concat xss = written (flush (flush (flush (flush s))))"
    and "\<forall>xs \<in> set xss. length xs \<le> MINIMUM_FREE_PBUF"
    and "between_messages r" and "rv_in r = []" and "rv_end r = Rd_open"
    and "length (encs ms) \<le> 2 ^ 28" and "\<forall>m \<in> set ms. depth m < 16 \<and> signs_kept m"
    and "recv_all recv (map (meaning f2d) ms) (rv_w r) = Some w"
  shows "\<exists>r'. receive_run recv f2d junk xss r = Some r' \<and> rv_w r' = w"
proof -
  have all: "concat xss @ [] = encs ms" using reach_flushes [OF assms(1)] assms(2) by simp
  note dec = meant [OF assms(8)]
  have w: "recv_all recv (map (dec f2d) ms) (rv_w r) = Some w" using assms(9) dec(3) by simp
  then have "recv_all recv (map (dec f2d) ms) (rv_w r) \<noteq> None" by simp
  from run_reads [OF assms(4-6) all assms(7) dec(1) this, of junk] obtain r' n bs where
    r': "receive_run recv f2d junk xss r = Some r'" "concat xss = bs @ rv_in r'" "n \<le> length ms" "rv_in r' = []"
    "recv_all recv (map (dec f2d) (take n ms)) (rv_w r) = Some (rv_w r')"
    "n < length ms \<longrightarrow> length bs < length (encs (take (Suc n) ms))" using assms(3) by blast
  have "length (encs (take (Suc n) ms)) \<le> length (encs ms)"
    using encs_append [of "take (Suc n) ms" "drop (Suc n) ms"] by (metis append_take_drop_id le_add1 length_append)
  with r' all have "n = length ms" by fastforce
  with r'(1,5) w show ?thesis by simp
qed

theorem every_message_arrives_witness:
  "\<exists>s r'. receive_run (\<lambda>d w. Some (True, w @ [d])) (\<lambda>_. 0) (\<lambda>_. 0) [written (flush (flush (flush (flush s))))]
      \<lparr>rv_pbf = pbuf_empty, rv_sr = mpak_init (\<lambda>_. undefined),
        rv_cells = \<lparr>cnt = Map.empty, fresh = 0\<rparr>, rv_in = [], rv_dg = [], rv_end = Rd_open, rv_w = []\<rparr> = Some r'
    \<and> rv_w r' = [IntD 1, IntD 2, IntD 3]"
proof -
  let ?ms = "[PU8 1, PU8 2, PU8 3]"
  have e: "encs ?ms = [1, 2, 3]" by (simp add: P_FIXNUM_END_def)
  obtain s where s: "wbuf_reach [1, 2, 3] s" using wbuf_reach_example by blast
  let ?r = "\<lparr>rv_pbf = pbuf_empty, rv_sr = mpak_init (\<lambda>_. undefined), rv_cells = \<lparr>cnt = Map.empty, fresh = 0\<rparr>,
      rv_in = [], rv_dg = [], rv_end = Rd_open, rv_w = []\<rparr> :: data list receiver"
  have b: "between_messages ?r"
    by (simp add: between_messages_def fresh_mpak_init unread_def bytes_at_def sized_def pbuf_inv_def pbuf_empty_def)
  have "\<exists>r'. receive_run (\<lambda>d w. Some (True, w @ [d])) (\<lambda>_. 0) (\<lambda>_. 0) [written (flush (flush (flush (flush s))))] ?r = Some r'
    \<and> rv_w r' = [IntD 1, IntD 2, IntD 3]"
    by (rule every_message_arrives [of ?ms s])
      (use s e b reach_flushes [OF s] in \<open>simp_all add: MINIMUM_FREE_PBUF_def del: encs.simps\<close>)
  then show ?thesis by blast
qed

end
